(* ===== verification/Prelude.thy ===== *)
theory Prelude
  imports Main "HOL-Library.Word" "HOL-Library.List_Lexorder" "HOL-Library.Monad_Syntax"
begin

text \<open>
  Shared vocabulary of the development: machine integers and byte strings, Go's slice
  expressions (with the run-time panic of an index out of range as \<^term>\<open>None\<close>), the
  fixed-width little and big endian codecs of \<^verbatim>\<open>encoding/binary\<close>, \<^verbatim>\<open>bytes.Compare\<close>,
  and the binary searches \<^verbatim>\<open>sort.Search\<close> and \<^verbatim>\<open>sort.Find\<close> of Go's standard library.
  The collections \<open>slice_simps\<close> and \<open>endian_simps\<close> carry the component proofs.
\<close>

unbundle bit_operations_syntax

named_theorems slice_simps
named_theorems endian_simps

type_synonym byte = "8 word"
type_synonym u16 = "16 word"
type_synonym u32 = "32 word"
type_synonym u64 = "64 word"
type_synonym bytes = "byte list"

section \<open>Slices\<close>

text \<open>\<open>go_slice xs i j\<close> is \<^verbatim>\<open>xs[i:j]\<close> of a slice whose capacity is its length; a bound
  out of range panics.\<close>

definition go_slice :: "'a list \<Rightarrow> nat \<Rightarrow> nat \<Rightarrow> 'a list option" where
  "go_slice xs i j = (if i \<le> j \<and> j \<le> length xs then Some (take (j - i) (drop i xs)) else None)"

text \<open>\<open>go_index xs i\<close> is \<^verbatim>\<open>xs[i]\<close>.\<close>

definition go_index :: "'a list \<Rightarrow> nat \<Rightarrow> 'a option" where
  "go_index xs i = (if i < length xs then Some (xs ! i) else None)"

text \<open>\<open>go_put xs i ys\<close> writes all of \<open>ys\<close> at offset \<open>i\<close>, as \<^verbatim>\<open>binary.PutUint64\<close> and
  \<^verbatim>\<open>copy(xs[i:i+len(ys)], ys)\<close> do, and panics when it does not fit.\<close>

definition go_put :: "'a list \<Rightarrow> nat \<Rightarrow> 'a list \<Rightarrow> 'a list option" where
  "go_put xs i ys =
     (if i + length ys \<le> length xs then Some (take i xs @ ys @ drop (i + length ys) xs) else None)"

lemma go_slice_length: "go_slice xs i j = Some ys \<Longrightarrow> length ys = j - i"
  by (auto simp: go_slice_def split: if_splits)

lemma go_slice_append [slice_simps]:
  "i = length xs \<Longrightarrow> j = length xs + length ys \<Longrightarrow> go_slice (xs @ ys @ zs) i j = Some ys"
  by (simp add: go_slice_def)

lemma go_slice_append_left:
  "j \<le> length xs \<Longrightarrow> go_slice (xs @ ys) i j = go_slice xs i j"
  by (simp add: go_slice_def)

lemma go_slice_append_right:
  "length xs \<le> i \<Longrightarrow> i \<le> j \<Longrightarrow>
     go_slice (xs @ ys) i j = go_slice ys (i - length xs) (j - length xs)"
  by (auto simp: go_slice_def diff_le_mono)

lemma go_put_length: "go_put xs i ys = Some zs \<Longrightarrow> length zs = length xs"
  by (auto simp: go_put_def split: if_splits)

lemma go_put_slice_same:
  "go_put xs i ys = Some zs \<Longrightarrow> j = i + length ys \<Longrightarrow> go_slice zs i j = Some ys"
  by (auto simp: go_put_def go_slice_def split: if_splits)

lemma go_put_slice_other:
  assumes "go_put xs i ys = Some zs" and "j' \<le> i \<or> i + length ys \<le> i'"
  shows "go_slice zs i' j' = go_slice xs i' j'"
proof -
  from assms(1) have fit: "i + length ys \<le> length xs"
    and zs: "zs = take i xs @ ys @ drop (i + length ys) xs"
    by (auto simp: go_put_def split: if_splits)
  from assms(2) show ?thesis
  proof
    assume "j' \<le> i"
    with fit show ?thesis
      by (auto simp: zs go_slice_def min_absorb1 min_absorb2 drop_take)
  next
    assume "i + length ys \<le> i'"
    moreover from this have "i' - i - length ys + (i + length ys) = i'" by simp
    ultimately show ?thesis using fit
      by (auto simp: zs go_slice_def add.commute add.left_commute)
  qed
qed

lemma go_put_total: "i + length ys \<le> length xs \<Longrightarrow> \<exists>zs. go_put xs i ys = Some zs"
  by (simp add: go_put_def)

section \<open>Fixed-width integers as bytes\<close>

fun le_dec :: "bytes \<Rightarrow> 'a::len word" where
  "le_dec [] = 0"
| "le_dec (b # bs) = ucast b OR push_bit 8 (le_dec bs)"

fun le_enc :: "nat \<Rightarrow> 'a::len word \<Rightarrow> bytes" where
  "le_enc 0 w = []"
| "le_enc (Suc n) w = ucast w # le_enc n (drop_bit 8 w)"

definition be_enc :: "nat \<Rightarrow> 'a::len word \<Rightarrow> bytes" where
  "be_enc n w = rev (le_enc n w)"

definition be_dec :: "bytes \<Rightarrow> 'a::len word" where
  "be_dec bs = le_dec (rev bs)"

lemma length_le_enc [simp]: "length (le_enc n w) = n"
  by (induction n arbitrary: w) auto

lemma length_be_enc [simp]: "length (be_enc n w) = n"
  by (simp add: be_enc_def)

lemma le_dec_enc_take_bit: "le_dec (le_enc n w) = take_bit (8 * n) w"
proof (induction n arbitrary: w)
  case 0
  then show ?case by simp
next
  case (Suc n)
  have "ucast (ucast w :: byte) OR push_bit 8 (take_bit (8 * n) (drop_bit 8 w))
          = take_bit (8 + 8 * n) w"
    by (rule bit_word_eqI) (auto simp: bit_simps)
  then show ?case by (simp add: Suc.IH)
qed

lemma le_dec_enc [endian_simps]:
  fixes w :: "'a::len word"
  assumes "LENGTH('a) \<le> 8 * n"
  shows "le_dec (le_enc n w) = w"
  using assms by (simp add: le_dec_enc_take_bit take_bit_word_eq_self)

lemma be_dec_enc [endian_simps]:
  fixes w :: "'a::len word"
  shows "LENGTH('a) \<le> 8 * n \<Longrightarrow> be_dec (be_enc n w) = w"
  by (simp add: be_dec_def be_enc_def le_dec_enc)

lemma le_dec_zeros: "le_dec (replicate n 0) = 0"
  by (induction n) auto

lemma le_dec_high_bits: "8 * length bs \<le> i \<Longrightarrow> \<not> bit (le_dec bs :: 'a::len word) i"
  by (induction bs arbitrary: i) (auto simp: bit_simps dest: bit_imp_le_length)

lemma le_enc_dec [endian_simps]:
  "length bs = n \<Longrightarrow> 8 * n \<le> LENGTH('a::len) \<Longrightarrow> le_enc n (le_dec bs :: 'a word) = bs"
proof (induction bs arbitrary: n)
  case Nil
  then show ?case by simp
next
  case (Cons b bs)
  then obtain m where n: "n = Suc m" and m: "length bs = m" "8 * m \<le> LENGTH('a)"
    and le: "8 + 8 * m \<le> LENGTH('a)"
    by (cases n) auto
  have hd: "(ucast (ucast b OR push_bit 8 (le_dec bs :: 'a word)) :: byte) = b"
    by (rule bit_word_eqI) (use le in \<open>auto simp: bit_simps\<close>)
  have shift: "drop_bit 8 (ucast b OR push_bit 8 (le_dec bs :: 'a word)) = take_bit (LENGTH('a) - 8) (le_dec bs)"
    by (rule bit_word_eqI) (use le in \<open>auto simp: bit_simps dest: bit_imp_le_length\<close>)
  have "take_bit (LENGTH('a) - 8) (le_dec bs :: 'a word) = le_dec bs"
  proof (rule bit_word_eqI)
    fix i
    show "bit (take_bit (LENGTH('a) - 8) (le_dec bs :: 'a word)) i = bit (le_dec bs :: 'a word) i"
    proof (cases "i < LENGTH('a) - 8")
      case False
      with m le have "8 * length bs \<le> i" by linarith
      then show ?thesis by (simp add: bit_simps le_dec_high_bits)
    qed (simp add: bit_simps)
  qed
  with Cons.IH [OF m] hd shift show ?case
    by (simp add: n)
qed

lemma be_enc_dec [endian_simps]:
  "length bs = n \<Longrightarrow> 8 * n \<le> LENGTH('a::len) \<Longrightarrow> be_enc n (be_dec bs :: 'a word) = bs"
  by (simp add: be_dec_def be_enc_def le_enc_dec)

section \<open>Comparing byte strings\<close>

text \<open>\<^verbatim>\<open>bytes.Compare\<close>: lexicographic, with the results -1, 0 and 1.\<close>

fun bytes_Compare :: "bytes \<Rightarrow> bytes \<Rightarrow> int" where
  "bytes_Compare [] [] = 0"
| "bytes_Compare [] (y # ys) = -1"
| "bytes_Compare (x # xs) [] = 1"
| "bytes_Compare (x # xs) (y # ys) =
     (if x < y then -1 else if y < x then 1 else bytes_Compare xs ys)"

lemma bytes_Compare_less: "bytes_Compare xs ys = -1 \<longleftrightarrow> xs < ys"
  by (induction xs ys rule: bytes_Compare.induct) auto

lemma bytes_Compare_eq: "bytes_Compare xs ys = 0 \<longleftrightarrow> xs = ys"
  by (induction xs ys rule: bytes_Compare.induct) auto

lemma bytes_Compare_iff:
  "bytes_Compare xs ys = (if xs < ys then -1 else if xs = ys then 0 else 1)"
  by (induction xs ys rule: bytes_Compare.induct) auto

text \<open>The contract a user comparer (\<^verbatim>\<open>base.Compare\<close>) has to meet: a three-way total order.\<close>

locale total_cmp =
  fixes cmp :: "bytes \<Rightarrow> bytes \<Rightarrow> int"
  assumes cmp_refl: "cmp a b = 0 \<longleftrightarrow> a = b"
    and cmp_sym: "0 < cmp a b \<longleftrightarrow> cmp b a < 0"
    and cmp_trans: "cmp a b < 0 \<Longrightarrow> cmp b c < 0 \<Longrightarrow> cmp a c < 0"
begin

lemma cmp_self [simp]: "cmp a a = 0"
  by (simp add: cmp_refl)

lemma cmp_le_trans: "cmp a b \<le> 0 \<Longrightarrow> cmp b c \<le> 0 \<Longrightarrow> cmp a c \<le> 0"
  by (metis cmp_refl cmp_trans order_less_le)

lemma cmp_le_total: "cmp a b \<le> 0 \<or> cmp b a \<le> 0"
  using cmp_sym [of a b] by linarith

lemma cmp_less_le_trans: "cmp a b < 0 \<Longrightarrow> cmp b c \<le> 0 \<Longrightarrow> cmp a c < 0"
  by (metis cmp_refl cmp_trans order_less_le)

lemma cmp_le_antisym: "cmp a b \<le> 0 \<Longrightarrow> cmp b a \<le> 0 \<Longrightarrow> a = b"
  by (metis cmp_refl cmp_sym linorder_not_less order_antisym_conv)

end

interpretation bytes_cmp: total_cmp bytes_Compare
  by unfold_locales (auto simp: bytes_Compare_iff split: if_splits)

section \<open>Binary search\<close>

text \<open>\<^verbatim>\<open>sort.Search(n, f)\<close>; the predicate may panic.\<close>

function search_loop :: "(nat \<Rightarrow> bool option) \<Rightarrow> nat \<Rightarrow> nat \<Rightarrow> nat option" where
  "search_loop f i j =
     (if i < j then
        (let h = (i + j) div 2 in
         case f h of
           None \<Rightarrow> None
         | Some False \<Rightarrow> search_loop f (Suc h) j
         | Some True \<Rightarrow> search_loop f i h)
      else Some i)"
  by pat_completeness auto
termination
  by (relation "measure (\<lambda>(f, i, j). j - i)") auto

declare search_loop.simps [simp del]

definition sort_Search :: "nat \<Rightarrow> (nat \<Rightarrow> bool option) \<Rightarrow> nat option" where
  "sort_Search n f = search_loop f 0 n"

text \<open>\<^verbatim>\<open>sort.Find(n, cmp)\<close>: the least index with \<open>cmp i \<le> 0\<close>, and whether it is an exact hit.\<close>

definition sort_Find :: "nat \<Rightarrow> (nat \<Rightarrow> int option) \<Rightarrow> (nat \<times> bool) option" where
  "sort_Find n f =
     do {
       i \<leftarrow> sort_Search n (\<lambda>h. map_option (\<lambda>c. c \<le> 0) (f h));
       if i < n then do { c \<leftarrow> f i; Some (i, c = 0) } else Some (i, False)
     }"

lemma search_loop_least:
  assumes "i \<le> j" and "\<And>h. i \<le> h \<Longrightarrow> h < j \<Longrightarrow> f h = Some (p h)"
    and "\<And>h k. i \<le> h \<Longrightarrow> h \<le> k \<Longrightarrow> k < j \<Longrightarrow> p h \<Longrightarrow> p k"
  shows "\<exists>r. search_loop f i j = Some r \<and> i \<le> r \<and> r \<le> j \<and>
           (\<forall>k. i \<le> k \<and> k < r \<longrightarrow> \<not> p k) \<and> (\<forall>k. r \<le> k \<and> k < j \<longrightarrow> p k)"
  using assms
proof (induction f i j rule: search_loop.induct)
  case (1 f i j)
  show ?case
  proof (cases "i < j")
    case False
    with "1.prems"(1) show ?thesis by (auto simp: search_loop.simps)
  next
    case True
    define h where "h = (i + j) div 2"
    have h: "i \<le> h" "h < j" using True by (auto simp: h_def)
    with "1.prems"(2) have fh: "f h = Some (p h)" by simp
    have unfold: "search_loop f i j = (if p h then search_loop f i h else search_loop f (Suc h) j)"
      using True fh by (subst search_loop.simps) (simp add: Let_def flip: h_def)
    show ?thesis
    proof (cases "p h")
      case True
      have "\<exists>r. search_loop f i h = Some r \<and> i \<le> r \<and> r \<le> h \<and>
           (\<forall>k. i \<le> k \<and> k < r \<longrightarrow> \<not> p k) \<and> (\<forall>k. r \<le> k \<and> k < h \<longrightarrow> p k)"
        by (rule "1.IH"(1) [OF \<open>i < j\<close> h_def fh])
          (simp_all only: True, (meson h "1.prems"(2,3) less_trans)+)
      then obtain r where r: "search_loop f i h = Some r" "i \<le> r" "r \<le> h"
        "\<forall>k. i \<le> k \<and> k < r \<longrightarrow> \<not> p k" "\<forall>k. r \<le> k \<and> k < h \<longrightarrow> p k" by blast
      have "p k" if "r \<le> k" "k < j" for k
        using "1.prems"(3) [of h k] that h True r(5) by (meson linorder_not_less)
      with r h True show ?thesis by (intro exI [of _ r]) (simp add: unfold)
    next
      case False
      have "\<exists>r. search_loop f (Suc h) j = Some r \<and> Suc h \<le> r \<and> r \<le> j \<and>
           (\<forall>k. Suc h \<le> k \<and> k < r \<longrightarrow> \<not> p k) \<and> (\<forall>k. r \<le> k \<and> k < j \<longrightarrow> p k)"
        by (rule "1.IH"(2) [OF \<open>i < j\<close> h_def fh])
          (simp_all only: False, (meson h "1.prems"(2,3) Suc_leI Suc_leD le_trans)+)
      then obtain r where r: "search_loop f (Suc h) j = Some r" "Suc h \<le> r" "r \<le> j"
        "\<forall>k. Suc h \<le> k \<and> k < r \<longrightarrow> \<not> p k" "\<forall>k. r \<le> k \<and> k < j \<longrightarrow> p k" by blast
      have "\<not> p k" if "i \<le> k" "k < r" for k
        using "1.prems"(3) [of k h] that h False r(4) by (meson not_less_eq_eq)
      with r h False show ?thesis by (intro exI [of _ r]) (simp add: unfold)
    qed
  qed
qed

text \<open>Over an ascending predicate the search returns the least index where it holds.\<close>

lemma sort_Search_least:
  assumes "\<And>h. h < n \<Longrightarrow> f h = Some (p h)" and "\<And>h k. h \<le> k \<Longrightarrow> k < n \<Longrightarrow> p h \<Longrightarrow> p k"
  obtains r where "sort_Search n f = Some r" "r \<le> n" "\<And>k. k < r \<Longrightarrow> \<not> p k"
    "\<And>k. r \<le> k \<Longrightarrow> k < n \<Longrightarrow> p k"
  using search_loop_least [of 0 n f p] assms by (auto simp: sort_Search_def)

section \<open>Unsigned arithmetic without wrap-around\<close>

lemma unat32: "n < 2 ^ 32 \<Longrightarrow> unat (of_nat n :: u32) = n"
  by (simp add: unat_of_nat)

lemma unat_plus: "unat (a :: u32) + unat b < 2 ^ 32 \<Longrightarrow> unat (a + b) = unat a + unat b"
  by (simp add: unat_word_ariths)

section \<open>Streams of records\<close>

text \<open>
  The contract of a sequential reader: \<open>next\<close> takes one record off the front, \<open>read_all\<close> is
  the loop that calls it until it reports the end, and \<open>enc\<close> is what the writer appends. It
  holds for byte strings the reader accepts (\<open>fits\<close>, closed under dropping a prefix).
\<close>

locale record_stream =
  fixes enc :: "'a \<Rightarrow> bytes" and nxt :: "bytes \<Rightarrow> (bytes \<times> 'a option) option"
    and read_all :: "bytes \<Rightarrow> 'a list option" and valid :: "'a \<Rightarrow> bool" and fits :: "bytes \<Rightarrow> bool"
  assumes read_all_unfold: "read_all r =
      (case nxt r of
         None \<Rightarrow> None
       | Some (r', None) \<Rightarrow> Some []
       | Some (r', Some e) \<Rightarrow> map_option ((#) e) (read_all r'))"
    and nxt_nil: "nxt [] = Some ([], None)"
    and nxt_enc: "valid x \<Longrightarrow> fits (enc x @ rest) \<Longrightarrow> nxt (enc x @ rest) = Some (rest, Some x)"
    and fits_drop: "fits (xs @ ys) \<Longrightarrow> fits ys"
begin

lemma read_all_concat:
  "\<forall>x \<in> set xs. valid x \<Longrightarrow> fits (concat (map enc xs)) \<Longrightarrow> read_all (concat (map enc xs)) = Some xs"
proof (induction xs)
  case Nil
  then show ?case by (subst read_all_unfold) (simp add: nxt_nil)
next
  case (Cons x xs)
  then show ?case
    using fits_drop [of "enc x"] by (subst read_all_unfold) (simp add: nxt_enc)
qed

end

end
