(* ===== verification/Internal_Key.thy ===== *)
theory Internal_Key
  imports Prelude
begin

text \<open>
  Internal keys and values (\<^verbatim>\<open>internal/base/internal.go\<close>): a user key with a 64-bit
  trailer that packs a 56-bit sequence number above an 8-bit kind. The lemmas show that the
  accessors invert the packing, that the byte encoding round-trips, and that
  \<^verbatim>\<open>InternalCompare\<close> orders keys by user key and then newest first, so that a search key
  stands before every version of its user key. A Go \<^verbatim>\<open>nil\<close> byte slice is \<^term>\<open>[]\<close> here.
\<close>

type_synonym InternalKeyKind = byte

abbreviation (input) InternalKeyKindDelete :: InternalKeyKind where "InternalKeyKindDelete \<equiv> 0"
abbreviation (input) InternalKeyKindSet :: InternalKeyKind where "InternalKeyKindSet \<equiv> 1"
abbreviation (input) InternalKeyKindSetBithash :: InternalKeyKind where "InternalKeyKindSetBithash \<equiv> 2"
abbreviation (input) InternalKeyKindLogData :: InternalKeyKind where "InternalKeyKindLogData \<equiv> 3"
abbreviation (input) InternalKeyKindPrefixDelete :: InternalKeyKind where "InternalKeyKindPrefixDelete \<equiv> 4"
abbreviation (input) InternalKeyKindExpireAt :: InternalKeyKind where "InternalKeyKindExpireAt \<equiv> 5"
abbreviation (input) InternalKeyKindMax :: InternalKeyKind where "InternalKeyKindMax \<equiv> 18"
abbreviation (input) InternalKeyKindInvalid :: InternalKeyKind where "InternalKeyKindInvalid \<equiv> 255"

definition InternalKeySeqNumBatch :: u64 where
  "InternalKeySeqNumBatch = push_bit 55 1"

definition InternalKeySeqNumMax :: u64 where
  "InternalKeySeqNumMax = push_bit 56 1 - 1"

record InternalKey =
  UserKey :: bytes
  Trailer :: u64

definition EncodeTrailer :: "u64 \<Rightarrow> InternalKeyKind \<Rightarrow> u64" where
  "EncodeTrailer seqNum kind = push_bit 8 seqNum OR ucast kind"

definition DecodeTrailer :: "u64 \<Rightarrow> u64 \<times> InternalKeyKind" where
  "DecodeTrailer trailer = (drop_bit 8 trailer, ucast (trailer AND 0xff))"

definition DecodeKind :: "u64 \<Rightarrow> InternalKeyKind" where
  "DecodeKind trailer = ucast (trailer AND 0xff)"

definition MakeInternalKey :: "bytes \<Rightarrow> u64 \<Rightarrow> InternalKeyKind \<Rightarrow> InternalKey" where
  "MakeInternalKey userKey seqNum kind =
     \<lparr>UserKey = userKey, Trailer = push_bit 8 seqNum OR ucast kind\<rparr>"

definition MakeInternalKey2 :: "bytes \<Rightarrow> u64 \<Rightarrow> InternalKey" where
  "MakeInternalKey2 userKey trailer = \<lparr>UserKey = userKey, Trailer = trailer\<rparr>"

definition MakeInternalSetKey :: "bytes \<Rightarrow> InternalKey" where
  "MakeInternalSetKey userKey = MakeInternalKey userKey 1 InternalKeyKindSet"

definition MakeSearchKey :: "bytes \<Rightarrow> InternalKey" where
  "MakeSearchKey userKey =
     \<lparr>UserKey = userKey,
      Trailer = push_bit 8 InternalKeySeqNumMax OR ucast InternalKeyKindMax\<rparr>"

definition DecodeInternalKey :: "bytes \<Rightarrow> InternalKey" where
  "DecodeInternalKey encodedKey =
     (if 8 \<le> length encodedKey then
        (let n = length encodedKey - 8 in
         \<lparr>UserKey = take n encodedKey, Trailer = le_dec (drop n encodedKey)\<rparr>)
      else \<lparr>UserKey = [], Trailer = ucast InternalKeyKindInvalid\<rparr>)"

definition InternalCompare :: "(bytes \<Rightarrow> bytes \<Rightarrow> int) \<Rightarrow> InternalKey \<Rightarrow> InternalKey \<Rightarrow> int" where
  "InternalCompare userCmp a b =
     (let x = userCmp (UserKey a) (UserKey b) in
      if x \<noteq> 0 then x
      else if Trailer a > Trailer b then -1
      else if Trailer a < Trailer b then 1
      else 0)"

text \<open>\<^verbatim>\<open>Encode(buf)\<close> copies as much of the key as fits and then needs eight more bytes.\<close>

definition InternalKey_Encode :: "InternalKey \<Rightarrow> bytes \<Rightarrow> bytes option" where
  "InternalKey_Encode k buf =
     (let i = min (length buf) (length (UserKey k)) in
      do {
        buf' \<leftarrow> go_put buf 0 (take i (UserKey k));
        go_put buf' i (le_enc 8 (Trailer k))
      })"

definition InternalKey_EncodeTrailer :: "InternalKey \<Rightarrow> bytes" where
  "InternalKey_EncodeTrailer k = le_enc 8 (Trailer k)"

definition InternalKey_Size :: "InternalKey \<Rightarrow> nat" where
  "InternalKey_Size k = length (UserKey k) + 8"

definition SetSeqNum :: "InternalKey \<Rightarrow> u64 \<Rightarrow> InternalKey" where
  "SetSeqNum k seqNum = k\<lparr>Trailer := push_bit 8 seqNum OR (Trailer k AND 0xff)\<rparr>"

definition SeqNum :: "InternalKey \<Rightarrow> u64" where
  "SeqNum k = drop_bit 8 (Trailer k)"

definition Visible :: "InternalKey \<Rightarrow> u64 \<Rightarrow> bool" where
  "Visible k snapshot \<longleftrightarrow>
     (let seqNum = SeqNum k in seqNum \<le> snapshot \<or> (seqNum AND InternalKeySeqNumBatch) \<noteq> 0)"

definition SetKind :: "InternalKey \<Rightarrow> InternalKeyKind \<Rightarrow> InternalKey" where
  "SetKind k kind = k\<lparr>Trailer := (Trailer k AND NOT 0xff) OR ucast kind\<rparr>"

definition Kind :: "InternalKey \<Rightarrow> InternalKeyKind" where
  "Kind k = ucast (Trailer k AND 0xff)"

definition Valid :: "InternalKey \<Rightarrow> bool" where
  "Valid k \<longleftrightarrow> Kind k \<le> InternalKeyKindMax"

definition Clone :: "InternalKey \<Rightarrow> InternalKey" where
  "Clone k = (if length (UserKey k) = 0 then k
              else \<lparr>UserKey = [] @ UserKey k, Trailer = Trailer k\<rparr>)"

text \<open>Internal values: a header in the trailer's format and the user value.\<close>

record InternalValue =
  Header :: u64
  UserValue :: bytes

definition MakeInternalValue :: "bytes \<Rightarrow> u64 \<Rightarrow> InternalKeyKind \<Rightarrow> InternalValue" where
  "MakeInternalValue value seqNum kind =
     \<lparr>Header = push_bit 8 seqNum OR ucast kind, UserValue = value\<rparr>"

definition InternalValue_Kind :: "InternalValue \<Rightarrow> InternalKeyKind" where
  "InternalValue_Kind v = ucast (Header v AND 0xff)"

definition InternalValue_SeqNum :: "InternalValue \<Rightarrow> u64" where
  "InternalValue_SeqNum v = drop_bit 8 (Header v)"

definition InternalValue_SetSeqNum :: "InternalValue \<Rightarrow> u64 \<Rightarrow> InternalValue" where
  "InternalValue_SetSeqNum v seqNum = v\<lparr>Header := push_bit 8 seqNum OR (Header v AND 0xff)\<rparr>"

definition InternalValue_SetKind :: "InternalValue \<Rightarrow> InternalKeyKind \<Rightarrow> InternalValue" where
  "InternalValue_SetKind v kind = v\<lparr>Header := (Header v AND NOT 0xff) OR ucast kind\<rparr>"

definition EncodeInternalValue :: "bytes \<Rightarrow> u64 \<Rightarrow> InternalKeyKind \<Rightarrow> bytes" where
  "EncodeInternalValue value seqNum kind = le_enc 8 (push_bit 8 seqNum OR ucast kind :: u64) @ value"

text \<open>The result is \<open>(isSeparate, v, ev)\<close>; a component the code leaves unset is zero.\<close>

definition DecodeInternalValue :: "bytes \<Rightarrow> bool \<times> bytes \<times> InternalValue" where
  "DecodeInternalValue value =
     (case value of
        [] \<Rightarrow> (False, [], \<lparr>Header = 0, UserValue = []\<rparr>)
      | b # rest \<Rightarrow>
          if b = 0 then (False, rest, \<lparr>Header = 0, UserValue = []\<rparr>)
          else if 8 \<le> length rest then
            (True, [], \<lparr>Header = le_dec (take 8 rest), UserValue = drop 8 rest\<rparr>)
          else (True, [], \<lparr>Header = ucast InternalKeyKindInvalid, UserValue = []\<rparr>))"

definition CheckValueBithashValid :: "bytes \<Rightarrow> bool" where
  "CheckValueBithashValid v \<longleftrightarrow> length v = 4"

section \<open>The trailer\<close>

lemmas trailer_defs = EncodeTrailer_def DecodeTrailer_def DecodeKind_def MakeInternalKey_def
  MakeInternalKey2_def SeqNum_def Kind_def SetSeqNum_def SetKind_def

lemma mask8: "(0xff :: u64) = mask 8"
  by (simp add: mask_eq_exp_minus_1)

lemma trailer_low: "ucast ((push_bit 8 s OR ucast k :: u64) AND 0xff) = (k :: byte)"
  unfolding mask8 by (rule bit_word_eqI) (auto simp: bit_simps)

lemma trailer_high: "drop_bit 8 (push_bit 8 s OR ucast (k :: byte) :: u64) = take_bit 56 s"
  by (rule bit_word_eqI) (auto simp: bit_simps dest: bit_imp_le_length)

lemma SeqNum_MakeInternalKey: "SeqNum (MakeInternalKey u s k) = take_bit 56 s"
  unfolding SeqNum_def MakeInternalKey_def by (simp only: InternalKey.select_convs trailer_high)

lemma Kind_MakeInternalKey [simp]: "Kind (MakeInternalKey u s k) = k"
  unfolding Kind_def MakeInternalKey_def by (simp only: InternalKey.select_convs trailer_low)

lemma UserKey_MakeInternalKey [simp]: "UserKey (MakeInternalKey u s k) = u"
  by (simp add: MakeInternalKey_def)

lemma DecodeTrailer_EncodeTrailer: "DecodeTrailer (EncodeTrailer s k) = (take_bit 56 s, k)"
  unfolding DecodeTrailer_def EncodeTrailer_def by (simp only: trailer_high trailer_low)

lemma InternalKeySeqNumMax_mask: "InternalKeySeqNumMax = mask 56"
  by (simp add: InternalKeySeqNumMax_def mask_eq_exp_minus_1)

lemma unat_SeqNum: "unat (SeqNum k) = unat (Trailer k) div 256"
  by (simp add: SeqNum_def drop_bit_eq_div unat_div)

lemma unat_Kind: "unat (Kind k) = unat (Trailer k) mod 256"
  unfolding Kind_def mask8
  by (simp add: unsigned_ucast_eq unsigned_take_bit_eq take_bit_eq_mod unat_mod flip: take_bit_eq_mask)

lemma trailer_div_mod: "unat (Trailer k) = 256 * unat (SeqNum k) + unat (Kind k)"
  by (simp add: unat_SeqNum unat_Kind)

lemma SeqNum_bound: "SeqNum k \<le> InternalKeySeqNumMax"
proof -
  have "unat (Trailer k) < 2 ^ 64" using unsigned_less [of "Trailer k"] by simp
  then show ?thesis by (simp add: word_le_nat_alt unat_SeqNum InternalKeySeqNumMax_def)
qed

lemma seqNum_fits: "s \<le> InternalKeySeqNumMax \<Longrightarrow> take_bit 56 s = s"
  by (simp add: word_le_nat_alt InternalKeySeqNumMax_def word_unat_eq_iff unsigned_take_bit_eq
      take_bit_nat_eq_self)

text \<open>
  C1: The trailer packs and unpacks exactly: for every sequence number up to
  \<^verbatim>\<open>InternalKeySeqNumMax\<close> and every kind, an internal key returns the user key, the sequence
  number and the kind it was made from; replacing one of the two by \<^verbatim>\<open>SetSeqNum\<close> or
  \<^verbatim>\<open>SetKind\<close> leaves the other unchanged.
\<close>

theorem MakeInternalKey_fields:
  assumes "s \<le> InternalKeySeqNumMax" and "s' \<le> InternalKeySeqNumMax"
  shows "UserKey (MakeInternalKey u s k) = u \<and> SeqNum (MakeInternalKey u s k) = s
    \<and> Kind (MakeInternalKey u s k) = k
    \<and> SetSeqNum (MakeInternalKey u s k) s' = MakeInternalKey u s' k
    \<and> SetKind (MakeInternalKey u s k) k' = MakeInternalKey u s k'
    \<and> DecodeTrailer (EncodeTrailer s k) = (s, k)"
proof -
  have "(push_bit 8 s OR ucast k :: u64) AND NOT 0xff OR ucast k' = push_bit 8 s OR ucast k'"
    unfolding mask8 by (rule bit_word_eqI) (auto simp: bit_simps dest: bit_imp_le_length)
  then have "SetKind (MakeInternalKey u s k) k' = MakeInternalKey u s k'"
    by (simp add: SetKind_def MakeInternalKey_def)
  moreover have "push_bit 8 s' OR (push_bit 8 s OR ucast k :: u64) AND 0xff = push_bit 8 s' OR ucast k"
    unfolding mask8 by (rule bit_word_eqI) (auto simp: bit_simps dest: bit_imp_le_length)
  then have "SetSeqNum (MakeInternalKey u s k) s' = MakeInternalKey u s' k"
    by (simp add: SetSeqNum_def MakeInternalKey_def)
  ultimately show ?thesis
    using assms by (simp add: SeqNum_MakeInternalKey DecodeTrailer_EncodeTrailer seqNum_fits)
qed

theorem MakeInternalKey_fields_witness:
  "SeqNum (MakeInternalKey [1, 2] 77 InternalKeyKindSet) = 77
   \<and> SetKind (MakeInternalKey [1, 2] 77 InternalKeyKindSet) InternalKeyKindDelete
       = MakeInternalKey [1, 2] 77 InternalKeyKindDelete"
  using MakeInternalKey_fields [of 77 78 "[1, 2]" InternalKeyKindSet InternalKeyKindDelete]
  by (simp add: InternalKeySeqNumMax_def)

section \<open>The byte encoding\<close>

lemma InternalKey_Encode_exact:
  assumes "length buf = InternalKey_Size k"
  shows "InternalKey_Encode k buf = Some (UserKey k @ InternalKey_EncodeTrailer k)"
  using assms by (simp add: InternalKey_Encode_def InternalKey_Size_def InternalKey_EncodeTrailer_def
      go_put_def Let_def)

lemma DecodeInternalKey_append [simp]:
  "DecodeInternalKey (UserKey k @ InternalKey_EncodeTrailer k) = k"
  by (simp add: DecodeInternalKey_def InternalKey_EncodeTrailer_def Let_def endian_simps)

lemma DecodeInternalKey_short:
  "length bs < 8 \<Longrightarrow> \<not> Valid (DecodeInternalKey bs)"
  by (simp add: DecodeInternalKey_def Valid_def Kind_def)

text \<open>
  C2: Encoding a key into a buffer of its size never panics and decoding the bytes gives the
  key back; every byte string of at least eight bytes is the encoding of the key it decodes
  to, and a shorter one decodes to a key that is not valid.
\<close>

theorem InternalKey_roundtrip:
  "(length buf = InternalKey_Size k \<longrightarrow>
      map_option DecodeInternalKey (InternalKey_Encode k buf) = Some k)
   \<and> (8 \<le> length bs \<longrightarrow> InternalKey_Encode (DecodeInternalKey bs) bs = Some bs)
   \<and> (length bs < 8 \<longrightarrow> \<not> Valid (DecodeInternalKey bs))"
proof (intro conjI impI)
  assume "8 \<le> length bs"
  then have size: "length bs = InternalKey_Size (DecodeInternalKey bs)"
    by (simp add: InternalKey_Size_def DecodeInternalKey_def Let_def)
  have "UserKey (DecodeInternalKey bs) @ InternalKey_EncodeTrailer (DecodeInternalKey bs) = bs"
    using \<open>8 \<le> length bs\<close>
    by (simp add: DecodeInternalKey_def InternalKey_EncodeTrailer_def Let_def endian_simps)
  with InternalKey_Encode_exact [OF size]
  show "InternalKey_Encode (DecodeInternalKey bs) bs = Some bs" by simp
qed (simp_all add: InternalKey_Encode_exact DecodeInternalKey_short)

theorem InternalKey_roundtrip_witness:
  "map_option DecodeInternalKey (InternalKey_Encode (MakeInternalKey [7] 5 1) (replicate 9 0))
     = Some (MakeInternalKey [7] 5 1)
   \<and> \<not> Valid (DecodeInternalKey [1, 2, 3])"
proof -
  have "length (replicate 9 (0 :: byte)) = InternalKey_Size (MakeInternalKey [7] 5 1)"
    by (simp add: InternalKey_Size_def)
  then show ?thesis
    using InternalKey_roundtrip [of "replicate 9 0" "MakeInternalKey [7] 5 1" "[1, 2, 3]"]
    by (simp only: list.size, simp)
qed

lemma DecodeInternalValue_encode:
  "b \<noteq> 0 \<Longrightarrow> DecodeInternalValue (b # EncodeInternalValue v s k) = (True, [], MakeInternalValue v s k)"
  by (simp add: DecodeInternalValue_def EncodeInternalValue_def MakeInternalValue_def endian_simps)

section \<open>The order\<close>

context total_cmp
begin

lemma InternalCompare_neg:
  "InternalCompare cmp a b < 0 \<longleftrightarrow>
     cmp (UserKey a) (UserKey b) < 0 \<or> (UserKey a = UserKey b \<and> Trailer b < Trailer a)"
  by (auto simp: InternalCompare_def Let_def cmp_refl)

lemma InternalCompare_zero: "InternalCompare cmp a b = 0 \<longleftrightarrow> a = b"
  by (cases a; cases b) (auto simp: InternalCompare_def Let_def cmp_refl not_less_iff_gr_or_eq)

lemma InternalCompare_sym: "0 < InternalCompare cmp a b \<longleftrightarrow> InternalCompare cmp b a < 0"
  using cmp_sym [of "UserKey a" "UserKey b"] cmp_refl
  by (auto simp: InternalCompare_def Let_def)

lemma InternalCompare_trans:
  assumes "InternalCompare cmp a b < 0" and "InternalCompare cmp b c < 0"
  shows "InternalCompare cmp a c < 0"
  using assms cmp_trans by (auto simp: InternalCompare_neg)

lemma InternalCompare_le_trans:
  assumes "InternalCompare cmp a b \<le> 0" and "InternalCompare cmp b c \<le> 0"
  shows "InternalCompare cmp a c \<le> 0"
  using assms InternalCompare_trans InternalCompare_zero by (metis order_less_le)

lemma MakeSearchKey_first:
  assumes "Valid k"
  shows "InternalCompare cmp (MakeSearchKey u) k \<le> 0 \<longleftrightarrow> cmp u (UserKey k) \<le> 0"
proof -
  have "unat (Trailer k) \<le> 256 * (2 ^ 56 - 1) + 18"
    using assms SeqNum_bound [of k]
    by (simp add: trailer_div_mod Valid_def word_le_nat_alt InternalKeySeqNumMax_def)
  then have "Trailer k \<le> Trailer (MakeSearchKey u)"
    by (simp add: MakeSearchKey_def InternalKeySeqNumMax_def word_le_nat_alt)
  then show ?thesis
    by (auto simp: InternalCompare_def Let_def MakeSearchKey_def cmp_refl)
qed

end

text \<open>
  C3: Under \<^verbatim>\<open>bytes.Compare\<close>, \<^verbatim>\<open>InternalCompare\<close> is a three-way total order on internal
  keys, by user key ascending and, among the versions of one user key, by sequence number
  descending; the search key of a user key is at or before every valid internal key of that
  user key and after every key of a smaller one, so a seek with it finds the newest version.
\<close>

theorem InternalCompare_order:
  "(InternalCompare bytes_Compare a b = 0 \<longleftrightarrow> a = b)
   \<and> (0 < InternalCompare bytes_Compare a b \<longleftrightarrow> InternalCompare bytes_Compare b a < 0)
   \<and> (InternalCompare bytes_Compare a b < 0 \<and> InternalCompare bytes_Compare b c < 0 \<longrightarrow>
        InternalCompare bytes_Compare a c < 0)
   \<and> (SeqNum b < SeqNum a \<and> UserKey a = UserKey b \<longrightarrow> InternalCompare bytes_Compare a b < 0)
   \<and> (Valid a \<longrightarrow> (InternalCompare bytes_Compare (MakeSearchKey u) a \<le> 0 \<longleftrightarrow> u \<le> UserKey a))"
proof (intro conjI)
  have "Trailer b < Trailer a" if "SeqNum b < SeqNum a"
    using that by (simp add: word_less_nat_alt unat_SeqNum)
  then show "SeqNum b < SeqNum a \<and> UserKey a = UserKey b \<longrightarrow> InternalCompare bytes_Compare a b < 0"
    by (simp add: bytes_cmp.InternalCompare_neg)
  show "Valid a \<longrightarrow> (InternalCompare bytes_Compare (MakeSearchKey u) a \<le> 0 \<longleftrightarrow> u \<le> UserKey a)"
    by (auto simp: bytes_cmp.MakeSearchKey_first bytes_Compare_iff)
  show "InternalCompare bytes_Compare a b < 0 \<and> InternalCompare bytes_Compare b c < 0 \<longrightarrow>
      InternalCompare bytes_Compare a c < 0"
    using bytes_cmp.InternalCompare_trans by blast
qed (rule bytes_cmp.InternalCompare_zero bytes_cmp.InternalCompare_sym)+

theorem InternalCompare_order_witness:
  "InternalCompare bytes_Compare (MakeInternalKey [9] 8 1) (MakeInternalKey [9] 7 1) < 0
   \<and> InternalCompare bytes_Compare (MakeSearchKey [9]) (MakeInternalKey [9] 8 1) \<le> 0"
  using InternalCompare_order [of "MakeInternalKey [9] 8 1" "MakeInternalKey [9] 7 1"
      "MakeInternalKey [9] 7 1" "[9]"]
  by (simp add: MakeInternalKey_def SeqNum_def Valid_def Kind_def)

end
