(* ===== verification/Log_Writer.thy ===== *)
theory Log_Writer
  imports Internal_Key
begin

text \<open>
  The write-ahead log writer (\<^verbatim>\<open>internal/record/log_writer.go\<close>, \<^verbatim>\<open>internal/crc/crc.go\<close>).
  A log is a sequence of 32 KiB blocks; a record is cut into chunks that never cross a block
  boundary, each with an eleven byte recyclable header (checksum, length, type, log number).
  The writer fills the current block and queues full blocks, which the flush loop writes to
  the file. \<open>lw_flush\<close> is one iteration of the flush loop; it may run between any two
  operations, and it is what a writer that finds no free block waits for. The underlying
  file is \<open>lw_out\<close>; I/O errors of the file are not modelled. \<open>lw_stream\<close> is everything the
  writer has accepted so far, flushed or not: flushing never changes it, and every record
  extends it by its chunks.
\<close>

definition blockSize :: nat where "blockSize = 32 * 1024"
definition legacyHeaderSize :: nat where "legacyHeaderSize = 7"
definition recyclableHeaderSize :: nat where "recyclableHeaderSize = legacyHeaderSize + 4"

abbreviation (input) fullChunkType :: byte where "fullChunkType \<equiv> 1"
abbreviation (input) firstChunkType :: byte where "firstChunkType \<equiv> 2"
abbreviation (input) middleChunkType :: byte where "middleChunkType \<equiv> 3"
abbreviation (input) lastChunkType :: byte where "lastChunkType \<equiv> 4"
abbreviation (input) recyclableFullChunkType :: byte where "recyclableFullChunkType \<equiv> 5"
abbreviation (input) recyclableFirstChunkType :: byte where "recyclableFirstChunkType \<equiv> 6"
abbreviation (input) recyclableMiddleChunkType :: byte where "recyclableMiddleChunkType \<equiv> 7"
abbreviation (input) recyclableLastChunkType :: byte where "recyclableLastChunkType \<equiv> 8"

section \<open>Checksum\<close>

text \<open>\<^verbatim>\<open>hash/crc32\<close> with the Castagnoli polynomial (reflected form), one bit at a time.\<close>

definition crc_bit :: "u32 \<Rightarrow> u32" where
  "crc_bit c = (if bit c 0 then drop_bit 1 c XOR 0x82f63b78 else drop_bit 1 c)"

definition crc_byte :: "u32 \<Rightarrow> byte \<Rightarrow> u32" where
  "crc_byte c b = (crc_bit ^^ 8) (c XOR ucast b)"

definition crc32_Update :: "u32 \<Rightarrow> bytes \<Rightarrow> u32" where
  "crc32_Update c bs = NOT (foldl crc_byte (NOT c) bs)"

text \<open>\<^verbatim>\<open>crc.New(b).Value()\<close>: the checksum rotated and offset.\<close>

definition crc_New :: "bytes \<Rightarrow> u32" where
  "crc_New b = crc32_Update 0 b"

definition crc_Value :: "u32 \<Rightarrow> u32" where
  "crc_Value c = (drop_bit 15 c OR push_bit 17 c) + 0xa282ead8"

section \<open>The writer\<close>

record block =
  blk_written :: nat
  blk_flushed :: nat
  blk_buf :: bytes

record LogWriter =
  lw_logNum :: u32
  lw_blockNum :: nat
  lw_block :: block
  lw_free :: "block list"
  lw_allocated :: nat
  lw_pending :: "block list"
  lw_out :: bytes
  lw_closed :: bool

definition new_block :: block where
  "new_block = \<lparr>blk_written = 0, blk_flushed = 0, blk_buf = replicate blockSize 0\<rparr>"

definition NewLogWriter :: "u64 \<Rightarrow> LogWriter" where
  "NewLogWriter logNum =
     \<lparr>lw_logNum = ucast logNum, lw_blockNum = 0, lw_block = new_block, lw_free = [],
      lw_allocated = 1, lw_pending = [], lw_out = [], lw_closed = False\<rparr>"

text \<open>\<^verbatim>\<open>flushBlock\<close>: what a queued block adds to the file, and the block as it is freed.\<close>

definition block_tail :: "block \<Rightarrow> bytes" where
  "block_tail b = drop (blk_flushed b) (blk_buf b)"

definition flushBlock :: "LogWriter \<Rightarrow> block \<Rightarrow> LogWriter" where
  "flushBlock w b =
     w\<lparr>lw_out := lw_out w @ block_tail b,
       lw_free := lw_free w @ [b\<lparr>blk_written := 0, blk_flushed := 0\<rparr>]\<rparr>"

definition flushPending :: "LogWriter \<Rightarrow> bytes \<Rightarrow> block list \<Rightarrow> LogWriter" where
  "flushPending w d pending =
     (let w = foldl flushBlock w pending in w\<lparr>lw_out := lw_out w @ d\<rparr>)"

text \<open>One iteration of \<^verbatim>\<open>flushLoop\<close>.\<close>

definition unflushed :: "block \<Rightarrow> bytes" where
  "unflushed b = take (blk_written b - blk_flushed b) (drop (blk_flushed b) (blk_buf b))"

definition lw_flush :: "LogWriter \<Rightarrow> LogWriter" where
  "lw_flush w =
     (let pending = lw_pending w;
          d = unflushed (lw_block w);
          b = (lw_block w)\<lparr>blk_flushed := blk_written (lw_block w)\<rparr>
      in flushPending (w\<lparr>lw_pending := [], lw_block := b\<rparr>) d pending)"

text \<open>\<^verbatim>\<open>queueBlock\<close>: at most sixteen blocks are allocated; when none is free the writer waits
  for the flush loop.\<close>

definition take_free :: "LogWriter \<Rightarrow> LogWriter \<times> block option" where
  "take_free w =
     (if lw_free w = [] then
        if lw_allocated w < 16 then (w\<lparr>lw_allocated := lw_allocated w + 1\<rparr>, Some new_block)
        else (w, None)
      else (w\<lparr>lw_free := butlast (lw_free w)\<rparr>, Some (last (lw_free w))))"

definition queueBlock :: "LogWriter \<Rightarrow> LogWriter option" where
  "queueBlock w =
     (let (w1, nb) = (case take_free w of
                        (w1, None) \<Rightarrow> take_free (lw_flush w1)
                      | r \<Rightarrow> r)
      in case nb of
           None \<Rightarrow> None
         | Some nextBlock \<Rightarrow>
             Some (w1\<lparr>lw_pending := lw_pending w1 @ [lw_block w1], lw_block := nextBlock,
                      lw_blockNum := lw_blockNum w1 + 1\<rparr>))"

definition set_block :: "LogWriter \<Rightarrow> nat \<Rightarrow> bytes \<Rightarrow> LogWriter" where
  "set_block w written buf = w\<lparr>lw_block := (lw_block w)\<lparr>blk_written := written, blk_buf := buf\<rparr>\<rparr>"

text \<open>\<^verbatim>\<open>emitFragment(n, p)\<close>; the length of \<open>p\<close> is compared as a signed 32-bit integer.\<close>

definition emitFragment :: "LogWriter \<Rightarrow> nat \<Rightarrow> bytes \<Rightarrow> (LogWriter \<times> bytes) option" where
  "emitFragment w n p =
     (let b = lw_block w;
          i = blk_written b;
          first = (n = 0);
          last = (sint (of_nat (length p) :: u32) \<le> int blockSize - int i - int recyclableHeaderSize);
          chunkType =
            (if last then if first then recyclableFullChunkType else recyclableLastChunkType
             else if first then recyclableFirstChunkType else recyclableMiddleChunkType)
      in do {
        buf \<leftarrow> go_put (blk_buf b) (i + 6) [chunkType];
        buf \<leftarrow> go_put buf (i + 7) (le_enc 4 (lw_logNum w));
        (if blockSize < i + recyclableHeaderSize then None else Some ());
        let r = min (blockSize - (i + recyclableHeaderSize)) (length p);
        buf \<leftarrow> go_put buf (i + recyclableHeaderSize) (take r p);
        let j = i + recyclableHeaderSize + r;
        checked \<leftarrow> go_slice buf (i + 6) j;
        buf \<leftarrow> go_put buf i (le_enc 4 (crc_Value (crc_New checked)));
        buf \<leftarrow> go_put buf (i + 4) (le_enc 2 (of_nat r :: u16));
        (if blockSize - j < recyclableHeaderSize then
           do {
             w \<leftarrow> queueBlock (set_block w j (take j buf @ replicate (blockSize - j) 0));
             Some (w, drop r p)
           }
         else Some (set_block w j buf, drop r p))
      })"

definition emitEOFTrailer :: "LogWriter \<Rightarrow> LogWriter option" where
  "emitEOFTrailer w =
     (let b = lw_block w; i = blk_written b in
      do {
        buf \<leftarrow> go_put (blk_buf b) i (le_enc 4 (0 :: u32));
        buf \<leftarrow> go_put buf (i + 4) (le_enc 2 (0 :: u16));
        buf \<leftarrow> go_put buf (i + 6) [recyclableFullChunkType];
        buf \<leftarrow> go_put buf (i + 7) (le_enc 4 (lw_logNum w + 1));
        Some (set_block w (i + recyclableHeaderSize) buf)
      })"

text \<open>The loop of \<^verbatim>\<open>SyncRecord\<close>: at least one fragment, then until nothing is left. It may
  panic or not return; \<open>syncLoop_frames\<close> below shows that it does neither.\<close>

partial_function (option) syncLoop :: "LogWriter \<Rightarrow> nat \<Rightarrow> bytes \<Rightarrow> LogWriter option" where
  "syncLoop w i p =
     (if i = 0 \<or> 0 < length p
      then do { (w, p) \<leftarrow> emitFragment w i p; syncLoop w (i + 1) p }
      else Some w)"

datatype log_error = ErrClosedLogWriter

definition LogWriter_Size :: "LogWriter \<Rightarrow> nat" where
  "LogWriter_Size w = lw_blockNum w * blockSize + blk_written (lw_block w)"

definition SyncRecord :: "LogWriter \<Rightarrow> bytes \<Rightarrow> (log_error + LogWriter \<times> nat) option" where
  "SyncRecord w p =
     (if lw_closed w then Some (Inl ErrClosedLogWriter)
      else map_option (\<lambda>w. Inr (w, lw_blockNum w * blockSize + blk_written (lw_block w)))
             (syncLoop w 0 p))"

definition WriteRecord :: "LogWriter \<Rightarrow> bytes \<Rightarrow> (log_error + LogWriter \<times> nat) option" where
  "WriteRecord w p = SyncRecord w p"

definition LogWriter_Close :: "LogWriter \<Rightarrow> LogWriter option" where
  "LogWriter_Close w = map_option (\<lambda>w. (lw_flush w)\<lparr>lw_closed := True\<rparr>) (emitEOFTrailer w)"

section \<open>The format\<close>

definition chunk_bytes :: "u32 \<Rightarrow> byte \<Rightarrow> bytes \<Rightarrow> bytes" where
  "chunk_bytes logNum chunkType payload =
     le_enc 4 (crc_Value (crc_New (chunkType # le_enc 4 logNum @ payload)))
       @ le_enc 2 (of_nat (length payload) :: u16) @ [chunkType] @ le_enc 4 logNum @ payload"

definition eof_bytes :: "u32 \<Rightarrow> bytes" where
  "eof_bytes logNum = replicate 6 0 @ [recyclableFullChunkType] @ le_enc 4 (logNum + 1)"

text \<open>Zeros up to the end of the block when no further header fits after offset \<open>off\<close>.\<close>

definition padding :: "nat \<Rightarrow> bytes" where
  "padding off = (if blockSize - off < recyclableHeaderSize then replicate (blockSize - off) 0 else [])"

definition room :: "nat \<Rightarrow> nat" where
  "room pos = blockSize - pos mod blockSize - recyclableHeaderSize"

text \<open>\<open>framed logNum pos first p out\<close>: the chunks \<open>out\<close> that carry \<open>p\<close> when the first of them is
  written at file offset \<open>pos\<close>.\<close>

inductive framed :: "u32 \<Rightarrow> nat \<Rightarrow> bool \<Rightarrow> bytes \<Rightarrow> bytes \<Rightarrow> bool" where
  final: "recyclableHeaderSize \<le> blockSize - pos mod blockSize \<Longrightarrow> length p \<le> room pos \<Longrightarrow>
     framed logNum pos first p
       (chunk_bytes logNum (if first then recyclableFullChunkType else recyclableLastChunkType) p
          @ padding (pos mod blockSize + recyclableHeaderSize + length p))"
| more: "recyclableHeaderSize \<le> blockSize - pos mod blockSize \<Longrightarrow> room pos < length p \<Longrightarrow>
     framed logNum (pos + recyclableHeaderSize + room pos) False (drop (room pos) p) out \<Longrightarrow>
     framed logNum pos first p
       (chunk_bytes logNum (if first then recyclableFirstChunkType else recyclableMiddleChunkType)
          (take (room pos) p) @ out)"

lemma length_chunk_bytes [simp]:
  "length (chunk_bytes logNum ct p) = recyclableHeaderSize + length p"
  by (simp add: chunk_bytes_def recyclableHeaderSize_def legacyHeaderSize_def)

lemma length_eof_bytes [simp]: "length (eof_bytes logNum) = recyclableHeaderSize"
  by (simp add: eof_bytes_def recyclableHeaderSize_def legacyHeaderSize_def)

section \<open>The writer produces the format\<close>

definition lw_stream :: "LogWriter \<Rightarrow> bytes" where
  "lw_stream w = lw_out w @ concat (map block_tail (lw_pending w)) @ unflushed (lw_block w)"

definition block_ok :: "block \<Rightarrow> bool" where
  "block_ok b \<longleftrightarrow> length (blk_buf b) = blockSize"

definition free_ok :: "block \<Rightarrow> bool" where
  "free_ok b \<longleftrightarrow> block_ok b \<and> blk_written b = 0 \<and> blk_flushed b = 0"

definition lw_inv :: "LogWriter \<Rightarrow> bool" where
  "lw_inv w \<longleftrightarrow>
     block_ok (lw_block w) \<and> blk_flushed (lw_block w) \<le> blk_written (lw_block w)
     \<and> blk_written (lw_block w) + recyclableHeaderSize \<le> blockSize
     \<and> (\<forall>b \<in> set (lw_free w). free_ok b) \<and> (\<forall>b \<in> set (lw_pending w). block_ok b)
     \<and> lw_allocated w = 1 + length (lw_free w) + length (lw_pending w)
     \<and> length (lw_stream w) = lw_blockNum w * blockSize + blk_written (lw_block w)"

lemma flushBlocks_fold:
  "foldl flushBlock w bs =
     w\<lparr>lw_out := lw_out w @ concat (map block_tail bs),
       lw_free := lw_free w @ map (\<lambda>b. b\<lparr>blk_written := 0, blk_flushed := 0\<rparr>) bs\<rparr>"
  by (induction bs arbitrary: w) (simp_all add: flushBlock_def)

lemma lw_flush_eq:
  "lw_flush w =
     w\<lparr>lw_out := lw_stream w,
       lw_free := lw_free w @ map (\<lambda>b. b\<lparr>blk_written := 0, blk_flushed := 0\<rparr>) (lw_pending w),
       lw_pending := [], lw_block := (lw_block w)\<lparr>blk_flushed := blk_written (lw_block w)\<rparr>\<rparr>"
  by (simp add: lw_flush_def flushPending_def flushBlocks_fold Let_def lw_stream_def)

lemma unflushed_none [simp]: "unflushed (b\<lparr>blk_flushed := blk_written b\<rparr>) = []"
  by (simp add: unflushed_def)

lemma lw_flush_stream [simp]: "lw_stream (lw_flush w) = lw_stream w"
  by (simp add: lw_flush_eq lw_stream_def)

lemma lw_flush_inv: "lw_inv w \<Longrightarrow> lw_inv (lw_flush w)"
  using lw_flush_stream [of w]
  by (auto simp: lw_inv_def lw_flush_eq free_ok_def block_ok_def)

lemma go_put_append:
  "i = length xs \<Longrightarrow> length ys' = length ys \<Longrightarrow> go_put (xs @ ys @ zs) i ys' = Some (xs @ ys' @ zs)"
  by (simp add: go_put_def)

lemma split_at: "n \<le> length xs \<Longrightarrow> \<exists>ys zs. xs = ys @ zs \<and> length ys = n"
  by (intro exI [of _ "take n xs"] exI [of _ "drop n xs"]) simp

definition sizes_ok :: "LogWriter \<Rightarrow> bool" where
  "sizes_ok w \<longleftrightarrow>
     block_ok (lw_block w) \<and> blk_flushed (lw_block w) \<le> blk_written (lw_block w)
     \<and> blk_written (lw_block w) \<le> blockSize
     \<and> (\<forall>b \<in> set (lw_free w). free_ok b) \<and> (\<forall>b \<in> set (lw_pending w). block_ok b)
     \<and> lw_allocated w = 1 + length (lw_free w) + length (lw_pending w)"

lemma sizes_ok_flush: "sizes_ok w \<Longrightarrow> sizes_ok (lw_flush w)"
  by (auto simp: sizes_ok_def lw_flush_eq free_ok_def block_ok_def)

lemma free_ok_new_block: "free_ok new_block"
  by (simp add: free_ok_def block_ok_def new_block_def)

lemma take_free_ok:
  assumes "sizes_ok w" and "take_free w = (w1, Some nb)"
  shows "free_ok nb \<and> (\<forall>b \<in> set (lw_free w1). free_ok b)
    \<and> lw_allocated w1 = 2 + length (lw_free w1) + length (lw_pending w)
    \<and> w1 = w\<lparr>lw_free := lw_free w1, lw_allocated := lw_allocated w1\<rparr>"
  using assms free_ok_new_block
  by (auto simp: sizes_ok_def take_free_def split: if_splits) (meson in_set_butlastD)

definition stream_full :: "LogWriter \<Rightarrow> bytes" where
  "stream_full w = lw_out w @ concat (map block_tail (lw_pending w)) @ block_tail (lw_block w)"

lemma unflushed_tail:
  assumes "blk_flushed b \<le> blk_written b" and "blk_written b \<le> length (blk_buf b)"
  shows "unflushed b @ drop (blk_written b) (blk_buf b) = block_tail b"
proof -
  have "drop (blk_written b) (blk_buf b) = drop (blk_written b - blk_flushed b) (drop (blk_flushed b) (blk_buf b))"
    using assms by simp
  then show ?thesis unfolding unflushed_def block_tail_def by (simp only: append_take_drop_id)
qed

lemma stream_full_flush: "sizes_ok w \<Longrightarrow> stream_full (lw_flush w) = stream_full w"
  using unflushed_tail [of "lw_block w"]
  by (simp add: stream_full_def lw_flush_eq lw_stream_def sizes_ok_def block_ok_def)
     (simp add: block_tail_def)

lemma queueBlock_ok:
  assumes "sizes_ok w"
  shows "\<exists>w'. queueBlock w = Some w' \<and> sizes_ok w' \<and> free_ok (lw_block w') \<and> lw_stream w' = stream_full w
    \<and> lw_blockNum w' = lw_blockNum w + 1 \<and> lw_logNum w' = lw_logNum w \<and> lw_closed w' = lw_closed w"
proof -
  obtain w0 w1 nb where w0: "w0 = w \<or> w0 = lw_flush w" and tf: "take_free w0 = (w1, Some nb)"
    and q: "queueBlock w = Some (w1\<lparr>lw_pending := lw_pending w1 @ [lw_block w1], lw_block := nb,
              lw_blockNum := lw_blockNum w1 + 1\<rparr>)"
  proof (cases "take_free w")
    case (Pair w1 nb)
    show ?thesis
    proof (cases nb)
      case (Some b)
      with Pair that [of w w1 b] show ?thesis by (simp add: queueBlock_def)
    next
      case None
      with Pair have full: "lw_free w = []" "\<not> lw_allocated w < 16" "w1 = w"
        by (auto simp: take_free_def split: if_splits)
      with assms have "lw_free (lw_flush w) \<noteq> []" by (auto simp: sizes_ok_def lw_flush_eq)
      then obtain w2 b where "take_free (lw_flush w) = (w2, Some b)" by (auto simp: take_free_def)
      with Pair None full that [of "lw_flush w" w2 b] show ?thesis by (simp add: queueBlock_def)
    qed
  qed
  from w0 assms have s0: "sizes_ok w0" "stream_full w0 = stream_full w" "lw_blockNum w0 = lw_blockNum w"
      "lw_logNum w0 = lw_logNum w" "lw_closed w0 = lw_closed w"
    by (auto simp: sizes_ok_flush stream_full_flush) (simp_all add: lw_flush_eq)
  have w1: "lw_block w1 = lw_block w0" "lw_pending w1 = lw_pending w0" "lw_out w1 = lw_out w0"
      "lw_blockNum w1 = lw_blockNum w0" "lw_logNum w1 = lw_logNum w0" "lw_closed w1 = lw_closed w0"
    and nb: "free_ok nb" "\<forall>b \<in> set (lw_free w1). free_ok b"
      "lw_allocated w1 = 2 + length (lw_free w1) + length (lw_pending w0)"
    using take_free_ok [OF s0(1) tf] by (metis LogWriter.select_convs LogWriter.surjective LogWriter.update_convs)+
  show ?thesis
    unfolding q using s0 w1 nb
    by (auto simp: sizes_ok_def free_ok_def lw_stream_def stream_full_def unflushed_def)
qed

lemma blockSize_facts: "0 < blockSize" "blockSize < 2 ^ 16" "recyclableHeaderSize = 11" "11 < blockSize"
    "legacyHeaderSize = 7"
  by (simp_all add: blockSize_def recyclableHeaderSize_def legacyHeaderSize_def)

lemma lw_inv_sizes: "lw_inv w \<Longrightarrow> sizes_ok w"
  by (simp add: lw_inv_def sizes_ok_def)

lemma lw_inv_pos:
  assumes "lw_inv w"
  shows "length (lw_stream w) mod blockSize = blk_written (lw_block w)"
  using assms blockSize_facts by (simp add: lw_inv_def)

lemma sint_length: "length p < 2 ^ 31 \<Longrightarrow> sint (of_nat (length p) :: u32) = int (length p)"
  by (simp add: sint_uint signed_take_bit_int_eq_self unat_of_nat uint_nat)

lemma set_block_simps [simp]:
  "lw_logNum (set_block w j buf) = lw_logNum w" "lw_blockNum (set_block w j buf) = lw_blockNum w"
  "lw_closed (set_block w j buf) = lw_closed w" "blk_written (lw_block (set_block w j buf)) = j"
  "blk_flushed (lw_block (set_block w j buf)) = blk_flushed (lw_block w)"
  "blk_buf (lw_block (set_block w j buf)) = buf" "lw_pending (set_block w j buf) = lw_pending w"
  "lw_free (set_block w j buf) = lw_free w" "lw_allocated (set_block w j buf) = lw_allocated w"
  "lw_out (set_block w j buf) = lw_out w"
  by (simp_all add: set_block_def)

text \<open>Writing \<open>c\<close> at the end of the current block extends the stream by \<open>c\<close>.\<close>

lemma set_block_stream:
  assumes "sizes_ok w" and "buf = take (blk_written (lw_block w)) (blk_buf (lw_block w)) @ c @ d"
    and "length buf = blockSize" and "j = blk_written (lw_block w) + length c"
  shows "sizes_ok (set_block w j buf)" and "lw_stream (set_block w j buf) = lw_stream w @ c"
    and "stream_full (set_block w j buf) = lw_stream w @ c @ d"
proof -
  let ?b = "lw_block w"
  have len: "length (take (blk_written ?b) (blk_buf ?b)) = blk_written ?b" and le: "blk_flushed ?b \<le> blk_written ?b"
    using assms(1) by (simp_all add: sizes_ok_def block_ok_def)
  have u: "unflushed ?b = drop (blk_flushed ?b) (take (blk_written ?b) (blk_buf ?b))"
    by (simp add: unflushed_def drop_take)
  show "sizes_ok (set_block w j buf)"
    using assms len by (simp add: sizes_ok_def block_ok_def)
  show "lw_stream (set_block w j buf) = lw_stream w @ c"
    using assms(2,4) len le u by (simp add: lw_stream_def unflushed_def)
  show "stream_full (set_block w j buf) = lw_stream w @ c @ d"
    using assms(2) len le u by (simp add: lw_stream_def stream_full_def block_tail_def)
qed

lemma le_enc_4_len: "length (le_enc 4 (x :: u32)) = 4" "length (le_enc 2 (y :: u16)) = 2"
  by simp_all

lemma emitFragment_buffer:
  fixes buf :: bytes
  assumes "length buf = blockSize" and "i + recyclableHeaderSize + length q \<le> blockSize"
  shows "do {
        buf \<leftarrow> go_put buf (i + 6) [ct];
        buf \<leftarrow> go_put buf (i + 7) (le_enc 4 logNum);
        buf \<leftarrow> go_put buf (i + recyclableHeaderSize) q;
        checked \<leftarrow> go_slice buf (i + 6) (i + recyclableHeaderSize + length q);
        buf \<leftarrow> go_put buf i (le_enc 4 (crc_Value (crc_New checked)));
        go_put buf (i + 4) (le_enc 2 (of_nat (length q) :: u16))
      } = Some (take i buf @ chunk_bytes logNum ct q @ drop (i + recyclableHeaderSize + length q) buf)"
proof -
  note h = blockSize_facts(3)
  note split = append_take_drop_id [symmetric]
  define R where "R n = drop (i + n) buf" for n
  have R: "R n = take m (R n) @ R (n + m)" for n m
    using split [of "R n" m] by (simp add: R_def add.commute add.left_commute)
  define A H1 H2 T L P D where "A = take i buf" and "H1 = take 4 (R 0)" and "H2 = take 2 (R 4)"
    and "T = take 1 (R 6)" and "L = take 4 (R 7)" and "P = take (length q) (R 11)" and "D = R (11 + length q)"
  have buf: "buf = A @ H1 @ H2 @ T @ L @ P @ D"
    using R [of 0 4] R [of 4 2] R [of 6 1] R [of 7 4] R [of 11 "length q"] split [of buf i]
    by (simp add: A_def H1_def H2_def T_def L_def P_def D_def R_def)
  have len: "length A = i" "length H1 = 4" "length H2 = 2" "length T = 1" "length L = 4" "length P = length q"
    using assms by (simp_all add: A_def H1_def H2_def T_def L_def P_def R_def h)
  have p1: "go_put buf (i + 6) [ct] = Some (A @ H1 @ H2 @ [ct] @ L @ P @ D)"
    using go_put_append [of "i + 6" "A @ H1 @ H2" "[ct]" T "L @ P @ D"] len by (simp add: buf)
  have p2: "go_put (A @ H1 @ H2 @ [ct] @ L @ P @ D) (i + 7) (le_enc 4 logNum)
      = Some (A @ H1 @ H2 @ [ct] @ le_enc 4 logNum @ P @ D)"
    using go_put_append [of "i + 7" "A @ H1 @ H2 @ [ct]" "le_enc 4 logNum" L "P @ D"] len by simp
  have p3: "go_put (A @ H1 @ H2 @ [ct] @ le_enc 4 logNum @ P @ D) (i + 11) q
      = Some (A @ H1 @ H2 @ [ct] @ le_enc 4 logNum @ q @ D)"
    using go_put_append [of "i + 11" "A @ H1 @ H2 @ [ct] @ le_enc 4 logNum" q P D] len by simp
  let ?c = "[ct] @ le_enc 4 logNum @ q"
  have s: "go_slice (A @ H1 @ H2 @ ?c @ D) (i + 6) (i + 11 + length q) = Some ?c"
    using go_slice_append [of "i + 6" "A @ H1 @ H2" "i + 11 + length q" ?c D] len by simp
  let ?crc = "le_enc 4 (crc_Value (crc_New ?c))"
  have p4: "go_put (A @ H1 @ H2 @ ?c @ D) i ?crc = Some (A @ ?crc @ H2 @ ?c @ D)"
    using go_put_append [of i A ?crc H1 "H2 @ ?c @ D"] len by simp
  let ?sz = "le_enc 2 (of_nat (length q) :: u16)"
  have p5: "go_put (A @ ?crc @ H2 @ ?c @ D) (i + 4) ?sz = Some (A @ ?crc @ ?sz @ ?c @ D)"
    using go_put_append [of "i + 4" "A @ ?crc" ?sz H2 "?c @ D"] len by simp
  have ends: "take i buf = A" "drop (i + 11 + length q) buf = D"
    using len by (simp_all add: buf)
  show ?thesis
    using p1 p2 p3 s p4 p5 by (simp add: h ends chunk_bytes_def)
qed

definition chunk_type :: "bool \<Rightarrow> bool \<Rightarrow> byte" where
  "chunk_type isLast isFirst =
     (if isLast then if isFirst then recyclableFullChunkType else recyclableLastChunkType
      else if isFirst then recyclableFirstChunkType else recyclableMiddleChunkType)"

lemma emitFragment_unfold:
  fixes n :: nat
  assumes "lw_inv w" and "length p < 2 ^ 31"
  defines "i \<equiv> blk_written (lw_block w)" and "q \<equiv> take (room (length (lw_stream w))) p"
  defines "j \<equiv> i + recyclableHeaderSize + length q"
    and "c \<equiv> chunk_bytes (lw_logNum w) (chunk_type (length p \<le> room (length (lw_stream w))) (n = 0)) q"
  defines "buf \<equiv> take i (blk_buf (lw_block w)) @ c @ drop j (blk_buf (lw_block w))"
  shows "emitFragment w n p =
     (if blockSize - j < recyclableHeaderSize then
        map_option (\<lambda>w. (w, drop (length q) p))
          (queueBlock (set_block w j (take j buf @ replicate (blockSize - j) 0)))
      else Some (set_block w j buf, drop (length q) p))"
    and "j \<le> blockSize" and "length buf = blockSize" and "j = i + length c"
proof -
  have len: "length (blk_buf (lw_block w)) = blockSize" and i: "i + recyclableHeaderSize \<le> blockSize"
    using assms(1) by (simp_all add: lw_inv_def block_ok_def i_def)
  have room: "room (length (lw_stream w)) = blockSize - (i + recyclableHeaderSize)"
    using lw_inv_pos [OF assms(1)] by (simp add: room_def i_def)
  have q: "q = take (min (blockSize - (i + recyclableHeaderSize)) (length p)) p"
    and lq: "length q = min (blockSize - (i + recyclableHeaderSize)) (length p)"
    by (simp_all add: q_def room min_def)
  then have q2: "take (length q) p = q" by simp
  have jle: "i + recyclableHeaderSize + length q \<le> blockSize" using i by (simp add: lq)
  then show "j \<le> blockSize" by (simp add: j_def)
  show "j = i + length c" by (simp add: j_def c_def)
  show "length buf = blockSize" using jle len by (simp add: buf_def c_def j_def)
  have last: "sint (of_nat (length p) :: u32) \<le> int blockSize - int i - int recyclableHeaderSize
      \<longleftrightarrow> length p \<le> room (length (lw_stream w))"
    using i by (simp add: sint_length [OF assms(2)] room) linarith
  let ?ct = "chunk_type (length p \<le> room (length (lw_stream w))) (n = 0)"
  from emitFragment_buffer [OF len jle, of ?ct "lw_logNum w"]
  obtain b1 b2 b3 ch b4 where chain: "go_put (blk_buf (lw_block w)) (i + 6) [?ct] = Some b1"
      "go_put b1 (i + 7) (le_enc 4 (lw_logNum w)) = Some b2" "go_put b2 (i + recyclableHeaderSize) q = Some b3"
      "go_slice b3 (i + 6) j = Some ch" "go_put b3 i (le_enc 4 (crc_Value (crc_New ch))) = Some b4"
      "go_put b4 (i + 4) (le_enc 2 (of_nat (length q) :: u16)) = Some buf"
    by (auto simp: bind_eq_Some_conv j_def c_def buf_def)
  have ct: "(if sint (of_nat (length p) :: u32) \<le> int blockSize - int i - int recyclableHeaderSize
      then if n = 0 then recyclableFullChunkType else recyclableLastChunkType
      else if n = 0 then recyclableFirstChunkType else recyclableMiddleChunkType) = ?ct"
    by (simp only: last chunk_type_def)
  have nfull: "\<not> blockSize < i + recyclableHeaderSize" using i by simp
  show "emitFragment w n p =
     (if blockSize - j < recyclableHeaderSize then
        map_option (\<lambda>w. (w, drop (length q) p))
          (queueBlock (set_block w j (take j buf @ replicate (blockSize - j) 0)))
      else Some (set_block w j buf, drop (length q) p))"
    unfolding emitFragment_def Let_def i_def [symmetric] ct
    by (simp only: chain nfull if_False bind.bind_lunit q2 lq [symmetric] j_def [symmetric])
       (simp add: map_conv_bind_option comp_def)
qed

lemma emitFragment_ok:
  assumes "lw_inv w" and "length p < 2 ^ 31"
  defines "pos \<equiv> length (lw_stream w)"
  shows "\<exists>w'. emitFragment w n p = Some (w', drop (room pos) p) \<and> lw_inv w'
    \<and> lw_logNum w' = lw_logNum w \<and> lw_closed w' = lw_closed w
    \<and> lw_stream w' = lw_stream w @ chunk_bytes (lw_logNum w) (chunk_type (length p \<le> room pos) (n = 0))
         (take (room pos) p) @ padding (pos mod blockSize + recyclableHeaderSize + length (take (room pos) p))"
proof -
  let ?i = "blk_written (lw_block w)" and ?q = "take (room pos) p"
  let ?j = "?i + recyclableHeaderSize + length ?q"
  let ?c = "chunk_bytes (lw_logNum w) (chunk_type (length p \<le> room pos) (n = 0)) ?q"
  let ?buf = "take ?i (blk_buf (lw_block w)) @ ?c @ drop ?j (blk_buf (lw_block w))"
  note unf = emitFragment_unfold(1) [OF assms(1,2), of n, folded pos_def]
    emitFragment_unfold(2) [OF assms(1,2), folded pos_def]
    emitFragment_unfold(3,4) [OF assms(1,2), of n, folded pos_def]
  have dr: "drop (length ?q) p = drop (room pos) p" by (simp add: min_def)
  have posi: "pos mod blockSize = ?i" unfolding pos_def by (rule lw_inv_pos [OF assms(1)])
  note sizes = lw_inv_sizes [OF assms(1)]
  have len: "length (lw_stream w) = lw_blockNum w * blockSize + ?i" using assms(1) by (simp add: lw_inv_def)
  show ?thesis
  proof (cases "blockSize - ?j < recyclableHeaderSize")
    case True
    let ?buf' = "take ?j ?buf @ replicate (blockSize - ?j) 0"
    have b': "?buf' = take ?i (blk_buf (lw_block w)) @ ?c @ replicate (blockSize - ?j) 0"
      using unf(2,4) sizes by (simp add: sizes_ok_def block_ok_def)
    have "length ?buf' = blockSize" using unf(2,3) by simp
    note sb = set_block_stream [OF sizes b' this unf(4)]
    from queueBlock_ok [OF sb(1)] obtain w' where w': "queueBlock (set_block w ?j ?buf') = Some w'"
      "sizes_ok w'" "free_ok (lw_block w')" "lw_stream w' = lw_stream w @ ?c @ replicate (blockSize - ?j) 0"
      "lw_blockNum w' = lw_blockNum w + 1" "lw_logNum w' = lw_logNum w" "lw_closed w' = lw_closed w"
      unfolding sb(3) by auto
    have "lw_inv w'" using w' len unf(2) blockSize_facts
      by (simp add: lw_inv_def sizes_ok_def free_ok_def)
    moreover have "emitFragment w n p = Some (w', drop (room pos) p)"
      using unf(1) True w'(1) by (simp only: if_True option.map dr)
    ultimately show ?thesis using w' True by (simp add: padding_def posi)
  next
    case False
    note sb = set_block_stream [OF sizes refl unf(3,4)]
    have jh: "?j + recyclableHeaderSize \<le> blockSize" using False unf(2) by linarith
    have "length (lw_stream (set_block w ?j ?buf)) = lw_blockNum w * blockSize + ?j"
      unfolding sb(2) length_append len length_chunk_bytes by simp
    with sb(1) jh have "lw_inv (set_block w ?j ?buf)"
      unfolding lw_inv_def sizes_ok_def set_block_simps by blast
    moreover have "emitFragment w n p = Some (set_block w ?j ?buf, drop (room pos) p)"
      using unf(1) False by (simp only: if_False dr)
    ultimately show ?thesis using sb False by (simp add: padding_def posi)
  qed
qed

lemma room_padding: "room pos < length p \<Longrightarrow> recyclableHeaderSize \<le> blockSize - pos mod blockSize \<Longrightarrow>
    padding (pos mod blockSize + recyclableHeaderSize + length (take (room pos) p)) = []"
  by (simp add: padding_def room_def)

lemma room_next:
  assumes "recyclableHeaderSize \<le> blockSize - pos mod blockSize"
  shows "(pos + recyclableHeaderSize + room pos) mod blockSize = 0"
proof -
  have "pos mod blockSize + recyclableHeaderSize + room pos = blockSize"
    using assms blockSize_facts by (simp add: room_def)
  then have "pos + recyclableHeaderSize + room pos = blockSize * (pos div blockSize) + blockSize"
    using mult_div_mod_eq [of blockSize pos] by linarith
  then show ?thesis by simp
qed

text \<open>Every run of the loop returns, and adds exactly the chunks of the record.\<close>

lemma syncLoop_frames:
  assumes "lw_inv w" and "length p < 2 ^ 31" and "0 < i \<longrightarrow> 0 < length p"
  shows "\<exists>w' out. syncLoop w i p = Some w' \<and> lw_inv w' \<and> lw_logNum w' = lw_logNum w
    \<and> lw_closed w' = lw_closed w \<and> lw_stream w' = lw_stream w @ out
    \<and> framed (lw_logNum w) (length (lw_stream w)) (i = 0) p out"
  using assms
proof (induction "(length p, length (lw_stream w) mod blockSize)" arbitrary: w i p
    rule: wf_induct [OF wf_lex_prod [OF wf_less_than wf_less_than], case_names less])
  case less
  let ?pos = "length (lw_stream w)" and ?L = "lw_logNum w"
  obtain w1 where w1: "emitFragment w i p = Some (w1, drop (room ?pos) p)" "lw_inv w1" "lw_logNum w1 = ?L"
      "lw_closed w1 = lw_closed w"
      "lw_stream w1 = lw_stream w @ chunk_bytes ?L (chunk_type (length p \<le> room ?pos) (i = 0))
         (take (room ?pos) p) @ padding (?pos mod blockSize + recyclableHeaderSize + length (take (room ?pos) p))"
    using emitFragment_ok [OF less.prems(1,2), of i] by auto
  have hdr: "recyclableHeaderSize \<le> blockSize - ?pos mod blockSize"
    using less.prems(1) unfolding lw_inv_pos [OF less.prems(1)] lw_inv_def by linarith
  have step: "syncLoop w i p = syncLoop w1 (i + 1) (drop (room ?pos) p)"
    using less.prems(3) w1(1) by (subst syncLoop.simps) auto
  show ?case
  proof (cases "length p \<le> room ?pos")
    case True
    then have "syncLoop w i p = Some w1" by (subst step, subst syncLoop.simps) simp
    moreover have "framed ?L ?pos (i = 0) p (chunk_bytes ?L (if i = 0 then 5 else 8) p
        @ padding (?pos mod blockSize + recyclableHeaderSize + length p))"
      by (rule framed.final [OF hdr True])
    ultimately show ?thesis using w1 True by (auto simp: chunk_type_def)
  next
    case False
    then have more: "room ?pos < length p" by simp
    have s1: "lw_stream w1 = lw_stream w @ chunk_bytes ?L (if i = 0 then 6 else 7) (take (room ?pos) p)"
      using w1(5) room_padding [OF more hdr] False by (simp add: chunk_type_def)
    have l1: "length (lw_stream w1) = ?pos + recyclableHeaderSize + room ?pos"
      using more by (simp add: s1)
    have smaller: "((length (drop (room ?pos) p), length (lw_stream w1) mod blockSize), (length p, ?pos mod blockSize))
        \<in> less_than <*lex*> less_than"
    proof (cases "room ?pos = 0")
      case True
      then have "0 < ?pos mod blockSize" using hdr blockSize_facts by (simp add: room_def)
      with True room_next [OF hdr] l1 show ?thesis by simp
    next
      case False
      with more have "length p - room ?pos < length p" by linarith
      then show ?thesis by simp
    qed
    have "\<exists>w' out. syncLoop w1 (i + 1) (drop (room ?pos) p) = Some w' \<and> lw_inv w' \<and> lw_logNum w' = lw_logNum w1
        \<and> lw_closed w' = lw_closed w1 \<and> lw_stream w' = lw_stream w1 @ out
        \<and> framed (lw_logNum w1) (length (lw_stream w1)) (i + 1 = 0) (drop (room ?pos) p) out"
    proof (rule less.hyps [rule_format, OF smaller refl w1(2)])
      show "length (drop (room ?pos) p) < 2 ^ 31" using less.prems(2) by simp
      show "0 < i + 1 \<Longrightarrow> 0 < length (drop (room ?pos) p)" using more by simp
    qed
    then obtain w' out where w': "syncLoop w1 (i + 1) (drop (room ?pos) p) = Some w'" "lw_inv w'"
        "lw_logNum w' = ?L" "lw_closed w' = lw_closed w" "lw_stream w' = lw_stream w1 @ out"
        "framed ?L (?pos + recyclableHeaderSize + room ?pos) False (drop (room ?pos) p) out"
      using w1(3,4) l1 by auto
    from framed.more [OF hdr more w'(6), of "i = 0"] w' s1 step show ?thesis by auto
  qed
qed

section \<open>Runs of the writer\<close>

text \<open>A run interleaves records with iterations of the flush loop.\<close>

datatype log_op = LWrite bytes | LFlush

fun lw_exec :: "LogWriter \<Rightarrow> log_op list \<Rightarrow> LogWriter option" where
  "lw_exec w [] = Some w"
| "lw_exec w (LWrite p # ops) =
     do {
       r \<leftarrow> WriteRecord w p;
       case r of Inl e \<Rightarrow> None | Inr (w, off) \<Rightarrow> lw_exec w ops
     }"
| "lw_exec w (LFlush # ops) = lw_exec (lw_flush w) ops"

fun log_records :: "log_op list \<Rightarrow> bytes list" where
  "log_records [] = []"
| "log_records (LWrite p # ops) = p # log_records ops"
| "log_records (LFlush # ops) = log_records ops"

text \<open>\<open>framed_all\<close>: the chunks of several records, one after the other.\<close>

inductive framed_all :: "u32 \<Rightarrow> nat \<Rightarrow> bytes list \<Rightarrow> bytes \<Rightarrow> bool" where
  no_records: "framed_all logNum pos [] []"
| more_records: "framed logNum pos True p out \<Longrightarrow> framed_all logNum (pos + length out) ps rest \<Longrightarrow>
     framed_all logNum pos (p # ps) (out @ rest)"

lemma NewLogWriter_inv [simp]: "lw_inv (NewLogWriter logNum)" "lw_stream (NewLogWriter logNum) = []"
    "lw_closed (NewLogWriter logNum) = False" "lw_logNum (NewLogWriter logNum) = ucast logNum"
  by (simp_all add: lw_inv_def NewLogWriter_def new_block_def block_ok_def lw_stream_def unflushed_def
      blockSize_def recyclableHeaderSize_def legacyHeaderSize_def)

lemma WriteRecord_frames:
  assumes "lw_inv w" and "\<not> lw_closed w" and "length p < 2 ^ 31"
  shows "\<exists>w' out. WriteRecord w p = Some (Inr (w', length (lw_stream w'))) \<and> lw_inv w'
    \<and> lw_logNum w' = lw_logNum w \<and> \<not> lw_closed w' \<and> lw_stream w' = lw_stream w @ out
    \<and> framed (lw_logNum w) (length (lw_stream w)) True p out"
proof -
  from syncLoop_frames [OF assms(1,3), of 0] obtain w' out where
    w': "syncLoop w 0 p = Some w'" "lw_inv w'" "lw_logNum w' = lw_logNum w" "lw_closed w' = lw_closed w"
      "lw_stream w' = lw_stream w @ out" "framed (lw_logNum w) (length (lw_stream w)) True p out"
    by auto
  moreover have "length (lw_stream w') = lw_blockNum w' * blockSize + blk_written (lw_block w')"
    using w'(2) by (simp add: lw_inv_def)
  ultimately show ?thesis using assms(2) by (auto simp: WriteRecord_def SyncRecord_def)
qed

lemma lw_exec_frames:
  assumes "lw_inv w" and "\<not> lw_closed w" and "\<forall>p \<in> set (log_records ops). length p < 2 ^ 31"
  shows "\<exists>w' out. lw_exec w ops = Some w' \<and> lw_inv w' \<and> \<not> lw_closed w' \<and> lw_logNum w' = lw_logNum w
    \<and> lw_stream w' = lw_stream w @ out
    \<and> framed_all (lw_logNum w) (length (lw_stream w)) (log_records ops) out"
  using assms
proof (induction w ops rule: lw_exec.induct)
  case (1 w)
  then show ?case by (auto intro: framed_all.no_records)
next
  case (2 w p ops)
  have "length p < 2 ^ 31" using 2(4) by simp
  from WriteRecord_frames [OF 2(2,3) this] obtain w1 o1 where
    w1: "WriteRecord w p = Some (Inr (w1, length (lw_stream w1)))" "lw_inv w1" "lw_logNum w1 = lw_logNum w"
      "\<not> lw_closed w1" "lw_stream w1 = lw_stream w @ o1" "framed (lw_logNum w) (length (lw_stream w)) True p o1"
    by auto
  from 2(1) [OF w1(1) refl refl w1(2,4)] 2(4) obtain w' o2 where
    w': "lw_exec w1 ops = Some w'" "lw_inv w'" "\<not> lw_closed w'" "lw_logNum w' = lw_logNum w1"
      "lw_stream w' = lw_stream w1 @ o2"
      "framed_all (lw_logNum w1) (length (lw_stream w1)) (log_records ops) o2"
    by auto
  from framed_all.more_records [OF w1(6), of "log_records ops" o2] w' w1 show ?case by auto
next
  case (3 w ops)
  from 3(1) [OF lw_flush_inv [OF 3(2)]] 3(3,4) show ?case by (simp add: lw_flush_eq lw_stream_def)
qed

text \<open>Closing appends the trailer and flushes: the file then holds the whole stream.\<close>

lemma LogWriter_Close_file:
  assumes "lw_inv w"
  shows "\<exists>w'. LogWriter_Close w = Some w' \<and> lw_closed w' \<and> lw_out w' = lw_stream w @ eof_bytes (lw_logNum w)"
proof -
  let ?b = "lw_block w" and ?i = "blk_written (lw_block w)"
  have len: "length (blk_buf ?b) = blockSize" and i: "?i + 11 \<le> blockSize"
    using assms blockSize_facts by (simp_all add: lw_inv_def block_ok_def)
  obtain A H D where buf: "blk_buf ?b = A @ H @ D" and lA: "length A = ?i" and lH: "length H = 11"
    using split_at [of ?i "blk_buf ?b"] split_at [of 11 "drop ?i (blk_buf ?b)"] len i by force
  obtain H1 H2 H3 H4 where H: "H = H1 @ H2 @ H3 @ H4"
      and lens: "length H1 = 4" "length H2 = 2" "length H3 = 1" "length H4 = 4"
    using lH split_at [of 4 H] split_at [of 2 "drop 4 H"] split_at [of 1 "drop 6 H"] by (auto simp: drop_append)
  let ?z4 = "le_enc 4 (0 :: u32)" and ?z2 = "le_enc 2 (0 :: u16)" and ?l = "le_enc 4 (lw_logNum w + 1)"
  have puts: "go_put (blk_buf ?b) ?i ?z4 = Some (A @ ?z4 @ H2 @ H3 @ H4 @ D)"
      "go_put (A @ ?z4 @ H2 @ H3 @ H4 @ D) (?i + 4) ?z2 = Some (A @ ?z4 @ ?z2 @ H3 @ H4 @ D)"
      "go_put (A @ ?z4 @ ?z2 @ H3 @ H4 @ D) (?i + 6) [5] = Some (A @ ?z4 @ ?z2 @ [5] @ H4 @ D)"
      "go_put (A @ ?z4 @ ?z2 @ [5] @ H4 @ D) (?i + 7) ?l = Some (A @ ?z4 @ ?z2 @ [5] @ ?l @ D)"
    using go_put_append [of ?i A ?z4 H1 "H2 @ H3 @ H4 @ D"]
      go_put_append [of "?i + 4" "A @ ?z4" ?z2 H2 "H3 @ H4 @ D"]
      go_put_append [of "?i + 6" "A @ ?z4 @ ?z2" "[5]" H3 "H4 @ D"]
      go_put_append [of "?i + 7" "A @ ?z4 @ ?z2 @ [5]" ?l H4 D] lens lA
    by (simp_all add: buf H)
  have z: "?z4 @ ?z2 = replicate 6 0" by (simp add: eval_nat_numeral)
  let ?buf = "A @ eof_bytes (lw_logNum w) @ D"
  have e: "A @ ?z4 @ ?z2 @ [5] @ ?l @ D = ?buf"
    by (simp only: eof_bytes_def z [symmetric] append_assoc)
  have trailer: "emitEOFTrailer w = Some (set_block w (?i + recyclableHeaderSize) ?buf)"
    unfolding emitEOFTrailer_def Let_def by (simp only: puts bind.bind_lunit e)
  have "lw_stream (set_block w (?i + recyclableHeaderSize) ?buf) = lw_stream w @ eof_bytes (lw_logNum w)"
    by (rule set_block_stream(2) [OF lw_inv_sizes [OF assms]])
       (use buf lA len lH blockSize_facts in simp_all)
  then show ?thesis by (simp add: LogWriter_Close_def trailer lw_flush_eq)
qed

end
