(* ===== verification/Log_Reader.thy ===== *)
theory Log_Reader
  imports Log_Writer
begin

text \<open>
  The log reader (\<^verbatim>\<open>internal/record/record.go\<close>): \<^verbatim>\<open>Reader\<close> with \<^verbatim>\<open>nextChunk\<close>, \<^verbatim>\<open>Next\<close>,
  \<^verbatim>\<open>Offset\<close>, \<^verbatim>\<open>recover\<close>, \<^verbatim>\<open>seekRecord\<close> and \<^verbatim>\<open>singleReader.Read\<close>, and the loop with which
  \<^verbatim>\<open>plainDB.replayWAL\<close> reads every record of a log. The underlying \<^verbatim>\<open>io.Reader\<close> is a file
  \<open>rd_file\<close> with a position \<open>rd_fpos\<close>.
\<close>

datatype rec_error = EOF | ErrUnexpectedEOF | ErrZeroedChunk | ErrInvalidChunk | ErrNotAnIOSeeker | ErrStaleReader

definition IsInvalidRecord :: "rec_error \<Rightarrow> bool" where
  "IsInvalidRecord e \<longleftrightarrow> e = ErrZeroedChunk \<or> e = ErrInvalidChunk \<or> e = ErrUnexpectedEOF"

record Reader =
  rd_file :: bytes
  rd_fpos :: nat
  rd_seekable :: bool
  rd_logNum :: u32
  rd_blockNum :: int
  rd_seq :: nat
  rd_begin :: nat
  rd_end :: nat
  rd_n :: nat
  rd_recovering :: bool
  rd_last :: bool
  rd_err :: "rec_error option"
  rd_buf :: bytes

definition NewReader :: "bytes \<Rightarrow> bool \<Rightarrow> u64 \<Rightarrow> Reader" where
  "NewReader file seekable logNum =
     \<lparr>rd_file = file, rd_fpos = 0, rd_seekable = seekable, rd_logNum = ucast logNum, rd_blockNum = -1,
      rd_seq = 0, rd_begin = 0, rd_end = 0, rd_n = 0, rd_recovering = False, rd_last = False,
      rd_err = None, rd_buf = replicate blockSize 0\<rparr>"

definition recover :: "Reader \<Rightarrow> Reader" where
  "recover r =
     (if rd_err r = None then r
      else r\<lparr>rd_recovering := True, rd_err := None, rd_begin := rd_n r, rd_end := rd_n r,
             rd_last := False, rd_seq := rd_seq r + 1\<rparr>)"

text \<open>\<open>buf_at r i n\<close> is \<^verbatim>\<open>r.buf[i:i+n]\<close>. Every use below is guarded by a comparison with \<^verbatim>\<open>r.n\<close>,
  which never exceeds the length of the buffer (\<open>rd_wf\<close>), so the slice is in range.\<close>

definition buf_at :: "Reader \<Rightarrow> nat \<Rightarrow> nat \<Rightarrow> bytes" where
  "buf_at r i n = take n (drop i (rd_buf r))"

text \<open>\<^verbatim>\<open>io.ReadFull\<close> into the block buffer; \<open>None\<close> is \<^verbatim>\<open>io.EOF\<close> with nothing read.\<close>

definition read_block :: "Reader \<Rightarrow> Reader option" where
  "read_block r =
     (let data = take blockSize (drop (rd_fpos r) (rd_file r)) in
      if data = [] then None
      else Some (r\<lparr>rd_buf := data @ drop (length data) (rd_buf r), rd_fpos := rd_fpos r + length data,
                   rd_begin := 0, rd_end := 0, rd_n := length data, rd_blockNum := rd_blockNum r + 1\<rparr>))"

text \<open>One iteration of the loop of \<^verbatim>\<open>nextChunk\<close>: it returns or goes on.\<close>

datatype chunk_step = Return "rec_error option" Reader | Continue Reader

definition chunk_payload :: "Reader \<Rightarrow> bool \<Rightarrow> u32 \<Rightarrow> nat \<Rightarrow> byte \<Rightarrow> nat \<Rightarrow> chunk_step" where
  "chunk_payload r0 wantFirst checksum len chunkType headerSize =
     (let begin' = rd_end r0 + headerSize;
          end' = begin' + len;
          r = r0\<lparr>rd_begin := begin', rd_end := end'\<rparr>
      in if rd_n r < end' then
           if rd_recovering r then Continue (recover r) else Return (Some ErrInvalidChunk) r
         else if checksum \<noteq> crc_Value (crc_New (buf_at r (begin' - headerSize + 6) (end' - (begin' - headerSize + 6)))) then
           if rd_recovering r then Continue (recover r) else Return (Some ErrInvalidChunk) r
         else if wantFirst \<and> chunkType \<noteq> fullChunkType \<and> chunkType \<noteq> firstChunkType then Continue r
         else Return None (r\<lparr>rd_last := (chunkType = fullChunkType \<or> chunkType = lastChunkType),
                             rd_recovering := False\<rparr>))"

definition chunk_body :: "Reader \<Rightarrow> bool \<Rightarrow> chunk_step" where
  "chunk_body r wantFirst =
     (if rd_end r + legacyHeaderSize \<le> rd_n r then
        let checksum = le_dec (buf_at r (rd_end r) 4) :: u32;
            len = unat (le_dec (buf_at r (rd_end r + 4) 2) :: u16);
            chunkType = rd_buf r ! (rd_end r + 6)
        in if checksum = 0 \<and> len = 0 \<and> chunkType = 0 then
             if rd_n r < rd_end r + recyclableHeaderSize then Continue (r\<lparr>rd_end := rd_n r\<rparr>)
             else if rd_recovering r then Continue (recover (r\<lparr>rd_err := Some ErrZeroedChunk\<rparr>))
             else Return (Some ErrZeroedChunk) r
           else if recyclableFullChunkType \<le> chunkType \<and> chunkType \<le> recyclableLastChunkType then
             if rd_n r < rd_end r + recyclableHeaderSize then Return (Some ErrInvalidChunk) r
             else if (le_dec (buf_at r (rd_end r + 7) 4) :: u32) \<noteq> rd_logNum r then
               Return (Some (if wantFirst then EOF else ErrInvalidChunk)) r
             else chunk_payload r wantFirst checksum len (chunkType - (recyclableFullChunkType - 1)) recyclableHeaderSize
           else chunk_payload r wantFirst checksum len chunkType legacyHeaderSize
      else if rd_n r < blockSize \<and> 0 \<le> rd_blockNum r then
        Return (Some (if \<not> wantFirst \<or> rd_end r \<noteq> rd_n r then ErrInvalidChunk else EOF)) r
      else
        case read_block r of
          None \<Rightarrow> Return (Some (if wantFirst then EOF else ErrUnexpectedEOF)) r
        | Some r' \<Rightarrow> Continue r')"

definition chunk_rel :: "(Reader \<times> Reader) set" where
  "chunk_rel = measures [\<lambda>r. length (rd_file r) - rd_fpos r, \<lambda>r. rd_n r - rd_end r]"

lemma wf_chunk_rel [simp]: "wf chunk_rel" and trans_chunk_rel: "trans chunk_rel"
  by (simp_all add: chunk_rel_def trans_def)

lemma chunk_rel_block: "read_block r = Some r' \<Longrightarrow> (r', r) \<in> chunk_rel"
  by (auto simp: read_block_def chunk_rel_def Let_def split: if_splits)

lemma chunk_rel_err: "(r', r) \<in> chunk_rel \<Longrightarrow> (r'\<lparr>rd_err := e\<rparr>, r) \<in> chunk_rel"
  by (simp add: chunk_rel_def)

lemma chunk_rel_end:
  "rd_file r' = rd_file r \<Longrightarrow> rd_fpos r' = rd_fpos r \<Longrightarrow> rd_n r' = rd_n r \<Longrightarrow> rd_end r < rd_end r' \<Longrightarrow>
     rd_end r < rd_n r \<Longrightarrow> (r', r) \<in> chunk_rel"
  by (auto simp: chunk_rel_def)

lemma recover_fields [simp]: "rd_file (recover r) = rd_file r" "rd_fpos (recover r) = rd_fpos r"
    "rd_n (recover r) = rd_n r" "rd_buf (recover r) = rd_buf r"
    "rd_end (recover r) = (if rd_err r = None then rd_end r else rd_n r)"
  by (simp_all add: recover_def)

lemma chunk_payload_progress:
  assumes "chunk_payload r wantFirst c len ct hs = Continue r' \<or> chunk_payload r wantFirst c len ct hs = Return None r'"
    and "0 < hs" and "rd_end r < rd_n r"
  shows "(r', r) \<in> chunk_rel"
  using assms by (auto simp: chunk_payload_def Let_def intro!: chunk_rel_end split: if_splits)

lemma headerSizes: "legacyHeaderSize = 7" "recyclableHeaderSize = 11"
  by (simp_all add: legacyHeaderSize_def recyclableHeaderSize_def)

text \<open>Every iteration that goes on, and every chunk found, moves forward in the file.\<close>

lemma chunk_body_progress:
  assumes "chunk_body r wantFirst = Continue r' \<or> chunk_body r wantFirst = Return None r'"
  shows "(r', r) \<in> chunk_rel"
proof (cases "rd_end r + legacyHeaderSize \<le> rd_n r")
  case True
  then have e: "rd_end r < rd_n r" by (simp add: headerSizes)
  from assms True show ?thesis
    by (auto simp: chunk_body_def Let_def headerSizes e intro!: chunk_rel_end
        dest!: chunk_payload_progress [OF disjI1] chunk_payload_progress [OF disjI2] split: if_splits)
next
  case False
  with assms show ?thesis
    by (auto simp: chunk_body_def chunk_rel_block split: if_splits option.splits)
qed

function nextChunk :: "Reader \<Rightarrow> bool \<Rightarrow> rec_error option \<times> Reader" where
  "nextChunk r wantFirst =
     (case chunk_body r wantFirst of
        Return e r' \<Rightarrow> (e, r')
      | Continue r' \<Rightarrow> nextChunk r' wantFirst)"
  by pat_completeness auto
termination
  by (relation "inv_image chunk_rel fst") (auto intro: chunk_body_progress)

declare nextChunk.simps [simp del]

lemma nextChunk_progress: "nextChunk r wantFirst = (None, r') \<Longrightarrow> (r', r) \<in> chunk_rel"
proof (induction r wantFirst rule: nextChunk.induct)
  case (1 r wantFirst)
  show ?case
  proof (cases "chunk_body r wantFirst")
    case (Return e r1)
    with 1(2) chunk_body_progress [of r wantFirst r'] show ?thesis by (simp add: nextChunk.simps [of r])
  next
    case (Continue r1)
    with 1(2) have "nextChunk r1 wantFirst = (None, r')" by (simp add: nextChunk.simps [of r])
    from 1(1) [OF Continue this] chunk_body_progress [of r wantFirst r1] Continue trans_chunk_rel
    show ?thesis by (metis transD)
  qed
qed

definition Reader_Next :: "Reader \<Rightarrow> (rec_error + nat) \<times> Reader" where
  "Reader_Next r0 =
     (let r = r0\<lparr>rd_seq := rd_seq r0 + 1\<rparr> in
      case rd_err r of
        Some e \<Rightarrow> (Inl e, r)
      | None \<Rightarrow>
          (case nextChunk (r\<lparr>rd_begin := rd_end r\<rparr>) True of
             (Some e, r) \<Rightarrow> (Inl e, r\<lparr>rd_err := Some e\<rparr>)
           | (None, r) \<Rightarrow> (Inr (rd_seq r), r\<lparr>rd_err := None\<rparr>)))"

definition Reader_Offset :: "Reader \<Rightarrow> int" where
  "Reader_Offset r = (if rd_blockNum r < 0 then 0 else rd_blockNum r * int blockSize + int (rd_end r))"

definition seekRecord :: "Reader \<Rightarrow> nat \<Rightarrow> rec_error option \<times> Reader" where
  "seekRecord r0 offset =
     (let r = r0\<lparr>rd_seq := rd_seq r0 + 1\<rparr> in
      case rd_err r of
        Some e \<Rightarrow> (Some e, r)
      | None \<Rightarrow>
          if \<not> rd_seekable r then (Some ErrNotAnIOSeeker, r)
          else
            let c = offset mod blockSize;
                r = r\<lparr>rd_fpos := offset - offset mod blockSize, rd_begin := 0, rd_end := 0, rd_n := 0,
                      rd_blockNum := -1, rd_recovering := False, rd_last := False\<rparr>
            in case nextChunk r False of
                 (Some e, r) \<Rightarrow> (Some e, r\<lparr>rd_err := Some e\<rparr>)
               | (None, r) \<Rightarrow> (None, r\<lparr>rd_err := None, rd_begin := c, rd_end := c\<rparr>))"

text \<open>\<^verbatim>\<open>singleReader.Read(p)\<close> with a buffer of \<open>m\<close> bytes: the loop that looks for a chunk with
  unread bytes, then the copy.\<close>

function fill_chunk :: "Reader \<Rightarrow> rec_error option \<times> Reader" where
  "fill_chunk r =
     (if rd_begin r = rd_end r then
        if rd_last r then (Some EOF, r)
        else (case nextChunk r False of
                (Some e, r') \<Rightarrow> (Some e, r'\<lparr>rd_err := Some e\<rparr>)
              | (None, r') \<Rightarrow> fill_chunk (r'\<lparr>rd_err := None\<rparr>))
      else (None, r))"
  by pat_completeness auto
termination
  by (relation chunk_rel) (simp_all add: chunk_rel_err nextChunk_progress)

declare fill_chunk.simps [simp del]

definition singleReader_Read :: "nat \<Rightarrow> Reader \<Rightarrow> nat \<Rightarrow> (rec_error + bytes) \<times> Reader" where
  "singleReader_Read seq r m =
     (if rd_seq r \<noteq> seq then (Inl ErrStaleReader, r)
      else case rd_err r of
        Some e \<Rightarrow> (Inl e, r)
      | None \<Rightarrow>
          (case fill_chunk r of
             (Some e, r) \<Rightarrow> (Inl e, r)
           | (None, r) \<Rightarrow>
               let n = min m (rd_end r - rd_begin r) in
               (Inr (buf_at r (rd_begin r) n), r\<lparr>rd_begin := rd_begin r + n\<rparr>)))"

text \<open>\<^verbatim>\<open>io.Copy(&buf, r)\<close>, that is \<^verbatim>\<open>buf.ReadFrom(r)\<close>: \<open>space\<close> gives the free space of the buffer,
  which grows with what it holds and is never zero.\<close>

partial_function (option) io_Copy ::
  "(bytes \<Rightarrow> nat) \<Rightarrow> nat \<Rightarrow> Reader \<Rightarrow> bytes \<Rightarrow> ((rec_error + bytes) \<times> Reader) option" where
  "io_Copy space seq r acc =
     (case singleReader_Read seq r (space acc) of
        (Inl e, r') \<Rightarrow> Some (if e = EOF then Inr acc else Inl e, r')
      | (Inr bs, r') \<Rightarrow> io_Copy space seq r' (acc @ bs))"

text \<open>The loop of \<^verbatim>\<open>plainDB.replayWAL\<close>: the records read before the error that ends it.\<close>

partial_function (option) replay_records ::
  "(bytes \<Rightarrow> nat) \<Rightarrow> Reader \<Rightarrow> bytes list \<Rightarrow> (bytes list \<times> rec_error) option" where
  "replay_records space r recs =
     (case Reader_Next r of
        (Inl e, r) \<Rightarrow> Some (recs, e)
      | (Inr seq, r) \<Rightarrow>
          Option.bind (io_Copy space seq r [])
            (\<lambda>x. case x of
               (Inl e, r) \<Rightarrow> Some (recs, e)
             | (Inr p, r) \<Rightarrow> replay_records space r (recs @ [p])))"

section \<open>The position of a reader\<close>

text \<open>\<open>rd_at F pos r\<close>: the reader is at offset \<open>pos\<close> of the file \<open>F\<close>, before the first block is read
  or inside the block it has read.\<close>

definition rd_at :: "bytes \<Rightarrow> nat \<Rightarrow> Reader \<Rightarrow> bool" where
  "rd_at F pos r \<longleftrightarrow>
     rd_file r = F \<and> length (rd_buf r) = blockSize \<and> \<not> rd_recovering r
     \<and> (rd_blockNum r = -1 \<and> rd_n r = 0 \<and> rd_end r = 0 \<and> rd_fpos r = 0 \<and> pos = 0
        \<or> (\<exists>b. rd_blockNum r = int b \<and> rd_n r = min blockSize (length F - b * blockSize)
             \<and> b * blockSize \<le> length F \<and> rd_fpos r = b * blockSize + rd_n r
             \<and> take (rd_n r) (rd_buf r) = take blockSize (drop (b * blockSize) F)
             \<and> pos = b * blockSize + rd_end r \<and> rd_end r \<le> rd_n r))"

text \<open>\<open>settled F pos r\<close>: the block that holds offset \<open>pos\<close> is in the buffer.\<close>

definition settled :: "bytes \<Rightarrow> nat \<Rightarrow> Reader \<Rightarrow> bool" where
  "settled F pos r \<longleftrightarrow> rd_at F pos r \<and> rd_blockNum r = int (pos div blockSize)"

text \<open>\<open>ready F pos r\<close>: the reader is at \<open>pos\<close>, or before the zeros that pad the block that ends at
  \<open>pos\<close>.\<close>

definition ready :: "bytes \<Rightarrow> nat \<Rightarrow> Reader \<Rightarrow> bool" where
  "ready F pos r \<longleftrightarrow>
     rd_at F pos r
     \<or> (\<exists>pos0 < pos. rd_at F pos0 r \<and> pos mod blockSize = 0 \<and> pos < pos0 + recyclableHeaderSize
          \<and> pos \<le> length F \<and> (\<forall>i. pos0 \<le> i \<and> i < pos \<longrightarrow> F ! i = 0))"

text \<open>What a search for the next chunk leaves alone.\<close>

definition same_reader :: "Reader \<Rightarrow> Reader \<Rightarrow> bool" where
  "same_reader r r' \<longleftrightarrow> rd_logNum r' = rd_logNum r \<and> rd_seq r' = rd_seq r \<and> rd_err r' = rd_err r \<and> rd_last r' = rd_last r"

lemma same_reader_trans: "same_reader r r' \<Longrightarrow> same_reader r' r'' \<Longrightarrow> same_reader r r''"
  by (simp add: same_reader_def)

lemma settledE:
  assumes "settled F pos r"
  obtains b where "b = pos div blockSize" "rd_file r = F" "length (rd_buf r) = blockSize" "\<not> rd_recovering r"
    "rd_blockNum r = int b" "rd_end r = pos mod blockSize" "rd_n r = min blockSize (length F - b * blockSize)"
    "take (rd_n r) (rd_buf r) = take blockSize (drop (b * blockSize) F)" "rd_end r \<le> rd_n r"
    "pos = b * blockSize + rd_end r" "rd_fpos r = b * blockSize + rd_n r" "b * blockSize \<le> length F"
proof -
  have pos: "pos = (pos div blockSize) * blockSize + pos mod blockSize" by simp
  from assms that [of "pos div blockSize"] pos show ?thesis
    by (auto simp: settled_def rd_at_def)
qed

lemma rd_at_inside:
  assumes "rd_at F pos r" and "rd_blockNum r \<noteq> -1" and "rd_end r < blockSize"
  shows "settled F pos r"
  using assms by (auto simp: settled_def rd_at_def)

lemma take_min_len: "take (min (length xs) n) xs = take n xs"
  by (simp add: min_def)

text \<open>At the end of a full block the next one is read.\<close>

lemma chunk_body_load:
  assumes "rd_at F pos r" and "pos < length F" and "rd_blockNum r = -1 \<or> rd_end r = blockSize"
  shows "\<exists>r'. chunk_body r wantFirst = Continue r' \<and> settled F pos r' \<and> same_reader r r'"
proof -
  let ?d = "take blockSize (drop pos F)"
  have ne: "?d \<noteq> []" using assms(2) blockSize_facts by simp
  have fpos: "rd_fpos r = pos" and buf: "length (rd_buf r) = blockSize" and F: "rd_file r = F"
      and rec: "\<not> rd_recovering r" and notin: "\<not> rd_end r + legacyHeaderSize \<le> rd_n r"
      and full: "\<not> (rd_n r < blockSize \<and> 0 \<le> rd_blockNum r)"
    using assms blockSize_facts by (auto simp: rd_at_def headerSizes)
  have num: "\<exists>b. rd_blockNum r + 1 = int b \<and> pos = b * blockSize"
    using assms(1,3) by (auto simp: rd_at_def intro: exI [of _ "Suc _"])
  then obtain b where b: "rd_blockNum r + 1 = int b" "pos = b * blockSize" by blast
  let ?r = "r\<lparr>rd_buf := ?d @ drop (length ?d) (rd_buf r), rd_fpos := rd_fpos r + length ?d,
      rd_begin := 0, rd_end := 0, rd_n := length ?d, rd_blockNum := rd_blockNum r + 1\<rparr>"
  have body: "chunk_body r wantFirst = Continue ?r"
    using ne notin full by (simp add: chunk_body_def read_block_def fpos F Let_def)
  have "rd_at F pos ?r"
    unfolding rd_at_def using buf F rec b fpos assms(2) take_min_len [of "drop pos F" blockSize]
    by (auto intro!: exI [of _ b])
  moreover have "pos div blockSize = b" using b(2) blockSize_facts by simp
  ultimately show ?thesis using body b(1) by (auto simp: settled_def same_reader_def)
qed

lemma nextChunk_Continue: "chunk_body r w = Continue r' \<Longrightarrow> nextChunk r w = nextChunk r' w"
  by (simp add: nextChunk.simps [of r])

lemma nextChunk_Return: "chunk_body r w = Return e r' \<Longrightarrow> nextChunk r w = (e, r')"
  by (simp add: nextChunk.simps [of r])

text \<open>The bytes of the buffer are the bytes of the file.\<close>

lemma settled_bytes:
  assumes "settled F pos r" and "pos mod blockSize + i + n \<le> rd_n r"
  shows "buf_at r (rd_end r + i) n = take n (drop (pos + i) F)"
proof -
  obtain b where b: "rd_end r = pos mod blockSize" "pos = b * blockSize + rd_end r"
      "take (rd_n r) (rd_buf r) = take blockSize (drop (b * blockSize) F)" "rd_n r \<le> blockSize"
    using settledE [OF assms(1)] by (metis min.cobounded1)
  have "buf_at r (rd_end r + i) n = take n (drop (rd_end r + i) (take (rd_n r) (rd_buf r)))"
    using assms(2) b(1) by (simp add: buf_at_def drop_take)
  also have "\<dots> = take n (drop (rd_end r + i) (drop (b * blockSize) F))"
    using assms(2) b(1,4) by (simp add: b(3) drop_take)
  also have "\<dots> = take n (drop (pos + i) F)"
    unfolding drop_drop using b(2) by (metis add.assoc add.commute)
  finally show ?thesis .
qed


lemma settled_n:
  assumes "settled F pos r"
  shows "pos mod blockSize + k \<le> blockSize \<Longrightarrow> rd_end r + k \<le> rd_n r \<longleftrightarrow> pos + k \<le> length F"
    and "rd_end r = pos mod blockSize"
    and "rd_n r \<le> blockSize" and "\<not> rd_recovering r" and "0 \<le> rd_blockNum r" and "rd_end r \<le> rd_n r"
    and "length (rd_buf r) = blockSize"
proof -
  obtain b where b: "rd_end r = pos mod blockSize" "rd_n r = min blockSize (length F - b * blockSize)"
      "pos = b * blockSize + rd_end r" "\<not> rd_recovering r" "rd_blockNum r = int b" "rd_end r \<le> rd_n r"
      "b * blockSize \<le> length F" "length (rd_buf r) = blockSize"
    using assms(1) by (rule settledE)
  show "rd_end r = pos mod blockSize" by (rule b(1))
  show "rd_end r + k \<le> rd_n r \<longleftrightarrow> pos + k \<le> length F" if "pos mod blockSize + k \<le> blockSize"
  proof -
    have "rd_end r + k \<le> blockSize" using that b(1) by simp
    then show ?thesis using b(2,3,7) by (simp add: min_def) linarith
  qed
  show "rd_n r \<le> blockSize" "\<not> rd_recovering r" "0 \<le> rd_blockNum r" "rd_end r \<le> rd_n r"
      "length (rd_buf r) = blockSize"
    using b by simp_all
qed

lemma settled_byte:
  assumes "settled F pos r" and "pos mod blockSize + i < rd_n r"
  shows "rd_buf r ! (rd_end r + i) = F ! (pos + i)"
proof -
  have n: "rd_n r \<le> length (rd_buf r)" and F: "pos + i < length F"
    and e: "rd_end r = pos mod blockSize"
    using settled_n [OF assms(1)] settled_n(1) [OF assms(1), of "i + 1"] assms(2) by simp_all
  then have "take 1 (drop (rd_end r + i) (rd_buf r)) = [rd_buf r ! (rd_end r + i)]"
    using assms(2) n by (simp add: take_Suc_conv_app_nth)
  moreover have "take 1 (drop (pos + i) F) = [F ! (pos + i)]"
    using F by (simp add: take_Suc_conv_app_nth)
  ultimately show ?thesis using settled_bytes [OF assms(1), of i 1] assms(2) by (simp add: buf_at_def)
qed

lemma chunk_body_zeros:
  assumes "settled F pos r" and "pos mod blockSize + 7 \<le> blockSize" and "pos + 7 \<le> length F"
    and "\<forall>i < 7. F ! (pos + i) = 0" and "rd_n r < rd_end r + recyclableHeaderSize"
  shows "chunk_body r w = Continue (r\<lparr>rd_end := rd_n r\<rparr>)"
proof -
  note n = settled_n(1) [OF assms(1,2)] settled_n(2) [OF assms(1)]
  have fits: "pos mod blockSize + 7 \<le> rd_n r" using n(1,2) assms(3) by simp
  have z: "take k (drop (pos + i) F) = replicate k 0" if "i + k \<le> 7" for i k
    using assms(3,4) that by (intro nth_equalityI) (auto simp: add.assoc)
  have "buf_at r (rd_end r) 4 = replicate 4 0" "buf_at r (rd_end r + 4) 2 = replicate 2 0"
    using settled_bytes [OF assms(1), of 0 4] settled_bytes [OF assms(1), of 4 2] z [of 0 4] z [of 4 2] fits
    by simp_all
  moreover have "rd_buf r ! (rd_end r + 6) = 0"
    using settled_byte [OF assms(1), of 6] fits assms(4) by simp
  ultimately show ?thesis
    using fits n(2) assms(5) by (simp add: chunk_body_def headerSizes Let_def le_dec_zeros)
qed

lemma padded_block:
  assumes "rd_at F pos0 r" and "pos0 < pos" and "pos < pos0 + 11" and "pos mod blockSize = 0"
  shows "\<exists>b. pos = b * blockSize + blockSize \<and> rd_blockNum r = int b
    \<and> rd_n r = min blockSize (length F - b * blockSize) \<and> pos0 = b * blockSize + rd_end r \<and> rd_end r \<le> rd_n r
    \<and> b * blockSize \<le> length F \<and> rd_fpos r = b * blockSize + rd_n r
    \<and> take (rd_n r) (rd_buf r) = take blockSize (drop (b * blockSize) F)"
proof -
  obtain c where c: "pos = c * blockSize" using assms(4) by (metis mod_0_imp_dvd dvdE mult.commute)
  have "pos0 \<noteq> 0"
    using assms(2,3) c blockSize_facts by (cases c) simp_all
  then obtain b where b: "rd_blockNum r = int b" "rd_n r = min blockSize (length F - b * blockSize)"
      "pos0 = b * blockSize + rd_end r" "rd_end r \<le> rd_n r" "b * blockSize \<le> length F"
      "rd_fpos r = b * blockSize + rd_n r" "take (rd_n r) (rd_buf r) = take blockSize (drop (b * blockSize) F)"
    using assms(1) unfolding rd_at_def by blast
  have "c = Suc b"
  proof (rule antisym)
    have "c * blockSize < (b + 2) * blockSize" using b(2,3,4) c assms(3) blockSize_facts by simp
    then have "c < b + 2" by (rule mult_right_less_imp_less) simp
    then show "c \<le> Suc b" by simp
    have "b * blockSize < c * blockSize" using b(3) c assms(2) by linarith
    then show "Suc b \<le> c" by simp
  qed
  then show ?thesis using b c by (intro exI [of _ b]) simp
qed

text \<open>A reader that is ready settles on the block of the next chunk.\<close>

lemma ready_settles:
  assumes "ready F pos r" and "pos < length F"
  shows "\<exists>r'. nextChunk r w = nextChunk r' w \<and> settled F pos r' \<and> same_reader r r'"
proof (cases "rd_at F pos r")
  case True
  show ?thesis
  proof (cases "rd_blockNum r = -1 \<or> rd_end r = blockSize")
    case load: True
    from chunk_body_load [OF True assms(2) load, of w] show ?thesis using nextChunk_Continue by blast
  next
    case False
    with True have "rd_end r < blockSize" by (auto simp: rd_at_def)
    with False True show ?thesis using rd_at_inside [of F pos r] by (auto simp: same_reader_def)
  qed
next
  case False
  with assms(1) obtain pos0 where p0: "pos0 < pos" "rd_at F pos0 r" "pos mod blockSize = 0"
      "pos < pos0 + 11" "\<forall>i. pos0 \<le> i \<and> i < pos \<longrightarrow> F ! i = 0" by (auto simp: ready_def headerSizes)
  obtain b where c: "pos = b * blockSize + blockSize" and b: "rd_blockNum r = int b"
      "rd_n r = min blockSize (length F - b * blockSize)"
      "pos0 = b * blockSize + rd_end r" "rd_end r \<le> rd_n r" "b * blockSize \<le> length F"
      "rd_fpos r = b * blockSize + rd_n r" "take (rd_n r) (rd_buf r) = take blockSize (drop (b * blockSize) F)"
    using padded_block [OF p0(2,1,4,3)] by blast
  have r: "rd_file r = F" "length (rd_buf r) = blockSize" "\<not> rd_recovering r"
    using p0(2) by (simp_all add: rd_at_def)
  have e: "rd_end r < blockSize" "blockSize < rd_end r + 11" using b(3) c p0(1,4) by simp_all
  have n: "rd_n r = blockSize" using b(2) c assms(2) by simp
  have set0: "settled F pos0 r" using rd_at_inside [OF p0(2) _ e(1)] b(1) by simp
  define r1 where "r1 = r\<lparr>rd_end := rd_n r\<rparr>"
  have posn: "pos = b * blockSize + rd_n r" using c n by simp
  then have fpos: "rd_fpos r < length (rd_file r)" using b(6) assms(2) r(1) by simp
  from posn have at1: "rd_at F pos r1"
    unfolding rd_at_def r1_def using b r by (intro conjI disjI2 exI [of _ b]) simp_all
  obtain r' where r': "nextChunk r1 w = nextChunk r' w" "settled F pos r'" "same_reader r1 r'"
    using chunk_body_load [OF at1 assms(2), of w] n nextChunk_Continue by (auto simp: r1_def)
  have "nextChunk r w = nextChunk r1 w"
  proof (cases "rd_end r + 7 \<le> blockSize")
    case True
    have "pos0 + 7 \<le> pos" using True b(3) c by simp
    moreover have "pos0 mod blockSize + 7 \<le> blockSize" using True settled_n(2) [OF set0] by simp
    ultimately have "chunk_body r w = Continue r1"
      unfolding r1_def
      by (intro chunk_body_zeros [OF set0])
         (use e n p0(5) assms(2) in \<open>simp_all add: headerSizes\<close>)
    then show ?thesis by (rule nextChunk_Continue)
  next
    case False
    have "chunk_body r w = chunk_body r1 w"
      using False n e b(1) fpos by (simp add: chunk_body_def r1_def headerSizes read_block_def Let_def)
    then show ?thesis using nextChunk.simps [of r w] nextChunk.simps [of r1 w] by simp
  qed
  with r' show ?thesis by (auto simp: same_reader_def r1_def)
qed

section \<open>Reading one chunk\<close>

lemma chunk_body_header:
  assumes "settled F pos r" and "pos mod blockSize + recyclableHeaderSize \<le> blockSize"
    and "drop pos F = le_enc 4 c @ le_enc 2 l @ [t] @ le_enc 4 L @ rest" and "5 \<le> t" and "t \<le> 8"
  shows "chunk_body r w =
     (if L \<noteq> rd_logNum r then Return (Some (if w then EOF else ErrInvalidChunk)) r
      else chunk_payload r w c (unat (l :: u16)) (t - 4) recyclableHeaderSize)"
proof -
  have lenF: "pos + 11 \<le> length F"
    using arg_cong [OF assms(3), of length] by (cases "pos \<le> length F") simp_all
  then have n: "rd_end r + 11 \<le> rd_n r" "pos mod blockSize + 11 \<le> rd_n r"
    using settled_n(1) [OF assms(1), of 11] settled_n(2) [OF assms(1)] assms(2) by (simp_all add: headerSizes)
  have d: "drop (pos + i) F = drop i (le_enc 4 c @ le_enc 2 l @ [t] @ le_enc 4 L @ rest)" for i
    using assms(3) by (metis add.commute drop_drop)
  have "buf_at r (rd_end r) 4 = le_enc 4 c" "buf_at r (rd_end r + 4) 2 = le_enc 2 l"
      "buf_at r (rd_end r + 7) 4 = le_enc 4 L"
    using settled_bytes [OF assms(1), of 0 4] settled_bytes [OF assms(1), of 4 2]
      settled_bytes [OF assms(1), of 7 4] n d [of 0] d [of 4] d [of 7] by simp_all
  moreover have "rd_buf r ! (rd_end r + 6) = t"
    using settled_byte [OF assms(1), of 6] n d [of 6] nth_drop [of "pos + 6" F 0] lenF by simp
  moreover have "t \<noteq> 0" using assms(4) by auto
  ultimately show ?thesis
    using n assms(4,5) by (simp add: chunk_body_def headerSizes Let_def le_dec_enc)
qed

lemma nextChunk_chunk:
  assumes "ready F pos r" and "drop pos F = chunk_bytes (rd_logNum r) t q @ rest"
    and "pos mod blockSize + recyclableHeaderSize + length q \<le> blockSize" and "5 \<le> t" and "t \<le> 8"
    and "w \<longrightarrow> t = 5 \<or> t = 6"
  shows "\<exists>r'. nextChunk r w = (None, r') \<and> rd_at F (pos + recyclableHeaderSize + length q) r'
    \<and> buf_at r' (rd_begin r') (length q) = q \<and> rd_end r' = rd_begin r' + length q
    \<and> rd_last r' = (t = 5 \<or> t = 8) \<and> rd_logNum r' = rd_logNum r \<and> rd_seq r' = rd_seq r \<and> rd_err r' = rd_err r
    \<and> rd_blockNum r' \<noteq> -1"
proof -
  let ?L = "rd_logNum r"
  have lenF: "pos + 11 + length q \<le> length F"
    using arg_cong [OF assms(2), of length] blockSize_facts by (cases "pos \<le> length F") simp_all
  then obtain r1 where r1: "nextChunk r w = nextChunk r1 w" "settled F pos r1" "same_reader r r1"
    using ready_settles [OF assms(1), of w] by auto
  let ?c = "crc_Value (crc_New (t # le_enc 4 ?L @ q))"
  have body: "chunk_body r1 w = chunk_payload r1 w ?c (unat (of_nat (length q) :: u16)) (t - 4) recyclableHeaderSize"
    using chunk_body_header [OF r1(2) _ assms(2) [unfolded chunk_bytes_def, simplified append_assoc] assms(4,5)]
      assms(3) r1(3) by (simp add: same_reader_def)
  have len: "unat (of_nat (length q) :: u16) = length q"
    using assms(3) blockSize_facts by (simp add: unat_of_nat)
  have n: "rd_end r1 + 11 + length q \<le> rd_n r1" "pos mod blockSize + 11 + length q \<le> rd_n r1"
    using settled_n(1) [OF r1(2), of "11 + length q"] settled_n(2) [OF r1(2)] assms(3) lenF
    by (simp_all add: headerSizes)
  have d: "drop (pos + i) F = drop i (chunk_bytes ?L t q @ rest)" for i
    using assms(2) by (metis add.commute drop_drop)
  let ?r = "r1\<lparr>rd_begin := rd_end r1 + 11, rd_end := rd_end r1 + 11 + length q\<rparr>"
  have "take (5 + length q) (t # le_enc 4 ?L @ q @ rest) = t # le_enc 4 ?L @ q"
    by (simp add: take_Cons' del: take_append) (simp add: take_append)
  then have checked: "buf_at r1 (rd_end r1 + 6) (5 + length q) = t # le_enc 4 ?L @ q"
    using settled_bytes [OF r1(2), of 6 "5 + length q"] n(2) d [of 6] by (simp add: chunk_bytes_def)
  have payload: "buf_at r1 (rd_end r1 + 11) (length q) = q"
    using settled_bytes [OF r1(2), of 11 "length q"] n(2) d [of 11] by (simp add: chunk_bytes_def)
  let ?r' = "?r\<lparr>rd_last := (t - 4 = 1 \<or> t - 4 = 4), rd_recovering := False\<rparr>"
  have "w \<longrightarrow> t - 4 = 1 \<or> t - 4 = 2" using assms(6) by auto
  then have "chunk_payload r1 w ?c (length q) (t - 4) 11 = Return None ?r'"
    using n checked by (simp add: chunk_payload_def Let_def buf_at_def)
  then have "nextChunk r w = (None, ?r')"
    using r1(1) nextChunk_Return [OF trans [OF body]] len by (simp add: headerSizes)
  moreover have "rd_at F (pos + recyclableHeaderSize + length q) ?r'"
    using r1(2) n(1) unfolding settled_def rd_at_def by (auto simp: headerSizes)
  moreover have "rd_last ?r' = (t = 5 \<or> t = 8)"
    by (auto simp: diff_eq_eq)
  moreover have "rd_blockNum ?r' \<noteq> -1" using settled_n(5) [OF r1(2)] by simp
  ultimately show ?thesis
    using payload r1(3) by (intro exI [of _ ?r']) (simp add: same_reader_def buf_at_def)
qed

text \<open>The trailer of a closed log ends the search, whatever a recycled file holds after it.\<close>

lemma nextChunk_trailer:
  assumes "ready F pos r" and "drop pos F = eof_bytes (rd_logNum r) @ rest"
    and "pos mod blockSize + recyclableHeaderSize \<le> blockSize"
  shows "\<exists>r'. nextChunk r True = (Some EOF, r')"
proof -
  have "pos < length F"
    using arg_cong [OF assms(2), of length] blockSize_facts by (cases "pos \<le> length F") simp_all
  then obtain r1 where r1: "nextChunk r True = nextChunk r1 True" "settled F pos r1" "same_reader r r1"
    using ready_settles [OF assms(1), of True] by auto
  have z: "(replicate 6 0 :: bytes) = le_enc 4 (0 :: u32) @ le_enc 2 (0 :: u16)" by (simp add: eval_nat_numeral)
  have "drop pos F = le_enc 4 (0 :: u32) @ le_enc 2 (0 :: u16) @ [5] @ le_enc 4 (rd_logNum r + 1) @ rest"
    using assms(2) by (simp add: eof_bytes_def z)
  from chunk_body_header [OF r1(2) assms(3) this, of True] r1(3)
  have "chunk_body r1 True = Return (Some EOF) r1" by (simp add: same_reader_def)
  with r1(1) show ?thesis using nextChunk_Return by simp
qed

section \<open>Reading one record\<close>

lemma take_split: "n \<le> m \<Longrightarrow> take n xs @ take (m - n) (drop n xs) = take m xs"
  by (metis take_add le_add_diff_inverse)

lemma io_Copy_drain:
  assumes "\<forall>a. 0 < space a" and "rd_seq r = seq" and "rd_err r = None" and "rd_begin r \<le> rd_end r"
    and "rd_end r \<le> length (rd_buf r)"
  shows "io_Copy space seq r acc
    = io_Copy space seq (r\<lparr>rd_begin := rd_end r\<rparr>) (acc @ buf_at r (rd_begin r) (rd_end r - rd_begin r))"
  using assms
proof (induction "rd_end r - rd_begin r" arbitrary: r acc rule: less_induct)
  case less
  show ?case
  proof (cases "rd_begin r = rd_end r")
    case True
    then show ?thesis by (simp add: buf_at_def) (metis Reader.surjective Reader.update_convs(7) True)
  next
    case False
    let ?n = "min (space acc) (rd_end r - rd_begin r)"
    let ?r = "r\<lparr>rd_begin := rd_begin r + ?n\<rparr>"
    have n: "0 < ?n" using False less.prems(1,4) by simp
    have smaller: "rd_end r - (rd_begin r + ?n) < rd_end r - rd_begin r" and le: "rd_begin r + ?n \<le> rd_end r"
      using n less.prems(4) False by linarith+
    have "fill_chunk r = (None, r)" using False by (simp add: fill_chunk.simps)
    then have "io_Copy space seq r acc = io_Copy space seq ?r (acc @ buf_at r (rd_begin r) ?n)"
      using less.prems by (subst io_Copy.simps) (simp add: singleReader_Read_def Let_def)
    also have "\<dots> = io_Copy space seq (?r\<lparr>rd_begin := rd_end r\<rparr>)
        ((acc @ buf_at r (rd_begin r) ?n) @ buf_at ?r (rd_begin r + ?n) (rd_end r - (rd_begin r + ?n)))"
      using less.hyps [of ?r "acc @ buf_at r (rd_begin r) ?n"] less.prems smaller le by simp
    also have "\<dots> = io_Copy space seq (r\<lparr>rd_begin := rd_end r\<rparr>)
        (acc @ buf_at r (rd_begin r) ?n @ buf_at r (rd_begin r + ?n) (rd_end r - rd_begin r - ?n))"
      by (simp add: buf_at_def)
    also have "buf_at r (rd_begin r) ?n @ buf_at r (rd_begin r + ?n) (rd_end r - rd_begin r - ?n)
        = buf_at r (rd_begin r) (rd_end r - rd_begin r)"
      using take_split [of ?n "rd_end r - rd_begin r" "drop (rd_begin r) (rd_buf r)"]
      by (simp add: buf_at_def add.commute)
    finally show ?thesis .
  qed
qed

lemma io_Copy_last:
  "rd_seq r = seq \<Longrightarrow> rd_err r = None \<Longrightarrow> rd_begin r = rd_end r \<Longrightarrow> rd_last r \<Longrightarrow>
     io_Copy space seq r acc = Some (Inr acc, r)"
  by (subst io_Copy.simps) (simp add: singleReader_Read_def fill_chunk.simps)

lemma Read_next:
  assumes "rd_seq r = seq" and "rd_err r = None" and "rd_begin r = rd_end r" and "\<not> rd_last r"
  shows "nextChunk r False = (None, r') \<Longrightarrow> rd_seq r' = seq \<Longrightarrow>
      singleReader_Read seq r m = singleReader_Read seq (r'\<lparr>rd_err := None\<rparr>) m"
    and "nextChunk r False = (Some e, r') \<Longrightarrow> singleReader_Read seq r m = (Inl e, r'\<lparr>rd_err := Some e\<rparr>)"
  using assms by (simp_all add: singleReader_Read_def fill_chunk.simps [of r])

lemma io_Copy_next:
  assumes "rd_seq r = seq" and "rd_err r = None" and "rd_begin r = rd_end r" and "\<not> rd_last r"
  shows "nextChunk r False = (None, r') \<Longrightarrow> rd_seq r' = seq \<Longrightarrow>
      io_Copy space seq r acc = io_Copy space seq (r'\<lparr>rd_err := None\<rparr>) acc"
    and "nextChunk r False = (Some e, r') \<Longrightarrow> e \<noteq> EOF \<Longrightarrow>
      io_Copy space seq r acc = Some (Inl e, r'\<lparr>rd_err := Some e\<rparr>)"
  using Read_next [OF assms] by (simp_all add: io_Copy.simps [of _ _ r] io_Copy.simps [of _ _ "r'\<lparr>rd_err := None\<rparr>"])

lemma ready_cong:
  assumes "rd_file r' = rd_file r" "rd_buf r' = rd_buf r" "rd_recovering r' = rd_recovering r"
    "rd_blockNum r' = rd_blockNum r" "rd_n r' = rd_n r" "rd_end r' = rd_end r" "rd_fpos r' = rd_fpos r"
  shows "rd_at F pos r' = rd_at F pos r" and "ready F pos r' = ready F pos r"
  using assms by (simp_all add: rd_at_def ready_def)

lemma rd_at_ready: "rd_at F pos r \<Longrightarrow> ready F pos r"
  by (simp add: ready_def)

lemma rd_at_bounds: "rd_at F pos r \<Longrightarrow> rd_end r \<le> length (rd_buf r)"
  by (auto simp: rd_at_def)

text \<open>After the last chunk of a record the reader is ready for the next record.\<close>

lemma ready_padding:
  assumes "rd_at F pos r" and "drop pos F = padding off @ rest" and "off = pos0 mod blockSize + k"
    and "off \<le> blockSize" and "pos = pos0 + k"
  shows "ready F (pos + length (padding off)) r"
proof (cases "padding off = []")
  case True
  then show ?thesis using assms(1) by (simp add: ready_def)
next
  case False
  then have pad: "padding off = replicate (blockSize - off) 0" "0 < blockSize - off" "blockSize - off < 11"
    by (auto simp: padding_def headerSizes split: if_splits)
  have "pos + length (padding off) = pos0 div blockSize * blockSize + blockSize"
    using assms(3,5,4) pad(2) div_mult_mod_eq [of pos0 blockSize] unfolding pad(1) length_replicate by linarith
  then have m: "(pos + length (padding off)) mod blockSize = 0" by simp
  have len: "pos + length (padding off) \<le> length F"
    using arg_cong [OF assms(2), of length] pad by (cases "pos \<le> length F") simp_all
  have "F ! i = 0" if "pos \<le> i" "i < pos + length (padding off)" for i
  proof -
    have "F ! i = drop pos F ! (i - pos)" using that len by simp
    also have "i - pos < blockSize - off" using that pad(1) by simp
    then have "drop pos F ! (i - pos) = 0" unfolding assms(2) pad(1) by (simp add: nth_append)
    finally show ?thesis .
  qed
  with m len assms(1) pad show ?thesis by (auto simp: ready_def headerSizes intro!: exI [of _ pos])
qed

text \<open>One chunk found and copied.\<close>

lemma chunk_copied:
  assumes "ready F pos r" and "drop pos F = chunk_bytes (rd_logNum r) t q @ rest"
    and "pos mod blockSize + recyclableHeaderSize + length q \<le> blockSize" and "5 \<le> t" and "t \<le> 8"
    and "w \<longrightarrow> t = 5 \<or> t = 6" and "\<forall>a. 0 < space a"
  shows "\<exists>r1 r2. nextChunk r w = (None, r1) \<and> rd_seq r1 = rd_seq r
    \<and> io_Copy space (rd_seq r) (r1\<lparr>rd_err := None\<rparr>) acc = io_Copy space (rd_seq r) r2 (acc @ q)
    \<and> rd_at F (pos + recyclableHeaderSize + length q) r2 \<and> rd_begin r2 = rd_end r2
    \<and> rd_last r2 = (t = 5 \<or> t = 8) \<and> rd_logNum r2 = rd_logNum r \<and> rd_seq r2 = rd_seq r \<and> rd_err r2 = None
    \<and> rd_blockNum r2 \<noteq> -1"
proof -
  obtain r1 where r1: "nextChunk r w = (None, r1)" "rd_at F (pos + recyclableHeaderSize + length q) r1"
      "buf_at r1 (rd_begin r1) (length q) = q" "rd_end r1 = rd_begin r1 + length q"
      "rd_last r1 = (t = 5 \<or> t = 8)" "rd_logNum r1 = rd_logNum r" "rd_seq r1 = rd_seq r" "rd_blockNum r1 \<noteq> -1"
    using nextChunk_chunk [OF assms(1-6)] by blast
  let ?r2 = "r1\<lparr>rd_err := None, rd_begin := rd_end r1\<rparr>"
  have "io_Copy space (rd_seq r) (r1\<lparr>rd_err := None\<rparr>) acc = io_Copy space (rd_seq r) ?r2 (acc @ q)"
    using io_Copy_drain [OF assms(7), of "r1\<lparr>rd_err := None\<rparr>" "rd_seq r" acc] r1 rd_at_bounds [OF r1(2)]
    by (simp add: buf_at_def)
  moreover have "rd_at F (pos + recyclableHeaderSize + length q) ?r2"
    using r1(2) by (subst ready_cong(1) [of _ r1]) simp_all
  ultimately show ?thesis using r1 by (intro exI [of _ r1] exI [of _ ?r2]) simp
qed

lemma drop_chunk:
  "drop pos F = chunk_bytes L t q @ rest \<Longrightarrow> drop (pos + recyclableHeaderSize + length q) F = rest"
  by (metis add.assoc add.commute append_eq_conv_conj drop_drop length_chunk_bytes)

lemma record_read:
  assumes "framed L pos first p out" and "drop pos F = out @ rest" and "ready F pos r" and "rd_logNum r = L"
    and "\<forall>a. 0 < space a"
  shows "\<exists>r1 r'. nextChunk r first = (None, r1) \<and> rd_seq r1 = rd_seq r
    \<and> io_Copy space (rd_seq r) (r1\<lparr>rd_err := None\<rparr>) acc = Some (Inr (acc @ p), r')
    \<and> ready F (pos + length out) r' \<and> rd_logNum r' = L \<and> rd_err r' = None"
  using assms
proof (induction arbitrary: r acc rule: framed.induct)
  case (final pos p logNum first)
  let ?t = "if first then 5 else 8 :: byte" and ?off = "pos mod blockSize + recyclableHeaderSize + length p"
  have le: "?off \<le> blockSize"
    using final(1,2) headerSizes(2) unfolding room_def by linarith
  have t: "5 \<le> ?t" "?t \<le> 8" "first \<longrightarrow> ?t = 5 \<or> ?t = 6" by simp_all
  have d: "drop pos F = chunk_bytes (rd_logNum r) ?t p @ padding ?off @ rest" using final(3,5) by simp
  obtain r1 r2 where r1: "nextChunk r first = (None, r1)" "rd_seq r1 = rd_seq r"
      "io_Copy space (rd_seq r) (r1\<lparr>rd_err := None\<rparr>) acc = io_Copy space (rd_seq r) r2 (acc @ p)"
    and r2: "rd_at F (pos + recyclableHeaderSize + length p) r2" "rd_begin r2 = rd_end r2" "rd_last r2"
      "rd_logNum r2 = logNum" "rd_seq r2 = rd_seq r" "rd_err r2 = None"
    using chunk_copied [OF final(4) d le t final(6), of acc] final(5) by (auto split: if_splits)
  have "ready F (pos + recyclableHeaderSize + length p + length (padding ?off)) r2"
    using ready_padding [OF r2(1), of ?off rest pos "recyclableHeaderSize + length p"] drop_chunk [OF d] le
    by (simp add: add.assoc)
  with r1 r2 io_Copy_last [OF r2(5,6,2,3), of space "acc @ p"] show ?case by (simp add: add.assoc)
next
  case (more pos p logNum out first)
  let ?t = "if first then 6 else 7 :: byte" and ?q = "take (room pos) p"
  have lq: "length ?q = room pos" using more(2) by simp
  have le: "pos mod blockSize + recyclableHeaderSize + length ?q \<le> blockSize"
    using more(1,2) headerSizes(2) unfolding lq unfolding room_def by linarith
  have t: "5 \<le> ?t" "?t \<le> 8" "first \<longrightarrow> ?t = 5 \<or> ?t = 6" by simp_all
  have d: "drop pos F = chunk_bytes (rd_logNum r) ?t ?q @ out @ rest" using more(5,7) by simp
  obtain r1 r2 where r1: "nextChunk r first = (None, r1)" "rd_seq r1 = rd_seq r"
      "io_Copy space (rd_seq r) (r1\<lparr>rd_err := None\<rparr>) acc = io_Copy space (rd_seq r) r2 (acc @ ?q)"
    and r2: "rd_at F (pos + recyclableHeaderSize + length ?q) r2" "rd_begin r2 = rd_end r2" "\<not> rd_last r2"
      "rd_logNum r2 = logNum" "rd_seq r2 = rd_seq r" "rd_err r2 = None"
    using chunk_copied [OF more(6) d le t more(8), of acc] more(7) by (auto split: if_splits)
  have "drop (pos + recyclableHeaderSize + room pos) F = out @ rest" using drop_chunk [OF d] unfolding lq .
  moreover have "ready F (pos + recyclableHeaderSize + room pos) r2" using rd_at_ready [OF r2(1)] unfolding lq .
  ultimately obtain r3 r' where r': "nextChunk r2 False = (None, r3)" "rd_seq r3 = rd_seq r"
      "io_Copy space (rd_seq r) (r3\<lparr>rd_err := None\<rparr>) (acc @ ?q) = Some (Inr ((acc @ ?q) @ drop (room pos) p), r')"
      "ready F (pos + recyclableHeaderSize + room pos + length out) r'" "rd_logNum r' = logNum" "rd_err r' = None"
    using more.IH [of r2 "acc @ ?q"] more(8) r2(4,5) by auto
  with io_Copy_next(1) [OF r2(5,6,2,3) r'(1,2), of space "acc @ ?q"] r1 lq show ?case
    by (intro exI [of _ r1] exI [of _ r']) (simp add: add.assoc)
qed

section \<open>Torn logs\<close>

text \<open>A log that was not closed may end anywhere, also inside a chunk or inside the padding.\<close>

definition log_end :: "bool \<Rightarrow> rec_error \<Rightarrow> bool" where
  "log_end wantFirst e \<longleftrightarrow> (wantFirst \<and> e = EOF) \<or> IsInvalidRecord e"

text \<open>Everything is in the buffer and only a few zeros are left there.\<close>

definition exhausted :: "bytes \<Rightarrow> Reader \<Rightarrow> bool" where
  "exhausted F r \<longleftrightarrow>
     rd_file r = F \<and> rd_fpos r = length F \<and> \<not> rd_recovering r \<and> length (rd_buf r) = blockSize
     \<and> rd_n r \<le> blockSize \<and> rd_end r \<le> rd_n r \<and> rd_n r < rd_end r + recyclableHeaderSize
     \<and> (\<forall>i. rd_end r \<le> i \<and> i < rd_n r \<longrightarrow> rd_buf r ! i = 0)"

lemma exhausted_body_end:
  assumes "exhausted F r" and "rd_n r < rd_end r + 7"
  shows "\<exists>e. chunk_body r w = Return (Some e) r \<and> log_end w e"
proof -
  have "\<not> rd_end r + legacyHeaderSize \<le> rd_n r" using assms(2) by (simp add: headerSizes)
  moreover have "read_block r = None" using assms(1) by (simp add: exhausted_def read_block_def)
  ultimately show ?thesis
    by (cases w) (simp_all add: chunk_body_def log_end_def IsInvalidRecord_def)
qed

lemma exhausted_ends:
  assumes "exhausted F r"
  shows "\<exists>e r'. nextChunk r w = (Some e, r') \<and> log_end w e"
proof (cases "rd_end r + 7 \<le> rd_n r")
  case False
  then show ?thesis using exhausted_body_end [OF assms, of w] nextChunk_Return by fastforce
next
  case True
  let ?r = "r\<lparr>rd_end := rd_n r\<rparr>"
  have z: "take k (drop (rd_end r + i) (rd_buf r)) = replicate k 0" if "i + k \<le> 7" for i k
    using assms that True by (intro nth_equalityI) (auto simp: exhausted_def)
  have "buf_at r (rd_end r) 4 = replicate 4 0" "buf_at r (rd_end r + 4) 2 = replicate 2 0"
    using z [of 0 4] z [of 4 2] by (simp_all add: buf_at_def)
  moreover have "rd_buf r ! (rd_end r + 6) = 0" using assms True by (simp add: exhausted_def)
  ultimately have "chunk_body r w = Continue ?r"
    using True assms by (simp add: chunk_body_def exhausted_def headerSizes Let_def le_dec_zeros)
  moreover have "exhausted F ?r" using assms by (simp add: exhausted_def headerSizes)
  ultimately show ?thesis
    using exhausted_body_end [of F ?r w] nextChunk_Continue nextChunk_Return by fastforce
qed

lemma rd_at_exhausted:
  assumes "rd_at F pos r" and "rd_blockNum r \<noteq> -1 \<or> F = []" and "length F < pos + recyclableHeaderSize"
    and "\<forall>i. pos \<le> i \<and> i < length F \<longrightarrow> F ! i = 0" and "length F \<le> rd_fpos r \<or> length F = pos"
  shows "exhausted F r"
proof (cases "rd_blockNum r = -1")
  case True
  with assms(1,2) show ?thesis by (auto simp: exhausted_def rd_at_def headerSizes)
next
  case False
  then obtain b where b: "rd_n r = min blockSize (length F - b * blockSize)" "b * blockSize \<le> length F"
      "pos = b * blockSize + rd_end r" "rd_end r \<le> rd_n r" "rd_fpos r = b * blockSize + rd_n r"
      "take (rd_n r) (rd_buf r) = take blockSize (drop (b * blockSize) F)"
      and r: "rd_file r = F" "length (rd_buf r) = blockSize" "\<not> rd_recovering r"
    using assms(1) unfolding rd_at_def by blast
  have n: "rd_n r = length F - b * blockSize" "rd_fpos r = length F"
    using assms(5) b(1-5) by linarith+
  have "rd_buf r ! i = 0" if "rd_end r \<le> i" "i < rd_n r" for i
  proof -
    have "rd_buf r ! i = take (rd_n r) (rd_buf r) ! i" using that by simp
    also have "\<dots> = F ! (b * blockSize + i)" unfolding b(6) using that b(1,2) by simp
    also have "\<dots> = 0" using assms(4) that b(3) n(1) by simp
    finally show ?thesis .
  qed
  moreover have "rd_n r < rd_end r + recyclableHeaderSize" using assms(3) b(3) n(1) headerSizes(2) by linarith
  ultimately show ?thesis using r n(2) b(1,4) by (simp add: exhausted_def)
qed

lemma ready_exhausted:
  assumes "ready F (length F) r"
  shows "exhausted F r"
proof (cases "rd_at F (length F) r")
  case True
  then have "rd_blockNum r \<noteq> -1 \<or> F = []" by (auto simp: rd_at_def)
  with True show ?thesis by (intro rd_at_exhausted [of F "length F"]) (auto simp: headerSizes)
next
  case False
  with assms obtain pos0 where p0: "pos0 < length F" "rd_at F pos0 r" "length F mod blockSize = 0"
      "length F < pos0 + 11" "\<forall>i. pos0 \<le> i \<and> i < length F \<longrightarrow> F ! i = 0"
    by (auto simp: ready_def headerSizes)
  from padded_block [OF p0(2,1,4,3)] obtain b where "length F = b * blockSize + blockSize" "rd_blockNum r = int b"
      "rd_n r = min blockSize (length F - b * blockSize)" "rd_fpos r = b * blockSize + rd_n r" by blast
  with p0 show ?thesis by (intro rd_at_exhausted [of F pos0]) (simp_all add: headerSizes)
qed

lemma nextChunk_torn:
  assumes "ready F pos r" and "drop pos F = take k (chunk_bytes (rd_logNum r) t q)" and "pos \<le> length F"
    and "k < recyclableHeaderSize + length q"
    and "pos mod blockSize + recyclableHeaderSize + length q \<le> blockSize" and "5 \<le> t" and "t \<le> 8"
  shows "\<exists>e r'. nextChunk r w = (Some e, r') \<and> log_end w e"
proof (cases "k = 0")
  case True
  with assms(2,3) have "pos = length F" by simp
  with assms(1) show ?thesis using exhausted_ends ready_exhausted by blast
next
  case False
  let ?L = "rd_logNum r"
  have lenF: "length F = pos + k"
    using arg_cong [OF assms(2), of length] assms(3,4) by simp
  with False obtain r1 where r1: "nextChunk r w = nextChunk r1 w" "settled F pos r1" "same_reader r r1"
    using ready_settles [OF assms(1), of w] by auto
  note s = settled_n [OF r1(2)]
  have n: "rd_n r1 = rd_end r1 + k"
    using s(1) [of k] s(1) [of "k + 1"] s(2) lenF assms(4,5) by simp
  have small: "rd_n r1 < blockSize" using n s(2) assms(4,5) by simp
  have inv: "log_end w ErrInvalidChunk" by (simp add: log_end_def IsInvalidRecord_def)
  have "\<exists>r'. chunk_body r1 w = Return (Some ErrInvalidChunk) r'"
  proof (cases "k < 7")
    case True
    with n small s(5) False show ?thesis by (simp add: chunk_body_def headerSizes)
  next
    case k7: False
    have t: "rd_buf r1 ! (rd_end r1 + 6) = t"
    proof -
      have "F ! (pos + 6) = drop pos F ! 6" using lenF k7 by simp
      also have "\<dots> = t" unfolding assms(2) using k7 by (simp add: chunk_bytes_def nth_append)
      finally show ?thesis using settled_byte [OF r1(2), of 6] k7 n s(2) by simp
    qed
    have t0: "t \<noteq> 0" using assms(6) by auto
    show ?thesis
    proof (cases "k < 11")
      case True
      with n t t0 k7 assms(6,7) show ?thesis by (simp add: chunk_body_def headerSizes Let_def)
    next
      case k11: False
      have "drop pos F = le_enc 4 (crc_Value (crc_New (t # le_enc 4 ?L @ q))) @ le_enc 2 (of_nat (length q) :: u16)
          @ [t] @ le_enc 4 ?L @ take (k - 11) q"
        using k11 by (simp add: assms(2) chunk_bytes_def take_Cons')
      from chunk_body_header [OF r1(2) _ this assms(6,7), of w] assms(5) r1(3)
      have "chunk_body r1 w = chunk_payload r1 w (crc_Value (crc_New (t # le_enc 4 ?L @ q)))
          (unat (of_nat (length q) :: u16)) (t - 4) recyclableHeaderSize"
        by (simp add: same_reader_def)
      moreover have "unat (of_nat (length q) :: u16) = length q"
        using assms(5) blockSize_facts by (simp add: unat_of_nat)
      ultimately show ?thesis using n assms(4) s(4) by (simp add: chunk_payload_def Let_def)
    qed
  qed
  then show ?thesis using r1(1) nextChunk_Return inv by fastforce
qed


lemma torn_padding:
  assumes "rd_at F pos r" and "rd_blockNum r \<noteq> -1" and "drop pos F = take j (padding off)"
    and "off = pos0 mod blockSize + k" and "pos = pos0 + k" and "off \<le> blockSize" and "j < length (padding off)"
  shows "exhausted F r"
proof (rule rd_at_exhausted [OF assms(1) disjI1 [OF assms(2)]])
  have pad: "padding off = replicate (blockSize - off) 0" "0 < blockSize - off" "blockSize - off < 11"
    using assms(7) by (auto simp: padding_def headerSizes split: if_splits)
  have posF: "pos \<le> length F" using assms(1) by (auto simp: rd_at_def)
  have d: "drop pos F = replicate j 0" using assms(3,7) pad(1) by (simp add: min_def)
  have "length F - pos = j" using arg_cong [OF d, of length] by simp
  with posF have len: "length F = pos + j" by simp
  show "length F < pos + recyclableHeaderSize" using len assms(7) pad by (simp add: headerSizes)
  show "\<forall>i. pos \<le> i \<and> i < length F \<longrightarrow> F ! i = 0"
  proof (intro allI impI)
    fix i assume i: "pos \<le> i \<and> i < length F"
    then have "F ! i = drop pos F ! (i - pos)" by simp
    also have "\<dots> = 0" unfolding d using i len by (simp add: less_diff_conv2)
    finally show "F ! i = 0" .
  qed
  obtain b where b: "pos = b * blockSize + rd_end r" "rd_end r \<le> rd_n r"
      "rd_fpos r = b * blockSize + rd_n r" "rd_n r = min blockSize (length F - b * blockSize)"
    using assms(1,2) unfolding rd_at_def by blast
  have below: "pos + (blockSize - off) = (pos0 div blockSize + 1) * blockSize"
    using assms(4-6) div_mult_mod_eq [of pos0 blockSize] unfolding add_mult_distrib mult_1 by linarith
  have "pos0 div blockSize * blockSize < (b + 1) * blockSize"
    using below b(1,2,4) pad(2,3) blockSize_facts(4) unfolding add_mult_distrib mult_1 by linarith
  then have "pos0 div blockSize < b + 1" by (rule mult_right_less_imp_less) simp
  then have "(pos0 div blockSize + 1) * blockSize \<le> (b + 1) * blockSize" by (intro mult_right_mono) simp_all
  moreover have "j < blockSize - off" using assms(7) pad(1) by simp
  ultimately have "length F \<le> b * blockSize + blockSize"
    using below len unfolding add_mult_distrib mult_1 by linarith
  with b posF show "length F \<le> rd_fpos r \<or> length F = pos" by linarith
qed

text \<open>A torn record is not delivered, unless only its padding is missing.\<close>

lemma record_torn:
  assumes "framed L pos first p out" and "drop pos F = take k out" and "pos \<le> length F" and "k < length out"
    and "ready F pos r" and "rd_logNum r = L" and "\<forall>a. 0 < space a"
  shows "(\<exists>e r1. nextChunk r first = (Some e, r1) \<and> log_end first e)
    \<or> (\<exists>r1 e r'. nextChunk r first = (None, r1) \<and> rd_seq r1 = rd_seq r
         \<and> io_Copy space (rd_seq r) (r1\<lparr>rd_err := None\<rparr>) acc = Some (Inl e, r') \<and> log_end False e)
    \<or> (\<exists>r1 r'. nextChunk r first = (None, r1) \<and> rd_seq r1 = rd_seq r
         \<and> io_Copy space (rd_seq r) (r1\<lparr>rd_err := None\<rparr>) acc = Some (Inr (acc @ p), r')
         \<and> exhausted F r' \<and> rd_err r' = None)"
  using assms
proof (induction arbitrary: r acc k rule: framed.induct)
  case (final pos p logNum first)
  let ?t = "if first then 5 else 8 :: byte" and ?off = "pos mod blockSize + recyclableHeaderSize + length p"
  have le: "?off \<le> blockSize"
    using final(1,2) headerSizes(2) unfolding room_def by linarith
  have t: "5 \<le> ?t" "?t \<le> 8" "first \<longrightarrow> ?t = 5 \<or> ?t = 6" by simp_all
  show ?case
  proof (cases "k < recyclableHeaderSize + length p")
    case True
    then have "drop pos F = take k (chunk_bytes (rd_logNum r) ?t p)" using final(3,7) by simp
    from nextChunk_torn [OF final(6) this final(4) True le t(1,2)] show ?thesis by blast
  next
    case False
    define j where "j = k - (recyclableHeaderSize + length p)"
    have d: "drop pos F = chunk_bytes (rd_logNum r) ?t p @ take j (padding ?off)"
      using final(3,7) False by (simp add: j_def)
    obtain r1 r2 where r1: "nextChunk r first = (None, r1)" "rd_seq r1 = rd_seq r"
        "io_Copy space (rd_seq r) (r1\<lparr>rd_err := None\<rparr>) acc = io_Copy space (rd_seq r) r2 (acc @ p)"
      and r2: "rd_at F (pos + recyclableHeaderSize + length p) r2" "rd_begin r2 = rd_end r2" "rd_last r2"
        "rd_seq r2 = rd_seq r" "rd_err r2 = None" "rd_blockNum r2 \<noteq> -1"
      using chunk_copied [OF final(6) d le t final(8), of acc] by (auto split: if_splits)
    have "exhausted F r2"
      using torn_padding [OF r2(1,6) drop_chunk [OF d], of pos "recyclableHeaderSize + length p"] le
        final(5) False by (simp add: j_def add.assoc)
    with r1 r2 io_Copy_last [OF r2(4,5,2,3), of space "acc @ p"] show ?thesis by simp
  qed
next
  case (more pos p logNum out first)
  let ?t = "if first then 6 else 7 :: byte" and ?q = "take (room pos) p"
  have lq: "length ?q = room pos" using more(2) by simp
  have le: "pos mod blockSize + recyclableHeaderSize + length ?q \<le> blockSize"
    using more(1,2) headerSizes(2) unfolding lq unfolding room_def by linarith
  have t: "5 \<le> ?t" "?t \<le> 8" "first \<longrightarrow> ?t = 5 \<or> ?t = 6" by simp_all
  show ?case
  proof (cases "k < recyclableHeaderSize + length ?q")
    case True
    then have "drop pos F = take k (chunk_bytes (rd_logNum r) ?t ?q)" using more(5,9) by simp
    from nextChunk_torn [OF more(8) this more(6) True le t(1,2)] show ?thesis by blast
  next
    case False
    define j where "j = k - (recyclableHeaderSize + length ?q)"
    have d: "drop pos F = chunk_bytes (rd_logNum r) ?t ?q @ take j out"
      using more(5,9) False by (simp add: j_def)
    obtain r1 r2 where r1: "nextChunk r first = (None, r1)" "rd_seq r1 = rd_seq r"
        "io_Copy space (rd_seq r) (r1\<lparr>rd_err := None\<rparr>) acc = io_Copy space (rd_seq r) r2 (acc @ ?q)"
      and r2: "rd_at F (pos + recyclableHeaderSize + length ?q) r2" "rd_begin r2 = rd_end r2" "\<not> rd_last r2"
        "rd_logNum r2 = logNum" "rd_seq r2 = rd_seq r" "rd_err r2 = None"
      using chunk_copied [OF more(8) d le t more(10), of acc] more(9) by (auto split: if_splits)
    have jl: "j < length out" using more(7) False by (simp add: j_def)
    have dr: "drop (pos + recyclableHeaderSize + room pos) F = take j out" using drop_chunk [OF d] unfolding lq .
    have pl: "pos + recyclableHeaderSize + room pos \<le> length F"
      using arg_cong [OF d, of length] more(6) lq by simp
    have rd: "ready F (pos + recyclableHeaderSize + room pos) r2" using rd_at_ready [OF r2(1)] unfolding lq .
    have "(\<exists>e r3. nextChunk r2 False = (Some e, r3) \<and> log_end False e)
      \<or> (\<exists>r3 e r'. nextChunk r2 False = (None, r3) \<and> rd_seq r3 = rd_seq r
           \<and> io_Copy space (rd_seq r) (r3\<lparr>rd_err := None\<rparr>) (acc @ ?q) = Some (Inl e, r') \<and> log_end False e)
      \<or> (\<exists>r3 r'. nextChunk r2 False = (None, r3) \<and> rd_seq r3 = rd_seq r
           \<and> io_Copy space (rd_seq r) (r3\<lparr>rd_err := None\<rparr>) (acc @ ?q) = Some (Inr (acc @ p), r')
           \<and> exhausted F r' \<and> rd_err r' = None)"
      using more.IH [OF dr pl jl rd r2(4) more(10), of "acc @ ?q"] r2(5) by simp
    then show ?thesis
    proof (elim disjE exE conjE)
      fix e r3
      assume e: "nextChunk r2 False = (Some e, r3)" "log_end False e"
      then have "e \<noteq> EOF" by (auto simp: log_end_def IsInvalidRecord_def)
      with io_Copy_next(2) [OF r2(5,6,2,3) e(1)] r1 e(2) show ?thesis by auto
    next
      fix r3 e r'
      assume e: "nextChunk r2 False = (None, r3)" "rd_seq r3 = rd_seq r" "log_end False e"
        "io_Copy space (rd_seq r) (r3\<lparr>rd_err := None\<rparr>) (acc @ ?q) = Some (Inl e, r')"
      with io_Copy_next(1) [OF r2(5,6,2,3) e(1,2)] r1 show ?thesis by auto
    next
      fix r3 r'
      assume e: "nextChunk r2 False = (None, r3)" "rd_seq r3 = rd_seq r" "exhausted F r'" "rd_err r' = None"
        "io_Copy space (rd_seq r) (r3\<lparr>rd_err := None\<rparr>) (acc @ ?q) = Some (Inr (acc @ p), r')"
      with io_Copy_next(1) [OF r2(5,6,2,3) e(1,2)] r1 show ?thesis by auto
    qed
  qed
qed

section \<open>Replaying a log\<close>

lemma replay_step:
  fixes r :: Reader
  defines "r0 \<equiv> r\<lparr>rd_seq := rd_seq r + 1, rd_begin := rd_end r\<rparr>"
  assumes "rd_err r = None"
  shows "nextChunk r0 True = (Some e, r1) \<Longrightarrow> replay_records space r recs = Some (recs, e)"
    and "nextChunk r0 True = (None, r1) \<Longrightarrow> rd_seq r1 = rd_seq r0 \<Longrightarrow>
      io_Copy space (rd_seq r0) (r1\<lparr>rd_err := None\<rparr>) [] = Some (Inl e, r') \<Longrightarrow>
      replay_records space r recs = Some (recs, e)"
    and "nextChunk r0 True = (None, r1) \<Longrightarrow> rd_seq r1 = rd_seq r0 \<Longrightarrow>
      io_Copy space (rd_seq r0) (r1\<lparr>rd_err := None\<rparr>) [] = Some (Inr p, r') \<Longrightarrow>
      replay_records space r recs = replay_records space r' (recs @ [p])"
  using assms by (simp_all add: replay_records.simps [of _ r] Reader_Next_def)

lemma ready_start:
  "ready F pos (r\<lparr>rd_seq := s, rd_begin := b\<rparr>) = ready F pos r"
  "exhausted F (r\<lparr>rd_seq := s, rd_begin := b\<rparr>) = exhausted F r"
  by (simp_all add: ready_def rd_at_def exhausted_def)

lemma ready_NewReader [simp]: "ready F 0 (NewReader F s logNum)" "rd_err (NewReader F s logNum) = None"
    "rd_logNum (NewReader F s logNum) = ucast logNum"
  by (simp_all add: ready_def rd_at_def NewReader_def)

text \<open>The records of complete chunks are all delivered.\<close>

lemma replay_all:
  assumes "framed_all L pos ps out" and "drop pos F = out @ rest" and "ready F pos r" and "rd_logNum r = L"
    and "rd_err r = None" and "\<forall>a. 0 < space a"
  shows "\<exists>r'. replay_records space r recs = replay_records space r' (recs @ ps)
    \<and> ready F (pos + length out) r' \<and> rd_logNum r' = L \<and> rd_err r' = None"
  using assms
proof (induction arbitrary: r recs rule: framed_all.induct)
  case (no_records logNum pos)
  then show ?case by auto
next
  case (more_records logNum pos p out ps rest')
  let ?r0 = "r\<lparr>rd_seq := rd_seq r + 1, rd_begin := rd_end r\<rparr>"
  have d: "drop pos F = out @ rest' @ rest" using more_records.prems(1) by simp
  from record_read [OF more_records.hyps(1) d _ _ more_records.prems(5), of ?r0 "[]"] more_records.prems
  obtain r1 r' where r': "nextChunk ?r0 True = (None, r1)" "rd_seq r1 = rd_seq ?r0"
      "io_Copy space (rd_seq ?r0) (r1\<lparr>rd_err := None\<rparr>) [] = Some (Inr p, r')"
      "ready F (pos + length out) r'" "rd_logNum r' = logNum" "rd_err r' = None"
    by (auto simp: ready_start)
  have "drop (pos + length out) F = rest' @ rest"
    using d by (metis add.commute append_eq_conv_conj drop_drop)
  from more_records.IH [OF this r'(4,5,6) more_records.prems(5), of "recs @ [p]"]
    replay_step(3) [OF more_records.prems(4) r'(1,2,3), of recs]
  show ?case by (simp add: add.assoc)
qed

inductive_cases framed_all_Cons: "framed_all L pos (p # ps) out"

lemma framed_unique: "framed L pos first p out \<Longrightarrow> framed L pos first p out' \<Longrightarrow> out' = out"
proof (induction arbitrary: out' rule: framed.induct)
  case (final pos p logNum first)
  from final(3) final(1,2) show ?case by cases simp_all
next
  case (more pos p logNum out first)
  from more(5) more(1,2) more.IH show ?case by cases auto
qed

text \<open>Of a torn log a prefix of the records is delivered, with every record that is complete.\<close>

lemma replay_torn:
  assumes "framed_all L pos ps out" and "drop pos F = take k out" and "pos \<le> length F" and "ready F pos r"
    and "rd_logNum r = L" and "rd_err r = None" and "\<forall>a. 0 < space a"
  shows "\<exists>j e. replay_records space r recs = Some (recs @ take j ps, e) \<and> log_end True e
    \<and> (\<forall>i o1. i \<le> length ps \<longrightarrow> framed_all L pos (take i ps) o1 \<longrightarrow> length o1 \<le> k \<longrightarrow> i \<le> j)"
  using assms
proof (induction arbitrary: r recs k rule: framed_all.induct)
  case (no_records logNum pos)
  let ?r0 = "r\<lparr>rd_seq := rd_seq r + 1, rd_begin := rd_end r\<rparr>"
  have "exhausted F ?r0" using no_records ready_exhausted [of F r] by (simp add: ready_start)
  from exhausted_ends [OF this, of True] obtain e r1 where "nextChunk ?r0 True = (Some e, r1)" "log_end True e" by blast
  with replay_step(1) [OF no_records(5)] show ?case by auto
next
  case (more_records logNum pos p out ps rest)
  let ?r0 = "r\<lparr>rd_seq := rd_seq r + 1, rd_begin := rd_end r\<rparr>"
  note err = more_records.prems(5) and sp = more_records.prems(6)
  have rd: "ready F pos ?r0" "rd_logNum ?r0 = logNum" using more_records.prems(3,4) by (simp_all add: ready_start)
  show ?case
  proof (cases "length out \<le> k")
    case True
    then have d: "drop pos F = out @ take (k - length out) rest" using more_records.prems(1) by simp
    from record_read [OF more_records.hyps(1) d rd sp, of "[]"]
    obtain r1 r' where r': "nextChunk ?r0 True = (None, r1)" "rd_seq r1 = rd_seq ?r0"
        "io_Copy space (rd_seq ?r0) (r1\<lparr>rd_err := None\<rparr>) [] = Some (Inr p, r')"
        "ready F (pos + length out) r'" "rd_logNum r' = logNum" "rd_err r' = None"
      by auto
    have dr: "drop (pos + length out) F = take (k - length out) rest"
      using d by (metis add.commute append_eq_conv_conj drop_drop)
    have "length F - pos = length out + length (take (k - length out) rest)" using arg_cong [OF d, of length] by simp
    then have pl: "pos + length out \<le> length F" using more_records.prems(2) by linarith
    from more_records.IH [OF dr pl r'(4,5,6) sp, of "recs @ [p]"]
    obtain j e where j: "replay_records space r' (recs @ [p]) = Some ((recs @ [p]) @ take j ps, e)" "log_end True e"
      "\<forall>i o1. i \<le> length ps \<longrightarrow> framed_all logNum (pos + length out) (take i ps) o1 \<longrightarrow> length o1 \<le> k - length out \<longrightarrow> i \<le> j"
      by blast
    have "i \<le> Suc j" if i: "i \<le> length (p # ps)" "framed_all logNum pos (take i (p # ps)) o1" "length o1 \<le> k" for i o1
    proof (cases i)
      case (Suc i')
      with i(2) obtain o2 o3 where "o1 = o2 @ o3" "framed logNum pos True p o2"
          "framed_all logNum (pos + length o2) (take i' ps) o3"
        by (auto elim: framed_all_Cons)
      moreover from this have "o2 = out" using framed_unique more_records.hyps(1) by blast
      ultimately show ?thesis using j(3) i(1,3) Suc by fastforce
    qed simp
    with j replay_step(3) [OF err r'(1,2,3), of recs] show ?thesis by (intro exI [of _ "Suc j"] exI [of _ e]) auto
  next
    case False
    then have d: "drop pos F = take k out" and k: "k < length out" using more_records.prems(1) by simp_all
    have dur: "i \<le> 0" if i: "framed_all logNum pos (take i (p # ps)) o1" "length o1 \<le> k" for i o1
    proof (cases i)
      case (Suc i')
      with i(1) obtain o2 o3 where "o1 = o2 @ o3" "framed logNum pos True p o2" by (auto elim: framed_all_Cons)
      moreover from this have "o2 = out" using framed_unique more_records.hyps(1) by blast
      ultimately show ?thesis using i(2) k by simp
    qed simp
    from record_torn [OF more_records.hyps(1) d more_records.prems(2) k rd sp, of "[]"]
    show ?thesis
    proof (elim disjE exE conjE)
      fix e r1 assume "nextChunk ?r0 True = (Some e, r1)" "log_end True e"
      with replay_step(1) [OF err] dur show ?thesis by (intro exI [of _ 0] exI [of _ e]) auto
    next
      fix r1 e r' assume "nextChunk ?r0 True = (None, r1)" "rd_seq r1 = rd_seq ?r0" "log_end False e"
        "io_Copy space (rd_seq ?r0) (r1\<lparr>rd_err := None\<rparr>) [] = Some (Inl e, r')"
      with replay_step(2) [OF err] dur show ?thesis
        by (intro exI [of _ 0] exI [of _ e]) (auto simp: log_end_def)
    next
      fix r1 r' assume r': "nextChunk ?r0 True = (None, r1)" "rd_seq r1 = rd_seq ?r0" "exhausted F r'" "rd_err r' = None"
        "io_Copy space (rd_seq ?r0) (r1\<lparr>rd_err := None\<rparr>) [] = Some (Inr ([] @ p), r')"
      let ?r0' = "r'\<lparr>rd_seq := rd_seq r' + 1, rd_begin := rd_end r'\<rparr>"
      have "exhausted F ?r0'" using r'(3) by (simp add: ready_start)
      from exhausted_ends [OF this, of True] obtain e r1' where e: "nextChunk ?r0' True = (Some e, r1')" "log_end True e"
        by blast
      have "replay_records space r recs = Some (recs @ [p], e)"
        using replay_step(3) [OF err r'(1,2), of space p r' recs] r'(5) replay_step(1) [OF r'(4) e(1)] by simp
      with e(2) dur show ?thesis by (intro exI [of _ "Suc 0"] exI [of _ e]) fastforce
    qed
  qed
qed

section \<open>What a log promises\<close>

lemma lw_exec_append: "lw_exec w (ops1 @ ops2) = Option.bind (lw_exec w ops1) (\<lambda>w. lw_exec w ops2)"
  by (induction w ops1 rule: lw_exec.induct) (auto split: Option.bind_splits sum.splits)

lemma log_records_append: "log_records (ops1 @ ops2) = log_records ops1 @ log_records ops2"
  by (induction ops1 rule: log_records.induct) auto

text \<open>
  C7. Round trip of the write-ahead log. For every interleaving of records (each below 2 GiB)
  with iterations of the flush loop, no write blocks forever or panics, closing succeeds, and
  reading the file with the same log number delivers exactly the records in order and then
  \<^verbatim>\<open>io.EOF\<close>; this holds whatever bytes \<open>old\<close> of a recycled file follow, for every buffer growth
  policy \<open>space\<close> of the copy.
\<close>

theorem wal_closed_roundtrip:
  assumes "\<forall>p \<in> set (log_records ops). length p < 2 ^ 31" and "\<forall>a. 0 < space a"
  shows "\<exists>w w'. lw_exec (NewLogWriter logNum) ops = Some w \<and> LogWriter_Close w = Some w'
    \<and> replay_records space (NewReader (lw_out w' @ old) seekable logNum) [] = Some (log_records ops, EOF)"
proof -
  from lw_exec_frames [of "NewLogWriter logNum" ops] assms(1) obtain w out where
    w: "lw_exec (NewLogWriter logNum) ops = Some w" "lw_inv w" "lw_logNum w = ucast logNum" "lw_stream w = out"
      "framed_all (ucast logNum) 0 (log_records ops) out" by auto
  from LogWriter_Close_file [OF w(2)] obtain w' where
    w': "LogWriter_Close w = Some w'" "lw_out w' = out @ eof_bytes (ucast logNum)" using w(3,4) by auto
  let ?F = "lw_out w' @ old" and ?r = "NewReader (lw_out w' @ old) seekable logNum"
  have d: "drop 0 ?F = out @ eof_bytes (ucast logNum) @ old" by (simp add: w'(2))
  from replay_all [OF w(5) d, of ?r space "[]"] assms(2) obtain r' where
    r': "replay_records space ?r [] = replay_records space r' (log_records ops)" "ready ?F (length out) r'"
      "rd_logNum r' = ucast logNum" "rd_err r' = None" by auto
  let ?r0 = "r'\<lparr>rd_seq := rd_seq r' + 1, rd_begin := rd_end r'\<rparr>"
  have "length out mod blockSize + recyclableHeaderSize \<le> blockSize"
    using w(2) lw_inv_pos [OF w(2)] by (simp add: lw_inv_def w(4))
  moreover have "drop (length out) ?F = eof_bytes (rd_logNum ?r0) @ old" using r'(3) by (simp add: w'(2))
  ultimately obtain r1 where "nextChunk ?r0 True = (Some EOF, r1)"
    using nextChunk_trailer [of ?F "length out" ?r0 old] r'(2) by (auto simp: ready_start)
  with replay_step(1) [OF r'(4)] r'(1) w(1) w'(1) show ?thesis by auto
qed

theorem wal_closed_roundtrip_witness:
  "\<exists>w w'. lw_exec (NewLogWriter 7) [LWrite [1, 2, 3], LFlush, LWrite []] = Some w \<and> LogWriter_Close w = Some w'
    \<and> replay_records (\<lambda>a. 512) (NewReader (lw_out w' @ [9, 9]) True 7) [] = Some ([[1, 2, 3], []], EOF)"
  using wal_closed_roundtrip [of "[LWrite [1, 2, 3], LFlush, LWrite []]" "\<lambda>a. 512" 7 "[9, 9]" True] by simp

text \<open>
  C8. A crash loses a suffix only. Let the file hold any prefix of what the writer has accepted
  (what the flush loop has written is such a prefix, wherever the crash cut it). Replaying it
  returns, delivers a prefix of the records in order, ends with \<^verbatim>\<open>io.EOF\<close> or an error that
  \<^verbatim>\<open>replayWAL\<close> treats the same way, and delivers every record written up to a point whose
  \<^verbatim>\<open>Size\<close> lies within the prefix; so a torn record is never delivered in part.
\<close>

theorem wal_crash_prefix:
  assumes "\<forall>p \<in> set (log_records ops). length p < 2 ^ 31" and "\<forall>a. 0 < space a"
    and "lw_exec (NewLogWriter logNum) ops = Some w"
  shows "\<exists>j e. replay_records space (NewReader (take k (lw_stream w)) seekable logNum) []
         = Some (take j (log_records ops), e)
    \<and> (e = EOF \<or> IsInvalidRecord e)
    \<and> (\<forall>ops1 ops2 w1. ops = ops1 @ ops2 \<and> lw_exec (NewLogWriter logNum) ops1 = Some w1 \<and> LogWriter_Size w1 \<le> k
         \<longrightarrow> length (log_records ops1) \<le> j)"
proof -
  let ?F = "take k (lw_stream w)"
  let ?r = "NewReader ?F seekable logNum"
  from lw_exec_frames [of "NewLogWriter logNum" ops] assms(1,3)
  have fr: "framed_all (ucast logNum) 0 (log_records ops) (lw_stream w)" by auto
  from replay_torn [OF fr, of ?F k ?r space "[]"] assms(2) obtain j e where
    j: "replay_records space ?r [] = Some (take j (log_records ops), e)" "log_end True e"
      "\<forall>i o1. i \<le> length (log_records ops) \<longrightarrow> framed_all (ucast logNum) 0 (take i (log_records ops)) o1
         \<longrightarrow> length o1 \<le> k \<longrightarrow> i \<le> j" by auto
  have "length (log_records ops1) \<le> j"
    if o: "ops = ops1 @ ops2" "lw_exec (NewLogWriter logNum) ops1 = Some w1" "LogWriter_Size w1 \<le> k" for ops1 ops2 w1
  proof -
    have "\<forall>p \<in> set (log_records ops1). length p < 2 ^ 31" using assms(1) o(1) by (simp add: log_records_append)
    with lw_exec_frames [of "NewLogWriter logNum" ops1] o(2)
    have "framed_all (ucast logNum) 0 (log_records ops1) (lw_stream w1)" "lw_inv w1" by auto
    moreover from this(2) have "length (lw_stream w1) \<le> k" using o(3) by (simp add: lw_inv_def LogWriter_Size_def)
    moreover have "take (length (log_records ops1)) (log_records ops) = log_records ops1"
        "length (log_records ops1) \<le> length (log_records ops)"
      by (simp_all add: o(1) log_records_append)
    ultimately show ?thesis using j(3) by simp
  qed
  with j(1,2) show ?thesis by (intro exI [of _ j] exI [of _ e]) (auto simp: log_end_def)
qed

theorem wal_crash_prefix_witness:
  "\<exists>w. lw_exec (NewLogWriter 7) [LWrite [1, 2, 3]] = Some w
    \<and> (\<exists>j e. replay_records (\<lambda>a. 512) (NewReader (take 13 (lw_stream w)) True 7) [] = Some (take j [[1, 2, 3]], e)
          \<and> (e = EOF \<or> IsInvalidRecord e))"
proof -
  obtain w where w: "lw_exec (NewLogWriter 7) [LWrite [1, 2, 3]] = Some w"
    using lw_exec_frames [of "NewLogWriter 7" "[LWrite [1, 2, 3]]"] by auto
  from wal_crash_prefix [OF _ _ w, of "\<lambda>a. 512" 13 True] w show ?thesis by auto
qed

end
