(* ===== verification/Batch.thy ===== *)
theory Batch
  imports Internal_Key
begin

text \<open>
  Write batches (\<^verbatim>\<open>batch.go\<close>, first half): the byte format of a batch, the operations that
  append records to it, the reader, and the header with sequence number and count. The model
  keeps the machine widths (\<^verbatim>\<open>uint32\<close> lengths, \<^verbatim>\<open>uint64\<close> counters), the capacity that
  decides whether a reset batch keeps its buffer, and the uninitialised memory that
  \<^verbatim>\<open>rawalloc.New\<close> returns (field \<open>b_junk\<close>). A panic is \<^term>\<open>None\<close>. A nil buffer is
  \<^term>\<open>[]\<close>: every non-nil buffer of a batch holds at least the twelve header bytes.
\<close>

abbreviation (input) batchCountOffset :: nat where "batchCountOffset \<equiv> 8"
abbreviation (input) batchHeaderLen :: nat where "batchHeaderLen \<equiv> 12"
abbreviation (input) batchInitialSize :: nat where "batchInitialSize \<equiv> 1024"
abbreviation (input) batchMaxRetainedSize :: nat where "batchMaxRetainedSize \<equiv> 1048576"

record Batch =
  b_data :: bytes
  b_cap :: nat
  b_count :: u64
  b_memTableSize :: u64
  b_offset :: u32
  b_applied :: bool
  b_hasDb :: bool
  b_junk :: bytes

datatype batch_error = ErrInvalidBatch

section \<open>Sizes\<close>

text \<open>\<^verbatim>\<open>unsafe.Sizeof(node{})\<close>: four \<^verbatim>\<open>uint32\<close> fields and a tower of 18 links of two.\<close>

definition maxHeight :: nat where "maxHeight = 18"
definition linksSize :: nat where "linksSize = 2 * 4"
definition maxNodeSize :: nat where "maxNodeSize = 4 * 4 + maxHeight * linksSize"

definition MaxNodeSize :: "u32 \<Rightarrow> u32 \<Rightarrow> u32" where
  "MaxNodeSize keySize valueSize = of_nat maxNodeSize + keySize + valueSize + 3"

definition memTableEntrySize :: "nat \<Rightarrow> nat \<Rightarrow> u64" where
  "memTableEntrySize keyBytes valueBytes = ucast (MaxNodeSize (of_nat keyBytes + 8) (of_nat valueBytes))"

section \<open>Varint lengths\<close>

function put_uvarint32 :: "u32 \<Rightarrow> bytes" where
  "put_uvarint32 x =
     (if 0x80 \<le> x then (ucast x OR 0x80) # put_uvarint32 (drop_bit 7 x) else [ucast x])"
  by pat_completeness auto
termination
  by (relation "measure unat")
     (auto simp: word_le_nat_alt drop_bit_eq_div unat_div)

declare put_uvarint32.simps [simp del]

text \<open>\<^verbatim>\<open>binary.Uvarint\<close> on a buffer: the value and the number of bytes, not positive for an error.\<close>

fun Uvarint :: "bytes \<Rightarrow> nat \<Rightarrow> u64 \<Rightarrow> u64 \<times> int" where
  "Uvarint [] i x = (0, 0)"
| "Uvarint (b # bs) i x =
     (if i = 10 then (0, - (int i + 1))
      else if b < 0x80 then
        (if i = 9 \<and> b > 1 then (0, - (int i + 1)) else (x OR push_bit (7 * i) (ucast b), int i + 1))
      else Uvarint bs (i + 1) (x OR push_bit (7 * i) (ucast (b AND 0x7f))))"

text \<open>
  \<^verbatim>\<open>batchDecodeStr\<close> reads the length through an unsafe pointer, so a truncated length is read
  from the memory after the slice (argument \<open>oob\<close>); the slice expression that follows then
  panics. The result is \<open>(odata, s, ok)\<close>.
\<close>

definition peek :: "(nat \<Rightarrow> byte) \<Rightarrow> bytes \<Rightarrow> nat \<Rightarrow> byte" where
  "peek oob bs i = (if i < length bs then bs ! i else oob (i - length bs))"

definition batchDecodeLen :: "(nat \<Rightarrow> byte) \<Rightarrow> bytes \<Rightarrow> u32 \<times> nat" where
  "batchDecodeLen oob bs =
     (let a = peek oob bs 0 in
      if a < 128 then (ucast a, 1)
      else let a = a AND 0x7f; b = peek oob bs 1 in
      if b < 128 then (push_bit 7 (ucast b) OR ucast a, 2)
      else let b = b AND 0x7f; c = peek oob bs 2 in
      if c < 128 then (push_bit 14 (ucast c) OR push_bit 7 (ucast b) OR ucast a, 3)
      else let c = c AND 0x7f; d = peek oob bs 3 in
      if d < 128 then
        (push_bit 21 (ucast d) OR push_bit 14 (ucast c) OR push_bit 7 (ucast b) OR ucast a, 4)
      else let d = d AND 0x7f; e = peek oob bs 4 in
        (push_bit 28 (ucast e) OR push_bit 21 (ucast d) OR push_bit 14 (ucast c)
           OR push_bit 7 (ucast b) OR ucast a, 5))"

definition batchDecodeStr_mem :: "(nat \<Rightarrow> byte) \<Rightarrow> bytes \<Rightarrow> (bytes \<times> bytes \<times> bool) option" where
  "batchDecodeStr_mem oob bs =
     (if bs = [] then None
      else
        (case batchDecodeLen oob bs of (v, n) \<Rightarrow>
           if length bs < n then None
           else
             (let bs = drop n bs in
              if v > of_nat (length bs) then Some ([], [], False)
              else Some (drop (unat v) bs, take (unat v) bs, True))))"

definition batchDecodeStr :: "bytes \<Rightarrow> (bytes \<times> bytes \<times> bool) option" where
  "batchDecodeStr = batchDecodeStr_mem (\<lambda>_. 0)"

section \<open>The reader\<close>

type_synonym batch_entry = "InternalKeyKind \<times> bytes \<times> bytes"

definition ReadBatch :: "bytes \<Rightarrow> bytes \<times> u32" where
  "ReadBatch repr =
     (if length repr \<le> batchHeaderLen then ([], 0)
      else (drop batchHeaderLen repr, le_dec (take 4 (drop batchCountOffset repr))))"

text \<open>\<^verbatim>\<open>BatchReader.Next\<close>: the remaining bytes and the entry; \<open>None\<close> for \<^verbatim>\<open>ok == false\<close>.\<close>

definition BatchReader_Next :: "bytes \<Rightarrow> (bytes \<times> batch_entry option) option" where
  "BatchReader_Next r =
     (case r of
        [] \<Rightarrow> Some (r, None)
      | kind # rest \<Rightarrow>
          if kind > InternalKeyKindMax then Some (r, None)
          else
            do {
              (r1, ukey, ok) \<leftarrow> batchDecodeStr rest;
              if \<not> ok then Some (r1, None)
              else if kind = InternalKeyKindSet then
                do {
                  (r2, value, ok2) \<leftarrow> batchDecodeStr r1;
                  if \<not> ok2 then Some (r2, None) else Some (r2, Some (kind, ukey, value))
                }
              else Some (r1, Some (kind, ukey, []))
            })"

lemma batchDecodeLen_pos: "0 < snd (batchDecodeLen oob bs)"
  by (simp add: batchDecodeLen_def Let_def)

lemma batchDecodeStr_shorter:
  "batchDecodeStr_mem oob bs = Some (r, s, ok) \<Longrightarrow> length r < length bs"
  using batchDecodeLen_pos [of oob bs]
  by (auto simp: batchDecodeStr_mem_def Let_def split: if_splits prod.splits)

lemma BatchReader_Next_shorter:
  "BatchReader_Next r = Some (r', Some e) \<Longrightarrow> length r' < length r"
  by (auto simp: BatchReader_Next_def batchDecodeStr_def
      split: list.splits if_splits Option.bind_splits dest!: batchDecodeStr_shorter)

text \<open>The loop \<^verbatim>\<open>for { kind, key, value, ok := r.Next(); if !ok { break } ... }\<close> of every
  consumer of a batch: the entries it sees, in order.\<close>

function batch_entries :: "bytes \<Rightarrow> batch_entry list option" where
  "batch_entries r =
     (case BatchReader_Next r of
        None \<Rightarrow> None
      | Some (r', None) \<Rightarrow> Some []
      | Some (r', Some e) \<Rightarrow> map_option ((#) e) (batch_entries r'))"
  by pat_completeness auto
termination
  by (relation "measure length") (auto dest: BatchReader_Next_shorter)

declare batch_entries.simps [simp del]

section \<open>The operations\<close>

function init_cap :: "nat \<Rightarrow> nat \<Rightarrow> nat" where
  "init_cap n cap = (if 0 < n \<and> n < cap then init_cap (2 * n) cap else n)"
  by pat_completeness auto
termination
  by (relation "measure (\<lambda>(n, cap). cap - n)") auto

declare init_cap.simps [simp del]

definition batch_setSeqNum :: "Batch \<Rightarrow> u64 \<Rightarrow> Batch option" where
  "batch_setSeqNum b seqNum =
     map_option (\<lambda>d. b\<lparr>b_data := d\<rparr>) (go_put (b_data b) 0 (le_enc 8 seqNum))"

definition batch_setCount :: "Batch \<Rightarrow> u32 \<Rightarrow> Batch" where
  "batch_setCount b v = b\<lparr>b_count := ucast v\<rparr>"

definition batch_init :: "Batch \<Rightarrow> nat \<Rightarrow> Batch option" where
  "batch_init b cap =
     batch_setSeqNum
       (batch_setCount
         (b\<lparr>b_data := take batchHeaderLen (b_junk b @ replicate batchHeaderLen 0),
            b_cap := init_cap batchInitialSize cap\<rparr>) 0) 0"

function grow_cap :: "nat \<Rightarrow> nat \<Rightarrow> nat" where
  "grow_cap newCap newSize =
     (if 0 < newCap \<and> newCap < newSize then grow_cap (2 * newCap) newSize else newCap)"
  by pat_completeness auto
termination
  by (relation "measure (\<lambda>(c, s). s - c)") auto

declare grow_cap.simps [simp del]

text \<open>\<^verbatim>\<open>b.data[:n]\<close> is checked against the capacity, and may lengthen the slice by what the memory behind it holds
  (\<open>b_junk\<close>). \<^verbatim>\<open>b.data[pos] = x\<close> is checked against the length.\<close>

definition batch_reslice :: "Batch \<Rightarrow> nat \<Rightarrow> Batch option" where
  "batch_reslice b n =
     (if n \<le> b_cap b then Some (b\<lparr>b_data := take n (b_data b @ b_junk b @ replicate n 0)\<rparr>) else None)"

definition batch_put :: "Batch \<Rightarrow> nat \<Rightarrow> byte \<Rightarrow> Batch option" where
  "batch_put b pos x = map_option (\<lambda>d. b\<lparr>b_data := d\<rparr>) (go_put (b_data b) pos [x])"

text \<open>Doubling a capacity of zero would never end.\<close>

definition batch_grow :: "Batch \<Rightarrow> nat \<Rightarrow> Batch option" where
  "batch_grow b n =
     (let newSize = length (b_data b) + n in
      if newSize > b_cap b then
        (if b_cap b = 0 then None else batch_reslice (b\<lparr>b_cap := grow_cap (2 * b_cap b) newSize\<rparr>) newSize)
      else batch_reslice b newSize)"

text \<open>The loop that writes a length: the batch and the position behind it.\<close>

function put_len :: "Batch \<Rightarrow> nat \<Rightarrow> u32 \<Rightarrow> (Batch \<times> nat) option" where
  "put_len b pos x =
     (if 0x80 \<le> x then
        (case batch_put b pos (ucast x OR 0x80) of None \<Rightarrow> None | Some b \<Rightarrow> put_len b (pos + 1) (drop_bit 7 x))
      else map_option (\<lambda>b. (b, pos + 1)) (batch_put b pos (ucast x)))"
  by pat_completeness auto
termination
  by (relation "measure (\<lambda>(b, pos, x). unat x)")
     (auto simp: word_le_nat_alt drop_bit_eq_div unat_div)

declare put_len.simps [simp del]

text \<open>The slices \<^verbatim>\<open>Key\<close> and \<^verbatim>\<open>Value\<close> of a deferred operation lie in the buffer: their place and length. Slicing is checked against
  the capacity. The field \<^verbatim>\<open>offset\<close> is kept in the batch.\<close>

record DeferredBatchOp =
  d_Key :: "nat \<times> nat"
  d_Value :: "nat \<times> nat"

definition batch_slice :: "Batch \<Rightarrow> nat \<Rightarrow> nat \<Rightarrow> (nat \<times> nat) option" where
  "batch_slice b pos n = (if pos + n \<le> b_cap b then Some (pos, n) else None)"

definition prepareDeferredKeyValueRecord ::
  "Batch \<Rightarrow> nat \<Rightarrow> nat \<Rightarrow> InternalKeyKind \<Rightarrow> (Batch \<times> DeferredBatchOp) option" where
  "prepareDeferredKeyValueRecord b keyLen valueLen kind =
     do {
       b \<leftarrow> (if length (b_data b) = 0
             then batch_init b (keyLen + valueLen + 2 * 10 + batchHeaderLen) else Some b);
       let b = b\<lparr>b_count := b_count b + 1,
                 b_memTableSize := b_memTableSize b + memTableEntrySize keyLen valueLen\<rparr>;
       let pos = length (b_data b);
       let b = b\<lparr>b_offset := of_nat pos\<rparr>;
       b \<leftarrow> batch_grow b (1 + 2 * 5 + keyLen + valueLen);
       b \<leftarrow> batch_put b pos kind;
       (b, pos) \<leftarrow> put_len b (pos + 1) (of_nat keyLen);
       key \<leftarrow> batch_slice b pos keyLen;
       (b, pos) \<leftarrow> put_len b (pos + keyLen) (of_nat valueLen);
       val \<leftarrow> batch_slice b pos valueLen;
       b \<leftarrow> batch_reslice b (pos + valueLen);
       Some (b, \<lparr>d_Key = key, d_Value = val\<rparr>)
     }"

definition prepareDeferredKeyRecord :: "Batch \<Rightarrow> nat \<Rightarrow> InternalKeyKind \<Rightarrow> (Batch \<times> DeferredBatchOp) option" where
  "prepareDeferredKeyRecord b keyLen kind =
     do {
       b \<leftarrow> (if length (b_data b) = 0
             then batch_init b (keyLen + 10 + batchHeaderLen) else Some b);
       let b = b\<lparr>b_count := b_count b + 1,
                 b_memTableSize := b_memTableSize b + memTableEntrySize keyLen 0\<rparr>;
       let pos = length (b_data b);
       let b = b\<lparr>b_offset := of_nat pos\<rparr>;
       b \<leftarrow> batch_grow b (1 + 5 + keyLen);
       b \<leftarrow> batch_put b pos kind;
       (b, pos) \<leftarrow> put_len b (pos + 1) (of_nat keyLen);
       key \<leftarrow> batch_slice b pos keyLen;
       b \<leftarrow> batch_reslice b (pos + keyLen);
       Some (b, \<lparr>d_Key = key, d_Value = (0, 0)\<rparr>)
     }"

text \<open>\<^verbatim>\<open>copy\<close> into a slice of the buffer.\<close>

definition batch_copy :: "Batch \<Rightarrow> nat \<times> nat \<Rightarrow> bytes \<Rightarrow> Batch option" where
  "batch_copy b sl src = map_option (\<lambda>d. b\<lparr>b_data := d\<rparr>) (go_put (b_data b) (fst sl) (take (snd sl) src))"

definition batch_SetDeferred :: "Batch \<Rightarrow> nat \<Rightarrow> nat \<Rightarrow> (Batch \<times> DeferredBatchOp) option" where
  "batch_SetDeferred b keyLen valueLen = prepareDeferredKeyValueRecord b keyLen valueLen InternalKeyKindSet"

definition batch_Set :: "Batch \<Rightarrow> bytes \<Rightarrow> bytes \<Rightarrow> Batch option" where
  "batch_Set b key value =
     do { (b, d) \<leftarrow> batch_SetDeferred b (length key) (length value); b \<leftarrow> batch_copy b (d_Key d) key; batch_copy b (d_Value d) value }"

definition batch_PrefixDeleteKeySet :: "Batch \<Rightarrow> bytes \<Rightarrow> Batch option" where
  "batch_PrefixDeleteKeySet b key =
     do { (b, d) \<leftarrow> prepareDeferredKeyRecord b (length key) InternalKeyKindPrefixDelete; batch_copy b (d_Key d) key }"

definition batch_DeleteDeferred :: "Batch \<Rightarrow> nat \<Rightarrow> (Batch \<times> DeferredBatchOp) option" where
  "batch_DeleteDeferred b keyLen = prepareDeferredKeyRecord b keyLen InternalKeyKindDelete"

definition batch_Delete :: "Batch \<Rightarrow> bytes \<Rightarrow> Batch option" where
  "batch_Delete b key = do { (b, d) \<leftarrow> batch_DeleteDeferred b (length key); batch_copy b (d_Key d) key }"

definition batch_LogData :: "Batch \<Rightarrow> bytes \<Rightarrow> Batch option" where
  "batch_LogData b bs =
     do {
       (b', d) \<leftarrow> prepareDeferredKeyRecord b (length bs) InternalKeyKindLogData;
       b' \<leftarrow> batch_copy b' (d_Key d) bs;
       Some (b'\<lparr>b_count := b_count b, b_memTableSize := b_memTableSize b\<rparr>)
     }"

definition batch_Empty :: "Batch \<Rightarrow> bool" where
  "batch_Empty b \<longleftrightarrow> length (b_data b) \<le> batchHeaderLen"

definition batch_Count :: "Batch \<Rightarrow> u32" where
  "batch_Count b = ucast (b_count b)"

definition batch_Repr :: "Batch \<Rightarrow> (Batch \<times> bytes) option" where
  "batch_Repr b =
     do {
       b \<leftarrow> (if length (b_data b) = 0 then batch_init b batchHeaderLen else Some b);
       d \<leftarrow> go_put (b_data b) batchCountOffset (le_enc 4 (batch_Count b));
       Some (b\<lparr>b_data := d\<rparr>, d)
     }"

definition batch_SeqNum :: "Batch \<Rightarrow> (Batch \<times> u64) option" where
  "batch_SeqNum b =
     do {
       b \<leftarrow> (if length (b_data b) = 0 then batch_init b batchHeaderLen else Some b);
       d \<leftarrow> go_slice (b_data b) 0 8;
       Some (b, le_dec d)
     }"

definition batch_Reader :: "Batch \<Rightarrow> (Batch \<times> bytes) option" where
  "batch_Reader b =
     do {
       b \<leftarrow> (if length (b_data b) = 0 then batch_init b batchHeaderLen else Some b);
       r \<leftarrow> go_slice (b_data b) batchHeaderLen (length (b_data b));
       Some (b, r)
     }"

definition entries_memSize :: "batch_entry list \<Rightarrow> u64" where
  "entries_memSize es = (\<Sum>(kind, key, value)\<leftarrow>es. memTableEntrySize (length key) (length value))"

definition refreshMemTableSize :: "Batch \<Rightarrow> Batch option" where
  "refreshMemTableSize b =
     (if length (b_data b) < batchHeaderLen then Some (b\<lparr>b_memTableSize := 0\<rparr>)
      else
        do {
          (b, r) \<leftarrow> batch_Reader (b\<lparr>b_memTableSize := 0\<rparr>);
          es \<leftarrow> batch_entries r;
          Some (b\<lparr>b_memTableSize := 0 + entries_memSize es\<rparr>)
        })"

definition batch_SetRepr :: "Batch \<Rightarrow> bytes \<Rightarrow> (batch_error + Batch) option" where
  "batch_SetRepr b repr =
     (if length repr < batchHeaderLen then Some (Inl ErrInvalidBatch)
      else
        do {
          c \<leftarrow> go_slice repr 8 12;
          let b = b\<lparr>b_data := repr, b_cap := length repr, b_count := ucast (le_dec c :: u32)\<rparr>;
          (if b_hasDb b then map_option Inr (refreshMemTableSize b) else Some (Inr b))
        })"

text \<open>\<^verbatim>\<open>Reset\<close> keeps a buffer of at most one megabyte.\<close>

definition batch_Reset :: "Batch \<Rightarrow> Batch option" where
  "batch_Reset b =
     (let b = b\<lparr>b_count := 0, b_memTableSize := 0, b_offset := 0, b_applied := False\<rparr> in
      if b_data b = [] then Some b
      else if b_cap b > batchMaxRetainedSize then Some (b\<lparr>b_data := [], b_cap := 0\<rparr>)
      else
        do {
          d \<leftarrow> go_slice (b_data b) 0 batchHeaderLen;
          batch_setSeqNum (b\<lparr>b_data := d\<rparr>) 0
        })"

text \<open>The bytes of a record.\<close>

definition kv_record :: "InternalKeyKind \<Rightarrow> bytes \<Rightarrow> bytes \<Rightarrow> bytes" where
  "kv_record kind key value =
     kind # put_uvarint32 (of_nat (length key)) @ key @ put_uvarint32 (of_nat (length value)) @ value"

definition key_record :: "InternalKeyKind \<Rightarrow> bytes \<Rightarrow> bytes" where
  "key_record kind key = kind # put_uvarint32 (of_nat (length key)) @ key"

section \<open>The length codec\<close>

lemma mask7: "(0x7f :: byte) = mask 7" "(0x7f :: u32) = mask 7" 
  by (simp_all add: mask_eq_exp_minus_1)

lemma cont_bit: "bit (0x80 :: int) n \<longleftrightarrow> n = 7"
proof -
  have "(0x80 :: int) = 2 ^ 7" by simp
  then show ?thesis by (simp only: bit_exp_iff) auto
qed

lemma cont_ge: "\<not> ((ucast x OR 0x80 :: byte) < 128)" for x :: u32
proof -
  have "(0x80 :: byte) \<le> ucast x OR 0x80"
    by (metis or.commute le_word_or2)
  then show ?thesis by simp
qed

lemma cont_low: "ucast ((ucast x OR 0x80 :: byte) AND 0x7f) = (x AND 0x7f :: u32)" for x :: u32
  unfolding mask7 by (rule bit_word_eqI) (auto simp: bit_simps cont_bit)

lemma last_byte:
  fixes x :: u32 assumes "x < 128"
  shows "(ucast x :: byte) < 128" "ucast (ucast x :: byte) = x"
proof -
  have "unat (ucast x :: byte) = unat x"
    using assms by (simp add: unsigned_ucast_eq unsigned_take_bit_eq take_bit_eq_mod word_less_nat_alt unat_mod)
  then show "(ucast x :: byte) < 128" "ucast (ucast x :: byte) = x"
    using assms by (simp_all add: word_less_nat_alt word_unat_eq_iff unsigned_ucast_eq take_bit_eq_mod unat_mod)
qed

lemma split7: "x = push_bit 7 (drop_bit 7 x) OR (x AND 0x7f)" for x :: u32
  unfolding mask7 by (rule bit_word_eqI) (auto simp: bit_simps)

lemma shift_small: "\<not> 128 \<le> (drop_bit 28 x :: u32)"
  by (simp add: word_le_nat_alt drop_bit_eq_div unat_div not_le)
     (use unsigned_less [of x, where 'a = nat] in \<open>simp add: div_less_iff_less_mult\<close>)
lemma put_uvarint32_last: "\<not> 128 \<le> x \<Longrightarrow> put_uvarint32 x = [ucast x]"
  by (simp add: put_uvarint32.simps)

lemma put_uvarint32_more:
  "128 \<le> x \<Longrightarrow> put_uvarint32 x = (ucast x OR 0x80) # put_uvarint32 (drop_bit 7 x)"
  by (subst put_uvarint32.simps) simp

lemma batchDecodeLen_uvarint:
  "batchDecodeLen oob (put_uvarint32 x @ rest) = (x, length (put_uvarint32 x))"
proof -
  let ?d = "\<lambda>n. drop_bit n x"
  note [simp] = put_uvarint32_last put_uvarint32_more
  have d: "drop_bit 7 (?d 7) = ?d 14" "drop_bit 7 (?d 14) = ?d 21" "drop_bit 7 (?d 21) = ?d 28"
    by (simp_all add: drop_bit_drop_bit)
  consider "\<not> 128 \<le> x" | "128 \<le> x" "\<not> 128 \<le> ?d 7" | "128 \<le> x" "128 \<le> ?d 7" "\<not> 128 \<le> ?d 14"
    | "128 \<le> x" "128 \<le> ?d 7" "128 \<le> ?d 14" "\<not> 128 \<le> ?d 21"
    | "128 \<le> x" "128 \<le> ?d 7" "128 \<le> ?d 14" "128 \<le> ?d 21" "\<not> 128 \<le> ?d 28"
    using shift_small by blast
  then show ?thesis
  proof cases
    case 1
    then show ?thesis by (simp add: batchDecodeLen_def peek_def last_byte not_le)
  next
    case 2
    have "x = push_bit 7 (?d 7) OR (x AND 0x7f)" by (rule split7)
    with 2 show ?thesis
      by (simp add: batchDecodeLen_def peek_def last_byte cont_ge cont_low not_le Let_def nth_append del: drop_bit_drop_bit)
  next
    case 3
    have "x = push_bit 14 (?d 14) OR push_bit 7 (?d 7 AND 0x7f) OR (x AND 0x7f)"
      by (subst split7, subst split7 [of "?d 7"]) (simp add: push_bit_or or.assoc d del: push_bit_and)
    with 3 show ?thesis
      by (simp add: batchDecodeLen_def peek_def last_byte cont_ge cont_low not_le Let_def nth_append d)
  next
    case 4
    have "x = push_bit 21 (?d 21) OR push_bit 14 (?d 14 AND 0x7f) OR push_bit 7 (?d 7 AND 0x7f) OR (x AND 0x7f)"
      by (subst split7, subst split7 [of "?d 7"], subst split7 [of "?d 14", folded d])
        (simp add: push_bit_or or.assoc d)
    with 4 show ?thesis
      by (simp add: batchDecodeLen_def peek_def last_byte cont_ge cont_low not_le Let_def nth_append d)
  next
    case 5
    have "x = push_bit 28 (?d 28) OR push_bit 21 (?d 21 AND 0x7f) OR push_bit 14 (?d 14 AND 0x7f)
       OR push_bit 7 (?d 7 AND 0x7f) OR (x AND 0x7f)"
      by (subst split7, subst split7 [of "?d 7"], subst split7 [of "?d 14", folded d],
          subst split7 [of "?d 21", folded d])
        (simp add: push_bit_or or.assoc d)
    with 5 show ?thesis
      by (simp add: batchDecodeLen_def peek_def last_byte cont_ge cont_low not_le Let_def nth_append d)
  qed
qed
text \<open>The memory after the slice never influences the result.\<close>

lemma batchDecodeLen_oob:
  "snd (batchDecodeLen oob bs) \<le> length bs \<Longrightarrow> batchDecodeLen oob' bs = batchDecodeLen oob bs"
proof -
  assume *: "snd (batchDecodeLen oob bs) \<le> length bs"
  have in_range: "peek oob' bs i = peek oob bs i" if "i < length bs" for i
    using that by (simp add: peek_def)
  have "bs \<noteq> []" using * batchDecodeLen_pos [of oob bs] by auto
  then have in_range0: "peek oob' bs 0 = peek oob bs 0" by (simp add: in_range)
  consider "peek oob bs 0 < 128" | "\<not> peek oob bs 0 < 128" "peek oob bs 1 < 128"
    | "\<not> peek oob bs 0 < 128" "\<not> peek oob bs 1 < 128" "peek oob bs 2 < 128"
    | "\<not> peek oob bs 0 < 128" "\<not> peek oob bs 1 < 128" "\<not> peek oob bs 2 < 128" "peek oob bs 3 < 128"
    | "\<not> peek oob bs 0 < 128" "\<not> peek oob bs 1 < 128" "\<not> peek oob bs 2 < 128" "\<not> peek oob bs 3 < 128"
    by blast
  then show ?thesis
    by cases (use * in \<open>simp_all add: batchDecodeLen_def in_range in_range0 Let_def\<close>)
qed

lemma batchDecodeStr_oob: "batchDecodeStr_mem oob bs = batchDecodeStr bs"
proof (cases "snd (batchDecodeLen oob bs) \<le> length bs")
  case True
  then have "batchDecodeLen (\<lambda>_. 0) bs = batchDecodeLen oob bs" by (rule batchDecodeLen_oob)
  then show ?thesis by (simp add: batchDecodeStr_def batchDecodeStr_mem_def)
next
  case False
  then have "length bs < snd (batchDecodeLen (\<lambda>_. 0) bs)"
    using batchDecodeLen_oob [of "\<lambda>_. 0" bs oob] by (metis linorder_not_less)
  with False show ?thesis
    by (cases "batchDecodeLen oob bs"; cases "batchDecodeLen (\<lambda>_. 0) bs")
      (simp add: batchDecodeStr_def batchDecodeStr_mem_def)
qed

lemma put_uvarint32_nonempty [simp]: "put_uvarint32 x \<noteq> []"
  by (subst put_uvarint32.simps) simp

lemma batchDecodeStr_uvarint:
  assumes "length s + length rest < 2 ^ 32"
  shows "batchDecodeStr (put_uvarint32 (of_nat (length s)) @ s @ rest) = Some (rest, s, True)"
proof -
  have n: "unat (of_nat (length s) :: u32) = length s"
    "unat (of_nat (length s + length rest) :: u32) = length s + length rest"
    using assms by (simp_all add: unat_of_nat del: of_nat_add)
  then have "\<not> (of_nat (length s) :: u32) > of_nat (length s + length rest)"
    by (simp add: word_less_nat_alt del: of_nat_add)
  with n show ?thesis
    by (simp add: batchDecodeStr_def batchDecodeStr_mem_def batchDecodeLen_uvarint Let_def
        del: of_nat_add)
qed

section \<open>Records and their reader\<close>

definition entry_bytes :: "batch_entry \<Rightarrow> bytes" where
  "entry_bytes e =
     (case e of (kind, key, value) \<Rightarrow>
        if kind = InternalKeyKindSet then kv_record kind key value else key_record kind key)"

definition entry_valid :: "batch_entry \<Rightarrow> bool" where
  "entry_valid e \<longleftrightarrow>
     (case e of (kind, key, value) \<Rightarrow>
        kind \<le> InternalKeyKindMax \<and> (kind \<noteq> InternalKeyKindSet \<longrightarrow> value = []))"

lemma BatchReader_Next_entry:
  assumes "entry_valid e" and "length (entry_bytes e @ rest) < 2 ^ 32"
  shows "BatchReader_Next (entry_bytes e @ rest) = Some (rest, Some e)"
proof -
  obtain kind key val where e: "e = (kind, key, val)" by (cases e) auto
  show ?thesis
  proof (cases "kind = InternalKeyKindSet")
    case True
    have "length key + length (put_uvarint32 (of_nat (length val)) @ val @ rest) < 2 ^ 32"
      and "length val + length rest < 2 ^ 32"
      using assms(2) True by (auto simp: e entry_bytes_def kv_record_def)
    then show ?thesis using True
      by (simp add: e entry_bytes_def kv_record_def BatchReader_Next_def batchDecodeStr_uvarint)
  next
    case False
    have "length key + length rest < 2 ^ 32"
      using assms(2) False by (auto simp: e entry_bytes_def key_record_def)
    then show ?thesis using False assms(1)
      by (simp add: e entry_bytes_def entry_valid_def key_record_def BatchReader_Next_def
          batchDecodeStr_uvarint not_less)
  qed
qed

interpretation batch_stream: record_stream entry_bytes BatchReader_Next batch_entries entry_valid
  "\<lambda>bs. length bs < 2 ^ 32"
proof unfold_locales
  show "batch_entries r =
      (case BatchReader_Next r of
         None \<Rightarrow> None
       | Some (r', None) \<Rightarrow> Some []
       | Some (r', Some e) \<Rightarrow> map_option ((#) e) (batch_entries r'))" for r
    by (rule batch_entries.simps)
  show "BatchReader_Next (entry_bytes x @ rest) = Some (rest, Some x)"
    if "entry_valid x" "length (entry_bytes x @ rest) < 2 ^ 32" for x rest
    using that by (rule BatchReader_Next_entry)
qed (auto simp: BatchReader_Next_def)

section \<open>Histories of operations\<close>

datatype batch_op = OpSet bytes bytes | OpDelete bytes | OpPrefixDelete bytes | OpLogData bytes

primrec run_op :: "Batch \<Rightarrow> batch_op \<Rightarrow> Batch option" where
  "run_op b (OpSet key val) = batch_Set b key val"
| "run_op b (OpDelete key) = batch_Delete b key"
| "run_op b (OpPrefixDelete key) = batch_PrefixDeleteKeySet b key"
| "run_op b (OpLogData d) = batch_LogData b d"

fun run_ops :: "Batch \<Rightarrow> batch_op list \<Rightarrow> Batch option" where
  "run_ops b [] = Some b"
| "run_ops b (x # xs) = do { b \<leftarrow> run_op b x; run_ops b xs }"

primrec op_entry :: "batch_op \<Rightarrow> batch_entry" where
  "op_entry (OpSet key val) = (InternalKeyKindSet, key, val)"
| "op_entry (OpDelete key) = (InternalKeyKindDelete, key, [])"
| "op_entry (OpPrefixDelete key) = (InternalKeyKindPrefixDelete, key, [])"
| "op_entry (OpLogData d) = (InternalKeyKindLogData, d, [])"

primrec is_LogData :: "batch_op \<Rightarrow> bool" where
  "is_LogData (OpSet key val) = False"
| "is_LogData (OpDelete key) = False"
| "is_LogData (OpPrefixDelete key) = False"
| "is_LogData (OpLogData d) = True"

definition ops_bytes :: "batch_op list \<Rightarrow> bytes" where
  "ops_bytes xs = concat (map entry_bytes (map op_entry xs))"

definition mutations :: "batch_op list \<Rightarrow> batch_op list" where
  "mutations xs = filter (\<lambda>x. \<not> is_LogData x) xs"

text \<open>A batch is well formed when a non-nil buffer holds its header and fits its capacity.\<close>

definition batch_wf :: "Batch \<Rightarrow> bool" where
  "batch_wf b \<longleftrightarrow>
     (if b_data b = [] then b_count b = 0
      else batchHeaderLen \<le> length (b_data b) \<and> length (b_data b) \<le> b_cap b)"

lemma entry_valid_op [simp]: "entry_valid (op_entry x)"
  by (cases x) (simp_all add: entry_valid_def)

lemma grow_cap_ge: "0 < c \<Longrightarrow> n \<le> grow_cap c n"
  by (induction c n rule: grow_cap.induct) (subst grow_cap.simps, auto)

lemma init_cap_ge: "0 < n \<Longrightarrow> n \<le> init_cap n cap"
proof (induction n cap rule: init_cap.induct)
  case (1 n cap)
  then show ?case by (subst init_cap.simps) auto
qed

lemma le_enc_zero [simp]: "le_enc n 0 = replicate n 0"
  by (induction n) auto

lemma batch_init_facts:
  "\<exists>b'. batch_init b cap = Some b' \<and> length (b_data b') = batchHeaderLen \<and> take 8 (b_data b') = replicate 8 0
     \<and> batchInitialSize \<le> b_cap b' \<and> b_count b' = 0 \<and> b_memTableSize b' = b_memTableSize b"
  using init_cap_ge [of batchInitialSize cap]
  by (auto simp: batch_init_def batch_setSeqNum_def batch_setCount_def go_put_def)

text \<open>Both record writers extend a well-formed batch by exactly one record.\<close>

definition extends_by :: "Batch \<Rightarrow> bytes \<Rightarrow> Batch \<Rightarrow> bool" where
  "extends_by b rec b' \<longleftrightarrow>
     batch_wf b' \<and> b_data b' \<noteq> [] \<and> drop batchHeaderLen (b_data b') = drop batchHeaderLen (b_data b) @ rec
     \<and> take 8 (b_data b') = (if b_data b = [] then replicate 8 0 else take 8 (b_data b))"

lemma go_put_at: "length xs = length ys \<Longrightarrow> go_put (pre @ xs @ post) (length pre) ys = Some (pre @ ys @ post)"
  by (simp add: go_put_def)

lemma put_len_at:
  assumes "b_data b = pre @ xs @ post" and "length xs = length (put_uvarint32 x)" and "pos = length pre"
  shows "put_len b pos x = Some (b\<lparr>b_data := pre @ put_uvarint32 x @ post\<rparr>, pos + length (put_uvarint32 x))"
  using assms
proof (induction b pos x arbitrary: pre xs rule: put_len.induct)
  case (1 b pos x)
  obtain c ys where xs: "xs = c # ys" using 1(3) by (cases xs) (auto simp: put_uvarint32.simps [of x] split: if_splits)
  show ?case
  proof (cases "0x80 \<le> x")
    case True
    let ?y = "ucast x OR 0x80 :: byte" and ?b = "b\<lparr>b_data := (pre @ [ucast x OR 0x80]) @ ys @ post\<rparr>"
    have u: "put_uvarint32 x = ?y # put_uvarint32 (drop_bit 7 x)" using True by (subst put_uvarint32.simps) simp
    have p: "batch_put b pos ?y = Some ?b" using go_put_at [of "[c]" "[?y]" pre "ys @ post"] 1(2,4) xs by (simp add: batch_put_def)
    have "put_len ?b (pos + 1) (drop_bit 7 x) = Some (?b\<lparr>b_data := (pre @ [?y]) @ put_uvarint32 (drop_bit 7 x) @ post\<rparr>, pos + 1 + length (put_uvarint32 (drop_bit 7 x)))"
      by (rule 1(1) [OF True p, of "pre @ [?y]" ys]) (use 1(3,4) u xs in simp_all)
    then show ?thesis using True p u by (subst put_len.simps) simp
  next
    case False
    have u: "put_uvarint32 x = [ucast x]" using False by (subst put_uvarint32.simps) simp
    then have "ys = []" using 1(3) xs by simp
    then have "batch_put b pos (ucast x) = Some (b\<lparr>b_data := pre @ [ucast x] @ post\<rparr>)"
      using go_put_at [of "[c]" "[ucast x]" pre post] 1(2,4) xs by (simp add: batch_put_def)
    then show ?thesis using False u by (subst put_len.simps) simp
  qed
qed

lemma batch_grow_ok:
  assumes "batch_wf b" and "b_data b \<noteq> []"
  shows "\<exists>c room. batch_grow b n = Some (b\<lparr>b_cap := c, b_data := b_data b @ room\<rparr>) \<and> length room = n \<and> length (b_data b) + n \<le> c"
proof -
  have "0 < b_cap b" "length (b_data b) \<le> b_cap b" using assms by (auto simp: batch_wf_def)
  then show ?thesis
    using grow_cap_ge [of "2 * b_cap b" "length (b_data b) + n"]
    by (intro exI [of _ "if length (b_data b) + n > b_cap b then grow_cap (2 * b_cap b) (length (b_data b) + n) else b_cap b"]
        exI [of _ "take n (b_junk b @ replicate (length (b_data b) + n) 0)"])
      (simp add: batch_grow_def batch_reslice_def)
qed

lemma length_put_uvarint32: "length (put_uvarint32 x) \<le> 5"
proof -
  have "snd (batchDecodeLen (\<lambda>_. 0) (put_uvarint32 x @ [])) \<le> 5"
    by (auto simp: batchDecodeLen_def Let_def)
  then show ?thesis by (simp only: batchDecodeLen_uvarint snd_conv)
qed

lemma batch_ensure_init:
  assumes "batch_wf b"
  obtains b0 where "(if length (b_data b) = 0 then batch_init b cap else Some b) = Some b0"
      "batch_wf b0" "b_data b0 \<noteq> []" "b_count b0 = b_count b" "b_memTableSize b0 = b_memTableSize b"
      "drop batchHeaderLen (b_data b0) = drop batchHeaderLen (b_data b)"
      "batchHeaderLen \<le> length (b_data b0)"
      "take 8 (b_data b0) = (if b_data b = [] then replicate 8 0 else take 8 (b_data b))"
proof (cases "b_data b = []")
  case True
  from batch_init_facts [of b cap] obtain b0 where "batch_init b cap = Some b0"
    "length (b_data b0) = batchHeaderLen" "take 8 (b_data b0) = replicate 8 0"
    "batchInitialSize \<le> b_cap b0" "b_count b0 = 0" "b_memTableSize b0 = b_memTableSize b"
    by blast
  moreover from this have "b_data b0 \<noteq> []" by auto
  ultimately show ?thesis using True assms by (intro that [of b0]) (simp_all add: batch_wf_def)
next
  case False
  with assms show ?thesis by (intro that [of b]) (simp_all add: batch_wf_def)
qed

lemma batch_copy_at:
  "b_data b = pre @ xs @ post \<Longrightarrow> length xs = length src \<Longrightarrow> batch_copy b (length pre, length src) src = Some (b\<lparr>b_data := pre @ src @ post\<rparr>)"
  by (simp add: batch_copy_def go_put_at)

lemma room_parts:
  assumes "i + j \<le> length room"
  obtains xs ys zs where "room = xs @ ys @ zs" "length xs = i" "length ys = j"
  by (rule that [of "take i room" "take j (drop i room)" "drop j (drop i room)"])
     (use assms in \<open>auto simp del: drop_drop\<close>)

text \<open>The key part of a record, in a buffer that \<^verbatim>\<open>grow\<close> has made long enough.\<close>

lemma put_head:
  assumes "b_data b = d @ room" and "length room = 1 + 5 + k + m" and "length (b_data b) \<le> b_cap b" and "u = put_uvarint32 (of_nat k)"
  shows "\<exists>key rest. batch_put b (length d) kind = Some (b\<lparr>b_data := d @ kind # tl room\<rparr>)
    \<and> put_len (b\<lparr>b_data := d @ kind # tl room\<rparr>) (length d + 1) (of_nat k) = Some (b\<lparr>b_data := d @ kind # u @ key @ rest\<rparr>, length d + 1 + length u)
    \<and> length key = k \<and> m \<le> length rest \<and> length d + 1 + length u + k + length rest \<le> b_cap b"
proof -
  have u5: "length u \<le> 5" unfolding assms(4) by (rule length_put_uvarint32)
  obtain c room' where room: "room = c # room'" using assms(2) by (cases room) auto
  obtain xs key rest where r: "room' = xs @ key @ rest" "length xs = length u" "length key = k"
    by (rule room_parts [of "length u" k room']) (use u5 room assms(2) in auto)
  have "batch_put b (length d) kind = Some (b\<lparr>b_data := d @ kind # room'\<rparr>)"
    using go_put_at [of "[c]" "[kind]" d room'] assms(1) room by (simp add: batch_put_def)
  moreover have "put_len (b\<lparr>b_data := d @ kind # room'\<rparr>) (length d + 1) (of_nat k)
      = Some (b\<lparr>b_data := d @ kind # u @ key @ rest\<rparr>, length d + 1 + length u)"
    using put_len_at [of "b\<lparr>b_data := d @ kind # room'\<rparr>" "d @ [kind]" xs "key @ rest" "of_nat k" "length d + 1"] r assms(4) by simp
  ultimately show ?thesis using assms(1-3) room r u5 by (intro exI [of _ key] exI [of _ rest]) auto
qed

text \<open>What the callers copy into the slices makes the record complete.\<close>

lemma prepareDeferredKeyValueRecord_extends:
  assumes "batch_wf b"
  shows "\<exists>b1 op b'. prepareDeferredKeyValueRecord b (length key) (length val) kind = Some (b1, op)
    \<and> Option.bind (batch_copy b1 (d_Key op) key) (\<lambda>b. batch_copy b (d_Value op) val) = Some b'
    \<and> extends_by b (kv_record kind key val) b' \<and> b_count b' = b_count b + 1
    \<and> b_memTableSize b' = b_memTableSize b + memTableEntrySize (length key) (length val)"
proof -
  let ?k = "length key" and ?v = "length val"
  let ?u = "put_uvarint32 (of_nat ?k)" and ?w = "put_uvarint32 (of_nat ?v)"
  from batch_ensure_init [OF assms] obtain b0 where b0:
      "(if length (b_data b) = 0 then batch_init b (?k + ?v + 2 * 10 + 12) else Some b) = Some b0"
      "batch_wf b0" "b_data b0 \<noteq> []" "b_count b0 = b_count b" "b_memTableSize b0 = b_memTableSize b"
      "drop 12 (b_data b0) = drop 12 (b_data b)" "12 \<le> length (b_data b0)"
      "take 8 (b_data b0) = (if b_data b = [] then replicate 8 0 else take 8 (b_data b))" .
  let ?d = "b_data b0"
  let ?b1 = "b0\<lparr>b_count := b_count b0 + 1, b_memTableSize := b_memTableSize b0 + memTableEntrySize ?k ?v, b_offset := of_nat (length ?d)\<rparr>"
  have wf1: "batch_wf ?b1" "b_data ?b1 \<noteq> []" using b0(2,3) by (auto simp: batch_wf_def)
  obtain c room where G: "batch_grow ?b1 (1 + 2 * 5 + ?k + ?v) = Some (?b1\<lparr>b_cap := c, b_data := ?d @ room\<rparr>)"
      "length room = 1 + 2 * 5 + ?k + ?v" "length ?d + length room \<le> c"
    using batch_grow_ok [OF wf1, of "1 + 2 * 5 + ?k + ?v"] by auto
  let ?b2 = "?b1\<lparr>b_cap := c, b_data := ?d @ room\<rparr>"
  obtain xs rest where H: "batch_put ?b2 (length ?d) kind = Some (?b2\<lparr>b_data := ?d @ kind # tl room\<rparr>)"
      "put_len (?b2\<lparr>b_data := ?d @ kind # tl room\<rparr>) (length ?d + 1) (of_nat ?k) = Some (?b2\<lparr>b_data := ?d @ kind # ?u @ xs @ rest\<rparr>, length ?d + 1 + length ?u)"
      "length xs = ?k" "5 + ?v \<le> length rest" "length ?d + 1 + length ?u + ?k + length rest \<le> c"
    using put_head [of ?b2 ?d room ?k "5 + ?v" ?u kind] G(2,3) by auto
  obtain ys zs post where r: "rest = ys @ zs @ post" "length ys = length ?w" "length zs = ?v"
    by (rule room_parts [of "length ?w" ?v rest]) (use H(4) length_put_uvarint32 [of "of_nat ?v"] in auto)
  let ?pos = "length ?d + 1 + length ?u"
  let ?pre = "?d @ kind # ?u @ xs"
  let ?b3 = "?b2\<lparr>b_data := ?d @ kind # ?u @ xs @ rest\<rparr>" and ?b4 = "?b2\<lparr>b_data := ?pre @ ?w @ zs @ post\<rparr>"
  have W: "put_len ?b3 (?pos + ?k) (of_nat ?v) = Some (?b4, ?pos + ?k + length ?w)"
    using put_len_at [of ?b3 ?pre ys "zs @ post" "of_nat ?v" "?pos + ?k"] r H(3) by simp
  let ?b5 = "?b2\<lparr>b_data := ?pre @ ?w @ zs\<rparr>"
  have S: "batch_slice ?b3 ?pos ?k = Some (?pos, ?k)" "batch_slice ?b4 (?pos + ?k + length ?w) ?v = Some (?pos + ?k + length ?w, ?v)"
      "batch_reslice ?b4 (?pos + ?k + length ?w + ?v) = Some ?b5"
    using H(3,5) r by (simp_all add: batch_slice_def batch_reslice_def)
  let ?op = "\<lparr>d_Key = (?pos, ?k), d_Value = (?pos + ?k + length ?w, ?v)\<rparr>"
  have P: "prepareDeferredKeyValueRecord b ?k ?v kind = Some (?b5, ?op)"
    unfolding prepareDeferredKeyValueRecord_def b0(1) using G(1) H(1,2) W S by (simp add: Let_def)
  have C: "batch_copy ?b5 (d_Key ?op) key = Some (?b2\<lparr>b_data := (?d @ kind # ?u) @ key @ ?w @ zs\<rparr>)"
    using batch_copy_at [of ?b5 "?d @ kind # ?u" xs "?w @ zs" key] H(3) by simp
  have D: "batch_copy (?b2\<lparr>b_data := (?d @ kind # ?u) @ key @ ?w @ zs\<rparr>) (d_Value ?op) val = Some (?b2\<lparr>b_data := ?d @ kv_record kind key val\<rparr>)"
    using batch_copy_at [of "?b2\<lparr>b_data := (?d @ kind # ?u) @ key @ ?w @ zs\<rparr>" "?d @ kind # ?u @ key @ ?w" zs "[]" val] r(3)
    by (simp add: kv_record_def add.assoc)
  have "length ?d + length (kv_record kind key val) \<le> c" using H(5) r by (simp add: kv_record_def)
  then show ?thesis
    using P C D b0 by (intro exI [of _ ?b5] exI [of _ ?op] exI [of _ "?b2\<lparr>b_data := ?d @ kv_record kind key val\<rparr>"])
      (auto simp: extends_by_def batch_wf_def)
qed

lemma prepareDeferredKeyRecord_extends:
  assumes "batch_wf b"
  shows "\<exists>b1 op b'. prepareDeferredKeyRecord b (length key) kind = Some (b1, op) \<and> batch_copy b1 (d_Key op) key = Some b'
    \<and> extends_by b (key_record kind key) b' \<and> b_count b' = b_count b + 1
    \<and> b_memTableSize b' = b_memTableSize b + memTableEntrySize (length key) 0"
proof -
  let ?k = "length key"
  let ?u = "put_uvarint32 (of_nat ?k)"
  from batch_ensure_init [OF assms] obtain b0 where b0:
      "(if length (b_data b) = 0 then batch_init b (?k + 10 + 12) else Some b) = Some b0"
      "batch_wf b0" "b_data b0 \<noteq> []" "b_count b0 = b_count b" "b_memTableSize b0 = b_memTableSize b"
      "drop 12 (b_data b0) = drop 12 (b_data b)" "12 \<le> length (b_data b0)"
      "take 8 (b_data b0) = (if b_data b = [] then replicate 8 0 else take 8 (b_data b))" .
  let ?d = "b_data b0"
  let ?b1 = "b0\<lparr>b_count := b_count b0 + 1, b_memTableSize := b_memTableSize b0 + memTableEntrySize ?k 0, b_offset := of_nat (length ?d)\<rparr>"
  have wf1: "batch_wf ?b1" "b_data ?b1 \<noteq> []" using b0(2,3) by (auto simp: batch_wf_def)
  obtain c room where G: "batch_grow ?b1 (1 + 5 + ?k) = Some (?b1\<lparr>b_cap := c, b_data := ?d @ room\<rparr>)"
      "length room = 1 + 5 + ?k" "length ?d + length room \<le> c"
    using batch_grow_ok [OF wf1, of "1 + 5 + ?k"] by auto
  let ?b2 = "?b1\<lparr>b_cap := c, b_data := ?d @ room\<rparr>" and ?pos = "length ?d + 1 + length ?u"
  obtain xs rest where H: "batch_put ?b2 (length ?d) kind = Some (?b2\<lparr>b_data := ?d @ kind # tl room\<rparr>)"
      "put_len (?b2\<lparr>b_data := ?d @ kind # tl room\<rparr>) (length ?d + 1) (of_nat ?k) = Some (?b2\<lparr>b_data := ?d @ kind # ?u @ xs @ rest\<rparr>, ?pos)"
      "length xs = ?k" "?pos + ?k + length rest \<le> c"
    using put_head [of ?b2 ?d room ?k 0 ?u kind] G(2,3) by auto
  let ?b3 = "?b2\<lparr>b_data := ?d @ kind # ?u @ xs @ rest\<rparr>" and ?b4 = "?b2\<lparr>b_data := (?d @ kind # ?u) @ xs @ []\<rparr>"
  have S: "batch_slice ?b3 ?pos ?k = Some (?pos, ?k)" "batch_reslice ?b3 (?pos + ?k) = Some ?b4"
    using H(3,4) by (simp_all add: batch_slice_def batch_reslice_def)
  let ?op = "\<lparr>d_Key = (?pos, ?k), d_Value = (0, 0)\<rparr>"
  have P: "prepareDeferredKeyRecord b ?k kind = Some (?b4, ?op)"
    unfolding prepareDeferredKeyRecord_def b0(1) using G(1) H(1,2) S by (simp add: Let_def)
  have C: "batch_copy ?b4 (d_Key ?op) key = Some (?b2\<lparr>b_data := ?d @ key_record kind key\<rparr>)"
    using batch_copy_at [of ?b4 "?d @ kind # ?u" xs "[]" key] H(3) by (simp add: key_record_def)
  have "length ?d + length (key_record kind key) \<le> c" using H(4) by (simp add: key_record_def)
  then show ?thesis
    using P C b0 by (intro exI [of _ ?b4] exI [of _ ?op] exI [of _ "?b2\<lparr>b_data := ?d @ key_record kind key\<rparr>"])
      (auto simp: extends_by_def batch_wf_def)
qed

lemma extends_by_count [simp]:
  "extends_by b rec (b'\<lparr>b_count := c, b_memTableSize := m\<rparr>) \<longleftrightarrow> extends_by b rec b'"
  by (auto simp: extends_by_def batch_wf_def)

lemma run_op_extends:
  assumes "batch_wf b"
  shows "\<exists>b'. run_op b x = Some b' \<and> extends_by b (entry_bytes (op_entry x)) b'
    \<and> b_count b' = b_count b + (if is_LogData x then 0 else 1)
    \<and> b_memTableSize b' = b_memTableSize b + (if is_LogData x then 0 else entries_memSize [op_entry x])"
proof (cases x)
  case (OpSet key val)
  with prepareDeferredKeyValueRecord_extends [OF assms, of key val InternalKeyKindSet] show ?thesis
    by (auto simp: batch_Set_def batch_SetDeferred_def entry_bytes_def entries_memSize_def)
next
  case (OpDelete key)
  with prepareDeferredKeyRecord_extends [OF assms, of key InternalKeyKindDelete] show ?thesis
    by (auto simp: batch_Delete_def batch_DeleteDeferred_def entry_bytes_def entries_memSize_def)
next
  case (OpPrefixDelete key)
  with prepareDeferredKeyRecord_extends [OF assms, of key InternalKeyKindPrefixDelete] show ?thesis
    by (auto simp: batch_PrefixDeleteKeySet_def entry_bytes_def entries_memSize_def)
next
  case (OpLogData d)
  with prepareDeferredKeyRecord_extends [OF assms, of d InternalKeyKindLogData] show ?thesis
    by (auto simp: batch_LogData_def entry_bytes_def entries_memSize_def)
qed

lemma run_ops_extends:
  assumes "batch_wf b"
  shows "\<exists>b'. run_ops b xs = Some b' \<and> batch_wf b'
    \<and> drop batchHeaderLen (b_data b') = drop batchHeaderLen (b_data b) @ ops_bytes xs
    \<and> (b_data b' = [] \<longleftrightarrow> b_data b = [] \<and> xs = [])
    \<and> b_count b' = b_count b + of_nat (length (mutations xs))
    \<and> b_memTableSize b' = b_memTableSize b + entries_memSize (map op_entry (mutations xs))"
  using assms
proof (induction xs arbitrary: b)
  case Nil
  then show ?case by (simp add: ops_bytes_def mutations_def entries_memSize_def)
next
  case (Cons x xs)
  from run_op_extends [OF Cons.prems, of x] obtain b1 where b1: "run_op b x = Some b1"
      "extends_by b (entry_bytes (op_entry x)) b1"
      "b_count b1 = b_count b + (if is_LogData x then 0 else 1)"
      "b_memTableSize b1 = b_memTableSize b + (if is_LogData x then 0 else entries_memSize [op_entry x])"
    by blast
  then have wf: "batch_wf b1" by (simp add: extends_by_def)
  from Cons.IH [OF wf] b1 show ?case
    by (auto simp: extends_by_def ops_bytes_def mutations_def entries_memSize_def)
qed

lemma ucast_of_nat_u32: "(ucast (of_nat n :: u64) :: u32) = of_nat n"
  by (simp add: word_unat_eq_iff unsigned_ucast_eq unsigned_take_bit_eq unat_of_nat take_bit_eq_mod
      mod_mod_cancel)

lemma batch_Repr_facts:
  assumes "batch_wf b"
  shows "\<exists>b' repr. batch_Repr b = Some (b', repr) \<and> b_data b' = repr \<and> batchHeaderLen \<le> length repr
    \<and> drop batchHeaderLen repr = drop batchHeaderLen (b_data b)
    \<and> le_dec (take 4 (drop batchCountOffset repr)) = batch_Count b"
proof -
  from batch_ensure_init [OF assms] obtain b0 where b0:
      "(if length (b_data b) = 0 then batch_init b 12 else Some b) = Some b0"
      "batch_wf b0" "b_data b0 \<noteq> []" "b_count b0 = b_count b" "b_memTableSize b0 = b_memTableSize b"
      "drop 12 (b_data b0) = drop 12 (b_data b)" "12 \<le> length (b_data b0)"
      "take 8 (b_data b0) = (if b_data b = [] then replicate 8 0 else take 8 (b_data b))" .
  from b0(1,4,6,7) show ?thesis
    by (simp add: batch_Repr_def go_put_def batch_Count_def endian_simps min_def)
qed

lemma BatchReader_of_Repr:
  assumes "batch_wf b" and "batch_Repr b = Some (b', repr)" and "0 < length (drop 12 (b_data b)) \<or> b_count b = 0"
  shows "ReadBatch repr = (drop batchHeaderLen (b_data b), batch_Count b)"
  using batch_Repr_facts [OF assms(1)] assms(2,3)
  by (auto simp: ReadBatch_def batch_Count_def)

text \<open>
  C4: Whatever sequence of Set, Delete, PrefixDelete and LogData calls a fresh batch receives,
  none of them panics, and as long as the batch stays below 4 GiB its serialised form reads
  back as exactly those operations in order, with the count of the mutations (LogData is not
  counted) and with the memtable size of the mutations.
\<close>

theorem batch_roundtrip:
  assumes "b_data b = []" and "b_count b = 0" and "b_memTableSize b = 0"
    and "length (ops_bytes xs) < 2 ^ 32"
  shows "\<exists>b1 b2 repr r. run_ops b xs = Some b1 \<and> batch_Repr b1 = Some (b2, repr)
    \<and> ReadBatch repr = (r, of_nat (length (mutations xs)))
    \<and> batch_entries r = Some (map op_entry xs)
    \<and> b_memTableSize b1 = entries_memSize (map op_entry (mutations xs))"
proof -
  have "batch_wf b" using assms by (simp add: batch_wf_def)
  from run_ops_extends [OF this, of xs] assms obtain b1 where b1: "run_ops b xs = Some b1"
      "batch_wf b1" "drop batchHeaderLen (b_data b1) = ops_bytes xs"
      "b_count b1 = of_nat (length (mutations xs))"
      "b_memTableSize b1 = entries_memSize (map op_entry (mutations xs))"
    by auto
  from batch_Repr_facts [OF b1(2)] obtain b2 repr where repr: "batch_Repr b1 = Some (b2, repr)" by blast
  have "0 < length (ops_bytes xs) \<or> b_count b1 = 0"
    by (cases xs) (auto simp: b1(4) ops_bytes_def entry_bytes_def kv_record_def key_record_def
        mutations_def split: prod.split)
  with BatchReader_of_Repr [OF b1(2) repr] b1
  have "ReadBatch repr = (ops_bytes xs, of_nat (length (mutations xs)))"
    by (simp add: batch_Count_def ucast_of_nat_u32)
  moreover have "batch_entries (ops_bytes xs) = Some (map op_entry xs)"
    unfolding ops_bytes_def
    by (rule batch_stream.read_all_concat) (use assms(4) in \<open>auto simp: ops_bytes_def\<close>)
  ultimately show ?thesis using b1 repr by blast
qed

definition freshBatch :: Batch where
  "freshBatch = \<lparr>b_data = [], b_cap = 0, b_count = 0, b_memTableSize = 0, b_offset = 0,
     b_applied = False, b_hasDb = True, b_junk = [7, 7, 7, 7, 7, 7, 7, 7, 7, 7, 7, 7]\<rparr>"

theorem batch_roundtrip_witness:
  "\<exists>b1 b2 repr r. run_ops freshBatch [OpSet [1] [2, 3], OpLogData [9], OpDelete [4]] = Some b1
    \<and> batch_Repr b1 = Some (b2, repr) \<and> ReadBatch repr = (r, 2)
    \<and> batch_entries r = Some [(1, [1], [2, 3]), (3, [9], []), (0, [4], [])]"
proof -
  let ?xs = "[OpSet [1] [2, 3], OpLogData [9], OpDelete [4]]"
  have "length (ops_bytes ?xs) < 2 ^ 32"
    by (simp add: ops_bytes_def entry_bytes_def kv_record_def key_record_def put_uvarint32.simps)
  then show ?thesis
    using batch_roundtrip [of freshBatch ?xs] by (auto simp: freshBatch_def mutations_def)
qed

section \<open>Recovery and malformed records\<close>

lemma ucast_u32_u64_u32 [simp]: "(ucast (ucast (x :: u32) :: u64) :: u32) = x"
  by (rule bit_word_eqI) (auto simp: bit_simps)

lemma refreshMemTableSize_entries:
  assumes "batchHeaderLen \<le> length (b_data b)" and "batch_entries (drop batchHeaderLen (b_data b)) = Some es"
  shows "refreshMemTableSize b = Some (b\<lparr>b_memTableSize := entries_memSize es\<rparr>)"
proof -
  have "batch_Reader (b\<lparr>b_memTableSize := 0\<rparr>) = Some (b\<lparr>b_memTableSize := 0\<rparr>, drop batchHeaderLen (b_data b))"
    using assms(1) by (auto simp: batch_Reader_def go_slice_def)
  with assms show ?thesis by (simp add: refreshMemTableSize_def)
qed

text \<open>
  C5: Recovery of a batch from the log: setting a batch of an open database from the
  serialised form of any well-formed batch below 4 GiB whose records are those of the
  operations \<open>xs\<close> succeeds, restores the same records and the same count, and recomputes the
  memtable size over all records. The recomputed size also counts LogData records, which
  \<^verbatim>\<open>LogData\<close> itself takes back out. A form shorter than the header is refused.
\<close>

theorem batch_SetRepr_recovers:
  assumes "batch_wf b" and "drop batchHeaderLen (b_data b) = ops_bytes xs"
    and "length (ops_bytes xs) < 2 ^ 32" and "b_hasDb b'"
  shows "\<exists>b1 repr b2. batch_Repr b = Some (b1, repr) \<and> batch_SetRepr b' repr = Some (Inr b2)
    \<and> drop batchHeaderLen (b_data b2) = ops_bytes xs \<and> batch_Count b2 = batch_Count b
    \<and> b_memTableSize b2 = entries_memSize (map op_entry xs)
    \<and> (\<forall>short. length short < batchHeaderLen \<longrightarrow> batch_SetRepr b' short = Some (Inl ErrInvalidBatch))"
proof -
  from batch_Repr_facts [OF assms(1)] assms(2) obtain b1 repr where repr: "batch_Repr b = Some (b1, repr)"
      "batchHeaderLen \<le> length repr" "drop batchHeaderLen repr = ops_bytes xs"
      "le_dec (take 4 (drop batchCountOffset repr)) = batch_Count b"
    by auto
  have es: "batch_entries (ops_bytes xs) = Some (map op_entry xs)"
    unfolding ops_bytes_def
    by (rule batch_stream.read_all_concat) (use assms(3) in \<open>auto simp: ops_bytes_def\<close>)
  let ?b2 = "b'\<lparr>b_data := repr, b_cap := length repr, b_count := ucast (batch_Count b)\<rparr>"
  have "batch_SetRepr b' repr = map_option Inr (refreshMemTableSize ?b2)"
    using repr assms(4) by (simp add: batch_SetRepr_def go_slice_def)
  also have "refreshMemTableSize ?b2 = Some (?b2\<lparr>b_memTableSize := entries_memSize (map op_entry xs)\<rparr>)"
    by (rule refreshMemTableSize_entries) (use repr es in simp_all)
  finally show ?thesis
    using repr by (simp add: batch_Count_def batch_SetRepr_def)
qed

theorem batch_SetRepr_recovers_witness:
  "\<exists>b1 repr b2. batch_Repr (freshBatch\<lparr>b_data := replicate 12 0 @ ops_bytes [OpDelete [5]], b_cap := 1024, b_count := 1\<rparr>)
      = Some (b1, repr) \<and> batch_SetRepr freshBatch repr = Some (Inr b2) \<and> batch_Count b2 = 1"
proof -
  have l: "length (ops_bytes [OpDelete [5]]) = 3"
    by (simp add: ops_bytes_def entry_bytes_def key_record_def put_uvarint32.simps word_le_nat_alt)
  then show ?thesis
    using batch_SetRepr_recovers [of "freshBatch\<lparr>b_data := replicate 12 0 @ ops_bytes [OpDelete [5]],
        b_cap := 1024, b_count := 1\<rparr>" "[OpDelete [5]]" freshBatch]
    by (auto simp: batch_wf_def freshBatch_def batch_Count_def)
qed

lemma batchDecodeLen_cont:
  assumes "\<forall>x \<in> set bs. 128 \<le> x" and "length bs < 5"
  shows "length bs < snd (batchDecodeLen oob bs)"
proof -
  have p: "\<not> peek oob bs i < 128" if "i < length bs" for i
    using assms(1) that by (simp add: peek_def not_less)
  consider "length bs = 0" | "length bs = 1" | "length bs = 2" | "length bs = 3" | "length bs = 4"
    using assms(2) by linarith
  then show ?thesis
    by cases (use p [of 0] p [of 1] p [of 2] p [of 3] in \<open>simp_all add: batchDecodeLen_def Let_def\<close>)
qed

text \<open>
  C6: Decoding a length-prefixed string reads up to four bytes behind the slice when the length is cut off, through an unsafe
  pointer; its result does not depend on what lies there. But a record that ends inside the length of its key (no byte at all, or up to four bytes that all
  announce another one), and a Set record that ends inside the length of its value, make the reader panic instead of returning \<^verbatim>\<open>ok == false\<close>.
\<close>

theorem batchDecodeStr_truncated:
  "batchDecodeStr_mem oob bs = batchDecodeStr bs
   \<and> ((\<forall>x \<in> set bs. 128 \<le> x) \<and> length bs < 5 \<longrightarrow>
        batchDecodeStr bs = None
        \<and> (kind \<le> InternalKeyKindMax \<longrightarrow> BatchReader_Next (kind # bs) = None)
        \<and> (length key + length bs < 2 ^ 32 \<longrightarrow>
              BatchReader_Next (InternalKeyKindSet # put_uvarint32 (of_nat (length key)) @ key @ bs) = None))"
proof -
  have "batchDecodeStr bs = None" if "\<forall>x \<in> set bs. 128 \<le> x" "length bs < 5"
    using batchDecodeLen_cont [OF that, of "\<lambda>_. 0"]
    by (auto simp: batchDecodeStr_def batchDecodeStr_mem_def split: prod.split)
  then show ?thesis by (auto simp: batchDecodeStr_oob BatchReader_Next_def batchDecodeStr_uvarint)
qed

theorem batchDecodeStr_truncated_witness:
  "BatchReader_Next [InternalKeyKindSet] = None \<and> BatchReader_Next [InternalKeyKindDelete, 200, 129] = None
   \<and> BatchReader_Next (InternalKeyKindSet # put_uvarint32 (of_nat (length [7, 8 :: byte])) @ [7, 8] @ [200]) = None"
  using batchDecodeStr_truncated [of _ "[]" InternalKeyKindSet] batchDecodeStr_truncated [of _ "[200, 129]" InternalKeyKindDelete]
    batchDecodeStr_truncated [of _ "[200]" _ "[7, 8]"]
  by simp

end
