(* ===== verification/Iterators.thy ===== *)
theory Iterators
  imports Internal_Key "HOL-Library.Multiset"
begin

text \<open>
  What the components that sort entries and iterate over them share: \<^verbatim>\<open>sort.Sort\<close> and the contract
  of a forward iterator. An iterator operation returns the moved iterator and the entry it now
  shows (\<open>None\<close> for a nil key), inside an option whose \<open>None\<close> is a panic.
\<close>

section \<open>Sorting\<close>

text \<open>\<^verbatim>\<open>sort.Sort\<close> promises an ascending order of \<^verbatim>\<open>Less\<close>. The callers' \<^verbatim>\<open>Less\<close> is a strict total order
  on the elements sorted, so the result does not depend on the algorithm.\<close>

primrec insert_by :: "('a \<Rightarrow> 'a \<Rightarrow> bool) \<Rightarrow> 'a \<Rightarrow> 'a list \<Rightarrow> 'a list" where
  "insert_by lt x [] = [x]"
| "insert_by lt x (y # ys) = (if lt x y then x # y # ys else y # insert_by lt x ys)"

primrec sort_Sort :: "('a \<Rightarrow> 'a \<Rightarrow> bool) \<Rightarrow> 'a list \<Rightarrow> 'a list" where
  "sort_Sort lt [] = []"
| "sort_Sort lt (x # xs) = insert_by lt x (sort_Sort lt xs)"

lemma mset_insert_by [simp]: "mset (insert_by lt x xs) = add_mset x (mset xs)"
  by (induction xs) auto

lemma mset_sort_Sort [simp]: "mset (sort_Sort lt xs) = mset xs"
  by (induction xs) auto

lemma set_sort_Sort [simp]: "set (sort_Sort lt xs) = set xs"
  by (metis mset_sort_Sort set_mset_mset)

lemma length_sort_Sort [simp]: "length (sort_Sort lt xs) = length xs"
  by (metis mset_sort_Sort size_mset)

locale strict_order_on =
  fixes lt :: "'a \<Rightarrow> 'a \<Rightarrow> bool" and S :: "'a set"
  assumes lt_trans: "a \<in> S \<Longrightarrow> b \<in> S \<Longrightarrow> c \<in> S \<Longrightarrow> lt a b \<Longrightarrow> lt b c \<Longrightarrow> lt a c"
    and lt_total: "a \<in> S \<Longrightarrow> b \<in> S \<Longrightarrow> a \<noteq> b \<Longrightarrow> lt a b \<or> lt b a"
begin

lemma insert_by_sorted:
  "sorted_wrt lt xs \<Longrightarrow> set xs \<subseteq> S \<Longrightarrow> x \<in> S \<Longrightarrow> x \<notin> set xs \<Longrightarrow> sorted_wrt lt (insert_by lt x xs)"
proof (induction xs)
  case (Cons y ys)
  have set: "set (insert_by lt x ys) = insert x (set ys)" by (metis mset_insert_by set_mset_add_mset_insert set_mset_mset)
  show ?case
  proof (cases "lt x y")
    case True
    then have "\<forall>z \<in> set ys. lt x z" using Cons.prems lt_trans [of x y] by auto
    with True Cons.prems show ?thesis by simp
  next
    case False
    then have "lt y x" using Cons.prems lt_total [of x y] by auto
    with False Cons show ?thesis by (simp add: set)
  qed
qed simp

lemma sort_Sort_sorted:
  "set xs \<subseteq> S \<Longrightarrow> distinct xs \<Longrightarrow> sorted_wrt lt (sort_Sort lt xs)"
  by (induction xs) (auto intro!: insert_by_sorted)

end

section \<open>Forward iteration\<close>

text \<open>The loop \<^verbatim>\<open>for k, v := it.First(); k != nil; k, v = it.Next()\<close>: the entries it sees.\<close>

fun iterate :: "('s \<Rightarrow> ('s \<times> 'e option) option) \<Rightarrow> nat \<Rightarrow> 's \<times> 'e option \<Rightarrow> 'e list option" where
  "iterate nxt 0 r = None"
| "iterate nxt (Suc n) (s, None) = Some []"
| "iterate nxt (Suc n) (s, Some e) = Option.bind (nxt s) (\<lambda>r. map_option ((#) e) (iterate nxt n r))"

text \<open>\<open>entries s\<close> is what the iterator ranges over and \<open>below s\<close> its upper bound; \<open>at s i\<close> says that it shows
  the entry number \<open>i\<close>. \<^verbatim>\<open>First\<close> shows the first entry and \<^verbatim>\<open>Next\<close> the following one, unless there is
  none or it is not below the bound.\<close>

locale forward_iter =
  fixes first nxt :: "'s \<Rightarrow> ('s \<times> 'e option) option" and entries :: "'s \<Rightarrow> 'e list"
    and below :: "'s \<Rightarrow> 'e \<Rightarrow> bool" and valid :: "'s \<Rightarrow> bool" and at :: "'s \<Rightarrow> nat \<Rightarrow> bool"
  assumes first_some: "valid s \<Longrightarrow> entries s \<noteq> [] \<Longrightarrow> below s (entries s ! 0) \<Longrightarrow>
      \<exists>s'. first s = Some (s', Some (entries s ! 0)) \<and> at s' 0 \<and> entries s' = entries s \<and> below s' = below s"
    and first_none: "valid s \<Longrightarrow> entries s = [] \<or> \<not> below s (entries s ! 0) \<Longrightarrow> \<exists>s'. first s = Some (s', None)"
    and next_some: "at s i \<Longrightarrow> Suc i < length (entries s) \<Longrightarrow> below s (entries s ! Suc i) \<Longrightarrow>
      \<exists>s'. nxt s = Some (s', Some (entries s ! Suc i)) \<and> at s' (Suc i) \<and> entries s' = entries s \<and> below s' = below s"
    and next_none: "at s i \<Longrightarrow> Suc i = length (entries s) \<or> (Suc i < length (entries s) \<and> \<not> below s (entries s ! Suc i)) \<Longrightarrow>
      \<exists>s'. nxt s = Some (s', None)"
begin

lemma iterate_from:
  assumes "at s i" and "i < length (entries s)" and "length (entries s) - i < n"
  shows "iterate nxt n (s, Some (entries s ! i))
    = Some (entries s ! i # takeWhile (below s) (drop (Suc i) (entries s)))"
  using assms
proof (induction n arbitrary: s i)
  case (Suc n)
  show ?case
  proof (cases "Suc i < length (entries s) \<and> below s (entries s ! Suc i)")
    case True
    then obtain s' where s': "nxt s = Some (s', Some (entries s ! Suc i))" "at s' (Suc i)"
        "entries s' = entries s" "below s' = below s"
      using next_some Suc.prems(1) by blast
    have "drop (Suc i) (entries s) = entries s ! Suc i # drop (Suc (Suc i)) (entries s)"
      using True by (simp add: Cons_nth_drop_Suc)
    moreover have "length (entries s) - Suc i < n" using Suc.prems(2,3) True by linarith
    ultimately show ?thesis using Suc.IH [OF s'(2)] s' True by simp
  next
    case False
    then have "\<exists>s'. nxt s = Some (s', None)"
      using next_none [OF Suc.prems(1)] Suc.prems(2) by (cases "Suc i < length (entries s)") auto
    moreover have "takeWhile (below s) (drop (Suc i) (entries s)) = []"
      using False by (cases "Suc i < length (entries s)") (auto simp: Cons_nth_drop_Suc [symmetric])
    ultimately show ?thesis using Suc.prems(2,3) by (cases n) auto
  qed
qed simp

lemma iterate_first:
  assumes "valid s" and "length (entries s) < n"
  shows "\<exists>r. first s = Some r \<and> iterate nxt n r = Some (takeWhile (below s) (entries s))"
proof (cases "entries s \<noteq> [] \<and> below s (entries s ! 0)")
  case True
  then obtain s' where s': "first s = Some (s', Some (entries s ! 0))" "at s' 0"
      "entries s' = entries s" "below s' = below s" using first_some assms(1) by blast
  have "takeWhile (below s) (entries s) = entries s ! 0 # takeWhile (below s) (drop (Suc 0) (entries s))"
    using True by (cases "entries s") auto
  with s' iterate_from [OF s'(2), of n] True assms(2) show ?thesis by simp
next
  case False
  then obtain s' where "first s = Some (s', None)" using first_none assms(1) by blast
  moreover have "takeWhile (below s) (entries s) = []" using False by (cases "entries s") auto
  ultimately show ?thesis using assms(2) by (cases n) auto
qed

end

text \<open>The tables show each pair as a Set at sequence number one.\<close>

definition set_entry :: "bytes \<times> bytes \<Rightarrow> InternalKey \<times> bytes" where
  "set_entry kv = (MakeInternalSetKey (fst kv), snd kv)"

lemma UserKey_set_entry [simp]: "UserKey (fst (set_entry kv)) = fst kv"
  by (simp add: set_entry_def MakeInternalSetKey_def MakeInternalKey_def)

lemma takeWhile_True: "takeWhile (\<lambda>x. True) xs = xs"
  by (induction xs) auto

end
