(* ===== verification/Flushable_Batch.thy ===== *)
theory Flushable_Batch
  imports Batch Iterators
begin

text \<open>
  Large batches (\<^verbatim>\<open>batch.go\<close>, second half): a batch that does not fit a memtable is kept as it
  is, with a sorted index of its records, and read through \<^verbatim>\<open>flushableBatchIter\<close> and
  \<^verbatim>\<open>flushFlushableBatchIter\<close>. Offsets are 32-bit, so the statements ask for less than 4 GiB.
\<close>

record flushableBatchEntry =
  fe_offset :: u32
  fe_index :: u32
  fe_keyStart :: u32
  fe_keyEnd :: u32

record flushableBatch =
  fb_data :: bytes
  fb_cap :: nat
  fb_seqNum :: u64
  fb_offsets :: "flushableBatchEntry list"

text \<open>The position in \<^verbatim>\<open>data\<close> of the key that \<^verbatim>\<open>iter.Next()\<close> returned, which the code takes from the
  address of its first byte.\<close>

definition key_position :: "bytes \<Rightarrow> bytes \<Rightarrow> nat" where
  "key_position d it =
     (case batchDecodeStr (tl it) of
        Some (rest, key, ok) \<Rightarrow> length d - length rest - length key
      | None \<Rightarrow> 0)"

function scan_offsets :: "bytes \<Rightarrow> bytes \<Rightarrow> u32 \<Rightarrow> flushableBatchEntry list option" where
  "scan_offsets d it index =
     (if it = [] then Some []
      else
        let offset = length d - length it in
        case BatchReader_Next it of
          None \<Rightarrow> None
        | Some (it', None) \<Rightarrow> Some []
        | Some (it', Some (kind, key, val)) \<Rightarrow>
            let keySize = of_nat (length key) :: u32;
                keyStart = (if keySize = 0 then of_nat offset + 2 else of_nat (key_position d it));
                keyEnd = (if keySize = 0 then keyStart else keyStart + keySize);
                entry = \<lparr>fe_offset = of_nat offset, fe_index = index, fe_keyStart = keyStart, fe_keyEnd = keyEnd\<rparr>
            in map_option ((#) entry) (scan_offsets d it' (index + 1)))"
  by pat_completeness auto
termination
  by (relation "measure (\<lambda>(d, it, index). length it)") (auto dest: BatchReader_Next_shorter)

declare scan_offsets.simps [simp del]

text \<open>\<^verbatim>\<open>b.data[e.keyStart:e.keyEnd]\<close>.\<close>

definition entry_key :: "bytes \<Rightarrow> flushableBatchEntry \<Rightarrow> bytes" where
  "entry_key d e = take (unat (fe_keyEnd e) - unat (fe_keyStart e)) (drop (unat (fe_keyStart e)) d)"

definition fb_Less :: "(bytes \<Rightarrow> bytes \<Rightarrow> int) \<Rightarrow> bytes \<Rightarrow> flushableBatchEntry \<Rightarrow> flushableBatchEntry \<Rightarrow> bool" where
  "fb_Less cmp d ei ej =
     (let c = cmp (entry_key d ei) (entry_key d ej) in
      if c < 0 then True
      else if c > 0 then False
      else fe_offset ei > fe_offset ej)"

definition newFlushableBatch :: "(bytes \<Rightarrow> bytes \<Rightarrow> int) \<Rightarrow> Batch \<Rightarrow> flushableBatch option" where
  "newFlushableBatch cmp b =
     do {
       seq \<leftarrow> (if b_data b \<noteq> [] then map_option snd (batch_SeqNum b) else Some 0);
       offs \<leftarrow> (if batchHeaderLen < length (b_data b)
                then scan_offsets (b_data b) (drop batchHeaderLen (b_data b)) 0 else Some []);
       Some \<lparr>fb_data = b_data b, fb_cap = b_cap b, fb_seqNum = seq,
             fb_offsets = sort_Sort (fb_Less cmp (b_data b)) offs\<rparr>
     }"

definition fb_setSeqNum :: "flushableBatch \<Rightarrow> u64 \<Rightarrow> flushableBatch" where
  "fb_setSeqNum b seqNum = b\<lparr>fb_seqNum := seqNum\<rparr>"

definition fb_Len :: "flushableBatch \<Rightarrow> nat" where
  "fb_Len b = length (fb_offsets b)"

definition fb_empty :: "flushableBatch \<Rightarrow> bool" where
  "fb_empty b \<longleftrightarrow> length (fb_data b) \<le> batchHeaderLen"

definition fb_inuseBytes :: "flushableBatch \<Rightarrow> u64" where
  "fb_inuseBytes b = of_int (int (length (fb_data b)) - int batchHeaderLen)"

definition fb_totalBytes :: "flushableBatch \<Rightarrow> u64" where
  "fb_totalBytes b = of_nat (fb_cap b)"

definition fb_readyForFlush :: "flushableBatch \<Rightarrow> bool" where
  "fb_readyForFlush b = True"

section \<open>The iterator\<close>

datatype fb_error = ErrCorruptedBatch

record flushableBatchIter =
  fi_batch :: flushableBatch
  fi_index :: int
  fi_key :: InternalKey
  fi_err :: "fb_error option"
  fi_lower :: "bytes option"
  fi_upper :: "bytes option"

definition fb_newIter :: "flushableBatch \<Rightarrow> bytes option \<Rightarrow> bytes option \<Rightarrow> flushableBatchIter" where
  "fb_newIter b lower upper =
     \<lparr>fi_batch = b, fi_index = -1, fi_key = \<lparr>UserKey = [], Trailer = 0\<rparr>, fi_err = None,
      fi_lower = lower, fi_upper = upper\<rparr>"

definition fb_getKey :: "flushableBatch \<Rightarrow> nat \<Rightarrow> InternalKey option" where
  "fb_getKey b index =
     do {
       e \<leftarrow> go_index (fb_offsets b) index;
       kind \<leftarrow> go_index (fb_data b) (unat (fe_offset e));
       key \<leftarrow> go_slice (fb_data b) (unat (fe_keyStart e)) (unat (fe_keyEnd e));
       Some (MakeInternalKey key (fb_seqNum b + ucast (fe_index e)) kind)
     }"

text \<open>\<^verbatim>\<open>Value()\<close>: the iterator with its error, and the value (empty for nil).\<close>

definition fb_Value :: "flushableBatchIter \<Rightarrow> (flushableBatchIter \<times> bytes) option" where
  "fb_Value i =
     (let b = fi_batch i; d = fb_data b; corrupt = (i\<lparr>fi_err := Some ErrCorruptedBatch\<rparr>, []) in
      do {
        e \<leftarrow> go_index (fb_offsets b) (nat (fi_index i));
        p \<leftarrow> go_slice d (unat (fe_offset e)) (length d);
        (if p = [] then Some corrupt
         else if p ! 0 > InternalKeyKindMax then Some corrupt
         else if p ! 0 = InternalKeyKindSet then
           do {
             v \<leftarrow> go_slice d (unat (fe_keyEnd e)) (length d);
             (rest, val, ok) \<leftarrow> batchDecodeStr v;
             (if ok then Some (i, val) else Some corrupt)
           }
         else Some (i, []))
      })"

text \<open>How every positioning operation ends: the bound is checked against the key at the index, and
  an entry outside leaves the iterator at \<open>stop\<close>.\<close>

definition fb_show :: "flushableBatchIter \<Rightarrow> (bytes \<Rightarrow> bool) \<Rightarrow> int \<Rightarrow> (flushableBatchIter \<times> (InternalKey \<times> bytes) option) option" where
  "fb_show i outside stop =
     do {
       k \<leftarrow> fb_getKey (fi_batch i) (nat (fi_index i));
       let i = i\<lparr>fi_key := k\<rparr>;
       (if outside (UserKey k) then Some (i\<lparr>fi_index := stop\<rparr>, None)
        else do { (i, v) \<leftarrow> fb_Value i; Some (i, Some (fi_key i, v)) })
     }"

definition above_upper :: "(bytes \<Rightarrow> bytes \<Rightarrow> int) \<Rightarrow> bytes option \<Rightarrow> bytes \<Rightarrow> bool" where
  "above_upper cmp upper k = (case upper of None \<Rightarrow> False | Some u \<Rightarrow> 0 \<le> cmp k u)"

definition below_lower :: "(bytes \<Rightarrow> bytes \<Rightarrow> int) \<Rightarrow> bytes option \<Rightarrow> bytes \<Rightarrow> bool" where
  "below_lower cmp lower k = (case lower of None \<Rightarrow> False | Some l \<Rightarrow> cmp k l < 0)"

abbreviation "fb_n i \<equiv> int (length (fb_offsets (fi_batch i)))"

definition fb_search :: "(bytes \<Rightarrow> bytes \<Rightarrow> int) \<Rightarrow> flushableBatch \<Rightarrow> bytes \<Rightarrow> nat option" where
  "fb_search cmp b key =
     sort_Search (length (fb_offsets b))
       (\<lambda>j. map_option (\<lambda>k. InternalCompare cmp (MakeSearchKey key) k \<le> 0) (fb_getKey b j))"

definition fb_SeekGE :: "(bytes \<Rightarrow> bytes \<Rightarrow> int) \<Rightarrow> flushableBatchIter \<Rightarrow> bytes \<Rightarrow> (flushableBatchIter \<times> (InternalKey \<times> bytes) option) option" where
  "fb_SeekGE cmp i key =
     do {
       j \<leftarrow> fb_search cmp (fi_batch i) key;
       let i = i\<lparr>fi_err := None, fi_index := int j\<rparr>;
       (if fi_index i \<ge> fb_n i then Some (i, None) else fb_show i (above_upper cmp (fi_upper i)) (fb_n i))
     }"

definition fb_SeekLT :: "(bytes \<Rightarrow> bytes \<Rightarrow> int) \<Rightarrow> flushableBatchIter \<Rightarrow> bytes \<Rightarrow> (flushableBatchIter \<times> (InternalKey \<times> bytes) option) option" where
  "fb_SeekLT cmp i key =
     do {
       j \<leftarrow> fb_search cmp (fi_batch i) key;
       let i = i\<lparr>fi_err := None, fi_index := int j - 1\<rparr>;
       (if fi_index i < 0 then Some (i, None) else fb_show i (below_lower cmp (fi_lower i)) (-1))
     }"

definition fb_First :: "(bytes \<Rightarrow> bytes \<Rightarrow> int) \<Rightarrow> flushableBatchIter \<Rightarrow> (flushableBatchIter \<times> (InternalKey \<times> bytes) option) option" where
  "fb_First cmp i =
     (let i = i\<lparr>fi_err := None\<rparr> in
      if fb_n i = 0 then Some (i, None)
      else fb_show (i\<lparr>fi_index := 0\<rparr>) (above_upper cmp (fi_upper i)) (fb_n i))"

definition fb_Last :: "(bytes \<Rightarrow> bytes \<Rightarrow> int) \<Rightarrow> flushableBatchIter \<Rightarrow> (flushableBatchIter \<times> (InternalKey \<times> bytes) option) option" where
  "fb_Last cmp i =
     (let i = i\<lparr>fi_err := None\<rparr> in
      if fb_n i = 0 then Some (i, None)
      else fb_show (i\<lparr>fi_index := fb_n i - 1\<rparr>) (below_lower cmp (fi_lower i)) (-1))"

definition fb_Next :: "(bytes \<Rightarrow> bytes \<Rightarrow> int) \<Rightarrow> flushableBatchIter \<Rightarrow> (flushableBatchIter \<times> (InternalKey \<times> bytes) option) option" where
  "fb_Next cmp i =
     (if fi_index i = fb_n i then Some (i, None)
      else
        let i = i\<lparr>fi_index := fi_index i + 1\<rparr> in
        if fi_index i = fb_n i then Some (i, None)
        else fb_show i (above_upper cmp (fi_upper i)) (fb_n i))"

definition fb_Prev :: "(bytes \<Rightarrow> bytes \<Rightarrow> int) \<Rightarrow> flushableBatchIter \<Rightarrow> (flushableBatchIter \<times> (InternalKey \<times> bytes) option) option" where
  "fb_Prev cmp i =
     (if fi_index i < 0 then Some (i, None)
      else
        let i = i\<lparr>fi_index := fi_index i - 1\<rparr> in
        if fi_index i < 0 then Some (i, None)
        else fb_show i (below_lower cmp (fi_lower i)) (-1))"

definition fb_Valid :: "flushableBatchIter \<Rightarrow> bool" where
  "fb_Valid i \<longleftrightarrow> 0 \<le> fi_index i \<and> fi_index i < fb_n i"

definition fb_SetBounds :: "flushableBatchIter \<Rightarrow> bytes option \<Rightarrow> bytes option \<Rightarrow> flushableBatchIter" where
  "fb_SetBounds i lower upper = i\<lparr>fi_lower := lower, fi_upper := upper\<rparr>"

definition fb_get :: "(bytes \<Rightarrow> bytes \<Rightarrow> int) \<Rightarrow> flushableBatch \<Rightarrow> bytes \<Rightarrow> (bytes \<times> bool \<times> InternalKeyKind) option" where
  "fb_get cmp b key =
     do {
       (i, r) \<leftarrow> fb_SeekGE cmp (fb_newIter b None None) key;
       (case r of
          Some (ik, v) \<Rightarrow>
            if cmp (UserKey ik) key = 0 \<and> Kind ik = InternalKeyKindSet then Some (v, True, Kind ik)
            else Some ([], False, InternalKeyKindInvalid)
        | None \<Rightarrow> Some ([], False, InternalKeyKindInvalid))
     }"

section \<open>The flush iterator\<close>

record flushFlushableBatchIter =
  ff_iter :: flushableBatchIter
  ff_bytes :: u64

definition fb_newFlushIter :: "flushableBatch \<Rightarrow> u64 \<Rightarrow> flushFlushableBatchIter" where
  "fb_newFlushIter b flushed = \<lparr>ff_iter = fb_newIter b None None, ff_bytes = flushed\<rparr>"

definition ff_valueSize :: "flushableBatchIter \<Rightarrow> (flushableBatchIter \<times> u64) option" where
  "ff_valueSize i =
     (let b = fi_batch i; d = fb_data b; corrupt = (i\<lparr>fi_err := Some ErrCorruptedBatch\<rparr>, 0) in
      do {
        e \<leftarrow> go_index (fb_offsets b) (nat (fi_index i));
        p \<leftarrow> go_slice d (unat (fe_offset e)) (length d);
        (if p = [] then Some corrupt
         else if p ! 0 > InternalKeyKindMax then Some corrupt
         else if p ! 0 = InternalKeyKindSet then
           do {
             v \<leftarrow> go_slice d (unat (fe_keyEnd e)) (length d);
             (case Uvarint v 0 0 of (x, n) \<Rightarrow> if n \<le> 0 then Some corrupt else Some (i, x + of_int n))
           }
         else Some (i, 0))
      })"

definition ff_account :: "flushFlushableBatchIter \<Rightarrow> flushFlushableBatchIter option" where
  "ff_account f =
     do {
       e \<leftarrow> go_index (fb_offsets (fi_batch (ff_iter f))) (nat (fi_index (ff_iter f)));
       (i, n) \<leftarrow> ff_valueSize (ff_iter f);
       Some (f\<lparr>ff_iter := i, ff_bytes := ff_bytes f + (ucast (fe_keyEnd e - fe_offset e) + n)\<rparr>)
     }"

definition ff_First :: "(bytes \<Rightarrow> bytes \<Rightarrow> int) \<Rightarrow> flushFlushableBatchIter \<Rightarrow> (flushFlushableBatchIter \<times> (InternalKey \<times> bytes) option) option" where
  "ff_First cmp f =
     do {
       (i, r) \<leftarrow> fb_First cmp ((ff_iter f)\<lparr>fi_err := None\<rparr>);
       (case r of
          None \<Rightarrow> Some (f\<lparr>ff_iter := i\<rparr>, None)
        | Some kv \<Rightarrow> map_option (\<lambda>f. (f, Some kv)) (ff_account (f\<lparr>ff_iter := i\<rparr>)))
     }"

definition ff_Next :: "flushFlushableBatchIter \<Rightarrow> (flushFlushableBatchIter \<times> (InternalKey \<times> bytes) option) option" where
  "ff_Next f =
     (let i = ff_iter f in
      if fi_index i = fb_n i then Some (f, None)
      else
        let i = i\<lparr>fi_index := fi_index i + 1\<rparr> in
        if fi_index i = fb_n i then Some (f\<lparr>ff_iter := i\<rparr>, None)
        else
          do {
            k \<leftarrow> fb_getKey (fi_batch i) (nat (fi_index i));
            f \<leftarrow> ff_account (f\<lparr>ff_iter := i\<lparr>fi_key := k\<rparr>\<rparr>);
            (i, v) \<leftarrow> fb_Value (ff_iter f);
            Some (f\<lparr>ff_iter := i\<rparr>, Some (fi_key i, v))
          })"

section \<open>The index\<close>

text \<open>\<open>entry_at d e r\<close>: the index entry \<open>e\<close> locates the record \<open>r\<close> in the data \<open>d\<close>.\<close>

definition entry_at :: "bytes \<Rightarrow> flushableBatchEntry \<Rightarrow> batch_entry \<Rightarrow> bool" where
  "entry_at d e r \<longleftrightarrow>
     (case r of (kind, key, val) \<Rightarrow>
        unat (fe_offset e) < length d \<and> d ! unat (fe_offset e) = kind \<and> kind \<le> InternalKeyKindMax
        \<and> go_slice d (unat (fe_keyStart e)) (unat (fe_keyEnd e)) = Some key \<and> unat (fe_keyEnd e) \<le> length d
        \<and> (if kind = InternalKeyKindSet
           then (\<exists>rest. batchDecodeStr (drop (unat (fe_keyEnd e)) d) = Some (rest, val, True))
             \<and> 0 < snd (Uvarint (drop (unat (fe_keyEnd e)) d) 0 0) else val = []))"

text \<open>The lengths of the values, which the flush iterator adds up, are readable.\<close>

definition sizes_ok :: "flushableBatch \<Rightarrow> bool" where
  "sizes_ok b \<longleftrightarrow> (\<forall>e \<in> set (fb_offsets b). fb_data b ! unat (fe_offset e) \<le> InternalKeyKindMax
     \<and> (fb_data b ! unat (fe_offset e) = InternalKeyKindSet \<longrightarrow> 0 < snd (Uvarint (drop (unat (fe_keyEnd e)) (fb_data b)) 0 0)))"

definition entry_tail :: "batch_entry \<Rightarrow> bytes" where
  "entry_tail r = (case r of (kind, key, val) \<Rightarrow>
     if kind = InternalKeyKindSet then put_uvarint32 (of_nat (length val)) @ val else [])"

lemma entry_bytes_split:
  "entry_bytes (kind, key, val) = kind # put_uvarint32 (of_nat (length key)) @ key @ entry_tail (kind, key, val)"
  by (simp add: entry_bytes_def entry_tail_def kv_record_def key_record_def)

lemma put_uvarint32_0: "put_uvarint32 0 = [0]"
  by (subst put_uvarint32.simps) simp

lemma Uvarint_put: "i + length (put_uvarint32 x) \<le> 9 \<Longrightarrow> 0 < snd (Uvarint (put_uvarint32 x @ rest) i acc)"
proof (induction x arbitrary: i acc rule: put_uvarint32.induct)
  case (1 x)
  show ?case
  proof (cases "0x80 \<le> x")
    case True
    have e: "put_uvarint32 x = (ucast x OR 0x80) # put_uvarint32 (drop_bit 7 x)" using True by (subst put_uvarint32.simps) simp
    have "\<not> ((ucast x OR 0x80 :: byte) < 0x80)" by (metis or.commute le_word_or2 not_le)
    then show ?thesis using "1.IH" [OF True, of "Suc i"] "1.prems" unfolding e by simp
  next
    case False
    have e: "put_uvarint32 x = [ucast x]" using False by (subst put_uvarint32.simps) simp
    have "unat x < 128" using False by (simp add: word_le_nat_alt)
    then have "unat (ucast x :: byte) < 128" by (simp add: unsigned_ucast_eq unsigned_take_bit_eq take_bit_eq_mod)
    then have "(ucast x :: byte) < 0x80" by (simp add: word_less_nat_alt)
    then show ?thesis using "1.prems" unfolding e by simp
  qed
qed

text \<open>The entry that the scan makes for the record at the front.\<close>

lemma scan_entry:
  fixes pre rest :: bytes
  assumes "entry_valid (kind, key, val)" and "d = pre @ entry_bytes (kind, key, val) @ rest" and "length d < 2 ^ 32"
  shows "\<exists>e. entry_at d e (kind, key, val) \<and> unat (fe_offset e) = length pre \<and> fe_index e = n
    \<and> scan_offsets d (entry_bytes (kind, key, val) @ rest) n = map_option ((#) e) (scan_offsets d rest (n + 1))"
proof -
  let ?r = "(kind, key, val)"
  let ?vl = "put_uvarint32 (of_nat (length key))"
  let ?R = "entry_tail ?r @ rest"
  let ?ks = "length pre + 1 + length ?vl"
  have it: "entry_bytes ?r @ rest = kind # ?vl @ key @ ?R" by (simp add: entry_bytes_split)
  have lens: "length pre < 2 ^ 32" "length key < 2 ^ 32" "length key + length ?R < 2 ^ 32"
      "?ks + length key < 2 ^ 32" "?ks + length key + length ?R = length d"
    using assms(2,3) by (simp_all add: it)
  have off: "length d - length (entry_bytes ?r @ rest) = length pre" by (simp add: assms(2))
  have pos: "key_position d (entry_bytes ?r @ rest) = ?ks"
    using batchDecodeStr_uvarint [OF lens(3)] lens(5) by (simp add: key_position_def it)
  have nxt: "BatchReader_Next (entry_bytes ?r @ rest) = Some (rest, Some ?r)"
    using assms by (intro BatchReader_Next_entry) simp_all
  define e where "e = \<lparr>fe_offset = of_nat (length pre), fe_index = n, fe_keyStart = of_nat ?ks,
      fe_keyEnd = of_nat (?ks + length key) :: u32\<rparr>"
  have ne: "entry_bytes ?r @ rest \<noteq> []" by (simp add: it)
  have zero: "(of_nat (length key) :: u32) = 0 \<longleftrightarrow> key = []"
    using unat_eq_zero [of "of_nat (length key) :: u32"] unfolding unat32 [OF lens(2)] length_0_conv by simp
  have ks0: "of_nat (length pre) + 2 = (of_nat ?ks :: u32)" if "key = []"
    using that by (simp add: put_uvarint32_0)
  have ke: "of_nat ?ks + of_nat (length key) = (of_nat (?ks + length key) :: u32)" by simp
  define I where "I = entry_bytes ?r @ rest"
  note I = nxt [folded I_def] off [folded I_def] pos [folded I_def] ne [folded I_def]
  have scan: "scan_offsets d I n = map_option ((#) e) (scan_offsets d rest (n + 1))"
  proof (cases "key = []")
    case True
    have "\<lparr>fe_offset = of_nat (length pre), fe_index = n, fe_keyStart = of_nat (length pre) + 2,
        fe_keyEnd = of_nat (length pre) + 2 :: u32\<rparr> = e"
      using ks0 [OF True] True by (simp only: e_def) simp
    then show ?thesis
      using True by (subst scan_offsets.simps) (simp add: I Let_def)
  next
    case False
    then show ?thesis
      using zero by (subst scan_offsets.simps) (simp add: I e_def Let_def add.assoc)
  qed
  have u: "unat (fe_offset e) = length pre" "unat (fe_keyStart e) = ?ks" "unat (fe_keyEnd e) = ?ks + length key"
    using lens(1,4) by (simp_all add: e_def unat32 del: of_nat_add of_nat_Suc)
  have d: "d = (pre @ kind # ?vl) @ key @ ?R" using assms(2) by (simp add: it)
  have "go_slice d ?ks (?ks + length key) = Some key"
    unfolding d by (rule go_slice_append) simp_all
  moreover have "d ! length pre = kind" by (simp add: d)
  moreover have "batchDecodeStr (drop (?ks + length key) d) = Some (rest, val, True) \<and> 0 < snd (Uvarint (drop (?ks + length key) d) 0 0)" if "kind = 1"
  proof -
    have "drop (?ks + length key) d = put_uvarint32 (of_nat (length val)) @ val @ rest"
      using that by (simp add: d entry_tail_def)
    moreover have "length val + length rest < 2 ^ 32" using lens(3) that by (simp add: entry_tail_def)
    ultimately show ?thesis
      using batchDecodeStr_uvarint Uvarint_put [of 0 "of_nat (length val)" "val @ rest" 0] length_put_uvarint32 [of "of_nat (length val)"] by simp
  qed
  ultimately have "entry_at d e ?r"
    using assms(1) lens(5) unfolding entry_at_def by (auto simp: u entry_valid_def d)
  then show ?thesis using u(1) scan [unfolded I_def] by (intro exI [of _ e]) (simp add: e_def)
qed

text \<open>The scan of a whole batch.\<close>

definition indexed :: "bytes \<Rightarrow> nat \<Rightarrow> u32 \<Rightarrow> flushableBatchEntry list \<Rightarrow> batch_entry list \<Rightarrow> bool" where
  "indexed d start n offs es \<longleftrightarrow>
     length offs = length es
     \<and> (\<forall>i < length es. entry_at d (offs ! i) (es ! i) \<and> fe_index (offs ! i) = n + of_nat i)
     \<and> (\<forall>i < length es. start \<le> unat (fe_offset (offs ! i)))
     \<and> sorted_wrt (\<lambda>a b. unat (fe_offset a) < unat (fe_offset b)) offs"

lemma scan_indexed:
  assumes "\<forall>r \<in> set es. entry_valid r" and "d = pre @ concat (map entry_bytes es)" and "length d < 2 ^ 32"
  shows "\<exists>offs. scan_offsets d (concat (map entry_bytes es)) n = Some offs \<and> indexed d (length pre) n offs es"
  using assms
proof (induction es arbitrary: pre n)
  case Nil
  then show ?case by (simp add: scan_offsets.simps indexed_def)
next
  case (Cons r es)
  obtain kind key val where r: "r = (kind, key, val)" by (cases r) auto
  have d: "d = pre @ entry_bytes (kind, key, val) @ concat (map entry_bytes es)"
    and d': "d = (pre @ entry_bytes r) @ concat (map entry_bytes es)" using Cons.prems(2) by (simp_all add: r)
  from scan_entry [OF _ d Cons.prems(3), of n] Cons.prems(1) obtain e where
    e: "entry_at d e r" "unat (fe_offset e) = length pre" "fe_index e = n"
      "scan_offsets d (entry_bytes r @ concat (map entry_bytes es)) n
        = map_option ((#) e) (scan_offsets d (concat (map entry_bytes es)) (n + 1))" by (auto simp: r)
  from Cons.IH [OF _ d' Cons.prems(3), of "n + 1"] Cons.prems(1) obtain offs where
    offs: "scan_offsets d (concat (map entry_bytes es)) (n + 1) = Some offs"
      "indexed d (length (pre @ entry_bytes r)) (n + 1) offs es" by auto
  have "length pre < length (pre @ entry_bytes r)" by (simp add: r entry_bytes_split)
  then have later: "\<forall>e' \<in> set offs. length pre < unat (fe_offset e')"
    using offs(2) unfolding indexed_def by (metis in_set_conv_nth less_le_trans)
  have "indexed d (length pre) n (e # offs) (r # es)"
    unfolding indexed_def
  proof (intro conjI allI impI)
    show "length (e # offs) = length (r # es)" using offs(2) by (simp add: indexed_def)
    show "sorted_wrt (\<lambda>a b. unat (fe_offset a) < unat (fe_offset b)) (e # offs)"
      using offs(2) later e(2) by (simp add: indexed_def)
    fix i assume i: "i < length (r # es)"
    show "entry_at d ((e # offs) ! i) ((r # es) ! i)"
      using i e(1) offs(2) by (cases i) (simp_all add: indexed_def)
    show "fe_index ((e # offs) ! i) = n + of_nat i"
      using i e(3) offs(2) by (cases i) (simp_all add: indexed_def)
    show "length pre \<le> unat (fe_offset ((e # offs) ! i))"
      using i e(2) later offs(2) by (cases i) (auto simp: indexed_def less_imp_le)
  qed
  then show ?case using e(4) offs(1) by simp
qed

section \<open>The contents of a flushable batch\<close>

text \<open>What the iterator shows at an index, and at all of them; \<open>None\<close> if one is corrupt.\<close>

definition fb_entry :: "flushableBatch \<Rightarrow> nat \<Rightarrow> (InternalKey \<times> bytes) option" where
  "fb_entry b i =
     do {
       k \<leftarrow> fb_getKey b i;
       (it, v) \<leftarrow> fb_Value ((fb_newIter b None None)\<lparr>fi_index := int i\<rparr>);
       (if fi_err it = None then Some (k, v) else None)
     }"

definition fb_view :: "flushableBatch \<Rightarrow> (InternalKey \<times> bytes) list option" where
  "fb_view b = those (map (fb_entry b) [0..<length (fb_offsets b)])"

text \<open>What a batch with the first sequence number \<open>seq\<close> and the records \<open>es\<close> means: the record number
  \<open>i\<close> writes its key at \<open>seq + i\<close>.\<close>

definition record_key :: "u64 \<Rightarrow> nat \<Rightarrow> batch_entry \<Rightarrow> InternalKey \<times> bytes" where
  "record_key seq i r = (case r of (kind, key, val) \<Rightarrow> (MakeInternalKey key (seq + of_nat i) kind, val))"

definition batch_keys :: "u64 \<Rightarrow> batch_entry list \<Rightarrow> (InternalKey \<times> bytes) list" where
  "batch_keys seq es = map (\<lambda>i. record_key seq i (es ! i)) [0..<length es]"

lemma those_Some: "those xs = Some ys \<longleftrightarrow> xs = map Some ys"
  by (induction xs arbitrary: ys) (auto split: option.splits)

lemma fb_view_iff:
  "fb_view b = Some vs \<longleftrightarrow> length vs = length (fb_offsets b) \<and> (\<forall>i < length vs. fb_entry b i = Some (vs ! i))"
proof -
  have "map (fb_entry b) [0..<n] = map Some vs \<longleftrightarrow> length vs = n \<and> (\<forall>i < n. fb_entry b i = Some (vs ! i))" for n
    by (cases "length vs = n") (auto simp: list_eq_iff_nth_eq dest: map_eq_imp_length_eq)
  from this [of "length (fb_offsets b)"] show ?thesis unfolding fb_view_def those_Some by (metis (no_types, lifting))
qed

lemma unat_seq:
  assumes "unat seq + i < 2 ^ 56" shows "unat (seq + of_nat i :: u64) = unat seq + i"
  using assms by (simp add: unat_word_ariths unat_of_nat)

lemma Trailer_record_key:
  assumes "unat seq + i < 2 ^ 56"
  shows "unat (Trailer (fst (record_key seq i (kind, key, val)))) = 256 * (unat seq + i) + unat kind"
proof -
  have "seq + of_nat i \<le> InternalKeySeqNumMax"
    using assms unat_seq [OF assms] by (simp add: word_le_nat_alt InternalKeySeqNumMax_def)
  then show ?thesis
    using trailer_div_mod [of "MakeInternalKey key (seq + of_nat i) kind"] unat_seq [OF assms]
    by (simp add: record_key_def SeqNum_MakeInternalKey seqNum_fits)
qed

text \<open>The entries of the index, with the records they stand for.\<close>

lemma indexed_entries:
  assumes "indexed d start 0 offs es" and "length es < 2 ^ 32"
  shows "\<forall>i < length es. unat (fe_index (offs ! i)) = i"
    and "e \<in> set offs \<Longrightarrow> unat (fe_index e) < length es \<and> offs ! unat (fe_index e) = e
      \<and> entry_at d e (es ! unat (fe_index e))"
    and "e \<in> set offs \<Longrightarrow> e' \<in> set offs \<Longrightarrow> fe_offset e < fe_offset e' \<longleftrightarrow> unat (fe_index e) < unat (fe_index e')"
proof -
  show idx: "\<forall>i < length es. unat (fe_index (offs ! i)) = i"
    using assms by (auto simp: indexed_def unat_of_nat)
  have ent: "unat (fe_index e) < length es \<and> offs ! unat (fe_index e) = e \<and> entry_at d e (es ! unat (fe_index e))"
    if e: "e \<in> set offs" for e
  proof -
    obtain i where "i < length offs" "e = offs ! i" using e by (metis in_set_conv_nth)
    with idx assms(1) show ?thesis by (simp add: indexed_def)
  qed
  then show "e \<in> set offs \<Longrightarrow> unat (fe_index e) < length es \<and> offs ! unat (fe_index e) = e
      \<and> entry_at d e (es ! unat (fe_index e))" .
  have mono: "unat (fe_offset (offs ! i)) < unat (fe_offset (offs ! j))" if "i < j" "j < length es" for i j
    using that assms(1) by (auto simp: indexed_def sorted_wrt_iff_nth_less)
  assume e: "e \<in> set offs" "e' \<in> set offs"
  let ?i = "unat (fe_index e)" and ?j = "unat (fe_index e')"
  have "?i < ?j \<or> ?i = ?j \<or> ?j < ?i" by linarith
  then show "fe_offset e < fe_offset e' \<longleftrightarrow> ?i < ?j"
    using mono [of ?i ?j] mono [of ?j ?i] ent [OF e(1)] ent [OF e(2)] unfolding word_less_nat_alt
    by (metis less_not_sym nat_neq_iff)
qed

definition index_key :: "u64 \<Rightarrow> batch_entry list \<Rightarrow> flushableBatchEntry \<Rightarrow> InternalKey \<times> bytes" where
  "index_key seq es e = record_key seq (unat (fe_index e)) (es ! unat (fe_index e))"

lemma fb_entry_index:
  assumes "entry_at (fb_data b) (fb_offsets b ! i) (es ! unat (fe_index (fb_offsets b ! i)))" and "i < length (fb_offsets b)"
  shows "fb_entry b i = Some (index_key (fb_seqNum b) es (fb_offsets b ! i))"
    and "fi_batch it = b \<Longrightarrow> fi_index it = int i \<Longrightarrow>
      fb_getKey b i = Some (fst (index_key (fb_seqNum b) es (fb_offsets b ! i)))
      \<and> fb_Value it = Some (it, snd (index_key (fb_seqNum b) es (fb_offsets b ! i)))"
proof -
  let ?e = "fb_offsets b ! i"
  obtain kind key val where r: "es ! unat (fe_index ?e) = (kind, key, val)" by (cases "es ! unat (fe_index ?e)") auto
  have uc: "ucast (fe_index ?e) = (of_nat (unat (fe_index ?e)) :: u64)" by simp
  have key: "fb_getKey b i = Some (fst (index_key (fb_seqNum b) es ?e))"
    using assms by (simp add: fb_getKey_def entry_at_def r go_index_def index_key_def record_key_def)
  have v: "fb_Value it = Some (it, snd (index_key (fb_seqNum b) es ?e))" if "fi_batch it = b" "fi_index it = int i" for it
    using assms that
    by (auto simp: fb_Value_def entry_at_def r go_index_def go_slice_def index_key_def record_key_def Let_def)
  show "fb_entry b i = Some (index_key (fb_seqNum b) es ?e)"
    using key v [of "(fb_newIter b None None)\<lparr>fi_index := int i\<rparr>"] by (simp add: fb_entry_def fb_newIter_def)
  show "fi_batch it = b \<Longrightarrow> fi_index it = int i \<Longrightarrow>
      fb_getKey b i = Some (fst (index_key (fb_seqNum b) es ?e))
      \<and> fb_Value it = Some (it, snd (index_key (fb_seqNum b) es ?e))"
    using key v by simp
qed

lemma fb_view_at:
  assumes "fb_view b = Some vs" and "i < length vs" and "fi_batch it = b" and "fi_index it = int i"
  shows "fb_getKey b i = Some (fst (vs ! i))" and "fb_Value it = Some (it, snd (vs ! i))"
proof -
  let ?it = "(fb_newIter b None None)\<lparr>fi_index := int i\<rparr>"
  have e: "fb_entry b i = Some (vs ! i)" using assms(1,2) by (simp add: fb_view_iff)
  obtain k v where kv: "vs ! i = (k, v)" by fastforce
  from e obtain it' where it': "fb_Value ?it = Some (it', snd (vs ! i))" "fi_err it' = None"
    by (auto simp: fb_entry_def kv split: Option.bind_splits if_splits)
  from e show "fb_getKey b i = Some (fst (vs ! i))" by (auto simp: fb_entry_def kv split: Option.bind_splits if_splits)
  have fields: "fi_batch ?it = b" "fi_index ?it = int i" by (simp_all add: fb_newIter_def)
  from it' show "fb_Value it = Some (it, snd (vs ! i))"
    unfolding fb_Value_def fields assms(3,4) Let_def
    by (auto split: Option.bind_splits if_splits prod.splits)
qed

context total_cmp
begin

text \<open>\<^verbatim>\<open>Less\<close> is the order of the internal keys.\<close>

lemma fb_Less_order:
  assumes "indexed d start 0 offs es" and "length es < 2 ^ 32" and "unat seq + length es \<le> 2 ^ 56"
    and "e \<in> set offs" and "e' \<in> set offs"
  shows "fb_Less cmp d e e' \<longleftrightarrow> InternalCompare cmp (fst (index_key seq es e)) (fst (index_key seq es e')) < 0"
proof -
  note idx = indexed_entries [OF assms(1,2)]
  let ?i = "unat (fe_index e)" and ?j = "unat (fe_index e')"
  obtain kind key val kind' key' val' where r: "es ! ?i = (kind, key, val)" "es ! ?j = (kind', key', val')"
    by (metis prod_cases3)
  note f = idx(2) [OF assms(4)] idx(2) [OF assms(5)]
  have k: "entry_key d e = key" "entry_key d e' = key'"
    using f r by (auto simp: entry_at_def entry_key_def go_slice_def split: if_splits)
  have b: "unat seq + ?i < 2 ^ 56" "unat seq + ?j < 2 ^ 56" using f assms(3) by linarith+
  have "unat kind < 256" "unat kind' < 256" using unsigned_less [of kind] unsigned_less [of kind'] by simp_all
  moreover have "kind = kind'" if "?i = ?j" using r that by simp
  ultimately have "Trailer (fst (index_key seq es e')) < Trailer (fst (index_key seq es e)) \<longleftrightarrow> ?j < ?i"
    unfolding index_key_def r word_less_nat_alt Trailer_record_key [OF b(1)] Trailer_record_key [OF b(2)]
    by (cases ?i ?j rule: linorder_cases) auto
  then show ?thesis
    using idx(3) [OF assms(5,4)] k r cmp_refl cmp_sym [of key key']
    by (auto simp: fb_Less_def Let_def InternalCompare_neg index_key_def record_key_def)
qed

lemma sort_entries:
  assumes "indexed d start 0 offs es" and "length es < 2 ^ 32" and "unat seq + length es \<le> 2 ^ 56"
  shows "sorted_wrt (\<lambda>x y. InternalCompare cmp (fst x) (fst y) < 0) (map (index_key seq es) (sort_Sort (fb_Less cmp d) offs))"
    and "mset (map (index_key seq es) (sort_Sort (fb_Less cmp d) offs)) = mset (batch_keys seq es)"
proof -
  note idx = indexed_entries [OF assms(1,2)] and less = fb_Less_order [OF assms]
  have len: "length offs = length es" using assms(1) by (simp add: indexed_def)
  have dist: "distinct offs" using idx(1) len by (metis distinct_conv_nth)
  have ord: "strict_order_on (fb_Less cmp d) (set offs)"
  proof
    fix a b c assume "a \<in> set offs" "b \<in> set offs" "c \<in> set offs" "fb_Less cmp d a b" "fb_Less cmp d b c"
    then show "fb_Less cmp d a c" using less InternalCompare_trans by meson
  next
    fix a b assume ab: "a \<in> set offs" "b \<in> set offs" "a \<noteq> b"
    then have i: "unat (fe_index a) \<noteq> unat (fe_index b)" using idx(2) by metis
    show "fb_Less cmp d a b \<or> fb_Less cmp d b a"
    proof (rule ccontr)
      assume "\<not> ?thesis"
      then have "entry_key d a = entry_key d b" "\<not> fe_offset a < fe_offset b" "\<not> fe_offset b < fe_offset a"
        using cmp_sym [of "entry_key d a" "entry_key d b"] cmp_refl by (auto simp: fb_Less_def Let_def split: if_splits)
      with i idx(3) [OF ab(1,2)] idx(3) [OF ab(2,1)] show False by linarith
    qed
  qed
  have "sorted_wrt (fb_Less cmp d) (sort_Sort (fb_Less cmp d) offs)"
    using strict_order_on.sort_Sort_sorted [OF ord] dist by simp
  then show "sorted_wrt (\<lambda>x y. InternalCompare cmp (fst x) (fst y) < 0) (map (index_key seq es) (sort_Sort (fb_Less cmp d) offs))"
    unfolding sorted_wrt_map by (rule sorted_wrt_mono_rel [rotated]) (simp add: less)
  have "map (index_key seq es) offs = batch_keys seq es"
    using idx(1) len by (intro nth_equalityI) (simp_all add: batch_keys_def index_key_def)
  then show "mset (map (index_key seq es) (sort_Sort (fb_Less cmp d) offs)) = mset (batch_keys seq es)"
    by (metis mset_map mset_sort_Sort)
qed

text \<open>A flushable batch holds the records of its batch, sorted by internal key.\<close>

lemma newFlushableBatch_view:
  assumes "b_data b = hdr @ concat (map entry_bytes es)" and "length hdr = batchHeaderLen"
    and "length (b_data b) < 2 ^ 32" and "\<forall>r \<in> set es. entry_valid r"
    and "unat (le_dec (take 8 hdr) :: u64) + length es \<le> 2 ^ 56"
  shows "\<exists>fb vs. newFlushableBatch cmp b = Some fb \<and> fb_data fb = b_data b \<and> fb_seqNum fb = le_dec (take 8 hdr)
    \<and> fb_view fb = Some vs \<and> sorted_wrt (\<lambda>x y. InternalCompare cmp (fst x) (fst y) < 0) vs
    \<and> mset vs = mset (batch_keys (le_dec (take 8 hdr)) es) \<and> sizes_ok fb"
proof -
  let ?d = "b_data b" and ?seq = "le_dec (take 8 hdr) :: u64"
  obtain offs where offs: "scan_offsets ?d (concat (map entry_bytes es)) 0 = Some offs"
      "indexed ?d (length hdr) 0 offs es"
    using scan_indexed [OF assms(4,1,3), of 0] by blast
  have "length es \<le> length (concat (map entry_bytes es))"
  proof (induction es)
    case (Cons r es)
    then show ?case by (cases r) (simp add: entry_bytes_split)
  qed simp
  then have les: "length es < 2 ^ 32" using assms(1,3) by simp
  define fb where "fb = \<lparr>fb_data = ?d, fb_cap = b_cap b, fb_seqNum = ?seq, fb_offsets = sort_Sort (fb_Less cmp ?d) offs\<rparr>"
  have sc: "(if batchHeaderLen < length ?d then scan_offsets ?d (drop batchHeaderLen ?d) 0 else Some []) = Some offs"
  proof (cases "concat (map entry_bytes es) = []")
    case True
    then have "offs = []" using offs(1) by (simp add: scan_offsets.simps)
    then show ?thesis using True assms(1,2) by simp
  next
    case False
    then have "batchHeaderLen < length ?d" using assms(1,2) by simp
    moreover have "drop batchHeaderLen ?d = concat (map entry_bytes es)" using assms(1,2) by simp
    ultimately show ?thesis using offs(1) by simp
  qed
  have ne: "?d \<noteq> []" using assms(1,2) by auto
  have "batch_SeqNum b = Some (b, ?seq)"
    using assms(1,2) by (simp add: batch_SeqNum_def go_slice_def)
  then have new: "newFlushableBatch cmp b = Some fb"
    unfolding newFlushableBatch_def sc by (simp add: ne fb_def)
  let ?vs = "map (index_key ?seq es) (fb_offsets fb)"
  have "fb_view fb = Some ?vs"
    unfolding fb_view_iff
  proof (intro conjI allI impI)
    fix i assume "i < length ?vs"
    then have i: "i < length (fb_offsets fb)" by simp
    then have "fb_offsets fb ! i \<in> set offs" using nth_mem [OF i] by (simp add: fb_def)
    from indexed_entries(2) [OF offs(2) les this] fb_entry_index(1) [of fb i es] i
    show "fb_entry fb i = Some (?vs ! i)" by (simp add: fb_def)
  qed simp
  moreover have "sizes_ok fb"
    unfolding sizes_ok_def
  proof (rule ballI)
    fix e assume "e \<in> set (fb_offsets fb)"
    then have "e \<in> set offs" by (simp add: fb_def)
    from indexed_entries(2) [OF offs(2) les this] have "entry_at ?d e (es ! unat (fe_index e))" by blast
    then show "fb_data fb ! unat (fe_offset e) \<le> InternalKeyKindMax
        \<and> (fb_data fb ! unat (fe_offset e) = InternalKeyKindSet \<longrightarrow> 0 < snd (Uvarint (drop (unat (fe_keyEnd e)) (fb_data fb)) 0 0))"
      by (auto simp: entry_at_def fb_def split: prod.splits)
  qed
  moreover note sort_entries [OF offs(2) les assms(5)]
  ultimately show ?thesis using new by (intro exI [of _ fb] exI [of _ ?vs]) (simp add: fb_def)
qed

end

section \<open>The iterator over the contents\<close>

lemma fb_show_at:
  assumes "fb_view (fi_batch it) = Some vs" and "fi_index it = int i" and "i < length vs"
  shows "fb_show it outside stop =
    Some (if outside (UserKey (fst (vs ! i))) then (it\<lparr>fi_key := fst (vs ! i), fi_index := stop\<rparr>, None)
          else (it\<lparr>fi_key := fst (vs ! i)\<rparr>, Some (vs ! i)))"
  using fb_view_at(1) [OF assms(1,3), of it] fb_view_at(2) [OF assms(1,3), of "it\<lparr>fi_key := fst (vs ! i)\<rparr>"] assms(2)
  by (simp add: fb_show_def Let_def)

lemma fb_view_length: "fb_view b = Some vs \<Longrightarrow> length (fb_offsets b) = length vs"
  by (simp add: fb_view_iff)

lemmas fb_iter_defs = fb_First_def fb_Next_def fb_Last_def fb_Prev_def fb_SeekGE_def fb_SeekLT_def

definition fb_entries :: "flushableBatchIter \<Rightarrow> (InternalKey \<times> bytes) list" where
  "fb_entries it = the (fb_view (fi_batch it))"

interpretation fb: forward_iter "fb_First cmp" "fb_Next cmp" fb_entries
    "\<lambda>it e. \<not> above_upper cmp (fi_upper it) (UserKey (fst e))" "\<lambda>it. fb_view (fi_batch it) \<noteq> None"
    "\<lambda>it i. fb_view (fi_batch it) \<noteq> None \<and> fi_index it = int i \<and> i < length (fb_entries it)" for cmp
proof unfold_locales
  fix s :: flushableBatchIter and i :: nat
  {
    assume v: "fb_view (fi_batch s) \<noteq> None"
    then obtain vs where vs: "fb_view (fi_batch s) = Some vs" by blast
    note len = fb_view_length [OF vs]
    let ?s = "s\<lparr>fi_err := None, fi_index := 0\<rparr>"
    have first: "fb_First cmp s = fb_show ?s (above_upper cmp (fi_upper s)) (fb_n s)" if "vs \<noteq> []"
      using that len by (auto simp: fb_First_def Let_def)
    {
      assume "fb_entries s \<noteq> []" and "\<not> above_upper cmp (fi_upper s) (UserKey (fst (fb_entries s ! 0)))"
      then show "\<exists>s'. fb_First cmp s = Some (s', Some (fb_entries s ! 0))
          \<and> (fb_view (fi_batch s') \<noteq> None \<and> fi_index s' = int 0 \<and> 0 < length (fb_entries s'))
          \<and> fb_entries s' = fb_entries s
          \<and> (\<lambda>e. \<not> above_upper cmp (fi_upper s') (UserKey (fst e))) = (\<lambda>e. \<not> above_upper cmp (fi_upper s) (UserKey (fst e)))"
        using first fb_show_at [of ?s vs 0] vs by (simp add: fb_entries_def)
    next
      assume "fb_entries s = [] \<or> \<not> \<not> above_upper cmp (fi_upper s) (UserKey (fst (fb_entries s ! 0)))"
      then show "\<exists>s'. fb_First cmp s = Some (s', None)"
        using first fb_show_at [of ?s vs 0] vs len
        by (cases "vs = []") (simp_all add: fb_entries_def fb_First_def)
    }
  }
  {
    assume a: "fb_view (fi_batch s) \<noteq> None \<and> fi_index s = int i \<and> i < length (fb_entries s)"
    then obtain vs where vs: "fb_view (fi_batch s) = Some vs" by blast
    note len = fb_view_length [OF vs]
    let ?s = "s\<lparr>fi_index := int (Suc i)\<rparr>"
    have i: "i < length vs" using a vs by (simp add: fb_entries_def)
    have nxt: "fb_Next cmp s = (if Suc i = length vs then Some (?s, None)
        else fb_show ?s (above_upper cmp (fi_upper s)) (fb_n s))"
      using a i len by (auto simp: fb_Next_def Let_def ac_simps)
    {
      assume "Suc i < length (fb_entries s)" and "\<not> above_upper cmp (fi_upper s) (UserKey (fst (fb_entries s ! Suc i)))"
      then show "\<exists>s'. fb_Next cmp s = Some (s', Some (fb_entries s ! Suc i))
          \<and> (fb_view (fi_batch s') \<noteq> None \<and> fi_index s' = int (Suc i) \<and> Suc i < length (fb_entries s'))
          \<and> fb_entries s' = fb_entries s
          \<and> (\<lambda>e. \<not> above_upper cmp (fi_upper s') (UserKey (fst e))) = (\<lambda>e. \<not> above_upper cmp (fi_upper s) (UserKey (fst e)))"
        unfolding nxt using fb_show_at [of ?s vs "Suc i"] vs by (simp add: fb_entries_def)
    next
      assume "Suc i = length (fb_entries s) \<or> (Suc i < length (fb_entries s)
          \<and> \<not> \<not> above_upper cmp (fi_upper s) (UserKey (fst (fb_entries s ! Suc i))))"
      then show "\<exists>s'. fb_Next cmp s = Some (s', None)"
        unfolding nxt using fb_show_at [of ?s vs "Suc i"] vs by (auto simp: fb_entries_def)
    }
  }
qed

text \<open>The flush iterator ignores bounds and keeps its account of bytes on the side.\<close>

lemma fb_view_slices:
  assumes "fb_view b = Some vs" and "i < length vs"
  obtains e p where "go_index (fb_offsets b) i = Some e"
    "go_slice (fb_data b) (unat (fe_offset e)) (length (fb_data b)) = Some p"
    "p \<noteq> []" "p ! 0 = InternalKeyKindSet \<Longrightarrow> \<exists>v. go_slice (fb_data b) (unat (fe_keyEnd e)) (length (fb_data b)) = Some v"
proof -
  let ?it = "(fb_newIter b None None)\<lparr>fi_index := int i\<rparr>"
  have "fi_batch ?it = b" "fi_index ?it = int i" by (simp_all add: fb_newIter_def)
  moreover from this have "fb_Value ?it = Some (?it, snd (vs ! i))" using fb_view_at(2) [OF assms] by simp
  moreover have "fi_err ?it = None" by (simp add: fb_newIter_def)
  ultimately show ?thesis using that
    by (auto simp: fb_Value_def fb_newIter_def Let_def split: Option.bind_splits if_splits)
qed

lemma ff_account_ok:
  assumes "fb_view (fi_batch (ff_iter f)) = Some vs" and "fi_index (ff_iter f) = int i" and "i < length vs"
  shows "\<exists>err n. ff_account f = Some (f\<lparr>ff_iter := (ff_iter f)\<lparr>fi_err := err\<rparr>, ff_bytes := n\<rparr>)"
proof -
  obtain e p where e: "go_index (fb_offsets (fi_batch (ff_iter f))) i = Some e"
      "go_slice (fb_data (fi_batch (ff_iter f))) (unat (fe_offset e)) (length (fb_data (fi_batch (ff_iter f)))) = Some p"
      "p \<noteq> []" "p ! 0 = InternalKeyKindSet \<Longrightarrow>
        \<exists>v. go_slice (fb_data (fi_batch (ff_iter f))) (unat (fe_keyEnd e)) (length (fb_data (fi_batch (ff_iter f)))) = Some v"
    using fb_view_slices [OF assms(1,3)] by blast
  have same: "ff_iter f = (ff_iter f)\<lparr>fi_err := fi_err (ff_iter f)\<rparr>" by simp
  have "\<exists>n. ff_valueSize (ff_iter f) = Some (ff_iter f, n)
      \<or> ff_valueSize (ff_iter f) = Some ((ff_iter f)\<lparr>fi_err := Some ErrCorruptedBatch\<rparr>, n)"
    using e assms(2) by (cases "p ! 0 = 1") (auto simp: ff_valueSize_def Let_def split: prod.splits)
  then have "\<exists>err n. ff_valueSize (ff_iter f) = Some ((ff_iter f)\<lparr>fi_err := err\<rparr>, n)"
    using same by metis
  then obtain err n where "ff_valueSize (ff_iter f) = Some ((ff_iter f)\<lparr>fi_err := err\<rparr>, n)" by blast
  then have "ff_account f = Some (f\<lparr>ff_iter := (ff_iter f)\<lparr>fi_err := err\<rparr>,
      ff_bytes := ff_bytes f + (ucast (fe_keyEnd e - fe_offset e) + n)\<rparr>)"
    using e(1) assms(2) by (simp add: ff_account_def)
  then show ?thesis by blast
qed

interpretation ff: forward_iter "ff_First cmp" ff_Next "\<lambda>f. fb_entries (ff_iter f)" "\<lambda>f e. True"
    "\<lambda>f. fb_view (fi_batch (ff_iter f)) \<noteq> None \<and> fi_upper (ff_iter f) = None"
    "\<lambda>f i. fb_view (fi_batch (ff_iter f)) \<noteq> None \<and> fi_index (ff_iter f) = int i \<and> i < length (fb_entries (ff_iter f))" for cmp
proof unfold_locales
  fix s :: flushFlushableBatchIter and i :: nat
  {
    assume v: "fb_view (fi_batch (ff_iter s)) \<noteq> None \<and> fi_upper (ff_iter s) = None"
    let ?it = "(ff_iter s)\<lparr>fi_err := None\<rparr>"
    have v': "fb_view (fi_batch ?it) \<noteq> None" "fb_entries ?it = fb_entries (ff_iter s)" "\<not> above_upper cmp (fi_upper ?it) k" for k
      using v by (simp_all add: fb_entries_def above_upper_def)
    {
      assume ne: "fb_entries (ff_iter s) \<noteq> []"
      obtain it where it: "fb_First cmp ?it = Some (it, Some (fb_entries (ff_iter s) ! 0))"
          "fb_view (fi_batch it) \<noteq> None" "fi_index it = int 0" "0 < length (fb_entries it)" "fb_entries it = fb_entries (ff_iter s)"
        using fb.first_some [OF v'(1), of cmp] v' ne by metis
      let ?f = "s\<lparr>ff_iter := it\<rparr>"
      obtain err n where "ff_account ?f = Some (?f\<lparr>ff_iter := it\<lparr>fi_err := err\<rparr>, ff_bytes := n\<rparr>)"
        using ff_account_ok [of ?f "fb_entries it" 0] it(2-4) by (auto simp: fb_entries_def)
      with it show "\<exists>s'. ff_First cmp s = Some (s', Some (fb_entries (ff_iter s) ! 0))
          \<and> (fb_view (fi_batch (ff_iter s')) \<noteq> None \<and> fi_index (ff_iter s') = int 0 \<and> 0 < length (fb_entries (ff_iter s')))
          \<and> fb_entries (ff_iter s') = fb_entries (ff_iter s) \<and> (\<lambda>e. True) = (\<lambda>e. True)"
        by (simp add: ff_First_def fb_entries_def)
    next
      assume "fb_entries (ff_iter s) = [] \<or> \<not> True"
      then show "\<exists>s'. ff_First cmp s = Some (s', None)"
        using fb.first_none [OF v'(1), of cmp] v'(2) by (auto simp: ff_First_def)
    }
  }
  {
    assume a: "fb_view (fi_batch (ff_iter s)) \<noteq> None \<and> fi_index (ff_iter s) = int i \<and> i < length (fb_entries (ff_iter s))"
    then obtain vs where vs: "fb_view (fi_batch (ff_iter s)) = Some vs" by blast
    note len = fb_view_length [OF vs]
    have ent: "fb_entries (ff_iter s) = vs" by (simp add: fb_entries_def vs)
    {
      assume "Suc i < length (fb_entries (ff_iter s))"
      then have i: "Suc i < length vs" by (simp add: ent)
      define it where "it = (ff_iter s)\<lparr>fi_index := int (Suc i), fi_key := fst (vs ! Suc i)\<rparr>"
      have it: "fb_view (fi_batch it) = Some vs" "fi_index it = int (Suc i)" "fi_batch it = fi_batch (ff_iter s)"
          "fi_key it = fst (vs ! Suc i)"
        by (simp_all add: it_def vs)
      obtain err n where acc: "ff_account (s\<lparr>ff_iter := it\<rparr>) = Some (s\<lparr>ff_iter := it\<lparr>fi_err := err\<rparr>, ff_bytes := n\<rparr>)"
        using ff_account_ok [of "s\<lparr>ff_iter := it\<rparr>" vs "Suc i"] it i by auto
      have "fb_getKey (fi_batch (ff_iter s)) (Suc i) = Some (fst (vs ! Suc i))"
          "fb_Value (it\<lparr>fi_err := err\<rparr>) = Some (it\<lparr>fi_err := err\<rparr>, snd (vs ! Suc i))"
        using fb_view_at [OF vs i, of "it\<lparr>fi_err := err\<rparr>"] it by simp_all
      then have "ff_Next s = Some (s\<lparr>ff_iter := it\<lparr>fi_err := err\<rparr>, ff_bytes := n\<rparr>, Some (vs ! Suc i))"
        using a i len acc it(4) unfolding ff_Next_def Let_def by (simp add: it_def ac_simps nat_add_distrib)
      then show "\<exists>s'. ff_Next s = Some (s', Some (fb_entries (ff_iter s) ! Suc i))
          \<and> (fb_view (fi_batch (ff_iter s')) \<noteq> None \<and> fi_index (ff_iter s') = int (Suc i) \<and> Suc i < length (fb_entries (ff_iter s')))
          \<and> fb_entries (ff_iter s') = fb_entries (ff_iter s) \<and> (\<lambda>e. True) = (\<lambda>e. True)"
        using it i by (simp add: ent) (simp add: fb_entries_def)
    next
      assume "Suc i = length (fb_entries (ff_iter s)) \<or> (Suc i < length (fb_entries (ff_iter s)) \<and> \<not> True)"
      then show "\<exists>s'. ff_Next s = Some (s', None)"
        using a len ent by (auto simp: ff_Next_def Let_def)
    }
  }
qed


section \<open>Searching\<close>

abbreviation key_sorted :: "(bytes \<Rightarrow> bytes \<Rightarrow> int) \<Rightarrow> (InternalKey \<times> bytes) list \<Rightarrow> bool" where
  "key_sorted cmp vs \<equiv> sorted_wrt (\<lambda>x y. InternalCompare cmp (fst x) (fst y) < 0) vs"

context total_cmp
begin

lemma key_sorted_user:
  assumes "key_sorted cmp vs" and "i \<le> j" and "j < length vs"
  shows "cmp (UserKey (fst (vs ! i))) (UserKey (fst (vs ! j))) \<le> 0"
proof (cases "i = j")
  case False
  then have "InternalCompare cmp (fst (vs ! i)) (fst (vs ! j)) < 0"
    using assms by (simp add: sorted_wrt_iff_nth_less)
  then show ?thesis by (auto simp: InternalCompare_neg)
qed simp

lemma fb_search_least:
  assumes "fb_view b = Some vs" and "key_sorted cmp vs" and "\<forall>x \<in> set vs. Valid (fst x)"
  obtains j where "fb_search cmp b key = Some j" "j \<le> length vs"
    "\<And>i. i < j \<Longrightarrow> cmp (UserKey (fst (vs ! i))) key < 0"
    "\<And>i. j \<le> i \<Longrightarrow> i < length vs \<Longrightarrow> cmp key (UserKey (fst (vs ! i))) \<le> 0"
proof -
  let ?it = "\<lambda>i. (fb_newIter b None None)\<lparr>fi_index := int i\<rparr>"
  have f: "map_option (\<lambda>k. InternalCompare cmp (MakeSearchKey key) k \<le> 0) (fb_getKey b h)
      = Some (cmp key (UserKey (fst (vs ! h))) \<le> 0)" if "h < length vs" for h
    using fb_view_at(1) [OF assms(1) that, of "?it h"] assms(3) that by (simp add: fb_newIter_def MakeSearchKey_first)
  have mono: "cmp key (UserKey (fst (vs ! k))) \<le> 0"
    if "h \<le> k" "k < length vs" "cmp key (UserKey (fst (vs ! h))) \<le> 0" for h k
    using key_sorted_user [OF assms(2) that(1,2)] that(3) cmp_le_trans by blast
  obtain j where j: "fb_search cmp b key = Some j" "j \<le> length vs"
      "\<And>k. k < j \<Longrightarrow> \<not> cmp key (UserKey (fst (vs ! k))) \<le> 0"
      "\<And>k. j \<le> k \<Longrightarrow> k < length vs \<Longrightarrow> cmp key (UserKey (fst (vs ! k))) \<le> 0"
    unfolding fb_search_def fb_view_length [OF assms(1)]
    by (rule sort_Search_least [of "length vs" _ "\<lambda>h. cmp key (UserKey (fst (vs ! h))) \<le> 0", OF f mono]) auto
  have "cmp (UserKey (fst (vs ! i))) key < 0" if "i < j" for i
    using j(3) [OF that] cmp_sym [of key "UserKey (fst (vs ! i))"] by linarith
  with j that show ?thesis by blast
qed

end

text \<open>Backwards the iterator walks over the reversed entries.\<close>

interpretation fb_back: forward_iter "fb_Last cmp" "fb_Prev cmp" "\<lambda>it. rev (fb_entries it)"
    "\<lambda>it e. \<not> below_lower cmp (fi_lower it) (UserKey (fst e))" "\<lambda>it. fb_view (fi_batch it) \<noteq> None"
    "\<lambda>it i. fb_view (fi_batch it) \<noteq> None \<and> i < length (fb_entries it) \<and> fi_index it = int (length (fb_entries it) - Suc i)" for cmp
proof unfold_locales
  fix s :: flushableBatchIter and i :: nat
  {
    assume v: "fb_view (fi_batch s) \<noteq> None"
    then obtain vs where vs: "fb_view (fi_batch s) = Some vs" by blast
    note len = fb_view_length [OF vs]
    have ent: "fb_entries s = vs" by (simp add: fb_entries_def vs)
    let ?n = "length vs - 1"
    let ?s = "s\<lparr>fi_err := None, fi_index := int ?n\<rparr>"
    have l: "fb_Last cmp s = fb_show ?s (below_lower cmp (fi_lower s)) (-1)" if "vs \<noteq> []"
      using that len by (auto simp: fb_Last_def Let_def of_nat_diff Suc_leI)
    have sh: "fb_show ?s outside stop = Some (if outside (UserKey (fst (rev vs ! 0))) then (?s\<lparr>fi_key := fst (vs ! ?n), fi_index := stop\<rparr>, None)
          else (?s\<lparr>fi_key := fst (vs ! ?n)\<rparr>, Some (rev vs ! 0)))" if "vs \<noteq> []" for outside stop
      using fb_show_at [of ?s vs ?n] vs that by (simp add: rev_nth)
    {
      assume "rev (fb_entries s) \<noteq> []" and "\<not> below_lower cmp (fi_lower s) (UserKey (fst (rev (fb_entries s) ! 0)))"
      then show "\<exists>s'. fb_Last cmp s = Some (s', Some (rev (fb_entries s) ! 0))
          \<and> (fb_view (fi_batch s') \<noteq> None \<and> 0 < length (fb_entries s') \<and> fi_index s' = int (length (fb_entries s') - Suc 0))
          \<and> rev (fb_entries s') = rev (fb_entries s)
          \<and> (\<lambda>e. \<not> below_lower cmp (fi_lower s') (UserKey (fst e))) = (\<lambda>e. \<not> below_lower cmp (fi_lower s) (UserKey (fst e)))"
        using l sh vs by (simp add: ent) (simp add: fb_entries_def)
    next
      assume "rev (fb_entries s) = [] \<or> \<not> \<not> below_lower cmp (fi_lower s) (UserKey (fst (rev (fb_entries s) ! 0)))"
      then show "\<exists>s'. fb_Last cmp s = Some (s', None)"
        using l sh len ent by (cases "vs = []") (simp_all add: fb_Last_def)
    }
  }
  {
    assume a: "fb_view (fi_batch s) \<noteq> None \<and> i < length (fb_entries s) \<and> fi_index s = int (length (fb_entries s) - Suc i)"
    then obtain vs where vs: "fb_view (fi_batch s) = Some vs" by blast
    note len = fb_view_length [OF vs]
    have ent: "fb_entries s = vs" by (simp add: fb_entries_def vs)
    have i: "i < length vs" using a ent by simp
    let ?n = "length vs - Suc (Suc i)"
    let ?s = "s\<lparr>fi_index := int ?n\<rparr>"
    have p: "fb_Prev cmp s = fb_show ?s (below_lower cmp (fi_lower s)) (-1)" if "Suc i < length vs"
    proof -
      have idx: "fi_index s - 1 = int ?n" using a ent that by (simp add: of_nat_diff)
      have "\<not> fi_index s < 0" using a by simp
      then show ?thesis unfolding fb_Prev_def Let_def by (simp add: idx)
    qed
    have sh: "fb_show ?s outside stop = Some (if outside (UserKey (fst (rev vs ! Suc i))) then (?s\<lparr>fi_key := fst (vs ! ?n), fi_index := stop\<rparr>, None)
          else (?s\<lparr>fi_key := fst (vs ! ?n)\<rparr>, Some (rev vs ! Suc i)))" if "Suc i < length vs" for outside stop
      using fb_show_at [of ?s vs ?n] vs that by (simp add: rev_nth)
    {
      assume "Suc i < length (rev (fb_entries s))" and "\<not> below_lower cmp (fi_lower s) (UserKey (fst (rev (fb_entries s) ! Suc i)))"
      then show "\<exists>s'. fb_Prev cmp s = Some (s', Some (rev (fb_entries s) ! Suc i))
          \<and> (fb_view (fi_batch s') \<noteq> None \<and> Suc i < length (fb_entries s') \<and> fi_index s' = int (length (fb_entries s') - Suc (Suc i)))
          \<and> rev (fb_entries s') = rev (fb_entries s)
          \<and> (\<lambda>e. \<not> below_lower cmp (fi_lower s') (UserKey (fst e))) = (\<lambda>e. \<not> below_lower cmp (fi_lower s) (UserKey (fst e)))"
        using p sh vs by (simp add: ent) (simp add: fb_entries_def)
    next
      assume e: "Suc i = length (rev (fb_entries s)) \<or> (Suc i < length (rev (fb_entries s))
          \<and> \<not> \<not> below_lower cmp (fi_lower s) (UserKey (fst (rev (fb_entries s) ! Suc i))))"
      show "\<exists>s'. fb_Prev cmp s = Some (s', None)"
      proof (cases "Suc i < length vs")
        case True
        with e p sh ent show ?thesis by simp
      next
        case False
        then have "fi_index s = 0" using a i by (simp add: ent)
        then show ?thesis by (simp add: fb_Prev_def)
      qed
    }
  }
qed

definition writes :: "bytes \<Rightarrow> batch_entry \<Rightarrow> bool" where
  "writes key r \<longleftrightarrow> fst (snd r) = key"

definition last_write :: "bytes \<Rightarrow> batch_entry list \<Rightarrow> batch_entry option" where
  "last_write key es =
     (case filter (writes key) es of [] \<Rightarrow> None | ys \<Rightarrow> Some (last ys))"

lemma last_filter_nth:
  assumes "i < length es" and "P (es ! i)" and "\<And>j. i < j \<Longrightarrow> j < length es \<Longrightarrow> \<not> P (es ! j)"
  shows "filter P es \<noteq> []" and "last (filter P es) = es ! i"
proof -
  have es: "es = take i es @ es ! i # drop (Suc i) es" using assms(1) by (rule id_take_nth_drop)
  have "filter P (drop (Suc i) es) = []"
    using assms(3) by (auto simp: filter_empty_conv in_set_conv_nth)
  then have "filter P es = filter P (take i es) @ [es ! i]"
    using assms(2) by (subst es) simp
  then show "filter P es \<noteq> []" "last (filter P es) = es ! i" by simp_all
qed

lemma UserKey_record_key: "UserKey (fst (record_key seq i r)) = key \<longleftrightarrow> writes key r"
  by (cases r) (simp add: record_key_def writes_def)

lemma batch_keys_Valid:
  assumes "\<forall>r \<in> set es. entry_valid r" and "x \<in> set (batch_keys seq es)"
  shows "Valid (fst x)"
proof -
  obtain i where i: "i < length es" "x = record_key seq i (es ! i)" using assms(2) by (auto simp: batch_keys_def)
  obtain kind key val where e: "es ! i = (kind, key, val)" by (cases "es ! i") auto
  have "entry_valid (es ! i)" using assms(1) i(1) by simp
  then have "kind \<le> InternalKeyKindMax" by (simp add: e entry_valid_def)
  then show ?thesis unfolding i(2) e by (simp add: record_key_def Valid_def)
qed

context total_cmp
begin

lemma fb_get_view:
  assumes "fb_view b = Some vs" and "key_sorted cmp vs" and "mset vs = mset (batch_keys seq es)"
    and "\<forall>r \<in> set es. entry_valid r" and "unat seq + length es \<le> 2 ^ 56"
  shows "fb_get cmp b key = Some (case last_write key es of
      Some (kind, k, val) \<Rightarrow> if kind = InternalKeyKindSet then (val, True, kind) else ([], False, InternalKeyKindInvalid)
    | None \<Rightarrow> ([], False, InternalKeyKindInvalid))"
proof -
  have set: "set vs = set (batch_keys seq es)" using assms(3) by (metis set_mset_mset)
  then have valid: "\<forall>x \<in> set vs. Valid (fst x)" using batch_keys_Valid [OF assms(4)] by simp
  have tr: "unat (Trailer (fst (record_key seq i (es ! i)))) = 256 * (unat seq + i) + unat (fst (es ! i))"
    if "i < length es" for i
    using Trailer_record_key [of seq i] assms(5) that by (cases "es ! i") auto
  have kb: "unat (fst (es ! i)) < 256" for i using unsigned_less [of "fst (es ! i)"] by simp
  obtain j where j: "fb_search cmp b key = Some j" "j \<le> length vs"
      "\<And>i. i < j \<Longrightarrow> cmp (UserKey (fst (vs ! i))) key < 0"
      "\<And>i. j \<le> i \<Longrightarrow> i < length vs \<Longrightarrow> cmp key (UserKey (fst (vs ! i))) \<le> 0"
    using fb_search_least [OF assms(1,2) valid] by blast
  note len = fb_view_length [OF assms(1)]
  let ?it = "(fb_newIter b None None)\<lparr>fi_err := None, fi_index := int j\<rparr>"
  have it: "fi_batch (fb_newIter b None None) = b" "fi_upper (fb_newIter b None None) = None" by (simp_all add: fb_newIter_def)
  have seek: "fb_SeekGE cmp (fb_newIter b None None) key =
      (if j = length vs then Some (?it, None) else Some (?it\<lparr>fi_key := fst (vs ! j)\<rparr>, Some (vs ! j)))"
    using fb_show_at [of ?it vs j] j(1,2) assms(1) len by (auto simp: fb_SeekGE_def it above_upper_def)
  show ?thesis
  proof (cases "j < length vs \<and> UserKey (fst (vs ! j)) = key")
    case False
    have none: "\<not> writes key (es ! i)" if i: "i < length es" for i
    proof
      assume k: "writes key (es ! i)"
      have "record_key seq i (es ! i) \<in> set vs" using i set by (simp add: batch_keys_def)
      then obtain m where m: "m < length vs" "vs ! m = record_key seq i (es ! i)" by (metis in_set_conv_nth)
      with k have km: "UserKey (fst (vs ! m)) = key" by (simp add: UserKey_record_key)
      then have "j \<le> m" using j(3) [of m] by (cases "m < j") auto
      with m(1) have "cmp (UserKey (fst (vs ! j))) key \<le> 0" "cmp key (UserKey (fst (vs ! j))) \<le> 0"
        using key_sorted_user [OF assms(2), of j m] km j(4) [of j] by auto
      then have "UserKey (fst (vs ! j)) = key" using cmp_le_antisym by blast
      with False \<open>j \<le> m\<close> m(1) show False by simp
    qed
    have "filter (writes key) es = []"
    proof (rule filter_False, rule ballI)
      fix r assume "r \<in> set es"
      then obtain i where "i < length es" "r = es ! i" by (metis in_set_conv_nth)
      with none show "\<not> writes key r" by simp
    qed
    then have lw: "last_write key es = None" by (simp add: last_write_def)
    show ?thesis
    proof (cases "j = length vs")
      case True
      with seek lw show ?thesis by (simp add: fb_get_def)
    next
      case neq: False
      with False j(2) have "cmp (UserKey (fst (vs ! j))) key \<noteq> 0" by (simp add: cmp_refl)
      with neq seek lw show ?thesis by (cases "vs ! j") (simp add: fb_get_def)
    qed
  next
    case True
    then have "vs ! j \<in> set (batch_keys seq es)" using set nth_mem by blast
    then obtain i where i: "i < length es" "vs ! j = record_key seq i (es ! i)" by (auto simp: batch_keys_def)
    obtain kind val where e: "es ! i = (kind, key, val)"
      using True i(2) by (cases "es ! i") (simp add: record_key_def)
    have last: "\<not> writes key (es ! i')" if i': "i < i'" "i' < length es" for i'
    proof
      assume k: "writes key (es ! i')"
      have "record_key seq i' (es ! i') \<in> set vs" using i'(2) set by (simp add: batch_keys_def)
      then obtain m where m: "m < length vs" "vs ! m = record_key seq i' (es ! i')" by (metis in_set_conv_nth)
      with k have km: "UserKey (fst (vs ! m)) = key" by (simp add: UserKey_record_key)
      then have "j \<le> m" using j(3) [of m] by (cases "m < j") auto
      then consider "m = j" | "InternalCompare cmp (fst (vs ! j)) (fst (vs ! m)) < 0"
        using assms(2) m(1) by (cases "m = j") (auto simp: sorted_wrt_iff_nth_less)
      then have "unat (Trailer (fst (vs ! m))) \<le> unat (Trailer (fst (vs ! j)))"
        using True km by cases (auto simp: InternalCompare_neg word_less_nat_alt)
      moreover have "unat (fst (es ! i)) < 256" by (rule kb)
      ultimately show False unfolding m(2) i(2) tr [OF i'(2)] tr [OF i(1)]
        using i'(1) by (simp add: algebra_simps)
    qed
    have "last_write key es = Some (kind, key, val)"
      using last_filter_nth [of i es "writes key", OF i(1) _ last] e
      by (cases "filter (writes key) es") (simp_all add: last_write_def writes_def split: if_splits)
    with True seek i(2) e show ?thesis by (simp add: fb_get_def record_key_def)
  qed
qed

end

section \<open>What a flushable batch promises\<close>

context total_cmp
begin

lemma newFlushableBatch_ops:
  assumes "batch_wf b" and "b_data b \<noteq> []" and "drop batchHeaderLen (b_data b) = ops_bytes xs"
    and "length (b_data b) < 2 ^ 32" and "batch_SeqNum b = Some (b, seq)" and "unat seq + length xs \<le> 2 ^ 56"
  shows "\<exists>fb vs. newFlushableBatch cmp b = Some fb \<and> fb_seqNum fb = seq \<and> fb_view fb = Some vs \<and> key_sorted cmp vs
    \<and> mset vs = mset (batch_keys seq (map op_entry xs)) \<and> sizes_ok fb"
proof -
  let ?hdr = "take batchHeaderLen (b_data b)"
  have hdr: "length ?hdr = batchHeaderLen" using assms(1,2) by (auto simp: batch_wf_def)
  have d: "b_data b = ?hdr @ concat (map entry_bytes (map op_entry xs))"
    using assms(3) append_take_drop_id [of batchHeaderLen "b_data b"] by (simp add: ops_bytes_def)
  have seq: "le_dec (take 8 ?hdr) = seq"
    using assms(2,5) hdr by (auto simp: batch_SeqNum_def go_slice_def split: if_splits)
  show ?thesis
    using newFlushableBatch_view [OF d hdr assms(4)] assms(6) seq by auto
qed

lemma fb_SeekGE_iterate:
  assumes "fb_view (fi_batch it) = Some vs" and "key_sorted cmp vs" and "\<forall>x \<in> set vs. Valid (fst x)"
  shows "\<exists>r. fb_SeekGE cmp it key = Some r
    \<and> iterate (fb_Next cmp) (length vs + 1) r
      = Some (takeWhile (\<lambda>e. \<not> above_upper cmp (fi_upper it) (UserKey (fst e)))
          (dropWhile (\<lambda>e. cmp (UserKey (fst e)) key < 0) vs))"
proof -
  obtain j where j: "fb_search cmp (fi_batch it) key = Some j" "j \<le> length vs"
      "\<And>i. i < j \<Longrightarrow> cmp (UserKey (fst (vs ! i))) key < 0"
      "\<And>i. j \<le> i \<Longrightarrow> i < length vs \<Longrightarrow> cmp key (UserKey (fst (vs ! i))) \<le> 0"
    using fb_search_least [OF assms] by blast
  note len = fb_view_length [OF assms(1)]
  let ?b = "\<lambda>e. \<not> above_upper cmp (fi_upper it) (UserKey (fst e))"
  let ?it = "it\<lparr>fi_err := None, fi_index := int j\<rparr>"
  have "\<not> cmp (UserKey (fst (vs ! j))) key < 0" if "j < length vs"
    using j(4) [of j] that cmp_sym [of key "UserKey (fst (vs ! j))"] by auto
  then have "takeWhile (\<lambda>e. cmp (UserKey (fst e)) key < 0) vs = take j vs"
    using j(3) by (intro takeWhile_eq_take_P_nth) auto
  then have dw: "dropWhile (\<lambda>e. cmp (UserKey (fst e)) key < 0) vs = drop j vs"
    using j(2) by (simp add: dropWhile_eq_drop)
  show ?thesis
  proof (cases "j < length vs")
    case False
    then have "fb_SeekGE cmp it key = Some (?it, None)" using j(1,2) len by (simp add: fb_SeekGE_def)
    with False show ?thesis by (simp add: dw)
  next
    case True
    have seek: "fb_SeekGE cmp it key = Some (if \<not> ?b (vs ! j) then (?it\<lparr>fi_key := fst (vs ! j), fi_index := fb_n it\<rparr>, None)
        else (?it\<lparr>fi_key := fst (vs ! j)\<rparr>, Some (vs ! j)))"
      using fb_show_at [of ?it vs j "above_upper cmp (fi_upper it)" "fb_n it"] assms(1) j(1) len True
      by (simp add: fb_SeekGE_def)
    have dj: "drop j vs = vs ! j # drop (Suc j) vs" using True by (simp add: Cons_nth_drop_Suc)
    show ?thesis
    proof (cases "?b (vs ! j)")
      case False
      with seek dj show ?thesis by (simp add: dw)
    next
      case b: True
      let ?s = "?it\<lparr>fi_key := fst (vs ! j)\<rparr>"
      have "fb_entries ?s = vs" using assms(1) by (simp add: fb_entries_def)
      with fb.iterate_from [of ?s j "length vs + 1" cmp] True assms(1)
      have "iterate (fb_Next cmp) (length vs + 1) (?s, Some (vs ! j)) = Some (vs ! j # takeWhile ?b (drop (Suc j) vs))"
        by simp
      with seek b dj show ?thesis by (simp add: dw)
    qed
  qed
qed

end

text \<open>
  C9: The index of a large batch. For every comparer that is a total order and every
  well-formed batch below 4 GiB that holds the operations \<open>xs\<close> and whose sequence numbers stay
  below \<open>2^56\<close>, building the flushable batch never panics, and its entries are exactly the
  operations, each at its own sequence number, in the order of \<^verbatim>\<open>InternalCompare\<close>; the flush
  iterator returns all of them, in this order.
\<close>

theorem newFlushableBatch_sorted:
  assumes "total_cmp cmp" and "batch_wf b" and "b_data b \<noteq> []" and "drop batchHeaderLen (b_data b) = ops_bytes xs"
    and "length (b_data b) < 2 ^ 32" and "batch_SeqNum b = Some (b, seq)" and "unat seq + length xs \<le> 2 ^ 56"
  shows "\<exists>fb vs r. newFlushableBatch cmp b = Some fb \<and> fb_view fb = Some vs
    \<and> sorted_wrt (\<lambda>x y. InternalCompare cmp (fst x) (fst y) < 0) vs
    \<and> mset vs = mset (batch_keys seq (map op_entry xs))
    \<and> ff_First cmp (fb_newFlushIter fb flushed) = Some r \<and> iterate ff_Next (length vs + 1) r = Some vs"
proof -
  from total_cmp.newFlushableBatch_ops [OF assms] obtain fb vs where
    fb: "newFlushableBatch cmp b = Some fb" "fb_view fb = Some vs" "key_sorted cmp vs"
      "mset vs = mset (batch_keys seq (map op_entry xs))" by blast
  let ?f = "fb_newFlushIter fb flushed"
  have "fb_view (fi_batch (ff_iter ?f)) \<noteq> None \<and> fi_upper (ff_iter ?f) = None" "fb_entries (ff_iter ?f) = vs"
    using fb(2) by (simp_all add: fb_newFlushIter_def fb_newIter_def fb_entries_def)
  from ff.iterate_first [OF this(1), of "length vs + 1" cmp] this(2) obtain r where
    "ff_First cmp ?f = Some r" "iterate ff_Next (length vs + 1) r = Some vs" by auto
  with fb show ?thesis by blast
qed

text \<open>
  C10: A lookup in a large batch returns the value of the last operation on the key when that
  is a Set. For a key whose last operation is a Delete (or another kind) it answers \<^verbatim>\<open>false\<close>,
  exactly as for a key the batch does not mention.
\<close>

theorem fb_get_last_write:
  assumes "total_cmp cmp" and "batch_wf b" and "b_data b \<noteq> []" and "drop batchHeaderLen (b_data b) = ops_bytes xs"
    and "length (b_data b) < 2 ^ 32" and "batch_SeqNum b = Some (b, seq)" and "unat seq + length xs \<le> 2 ^ 56"
  shows "\<exists>fb. newFlushableBatch cmp b = Some fb
    \<and> fb_get cmp fb key = Some (case last_write key (map op_entry xs) of
          Some (kind, k, val) \<Rightarrow>
            if kind = InternalKeyKindSet then (val, True, InternalKeyKindSet) else ([], False, InternalKeyKindInvalid)
        | None \<Rightarrow> ([], False, InternalKeyKindInvalid))"
proof -
  from total_cmp.newFlushableBatch_ops [OF assms] obtain fb vs where
    fb: "newFlushableBatch cmp b = Some fb" "fb_view fb = Some vs" "key_sorted cmp vs"
      "mset vs = mset (batch_keys seq (map op_entry xs))" by blast
  have "\<forall>r \<in> set (map op_entry xs). entry_valid r" "unat seq + length (map op_entry xs) \<le> 2 ^ 56" using assms(7) by auto
  from total_cmp.fb_get_view [OF assms(1) fb(2-4) this, of key] fb(1) show ?thesis
    by (auto split: option.splits)
qed

text \<open>
  C11: The iterator over any flushable batch whose entries \<open>vs\<close> are sorted. \<^verbatim>\<open>SeekGE\<close> followed by
  \<^verbatim>\<open>Next\<close> until nil returns the entries from the first one not below the key up to the upper
  bound; \<^verbatim>\<open>First\<close> and \<^verbatim>\<open>Next\<close> return all entries from the first of the batch up to the upper bound;
  \<^verbatim>\<open>Last\<close> and \<^verbatim>\<open>Prev\<close> return them backwards from the last of the batch down to the lower bound. Each
  direction tests one bound only: going forward an entry below the lower bound is shown, and going
  backwards one above the upper bound. The caller has to start inside the other bound. None of these
  calls panics.
\<close>

theorem fb_iteration:
  assumes "total_cmp cmp" and "fb_view (fi_batch it) = Some vs" and "\<forall>x \<in> set vs. Valid (fst x)"
    and "sorted_wrt (\<lambda>x y. InternalCompare cmp (fst x) (fst y) < 0) vs"
  shows "\<exists>r1 r2 r3. fb_SeekGE cmp it key = Some r1 \<and> fb_First cmp it = Some r2 \<and> fb_Last cmp it = Some r3
    \<and> iterate (fb_Next cmp) (length vs + 1) r1
      = Some (takeWhile (\<lambda>e. \<not> above_upper cmp (fi_upper it) (UserKey (fst e)))
          (dropWhile (\<lambda>e. cmp (UserKey (fst e)) key < 0) vs))
    \<and> iterate (fb_Next cmp) (length vs + 1) r2
      = Some (takeWhile (\<lambda>e. \<not> above_upper cmp (fi_upper it) (UserKey (fst e))) vs)
    \<and> iterate (fb_Prev cmp) (length vs + 1) r3
      = Some (takeWhile (\<lambda>e. \<not> below_lower cmp (fi_lower it) (UserKey (fst e))) (rev vs))"
proof -
  have v: "fb_view (fi_batch it) \<noteq> None" "fb_entries it = vs" using assms(2) by (simp_all add: fb_entries_def)
  from total_cmp.fb_SeekGE_iterate [OF assms(1,2,4,3), of key]
    fb.iterate_first [OF v(1), of "length vs + 1" cmp] fb_back.iterate_first [OF v(1), of "length vs + 1" cmp]
  show ?thesis unfolding v(2) by auto
qed

definition sampleBatch :: Batch where
  "sampleBatch = freshBatch\<lparr>b_data := [1, 0, 0, 0, 0, 0, 0, 0, 2, 0, 0, 0] @ ops_bytes [OpSet [7] [8], OpDelete [7]],
     b_cap := 1024, b_count := 2\<rparr>"

lemma sampleBatch_facts:
  "batch_wf sampleBatch" "b_data sampleBatch \<noteq> []"
  "drop batchHeaderLen (b_data sampleBatch) = ops_bytes [OpSet [7] [8], OpDelete [7]]"
  "length (b_data sampleBatch) < 2 ^ 32" "batch_SeqNum sampleBatch = Some (sampleBatch, 1)"
  by (simp_all add: sampleBatch_def batch_wf_def ops_bytes_def entry_bytes_def kv_record_def key_record_def
      put_uvarint32.simps batch_SeqNum_def go_slice_def)

theorem newFlushableBatch_sorted_witness:
  "\<exists>fb vs r. newFlushableBatch bytes_Compare sampleBatch = Some fb \<and> fb_view fb = Some vs
    \<and> sorted_wrt (\<lambda>x y. InternalCompare bytes_Compare (fst x) (fst y) < 0) vs
    \<and> mset vs = mset (batch_keys 1 (map op_entry [OpSet [7] [8], OpDelete [7]]))
    \<and> ff_First bytes_Compare (fb_newFlushIter fb 0) = Some r \<and> iterate ff_Next (length vs + 1) r = Some vs"
  using newFlushableBatch_sorted [OF bytes_cmp.total_cmp_axioms sampleBatch_facts] by simp

theorem fb_get_last_write_witness:
  "\<exists>fb. newFlushableBatch bytes_Compare sampleBatch = Some fb
    \<and> fb_get bytes_Compare fb [7] = Some ([], False, InternalKeyKindInvalid)"
  using fb_get_last_write [OF bytes_cmp.total_cmp_axioms sampleBatch_facts, of "[7]"]
  by (simp add: last_write_def writes_def)

theorem fb_iteration_witness:
  "\<exists>fb vs r. newFlushableBatch bytes_Compare sampleBatch = Some fb \<and> fb_view fb = Some vs \<and> length vs = 2
    \<and> fb_SeekGE bytes_Compare (fb_newIter fb None (Some [9])) [3] = Some r
    \<and> iterate (fb_Next bytes_Compare) 3 r
      = Some (takeWhile (\<lambda>e. \<not> above_upper bytes_Compare (Some [9]) (UserKey (fst e)))
          (dropWhile (\<lambda>e. bytes_Compare (UserKey (fst e)) [3] < 0) vs))"
proof -
  let ?es = "map op_entry [OpSet [7] [8], OpDelete [7]]"
  obtain fb vs where fb: "newFlushableBatch bytes_Compare sampleBatch = Some fb" "fb_view fb = Some vs"
      "key_sorted bytes_Compare vs" "mset vs = mset (batch_keys 1 ?es)"
    using bytes_cmp.newFlushableBatch_ops [OF sampleBatch_facts] by auto
  have len: "length vs = 2" using arg_cong [OF fb(4), of size] by (simp add: batch_keys_def)
  have "set vs = set (batch_keys 1 ?es)" using fb(4) by (metis set_mset_mset)
  moreover have "\<forall>r \<in> set ?es. entry_valid r" by (auto simp del: op_entry.simps)
  ultimately have valid: "\<forall>x \<in> set vs. Valid (fst x)" using batch_keys_Valid by blast
  have view: "fb_view (fi_batch (fb_newIter fb None (Some [9]))) = Some vs" "fi_upper (fb_newIter fb None (Some [9])) = Some [9]"
    using fb(2) by (simp_all add: fb_newIter_def)
  from fb_iteration [OF bytes_cmp.total_cmp_axioms view(1) valid fb(3), of "[3]"] fb(1,2) len view(2)
  show ?thesis by auto
qed

end
