(* ===== verification/Table.thy ===== *)
theory Table
  imports Internal_Key
begin

text \<open>
  The growing memory-mapped file under the array tables (\<^verbatim>\<open>table.go\<close>). \<open>t_file\<close> is the file; the
  mapping is shared, so it shows the first \<open>t_datasz\<close> bytes of the file. A slice of the mapping
  outside \<open>t_datasz\<close> panics and an access behind the end of the file faults: both are \<open>None\<close>.
  \<open>t_offset\<close> is the 32-bit allocation offset, kept a second time in the first four bytes.
  Errors of the operating system are not modelled.
\<close>

abbreviation (input) maxMapSize :: nat where "maxMapSize \<equiv> 0xFFFFFFFFFFFF"
abbreviation (input) maxExpandStep :: nat where "maxExpandStep \<equiv> 134217728"
abbreviation (input) initMmapSize :: nat where "initMmapSize \<equiv> 10485760"
abbreviation (input) tableHeaderOffset :: u32 where "tableHeaderOffset \<equiv> 0"
abbreviation (input) tableHeaderSize :: u32 where "tableHeaderSize \<equiv> 4"

datatype table_error = ErrTableTooLarge | ErrTableFull | ErrTableOpenType | ErrHeaderOffset

datatype table_open_type = tableWriteMmap | tableReadMmap | tableWriteDisk | tableOtherType

record table =
  t_file :: bytes
  t_offset :: u32
  t_datasz :: nat

abbreviation "t_filesz t \<equiv> length (t_file t)"

definition table_Size :: "table \<Rightarrow> u32" where
  "table_Size t = t_offset t"

definition table_Capacity :: "table \<Rightarrow> nat" where
  "table_Capacity t = t_datasz t"

text \<open>\<^verbatim>\<open>calcExpandSize\<close>: the loop over the powers of two from \<open>2^15\<close> to \<open>2^30\<close>, then multiples of 128 MiB.\<close>

function expand_pow :: "nat \<Rightarrow> nat \<Rightarrow> nat option" where
  "expand_pow siz i = (if i \<le> 30 then if siz \<le> 2 ^ i then Some (2 ^ i) else expand_pow siz (i + 1) else None)"
  by pat_completeness auto
termination
  by (relation "measure (\<lambda>(siz, i). 31 - i)") auto

declare expand_pow.simps [simp del]

definition calcExpandSize :: "nat \<Rightarrow> table_error + nat" where
  "calcExpandSize siz =
     (case expand_pow siz 15 of
        Some n \<Rightarrow> Inr n
      | None \<Rightarrow>
          if siz > maxMapSize then Inl ErrTableTooLarge
          else
            let remainder = siz mod maxExpandStep;
                sz = (if remainder > 0 then siz + (maxExpandStep - remainder) else siz)
            in Inr (if sz > maxMapSize then maxMapSize else sz))"

definition fileTruncate :: "table \<Rightarrow> nat \<Rightarrow> table" where
  "fileTruncate t siz = t\<lparr>t_file := take siz (t_file t) @ replicate (siz - t_filesz t) 0\<rparr>"

definition expandFileSize :: "table \<Rightarrow> nat \<Rightarrow> table_error + table" where
  "expandFileSize t siz =
     (if siz > t_filesz t then
        case calcExpandSize siz of Inl e \<Rightarrow> Inl e | Inr sz \<Rightarrow> Inr (fileTruncate t sz)
      else Inr t)"

definition mmapWrite :: "table \<Rightarrow> nat \<Rightarrow> table_error + table" where
  "mmapWrite t sz = (case calcExpandSize sz of Inl e \<Rightarrow> Inl e | Inr siz \<Rightarrow> Inr (t\<lparr>t_datasz := siz\<rparr>))"

definition mmapRead :: "table \<Rightarrow> nat \<Rightarrow> table" where
  "mmapRead t sz = t\<lparr>t_datasz := sz\<rparr>"

definition expandMmapSize :: "table \<Rightarrow> nat \<Rightarrow> table_error + table" where
  "expandMmapSize t siz = (if siz > t_datasz t then mmapWrite t siz else Inr t)"

definition checkTableFull :: "table \<Rightarrow> nat \<Rightarrow> table_error option" where
  "checkTableFull t siz = (if siz + unat (table_Size t) > t_datasz t then Some ErrTableFull else None)"

text \<open>\<^verbatim>\<open>t.data[offset:offset+size]\<close> with 32-bit offsets, for reading and for writing.\<close>

definition mapped :: "table \<Rightarrow> u32 \<Rightarrow> u32 \<Rightarrow> bool" where
  "mapped t offset siz \<longleftrightarrow>
     offset \<le> offset + siz \<and> unat (offset + siz) \<le> t_datasz t \<and> unat (offset + siz) \<le> t_filesz t"

definition getBytes :: "table \<Rightarrow> u32 \<Rightarrow> u32 \<Rightarrow> bytes option" where
  "getBytes t offset siz =
     (if mapped t offset siz then Some (take (unat siz) (drop (unat offset) (t_file t))) else None)"

definition writeAt :: "table \<Rightarrow> bytes \<Rightarrow> u32 \<Rightarrow> table option" where
  "writeAt t b offset =
     (if mapped t offset (of_nat (length b))
      then map_option (\<lambda>f. t\<lparr>t_file := f\<rparr>) (go_put (t_file t) (unat offset) b) else None)"

definition readAtUInt32 :: "table \<Rightarrow> u32 \<Rightarrow> u32 option" where
  "readAtUInt32 t offset = map_option be_dec (getBytes t offset 4)"

definition writeAtUInt32 :: "table \<Rightarrow> u32 \<Rightarrow> u32 \<Rightarrow> table option" where
  "writeAtUInt32 t val offset = writeAt t (be_enc 4 val) offset"

definition readAtUInt16 :: "table \<Rightarrow> u16 \<Rightarrow> u16 option" where
  "readAtUInt16 t offset = map_option be_dec (if offset \<le> offset + 2 then getBytes t (ucast offset) 2 else None)"

definition writeAtUInt16 :: "table \<Rightarrow> u16 \<Rightarrow> u32 \<Rightarrow> table option" where
  "writeAtUInt16 t val offset = writeAt t (be_enc 2 val) offset"

definition getOffset :: "table \<Rightarrow> u32 option" where
  "getOffset t = readAtUInt32 t tableHeaderOffset"

definition setOffset :: "table \<Rightarrow> u32 \<Rightarrow> table option" where
  "setOffset t val = writeAtUInt32 t val tableHeaderOffset"

text \<open>\<^verbatim>\<open>alloc\<close> and \<^verbatim>\<open>allocAlign\<close>: the offset is advanced first, also when the allocation then
  fails: an error comes with the table it leaves.\<close>

definition alloc :: "table \<Rightarrow> u32 \<Rightarrow> (table_error \<times> table + table \<times> u32) option" where
  "alloc t0 siz =
     (let newSize = t_offset t0 + siz;
          t = t0\<lparr>t_offset := newSize\<rparr>;
          sz = unat newSize
      in case expandFileSize t sz of
           Inl e \<Rightarrow> Some (Inl (e, t))
         | Inr t \<Rightarrow>
             (case expandMmapSize t sz of
                Inl e \<Rightarrow> Some (Inl (e, t))
              | Inr t \<Rightarrow> map_option (\<lambda>t. Inr (t, newSize - siz)) (setOffset t newSize)))"

definition allocAlign :: "table \<Rightarrow> u32 \<Rightarrow> u32 \<Rightarrow> u32 \<Rightarrow> (table_error \<times> table + table \<times> u32 \<times> u32) option" where
  "allocAlign t0 siz align overflow =
     (let padded = siz + align;
          newSize = t_offset t0 + padded;
          t = t0\<lparr>t_offset := newSize\<rparr>;
          sz = unat newSize + unat overflow
      in if sz > t_datasz t then Some (Inl (ErrTableFull, t))
         else case expandFileSize t sz of
           Inl e \<Rightarrow> Some (Inl (e, t))
         | Inr t \<Rightarrow> map_option (\<lambda>t. Inr (t, (newSize - padded + align) AND NOT align, padded)) (setOffset t newSize))"

definition initHeader :: "table \<Rightarrow> (table_error + table) option" where
  "initHeader t =
     (if t_filesz t = 0 then
        do {
          r \<leftarrow> alloc t tableHeaderSize;
          (case r of Inl (e, _) \<Rightarrow> Some (Inl e) | Inr (t, off) \<Rightarrow> map_option Inr (setOffset t tableHeaderSize))
        }
      else Some (Inr t))"

definition openTable :: "bytes \<Rightarrow> table_open_type \<Rightarrow> nat \<Rightarrow> (table_error + table) option" where
  "openTable file openType initSize =
     (let t = \<lparr>t_file = file, t_offset = 0, t_datasz = 0\<rparr> in
      case openType of
        tableWriteMmap \<Rightarrow>
          (let sz = (if initSize = 0 then initMmapSize else initSize);
               sz = (if t_filesz t > sz then t_filesz t else sz)
           in case mmapWrite t sz of
                Inl e \<Rightarrow> Some (Inl e)
              | Inr t \<Rightarrow>
                  do {
                    r \<leftarrow> initHeader t;
                    (case r of
                       Inl e \<Rightarrow> Some (Inl e)
                     | Inr t \<Rightarrow> map_option (\<lambda>off. Inr (t\<lparr>t_offset := off\<rparr>)) (getOffset t))
                  })
      | tableReadMmap \<Rightarrow>
          (let t = mmapRead t (t_filesz t) in map_option (\<lambda>off. Inr (t\<lparr>t_offset := off\<rparr>)) (getOffset t))
      | tableWriteDisk \<Rightarrow> Some (Inr ((mmapRead t initSize)\<lparr>t_offset := of_nat (t_filesz t)\<rparr>))
      | tableOtherType \<Rightarrow> Some (Inl ErrTableOpenType))"

definition mmapReadExpand :: "table \<Rightarrow> bool \<times> table" where
  "mmapReadExpand t = (if t_filesz t \<le> t_datasz t then (False, t) else (True, mmapRead t (t_datasz t * 2)))"

definition mmapReadTruncate :: "table \<Rightarrow> nat \<Rightarrow> table" where
  "mmapReadTruncate t sz = mmapRead (if t_filesz t \<noteq> sz then fileTruncate t sz else t) sz"

section \<open>Growth\<close>

lemma expand_pow_facts:
  "siz \<le> 2 ^ 30 \<Longrightarrow> \<exists>n. expand_pow siz i = (if i \<le> 30 then Some n else None) \<and> siz \<le> n"
  "expand_pow siz i = Some n \<Longrightarrow> siz \<le> n \<and> 2 ^ i \<le> n"
proof -
  show "siz \<le> 2 ^ 30 \<Longrightarrow> \<exists>n. expand_pow siz i = (if i \<le> 30 then Some n else None) \<and> siz \<le> n"
  proof (induction siz i rule: expand_pow.induct)
    case (1 siz i)
    show ?case
    proof (cases "i \<le> 30 \<and> \<not> siz \<le> 2 ^ i")
      case True
      then have "i \<noteq> 30" using 1(2) by auto
      with True 1 show ?thesis by (subst expand_pow.simps) auto
    next
      case False
      then show ?thesis by (subst expand_pow.simps) auto
    qed
  qed
  show "expand_pow siz i = Some n \<Longrightarrow> siz \<le> n \<and> 2 ^ i \<le> n"
  proof (induction siz i rule: expand_pow.induct)
    case (1 siz i)
    show ?case
    proof (cases "siz \<le> 2 ^ i")
      case False
      then have "expand_pow siz (i + 1) = Some n" "i \<le> 30"
        using 1(2) by (simp_all add: expand_pow.simps [of siz i] split: if_splits)
      with 1(1) False have "siz \<le> n" "2 ^ (i + 1) \<le> n" by auto
      then show ?thesis by simp
    qed (use 1(2) in \<open>simp add: expand_pow.simps split: if_splits\<close>)
  qed
qed

text \<open>Every 32-bit size has an expansion.\<close>

lemma calcExpandSize_ok:
  assumes "siz < 2 ^ 32"
  shows "\<exists>n. calcExpandSize siz = Inr n \<and> siz \<le> n \<and> 4 \<le> n"
proof (cases "expand_pow siz 15")
  case (Some n)
  with expand_pow_facts(2) [OF Some] show ?thesis by (simp add: calcExpandSize_def)
next
  case None
  then have "\<not> siz \<le> 2 ^ 30" using expand_pow_facts(1) [of siz 15] by auto
  moreover have "siz mod maxExpandStep < maxExpandStep" by simp
  ultimately show ?thesis using None assms by (simp add: calcExpandSize_def Let_def) linarith
qed

section \<open>Allocation\<close>

text \<open>A table in use: the header holds the offset, and everything below the offset is mapped.\<close>

definition t_ok :: "table \<Rightarrow> bool" where
  "t_ok t \<longleftrightarrow>
     4 \<le> unat (t_offset t) \<and> unat (t_offset t) \<le> t_filesz t \<and> unat (t_offset t) \<le> t_datasz t
     \<and> take 4 (t_file t) = be_enc 4 (t_offset t)"

text \<open>What has been allocated, after the header.\<close>

definition t_body :: "table \<Rightarrow> bytes" where
  "t_body t = drop 4 (take (unat (t_offset t)) (t_file t))"

lemma length_t_body [simp]: "t_ok t \<Longrightarrow> length (t_body t) = unat (t_offset t) - 4"
  by (simp add: t_ok_def t_body_def)

lemma expandFileSize_ok:
  assumes "n < 2 ^ 32"
  shows "\<exists>t'. expandFileSize t n = Inr t' \<and> n \<le> t_filesz t' \<and> t_offset t' = t_offset t \<and> t_datasz t' = t_datasz t
    \<and> (\<exists>z. t_file t' = t_file t @ z)"
  using calcExpandSize_ok [OF assms] by (auto simp: expandFileSize_def fileTruncate_def)

lemma expandMmapSize_ok:
  assumes "n < 2 ^ 32"
  shows "\<exists>m. expandMmapSize t n = Inr (t\<lparr>t_datasz := m\<rparr>) \<and> n \<le> m \<and> t_datasz t \<le> m"
proof (cases "n > t_datasz t")
  case True
  then show ?thesis using calcExpandSize_ok [OF assms] by (auto simp: expandMmapSize_def mmapWrite_def)
next
  case False
  then show ?thesis by (intro exI [of _ "t_datasz t"]) (simp add: expandMmapSize_def)
qed

lemma setOffset_ok:
  assumes "4 \<le> t_filesz t" and "4 \<le> t_datasz t"
  shows "setOffset t v = Some (t\<lparr>t_file := be_enc 4 v @ drop 4 (t_file t)\<rparr>)"
  using assms by (simp add: setOffset_def writeAtUInt32_def writeAt_def mapped_def go_put_def)

lemma alloc_ok:
  assumes "t_ok t" and "unat (t_offset t) + unat n < 2 ^ 32"
  shows "\<exists>t' ext. alloc t n = Some (Inr (t', t_offset t)) \<and> t_ok t' \<and> t_offset t' = t_offset t + n
    \<and> length ext = unat n \<and> t_body t' = t_body t @ ext"
proof -
  let ?t0 = "t\<lparr>t_offset := t_offset t + n\<rparr>" and ?s = "unat (t_offset t + n)"
  have s: "?s = unat (t_offset t) + unat n" by (rule unat_plus [OF assms(2)])
  have s32: "?s < 2 ^ 32" using assms(2) s by simp
  obtain t1 z where t1: "expandFileSize ?t0 ?s = Inr t1" "?s \<le> t_filesz t1" "t_offset t1 = t_offset t + n"
      "t_datasz t1 = t_datasz t" "t_file t1 = t_file t @ z"
    using expandFileSize_ok [OF s32, of ?t0] by auto
  obtain m where m: "expandMmapSize t1 ?s = Inr (t1\<lparr>t_datasz := m\<rparr>)" "?s \<le> m"
    using expandMmapSize_ok [OF s32, of t1] by auto
  let ?t' = "t1\<lparr>t_datasz := m, t_file := be_enc 4 (t_offset t + n) @ drop 4 (t_file t1)\<rparr>"
  have four: "4 \<le> ?s" "4 \<le> length (t_file t)" "unat (t_offset t) \<le> length (t_file t)"
    using assms(1) s by (simp_all add: t_ok_def)
  have set: "setOffset (t1\<lparr>t_datasz := m\<rparr>) (t_offset t + n) = Some ?t'"
    using setOffset_ok [of "t1\<lparr>t_datasz := m\<rparr>" "t_offset t + n"] four m(2) t1(2) by simp
  have al: "alloc t n = Some (Inr (?t', t_offset t))"
    using t1(1) m(1) set by (simp add: alloc_def Let_def)
  have ok: "t_ok ?t'" using t1 m four by (simp add: t_ok_def)
  have "t_body ?t' = take (?s - 4) (drop 4 (t_file t1))"
    using t1(3) four by (simp add: t_body_def)
  also have "\<dots> = t_body t @ take (unat n) (drop (unat (t_offset t)) (t_file t1))"
  proof -
    have "take (unat (t_offset t) - 4) (drop 4 (t_file t1)) = t_body t"
      using t1(5) four by (simp add: t_body_def drop_take)
    moreover have "?s - 4 = (unat (t_offset t) - 4) + unat n" using s assms(1) by (simp add: t_ok_def)
    moreover have "drop (unat (t_offset t) - 4) (drop 4 (t_file t1)) = drop (unat (t_offset t)) (t_file t1)"
      using assms(1) by (simp add: t_ok_def)
    ultimately show ?thesis by (simp only: take_add)
  qed
  finally have body: "t_body ?t' = t_body t @ take (unat n) (drop (unat (t_offset t)) (t_file t1))" .
  define ext where "ext = take (unat n) (drop (unat (t_offset t)) (t_file t1))"
  have "length ext = unat n" unfolding ext_def using t1(2) s by simp
  moreover have "t_offset ?t' = t_offset t + n" using t1(3) by simp
  ultimately show ?thesis using al ok body [folded ext_def] by blast
qed

lemma getBytes_body:
  assumes "t_ok t" and "4 \<le> unat off" and "unat off + unat n \<le> unat (t_offset t)"
  shows "getBytes t off n = Some (take (unat n) (drop (unat off - 4) (t_body t)))"
proof -
  have "unat (t_offset t) < 2 ^ 32" using unsigned_less [of "t_offset t"] by simp
  then have u: "unat (off + n) = unat off + unat n" using assms(3) by (intro unat_plus) linarith
  then have m: "mapped t off n" using assms(1,3) by (simp add: mapped_def t_ok_def word_le_nat_alt)
  have "drop (unat off - 4) (t_body t) = drop (unat off) (take (unat (t_offset t)) (t_file t))"
    using assms(2) by (simp add: t_body_def)
  then have "take (unat n) (drop (unat off - 4) (t_body t)) = take (unat n) (drop (unat off) (t_file t))"
    using assms(3) by (simp add: drop_take)
  with m show ?thesis by (simp add: getBytes_def)
qed

lemma writeAt_body:
  assumes "t_ok t" and "t_body t = A @ old @ B" and "length b = length old" and "unat off = 4 + length A"
  shows "\<exists>t'. writeAt t b off = Some t' \<and> t_ok t' \<and> t_offset t' = t_offset t \<and> t_body t' = A @ b @ B"
proof -
  let ?o = "unat (t_offset t)" and ?l = "length b"
  have le: "unat off + ?l \<le> ?o"
    using arg_cong [OF assms(2), of length] assms(1,3,4) length_t_body [OF assms(1)] by (simp add: t_ok_def) linarith
  have o32: "?o < 2 ^ 32" using unsigned_less [of "t_offset t"] by simp
  have ub: "unat (of_nat ?l :: u32) = ?l" using le o32 by (simp add: unat_of_nat)
  have u: "unat (off + of_nat ?l) = unat off + ?l" using unat_plus [of off "of_nat ?l"] ub le o32 by simp
  have m: "mapped t off (of_nat ?l)" using assms(1) le u by (simp add: mapped_def t_ok_def word_le_nat_alt)
  define f where "f = take (unat off) (t_file t) @ b @ drop (unat off + ?l) (t_file t)"
  have flen: "?o \<le> t_filesz t" using assms(1) by (simp add: t_ok_def)
  have w: "writeAt t b off = Some (t\<lparr>t_file := f\<rparr>)"
    using m le flen by (simp add: writeAt_def go_put_def f_def)
  have fl: "length f = t_filesz t" using le flen by (simp add: f_def)
  have t4: "take 4 f = take 4 (t_file t)" using assms(4) le flen by (simp add: f_def)
  have dr: "drop 4 (take ?o (t_file t)) = A @ old @ B" using assms(2) by (simp add: t_body_def)
  have A: "drop 4 (take (unat off) (t_file t)) = A"
  proof -
    have "take (length A) (drop 4 (take ?o (t_file t))) = A" by (simp add: dr)
    then show ?thesis using assms(4) le by (simp add: take_drop add.commute min_def)
  qed
  have B: "take (?o - (unat off + ?l)) (drop (unat off + ?l) (t_file t)) = B"
  proof -
    have "drop (length A + length old) (drop 4 (take ?o (t_file t))) = B" by (simp add: dr)
    then show ?thesis using assms(3,4) by (simp add: drop_take ac_simps)
  qed
  have "t_body (t\<lparr>t_file := f\<rparr>) = A @ b @ B"
    using A B le flen assms(4) by (simp add: t_body_def f_def)
  moreover have "t_ok (t\<lparr>t_file := f\<rparr>)" using assms(1) fl t4 by (simp add: t_ok_def)
  ultimately show ?thesis using w by auto
qed

end
