(* ===== verification/Array_Table.thy ===== *)
theory Array_Table
  imports Table Iterators
begin

text \<open>
  The sorted array table into which memtables are flushed (\<^verbatim>\<open>array_table.go\<close>,
  \<^verbatim>\<open>array_table_iterator.go\<close>): items of a two byte key length, the key and the value, followed by
  an index of 32-bit item offsets; the header holds the number of items and the place of the
  index. A nil key is \<open>None\<close>. Dereferencing a nil key is a panic, which is the outer \<open>None\<close>.
\<close>

abbreviation (input) atHeaderSize :: u32 where "atHeaderSize \<equiv> 18"
abbreviation (input) atHeaderOffset :: u32 where "atHeaderOffset \<equiv> 4"
abbreviation (input) atDataOffset :: u32 where "atDataOffset \<equiv> 22"
abbreviation (input) itemOffsetSize :: nat where "itemOffsetSize \<equiv> 4"
abbreviation (input) itemHeaderLen :: u32 where "itemHeaderLen \<equiv> 2"
abbreviation (input) atVersionDefault :: u16 where "atVersionDefault \<equiv> 1"

record atHeader =
  h_version :: u16
  h_num :: u32
  h_dataOffset :: u32
  h_intIndexOffset :: u32
  h_mapIndexOffset :: u32

record arrayTable =
  at_tbl :: table
  at_header :: atHeader
  at_itemsOffset :: "u32 list"
  at_intIndex :: bytes
  at_size :: u32
  at_num :: nat

definition newArrayTable :: "bytes \<Rightarrow> (table_error + arrayTable) option" where
  "newArrayTable file =
     do {
       r \<leftarrow> openTable file tableWriteMmap initMmapSize;
       (case r of
          Inl e \<Rightarrow> Some (Inl e)
        | Inr t \<Rightarrow>
            do {
              r \<leftarrow> alloc t atHeaderSize;
              (case r of
                 Inl (e, _) \<Rightarrow> Some (Inl e)
               | Inr (t, headerOffset) \<Rightarrow>
                   if headerOffset \<noteq> atHeaderOffset then Some (Inl ErrHeaderOffset)
                   else Some (Inr
                     \<lparr>at_tbl = t,
                      at_header = \<lparr>h_version = atVersionDefault, h_num = 0, h_dataOffset = atDataOffset,
                                   h_intIndexOffset = 0, h_mapIndexOffset = 0\<rparr>,
                      at_itemsOffset = [], at_intIndex = [], at_size = 0, at_num = 0\<rparr>))
            })
     }"

definition getIntIndexSize :: "arrayTable \<Rightarrow> u32" where
  "getIntIndexSize a = of_nat (at_num a * itemOffsetSize)"

definition dataIntBuffer :: "arrayTable \<Rightarrow> arrayTable option" where
  "dataIntBuffer a =
     map_option (\<lambda>b. a\<lparr>at_intIndex := b\<rparr>)
       (getBytes (at_tbl a) (h_intIndexOffset (at_header a)) (getIntIndexSize a))"

text \<open>\<^verbatim>\<open>writeHeader\<close> and \<^verbatim>\<open>readHeader\<close>: the five fields, one after the other.\<close>

definition header_bytes :: "atHeader \<Rightarrow> bytes" where
  "header_bytes h =
     be_enc 2 (h_version h) @ be_enc 4 (h_num h) @ be_enc 4 (h_dataOffset h)
       @ be_enc 4 (h_intIndexOffset h) @ be_enc 4 (h_mapIndexOffset h)"

definition writeHeader :: "arrayTable \<Rightarrow> arrayTable option" where
  "writeHeader a =
     map_option (\<lambda>t. a\<lparr>at_tbl := t\<rparr>) (writeAt (at_tbl a) (header_bytes (at_header a)) atHeaderOffset)"

definition readHeader :: "arrayTable \<Rightarrow> arrayTable option" where
  "readHeader a =
     do {
       buf \<leftarrow> getBytes (at_tbl a) atHeaderOffset atHeaderSize;
       Some (a\<lparr>at_header :=
         \<lparr>h_version = be_dec (take 2 buf), h_num = be_dec (take 4 (drop 2 buf)),
          h_dataOffset = be_dec (take 4 (drop 6 buf)), h_intIndexOffset = be_dec (take 4 (drop 10 buf)),
          h_mapIndexOffset = be_dec (take 4 (drop 14 buf))\<rparr>\<rparr>)
     }"

definition openArrayTable :: "bytes \<Rightarrow> (table_error + arrayTable) option" where
  "openArrayTable file =
     do {
       r \<leftarrow> openTable file tableReadMmap 0;
       (case r of
          Inl e \<Rightarrow> Some (Inl e)
        | Inr t \<Rightarrow>
            do {
              a \<leftarrow> readHeader
                \<lparr>at_tbl = t,
                 at_header = \<lparr>h_version = 0, h_num = 0, h_dataOffset = 0, h_intIndexOffset = 0, h_mapIndexOffset = 0\<rparr>,
                 at_itemsOffset = [], at_intIndex = [], at_size = 0, at_num = 0\<rparr>;
              a \<leftarrow> dataIntBuffer (a\<lparr>at_num := unat (h_num (at_header a)), at_size := table_Size (at_tbl a)\<rparr>);
              Some (Inr a)
            })
     }"

definition at_set :: "arrayTable \<Rightarrow> bytes \<Rightarrow> bytes \<Rightarrow> (table_error \<times> arrayTable + arrayTable \<times> u32) option" where
  "at_set a key val =
     (let keySize = of_nat (length key) :: u32;
          valueSize = of_nat (length val) :: u32;
          sz = keySize + valueSize + itemHeaderLen
      in do {
        r \<leftarrow> alloc (at_tbl a) sz;
        (case r of
           Inl (e, t) \<Rightarrow> Some (Inl (e, a\<lparr>at_tbl := t\<rparr>))
         | Inr (t, offset) \<Rightarrow>
             do {
               itemBuf \<leftarrow> getBytes t offset sz;
               t \<leftarrow> writeAt t (be_enc 2 (ucast keySize :: u16)) offset;
               t \<leftarrow> writeAt t (take (unat keySize) key) (offset + itemHeaderLen);
               t \<leftarrow> writeAt t (take (unat valueSize) val) (offset + (itemHeaderLen + keySize));
               Some (Inr (a\<lparr>at_tbl := t, at_num := at_num a + 1, at_itemsOffset := at_itemsOffset a @ [offset]\<rparr>, sz))
             })
      })"

text \<open>\<^verbatim>\<open>writeFinish\<close>: the index, the header, and the file cut to its size and mapped for reading.\<close>

definition writeFinish :: "arrayTable \<Rightarrow> (table_error + arrayTable) option" where
  "writeFinish a =
     (let intSize = getIntIndexSize a in
      do {
        r \<leftarrow> alloc (at_tbl a) intSize;
        (case r of
           Inl (e, _) \<Rightarrow> Some (Inl e)
         | Inr (t, intIndexOffset) \<Rightarrow>
             do {
               intIndexBuf \<leftarrow> getBytes t intIndexOffset intSize;
               let index = concat (map (be_enc 4) (at_itemsOffset a));
               t \<leftarrow> (if length intIndexBuf < length index then None else writeAt t index intIndexOffset);
               let a = a\<lparr>at_tbl := t, at_size := table_Size t, at_itemsOffset := [],
                         at_header := (at_header a)\<lparr>h_num := of_nat (at_num a),
                           h_intIndexOffset := intIndexOffset, h_mapIndexOffset := 0\<rparr>\<rparr>;
               a \<leftarrow> writeHeader a;
               let a = a\<lparr>at_tbl := mmapReadTruncate (at_tbl a) (unat (at_size a))\<rparr>;
               a \<leftarrow> dataIntBuffer a;
               Some (Inr a)
             })
      })"

section \<open>Lookups\<close>

definition getItemOffset :: "arrayTable \<Rightarrow> int \<Rightarrow> u32 option" where
  "getItemOffset a i =
     (if i < 0 \<or> i \<ge> int (at_num a) then Some 0
      else
        let pos = nat i * itemOffsetSize in
        map_option be_dec (go_slice (at_intIndex a) pos (pos + itemOffsetSize)))"

definition at_getKey :: "arrayTable \<Rightarrow> int \<Rightarrow> bytes option option" where
  "at_getKey a i =
     do {
       itemOffset \<leftarrow> getItemOffset a i;
       (if itemOffset = 0 then Some None
        else
          do {
            kb \<leftarrow> getBytes (at_tbl a) itemOffset itemHeaderLen;
            let keySize = (ucast (be_dec kb :: u16) :: u32);
            key \<leftarrow> getBytes (at_tbl a) (itemOffset + itemHeaderLen) keySize;
            Some (Some key)
          })
     }"

definition at_getKV :: "arrayTable \<Rightarrow> int \<Rightarrow> (bytes \<times> bytes) option option" where
  "at_getKV a i =
     do {
       itemOffset \<leftarrow> getItemOffset a i;
       (if itemOffset = 0 then Some None
        else
          do {
            nextOffset \<leftarrow> (if i = int (at_num a) - 1 then Some (h_intIndexOffset (at_header a)) else getItemOffset a (i + 1));
            let itemSize = nextOffset - itemOffset;
            kb \<leftarrow> getBytes (at_tbl a) itemOffset itemHeaderLen;
            let keySize = (ucast (be_dec kb :: u16) :: u32);
            let keyOffset = itemOffset + itemHeaderLen;
            key \<leftarrow> getBytes (at_tbl a) keyOffset keySize;
            let valueSize = itemSize - keySize - itemHeaderLen;
            val \<leftarrow> getBytes (at_tbl a) (keyOffset + keySize) valueSize;
            Some (Some (key, val))
          })
     }"

text \<open>\<^verbatim>\<open>findKeyIndexPos\<close> compares a nil key as an empty one.\<close>

definition findKeyIndexPos :: "arrayTable \<Rightarrow> bytes \<Rightarrow> nat option" where
  "findKeyIndexPos a key =
     sort_Search (at_num a)
       (\<lambda>i. map_option (\<lambda>k. bytes_Compare (case k of None \<Rightarrow> [] | Some k \<Rightarrow> k) key \<noteq> -1) (at_getKey a (int i)))"

definition at_get :: "arrayTable \<Rightarrow> bytes \<Rightarrow> (bytes \<times> bool \<times> InternalKeyKind) option" where
  "at_get a key =
     do {
       pos \<leftarrow> findKeyIndexPos a key;
       kv \<leftarrow> at_getKV a (int pos);
       (case kv of
          None \<Rightarrow> Some ([], False, InternalKeyKindInvalid)
        | Some (k, v) \<Rightarrow> Some (v, True, InternalKeyKindSet))
     }"

definition at_itemCount :: "arrayTable \<Rightarrow> nat" where
  "at_itemCount a = at_num a"

definition at_totalBytes :: "arrayTable \<Rightarrow> u64" where
  "at_totalBytes a = ucast (table_Size (at_tbl a))"

definition at_empty :: "arrayTable \<Rightarrow> bool" where
  "at_empty a \<longleftrightarrow> at_num a = 0"

section \<open>The iterators\<close>

record arrayTableIterator =
  ai_at :: arrayTable
  ai_intIndexPos :: int
  ai_lower :: "bytes option"
  ai_upper :: "bytes option"

definition at_newIter :: "arrayTable \<Rightarrow> bytes option \<Rightarrow> bytes option \<Rightarrow> arrayTableIterator" where
  "at_newIter a lower upper = \<lparr>ai_at = a, ai_intIndexPos = 0, ai_lower = lower, ai_upper = upper\<rparr>"

definition ai_findItem :: "arrayTableIterator \<Rightarrow> (InternalKey \<times> bytes) option option" where
  "ai_findItem i =
     map_option (map_option (\<lambda>(key, val). (MakeInternalSetKey key, val))) (at_getKV (ai_at i) (ai_intIndexPos i))"

text \<open>The check of the upper bound that ends \<^verbatim>\<open>First\<close>, \<^verbatim>\<open>Next\<close> and \<^verbatim>\<open>SeekGE\<close>, and of the lower bound that
  ends \<^verbatim>\<open>Last\<close> and \<^verbatim>\<open>Prev\<close>: with a bound set, the key is dereferenced even when it is nil.\<close>

definition ai_upto :: "arrayTableIterator \<Rightarrow> (arrayTableIterator \<times> (InternalKey \<times> bytes) option) option" where
  "ai_upto i =
     do {
       kv \<leftarrow> ai_findItem i;
       (case ai_upper i of
          None \<Rightarrow> Some (i, kv)
        | Some upper \<Rightarrow>
            do { (k, v) \<leftarrow> kv; Some (i, if bytes_Compare upper (UserKey k) \<le> 0 then None else kv) })
     }"

definition ai_downto :: "arrayTableIterator \<Rightarrow> (arrayTableIterator \<times> (InternalKey \<times> bytes) option) option" where
  "ai_downto i =
     do {
       kv \<leftarrow> ai_findItem i;
       (case ai_lower i of
          None \<Rightarrow> Some (i, kv)
        | Some lower \<Rightarrow>
            do { (k, v) \<leftarrow> kv; Some (i, if bytes_Compare lower (UserKey k) > 0 then None else kv) })
     }"

definition ai_First :: "arrayTableIterator \<Rightarrow> (arrayTableIterator \<times> (InternalKey \<times> bytes) option) option" where
  "ai_First i = ai_upto (i\<lparr>ai_intIndexPos := 0\<rparr>)"

definition ai_Next :: "arrayTableIterator \<Rightarrow> (arrayTableIterator \<times> (InternalKey \<times> bytes) option) option" where
  "ai_Next i = ai_upto (i\<lparr>ai_intIndexPos := ai_intIndexPos i + 1\<rparr>)"

definition ai_Prev :: "arrayTableIterator \<Rightarrow> (arrayTableIterator \<times> (InternalKey \<times> bytes) option) option" where
  "ai_Prev i = ai_downto (i\<lparr>ai_intIndexPos := ai_intIndexPos i - 1\<rparr>)"

definition ai_Last :: "arrayTableIterator \<Rightarrow> (arrayTableIterator \<times> (InternalKey \<times> bytes) option) option" where
  "ai_Last i = ai_downto (i\<lparr>ai_intIndexPos := int (at_num (ai_at i)) - 1\<rparr>)"

definition ai_SeekGE :: "arrayTableIterator \<Rightarrow> bytes \<Rightarrow> (arrayTableIterator \<times> (InternalKey \<times> bytes) option) option" where
  "ai_SeekGE i key =
     do { pos \<leftarrow> findKeyIndexPos (ai_at i) key; ai_upto (i\<lparr>ai_intIndexPos := int pos\<rparr>) }"

definition ai_SeekLT :: "arrayTableIterator \<Rightarrow> bytes \<Rightarrow> (arrayTableIterator \<times> (InternalKey \<times> bytes) option) option" where
  "ai_SeekLT i key =
     do {
       pos \<leftarrow> findKeyIndexPos (ai_at i) key;
       let i = i\<lparr>ai_intIndexPos := int pos\<rparr>;
       poskey \<leftarrow> ai_findItem i;
       (if poskey \<noteq> None then ai_Prev i
        else
          do {
            (i, kv) \<leftarrow> ai_Last i;
            Some (i,
              case kv of
                None \<Rightarrow> None
              | Some (k, v) \<Rightarrow>
                  if bytes_Compare (UserKey k) key < 0 then
                    (case ai_lower i of
                       None \<Rightarrow> Some (k, v)
                     | Some lower \<Rightarrow> if bytes_Compare lower (UserKey k) > 0 then None else Some (k, v))
                  else None)
          })
     }"

definition ai_SetBounds :: "arrayTableIterator \<Rightarrow> bytes option \<Rightarrow> bytes option \<Rightarrow> arrayTableIterator" where
  "ai_SetBounds i lower upper = i\<lparr>ai_lower := lower, ai_upper := upper\<rparr>"

record arrayTableFlushIterator =
  af_iter :: arrayTableIterator
  af_bytes :: u64

definition at_newFlushIter :: "arrayTable \<Rightarrow> u64 \<Rightarrow> arrayTableFlushIterator" where
  "at_newFlushIter a flushed = \<lparr>af_iter = at_newIter a None None, af_bytes = flushed\<rparr>"

definition af_show :: "arrayTableFlushIterator \<Rightarrow> (arrayTableFlushIterator \<times> (InternalKey \<times> bytes) option) option" where
  "af_show f =
     do {
       kv \<leftarrow> ai_findItem (af_iter f);
       Some (case kv of
         None \<Rightarrow> (f, None)
       | Some (k, v) \<Rightarrow>
           if (case ai_upper (af_iter f) of None \<Rightarrow> False | Some upper \<Rightarrow> bytes_Compare upper (UserKey k) \<le> 0)
           then (f, None)
           else (f\<lparr>af_bytes := af_bytes f + of_nat (InternalKey_Size k + length v)\<rparr>, Some (k, v)))
     }"

definition af_First :: "arrayTableFlushIterator \<Rightarrow> (arrayTableFlushIterator \<times> (InternalKey \<times> bytes) option) option" where
  "af_First f = af_show (f\<lparr>af_iter := (af_iter f)\<lparr>ai_intIndexPos := 0\<rparr>\<rparr>)"

definition af_Next :: "arrayTableFlushIterator \<Rightarrow> (arrayTableFlushIterator \<times> (InternalKey \<times> bytes) option) option" where
  "af_Next f = af_show (f\<lparr>af_iter := (af_iter f)\<lparr>ai_intIndexPos := ai_intIndexPos (af_iter f) + 1\<rparr>\<rparr>)"

section \<open>Writing a table\<close>

definition item :: "bytes \<times> bytes \<Rightarrow> bytes" where
  "item kv = be_enc 2 (of_nat (length (fst kv)) :: u16) @ fst kv @ snd kv"

definition items :: "(bytes \<times> bytes) list \<Rightarrow> bytes" where
  "items kvs = concat (map item kvs)"

definition item_pos :: "(bytes \<times> bytes) list \<Rightarrow> nat \<Rightarrow> nat" where
  "item_pos kvs i = 22 + length (items (take i kvs))"

definition item_index :: "(bytes \<times> bytes) list \<Rightarrow> u32 list" where
  "item_index kvs = map (\<lambda>i. of_nat (item_pos kvs i)) [0..<length kvs]"

definition index_bytes :: "(bytes \<times> bytes) list \<Rightarrow> bytes" where
  "index_bytes kvs = concat (map (be_enc 4) (item_index kvs))"

lemma length_index_bytes [simp]: "length (index_bytes kvs) = 4 * length kvs"
proof -
  have "length (concat (map (be_enc 4) (xs :: u32 list))) = 4 * length xs" for xs by (induction xs) auto
  from this [of "item_index kvs"] show ?thesis by (simp only: index_bytes_def) (simp add: item_index_def)
qed

lemma length_item: "length (item kv) = 2 + length (fst kv) + length (snd kv)"
  by (simp add: item_def)

lemma items_append: "items (kvs @ [kv]) = items kvs @ item kv"
  by (simp add: items_def)

lemma item_index_append: "item_index (kvs @ [kv]) = item_index kvs @ [of_nat (22 + length (items kvs))]"
  by (simp add: item_index_def item_pos_def)

text \<open>While items are added: the header's place, then the items.\<close>

definition at_writing :: "arrayTable \<Rightarrow> (bytes \<times> bytes) list \<Rightarrow> bool" where
  "at_writing a kvs \<longleftrightarrow>
     t_ok (at_tbl a) \<and> (\<exists>H. length H = 18 \<and> t_body (at_tbl a) = H @ items kvs)
     \<and> at_itemsOffset a = item_index kvs \<and> at_num a = length kvs"

lemma at_writing_offset:
  assumes "at_writing a kvs"
  shows "unat (t_offset (at_tbl a)) = 22 + length (items kvs)"
proof -
  obtain H where H: "length H = 18" "t_body (at_tbl a) = H @ items kvs" "t_ok (at_tbl a)"
    using assms by (auto simp: at_writing_def)
  then have "unat (t_offset (at_tbl a)) - 4 = 18 + length (items kvs)"
    using length_t_body [OF H(3)] by simp
  then show ?thesis by linarith
qed

lemma at_set_ok:
  assumes "at_writing a kvs" and "22 + length (items (kvs @ [(key, val)])) < 2 ^ 32"
  shows "\<exists>a'. at_set a key val = Some (Inr (a', of_nat (length (item (key, val))))) \<and> at_writing a' (kvs @ [(key, val)])
    \<and> at_header a' = at_header a"
proof -
  let ?t = "at_tbl a" and ?kn = "of_nat (length key) :: u32" and ?vn = "of_nat (length val) :: u32"
  let ?sz = "?kn + ?vn + 2"
  note off = at_writing_offset [OF assms(1)]
  obtain H where H: "length H = 18" "t_body ?t = H @ items kvs" and ok: "t_ok ?t"
    using assms(1) by (auto simp: at_writing_def)
  have small: "22 + length (items kvs) + 2 + length key + length val < 2 ^ 32"
    using assms(2) by (simp add: items_append length_item)
  have kn: "unat ?kn = length key" "unat ?vn = length val" using small by (simp_all add: unat_of_nat)
  have sz: "?sz = of_nat (length (item (key, val)))" by (simp add: length_item)
  have li: "length (item (key, val)) < 2 ^ 32" using small by (simp add: length_item)
  have usz: "unat ?sz = 2 + length key + length val" 
    unfolding sz unat32 [OF li] by (simp add: length_item)
  obtain t1 ext where t1: "alloc ?t ?sz = Some (Inr (t1, t_offset ?t))" "t_ok t1" "t_offset t1 = t_offset ?t + ?sz"
      "length ext = 2 + length key + length val" "t_body t1 = H @ items kvs @ ext"
    using alloc_ok [OF ok, of ?sz] off small usz H(2) by auto
  obtain e1 e2 e3 where ext: "ext = e1 @ e2 @ e3" "length e1 = 2" "length e2 = length key" "length e3 = length val"
  proof
    show "ext = take 2 ext @ take (length key) (drop 2 ext) @ drop (2 + length key) ext"
      using append_take_drop_id [of 2 ext] append_take_drop_id [of "length key" "drop 2 ext"] by (simp add: add.commute)
  qed (use t1(4) in simp_all)
  have u1: "unat (t_offset t1) = unat (t_offset ?t) + unat ?sz"
    unfolding t1(3) using off usz small by (intro unat_plus) simp
  have get: "\<exists>b. getBytes t1 (t_offset ?t) ?sz = Some b"
    using getBytes_body [OF t1(2), of "t_offset ?t" ?sz] off u1 by simp
  have o1: "unat (t_offset ?t + 2) = unat (t_offset ?t) + 2"
    using unat_plus [of "t_offset ?t" 2] off small by simp
  have o2: "unat (t_offset ?t + (2 + ?kn)) = unat (t_offset ?t) + 2 + length key"
    using unat_plus [of "t_offset ?t" "2 + ?kn"] unat_plus [of 2 ?kn] off small kn by simp
  let ?kl = "be_enc 2 (ucast ?kn :: u16)"
  have p: "unat (t_offset ?t) = 4 + length (H @ items kvs)" "unat (t_offset ?t + 2) = 4 + length ((H @ items kvs) @ ?kl)"
      "unat (t_offset ?t + (2 + ?kn)) = 4 + length (((H @ items kvs) @ ?kl) @ key)"
    using H(1) off o1 o2 by simp_all
  have "t_body t1 = (H @ items kvs) @ e1 @ e2 @ e3" using t1(5) ext(1) by simp
  from writeAt_body [OF t1(2) this _ p(1), of ?kl] ext(2) obtain t2 where
    t2: "writeAt t1 ?kl (t_offset ?t) = Some t2" "t_ok t2" "t_body t2 = ((H @ items kvs) @ ?kl) @ e2 @ e3" by auto
  from writeAt_body [OF t2(2,3) _ p(2), of key] ext(3) obtain t3 where
    t3: "writeAt t2 key (t_offset ?t + 2) = Some t3" "t_ok t3" "t_body t3 = (((H @ items kvs) @ ?kl) @ key) @ e3 @ []" by auto
  from writeAt_body [OF t3(2,3) _ p(3), of val] ext(4) obtain t4 where
    t4: "writeAt t3 val (t_offset ?t + (2 + ?kn)) = Some t4" "t_ok t4" "t_body t4 = H @ items kvs @ ?kl @ key @ val" by auto
  have "length key < 2 ^ 32" using small by simp
  then have kl: "(ucast ?kn :: u16) = of_nat (length key)" by (simp add: unsigned_of_nat take_bit_nat_eq_self)
  let ?a = "a\<lparr>at_tbl := t4, at_num := at_num a + 1, at_itemsOffset := at_itemsOffset a @ [t_offset ?t]\<rparr>"
  have "at_set a key val = Some (Inr (?a, ?sz))"
    using t1(1) get t2(1) t3(1) t4(1) kn by (auto simp: at_set_def Let_def)
  moreover have "t_offset ?t = of_nat (22 + length (items kvs))"
    unfolding off [symmetric] by simp
  then have "at_writing ?a (kvs @ [(key, val)])"
    using assms(1) t4 H(1) kl by (auto simp: at_writing_def items_append item_index_append item_def)
  ultimately show ?thesis using sz by auto
qed

lemma newArrayTable_ok: "\<exists>a. newArrayTable [] = Some (Inr a) \<and> at_writing a []"
proof -
  obtain m where m: "calcExpandSize initMmapSize = Inr m" "4 \<le> m" using calcExpandSize_ok [of initMmapSize] by auto
  let ?t = "\<lparr>t_file = [], t_offset = 0, t_datasz = m\<rparr> :: table"
  obtain t1 z where t1: "expandFileSize (?t\<lparr>t_offset := 4\<rparr>) 4 = Inr t1" "4 \<le> t_filesz t1" "t_offset t1 = 4"
      "t_datasz t1 = m" "t_file t1 = z"
    using expandFileSize_ok [of 4 "?t\<lparr>t_offset := 4\<rparr>"] by auto
  let ?t2 = "t1\<lparr>t_file := be_enc 4 (4 :: u32) @ drop 4 (t_file t1)\<rparr>"
  have al: "alloc ?t 4 = Some (Inr (?t2, 0))"
    using t1 m(2) setOffset_ok [of t1 4] by (simp add: alloc_def Let_def expandMmapSize_def)
  have t2: "setOffset ?t2 4 = Some ?t2" using setOffset_ok [of ?t2 4] t1 m(2) by simp
  have go: "getOffset ?t2 = Some 4"
    using t1 m(2) by (simp add: getOffset_def readAtUInt32_def getBytes_def mapped_def be_dec_enc)
  have t2o: "?t2\<lparr>t_offset := 4\<rparr> = ?t2" using t1(3) by simp
  have open': "openTable [] tableWriteMmap initMmapSize = Some (Inr ?t2)"
    using m al t2 go t2o by (simp add: openTable_def Let_def mmapWrite_def initHeader_def)
  have ok: "t_ok ?t2" using t1 m(2) by (simp add: t_ok_def)
  have body: "t_body ?t2 = []" using t1(3) by (simp add: t_body_def)
  obtain t3 ext where "alloc ?t2 18 = Some (Inr (t3, 4))" "t_ok t3" "length ext = 18" "t_body t3 = ext"
    using alloc_ok [OF ok, of 18] t1(3) body by auto
  with open' show ?thesis
    by (auto simp: newArrayTable_def at_writing_def items_def item_index_def)
qed

text \<open>A finished table: header, items and index, and nothing else in the file.\<close>

definition at_finished :: "arrayTable \<Rightarrow> (bytes \<times> bytes) list \<Rightarrow> bool" where
  "at_finished a kvs \<longleftrightarrow>
     t_ok (at_tbl a) \<and> t_filesz (at_tbl a) = unat (t_offset (at_tbl a)) \<and> t_datasz (at_tbl a) = unat (t_offset (at_tbl a))
     \<and> t_body (at_tbl a) = header_bytes (at_header a) @ items kvs @ index_bytes kvs
     \<and> h_num (at_header a) = of_nat (length kvs) \<and> h_intIndexOffset (at_header a) = of_nat (22 + length (items kvs))
     \<and> at_intIndex a = index_bytes kvs \<and> at_num a = length kvs
     \<and> 22 + length (items kvs) + 4 * length kvs < 2 ^ 32"

lemma length_header_bytes [simp]: "length (header_bytes h) = 18"
  by (simp add: header_bytes_def)

lemma mmapReadTruncate_ok:
  assumes "t_ok t" and "n = unat (t_offset t)"
  defines "t' \<equiv> mmapReadTruncate t n"
  shows "t_ok t'" and "t_body t' = t_body t" and "t_offset t' = t_offset t" and "t_filesz t' = n" and "t_datasz t' = n"
  using assms
  by (auto simp: t'_def mmapReadTruncate_def mmapRead_def fileTruncate_def t_ok_def t_body_def min_def)

lemma dataIntBuffer_ok:
  assumes "t_ok (at_tbl a)" and "t_body (at_tbl a) = H @ items kvs @ index_bytes kvs" and "length H = 18"
    and "h_intIndexOffset (at_header a) = of_nat (22 + length (items kvs))" and "at_num a = length kvs"
    and "22 + length (items kvs) + 4 * length kvs < 2 ^ 32"
  shows "dataIntBuffer a = Some (a\<lparr>at_intIndex := index_bytes kvs\<rparr>)"
proof -
  let ?off = "of_nat (22 + length (items kvs)) :: u32" and ?n = "of_nat (length kvs * 4) :: u32"
  have u: "unat ?off = 22 + length (items kvs)" "unat ?n = length kvs * 4"
    using assms(6) by (intro unat32, linarith)+
  have "unat (t_offset (at_tbl a)) - 4 = 18 + length (items kvs) + 4 * length kvs"
    using length_t_body [OF assms(1)] assms(2,3) by simp
  then have o: "unat (t_offset (at_tbl a)) = 22 + length (items kvs) + 4 * length kvs" by linarith
  have "getBytes (at_tbl a) ?off ?n = Some (take (unat ?n) (drop (unat ?off - 4) (t_body (at_tbl a))))"
    by (rule getBytes_body [OF assms(1)]) (use u o in simp_all)
  also have "take (unat ?n) (drop (unat ?off - 4) (t_body (at_tbl a))) = index_bytes kvs"
    unfolding u assms(2) using assms(3) by simp
  finally show ?thesis using assms(4,5) by (simp add: dataIntBuffer_def getIntIndexSize_def)
qed

lemma writeFinish_ok:
  assumes "at_writing a kvs" and "22 + length (items kvs) + 4 * length kvs < 2 ^ 32"
  shows "\<exists>a'. writeFinish a = Some (Inr a') \<and> at_finished a' kvs"
proof -
  let ?t = "at_tbl a" and ?n = "of_nat (length kvs * 4) :: u32"
  note off = at_writing_offset [OF assms(1)]
  obtain H where H: "length H = 18" "t_body ?t = H @ items kvs" and ok: "t_ok ?t"
      and idx: "at_itemsOffset a = item_index kvs" and num: "at_num a = length kvs"
    using assms(1) by (auto simp: at_writing_def)
  have un: "unat ?n = length kvs * 4" using assms(2) by (intro unat32) linarith
  obtain t1 ext where t1: "alloc ?t ?n = Some (Inr (t1, t_offset ?t))" "t_ok t1" "t_offset t1 = t_offset ?t + ?n"
      "length ext = length kvs * 4" "t_body t1 = (H @ items kvs) @ ext @ []"
    using alloc_ok [OF ok, of ?n] off assms(2) un H(2) by auto
  have u1: "unat (t_offset t1) = 22 + length (items kvs) + length kvs * 4"
    unfolding t1(3) using unat_plus [of "t_offset ?t" ?n] off un assms(2) by simp
  have get: "getBytes t1 (t_offset ?t) ?n = Some ext"
    using getBytes_body [OF t1(2), of "t_offset ?t" ?n] off u1 un H(1) t1(4,5) by simp
  have p: "unat (t_offset ?t) = 4 + length (H @ items kvs)" using off H(1) by simp
  from writeAt_body [OF t1(2,5) _ p, of "index_bytes kvs"] t1(4) obtain t2 where
    t2: "writeAt t1 (index_bytes kvs) (t_offset ?t) = Some t2" "t_ok t2" "t_offset t2 = t_offset t1"
      "t_body t2 = [] @ H @ items kvs @ index_bytes kvs" by auto
  have oo: "t_offset ?t = of_nat (22 + length (items kvs))" unfolding off [symmetric] by simp
  let ?h = "(at_header a)\<lparr>h_num := of_nat (length kvs), h_intIndexOffset := t_offset ?t, h_mapIndexOffset := 0\<rparr>"
  from writeAt_body [OF t2(2,4), of "header_bytes ?h" 4] H(1) obtain t3 where
    t3: "writeAt t2 (header_bytes ?h) 4 = Some t3" "t_ok t3" "t_offset t3 = t_offset t1"
      "t_body t3 = header_bytes ?h @ items kvs @ index_bytes kvs" using t2(3) by auto
  let ?t4 = "mmapReadTruncate t3 (unat (t_offset t1))"
  note t4 = mmapReadTruncate_ok [OF t3(2), of "unat (t_offset t1)", unfolded t3(3), OF refl]
  let ?a4 = "a\<lparr>at_size := t_offset t1, at_itemsOffset := [], at_header := ?h, at_tbl := ?t4\<rparr>"
  let ?a5 = "?a4\<lparr>at_intIndex := index_bytes kvs\<rparr>"
  have d: "dataIntBuffer ?a4 = Some ?a5"
    by (rule dataIntBuffer_ok [where H = "header_bytes ?h"]) (use t4 t3 oo num assms(2) in simp_all)
  have ix: "concat (map (be_enc 4) (at_itemsOffset a)) = index_bytes kvs" by (simp add: idx index_bytes_def)
  have lx: "\<not> length ext < length (index_bytes kvs)" using t1(4) by simp
  have "writeFinish a = Some (Inr ?a5)"
    unfolding writeFinish_def Let_def getIntIndexSize_def num ix
    using t1(1) get lx t2(1,3) t3(1) d by (simp add: writeHeader_def table_Size_def)
  moreover have "at_finished ?a5 kvs"
    unfolding at_finished_def using t4 t3 oo num assms(2) by simp
  ultimately show ?thesis by blast
qed


text \<open>Opening the file of a finished table gives the table back.\<close>

lemma header_bytes_decode:
  "be_dec (take 2 (header_bytes h)) = h_version h" "be_dec (take 4 (drop 2 (header_bytes h))) = h_num h"
  "be_dec (take 4 (drop 6 (header_bytes h))) = h_dataOffset h"
  "be_dec (take 4 (drop 10 (header_bytes h))) = h_intIndexOffset h"
  "be_dec (drop 14 (header_bytes h)) = h_mapIndexOffset h"
  by (simp_all add: header_bytes_def be_dec_enc)

lemma openArrayTable_ok:
  assumes "at_finished a kvs"
  shows "\<exists>a'. openArrayTable (t_file (at_tbl a)) = Some (Inr a') \<and> at_finished a' kvs"
proof -
  let ?t = "at_tbl a"
  have ok: "t_ok ?t" and sz: "t_filesz ?t = unat (t_offset ?t)" "t_datasz ?t = unat (t_offset ?t)"
    and body: "t_body ?t = header_bytes (at_header a) @ items kvs @ index_bytes kvs"
    and num: "h_num (at_header a) = of_nat (length kvs)" and fits: "22 + length (items kvs) + 4 * length kvs < 2 ^ 32"
    and ix: "h_intIndexOffset (at_header a) = of_nat (22 + length (items kvs))"
    using assms by (simp_all add: at_finished_def)
  have "unat (t_offset ?t) - 4 = 18 + length (items kvs) + 4 * length kvs"
    using length_t_body [OF ok] body by simp
  then have o: "unat (t_offset ?t) = 22 + length (items kvs) + 4 * length kvs" by linarith
  have go: "getOffset (?t\<lparr>t_offset := 0\<rparr>) = Some (t_offset ?t)"
    using ok sz o
    by (simp add: getOffset_def readAtUInt32_def getBytes_def mapped_def t_ok_def be_dec_enc)
  have t: "\<lparr>t_file = t_file ?t, t_offset = 0, t_datasz = unat (t_offset ?t)\<rparr> = ?t\<lparr>t_offset := 0\<rparr>"
    using sz(2) by (cases ?t) simp
  have open': "openTable (t_file ?t) tableReadMmap 0 = Some (Inr ?t)"
    unfolding openTable_def Let_def mmapRead_def table_open_type.case table.update_convs table.select_convs sz(1) t go
    by simp
  have gb: "getBytes ?t 4 18 = Some (header_bytes (at_header a))"
    using getBytes_body [OF ok, of 4 18] o body by simp
  have n32: "unat (of_nat (length kvs) :: u32) = length kvs" using fits by (intro unat32) linarith
  let ?a = "\<lambda>h n s ix. \<lparr>at_tbl = ?t, at_header = h, at_itemsOffset = [], at_intIndex = ix, at_size = s, at_num = n\<rparr>"
  let ?a1 = "?a (at_header a) (length kvs) (t_offset ?t) []"
  have "dataIntBuffer ?a1 = Some (?a1\<lparr>at_intIndex := index_bytes kvs\<rparr>)"
    by (rule dataIntBuffer_ok [where H = "header_bytes (at_header a)"]) (use ok body ix fits in simp_all)
  moreover have "readHeader (?a h0 0 0 []) = Some (?a (at_header a) 0 0 [])" for h0
    using gb by (simp add: readHeader_def header_bytes_decode)
  ultimately have "openArrayTable (t_file ?t) = Some (Inr (?a1\<lparr>at_intIndex := index_bytes kvs\<rparr>))"
    using open' num n32 by (simp add: openArrayTable_def table_Size_def)
  moreover have "at_finished (?a1\<lparr>at_intIndex := index_bytes kvs\<rparr>) kvs"
    using ok sz body num fits ix by (simp add: at_finished_def)
  ultimately show ?thesis by blast
qed

section \<open>Reading a finished table\<close>

text \<open>What a reader sees: the pairs in order, and nil outside.\<close>

definition at_shows :: "arrayTable \<Rightarrow> (bytes \<times> bytes) list \<Rightarrow> bool" where
  "at_shows a kvs \<longleftrightarrow>
     at_num a = length kvs
     \<and> (\<forall>i. at_getKV a i = Some (if 0 \<le> i \<and> i < int (length kvs) then Some (kvs ! nat i) else None))
     \<and> (\<forall>i. at_getKey a i = Some (if 0 \<le> i \<and> i < int (length kvs) then Some (fst (kvs ! nat i)) else None))"

lemma drop_blocks: "drop (i * 4) (concat (map (be_enc 4) (xs :: u32 list))) = concat (map (be_enc 4) (drop i xs))"
proof (induction xs arbitrary: i)
  case (Cons x xs)
  then show ?case by (cases i) simp_all
qed simp

lemma item_pos_Suc: "i < length kvs \<Longrightarrow> item_pos kvs (Suc i) = item_pos kvs i + length (item (kvs ! i))"
  by (simp add: item_pos_def items_def take_Suc_conv_app_nth)

lemma item_pos_all: "item_pos kvs (length kvs) = 22 + length (items kvs)"
  by (simp add: item_pos_def)

lemma item_pos_le: "i \<le> length kvs \<Longrightarrow> item_pos kvs i \<le> 22 + length (items kvs)"
proof -
  have "items kvs = items (take i kvs) @ items (drop i kvs)" by (simp add: items_def flip: concat_append map_append)
  then show ?thesis by (simp add: item_pos_def)
qed

lemma getItemOffset_finished:
  assumes "at_finished a kvs"
  shows "i < length kvs \<Longrightarrow> getItemOffset a (int i) = Some (of_nat (item_pos kvs i))"
    and "j < 0 \<or> int (length kvs) \<le> j \<Longrightarrow> getItemOffset a j = Some 0"
    and "i \<le> length kvs \<Longrightarrow> unat (of_nat (item_pos kvs i) :: u32) = item_pos kvs i"
proof -
  have a: "at_intIndex a = index_bytes kvs" "at_num a = length kvs" "22 + length (items kvs) + 4 * length kvs < 2 ^ 32"
    using assms by (simp_all add: at_finished_def)
  show "j < 0 \<or> int (length kvs) \<le> j \<Longrightarrow> getItemOffset a j = Some 0"
    using a(2) by (auto simp: getItemOffset_def)
  show "i \<le> length kvs \<Longrightarrow> unat (of_nat (item_pos kvs i) :: u32) = item_pos kvs i"
    using item_pos_le [of i kvs] a(3) by (intro unat32) linarith
  assume i: "i < length kvs"
  have "drop i (item_index kvs) = item_index kvs ! i # drop (Suc i) (item_index kvs)"
    using i Cons_nth_drop_Suc [of i "item_index kvs"] by (simp add: item_index_def)
  then have "take 4 (drop (i * 4) (index_bytes kvs)) = be_enc 4 (item_index kvs ! i)"
    unfolding index_bytes_def drop_blocks by simp
  then have "go_slice (index_bytes kvs) (i * 4) (i * 4 + 4) = Some (be_enc 4 (item_index kvs ! i))"
    using i by (simp add: go_slice_def)
  then show "getItemOffset a (int i) = Some (of_nat (item_pos kvs i))"
    using i a by (simp add: getItemOffset_def be_dec_enc item_index_def)
qed

lemma item_place:
  assumes "at_finished a kvs" and "i < length kvs"
  shows "\<exists>rest. drop (item_pos kvs i - 4) (t_body (at_tbl a)) = item (kvs ! i) @ rest"
    and "unat (t_offset (at_tbl a)) \<ge> item_pos kvs (Suc i)"
proof -
  let ?b = "t_body (at_tbl a)"
  have ok: "t_ok (at_tbl a)" and b: "?b = header_bytes (at_header a) @ items kvs @ index_bytes kvs"
    using assms(1) by (simp_all add: at_finished_def)
  have s: "items kvs = items (take i kvs) @ item (kvs ! i) @ items (drop (Suc i) kvs)"
    by (subst id_take_nth_drop [OF assms(2)]) (simp add: items_def)
  show "\<exists>rest. drop (item_pos kvs i - 4) ?b = item (kvs ! i) @ rest"
    unfolding b by (subst s) (simp add: item_pos_def)
  have "length ?b = unat (t_offset (at_tbl a)) - 4" by (rule length_t_body [OF ok])
  then have "18 + length (items kvs) \<le> unat (t_offset (at_tbl a)) - 4" unfolding b by simp
  then show "unat (t_offset (at_tbl a)) \<ge> item_pos kvs (Suc i)"
    using item_pos_le [of "Suc i" kvs] assms(2) by linarith
qed

lemma finished_item:
  assumes "at_finished a kvs" and "i < length kvs" and "kvs ! i = (key, val)" and "length key < 2 ^ 16"
  defines "off \<equiv> of_nat (item_pos kvs i) :: u32"
  shows "off \<noteq> 0" and "getBytes (at_tbl a) off 2 = Some (be_enc 2 (of_nat (length key) :: u16))"
    and "ucast (of_nat (length key) :: u16) = (of_nat (length key) :: u32)"
    and "getBytes (at_tbl a) (off + 2) (of_nat (length key)) = Some key"
    and "getBytes (at_tbl a) (off + 2 + of_nat (length key)) (of_nat (length val)) = Some val"
    and "of_nat (item_pos kvs (Suc i)) - off - of_nat (length key) - 2 = (of_nat (length val) :: u32)"
proof -
  have fin: "t_ok (at_tbl a)" using assms(1) by (simp add: at_finished_def)
  have uo: "unat off = item_pos kvs i" unfolding off_def using getItemOffset_finished(3) [OF assms(1)] assms(2) by simp
  have p22: "22 \<le> item_pos kvs i" by (simp add: item_pos_def)
  show "off \<noteq> 0" using uo p22 by auto
  have nxt: "item_pos kvs (Suc i) = item_pos kvs i + 2 + length key + length val"
    using item_pos_Suc [OF assms(2)] assms(3) by (simp add: length_item)
  obtain rest where r: "drop (item_pos kvs i - 4) (t_body (at_tbl a)) =
      be_enc 2 (of_nat (length key) :: u16) @ key @ val @ rest"
    using item_place(1) [OF assms(1,2)] assms(3) by (auto simp: item_def)
  have le: "item_pos kvs i + 2 + length key + length val \<le> unat (t_offset (at_tbl a))"
    using item_place(2) [OF assms(1,2)] nxt by simp
  have o32: "unat (t_offset (at_tbl a)) < 2 ^ 32" using unsigned_less [of "t_offset (at_tbl a)"] by simp
  have uk: "unat (of_nat (length key) :: u32) = length key" and uv: "unat (of_nat (length val) :: u32) = length val"
    using le o32 by (intro unat32, linarith)+
  have u2: "unat (off + 2) = item_pos kvs i + 2" using unat_plus [of off 2] uo le o32 by simp
  have u3: "unat (off + 2 + of_nat (length key)) = item_pos kvs i + 2 + length key"
    using unat_plus [of "off + 2" "of_nat (length key)"] u2 uk le o32 by simp
  have dr: "drop (item_pos kvs i + j - 4) (t_body (at_tbl a)) = drop j (be_enc 2 (of_nat (length key) :: u16) @ key @ val @ rest)" for j
  proof -
    have "item_pos kvs i + j - 4 = j + (item_pos kvs i - 4)" using p22 by simp
    then show ?thesis by (metis r drop_drop)
  qed
  show "getBytes (at_tbl a) off 2 = Some (be_enc 2 (of_nat (length key) :: u16))"
    using getBytes_body [OF fin, of off 2] uo p22 le dr [of 0] by simp
  show "ucast (of_nat (length key) :: u16) = (of_nat (length key) :: u32)"
    using assms(4) by (simp add: unsigned_of_nat take_bit_nat_eq_self)
  show "getBytes (at_tbl a) (off + 2) (of_nat (length key)) = Some key"
    using getBytes_body [OF fin, of "off + 2" "of_nat (length key)"] u2 uk p22 le dr [of 2] by simp
  show "getBytes (at_tbl a) (off + 2 + of_nat (length key)) (of_nat (length val)) = Some val"
    using getBytes_body [OF fin, of "off + 2 + of_nat (length key)" "of_nat (length val)"] u3 uv p22 le dr [of "2 + length key"]
    by (simp add: add.assoc)
  show "of_nat (item_pos kvs (Suc i)) - off - of_nat (length key) - 2 = (of_nat (length val) :: u32)"
    unfolding nxt off_def by simp
qed

lemma finished_shows:
  assumes "at_finished a kvs" and "\<forall>(key, val) \<in> set kvs. length key < 2 ^ 16"
  shows "at_shows a kvs"
proof -
  have a: "at_num a = length kvs" "h_intIndexOffset (at_header a) = of_nat (item_pos kvs (length kvs))"
    using assms(1) by (simp_all add: at_finished_def item_pos_all)
  note go = getItemOffset_finished(1,2) [OF assms(1)]
  have inside: "at_getKV a (int i) = Some (Some (kvs ! i)) \<and> at_getKey a (int i) = Some (Some (fst (kvs ! i)))"
    if i: "i < length kvs" for i
  proof -
    obtain key val where kv: "kvs ! i = (key, val)" by (cases "kvs ! i")
    have lk: "length key < 2 ^ 16" using assms(2) i kv by (metis (mono_tags, lifting) case_prodD nth_mem)
    note f = finished_item [OF assms(1) i kv lk]
    have nxt: "(if int i = int (at_num a) - 1 then Some (h_intIndexOffset (at_header a)) else getItemOffset a (int i + 1))
        = Some (of_nat (item_pos kvs (Suc i)))"
    proof (cases "Suc i = length kvs")
      case True
      then show ?thesis using a i by auto
    next
      case False
      then show ?thesis using go(1) [of "Suc i"] a i by (auto simp: add.commute)
    qed
    have bd: "be_dec (be_enc 2 (of_nat (length key) :: u16)) = (of_nat (length key) :: u16)" by (simp add: be_dec_enc)
    show ?thesis
      unfolding at_getKV_def at_getKey_def go(1) [OF i] nxt bind.bind_lunit Let_def
      using f kv by (simp only: f(1) if_False f(2) bind.bind_lunit bd f(3,4,5,6)) simp
  qed
  show ?thesis
    unfolding at_shows_def
  proof (intro conjI allI)
    fix i
    show "at_getKV a i = Some (if 0 \<le> i \<and> i < int (length kvs) then Some (kvs ! nat i) else None)"
    proof (cases "0 \<le> i \<and> i < int (length kvs)")
      case True
      then have "nat i < length kvs" by linarith
      from inside [OF this] True show ?thesis by simp
    next
      case False
      then have "i < 0 \<or> int (length kvs) \<le> i" by linarith
      with False show ?thesis by (simp add: at_getKV_def go(2))
    qed
    show "at_getKey a i = Some (if 0 \<le> i \<and> i < int (length kvs) then Some (fst (kvs ! nat i)) else None)"
    proof (cases "0 \<le> i \<and> i < int (length kvs)")
      case True
      then have "nat i < length kvs" by linarith
      from inside [OF this] True show ?thesis by simp
    next
      case False
      then have "i < 0 \<or> int (length kvs) \<le> i" by linarith
      with False show ?thesis by (simp add: at_getKey_def go(2))
    qed
  qed (rule a(1))
qed

section \<open>What a table promises\<close>

fun at_sets :: "arrayTable \<Rightarrow> (bytes \<times> bytes) list \<Rightarrow> (table_error + arrayTable) option" where
  "at_sets a [] = Some (Inr a)"
| "at_sets a ((key, val) # kvs) =
     do {
       r \<leftarrow> at_set a key val;
       (case r of Inl (e, _) \<Rightarrow> Some (Inl e) | Inr (a, n) \<Rightarrow> at_sets a kvs)
     }"

definition build_table :: "(bytes \<times> bytes) list \<Rightarrow> (table_error + arrayTable) option" where
  "build_table kvs =
     do {
       r \<leftarrow> newArrayTable [];
       (case r of
          Inl e \<Rightarrow> Some (Inl e)
        | Inr a \<Rightarrow>
            do { r \<leftarrow> at_sets a kvs; (case r of Inl e \<Rightarrow> Some (Inl e) | Inr a \<Rightarrow> writeFinish a) })
     }"

lemma at_sets_ok:
  assumes "at_writing a done" and "22 + length (items (done @ kvs)) < 2 ^ 32"
  shows "\<exists>a'. at_sets a kvs = Some (Inr a') \<and> at_writing a' (done @ kvs)"
  using assms
proof (induction a kvs arbitrary: "done" rule: at_sets.induct)
  case (2 a key val kvs)
  have i: "items (done @ (key, val) # kvs) = items (done @ [(key, val)]) @ items kvs" by (simp add: items_def)
  then have "22 + length (items (done @ [(key, val)])) < 2 ^ 32" using 2(3) by simp
  from at_set_ok [OF 2(2) this] obtain a' where
    a': "at_set a key val = Some (Inr (a', of_nat (length (item (key, val)))))" "at_writing a' (done @ [(key, val)])" by auto
  from 2(1) [OF a'(1) refl refl a'(2)] 2(3) a'(1) show ?case by simp
qed simp

lemma build_table_ok:
  assumes "22 + length (items kvs) + 4 * length kvs < 2 ^ 32"
  shows "\<exists>a. build_table kvs = Some (Inr a) \<and> at_finished a kvs"
proof -
  obtain a where a: "newArrayTable [] = Some (Inr a)" "at_writing a []" using newArrayTable_ok by auto
  obtain a1 where a1: "at_sets a kvs = Some (Inr a1)" "at_writing a1 kvs"
    using at_sets_ok [OF a(2), of kvs] assms by auto
  from writeFinish_ok [OF a1(2) assms] a(1) a1(1) show ?thesis by (auto simp: build_table_def)
qed

lemma findKeyIndexPos_least:
  assumes "at_shows a kvs" and "sorted_wrt (<) (map fst kvs)"
  obtains j where "findKeyIndexPos a key = Some j" "j \<le> length kvs" "\<And>i. i < j \<Longrightarrow> fst (kvs ! i) < key"
    "\<And>i. j \<le> i \<Longrightarrow> i < length kvs \<Longrightarrow> key \<le> fst (kvs ! i)"
proof -
  have f: "map_option (\<lambda>k. bytes_Compare (case k of None \<Rightarrow> [] | Some k \<Rightarrow> k) key \<noteq> -1) (at_getKey a (int h))
      = Some (key \<le> fst (kvs ! h))" if "h < length kvs" for h
    using assms(1) that by (auto simp: at_shows_def bytes_Compare_iff not_less)
  have mono: "key \<le> fst (kvs ! k)" if "h \<le> k" "k < length kvs" "key \<le> fst (kvs ! h)" for h k
  proof (cases "h = k")
    case False
    then have "fst (kvs ! h) < fst (kvs ! k)" using assms(2) that(1,2) by (simp add: sorted_wrt_iff_nth_less)
    with that(3) show ?thesis by simp
  qed (use that in simp)
  have num: "at_num a = length kvs" using assms(1) by (simp add: at_shows_def)
  obtain j where j: "findKeyIndexPos a key = Some j" "j \<le> length kvs" "\<And>k. k < j \<Longrightarrow> \<not> key \<le> fst (kvs ! k)"
      "\<And>k. j \<le> k \<Longrightarrow> k < length kvs \<Longrightarrow> key \<le> fst (kvs ! k)"
    unfolding findKeyIndexPos_def num
    by (rule sort_Search_least [of "length kvs" _ "\<lambda>h. key \<le> fst (kvs ! h)", OF f mono]) auto
  then have "fst (kvs ! i) < key" if "i < j" for i using that by (meson not_le)
  with j that show ?thesis by blast
qed

lemma dropWhile_at:
  assumes "j \<le> length xs" and "\<And>i. i < j \<Longrightarrow> P (xs ! i)" and "j < length xs \<Longrightarrow> \<not> P (xs ! j)"
  shows "dropWhile P xs = drop j xs"
proof -
  have "takeWhile P xs = take j xs" using assms by (intro takeWhile_eq_take_P_nth) auto
  then show ?thesis using assms(1) by (simp add: dropWhile_eq_drop)
qed

text \<open>
  C12: Round trip of an array table. Writing any pairs (keys below 64 KiB, file below 4 GiB)
  into a new table and finishing it never fails; the finished table shows exactly these pairs
  in order, and so does the table opened again from the file.
\<close>

theorem array_table_roundtrip:
  assumes "22 + length (items kvs) + 4 * length kvs < 2 ^ 32" and "\<forall>(key, val) \<in> set kvs. length key < 2 ^ 16"
  shows "\<exists>a a'. build_table kvs = Some (Inr a) \<and> at_shows a kvs
    \<and> openArrayTable (t_file (at_tbl a)) = Some (Inr a') \<and> at_shows a' kvs"
proof -
  from build_table_ok [OF assms(1)] obtain a where a: "build_table kvs = Some (Inr a)" "at_finished a kvs" by blast
  from openArrayTable_ok [OF a(2)] obtain a' where
    a': "openArrayTable (t_file (at_tbl a)) = Some (Inr a')" "at_finished a' kvs" by blast
  from a a' finished_shows [OF a(2) assms(2)] finished_shows [OF a'(2) assms(2)] show ?thesis by blast
qed

theorem array_table_roundtrip_witness:
  "\<exists>a a'. build_table [([1], [2, 3]), ([4], [])] = Some (Inr a) \<and> at_shows a [([1], [2, 3]), ([4], [])]
    \<and> openArrayTable (t_file (at_tbl a)) = Some (Inr a') \<and> at_shows a' [([1], [2, 3]), ([4], [])]"
  by (rule array_table_roundtrip) (simp_all add: items_def item_def)

text \<open>
  C13: A lookup in a table with ascending keys answers with the first pair whose key is not
  below the key asked for. A key that is present gets its own value; but a key that is absent
  gets the value of the next larger key, with \<^verbatim>\<open>true\<close>, unless it lies behind the last one.
\<close>

theorem at_get_first_ge:
  assumes "at_shows a kvs" and "sorted_wrt (<) (map fst kvs)"
  shows "at_get a key = Some (case dropWhile (\<lambda>(k, v). k < key) kvs of
      [] \<Rightarrow> ([], False, InternalKeyKindInvalid)
    | (k, v) # _ \<Rightarrow> (v, True, InternalKeyKindSet))"
proof -
  obtain j where j: "findKeyIndexPos a key = Some j" "j \<le> length kvs" "\<And>i. i < j \<Longrightarrow> fst (kvs ! i) < key"
      "\<And>i. j \<le> i \<Longrightarrow> i < length kvs \<Longrightarrow> key \<le> fst (kvs ! i)"
    using findKeyIndexPos_least [OF assms] by blast
  have d: "dropWhile (\<lambda>(k, v). k < key) kvs = drop j kvs"
    by (rule dropWhile_at) (use j in \<open>auto simp: case_prod_beta not_less\<close>)
  show ?thesis
  proof (cases "j < length kvs")
    case True
    then have "drop j kvs = kvs ! j # drop (Suc j) kvs" by (simp add: Cons_nth_drop_Suc)
    with True j(1) assms(1) d show ?thesis by (cases "kvs ! j") (simp add: at_get_def at_shows_def)
  next
    case False
    with j(2) have "drop j kvs = []" "j = length kvs" by simp_all
    with j(1) assms(1) show ?thesis unfolding d by (simp add: at_get_def at_shows_def)
  qed
qed

theorem at_get_first_ge_witness:
  "\<exists>a. build_table [([1], [2, 3]), ([4], [])] = Some (Inr a)
    \<and> at_get a [1] = Some ([2, 3], True, InternalKeyKindSet) \<and> at_get a [0] = Some ([2, 3], True, InternalKeyKindSet)
    \<and> at_get a [5] = Some ([], False, InternalKeyKindInvalid)"
proof -
  obtain a where a: "build_table [([1], [2, 3]), ([4], [])] = Some (Inr a)" "at_finished a [([1], [2, 3]), ([4], [])]"
    using build_table_ok [of "[([1], [2, 3]), ([4], [])]"] by (auto simp: items_def item_def)
  have "at_shows a [([1], [2, 3]), ([4], [])]" using finished_shows [OF a(2)] by simp
  from at_get_first_ge [OF this] a(1) show ?thesis by simp
qed

section \<open>Iterating over a table\<close>

definition at_view :: "arrayTable \<Rightarrow> (bytes \<times> bytes) list" where
  "at_view a = map (\<lambda>i. the (the (at_getKV a (int i)))) [0..<at_num a]"

lemma at_shows_view: "at_shows a kvs \<Longrightarrow> at_view a = kvs"
  by (rule nth_equalityI) (simp_all add: at_shows_def at_view_def)

definition ai_entries :: "arrayTableIterator \<Rightarrow> (InternalKey \<times> bytes) list" where
  "ai_entries it = map set_entry (at_view (ai_at it))"

definition ai_below :: "arrayTableIterator \<Rightarrow> InternalKey \<times> bytes \<Rightarrow> bool" where
  "ai_below it e = (case ai_upper it of None \<Rightarrow> True | Some u \<Rightarrow> UserKey (fst e) < u)"

text \<open>An upper bound only works when the table has a key to stop at.\<close>

definition ai_stops :: "arrayTableIterator \<Rightarrow> bool" where
  "ai_stops it \<longleftrightarrow> at_shows (ai_at it) (at_view (ai_at it))
     \<and> (case ai_upper it of None \<Rightarrow> True
        | Some u \<Rightarrow> sorted_wrt (<) (map fst (at_view (ai_at it))) \<and> (\<exists>kv \<in> set (at_view (ai_at it)). u \<le> fst kv))"

lemma ai_findItem_shows:
  assumes "at_shows (ai_at it) kvs"
  shows "ai_findItem it = Some (if 0 \<le> ai_intIndexPos it \<and> ai_intIndexPos it < int (length kvs)
    then Some (set_entry (kvs ! nat (ai_intIndexPos it))) else None)"
  using assms by (simp add: ai_findItem_def at_shows_def set_entry_def case_prod_beta)

lemma ai_upto_inside:
  assumes "at_shows (ai_at it) kvs" and "ai_intIndexPos it = int i" and "i < length kvs"
  shows "ai_upto it = Some (it, if ai_below it (set_entry (kvs ! i)) then Some (set_entry (kvs ! i)) else None)"
proof (cases "ai_upper it")
  case None
  then show ?thesis using ai_findItem_shows [OF assms(1)] assms(2,3) by (simp add: ai_upto_def ai_below_def)
next
  case (Some u)
  obtain k v where e: "set_entry (kvs ! i) = (k, v)" by fastforce
  have "(bytes_Compare u (UserKey k) \<le> 0) = (\<not> UserKey k < u)" by (auto simp: bytes_Compare_iff)
  then show ?thesis using ai_findItem_shows [OF assms(1)] assms(2,3) Some e by (simp add: ai_upto_def ai_below_def)
qed

lemma ai_upto_outside:
  assumes "at_shows (ai_at it) kvs" and "ai_intIndexPos it \<ge> int (length kvs)"
  shows "ai_upto it = (case ai_upper it of None \<Rightarrow> Some (it, None) | Some u \<Rightarrow> None)"
  using ai_findItem_shows [OF assms(1)] assms(2) by (auto simp: ai_upto_def split: option.splits)

lemma ai_stops_before_end:
  assumes "ai_stops it" and "ai_below it (ai_entries it ! i)" and "Suc i = length (ai_entries it)"
  shows "ai_upper it = None"
proof (rule ccontr)
  assume "ai_upper it \<noteq> None"
  then obtain u where u: "ai_upper it = Some u" by auto
  let ?v = "at_view (ai_at it)"
  from assms(1) u have s: "sorted_wrt (<) (map fst ?v)" and "\<exists>kv \<in> set ?v. u \<le> fst kv" by (simp_all add: ai_stops_def)
  then obtain j where j: "j < length ?v" "u \<le> fst (?v ! j)" by (auto simp: in_set_conv_nth)
  have i: "i < length ?v" "Suc i = length ?v" using assms(3) by (simp_all add: ai_entries_def)
  have "fst (?v ! i) < u" using assms(2) u i(1) by (simp add: ai_below_def ai_entries_def)
  moreover have "fst (?v ! j) \<le> fst (?v ! i)"
  proof (cases "j = i")
    case False
    then have "j < i" using i(2) j(1) by simp
    then have "fst (?v ! j) < fst (?v ! i)" using s i(1) by (simp add: sorted_wrt_iff_nth_less)
    then show ?thesis by simp
  qed simp
  ultimately have "u < u" using j(2) by (meson le_less_trans order_trans)
  then show False by simp
qed

interpretation ai: forward_iter ai_First ai_Next ai_entries ai_below ai_stops
    "\<lambda>it i. ai_stops it \<and> ai_intIndexPos it = int i \<and> i < length (ai_entries it) \<and> ai_below it (ai_entries it ! i)"
proof unfold_locales
  fix s :: arrayTableIterator and i :: nat
  have pos: "ai_stops (s\<lparr>ai_intIndexPos := p\<rparr>) = ai_stops s" "ai_entries (s\<lparr>ai_intIndexPos := p\<rparr>) = ai_entries s"
      "ai_below (s\<lparr>ai_intIndexPos := p\<rparr>) = ai_below s" for p
    by (simp_all add: ai_stops_def ai_entries_def ai_below_def fun_eq_iff cong: option.case_cong)
  let ?v = "at_view (ai_at s)"
  have up: "ai_upto (s\<lparr>ai_intIndexPos := int j\<rparr>) = Some (s\<lparr>ai_intIndexPos := int j\<rparr>,
      if ai_below s (ai_entries s ! j) then Some (ai_entries s ! j) else None)"
    if "ai_stops s" "j < length (ai_entries s)" for j
    using ai_upto_inside [of "s\<lparr>ai_intIndexPos := int j\<rparr>" ?v j] that
    by (simp add: ai_stops_def ai_entries_def pos)
  have len: "length (ai_entries s) = length ?v" by (simp add: ai_entries_def)
  {
    assume v: "ai_stops s"
    {
      assume "ai_entries s \<noteq> []" "ai_below s (ai_entries s ! 0)"
      then show "\<exists>s'. ai_First s = Some (s', Some (ai_entries s ! 0))
          \<and> (ai_stops s' \<and> ai_intIndexPos s' = int 0 \<and> 0 < length (ai_entries s') \<and> ai_below s' (ai_entries s' ! 0))
          \<and> ai_entries s' = ai_entries s \<and> ai_below s' = ai_below s"
        using up [of 0] v by (simp add: ai_First_def pos)
    next
      assume e: "ai_entries s = [] \<or> \<not> ai_below s (ai_entries s ! 0)"
      show "\<exists>s'. ai_First s = Some (s', None)"
      proof (cases "ai_entries s = []")
        case True
        then have "ai_upper s = None" using v len by (auto simp: ai_stops_def split: option.splits)
        then show ?thesis
          using ai_upto_outside [of "s\<lparr>ai_intIndexPos := 0\<rparr>" ?v] v True len by (simp add: ai_First_def ai_stops_def)
      next
        case False
        with e up [of 0] v show ?thesis by (simp add: ai_First_def)
      qed
    }
  }
  {
    assume a: "ai_stops s \<and> ai_intIndexPos s = int i \<and> i < length (ai_entries s) \<and> ai_below s (ai_entries s ! i)"
    then have n: "ai_Next s = ai_upto (s\<lparr>ai_intIndexPos := int (Suc i)\<rparr>)" by (simp add: ai_Next_def add.commute)
    {
      assume "Suc i < length (ai_entries s)" "ai_below s (ai_entries s ! Suc i)"
      then show "\<exists>s'. ai_Next s = Some (s', Some (ai_entries s ! Suc i))
          \<and> (ai_stops s' \<and> ai_intIndexPos s' = int (Suc i) \<and> Suc i < length (ai_entries s') \<and> ai_below s' (ai_entries s' ! Suc i))
          \<and> ai_entries s' = ai_entries s \<and> ai_below s' = ai_below s"
        unfolding n using up [of "Suc i"] a by (simp add: pos)
    next
      assume e: "Suc i = length (ai_entries s) \<or> (Suc i < length (ai_entries s) \<and> \<not> ai_below s (ai_entries s ! Suc i))"
      show "\<exists>s'. ai_Next s = Some (s', None)"
      proof (cases "Suc i = length (ai_entries s)")
        case True
        then have "ai_upper s = None" using ai_stops_before_end a by blast
        then show ?thesis
          unfolding n using ai_upto_outside [of "s\<lparr>ai_intIndexPos := int (Suc i)\<rparr>" ?v] a True len by (simp add: ai_stops_def)
      next
        case False
        with e up [of "Suc i"] a show ?thesis unfolding n by simp
      qed
    }
  }
qed

text \<open>The flush iterator tests for a nil key and has no bounds.\<close>

interpretation af: forward_iter af_First af_Next "\<lambda>f. ai_entries (af_iter f)" "\<lambda>f e. True"
    "\<lambda>f. at_shows (ai_at (af_iter f)) (at_view (ai_at (af_iter f))) \<and> ai_upper (af_iter f) = None"
    "\<lambda>f i. at_shows (ai_at (af_iter f)) (at_view (ai_at (af_iter f))) \<and> ai_upper (af_iter f) = None
       \<and> ai_intIndexPos (af_iter f) = int i"
proof unfold_locales
  fix s :: arrayTableFlushIterator and i :: nat
  let ?v = "at_view (ai_at (af_iter s))"
  let ?at = "\<lambda>p. s\<lparr>af_iter := (af_iter s)\<lparr>ai_intIndexPos := int p\<rparr>\<rparr>"
  have len: "length (ai_entries (af_iter s)) = length ?v" by (simp add: ai_entries_def)
  have sh: "\<exists>n. af_show (?at p) = Some (if p < length ?v then ((?at p)\<lparr>af_bytes := n\<rparr>, Some (ai_entries (af_iter s) ! p))
      else (?at p, None))" if "at_shows (ai_at (af_iter s)) ?v" "ai_upper (af_iter s) = None" for p
    using ai_findItem_shows [of "(af_iter s)\<lparr>ai_intIndexPos := int p\<rparr>" ?v] that
    by (cases "set_entry (?v ! p)") (auto simp: af_show_def ai_entries_def)
  have one: "int (Suc i) = int i + 1" by simp
  {
    assume v: "at_shows (ai_at (af_iter s)) ?v \<and> ai_upper (af_iter s) = None"
    show "ai_entries (af_iter s) \<noteq> [] \<Longrightarrow> \<exists>s'. af_First s = Some (s', Some (ai_entries (af_iter s) ! 0))
        \<and> (at_shows (ai_at (af_iter s')) (at_view (ai_at (af_iter s'))) \<and> ai_upper (af_iter s') = None
           \<and> ai_intIndexPos (af_iter s') = int 0)
        \<and> ai_entries (af_iter s') = ai_entries (af_iter s) \<and> (\<lambda>e. True) = (\<lambda>e. True)"
      using sh [of 0] v len by (auto simp: af_First_def ai_entries_def)
    show "ai_entries (af_iter s) = [] \<or> \<not> True \<Longrightarrow> \<exists>s'. af_First s = Some (s', None)"
      using sh [of 0] v len by (auto simp: af_First_def)
  }
  {
    assume a: "at_shows (ai_at (af_iter s)) ?v \<and> ai_upper (af_iter s) = None \<and> ai_intIndexPos (af_iter s) = int i"
    then have n: "af_Next s = af_show (?at (Suc i))" by (simp add: af_Next_def add.commute)
    show "Suc i < length (ai_entries (af_iter s)) \<Longrightarrow> \<exists>s'. af_Next s = Some (s', Some (ai_entries (af_iter s) ! Suc i))
        \<and> (at_shows (ai_at (af_iter s')) (at_view (ai_at (af_iter s'))) \<and> ai_upper (af_iter s') = None
           \<and> ai_intIndexPos (af_iter s') = int (Suc i))
        \<and> ai_entries (af_iter s') = ai_entries (af_iter s) \<and> (\<lambda>e. True) = (\<lambda>e. True)"
      unfolding n using sh [of "Suc i"] a len by (auto simp: ai_entries_def)
    show "Suc i = length (ai_entries (af_iter s)) \<or> (Suc i < length (ai_entries (af_iter s)) \<and> \<not> True) \<Longrightarrow>
        \<exists>s'. af_Next s = Some (s', None)"
      unfolding n using sh [of "Suc i"] a len by auto
  }
qed

text \<open>
  C14: Iterating over a table that shows the pairs \<open>kvs\<close> in ascending order. Without an upper
  bound, or with one that some key reaches, \<^verbatim>\<open>First\<close> and \<^verbatim>\<open>Next\<close> return the pairs below the bound,
  each as a Set at sequence number one, and the flush iterator returns all of them.
\<close>

theorem ai_iteration:
  assumes "at_shows (ai_at it) kvs" and "sorted_wrt (<) (map fst kvs)"
    and "\<forall>u. ai_upper it = Some u \<longrightarrow> (\<exists>kv \<in> set kvs. u \<le> fst kv)"
  shows "\<exists>r f. ai_First it = Some r
    \<and> iterate ai_Next (length kvs + 1) r
      = Some (map set_entry (takeWhile (\<lambda>kv. case ai_upper it of None \<Rightarrow> True | Some u \<Rightarrow> fst kv < u) kvs))
    \<and> af_First (at_newFlushIter (ai_at it) flushed) = Some f
    \<and> iterate af_Next (length kvs + 1) f = Some (map set_entry kvs)"
proof -
  let ?f = "at_newFlushIter (ai_at it) flushed"
  note view = at_shows_view [OF assms(1)]
  have st: "ai_stops it" using assms view by (auto simp: ai_stops_def split: option.split)
  have ent: "ai_entries it = map set_entry kvs" by (simp add: ai_entries_def view)
  have bl: "ai_below it \<circ> set_entry = (\<lambda>kv. case ai_upper it of None \<Rightarrow> True | Some u \<Rightarrow> fst kv < u)"
    by (auto simp: ai_below_def fun_eq_iff split: option.split)
  have af: "at_shows (ai_at (af_iter ?f)) (at_view (ai_at (af_iter ?f))) \<and> ai_upper (af_iter ?f) = None"
      "ai_entries (af_iter ?f) = map set_entry kvs"
    using assms(1) view by (simp_all add: at_newFlushIter_def at_newIter_def ai_entries_def)
  from ai.iterate_first [OF st, of "length kvs + 1"] af.iterate_first [OF af(1), of "length kvs + 1"]
  show ?thesis unfolding ent af(2) takeWhile_map bl by (auto simp: comp_def takeWhile_True)
qed

theorem ai_iteration_witness:
  "\<exists>a r. build_table [([1], [2, 3]), ([4], [])] = Some (Inr a) \<and> ai_First (at_newIter a None (Some [3])) = Some r
    \<and> iterate ai_Next 3 r = Some [set_entry ([1], [2, 3])]"
proof -
  let ?kvs = "[([1], [2, 3]), ([4], [])] :: (bytes \<times> bytes) list"
  obtain a where a: "build_table ?kvs = Some (Inr a)" "at_finished a ?kvs"
    using build_table_ok [of ?kvs] by (auto simp: items_def item_def)
  have sh: "at_shows (ai_at (at_newIter a None (Some [3]))) ?kvs" using finished_shows [OF a(2)] by (simp add: at_newIter_def)
  have up: "ai_upper (at_newIter a None (Some [3])) = Some [3]" by (simp add: at_newIter_def)
  from ai_iteration [OF sh, of 0] up a(1) show ?thesis by (auto simp: numeral_3_eq_3)
qed



end
