(* ===== verification/Super_Table.thy ===== *)
theory Super_Table
  imports Iterators
begin

text \<open>
  The append-only tables of the sequential store (\<^verbatim>\<open>bitree/super_table.go\<close>,
  \<^verbatim>\<open>bitree/super_table_iterator.go\<close>): a key file of fixed-size entries (key and 32-bit value
  offset) behind an eight byte header with the number of keys, and a value file of
  length-prefixed values. Both are written through a buffered writer; the number of readable
  keys only grows when a flush has finished. Errors of the operating system are not modelled.
\<close>

abbreviation (input) keyFileVersion :: u32 where "keyFileVersion \<equiv> 1"
abbreviation (input) keyFileHeaderSize :: nat where "keyFileHeaderSize \<equiv> 8"
abbreviation (input) keyFileHeaderKeyNum :: nat where "keyFileHeaderKeyNum \<equiv> 4"
abbreviation (input) valueOffsetSize :: nat where "valueOffsetSize \<equiv> 4"
abbreviation (input) BufioWriterBufSize :: nat where "BufioWriterBufSize \<equiv> 262144"

section \<open>Files and buffered writers\<close>

record stable =
  st_file :: bytes
  st_fpos :: nat
  st_wbuf :: bytes
  st_offset :: u32
  st_filesz :: nat
  st_readOnly :: bool

text \<open>\<^verbatim>\<open>os.File\<close>: a write at the position, a write at an offset and a read at an offset, which fails
  unless it is complete.\<close>

definition file_put :: "bytes \<Rightarrow> nat \<Rightarrow> bytes \<Rightarrow> bytes" where
  "file_put f off p = take off f @ replicate (off - length f) 0 @ p @ drop (off + length p) f"

definition file_write :: "stable \<Rightarrow> bytes \<Rightarrow> stable" where
  "file_write t p = t\<lparr>st_file := file_put (st_file t) (st_fpos t) p, st_fpos := st_fpos t + length p\<rparr>"

definition ReadAt :: "bytes \<Rightarrow> nat \<Rightarrow> nat \<Rightarrow> bytes option" where
  "ReadAt f n off = (if n = 0 then Some [] else if off + n \<le> length f then Some (take n (drop off f)) else None)"

text \<open>\<^verbatim>\<open>bufio.Writer.Write\<close>.\<close>

function stable_write :: "stable \<Rightarrow> bytes \<Rightarrow> stable" where
  "stable_write t p =
     (if length p > BufioWriterBufSize - length (st_wbuf t) then
        if st_wbuf t = [] then file_write t p
        else
          let n = BufioWriterBufSize - length (st_wbuf t) in
          stable_write ((file_write t (st_wbuf t @ take n p))\<lparr>st_wbuf := []\<rparr>) (drop n p)
      else t\<lparr>st_wbuf := st_wbuf t @ p\<rparr>)"
  by pat_completeness auto
termination
  by (relation "measure (\<lambda>(t, p). length (st_wbuf t))") (auto simp: file_write_def)

declare stable_write.simps [simp del]

definition fdatasync :: "stable \<Rightarrow> stable" where
  "fdatasync t =
     (if st_readOnly t then t else (file_write t (st_wbuf t))\<lparr>st_wbuf := []\<rparr>)"

definition newStable :: "bytes \<Rightarrow> stable" where
  "newStable file =
     \<lparr>st_file = file, st_fpos = 0, st_wbuf = [], st_offset = 0, st_filesz = 0, st_readOnly = False\<rparr>"

definition openStable :: "bytes \<Rightarrow> bool \<Rightarrow> stable" where
  "openStable file readOnly =
     \<lparr>st_file = file, st_fpos = (if readOnly then 0 else length file), st_wbuf = [], st_offset = of_nat (length file),
      st_filesz = length file, st_readOnly = readOnly\<rparr>"

definition stable_inuseBytes :: "stable \<Rightarrow> u32" where
  "stable_inuseBytes t = st_offset t"

section \<open>The table\<close>

record superTable =
  s_keyTbl :: stable
  s_valueTbl :: stable
  s_version :: u32
  s_keyReadable :: u32
  s_keyFlushed :: nat
  s_keyLength :: nat

definition s_keyStep :: "superTable \<Rightarrow> nat" where
  "s_keyStep s = s_keyLength s + valueOffsetSize"

definition writeKeyFileHeader :: "superTable \<Rightarrow> superTable" where
  "writeKeyFileHeader s =
     (let k = fdatasync (stable_write (s_keyTbl s) (be_enc 4 (s_version s) @ be_enc 4 (0 :: u32)))
      in s\<lparr>s_keyReadable := 0, s_keyTbl := k\<lparr>st_offset := st_offset k + of_nat keyFileHeaderSize\<rparr>\<rparr>)"

definition newSuperTable :: "nat \<Rightarrow> superTable" where
  "newSuperTable keyLength =
     (writeKeyFileHeader
       \<lparr>s_keyTbl = newStable [], s_valueTbl = newStable [], s_version = keyFileVersion, s_keyReadable = 0,
        s_keyFlushed = 0, s_keyLength = keyLength\<rparr>)\<lparr>s_valueTbl := newStable []\<rparr>"

definition writeKeyNum :: "superTable \<Rightarrow> u32 \<Rightarrow> superTable" where
  "writeKeyNum s num =
     (let k = s_keyTbl s in
      s\<lparr>s_keyTbl := k\<lparr>st_file := file_put (st_file k) keyFileHeaderKeyNum (be_enc 4 num),
                       st_fpos := unat (st_offset k)\<rparr>\<rparr>)"

text \<open>The loop that counts the complete entries of a key file whose size does not match its header.
  It may run forever, which is \<open>None\<close>.\<close>

partial_function (option) rebuild :: "superTable \<Rightarrow> nat \<Rightarrow> u32 \<Rightarrow> u32 option" where
  "rebuild s keyPos actKeyNum =
     (let valueFile = st_file (s_valueTbl s); valueFilesz = st_filesz (s_valueTbl s) in
      if keyPos + s_keyStep s \<le> st_filesz (s_keyTbl s) then
        case ReadAt (st_file (s_keyTbl s)) 4 (keyPos + s_keyLength s) of
          None \<Rightarrow> Some actKeyNum
        | Some szBuf \<Rightarrow>
            let voff = unat (be_dec szBuf :: u32) in
            if voff + 4 \<ge> valueFilesz then Some actKeyNum
            else
              case ReadAt valueFile 4 voff of
                None \<Rightarrow> Some actKeyNum
              | Some szBuf \<Rightarrow>
                  let valueSize = unat (be_dec szBuf :: u32) in
                  if valueSize = 0 then rebuild s keyPos actKeyNum
                  else
                    case ReadAt valueFile valueSize (voff + 4) of
                      None \<Rightarrow> Some actKeyNum
                    | Some v \<Rightarrow> rebuild s (keyPos + s_keyStep s) (actKeyNum + 1)
      else Some actKeyNum)"

datatype st_error = ErrReadHeader

definition readKeyFileHeader :: "superTable \<Rightarrow> (st_error + superTable) option" where
  "readKeyFileHeader s =
     (case ReadAt (st_file (s_keyTbl s)) keyFileHeaderSize 0 of
        None \<Rightarrow> Some (Inl ErrReadHeader)
      | Some header \<Rightarrow>
          let s = s\<lparr>s_version := be_dec (take 4 header)\<rparr>;
              expKeyNum = be_dec (drop 4 header) :: u32;
              expKeyFilesz = keyFileHeaderSize + unat expKeyNum * s_keyStep s
          in if expKeyFilesz = st_filesz (s_keyTbl s) then Some (Inr (s\<lparr>s_keyReadable := expKeyNum\<rparr>))
             else
               do {
                 actKeyNum \<leftarrow> rebuild s keyFileHeaderSize 0;
                 let s = s\<lparr>s_keyReadable := actKeyNum\<rparr>;
                 Some (Inr (if actKeyNum \<noteq> expKeyNum then writeKeyNum s actKeyNum else s))
               })"

definition openSuperTable :: "bytes \<Rightarrow> bytes \<Rightarrow> bool \<Rightarrow> nat \<Rightarrow> (st_error + superTable) option" where
  "openSuperTable keyFile valueFile readOnly keyLength =
     readKeyFileHeader
       \<lparr>s_keyTbl = openStable keyFile readOnly, s_valueTbl = openStable valueFile readOnly, s_version = 0,
        s_keyReadable = 0, s_keyFlushed = 0, s_keyLength = keyLength\<rparr>"

definition readKeyNum :: "superTable \<Rightarrow> u32" where
  "readKeyNum s =
     (case ReadAt (st_file (s_keyTbl s)) 4 keyFileHeaderKeyNum of None \<Rightarrow> 0 | Some b \<Rightarrow> be_dec b)"

definition getKeyPosOffset :: "superTable \<Rightarrow> nat \<Rightarrow> nat" where
  "getKeyPosOffset s pos = keyFileHeaderSize + pos * s_keyStep s"

definition readKeyByPos :: "superTable \<Rightarrow> nat \<Rightarrow> bytes option" where
  "readKeyByPos s pos = ReadAt (st_file (s_keyTbl s)) (s_keyLength s) (getKeyPosOffset s pos)"

definition readValueOffsetByPos :: "superTable \<Rightarrow> nat \<Rightarrow> int" where
  "readValueOffsetByPos s pos =
     (case ReadAt (st_file (s_keyTbl s)) valueOffsetSize (getKeyPosOffset s pos + s_keyLength s) of
        None \<Rightarrow> -1
      | Some b \<Rightarrow> uint (be_dec b :: u32))"

definition readKVByPos :: "superTable \<Rightarrow> nat \<Rightarrow> (bytes \<times> u32) option" where
  "readKVByPos s pos =
     map_option (\<lambda>b. (take (s_keyLength s) b, be_dec (take valueOffsetSize (drop (s_keyLength s) b))))
       (ReadAt (st_file (s_keyTbl s)) (s_keyStep s) (getKeyPosOffset s pos))"

text \<open>\<^verbatim>\<open>getValue\<close>: \<open>None\<close> is the nil that a failed read and an empty value have in common.\<close>

definition getValue :: "superTable \<Rightarrow> u32 \<Rightarrow> bytes option" where
  "getValue s offset =
     do {
       szBuf \<leftarrow> ReadAt (st_file (s_valueTbl s)) 4 (unat offset);
       let valueSize = unat (be_dec szBuf :: u32);
       (if valueSize = 0 then None else ReadAt (st_file (s_valueTbl s)) valueSize (unat (offset + 4)))
     }"

definition nil_empty :: "bytes option \<Rightarrow> bytes" where
  "nil_empty k = (case k of None \<Rightarrow> [] | Some k \<Rightarrow> k)"

definition super_get :: "superTable \<Rightarrow> bytes \<Rightarrow> bytes option" where
  "super_get s key =
     (case sort_Find (unat (s_keyReadable s)) (\<lambda>i. Some (- bytes_Compare (nil_empty (readKeyByPos s i)) key)) of
        None \<Rightarrow> None
      | Some (pos, found) \<Rightarrow>
          if \<not> found then None
          else
            let valueOffset = readValueOffsetByPos s pos in
            if valueOffset < 0 then None else getValue s (of_int valueOffset))"

definition getMaxKey :: "superTable \<Rightarrow> bytes option" where
  "getMaxKey s =
     ReadAt (st_file (s_keyTbl s)) (s_keyLength s) (getKeyPosOffset s (unat (s_keyReadable s - 1)))"

text \<open>\<^verbatim>\<open>set\<close>; a table opened for reading has no writer and panics.\<close>

definition super_set :: "superTable \<Rightarrow> bytes \<Rightarrow> bytes \<Rightarrow> superTable option" where
  "super_set s key val =
     (if st_readOnly (s_valueTbl s) \<or> st_readOnly (s_keyTbl s) then None
      else
        let valueSize = of_nat (length val) :: u32;
            v = stable_write (stable_write (s_valueTbl s) (be_enc 4 valueSize)) val;
            valueOffset = st_offset v;
            v = v\<lparr>st_offset := st_offset v + (valueSize + 4)\<rparr>;
            k = stable_write (stable_write (s_keyTbl s) key) (be_enc 4 valueOffset);
            k = k\<lparr>st_offset := st_offset k + of_nat (length key + 4)\<rparr>
        in Some (s\<lparr>s_valueTbl := v, s_keyTbl := k, s_keyFlushed := s_keyFlushed s + 1\<rparr>))"

definition super_inuseBytes :: "superTable \<Rightarrow> u64" where
  "super_inuseBytes s = ucast (stable_inuseBytes (s_keyTbl s)) + ucast (stable_inuseBytes (s_valueTbl s))"

definition flushFinish :: "superTable \<Rightarrow> superTable" where
  "flushFinish s =
     (let s = s\<lparr>s_keyTbl := fdatasync (s_keyTbl s)\<rparr>;
          s = s\<lparr>s_valueTbl := fdatasync (s_valueTbl s)\<rparr>;
          keyNum = s_keyReadable s + of_nat (s_keyFlushed s)
      in (writeKeyNum s keyNum)\<lparr>s_keyReadable := keyNum, s_keyFlushed := 0\<rparr>)"

section \<open>The iterator\<close>

record superTableIterator =
  si_st :: superTable
  si_keyNum :: nat
  si_keyPos :: int
  si_lower :: "bytes option"
  si_upper :: "bytes option"

definition super_newIter :: "superTable \<Rightarrow> bytes option \<Rightarrow> bytes option \<Rightarrow> superTableIterator" where
  "super_newIter s lower upper =
     \<lparr>si_st = s, si_keyNum = unat (s_keyReadable s), si_keyPos = 0, si_lower = lower, si_upper = upper\<rparr>"

definition si_findKeyIndexPos :: "superTableIterator \<Rightarrow> bytes \<Rightarrow> int option" where
  "si_findKeyIndexPos i key =
     (if si_keyNum i = 0 then Some (-1)
      else map_option int (sort_Search (si_keyNum i)
        (\<lambda>p. Some (bytes_Compare (nil_empty (readKeyByPos (si_st i) p)) key \<ge> 0))))"

definition si_findItem :: "superTableIterator \<Rightarrow> (InternalKey \<times> bytes) option" where
  "si_findItem i =
     (if si_keyPos i < 0 \<or> si_keyPos i \<ge> int (si_keyNum i) then None
      else map_option (\<lambda>(key, voff). (MakeInternalSetKey key, nil_empty (getValue (si_st i) voff)))
             (readKVByPos (si_st i) (nat (si_keyPos i))))"

definition si_First :: "superTableIterator \<Rightarrow> (superTableIterator \<times> (InternalKey \<times> bytes) option) option" where
  "si_First i = (let i = i\<lparr>si_keyPos := 0\<rparr> in Some (i, si_findItem i))"

definition si_Next :: "superTableIterator \<Rightarrow> (superTableIterator \<times> (InternalKey \<times> bytes) option) option" where
  "si_Next i = (let i = i\<lparr>si_keyPos := si_keyPos i + 1\<rparr> in Some (i, si_findItem i))"

definition si_Prev :: "superTableIterator \<Rightarrow> (superTableIterator \<times> (InternalKey \<times> bytes) option) option" where
  "si_Prev i = (let i = i\<lparr>si_keyPos := si_keyPos i - 1\<rparr> in Some (i, si_findItem i))"

definition si_Last :: "superTableIterator \<Rightarrow> (superTableIterator \<times> (InternalKey \<times> bytes) option) option" where
  "si_Last i = (let i = i\<lparr>si_keyPos := int (si_keyNum i) - 1\<rparr> in Some (i, si_findItem i))"

definition si_SeekGE :: "superTableIterator \<Rightarrow> bytes \<Rightarrow> (superTableIterator \<times> (InternalKey \<times> bytes) option) option" where
  "si_SeekGE i key =
     do { p \<leftarrow> si_findKeyIndexPos i key; let i = i\<lparr>si_keyPos := p\<rparr>; Some (i, si_findItem i) }"

definition si_SeekLT :: "superTableIterator \<Rightarrow> bytes \<Rightarrow> (superTableIterator \<times> (InternalKey \<times> bytes) option) option" where
  "si_SeekLT i key =
     do {
       p \<leftarrow> si_findKeyIndexPos i key;
       let i = i\<lparr>si_keyPos := p\<rparr>;
       (if si_findItem i \<noteq> None then si_Prev i else si_Last i)
     }"

definition si_SetBounds :: "superTableIterator \<Rightarrow> bytes option \<Rightarrow> bytes option \<Rightarrow> superTableIterator" where
  "si_SetBounds i lower upper = i\<lparr>si_lower := lower, si_upper := upper\<rparr>"

section \<open>What is written\<close>

text \<open>The bytes accepted so far, in the file or still in the buffer.\<close>

definition st_content :: "stable \<Rightarrow> bytes" where
  "st_content t = st_file t @ st_wbuf t"

text \<open>A file being appended to: the position is at its end and the offset counts what was accepted.\<close>

definition st_appending :: "stable \<Rightarrow> bool" where
  "st_appending t \<longleftrightarrow> st_fpos t = length (st_file t) \<and> \<not> st_readOnly t"

lemma file_put_end: "n = length f \<Longrightarrow> file_put f n p = f @ p"
  by (simp add: file_put_def)

lemma stable_write_ok:
  "st_appending t \<Longrightarrow>
     st_content (stable_write t p) = st_content t @ p \<and> st_appending (stable_write t p)
     \<and> st_offset (stable_write t p) = st_offset t \<and> st_filesz (stable_write t p) = st_filesz t
     \<and> (\<exists>more. st_file (stable_write t p) = st_file t @ more)"
proof (induction t p rule: stable_write.induct)
  case (1 t p)
  let ?n = "BufioWriterBufSize - length (st_wbuf t)"
  let ?t = "(file_write t (st_wbuf t @ take ?n p))\<lparr>st_wbuf := []\<rparr>"
  show ?case
  proof (cases "length p > ?n \<and> st_wbuf t \<noteq> []")
    case True
    then have e: "stable_write t p = stable_write ?t (drop ?n p)"
      by (subst stable_write.simps) (simp add: Let_def)
    have t: "st_appending ?t" "st_content ?t = st_content t @ take ?n p"
      using "1.prems" by (simp_all add: st_appending_def st_content_def file_write_def file_put_end)
    have m: "st_file ?t = st_file t @ (st_wbuf t @ take ?n p)" "st_offset ?t = st_offset t" "st_filesz ?t = st_filesz t"
      using "1.prems" by (simp_all add: st_appending_def file_write_def file_put_end)
    have "st_content (stable_write ?t (drop ?n p)) = st_content ?t @ drop ?n p \<and> st_appending (stable_write ?t (drop ?n p))
        \<and> st_offset (stable_write ?t (drop ?n p)) = st_offset ?t \<and> st_filesz (stable_write ?t (drop ?n p)) = st_filesz ?t
        \<and> (\<exists>more. st_file (stable_write ?t (drop ?n p)) = st_file ?t @ more)"
      using "1.IH" True t(1) by blast
    then show ?thesis unfolding e t(2) m by auto
  next
    case False
    then show ?thesis using "1.prems"
      by (subst (1 2 3 4 5) stable_write.simps)
        (auto simp: st_appending_def st_content_def file_write_def file_put_end)
  qed
qed

lemma fdatasync_ok:
  assumes "st_appending t"
  shows "st_file (fdatasync t) = st_content t" and "st_wbuf (fdatasync t) = []" and "st_appending (fdatasync t)"
    and "st_offset (fdatasync t) = st_offset t" and "st_filesz (fdatasync t) = st_filesz t"
  using assms by (simp_all add: fdatasync_def st_appending_def st_content_def file_write_def file_put_end)

text \<open>The entries of both files for a list of pairs, from a given value offset on.\<close>

definition val_entry :: "bytes \<Rightarrow> bytes" where
  "val_entry v = be_enc 4 (of_nat (length v) :: u32) @ v"

fun val_part :: "(bytes \<times> bytes) list \<Rightarrow> bytes" where
  "val_part [] = []"
| "val_part (kv # kvs) = val_entry (snd kv) @ val_part kvs"

fun key_part :: "nat \<Rightarrow> (bytes \<times> bytes) list \<Rightarrow> bytes" where
  "key_part off [] = []"
| "key_part off (kv # kvs) = fst kv @ be_enc 4 (of_nat off :: u32) @ key_part (off + length (val_entry (snd kv))) kvs"

definition voff :: "(bytes \<times> bytes) list \<Rightarrow> nat \<Rightarrow> nat" where
  "voff kvs i = length (val_part (take i kvs))"

definition keys_fit :: "nat \<Rightarrow> (bytes \<times> bytes) list \<Rightarrow> bool" where
  "keys_fit L kvs \<longleftrightarrow> (\<forall>kv \<in> set kvs. length (fst kv) = L)"

lemma length_val_entry [simp]: "length (val_entry v) = 4 + length v"
  by (simp add: val_entry_def)

lemma val_part_append: "val_part (xs @ ys) = val_part xs @ val_part ys"
  by (induction xs) auto

lemma key_part_append: "key_part off (xs @ ys) = key_part off xs @ key_part (off + length (val_part xs)) ys"
  by (induction xs arbitrary: off) (auto simp: add.assoc)

lemma length_key_part: "keys_fit L kvs \<Longrightarrow> length (key_part off kvs) = length kvs * (L + 4)"
  by (induction kvs arbitrary: off) (auto simp: keys_fit_def)

lemma keys_fit_append [simp]: "keys_fit L (xs @ ys) \<longleftrightarrow> keys_fit L xs \<and> keys_fit L ys"
  by (auto simp: keys_fit_def)

lemma keys_fit_take: "keys_fit L kvs \<Longrightarrow> keys_fit L (take i kvs)"
  by (auto simp: keys_fit_def dest: in_set_takeD)

lemma key_part_at:
  assumes "keys_fit L kvs" and "i < length kvs"
  shows "\<exists>rest. drop (i * (L + 4)) (key_part 0 kvs) = fst (kvs ! i) @ be_enc 4 (of_nat (voff kvs i) :: u32) @ rest"
proof -
  have s: "kvs = take i kvs @ kvs ! i # drop (Suc i) kvs" using assms(2) by (simp add: id_take_nth_drop)
  have l: "length (key_part 0 (take i kvs)) = i * (L + 4)"
    using length_key_part [OF keys_fit_take [OF assms(1)], of 0 i] assms(2) by simp
  have "key_part 0 kvs = key_part 0 (take i kvs) @ key_part (voff kvs i) (kvs ! i # drop (Suc i) kvs)"
    by (subst s, subst key_part_append) (simp add: voff_def)
  then show ?thesis using l by auto
qed

lemma val_part_at:
  assumes "i < length kvs"
  shows "\<exists>rest. drop (voff kvs i) (val_part kvs) = val_entry (snd (kvs ! i)) @ rest"
proof -
  have s: "kvs = take i kvs @ kvs ! i # drop (Suc i) kvs" using assms by (simp add: id_take_nth_drop)
  have "val_part kvs = val_part (take i kvs) @ val_entry (snd (kvs ! i)) @ val_part (drop (Suc i) kvs)"
    by (subst s, subst val_part_append) simp
  then show ?thesis by (simp add: voff_def)
qed

lemma voff_Suc: "i < length kvs \<Longrightarrow> voff kvs (Suc i) = voff kvs i + 4 + length (snd (kvs ! i))"
  by (simp add: voff_def take_Suc_conv_app_nth val_part_append)

lemma voff_le: "voff kvs i \<le> length (val_part kvs)"
  unfolding voff_def by (metis append_take_drop_id le_add1 length_append val_part_append)

lemma voff_mono: "i \<le> j \<Longrightarrow> voff kvs i \<le> voff kvs j"
  unfolding voff_def by (metis le_add1 length_append le_Suc_ex take_add val_part_append)

lemma st_content_offset [simp]: "st_content (t\<lparr>st_offset := n\<rparr>) = st_content t" "st_appending (t\<lparr>st_offset := n\<rparr>) = st_appending t"
  by (simp_all add: st_content_def st_appending_def)

text \<open>A read inside the written prefix of a file whose whole content is known.\<close>

lemma ReadAt_prefix:
  assumes "f @ g = c" and "off + length x \<le> length f" and "drop off c = x @ rest"
  shows "ReadAt f (length x) off = Some x"
proof -
  have "take (length x) (drop off f) = take (length x) (drop off c)" using assms(2) by (simp add: assms(1) [symmetric])
  then have "take (length x) (drop off f) = x" by (simp add: assms(3))
  then show ?thesis using assms(2) by (simp add: ReadAt_def)
qed

definition key_header :: "u32 \<Rightarrow> u32 \<Rightarrow> bytes" where
  "key_header ver num = be_enc 4 ver @ be_enc 4 num"

lemma length_key_header [simp]: "length (key_header ver num) = 8"
  by (simp add: key_header_def)

text \<open>The invariant of a table to which the pairs \<open>kvs\<close> were added since it was created: both files hold their
  entries, those of the readable keys are outside the buffers, and no offset has wrapped around.\<close>

definition super_inv :: "superTable \<Rightarrow> (bytes \<times> bytes) list \<Rightarrow> bool" where
  "super_inv s kvs \<longleftrightarrow>
     st_appending (s_keyTbl s) \<and> st_appending (s_valueTbl s) \<and> keys_fit (s_keyLength s) kvs
     \<and> st_content (s_keyTbl s) = key_header (s_version s) (s_keyReadable s) @ key_part 0 kvs
     \<and> st_content (s_valueTbl s) = val_part kvs
     \<and> st_offset (s_keyTbl s) = of_nat (length (st_content (s_keyTbl s)))
     \<and> st_offset (s_valueTbl s) = of_nat (length (st_content (s_valueTbl s)))
     \<and> unat (s_keyReadable s) + s_keyFlushed s = length kvs
     \<and> getKeyPosOffset s (unat (s_keyReadable s)) \<le> length (st_file (s_keyTbl s))
     \<and> voff kvs (unat (s_keyReadable s)) \<le> length (st_file (s_valueTbl s))
     \<and> 8 + length (key_part 0 kvs) < 2 ^ 32 \<and> length (val_part kvs) < 2 ^ 32"

lemma newSuperTable_inv: "super_inv (newSuperTable L) []" "s_keyLength (newSuperTable L) = L" "s_keyReadable (newSuperTable L) = 0"
proof -
  let ?t = "newStable []" and ?h = "be_enc 4 keyFileVersion @ be_enc 4 (0 :: u32)"
  let ?k = "fdatasync (stable_write ?t ?h)"
  have a: "st_appending ?t" by (simp add: st_appending_def newStable_def)
  note w = stable_write_ok [OF a, of ?h]
  note f = fdatasync_ok [of "stable_write ?t ?h"]
  have k: "st_appending ?k" "st_file ?k = key_header 1 0" "st_wbuf ?k = []" "st_offset ?k = 0"
    using w f by (simp_all add: st_content_def newStable_def key_header_def)
  have e: "newSuperTable L = \<lparr>s_keyTbl = ?k\<lparr>st_offset := st_offset ?k + 8\<rparr>, s_valueTbl = ?t, s_version = 1, s_keyReadable = 0,
      s_keyFlushed = 0, s_keyLength = L\<rparr>"
    by (simp add: newSuperTable_def writeKeyFileHeader_def Let_def)
  show "super_inv (newSuperTable L) []" "s_keyLength (newSuperTable L) = L" "s_keyReadable (newSuperTable L) = 0"
    unfolding e using k a
    by (simp_all add: super_inv_def st_appending_def st_content_def keys_fit_def getKeyPosOffset_def voff_def newStable_def)
qed

lemma super_set_ok:
  assumes inv: "super_inv s kvs" and key: "length key = s_keyLength s"
    and fit: "8 + length (key_part 0 (kvs @ [(key, val)])) < 2 ^ 32" "length (val_part (kvs @ [(key, val)])) < 2 ^ 32"
  shows "\<exists>s'. super_set s key val = Some s' \<and> super_inv s' (kvs @ [(key, val)]) \<and> s_keyReadable s' = s_keyReadable s
    \<and> s_keyLength s' = s_keyLength s"
proof -
  let ?n = "of_nat (length val) :: u32"
  let ?v1 = "stable_write (s_valueTbl s) (be_enc 4 ?n)"
  let ?v = "stable_write ?v1 val"
  let ?k1 = "stable_write (s_keyTbl s) key"
  let ?k = "stable_write ?k1 (be_enc 4 (st_offset ?v))"
  have av: "st_appending (s_valueTbl s)" and ak: "st_appending (s_keyTbl s)" using inv by (simp_all add: super_inv_def)
  have v1: "st_appending ?v1" using stable_write_ok [OF av] by blast
  have k1: "st_appending ?k1" using stable_write_ok [OF ak] by blast
  note wv = stable_write_ok [OF av, of "be_enc 4 ?n"] stable_write_ok [OF v1, of val]
  note wk = stable_write_ok [OF ak, of key] stable_write_ok [OF k1, of "be_enc 4 (st_offset ?v)"]
  have ro: "\<not> st_readOnly (s_valueTbl s)" "\<not> st_readOnly (s_keyTbl s)" using av ak by (simp_all add: st_appending_def)
  have vo: "st_offset ?v = of_nat (length (val_part kvs))" using wv inv by (simp add: super_inv_def)
  obtain mv where mv: "st_file ?v = st_file (s_valueTbl s) @ mv" using wv by auto
  obtain mk where mk: "st_file ?k = st_file (s_keyTbl s) @ mk" using wk by auto
  have r: "unat (s_keyReadable s) \<le> length kvs" using inv by (simp add: super_inv_def)
  let ?s = "s\<lparr>s_valueTbl := ?v\<lparr>st_offset := st_offset ?v + (?n + 4)\<rparr>,
      s_keyTbl := ?k\<lparr>st_offset := st_offset ?k + of_nat (length key + 4)\<rparr>, s_keyFlushed := s_keyFlushed s + 1\<rparr>"
  have e: "super_set s key val = Some ?s" using ro by (simp add: super_set_def Let_def)
  have cv: "st_content ?v = val_part (kvs @ [(key, val)])"
    using wv inv by (simp add: super_inv_def val_part_append val_entry_def)
  have ck: "st_content ?k = key_header (s_version s) (s_keyReadable s) @ key_part 0 (kvs @ [(key, val)])"
    using wk inv vo by (simp add: super_inv_def key_part_append)
  have ov: "st_offset ?v + (?n + 4) = of_nat (length (st_content ?v))"
    unfolding vo cv by (simp add: val_part_append)
  have ok: "st_offset ?k + of_nat (length key + 4) = of_nat (length (st_content ?k))"
    unfolding ck using wk inv by (simp add: super_inv_def key_part_append)
  have rd: "getKeyPosOffset s (unat (s_keyReadable s)) \<le> length (st_file ?k)"
      "voff (kvs @ [(key, val)]) (unat (s_keyReadable s)) \<le> length (st_file ?v)"
    using inv mk mv r by (simp_all add: super_inv_def voff_def)
  have kf: "keys_fit (s_keyLength s) (kvs @ [(key, val)])" using inv key by (simp add: super_inv_def keys_fit_def)
  have "super_inv ?s (kvs @ [(key, val)])"
    unfolding super_inv_def
  proof (intro conjI)
    show "unat (s_keyReadable ?s) + s_keyFlushed ?s = length (kvs @ [(key, val)])" using inv by (simp add: super_inv_def)
    show "getKeyPosOffset ?s (unat (s_keyReadable ?s)) \<le> length (st_file (s_keyTbl ?s))"
      using rd(1) by (simp add: getKeyPosOffset_def s_keyStep_def)
  qed (use wv(2) wk(2) kf cv ck ov ok rd(2) fit in simp_all)
  with e show ?thesis by simp
qed

lemma flushFinish_ok:
  assumes inv: "super_inv s kvs"
  shows "super_inv (flushFinish s) kvs" and "unat (s_keyReadable (flushFinish s)) = length kvs"
    and "s_keyLength (flushFinish s) = s_keyLength s"
    and "st_file (s_keyTbl (flushFinish s)) = key_header (s_version s) (of_nat (length kvs)) @ key_part 0 kvs"
    and "st_file (s_valueTbl (flushFinish s)) = val_part kvs"
proof -
  let ?k = "fdatasync (s_keyTbl s)" and ?v = "fdatasync (s_valueTbl s)"
  let ?n = "s_keyReadable s + of_nat (s_keyFlushed s)"
  have ak: "st_appending (s_keyTbl s)" and av: "st_appending (s_valueTbl s)" using inv by (simp_all add: super_inv_def)
  note k = fdatasync_ok [OF ak] and v = fdatasync_ok [OF av]
  have fit: "8 + length (key_part 0 kvs) < 2 ^ 32" "length (val_part kvs) < 2 ^ 32" and kf: "keys_fit (s_keyLength s) kvs"
    using inv by (simp_all add: super_inv_def)
  have num: "length kvs < 2 ^ 32"
    using fit(1) length_key_part [OF kf, of 0] by (simp add: algebra_simps)
  have n: "?n = of_nat (length kvs)"
    using inv by (auto simp: super_inv_def dest!: sym [of _ "length kvs"])
  have un: "unat ?n = length kvs" unfolding n by (rule unat32 [OF num])
  let ?f = "key_header (s_version s) ?n @ key_part 0 kvs"
  have cont: "st_file ?k = key_header (s_version s) (s_keyReadable s) @ key_part 0 kvs" "st_file ?v = val_part kvs"
    using k(1) v(1) inv by (simp_all add: super_inv_def)
  have put: "file_put (st_file ?k) 4 (be_enc 4 ?n) = ?f" unfolding cont by (simp add: file_put_def key_header_def)
  have ok: "st_offset ?k = of_nat (8 + length (key_part 0 kvs))" "st_offset ?v = of_nat (length (val_part kvs))"
    using k(4) v(4) inv by (simp_all add: super_inv_def)
  have pos: "unat (st_offset ?k) = 8 + length (key_part 0 kvs)" unfolding ok by (rule unat32 [OF fit(1)])
  have e: "flushFinish s = s\<lparr>s_keyTbl := ?k\<lparr>st_file := ?f, st_fpos := unat (st_offset ?k)\<rparr>, s_valueTbl := ?v,
      s_keyReadable := ?n, s_keyFlushed := 0\<rparr>"
    by (simp add: flushFinish_def writeKeyNum_def Let_def put)
  have ro: "\<not> st_readOnly ?k" using k(3) by (simp add: st_appending_def)
  show "super_inv (flushFinish s) kvs"
    unfolding e super_inv_def
  proof (intro conjI, goal_cases)
    case 1 show ?case using pos ro by (simp add: st_appending_def)
  next
    case 5 show ?case using cont(2) v(2) by (simp add: st_content_def)
  next
    case 6 show ?case using ok(1) k(2) by (simp add: st_content_def)
  next
    case 7 show ?case using ok(2) cont(2) v(2) by (simp add: st_content_def)
  next
    case 9 show ?case using un length_key_part [OF kf, of 0] by (simp add: getKeyPosOffset_def s_keyStep_def)
  next
    case 10 show ?case using voff_le [of kvs "unat ?n"] cont(2) by simp
  qed (use v(3) kf k(2) un fit in \<open>simp_all add: st_content_def\<close>)
  show "unat (s_keyReadable (flushFinish s)) = length kvs" "s_keyLength (flushFinish s) = s_keyLength s"
    "st_file (s_keyTbl (flushFinish s)) = key_header (s_version s) (of_nat (length kvs)) @ key_part 0 kvs"
    "st_file (s_valueTbl (flushFinish s)) = val_part kvs"
    unfolding e using un n cont(2) by simp_all
qed

text \<open>What a reader sees of a table: the pairs \<open>kvs\<close>, with an empty value as nil.\<close>

definition nil_value :: "bytes \<Rightarrow> bytes option" where
  "nil_value v = (if v = [] then None else Some v)"

definition super_shows :: "superTable \<Rightarrow> (bytes \<times> bytes) list \<Rightarrow> bool" where
  "super_shows s kvs \<longleftrightarrow> unat (s_keyReadable s) = length kvs \<and>
     (\<forall>i < length kvs. readKeyByPos s i = Some (fst (kvs ! i))
        \<and> (\<exists>off. readKVByPos s i = Some (fst (kvs ! i), off) \<and> readValueOffsetByPos s i = uint off
             \<and> getValue s off = nil_value (snd (kvs ! i))))"

text \<open>The reads of one entry: the value offset behind its key, the size of the value and the value.\<close>

lemma read_voff:
  assumes kf: "keys_fit (s_keyLength s) kvs" and i: "i < length kvs"
    and kc: "st_file (s_keyTbl s) @ g = h @ key_part 0 kvs" "length h = 8"
    and kl: "getKeyPosOffset s (Suc i) \<le> length (st_file (s_keyTbl s))"
  shows "ReadAt (st_file (s_keyTbl s)) (s_keyStep s) (getKeyPosOffset s i) = Some (fst (kvs ! i) @ be_enc 4 (of_nat (voff kvs i) :: u32))"
    and "ReadAt (st_file (s_keyTbl s)) (s_keyLength s) (getKeyPosOffset s i) = Some (fst (kvs ! i))"
    and "ReadAt (st_file (s_keyTbl s)) 4 (getKeyPosOffset s i + s_keyLength s) = Some (be_enc 4 (of_nat (voff kvs i) :: u32))"
proof -
  let ?L = "s_keyLength s" and ?key = "fst (kvs ! i)" and ?off = "of_nat (voff kvs i) :: u32"
  have lk: "length ?key = ?L" using kf i by (simp add: keys_fit_def)
  obtain rest where rest: "drop (i * (?L + 4)) (key_part 0 kvs) = ?key @ be_enc 4 ?off @ rest"
    using key_part_at [OF kf i] by blast
  have at: "drop (getKeyPosOffset s i) (h @ key_part 0 kvs) = ?key @ be_enc 4 ?off @ rest"
    using rest kc(2) by (simp add: getKeyPosOffset_def s_keyStep_def)
  have end': "getKeyPosOffset s i + (?L + 4) \<le> length (st_file (s_keyTbl s))"
    using kl by (simp add: getKeyPosOffset_def s_keyStep_def)
  show "ReadAt (st_file (s_keyTbl s)) ?L (getKeyPosOffset s i) = Some ?key"
    using ReadAt_prefix [OF kc(1) _ at] end' lk by simp
  have "ReadAt (st_file (s_keyTbl s)) (length (?key @ be_enc 4 ?off)) (getKeyPosOffset s i) = Some (?key @ be_enc 4 ?off)"
    by (rule ReadAt_prefix [OF kc(1), where rest = rest]) (use at end' lk in simp_all)
  then show "ReadAt (st_file (s_keyTbl s)) (s_keyStep s) (getKeyPosOffset s i) = Some (?key @ be_enc 4 ?off)"
    using lk by (simp add: s_keyStep_def)
  have at2: "drop (getKeyPosOffset s i + ?L) (h @ key_part 0 kvs) = be_enc 4 ?off @ rest"
    using at lk by (simp only: add.commute [of _ ?L] drop_drop [symmetric]) simp
  have "ReadAt (st_file (s_keyTbl s)) (length (be_enc 4 ?off)) (getKeyPosOffset s i + ?L) = Some (be_enc 4 ?off)"
    by (rule ReadAt_prefix [OF kc(1) _ at2]) (use end' in simp)
  then show "ReadAt (st_file (s_keyTbl s)) 4 (getKeyPosOffset s i + ?L) = Some (be_enc 4 ?off)" by simp
qed

lemma read_val:
  assumes "i < length kvs" and "f @ g = val_part kvs"
  shows "voff kvs i + 4 \<le> length f \<Longrightarrow> ReadAt f 4 (voff kvs i) = Some (be_enc 4 (of_nat (length (snd (kvs ! i))) :: u32))"
    and "voff kvs (Suc i) \<le> length f \<Longrightarrow> ReadAt f (length (snd (kvs ! i))) (voff kvs i + 4) = Some (snd (kvs ! i))"
proof -
  let ?v = "snd (kvs ! i)"
  obtain r where r: "drop (voff kvs i) (val_part kvs) = be_enc 4 (of_nat (length ?v) :: u32) @ ?v @ r"
    using val_part_at [OF assms(1)] by (auto simp: val_entry_def)
  have r4: "drop (voff kvs i + 4) (val_part kvs) = ?v @ r" using arg_cong [OF r, of "drop 4"] by (simp add: add.commute)
  show "ReadAt f 4 (voff kvs i) = Some (be_enc 4 (of_nat (length ?v) :: u32))" if "voff kvs i + 4 \<le> length f"
    using ReadAt_prefix [OF assms(2) _ r] that by simp
  show "ReadAt f (length ?v) (voff kvs i + 4) = Some ?v" if "voff kvs (Suc i) \<le> length f"
    by (rule ReadAt_prefix [OF assms(2) _ r4]) (use voff_Suc [OF assms(1)] that in simp)
qed

lemma unat_voff:
  assumes "i < length kvs" and "length (val_part kvs) < 2 ^ 32"
  shows "unat (of_nat (voff kvs i) :: u32) = voff kvs i" and "unat (of_nat (length (snd (kvs ! i))) :: u32) = length (snd (kvs ! i))"
    and "unat (of_nat (voff kvs i) + 4 :: u32) = voff kvs i + 4"
proof -
  have lv: "length (snd (kvs ! i)) < 2 ^ 32" "voff kvs i + 4 < 2 ^ 32"
    using voff_Suc [OF assms(1)] voff_le [of kvs "Suc i"] assms(2) by linarith+
  show o: "unat (of_nat (voff kvs i) :: u32) = voff kvs i" by (rule unat32) (use lv in simp)
  show "unat (of_nat (length (snd (kvs ! i))) :: u32) = length (snd (kvs ! i))" by (rule unat32 [OF lv(1)])
  show "unat (of_nat (voff kvs i) + 4 :: u32) = voff kvs i + 4" using unat_plus [of "of_nat (voff kvs i)" 4] o lv(2) by simp
qed

lemma read_entry:
  assumes kf: "keys_fit (s_keyLength s) kvs" and i: "i < length kvs"
    and kc: "st_file (s_keyTbl s) @ g = h @ key_part 0 kvs" "length h = 8"
    and kl: "getKeyPosOffset s (Suc i) \<le> length (st_file (s_keyTbl s))"
    and vc: "st_file (s_valueTbl s) @ g' = val_part kvs" and vl: "voff kvs (Suc i) \<le> length (st_file (s_valueTbl s))"
    and fit: "length (val_part kvs) < 2 ^ 32"
  shows "readKeyByPos s i = Some (fst (kvs ! i))" and "readKVByPos s i = Some (fst (kvs ! i), of_nat (voff kvs i))"
    and "readValueOffsetByPos s i = uint (of_nat (voff kvs i) :: u32)"
    and "getValue s (of_nat (voff kvs i)) = nil_value (snd (kvs ! i))"
proof -
  have lk: "length (fst (kvs ! i)) = s_keyLength s" using kf i by (simp add: keys_fit_def)
  note k = read_voff [OF kf i kc kl] and u = unat_voff [OF i fit]
  show "readKeyByPos s i = Some (fst (kvs ! i))" by (simp add: readKeyByPos_def k)
  show "readKVByPos s i = Some (fst (kvs ! i), of_nat (voff kvs i))" using lk by (simp add: readKVByPos_def k be_dec_enc)
  show "readValueOffsetByPos s i = uint (of_nat (voff kvs i) :: u32)" by (simp add: readValueOffsetByPos_def k be_dec_enc)
  have "voff kvs i + 4 \<le> length (st_file (s_valueTbl s))" using vl voff_Suc [OF i] by linarith
  note v = read_val(1) [OF i vc this] read_val(2) [OF i vc vl]
  show "getValue s (of_nat (voff kvs i)) = nil_value (snd (kvs ! i))"
    using v by (simp add: getValue_def u be_dec_enc nil_value_def)
qed

lemma getKeyPosOffset_mono: "i \<le> j \<Longrightarrow> getKeyPosOffset s i \<le> getKeyPosOffset s j"
  by (simp add: getKeyPosOffset_def)

lemma super_inv_shows:
  assumes inv: "super_inv s kvs"
  shows "super_shows s (take (unat (s_keyReadable s)) kvs)"
proof -
  let ?n = "unat (s_keyReadable s)"
  have n: "?n \<le> length kvs" and kf: "keys_fit (s_keyLength s) kvs" and fit: "length (val_part kvs) < 2 ^ 32"
    and kc: "st_file (s_keyTbl s) @ st_wbuf (s_keyTbl s) = key_header (s_version s) (s_keyReadable s) @ key_part 0 kvs"
    and vc: "st_file (s_valueTbl s) @ st_wbuf (s_valueTbl s) = val_part kvs"
    and kl: "getKeyPosOffset s ?n \<le> length (st_file (s_keyTbl s))" and vl: "voff kvs ?n \<le> length (st_file (s_valueTbl s))"
    using inv by (simp_all add: super_inv_def st_content_def)
  have "readKeyByPos s i = Some (fst (kvs ! i))" "readKVByPos s i = Some (fst (kvs ! i), of_nat (voff kvs i))"
      "readValueOffsetByPos s i = uint (of_nat (voff kvs i) :: u32)" "getValue s (of_nat (voff kvs i)) = nil_value (snd (kvs ! i))"
    if "i < ?n" for i
  proof -
    have "i < length kvs" "getKeyPosOffset s (Suc i) \<le> length (st_file (s_keyTbl s))" "voff kvs (Suc i) \<le> length (st_file (s_valueTbl s))"
      using that n kl vl getKeyPosOffset_mono [of "Suc i" ?n s] voff_mono [of "Suc i" ?n kvs] by linarith+
    from read_entry [OF kf this(1) kc length_key_header this(2) vc this(3) fit]
    show "readKeyByPos s i = Some (fst (kvs ! i))" "readKVByPos s i = Some (fst (kvs ! i), of_nat (voff kvs i))"
      "readValueOffsetByPos s i = uint (of_nat (voff kvs i) :: u32)" "getValue s (of_nat (voff kvs i)) = nil_value (snd (kvs ! i))"
      by blast+
  qed
  then show ?thesis using n by (simp add: super_shows_def)
qed

lemma super_get_shows:
  assumes sh: "super_shows s kvs" and srt: "sorted_wrt (<) (map fst kvs)"
  shows "super_get s key = Option.bind (map_of kvs key) nil_value"
proof -
  let ?k = "\<lambda>i. fst (kvs ! i)"
  let ?f = "\<lambda>i. Some (- bytes_Compare (nil_empty (readKeyByPos s i)) key)"
  have k: "nil_empty (readKeyByPos s i) = ?k i" if "i < length kvs" for i
    using sh that by (simp add: super_shows_def nil_empty_def)
  have num: "unat (s_keyReadable s) = length kvs" using sh by (simp add: super_shows_def)
  have mono: "?k i \<le> ?k j" if "i \<le> j" "j < length kvs" for i j
    using srt that sorted_wrt_nth_less [of "(<)" "map fst kvs" i j] by (cases "i = j") auto
  have ge: "- bytes_Compare a key \<le> 0 \<longleftrightarrow> key \<le> a" for a by (auto simp: bytes_Compare_iff)
  have f: "map_option (\<lambda>c. c \<le> 0) (?f h) = Some (key \<le> ?k h)" if "h < length kvs" for h
    using k [OF that] by (simp only: option.map ge)
  have up: "key \<le> ?k h \<Longrightarrow> key \<le> ?k i" if "h \<le> i" "i < length kvs" for h i
    using mono [OF that] by (meson order_trans)
  obtain j where j: "sort_Search (length kvs) (\<lambda>h. map_option (\<lambda>c. c \<le> 0) (?f h)) = Some j" "j \<le> length kvs"
      "\<And>i. i < j \<Longrightarrow> \<not> key \<le> ?k i" "\<And>i. j \<le> i \<Longrightarrow> i < length kvs \<Longrightarrow> key \<le> ?k i"
    by (rule sort_Search_least [of "length kvs" _ "\<lambda>h. key \<le> ?k h", OF f up]) auto
  have find: "sort_Find (unat (s_keyReadable s)) ?f = Some (j, j < length kvs \<and> ?k j = key)"
    using j(1,2) k [of j] by (auto simp: sort_Find_def num bytes_Compare_eq)
  show ?thesis
  proof (cases "j < length kvs \<and> ?k j = key")
    case True
    have d: "distinct (map fst kvs)" using srt by (simp add: strict_sorted_iff)
    have "(key, snd (kvs ! j)) \<in> set kvs" using True nth_mem [of j kvs] by (cases "kvs ! j") auto
    then have mo: "map_of kvs key = Some (snd (kvs ! j))" using d by simp
    obtain off where off: "readValueOffsetByPos s j = uint off" "getValue s off = nil_value (snd (kvs ! j))"
      using sh True by (auto simp: super_shows_def)
    then show ?thesis using find True mo by (simp add: super_get_def Let_def)
  next
    case False
    have "key \<notin> fst ` set kvs"
    proof
      assume "key \<in> fst ` set kvs"
      then obtain i where i: "i < length kvs" "?k i = key" by (auto simp: in_set_conv_nth)
      then have "j \<le> i" using j(3) [of i] by (meson linorder_not_less order_refl)
      then have "key \<le> ?k j" "?k j \<le> key" "j < length kvs" using j(4) [of j] mono [of j i] i by simp_all
      with False show False by (meson order_antisym)
    qed
    then have "map_of kvs key = None" by (simp add: map_of_eq_None_iff)
    with find False show ?thesis by (simp add: super_get_def)
  qed
qed

text \<open>A run of writes and flushes.\<close>

datatype st_op = StSet bytes bytes | StFlush

fun st_run :: "superTable \<Rightarrow> st_op list \<Rightarrow> superTable option" where
  "st_run s [] = Some s"
| "st_run s (StSet k v # ops) = Option.bind (super_set s k v) (\<lambda>s. st_run s ops)"
| "st_run s (StFlush # ops) = st_run (flushFinish s) ops"

fun st_sets :: "st_op list \<Rightarrow> (bytes \<times> bytes) list" where
  "st_sets [] = []"
| "st_sets (StSet k v # ops) = (k, v) # st_sets ops"
| "st_sets (StFlush # ops) = st_sets ops"

text \<open>The pairs set before the last flush.\<close>

definition st_flushed :: "st_op list \<Rightarrow> (bytes \<times> bytes) list" where
  "st_flushed ops = st_sets (rev (dropWhile (\<lambda>op. op \<noteq> StFlush) (rev ops)))"

lemma st_sets_append: "st_sets (xs @ ys) = st_sets xs @ st_sets ys"
  by (induction xs rule: st_sets.induct) auto

lemma st_run_append: "st_run s (xs @ ys) = Option.bind (st_run s xs) (\<lambda>s. st_run s ys)"
  by (induction s xs rule: st_run.induct) (auto simp: Option.bind_assoc split: bind_splits)

lemma st_run_ok:
  assumes "keys_fit L (st_sets ops)" and "8 + length (key_part 0 (st_sets ops)) < 2 ^ 32" "length (val_part (st_sets ops)) < 2 ^ 32"
  shows "\<exists>s. st_run (newSuperTable L) ops = Some s \<and> super_inv s (st_sets ops) \<and> s_keyLength s = L
    \<and> unat (s_keyReadable s) = length (st_flushed ops) \<and> st_flushed ops = take (length (st_flushed ops)) (st_sets ops)"
  using assms
proof (induction ops rule: rev_induct)
  case Nil
  then show ?case using newSuperTable_inv by (simp add: st_flushed_def)
next
  case (snoc op ops)
  have "8 + length (key_part 0 (st_sets ops)) < 2 ^ 32" "length (val_part (st_sets ops)) < 2 ^ 32" "keys_fit L (st_sets ops)"
    using snoc.prems by (simp_all add: st_sets_append key_part_append val_part_append)
  from snoc.IH [OF this(3,1,2)] obtain s where s: "st_run (newSuperTable L) ops = Some s" "super_inv s (st_sets ops)" "s_keyLength s = L"
      "unat (s_keyReadable s) = length (st_flushed ops)" "st_flushed ops = take (length (st_flushed ops)) (st_sets ops)" by blast
  show ?case
  proof (cases op)
    case (StSet k v)
    have fl: "st_flushed (ops @ [op]) = st_flushed ops" "st_sets (ops @ [op]) = st_sets ops @ [(k, v)]"
      by (simp_all add: st_flushed_def st_sets_append StSet)
    have "length k = s_keyLength s" using snoc.prems(1) by (simp add: fl s(3) keys_fit_def)
    moreover have "8 + length (key_part 0 (st_sets ops @ [(k, v)])) < 2 ^ 32" "length (val_part (st_sets ops @ [(k, v)])) < 2 ^ 32"
      using snoc.prems(2,3) by (simp_all only: fl)
    ultimately obtain s' where s': "super_set s k v = Some s'" "super_inv s' (st_sets ops @ [(k, v)])"
        "s_keyReadable s' = s_keyReadable s" "s_keyLength s' = s_keyLength s"
      using super_set_ok [OF s(2)] by blast
    have le: "length (st_flushed ops) \<le> length (st_sets ops)" using s(5) by (metis length_take min.cobounded1)
    show ?thesis unfolding fl using s s' le by (auto simp: StSet st_run_append)
  next
    case StFlush
    have fl: "st_flushed (ops @ [op]) = st_sets ops" "st_sets (ops @ [op]) = st_sets ops"
      by (simp_all add: st_flushed_def st_sets_append StFlush)
    show ?thesis unfolding fl using s(1,3) flushFinish_ok [OF s(2)] by (simp add: StFlush st_run_append)
  qed
qed

section \<open>Recovery\<close>

text \<open>The files of a table after a crash: prefixes of the entries of the pairs \<open>kvs\<close>. An entry is complete when
  its key entry and its value are.\<close>

definition st_crashed :: "superTable \<Rightarrow> (bytes \<times> bytes) list \<Rightarrow> bool" where
  "st_crashed s kvs \<longleftrightarrow> keys_fit (s_keyLength s) kvs
     \<and> (\<exists>h g. length h = 8 \<and> st_file (s_keyTbl s) @ g = h @ key_part 0 kvs) \<and> 8 \<le> length (st_file (s_keyTbl s))
     \<and> (\<exists>g. st_file (s_valueTbl s) @ g = val_part kvs)
     \<and> st_filesz (s_keyTbl s) = length (st_file (s_keyTbl s)) \<and> st_filesz (s_valueTbl s) = length (st_file (s_valueTbl s))
     \<and> length (val_part kvs) < 2 ^ 32 \<and> 8 + length (key_part 0 kvs) < 2 ^ 32"

definition entry_complete :: "nat \<Rightarrow> (bytes \<times> bytes) list \<Rightarrow> nat \<Rightarrow> nat \<Rightarrow> nat \<Rightarrow> bool" where
  "entry_complete L kvs keyFilesz valueFilesz i \<longleftrightarrow> 8 + Suc i * (L + 4) \<le> keyFilesz \<and> voff kvs (Suc i) \<le> valueFilesz"

definition complete_entries :: "nat \<Rightarrow> (bytes \<times> bytes) list \<Rightarrow> nat \<Rightarrow> nat \<Rightarrow> nat" where
  "complete_entries L kvs keyFilesz valueFilesz = length (takeWhile (entry_complete L kvs keyFilesz valueFilesz) [0..<length kvs])"

lemma complete_entries_le: "complete_entries L kvs m w \<le> length kvs"
  unfolding complete_entries_def by (metis diff_zero length_takeWhile_le length_upt)

lemma complete_entries_below: "i < complete_entries L kvs m w \<Longrightarrow> entry_complete L kvs m w i"
  unfolding complete_entries_def
  by (metis add_0 complete_entries_def complete_entries_le less_le_trans nth_mem nth_upt set_takeWhileD takeWhile_nth)

lemma complete_entries_end: "complete_entries L kvs m w < length kvs \<Longrightarrow> \<not> entry_complete L kvs m w (complete_entries L kvs m w)"
  using nth_length_takeWhile [of "entry_complete L kvs m w" "[0..<length kvs]"] by (simp add: complete_entries_def)

abbreviation "crash_complete s kvs \<equiv>
  entry_complete (s_keyLength s) kvs (length (st_file (s_keyTbl s))) (length (st_file (s_valueTbl s)))"

abbreviation "crash_count s kvs \<equiv>
  complete_entries (s_keyLength s) kvs (length (st_file (s_keyTbl s))) (length (st_file (s_valueTbl s)))"

text \<open>The loop at an entry with a complete value that is not empty moves on, \<dots>\<close>

lemma rebuild_step:
  assumes cr: "st_crashed s kvs" and i: "i < length kvs" "crash_complete s kvs i" and v: "snd (kvs ! i) \<noteq> []"
  shows "rebuild s (getKeyPosOffset s i) n = rebuild s (getKeyPosOffset s (Suc i)) (n + 1)"
proof -
  obtain h g g' where f: "keys_fit (s_keyLength s) kvs" "length h = 8" "st_file (s_keyTbl s) @ g = h @ key_part 0 kvs"
      "st_file (s_valueTbl s) @ g' = val_part kvs" "length (val_part kvs) < 2 ^ 32"
      "st_filesz (s_keyTbl s) = length (st_file (s_keyTbl s))" "st_filesz (s_valueTbl s) = length (st_file (s_valueTbl s))"
    using cr by (auto simp: st_crashed_def)
  have kl: "getKeyPosOffset s (Suc i) \<le> length (st_file (s_keyTbl s))" and vl: "voff kvs (Suc i) \<le> length (st_file (s_valueTbl s))"
    using i(2) by (simp_all add: entry_complete_def getKeyPosOffset_def s_keyStep_def)
  have nxt: "getKeyPosOffset s i + s_keyStep s = getKeyPosOffset s (Suc i)" by (simp add: getKeyPosOffset_def)
  have pos: "voff kvs i + 4 < length (st_file (s_valueTbl s))" using vl v voff_Suc [OF i(1)] by (cases "snd (kvs ! i)") auto
  note k = read_voff(3) [OF f(1) i(1) f(3,2) kl] and u = unat_voff [OF i(1) f(5)]
  note r = read_val(1) [OF i(1) f(4) less_imp_le [OF pos]] read_val(2) [OF i(1) f(4) vl]
  show ?thesis
    using kl pos v by (subst rebuild.simps) (simp add: nxt k u r f(6,7) be_dec_enc Let_def)
qed

text \<open>at an empty value it stays for ever, \<dots>\<close>

lemma rebuild_stuck:
  assumes cr: "st_crashed s kvs" and i: "i < length kvs" "crash_complete s kvs i" and v: "snd (kvs ! i) = []"
    and pos: "voff kvs i + 4 < length (st_file (s_valueTbl s))"
  shows "rebuild s (getKeyPosOffset s i) n = None"
proof (rule ccontr)
  obtain h g g' where f: "keys_fit (s_keyLength s) kvs" "length h = 8" "st_file (s_keyTbl s) @ g = h @ key_part 0 kvs"
      "st_file (s_valueTbl s) @ g' = val_part kvs" "length (val_part kvs) < 2 ^ 32"
      "st_filesz (s_keyTbl s) = length (st_file (s_keyTbl s))" "st_filesz (s_valueTbl s) = length (st_file (s_valueTbl s))"
    using cr by (auto simp: st_crashed_def)
  have kl: "getKeyPosOffset s (Suc i) \<le> length (st_file (s_keyTbl s))"
    using i(2) by (simp add: entry_complete_def getKeyPosOffset_def s_keyStep_def)
  have nxt: "getKeyPosOffset s i + s_keyStep s = getKeyPosOffset s (Suc i)" by (simp add: getKeyPosOffset_def)
  note k = read_voff(3) [OF f(1) i(1) f(3,2) kl] and u = unat_voff [OF i(1) f(5)]
  note r = read_val(1) [OF i(1) f(4) less_imp_le [OF pos]]
  assume "rebuild s (getKeyPosOffset s i) n \<noteq> None"
  then obtain c where c: "rebuild s (getKeyPosOffset s i) n = Some c" by auto
  have "\<not> (s = s \<and> getKeyPosOffset s i = getKeyPosOffset s i)"
  proof (rule rebuild.raw_induct [where P = "\<lambda>s' p m c'. \<not> (s' = s \<and> p = getKeyPosOffset s i)", OF _ c], goal_cases)
    case (1 loop s' p m c')
    show ?case
    proof
      assume eq: "s' = s \<and> p = getKeyPosOffset s i"
      then have "loop s p m = Some c'" using 1(2) kl pos v by (simp add: nxt k u r f(6,7) be_dec_enc Let_def)
      with 1(1) eq show False by blast
    qed
  qed
  then show False by simp
qed

text \<open>and it ends at the first entry that is not complete.\<close>

lemma rebuild_end:
  assumes cr: "st_crashed s kvs" and v: "\<forall>kv \<in> set kvs. snd kv \<noteq> []"
  shows "rebuild s (getKeyPosOffset s (crash_count s kvs)) n = Some n"
proof -
  let ?i = "crash_count s kvs" and ?K = "st_file (s_keyTbl s)" and ?V = "st_file (s_valueTbl s)"
  obtain h g g' where f: "keys_fit (s_keyLength s) kvs" "length h = 8" "?K @ g = h @ key_part 0 kvs"
      "?V @ g' = val_part kvs" "length (val_part kvs) < 2 ^ 32" "st_filesz (s_keyTbl s) = length ?K" "st_filesz (s_valueTbl s) = length ?V"
    using cr by (auto simp: st_crashed_def)
  have nxt: "getKeyPosOffset s ?i + s_keyStep s = getKeyPosOffset s (Suc ?i)" by (simp add: getKeyPosOffset_def)
  show ?thesis
  proof (cases "getKeyPosOffset s (Suc ?i) \<le> length ?K")
    case False
    then show ?thesis by (subst rebuild.simps) (simp add: nxt f(6) Let_def)
  next
    case kl: True
    have "length ?K \<le> 8 + length (key_part 0 kvs)" using arg_cong [OF f(3), of length] f(2) by simp
    then have "Suc ?i * (s_keyLength s + 4) \<le> length kvs * (s_keyLength s + 4)"
      using kl length_key_part [OF f(1), of 0] by (simp add: getKeyPosOffset_def s_keyStep_def)
    then have i: "?i < length kvs" by (simp only: mult_le_cancel2) auto
    have vl: "length ?V < voff kvs (Suc ?i)"
      using complete_entries_end [OF i] kl by (simp add: entry_complete_def getKeyPosOffset_def s_keyStep_def)
    note k = read_voff(3) [OF f(1) i f(3,2) kl] and u = unat_voff [OF i f(5)]
    show ?thesis
    proof (cases "length ?V \<le> voff kvs ?i + 4")
      case True
      then show ?thesis using kl by (subst rebuild.simps) (simp add: nxt k u f(6,7) be_dec_enc Let_def)
    next
      case False
      then have r: "ReadAt ?V 4 (voff kvs ?i) = Some (be_enc 4 (of_nat (length (snd (kvs ! ?i))) :: u32))"
        using read_val(1) [OF i f(4)] by simp
      have "ReadAt ?V (length (snd (kvs ! ?i))) (voff kvs ?i + 4) = None" "snd (kvs ! ?i) \<noteq> []"
        using vl voff_Suc [OF i] v i by (auto simp: ReadAt_def)
      then show ?thesis using kl False r by (subst rebuild.simps) (simp add: nxt k u f(6,7) be_dec_enc Let_def)
    qed
  qed
qed

lemma rebuild_to:
  assumes cr: "st_crashed s kvs" and v: "\<forall>i < j. snd (kvs ! i) \<noteq> []" and j: "j \<le> crash_count s kvs"
  shows "i \<le> j \<Longrightarrow> rebuild s (getKeyPosOffset s i) (of_nat i) = rebuild s (getKeyPosOffset s j) (of_nat j)"
proof (induction "j - i" arbitrary: i)
  case (Suc d)
  then have i: "i < j" by simp
  have "i < length kvs" using i j complete_entries_le [of "s_keyLength s" kvs] by (meson less_le_trans)
  moreover have "crash_complete s kvs i" by (rule complete_entries_below [OF less_le_trans [OF i j]])
  ultimately have "rebuild s (getKeyPosOffset s i) (of_nat i) = rebuild s (getKeyPosOffset s (Suc i)) (of_nat i + 1)"
    using rebuild_step [OF cr] v i by blast
  moreover have "d = j - Suc i" "Suc i \<le> j" using Suc.hyps(2) i by simp_all
  ultimately show ?case using Suc.hyps(1) [of "Suc i"] by (simp add: add.commute)
qed simp

lemma super_shows_crashed:
  assumes cr: "st_crashed s kvs" and n: "unat (s_keyReadable s) = n" "n \<le> crash_count s kvs"
  shows "super_shows s (take n kvs)"
proof -
  obtain h g g' where f: "keys_fit (s_keyLength s) kvs" "length h = 8" "st_file (s_keyTbl s) @ g = h @ key_part 0 kvs"
      "st_file (s_valueTbl s) @ g' = val_part kvs" "length (val_part kvs) < 2 ^ 32"
    using cr by (auto simp: st_crashed_def)
  have len: "n \<le> length kvs" using n(2) complete_entries_le order_trans by blast
  have "readKeyByPos s i = Some (fst (kvs ! i)) \<and> readKVByPos s i = Some (fst (kvs ! i), of_nat (voff kvs i))
      \<and> readValueOffsetByPos s i = uint (of_nat (voff kvs i) :: u32) \<and> getValue s (of_nat (voff kvs i)) = nil_value (snd (kvs ! i))"
    if "i < n" for i
  proof -
    have c: "crash_complete s kvs i" by (rule complete_entries_below [OF less_le_trans [OF that n(2)]])
    have i: "i < length kvs" using that len by simp
    have "getKeyPosOffset s (Suc i) \<le> length (st_file (s_keyTbl s))" "voff kvs (Suc i) \<le> length (st_file (s_valueTbl s))"
      using c by (simp_all add: entry_complete_def getKeyPosOffset_def s_keyStep_def)
    from read_entry [OF f(1) i f(3,2) this(1) f(4) this(2) f(5)] show ?thesis by blast
  qed
  then show ?thesis using n(1) len by (simp add: super_shows_def)
qed

lemma writeKeyNum_crashed:
  assumes cr: "st_crashed s kvs"
  shows "st_crashed (writeKeyNum s num) kvs" and "crash_count (writeKeyNum s num) kvs = crash_count s kvs"
proof -
  let ?K = "st_file (s_keyTbl s)" and ?f = "file_put (st_file (s_keyTbl s)) 4 (be_enc 4 num)"
  obtain h g where f: "length h = 8" "?K @ g = h @ key_part 0 kvs" and l: "8 \<le> length ?K"
    using cr by (auto simp: st_crashed_def)
  have len: "length ?f = length ?K" using l by (simp add: file_put_def)
  have "drop 8 ?K @ g = key_part 0 kvs" using arg_cong [OF f(2), of "drop 8"] f(1) l by simp
  then have "?f @ g = (take 4 ?K @ be_enc 4 num) @ key_part 0 kvs" using l by (simp add: file_put_def)
  moreover have "length (take 4 ?K @ be_enc 4 num) = 8" using l by simp
  ultimately have "\<exists>h g. length h = 8 \<and> ?f @ g = h @ key_part 0 kvs" by blast
  then show "st_crashed (writeKeyNum s num) kvs"
    using cr len unfolding st_crashed_def by (simp add: writeKeyNum_def Let_def)
  show "crash_count (writeKeyNum s num) kvs = crash_count s kvs" by (simp add: writeKeyNum_def Let_def len)
qed

lemma st_crashed_header [simp]:
  "st_crashed (s\<lparr>s_version := ver\<rparr>) kvs = st_crashed s kvs" "st_crashed (s\<lparr>s_keyReadable := r\<rparr>) kvs = st_crashed s kvs"
  by (simp_all add: st_crashed_def)

text \<open>Opening the files of a crashed table: a matching size is trusted, otherwise the entries are counted.\<close>

lemma readKeyFileHeader_crashed:
  assumes cr: "st_crashed s kvs" and hd: "take 8 (st_file (s_keyTbl s)) = key_header ver num"
    and trust: "unat num \<le> crash_count s kvs" and v: "\<forall>kv \<in> set kvs. snd kv \<noteq> []"
  shows "\<exists>s'. readKeyFileHeader s = Some (Inr s') \<and> super_shows s' (take (crash_count s kvs) kvs) \<and> st_crashed s' kvs
     \<and> s_keyTbl s' = (if unat num = crash_count s kvs then s_keyTbl s else s_keyTbl (writeKeyNum s (of_nat (crash_count s kvs))))
     \<and> s_valueTbl s' = s_valueTbl s \<and> s_keyLength s' = s_keyLength s \<and> unat (s_keyReadable s') = crash_count s kvs \<and> s_keyFlushed s' = s_keyFlushed s"
proof -
  let ?K = "st_file (s_keyTbl s)" and ?c = "crash_count s kvs" and ?s = "s\<lparr>s_version := ver\<rparr>"
  have l: "8 \<le> length ?K" and fsz: "st_filesz (s_keyTbl s) = length ?K" and kf: "keys_fit (s_keyLength s) kvs"
    and bound: "8 + length (key_part 0 kvs) < 2 ^ 32" and cr': "st_crashed ?s kvs"
    using cr by (auto simp: st_crashed_def)
  have rd: "ReadAt ?K 8 0 = Some (key_header ver num)" using l hd by (simp add: ReadAt_def)
  have "length kvs \<le> length (key_part 0 kvs)" using length_key_part [OF kf, of 0] by simp
  then have "?c < 2 ^ 32" using complete_entries_le [of "s_keyLength s" kvs] bound by (meson le_less_trans le_add2 order_trans)
  then have c32: "unat (of_nat ?c :: u32) = ?c" by (rule unat32)
  show ?thesis
  proof (cases "8 + unat num * s_keyStep s = length ?K")
    case True
    have "?c \<le> unat num"
    proof (rule ccontr)
      assume "\<not> ?c \<le> unat num"
      then have "crash_complete s kvs (unat num)" using complete_entries_below by simp
      then show False using True by (simp add: entry_complete_def s_keyStep_def)
    qed
    then have eq: "unat num = ?c" using trust by simp
    have "readKeyFileHeader s = Some (Inr (?s\<lparr>s_keyReadable := num\<rparr>))"
      using True fsz by (simp add: readKeyFileHeader_def rd key_header_def be_dec_enc s_keyStep_def)
    moreover have "super_shows (?s\<lparr>s_keyReadable := num\<rparr>) (take ?c kvs)"
      using super_shows_crashed [of "?s\<lparr>s_keyReadable := num\<rparr>" kvs ?c] cr' eq by simp
    ultimately show ?thesis using cr' eq by simp
  next
    case False
    have "\<forall>i < ?c. snd (kvs ! i) \<noteq> []" using v complete_entries_le by (meson less_le_trans nth_mem)
    from rebuild_to [OF cr', of ?c 0] this have "rebuild ?s (getKeyPosOffset ?s 0) 0 = rebuild ?s (getKeyPosOffset ?s ?c) (of_nat ?c)" by simp
    also have "\<dots> = Some (of_nat ?c)" using rebuild_end [OF cr' v] by simp
    finally have rb: "rebuild ?s 8 0 = Some (of_nat ?c)" by (simp add: getKeyPosOffset_def)
    let ?r = "?s\<lparr>s_keyReadable := of_nat ?c\<rparr>"
    let ?s' = "if of_nat ?c \<noteq> num then writeKeyNum ?r (of_nat ?c) else ?r"
    have e: "readKeyFileHeader s = Some (Inr ?s')"
      using False fsz rb by (simp add: readKeyFileHeader_def rd key_header_def be_dec_enc s_keyStep_def Let_def)
    have crs: "st_crashed ?s' kvs" "crash_count ?s' kvs = ?c" using writeKeyNum_crashed [of ?r kvs] cr' by simp_all
    have num: "(of_nat ?c = num) = (unat num = ?c)" using c32 by (metis word_unat_eq_iff)
    have k: "unat (s_keyReadable ?s') = ?c" "s_valueTbl ?s' = s_valueTbl s" "s_keyLength ?s' = s_keyLength s" "s_keyFlushed ?s' = s_keyFlushed s"
        "s_keyTbl ?s' = (if unat num = ?c then s_keyTbl s else s_keyTbl (writeKeyNum s (of_nat ?c)))"
      using c32 num by (simp_all add: writeKeyNum_def Let_def)
    have "super_shows ?s' (take ?c kvs)" by (rule super_shows_crashed [OF crs(1) k(1)]) (simp only: crs(2))
    with e crs(1) k show ?thesis by blast
  qed
qed

section \<open>Iterating over a table\<close>

definition super_view :: "superTable \<Rightarrow> (bytes \<times> bytes) list" where
  "super_view s = map (\<lambda>i. case the (readKVByPos s i) of (k, off) \<Rightarrow> (k, nil_empty (getValue s off))) [0..<unat (s_keyReadable s)]"

lemma nil_empty_value [simp]: "nil_empty (nil_value v) = v"
  by (simp add: nil_empty_def nil_value_def)

lemma super_shows_view: "super_shows s kvs \<Longrightarrow> super_view s = kvs"
  by (rule nth_equalityI) (auto simp: super_shows_def super_view_def)

definition si_ok :: "superTableIterator \<Rightarrow> bool" where
  "si_ok i \<longleftrightarrow> super_shows (si_st i) (super_view (si_st i)) \<and> si_keyNum i = length (super_view (si_st i))"

definition si_entries :: "superTableIterator \<Rightarrow> (InternalKey \<times> bytes) list" where
  "si_entries i = map set_entry (super_view (si_st i))"

lemma si_findItem_ok:
  assumes "si_ok i" and "si_keyPos i = int p"
  shows "si_findItem i = (if p < length (si_entries i) then Some (si_entries i ! p) else None)"
proof (cases "p < length (si_entries i)")
  case True
  then obtain off where "readKVByPos (si_st i) p = Some (fst (super_view (si_st i) ! p), off)"
      "getValue (si_st i) off = nil_value (snd (super_view (si_st i) ! p))"
    using assms(1) by (auto simp: si_ok_def super_shows_def si_entries_def)
  with True assms show ?thesis by (simp add: si_findItem_def si_ok_def si_entries_def set_entry_def)
next
  case False
  with assms show ?thesis by (simp add: si_findItem_def si_ok_def si_entries_def)
qed

lemma si_pos [simp]: "si_ok (i\<lparr>si_keyPos := p\<rparr>) = si_ok i" "si_entries (i\<lparr>si_keyPos := p\<rparr>) = si_entries i"
  by (simp_all add: si_ok_def si_entries_def)

interpretation si: forward_iter si_First si_Next si_entries "\<lambda>i e. True" si_ok
    "\<lambda>i p. si_ok i \<and> si_keyPos i = int p"
proof unfold_locales
  fix s :: superTableIterator and i :: nat
  have first: "si_First s = Some (s\<lparr>si_keyPos := 0\<rparr>, if 0 < length (si_entries s) then Some (si_entries s ! 0) else None)" if "si_ok s"
    using si_findItem_ok [of "s\<lparr>si_keyPos := 0\<rparr>" 0] that by (simp add: si_First_def Let_def)
  have nxt: "si_Next s = Some (s\<lparr>si_keyPos := int (Suc i)\<rparr>,
      if Suc i < length (si_entries s) then Some (si_entries s ! Suc i) else None)" if "si_ok s \<and> si_keyPos s = int i"
    using si_findItem_ok [of "s\<lparr>si_keyPos := int (Suc i)\<rparr>" "Suc i"] that by (simp add: si_Next_def Let_def add.commute)
  show "\<exists>s'. si_First s = Some (s', Some (si_entries s ! 0)) \<and> (si_ok s' \<and> si_keyPos s' = int 0)
      \<and> si_entries s' = si_entries s \<and> (\<lambda>e. True) = (\<lambda>e. True)" if "si_ok s" "si_entries s \<noteq> []"
    using first [OF that(1)] that by simp
  show "\<exists>s'. si_First s = Some (s', None)" if "si_ok s" "si_entries s = [] \<or> \<not> True" using first [OF that(1)] that by simp
  show "\<exists>s'. si_Next s = Some (s', Some (si_entries s ! Suc i)) \<and> (si_ok s' \<and> si_keyPos s' = int (Suc i))
      \<and> si_entries s' = si_entries s \<and> (\<lambda>e. True) = (\<lambda>e. True)" if "si_ok s \<and> si_keyPos s = int i" "Suc i < length (si_entries s)"
    using nxt [OF that(1)] that by simp
  show "\<exists>s'. si_Next s = Some (s', None)" if "si_ok s \<and> si_keyPos s = int i"
      "Suc i = length (si_entries s) \<or> Suc i < length (si_entries s) \<and> \<not> True"
    using nxt [OF that(1)] that by simp
qed

lemma super_iterate:
  assumes "super_shows s kvs"
  shows "\<exists>r. si_First (super_newIter s lower upper) = Some r \<and> iterate si_Next (length kvs + 1) r = Some (map set_entry kvs)"
proof -
  let ?i = "super_newIter s lower upper"
  have v: "super_view s = kvs" by (rule super_shows_view [OF assms])
  have "si_ok ?i" "si_entries ?i = map set_entry kvs"
    using assms v by (simp_all add: si_ok_def si_entries_def super_newIter_def super_shows_def)
  with si.iterate_first [of ?i "length kvs + 1"] show ?thesis by (simp add: takeWhile_True)
qed

text \<open>
  C16: The append-only table during its life, for keys of the length \<open>L\<close> of the table that are set in
  strictly ascending order, and files below 4 GiB. However sets and flushes are interleaved, the number
  of readable keys is that of the pairs set before the last flush; a lookup finds the value of exactly
  these pairs, where a pair with an empty value is answered nil like a key that is not there; and the
  iterator returns exactly these pairs in order, whatever its bounds are.
\<close>

theorem super_table_reads_flushed:
  assumes "keys_fit L (st_sets ops)" and "sorted_wrt (<) (map fst (st_sets ops))"
    and "8 + length (key_part 0 (st_sets ops)) < 2 ^ 32" and "length (val_part (st_sets ops)) < 2 ^ 32"
  shows "\<exists>s r. st_run (newSuperTable L) ops = Some s \<and> unat (s_keyReadable s) = length (st_flushed ops)
    \<and> super_get s key = Option.bind (map_of (st_flushed ops) key) nil_value
    \<and> si_First (super_newIter s lower upper) = Some r
    \<and> iterate si_Next (length (st_flushed ops) + 1) r = Some (map set_entry (st_flushed ops))"
proof -
  obtain s where s: "st_run (newSuperTable L) ops = Some s" "super_inv s (st_sets ops)"
      "unat (s_keyReadable s) = length (st_flushed ops)" "st_flushed ops = take (length (st_flushed ops)) (st_sets ops)"
    using st_run_ok [OF assms(1,3,4)] by blast
  have sh: "super_shows s (st_flushed ops)" using super_inv_shows [OF s(2)] s(3,4) by simp
  have "sorted_wrt (<) (map fst (st_flushed ops))" using assms(2) s(4) by (metis sorted_wrt_take take_map)
  from super_get_shows [OF sh this, of key] super_iterate [OF sh, of lower upper] s(1,3) show ?thesis by blast
qed

theorem super_table_reads_flushed_witness:
  "\<exists>s r. st_run (newSuperTable 1) [StSet [1] [7, 8], StSet [2] [], StFlush, StSet [3] [9]] = Some s
    \<and> super_get s [1] = Some [7, 8] \<and> si_First (super_newIter s None None) = Some r
    \<and> iterate si_Next 3 r = Some [set_entry ([1], [7, 8]), set_entry ([2], [])]"
  using super_table_reads_flushed [of 1 "[StSet [1] [7, 8], StSet [2] [], StFlush, StSet [3] [9]]" "[1]" None None]
  by (auto simp: keys_fit_def st_flushed_def nil_value_def numeral_3_eq_3)

abbreviation "st_opened keyFile valueFile readOnly L \<equiv>
  \<lparr>s_keyTbl = openStable keyFile readOnly, s_valueTbl = openStable valueFile readOnly, s_version = 0,
   s_keyReadable = 0, s_keyFlushed = 0, s_keyLength = L\<rparr>"

lemma openSuperTable_crashed:
  assumes "keys_fit L kvs" and "8 \<le> length keyFile" and "keyFile @ g = key_header ver num @ key_part 0 kvs"
    and "valueFile @ g' = val_part kvs" and "8 + length (key_part 0 kvs) < 2 ^ 32" and "length (val_part kvs) < 2 ^ 32"
  shows "openSuperTable keyFile valueFile readOnly L = readKeyFileHeader (st_opened keyFile valueFile readOnly L)" and "st_crashed (st_opened keyFile valueFile readOnly L) kvs"
    and "crash_count (st_opened keyFile valueFile readOnly L) kvs = complete_entries L kvs (length keyFile) (length valueFile)"
    and "take 8 (st_file (s_keyTbl (st_opened keyFile valueFile readOnly L))) = key_header ver num"
proof -
  show "openSuperTable keyFile valueFile readOnly L = readKeyFileHeader (st_opened keyFile valueFile readOnly L)" by (simp add: openSuperTable_def)
  show "st_crashed (st_opened keyFile valueFile readOnly L) kvs"
  proof -
    have "\<exists>h g. length h = 8 \<and> keyFile @ g = h @ key_part 0 kvs" using assms(3) length_key_header by blast
    moreover have "\<exists>g. valueFile @ g = val_part kvs" using assms(4) by blast
    ultimately show ?thesis using assms(1,2,5,6) unfolding st_crashed_def by (simp add: openStable_def)
  qed
  show "crash_count (st_opened keyFile valueFile readOnly L) kvs = complete_entries L kvs (length keyFile) (length valueFile)" by (simp add: openStable_def)
  show "take 8 (st_file (s_keyTbl (st_opened keyFile valueFile readOnly L))) = key_header ver num"
    using arg_cong [OF assms(3), of "take 8"] assms(2) by (simp add: openStable_def)
qed

text \<open>
  C17: Recovery after a crash. The key file is cut anywhere behind its header and the value file
  anywhere; the header counts keys whose entries are complete, as a flush leaves it, and no value is
  empty. Then opening the table returns, shows exactly the entries that are complete in both files,
  up to the first one that is not, and finds each of them.
\<close>

theorem super_table_recovers:
  assumes "keys_fit L kvs" and "sorted_wrt (<) (map fst kvs)" and "\<forall>kv \<in> set kvs. snd kv \<noteq> []"
    and "8 + length (key_part 0 kvs) < 2 ^ 32" and "length (val_part kvs) < 2 ^ 32"
    and "8 \<le> length keyFile" and "keyFile @ g = key_header ver num @ key_part 0 kvs" and "valueFile @ g' = val_part kvs"
    and "c = complete_entries L kvs (length keyFile) (length valueFile)" and "unat num \<le> c"
  shows "\<exists>s r. openSuperTable keyFile valueFile readOnly L = Some (Inr s) \<and> unat (s_keyReadable s) = c
    \<and> super_get s key = map_of (take c kvs) key
    \<and> si_First (super_newIter s None None) = Some r \<and> iterate si_Next (c + 1) r = Some (map set_entry (take c kvs))"
proof -
  note o = openSuperTable_crashed [OF assms(1,6,7,8,4,5), of readOnly]
  from readKeyFileHeader_crashed [OF o(2,4) _ assms(3)] o(1,3) assms(9,10)
  obtain s where s: "openSuperTable keyFile valueFile readOnly L = Some (Inr s)" "super_shows s (take c kvs)" "unat (s_keyReadable s) = c"
    by auto
  have srt: "sorted_wrt (<) (map fst (take c kvs))" using assms(2) by (metis sorted_wrt_take take_map)
  have "v \<noteq> []" if "map_of (take c kvs) key = Some v" for v
    using in_set_takeD [OF map_of_SomeD [OF that]] assms(3) by fastforce
  then have "Option.bind (map_of (take c kvs) key) nil_value = map_of (take c kvs) key"
    by (cases "map_of (take c kvs) key") (auto simp: nil_value_def)
  moreover have "length (take c kvs) = c" using assms(9) complete_entries_le [of L kvs] by simp
  ultimately show ?thesis
    using s super_get_shows [OF s(2) srt, of key] super_iterate [OF s(2), of None None] by auto
qed

theorem super_table_recovers_witness:
  "\<exists>s r. openSuperTable (key_header 1 0 @ [1, 0, 0, 0, 0, 2, 0]) [0, 0, 0, 1, 7, 0, 0, 0, 1] False 1 = Some (Inr s)
    \<and> super_get s [1] = Some [7]
    \<and> si_First (super_newIter s None None) = Some r \<and> iterate si_Next 2 r = Some [set_entry ([1], [7])]"
proof -
  let ?kvs = "[([1], [7]), ([2], [8])] :: (bytes \<times> bytes) list"
  let ?K = "key_header 1 0 @ [1, 0, 0, 0, 0, 2, 0]" and ?V = "[0, 0, 0, 1, 7, 0, 0, 0, 1] :: bytes"
  have p: "key_part 0 ?kvs = [1, 0, 0, 0, 0, 2, 0, 0, 0, 5]" "val_part ?kvs = [0, 0, 0, 1, 7, 0, 0, 0, 1, 8]"
    by code_simp+
  have c: "1 = complete_entries 1 ?kvs (length ?K) (length ?V)"
    by (simp add: complete_entries_def entry_complete_def voff_def upt_rec)
  have k: "?K @ [0, 0, 5] = key_header 1 0 @ key_part 0 ?kvs" and v: "?V @ [8] = val_part ?kvs" unfolding p by simp_all
  have "8 + length (key_part 0 ?kvs) < 2 ^ 32" "length (val_part ?kvs) < 2 ^ 32" unfolding p by simp_all
  from super_table_recovers [OF _ _ _ this _ k v c, of False "[1]"] show ?thesis
    by (auto simp: keys_fit_def simp flip: numeral_2_eq_2)
qed

text \<open>
  C18: An empty value makes the recovery loop run for ever. When the size of the key file does not
  match its header and the loop meets a complete entry with an empty value that is not at the end of
  the value file, opening the table never returns.
\<close>

theorem super_rebuild_diverges:
  assumes "keys_fit L kvs" and "8 + length (key_part 0 kvs) < 2 ^ 32" and "length (val_part kvs) < 2 ^ 32"
    and "8 \<le> length keyFile" and "keyFile @ g = key_header ver num @ key_part 0 kvs" and "valueFile @ g' = val_part kvs"
    and "length keyFile \<noteq> 8 + unat num * (L + 4)"
    and "i < complete_entries L kvs (length keyFile) (length valueFile)"
    and "\<forall>j < i. snd (kvs ! j) \<noteq> []" and "snd (kvs ! i) = []" and "voff kvs i + 4 < length valueFile"
  shows "openSuperTable keyFile valueFile readOnly L = None"
proof -
  let ?s = "st_opened keyFile valueFile readOnly L"
  note o = openSuperTable_crashed [OF assms(1,4,5,6,2,3), of readOnly]
  let ?t = "?s\<lparr>s_version := ver\<rparr>"
  have cr: "st_crashed ?t kvs" using o(2) by (simp only: st_crashed_header)
  have i: "i \<le> crash_count ?t kvs" using assms(8) o(3) by simp
  have len: "i < length kvs" using assms(8) complete_entries_le less_le_trans by blast
  have comp: "crash_complete ?t kvs i" using complete_entries_below [OF assms(8)] by (simp add: openStable_def)
  have "rebuild ?t (getKeyPosOffset ?t i) (of_nat i) = None"
    by (rule rebuild_stuck [OF cr len comp assms(10)]) (simp add: openStable_def assms(11))
  then have rb: "rebuild ?t 8 0 = None" using rebuild_to [OF cr assms(9) i, of 0] by (simp add: getKeyPosOffset_def)
  have rd: "ReadAt (st_file (s_keyTbl ?s)) 8 0 = Some (key_header ver num)"
    using o(4) assms(4) by (simp add: ReadAt_def openStable_def)
  have "readKeyFileHeader ?s = None"
    unfolding readKeyFileHeader_def rd using rb assms(7)
    by (simp add: key_header_def be_dec_enc s_keyStep_def openStable_def Let_def)
  with o(1) show ?thesis by simp
qed

theorem super_rebuild_diverges_witness:
  "openSuperTable (key_header 1 0 @ [1, 0, 0, 0, 0]) [0, 0, 0, 0, 0, 0, 0, 1] False 1 = None"
proof -
  let ?kvs = "[([1], []), ([2], [8])] :: (bytes \<times> bytes) list"
  let ?K = "key_header 1 0 @ [1, 0, 0, 0, 0]" and ?V = "[0, 0, 0, 0, 0, 0, 0, 1] :: bytes"
  have p: "key_part 0 ?kvs = [1, 0, 0, 0, 0, 2, 0, 0, 0, 4]" "val_part ?kvs = [0, 0, 0, 0, 0, 0, 0, 1, 8]"
    by code_simp+
  have c: "0 < complete_entries 1 ?kvs (length ?K) (length ?V)"
    by (simp add: complete_entries_def entry_complete_def voff_def upt_rec)
  have k: "?K @ [2, 0, 0, 0, 4] = key_header 1 0 @ key_part 0 ?kvs" and v: "?V @ [8] = val_part ?kvs" unfolding p by simp_all
  have "8 + length (key_part 0 ?kvs) < 2 ^ 32" "length (val_part ?kvs) < 2 ^ 32" unfolding p by simp_all
  from super_rebuild_diverges [OF _ this _ k v _ c, of False] show ?thesis by (simp add: keys_fit_def voff_def)
qed

text \<open>What a set and a flush leave in the key file, wherever it ends.\<close>

lemma set_flush_key_file:
  assumes k: "st_appending (s_keyTbl s)" "st_wbuf (s_keyTbl s) = []" and v: "st_appending (s_valueTbl s)"
    and len: "8 \<le> length (st_file (s_keyTbl s))"
  shows "\<exists>s' voff num. super_set s key val = Some s'
    \<and> st_file (s_keyTbl (flushFinish s')) = take 4 (st_file (s_keyTbl s)) @ be_enc 4 (num :: u32)
        @ drop 8 (st_file (s_keyTbl s)) @ key @ be_enc 4 (voff :: u32)
    \<and> s_keyReadable (flushFinish s') = s_keyReadable s + of_nat (Suc (s_keyFlushed s)) \<and> s_keyLength (flushFinish s') = s_keyLength s"
proof -
  let ?v = "stable_write (stable_write (s_valueTbl s) (be_enc 4 (of_nat (length val) :: u32))) val"
  let ?k1 = "stable_write (s_keyTbl s) key"
  let ?k = "stable_write ?k1 (be_enc 4 (st_offset ?v))"
  have ro: "\<not> st_readOnly (s_valueTbl s)" "\<not> st_readOnly (s_keyTbl s)" using k v by (simp_all add: st_appending_def)
  have k1: "st_appending ?k1" "st_content ?k1 = st_file (s_keyTbl s) @ key"
    using stable_write_ok [OF k(1), of key] k(2) by (simp_all add: st_content_def)
  have k2: "st_appending ?k" "st_content ?k = st_file (s_keyTbl s) @ key @ be_enc 4 (st_offset ?v)"
    using stable_write_ok [OF k1(1), of "be_enc 4 (st_offset ?v)"] k1(2) by simp_all
  obtain s' where s': "super_set s key val = Some s'" "\<exists>o'. s_keyTbl s' = ?k\<lparr>st_offset := o'\<rparr>"
      "s_keyReadable s' = s_keyReadable s" "s_keyFlushed s' = Suc (s_keyFlushed s)" "s_keyLength s' = s_keyLength s"
    using ro by (auto simp: super_set_def Let_def)
  have kf: "st_file (fdatasync (s_keyTbl s')) = st_file (s_keyTbl s) @ key @ be_enc 4 (st_offset ?v)"
    using s'(2) k2 fdatasync_ok(1) [of "s_keyTbl s'"] by auto
  let ?num = "s_keyReadable s + of_nat (Suc (s_keyFlushed s)) :: u32"
  have "st_file (s_keyTbl (flushFinish s')) = file_put (st_file (s_keyTbl s) @ key @ be_enc 4 (st_offset ?v)) 4 (be_enc 4 ?num)"
    using s' kf by (simp add: flushFinish_def writeKeyNum_def Let_def)
  also have "\<dots> = take 4 (st_file (s_keyTbl s)) @ be_enc 4 ?num @ drop 8 (st_file (s_keyTbl s)) @ key @ be_enc 4 (st_offset ?v)"
    using len by (simp add: file_put_def)
  finally have "st_file (s_keyTbl (flushFinish s')) = take 4 (st_file (s_keyTbl s)) @ be_enc 4 ?num
      @ drop 8 (st_file (s_keyTbl s)) @ key @ be_enc 4 (st_offset ?v)" .
  moreover have "s_keyReadable (flushFinish s') = ?num" "s_keyLength (flushFinish s') = s_keyLength s"
    using s' by (simp_all add: flushFinish_def writeKeyNum_def Let_def)
  ultimately show ?thesis using s'(1) by blast
qed

lemma complete_entries_eq:
  assumes "n < length kvs" and "\<forall>i < n. entry_complete L kvs m w i" and "\<not> entry_complete L kvs m w n"
  shows "complete_entries L kvs m w = n"
proof (rule linorder_cases [of "complete_entries L kvs m w" n])
  assume "complete_entries L kvs m w < n"
  with assms complete_entries_end [of L kvs m w] show ?thesis by auto
next
  assume "n < complete_entries L kvs m w"
  with complete_entries_below assms(3) show ?thesis by blast
qed

text \<open>
  C19: The torn entry at the end of a key file is not cut off by the recovery, so what is written
  afterwards is misplaced. The key file ends inside the entry behind the complete entries \<open>kvs\<close>; after
  opening the table, setting one pair and flushing, the table counts one more key, but the key it
  reads there starts with the torn bytes.
\<close>

theorem super_torn_tail_misplaces:
  assumes "keys_fit L (kvs @ [kv])" and "\<forall>x \<in> set (kvs @ [kv]). snd x \<noteq> []" and "length key = L"
    and "8 + length (key_part 0 (kvs @ [kv])) < 2 ^ 32" and "length (val_part (kvs @ [kv])) < 2 ^ 32"
    and "keyFile = key_header ver num @ key_part 0 kvs @ torn" and "0 < length torn" and "length torn < L + 4"
    and "torn @ g = key_part (voff kvs (length kvs)) [kv]"
    and "valueFile @ g' = val_part (kvs @ [kv])" and "length (val_part kvs) \<le> length valueFile" and "unat num \<le> length kvs"
  shows "\<exists>s s'. openSuperTable keyFile valueFile False L = Some (Inr s) \<and> super_set s key val = Some s'
    \<and> unat (s_keyReadable (flushFinish s')) = length kvs + 1
    \<and> readKeyByPos (flushFinish s') (length kvs) = Some (take L (torn @ key))"
proof -
  let ?kvs = "kvs @ [kv]" and ?n = "length kvs" and ?K = keyFile
  let ?s = "st_opened keyFile valueFile False L"
  have kf: "keys_fit L kvs" using assms(1) by simp
  have lk: "length (key_part 0 kvs) = ?n * (L + 4)" by (rule length_key_part [OF kf])
  have l: "8 \<le> length ?K" "length ?K = 8 + ?n * (L + 4) + length torn" using assms(6) lk by simp_all
  have kc: "?K @ g = key_header ver num @ key_part 0 ?kvs"
    using assms(6,9) by (simp add: key_part_append voff_def)
  have l32: "length ?K < 2 ^ 32" using arg_cong [OF kc, of length] assms(4) by simp
  note o = openSuperTable_crashed [OF assms(1) l(1) kc assms(10,4,5), of False]
  have vo: "voff ?kvs i \<le> length (val_part kvs)" if "i \<le> ?n" for i
    using voff_le [of kvs i] that by (simp add: voff_def)
  have c: "crash_count ?s ?kvs = ?n" unfolding o(3)
  proof (rule complete_entries_eq)
    show "\<forall>i < ?n. entry_complete L ?kvs (length ?K) (length valueFile) i"
    proof (intro allI impI)
      fix i assume "i < ?n"
      then have i: "Suc i \<le> ?n" by simp
      have "Suc i * (L + 4) \<le> ?n * (L + 4)" by (rule mult_le_mono1 [OF i])
      moreover have "voff ?kvs (Suc i) \<le> length valueFile" using vo [OF i] assms(11) by (rule order_trans)
      ultimately show "entry_complete L ?kvs (length ?K) (length valueFile) i" using l(2) by (simp add: entry_complete_def)
    qed
    show "\<not> entry_complete L ?kvs (length ?K) (length valueFile) ?n" using l(2) assms(8) by (simp add: entry_complete_def)
  qed simp
  from readKeyFileHeader_crashed [OF o(2,4) _ assms(2)] c assms(12) obtain s where
    s: "readKeyFileHeader ?s = Some (Inr s)" "s_valueTbl s = openStable valueFile False" "s_keyLength s = L"
      "unat (s_keyReadable s) = ?n" "s_keyFlushed s = 0"
      "s_keyTbl s = (if unat num = ?n then s_keyTbl ?s else s_keyTbl (writeKeyNum ?s (of_nat ?n)))" by auto
  have "\<exists>n. s_keyTbl s = openStable ?K False \<or> s_keyTbl s = (openStable ?K False)\<lparr>st_file := file_put ?K 4 (be_enc 4 (n :: u32)), st_fpos := length ?K\<rparr>"
    using s(6) unat32 [OF l32] by (auto simp: writeKeyNum_def openStable_def Let_def)
  then obtain f where f: "st_file (s_keyTbl s) = f" "st_appending (s_keyTbl s)" "st_wbuf (s_keyTbl s) = []"
      "length f = length ?K" "drop 8 f = drop 8 ?K"
    using l(1) by (auto simp: st_appending_def openStable_def file_put_def)
  have "st_appending (s_valueTbl s)" using s(2) by (simp add: st_appending_def openStable_def)
  from set_flush_key_file [OF f(2,3) this, of key val] f(1,4) l(1) obtain s' vo' num' where
    s': "super_set s key val = Some s'" "s_keyReadable (flushFinish s') = s_keyReadable s + 1" "s_keyLength (flushFinish s') = L"
      "st_file (s_keyTbl (flushFinish s')) = take 4 f @ be_enc 4 (num' :: u32) @ drop 8 f @ key @ be_enc 4 (vo' :: u32)"
    using s(3,5) by auto
  have "?n \<le> ?n * (L + 4)" by simp
  then have "?n < 2 ^ 32 - 1" using l32 l(2) by linarith
  then have rd: "unat (s_keyReadable (flushFinish s')) = ?n + 1" unfolding s'(2) using unat_plus [of "s_keyReadable s" 1] s(4) by simp
  have "take L (drop (8 + ?n * (L + 4)) (st_file (s_keyTbl (flushFinish s')))) = take L (torn @ key)"
    using assms(3,6) f(4,5) l(1) lk by (simp add: s'(4) min_absorb2)
  then have "readKeyByPos (flushFinish s') ?n = Some (take L (torn @ key))"
    using assms(3) f(4) l by (auto simp: readKeyByPos_def ReadAt_def getKeyPosOffset_def s_keyStep_def s'(3,4))
  with o(1) s(1) s'(1) rd show ?thesis by auto
qed

theorem super_torn_tail_misplaces_witness:
  "\<exists>s s'. openSuperTable (key_header 1 1 @ [1, 0, 0, 0, 0, 2, 0]) [0, 0, 0, 1, 7, 0, 0, 0, 1] False 1 = Some (Inr s)
    \<and> super_set s [3] [9] = Some s' \<and> readKeyByPos (flushFinish s') 1 = Some [2]"
proof -
  let ?kvs = "[([1], [7])] :: (bytes \<times> bytes) list" and ?kv = "([2], [8]) :: bytes \<times> bytes"
  have p: "key_part 0 (?kvs @ [?kv]) = [1, 0, 0, 0, 0, 2, 0, 0, 0, 5]" "val_part (?kvs @ [?kv]) = [0, 0, 0, 1, 7, 0, 0, 0, 1, 8]"
      "key_part 0 ?kvs = [1, 0, 0, 0, 0]" "key_part (voff ?kvs (length ?kvs)) [?kv] = [2, 0, 0, 0, 5]" "val_part ?kvs = [0, 0, 0, 1, 7]"
    by code_simp+
  have f: "8 + length (key_part 0 (?kvs @ [?kv])) < 2 ^ 32" "length (val_part (?kvs @ [?kv])) < 2 ^ 32"
      "key_header 1 1 @ [1, 0, 0, 0, 0, 2, 0] = key_header 1 1 @ key_part 0 ?kvs @ [2, 0]"
      "[2, 0] @ [0, 0, 5] = key_part (voff ?kvs (length ?kvs)) [?kv]"
      "[0, 0, 0, 1, 7, 0, 0, 0, 1] @ [8] = val_part (?kvs @ [?kv])" "length (val_part ?kvs) \<le> length ([0, 0, 0, 1, 7, 0, 0, 0, 1] :: bytes)"
    unfolding p by simp_all
  from super_torn_tail_misplaces [OF _ _ _ f(1,2,3) _ _ f(4,5,6), of 1 "[3]" "[9]"] show ?thesis
    by (auto simp: keys_fit_def)
qed

end
