(* ===== verification/Freelist.thy ===== *)
theory Freelist
  imports Prelude "HOL-Library.Multiset"
begin

text \<open>
  The free page list of the B+ tree store (\<^verbatim>\<open>bitree/bdb/freelist.go\<close>, \<^verbatim>\<open>freelist_hmap.go\<close>,
  \<^verbatim>\<open>freelist_bitmap.go\<close> and the page id lists of \<^verbatim>\<open>page.go\<close>): two allocators, a sorted array of page
  ids and hash maps of free spans, behind one set of transactional operations. Page ids and
  transaction ids are natural numbers; where the source subtracts or adds on \<^verbatim>\<open>uint64\<close> the
  wrap-around is written out. A panic is \<open>None\<close>.

  A Go map is a HOL map. Go visits the keys of a map in an unspecified order; the operations that
  iterate take that order as the parameter \<open>rng\<close>, which lists a finite set of keys.
\<close>

type_synonym pgid = nat
type_synonym txid = nat

abbreviation (input) freelistPageFlag :: u16 where "freelistPageFlag \<equiv> 0x10"
abbreviation (input) bitmapLenSize :: nat where "bitmapLenSize \<equiv> 8"
abbreviation (input) freelistLargeSize :: nat where "freelistLargeSize \<equiv> 8"
abbreviation (input) freelistBitmapHeaderSize :: nat where "freelistBitmapHeaderSize \<equiv> 16"
abbreviation (input) pageHeaderSize :: nat where "pageHeaderSize \<equiv> 16"

definition pg_add :: "pgid \<Rightarrow> nat \<Rightarrow> pgid" where
  "pg_add a b = (a + b) mod 2 ^ 64"

definition pg_sub :: "pgid \<Rightarrow> nat \<Rightarrow> pgid" where
  "pg_sub a b = (a + 2 ^ 64 - b mod 2 ^ 64) mod 2 ^ 64"

section \<open>Sorted lists of page ids\<close>

text \<open>\<^verbatim>\<open>sort.Sort(pgids)\<close> is \<^const>\<open>sort\<close>.\<close>

lemma search_loop_unfold:
  "search_loop f i j =
     (if i < j then
        case f ((i + j) div 2) of
          None \<Rightarrow> None
        | Some b \<Rightarrow> if b then search_loop f i ((i + j) div 2) else search_loop f (Suc ((i + j) div 2)) j
      else Some i)"
  by (subst search_loop.simps) (simp add: Let_def split: option.split bool.split)

lemma search_loop_ge: "search_loop f i j = Some r \<Longrightarrow> i \<le> r"
proof (induction "j - i" arbitrary: i j rule: less_induct)
  case less
  let ?h = "(i + j) div 2"
  show ?case
  proof (cases "i < j")
    case True
    then have "?h - i < j - i" "j - Suc ?h < j - i" by auto
    then show ?thesis
      using less.hyps [of ?h i] less.hyps [of j "Suc ?h"] less.prems True
      by (auto simp: search_loop_unfold [of f i j] split: option.splits if_splits)
  qed (use less.prems in \<open>simp add: search_loop_unfold [of f i j]\<close>)
qed

lemma search_loop_first: "search_loop f i j = Some i \<Longrightarrow> i < j \<Longrightarrow> f i = Some True"
proof (induction "j - i" arbitrary: j rule: less_induct)
  case less
  let ?h = "(i + j) div 2"
  have h: "i \<le> ?h" "?h < j" using less.prems(2) by auto
  have fh: "f ?h = Some True" "search_loop f i ?h = Some i"
    using less.prems search_loop_ge [of f "Suc ?h" j i] h
    by (auto simp: search_loop_unfold [of f i j] split: option.splits if_splits)
  show ?case
  proof (cases "i < ?h")
    case True
    with less.hyps [of ?h] fh(2) h(2) show ?thesis by simp
  qed (use fh h in simp)
qed

lemma sort_Search_0: "sort_Search n f = Some 0 \<Longrightarrow> 0 < n \<Longrightarrow> f 0 = Some True"
  unfolding sort_Search_def by (rule search_loop_first)

function merge_loop :: "pgid list \<Rightarrow> pgid list \<Rightarrow> pgid list \<Rightarrow> pgid list option" where
  "merge_loop merged lead follow =
     (if lead = [] then Some (merged @ follow)
      else
        case sort_Search (length lead) (\<lambda>i. map_option (\<lambda>f. lead ! i > f) (go_index follow 0)) of
          None \<Rightarrow> None
        | Some n \<Rightarrow>
            if n \<ge> length lead then Some (merged @ take n lead @ follow)
            else merge_loop (merged @ take n lead) follow (drop n lead))"
  by pat_completeness auto
termination
proof (relation "measure (\<lambda>(merged, lead, follow).
    2 * (length lead + length follow) + (if lead \<noteq> [] \<and> follow \<noteq> [] \<and> hd lead > hd follow then 1 else 0))", goal_cases)
  case (2 merged lead follow n)
  let ?p = "\<lambda>i. map_option (\<lambda>f. lead ! i > f) (go_index follow 0)"
  show ?case
  proof (cases "n = 0")
    case True
    then have "?p 0 = Some True" using sort_Search_0 [of "length lead" ?p] 2(1,2) by simp
    then have "follow \<noteq> []" "hd lead > hd follow" using 2(1) by (auto simp: go_index_def hd_conv_nth split: if_splits)
    with True 2(1) show ?thesis by simp
  qed (use 2 in auto)
qed simp

declare merge_loop.simps [simp del]

text \<open>\<^verbatim>\<open>mergepgids(dst, a, b)\<close> returns the contents of \<open>dst\<close>.\<close>

definition mergepgids :: "pgid list \<Rightarrow> pgid list \<Rightarrow> pgid list \<Rightarrow> pgid list option" where
  "mergepgids dst a b =
     (if length dst < length a + length b then None
      else if a = [] then Some (b @ drop (length b) dst)
      else if b = [] then Some (a @ drop (length a) dst)
      else
        let (lead, follow) = (if hd b < hd a then (b, a) else (a, b)) in
        map_option (\<lambda>m. m @ drop (length m) dst) (merge_loop [] lead follow))"

definition pgids_merge :: "pgid list \<Rightarrow> pgid list \<Rightarrow> pgid list option" where
  "pgids_merge a b =
     (if a = [] then Some b
      else if b = [] then Some a
      else mergepgids (replicate (length a + length b) 0) a b)"

section \<open>The state\<close>

record txPending =
  tp_ids :: "pgid list"
  tp_alloctx :: "txid list"
  tp_lastReleaseBegin :: txid

datatype freelist_type = BdbFreelistArrayType | BdbFreelistMapType

text \<open>\<open>fl_cache\<close> is the set of the page ids that the map \<^verbatim>\<open>cache\<close> holds as true.\<close>

record freelist =
  fl_type :: freelist_type
  fl_ids :: "pgid list"
  fl_allocs :: "pgid \<rightharpoonup> txid"
  fl_pending :: "txid \<rightharpoonup> txPending"
  fl_cache :: "pgid set"
  fl_freemaps :: "nat \<rightharpoonup> pgid set"
  fl_forwardMap :: "pgid \<rightharpoonup> nat"
  fl_backwardMap :: "pgid \<rightharpoonup> nat"

record page =
  p_id :: pgid
  p_flags :: u16
  p_count :: u16
  p_overflow :: u32
  p_data :: bytes

definition newFreelist :: "freelist_type \<Rightarrow> freelist" where
  "newFreelist freelistType =
     \<lparr>fl_type = freelistType, fl_ids = [], fl_allocs = Map.empty, fl_pending = Map.empty, fl_cache = {},
      fl_freemaps = Map.empty, fl_forwardMap = Map.empty, fl_backwardMap = Map.empty\<rparr>"

type_synonym map_range_order = "nat set \<Rightarrow> nat list"

text \<open>The page ids of the pending transactions, in the order of iteration.\<close>

definition pending_ids :: "map_range_order \<Rightarrow> freelist \<Rightarrow> pgid list" where
  "pending_ids rng f = concat (map (\<lambda>t. tp_ids (the (fl_pending f t))) (rng (dom (fl_pending f))))"

definition pending_count :: "map_range_order \<Rightarrow> freelist \<Rightarrow> nat" where
  "pending_count rng f = sum_list (map (\<lambda>t. length (tp_ids (the (fl_pending f t)))) (rng (dom (fl_pending f))))"

section \<open>The array allocator\<close>

definition arrayFreeCount :: "freelist \<Rightarrow> nat" where
  "arrayFreeCount f = length (fl_ids f)"

fun array_scan :: "nat \<Rightarrow> nat \<Rightarrow> pgid \<Rightarrow> pgid \<Rightarrow> pgid list \<Rightarrow> (nat \<times> pgid) option option" where
  "array_scan n i initial previd [] = Some None"
| "array_scan n i initial previd (pid # ids) =
     (if pid \<le> 1 then None
      else
        let initial = (if previd = 0 \<or> pg_sub pid previd \<noteq> 1 then pid else initial) in
        if pg_add (pg_sub pid initial) 1 = n then Some (Some (i, initial))
        else array_scan n (Suc i) initial pid ids)"

definition cache_delete :: "freelist \<Rightarrow> pgid \<Rightarrow> nat \<Rightarrow> freelist" where
  "cache_delete f start n = f\<lparr>fl_cache := fl_cache f - pg_add start ` {0..<n}\<rparr>"

definition arrayAllocate :: "freelist \<Rightarrow> txid \<Rightarrow> nat \<Rightarrow> (freelist \<times> pgid) option" where
  "arrayAllocate f txid n =
     (if fl_ids f = [] then Some (f, 0)
      else
        do {
          r \<leftarrow> array_scan n 0 0 0 (fl_ids f);
          (case r of
             None \<Rightarrow> Some (f, 0)
           | Some (i, initial) \<Rightarrow>
               if i + 1 < n then None
               else
                 let ids = (if i + 1 = n then drop (i + 1) (fl_ids f)
                            else take (i + 1 - n) (fl_ids f) @ drop (i + 1) (fl_ids f));
                     f = cache_delete (f\<lparr>fl_ids := ids\<rparr>) initial n
                 in Some (f\<lparr>fl_allocs := (fl_allocs f)(initial \<mapsto> txid)\<rparr>, initial))
        })"

definition arrayGetFreePageIDs :: "freelist \<Rightarrow> pgid list" where
  "arrayGetFreePageIDs f = fl_ids f"

text \<open>\<^verbatim>\<open>arrayMergeSpans\<close> sorts its argument in place; the second component is the sorted argument.\<close>

definition arrayMergeSpans :: "freelist \<Rightarrow> pgid list \<Rightarrow> (freelist \<times> pgid list) option" where
  "arrayMergeSpans f ids =
     map_option (\<lambda>m. (f\<lparr>fl_ids := m\<rparr>, sort ids)) (pgids_merge (fl_ids f) (sort ids))"

section \<open>The span allocator\<close>

definition addSpan :: "freelist \<Rightarrow> pgid \<Rightarrow> nat \<Rightarrow> freelist" where
  "addSpan f start siz =
     f\<lparr>fl_backwardMap := (fl_backwardMap f)(pg_add (pg_sub start 1) siz \<mapsto> siz),
       fl_forwardMap := (fl_forwardMap f)(start \<mapsto> siz),
       fl_freemaps := (fl_freemaps f)(siz \<mapsto> insert start (case fl_freemaps f siz of None \<Rightarrow> {} | Some bm \<Rightarrow> bm))\<rparr>"

definition delSpan :: "freelist \<Rightarrow> pgid \<Rightarrow> nat \<Rightarrow> freelist" where
  "delSpan f start siz =
     (let bm = (case fl_freemaps f siz of None \<Rightarrow> {} | Some bm \<Rightarrow> bm) - {start} in
      f\<lparr>fl_forwardMap := (fl_forwardMap f)(start := None),
        fl_backwardMap := (fl_backwardMap f)(pg_add start (pg_sub siz 1) := None),
        fl_freemaps := (fl_freemaps f)(siz := (if bm = {} then None else Some bm))\<rparr>)"

definition hashmapFreeCount :: "map_range_order \<Rightarrow> freelist \<Rightarrow> nat" where
  "hashmapFreeCount rng f = sum_list (map (\<lambda>s. the (fl_forwardMap f s)) (rng (dom (fl_forwardMap f))))"

text \<open>The first span of the wanted size in the order of iteration, then the first one that is larger.\<close>

definition exact_span :: "map_range_order \<Rightarrow> freelist \<Rightarrow> nat \<Rightarrow> pgid list" where
  "exact_span rng f n = (case fl_freemaps f n of None \<Rightarrow> [] | Some bm \<Rightarrow> rng bm)"

definition large_spans :: "map_range_order \<Rightarrow> freelist \<Rightarrow> nat \<Rightarrow> (nat \<times> pgid) list" where
  "large_spans rng f n =
     concat (map (\<lambda>siz. if siz < n then [] else map (Pair siz) (rng (the (fl_freemaps f siz)))) (rng (dom (fl_freemaps f))))"

definition hashmapAllocate :: "map_range_order \<Rightarrow> freelist \<Rightarrow> txid \<Rightarrow> nat \<Rightarrow> (freelist \<times> pgid) option" where
  "hashmapAllocate rng f txid n =
     Some (if n = 0 then (f, 0)
      else
        case exact_span rng f n of
          pid # _ \<Rightarrow>
            let f = delSpan f pid n in
            (cache_delete (f\<lparr>fl_allocs := (fl_allocs f)(pid \<mapsto> txid)\<rparr>) pid n, pid)
        | [] \<Rightarrow>
            (case large_spans rng f n of
               (siz, pid) # _ \<Rightarrow>
                 let f = delSpan f pid siz;
                     f = f\<lparr>fl_allocs := (fl_allocs f)(pid \<mapsto> txid)\<rparr>;
                     f = addSpan f (pg_add pid n) (pg_sub siz n)
                 in (cache_delete f pid n, pid)
             | [] \<Rightarrow> (f, 0)))"

definition hashmapGetFreePageIDs :: "map_range_order \<Rightarrow> freelist \<Rightarrow> pgid list" where
  "hashmapGetFreePageIDs rng f =
     (if hashmapFreeCount rng f = 0 then []
      else sort (concat (map (\<lambda>start. map (pg_add start) [0..<the (fl_forwardMap f start)]) (rng (dom (fl_forwardMap f))))))"

definition mergeWithExistingSpan :: "freelist \<Rightarrow> pgid \<Rightarrow> freelist" where
  "mergeWithExistingSpan f pid =
     (let prev = pg_sub pid 1; nxt = pg_add pid 1;
          mergeWithPrev = fl_backwardMap f prev; mergeWithNext = fl_forwardMap f nxt;
          newStart = pid; newSize = 1;
          (f, newStart, newSize) =
            (case mergeWithPrev of
               None \<Rightarrow> (f, newStart, newSize)
             | Some preSize \<Rightarrow> (delSpan f (pg_sub (pg_add prev 1) preSize) preSize, pg_sub newStart preSize, pg_add newSize preSize));
          (f, newSize) =
            (case mergeWithNext of
               None \<Rightarrow> (f, newSize)
             | Some nextSize \<Rightarrow> (delSpan f nxt nextSize, pg_add newSize nextSize))
      in addSpan f newStart newSize)"

definition hashmapMergeSpans :: "freelist \<Rightarrow> pgid list \<Rightarrow> (freelist \<times> pgid list) option" where
  "hashmapMergeSpans f ids = Some (fold (\<lambda>pid f. mergeWithExistingSpan f pid) ids f, ids)"

text \<open>\<^verbatim>\<open>init\<close>: the spans of a list of page ids; an empty list leaves the old spans.\<close>

fun init_spans :: "freelist \<Rightarrow> pgid \<Rightarrow> nat \<Rightarrow> pgid \<Rightarrow> pgid list \<Rightarrow> freelist" where
  "init_spans f start siz prev [] = (if siz \<noteq> 0 \<and> start \<noteq> 0 then addSpan f start siz else f)"
| "init_spans f start siz prev (pid # ids) =
     (if pid = pg_add prev 1 then init_spans f start (pg_add siz 1) pid ids
      else init_spans (addSpan f start siz) pid 1 pid ids)"

definition fl_init :: "freelist \<Rightarrow> pgid list \<Rightarrow> freelist" where
  "fl_init f pids =
     (case pids of
        [] \<Rightarrow> f
      | start # _ \<Rightarrow>
          let ids = (if sorted pids then pids else sort pids);
              f = f\<lparr>fl_freemaps := Map.empty, fl_forwardMap := Map.empty, fl_backwardMap := Map.empty\<rparr>
          in init_spans f start 1 (hd ids) (tl ids))"

section \<open>The operations of a freelist\<close>

text \<open>The function fields that \<^verbatim>\<open>newFreelist\<close> sets.\<close>

definition fl_allocate :: "map_range_order \<Rightarrow> freelist \<Rightarrow> txid \<Rightarrow> nat \<Rightarrow> (freelist \<times> pgid) option" where
  "fl_allocate rng f txid n =
     (if fl_type f = BdbFreelistMapType then hashmapAllocate rng f txid n else arrayAllocate f txid n)"

definition free_count :: "map_range_order \<Rightarrow> freelist \<Rightarrow> nat" where
  "free_count rng f = (if fl_type f = BdbFreelistMapType then hashmapFreeCount rng f else arrayFreeCount f)"

definition mergeSpans :: "freelist \<Rightarrow> pgid list \<Rightarrow> (freelist \<times> pgid list) option" where
  "mergeSpans f ids = (if fl_type f = BdbFreelistMapType then hashmapMergeSpans f ids else arrayMergeSpans f ids)"

definition getFreePageIDs :: "map_range_order \<Rightarrow> freelist \<Rightarrow> pgid list" where
  "getFreePageIDs rng f = (if fl_type f = BdbFreelistMapType then hashmapGetFreePageIDs rng f else arrayGetFreePageIDs f)"

definition fl_count :: "map_range_order \<Rightarrow> freelist \<Rightarrow> nat" where
  "fl_count rng f = free_count rng f + pending_count rng f"

definition fl_size :: "map_range_order \<Rightarrow> freelist \<Rightarrow> nat" where
  "fl_size rng f = (let n = fl_count rng f in pageHeaderSize + 8 * (if n \<ge> 0xFFFF then n + 1 else n))"

definition copyall :: "map_range_order \<Rightarrow> freelist \<Rightarrow> pgid list \<Rightarrow> pgid list option" where
  "copyall rng f dst = mergepgids dst (getFreePageIDs rng f) (sort (pending_ids rng f))"

text \<open>The loop of \<^verbatim>\<open>free\<close> over the pages of a run.\<close>

fun free_pages :: "freelist \<Rightarrow> txPending \<Rightarrow> txid \<Rightarrow> pgid list \<Rightarrow> (freelist \<times> txPending) option" where
  "free_pages f txp allocTxid [] = Some (f, txp)"
| "free_pages f txp allocTxid (pid # ids) =
     (if pid \<in> fl_cache f then None
      else free_pages (f\<lparr>fl_cache := insert pid (fl_cache f)\<rparr>)
             (txp\<lparr>tp_ids := tp_ids txp @ [pid], tp_alloctx := tp_alloctx txp @ [allocTxid]\<rparr>) allocTxid ids)"

text \<open>The pages \<^verbatim>\<open>for id := p.id; id <= p.id+overflow; id++\<close> visits, on \<^verbatim>\<open>uint64\<close>. A bound that wraps below \<^verbatim>\<open>p.id\<close> is
  an empty run; with the largest number as bound the condition never fails, the loop comes round to \<^verbatim>\<open>p.id\<close> and panics there at the latest.\<close>

definition run_ids :: "page \<Rightarrow> pgid list option" where
  "run_ids p =
     (let last = pg_add (p_id p) (unat (p_overflow p)) in
      if last = 2 ^ 64 - 1 then None else Some [p_id p..<last + 1])"

definition fl_free :: "freelist \<Rightarrow> txid \<Rightarrow> page \<Rightarrow> freelist option" where
  "fl_free f txid p =
     (if p_id p \<le> 1 then None
      else
        let txp = (case fl_pending f txid of
                     None \<Rightarrow> \<lparr>tp_ids = [], tp_alloctx = [], tp_lastReleaseBegin = 0\<rparr>
                   | Some txp \<Rightarrow> txp);
            (f, allocTxid) =
              (case fl_allocs f (p_id p) of
                 Some t \<Rightarrow> (f\<lparr>fl_allocs := (fl_allocs f)(p_id p := None)\<rparr>, t)
               | None \<Rightarrow> (f, if p_flags p AND freelistPageFlag \<noteq> 0 then pg_sub txid 1 else 0))
        in do {
             ids \<leftarrow> run_ids p;
             map_option (\<lambda>(f, txp). f\<lparr>fl_pending := (fl_pending f)(txid \<mapsto> txp)\<rparr>) (free_pages f txp allocTxid ids)
           })"

definition fl_release :: "map_range_order \<Rightarrow> freelist \<Rightarrow> txid \<Rightarrow> (freelist \<times> pgid list) option" where
  "fl_release rng f txid =
     (let tids = filter (\<lambda>tid. tid \<le> txid) (rng (dom (fl_pending f)));
          m = concat (map (\<lambda>tid. tp_ids (the (fl_pending f tid))) tids);
          f = f\<lparr>fl_pending := fl_pending f |` (- set tids)\<rparr>
      in mergeSpans f m)"

text \<open>The inner loop of \<^verbatim>\<open>releaseRange\<close>: an entry that is released is replaced by the last one.\<close>

function range_loop :: "txid \<Rightarrow> txid \<Rightarrow> nat \<Rightarrow> txPending \<Rightarrow> pgid list \<Rightarrow> (txPending \<times> pgid list) option" where
  "range_loop begin end' i txp m =
     (if i < length (tp_ids txp) then
        do {
          atx \<leftarrow> go_index (tp_alloctx txp) i;
          (if atx < begin \<or> atx > end' then range_loop begin end' (i + 1) txp m
           else
             range_loop begin end' i
               (txp\<lparr>tp_ids := butlast ((tp_ids txp)[i := List.last (tp_ids txp)]),
                    tp_alloctx := butlast ((tp_alloctx txp)[i := List.last (tp_alloctx txp)])\<rparr>)
               (m @ [tp_ids txp ! i]))
        }
      else Some (txp, m))"
  by pat_completeness auto
termination
  by (relation "measure (\<lambda>(begin, end', i, txp, m). length (tp_ids txp) - i)") auto

declare range_loop.simps [simp del]

fun range_txs :: "txid \<Rightarrow> txid \<Rightarrow> txid list \<Rightarrow> freelist \<Rightarrow> pgid list \<Rightarrow> (freelist \<times> pgid list) option" where
  "range_txs begin end' [] f m = Some (f, m)"
| "range_txs begin end' (tid # tids) f m =
     (let txp = the (fl_pending f tid) in
      if tid < begin \<or> tid > end' \<or> tp_lastReleaseBegin txp = begin then range_txs begin end' tids f m
      else
        do {
          (txp, m) \<leftarrow> range_loop begin end' 0 txp m;
          let txp = txp\<lparr>tp_lastReleaseBegin := begin\<rparr>;
          range_txs begin end' tids
            (f\<lparr>fl_pending := (fl_pending f)(tid := (if tp_ids txp = [] then None else Some txp))\<rparr>) m
        })"

definition releaseRange :: "map_range_order \<Rightarrow> freelist \<Rightarrow> txid \<Rightarrow> txid \<Rightarrow> (freelist \<times> pgid list) option" where
  "releaseRange rng f begin end' =
     (if begin > end' then Some (f, [])
      else
        do {
          (f, m) \<leftarrow> range_txs begin end' (rng (dom (fl_pending f))) f [];
          mergeSpans f m
        })"

fun rollback_pages :: "freelist \<Rightarrow> txid \<Rightarrow> (pgid \<times> txid) list \<Rightarrow> pgid list \<Rightarrow> freelist \<times> pgid list" where
  "rollback_pages f txid [] m = (f, m)"
| "rollback_pages f txid ((pgid, tx) # rest) m =
     (let f = f\<lparr>fl_cache := fl_cache f - {pgid}\<rparr> in
      if tx = 0 then rollback_pages f txid rest m
      else if tx \<noteq> txid then rollback_pages (f\<lparr>fl_allocs := (fl_allocs f)(pgid \<mapsto> tx)\<rparr>) txid rest m
      else rollback_pages f txid rest (m @ [pgid]))"

text \<open>\<^verbatim>\<open>txp.alloctx[i]\<close> panics when the two lists of a transaction differ in length.\<close>

definition fl_rollback :: "freelist \<Rightarrow> txid \<Rightarrow> freelist option" where
  "fl_rollback f txid =
     (case fl_pending f txid of
        None \<Rightarrow> Some f
      | Some txp \<Rightarrow>
          if length (tp_alloctx txp) < length (tp_ids txp) then None
          else
            let (f, m) = rollback_pages f txid (zip (tp_ids txp) (tp_alloctx txp)) [];
                f = f\<lparr>fl_pending := (fl_pending f)(txid := None)\<rparr>
            in map_option fst (mergeSpans f m))"

definition freed :: "freelist \<Rightarrow> pgid \<Rightarrow> bool" where
  "freed f pgid = (pgid \<in> fl_cache f)"

definition reindex :: "map_range_order \<Rightarrow> freelist \<Rightarrow> freelist" where
  "reindex rng f = f\<lparr>fl_cache := set (getFreePageIDs rng f) \<union> set (pending_ids rng f)\<rparr>"

definition arrayReadIDs :: "map_range_order \<Rightarrow> freelist \<Rightarrow> pgid list \<Rightarrow> freelist" where
  "arrayReadIDs rng f ids = reindex rng (f\<lparr>fl_ids := ids\<rparr>)"

definition hashmapReadIDs :: "map_range_order \<Rightarrow> freelist \<Rightarrow> pgid list \<Rightarrow> freelist" where
  "hashmapReadIDs rng f ids = reindex rng (fl_init f ids)"

definition readIDs :: "map_range_order \<Rightarrow> freelist \<Rightarrow> pgid list \<Rightarrow> freelist" where
  "readIDs rng f ids = (if fl_type f = BdbFreelistMapType then hashmapReadIDs rng f ids else arrayReadIDs rng f ids)"

section \<open>Freelist pages\<close>

text \<open>\<^verbatim>\<open>unsafeSlice\<close> over the memory behind the page header, as ids of eight bytes; outside the page
  there is nothing to read or write.\<close>

definition read_ids :: "bytes \<Rightarrow> nat \<Rightarrow> pgid list option" where
  "read_ids data n =
     (if 8 * n \<le> length data then Some (map (\<lambda>i. unat (le_dec (take 8 (drop (8 * i) data)) :: u64)) [0..<n]) else None)"

definition write_ids :: "bytes \<Rightarrow> pgid list \<Rightarrow> bytes option" where
  "write_ids data ids = go_put data 0 (concat (map (\<lambda>pid. le_enc 8 (of_nat pid :: u64)) ids))"

text \<open>The element count of a freelist page and where its data start.\<close>

definition page_ids_count :: "page \<Rightarrow> (nat \<times> nat) option" where
  "page_ids_count p =
     (if p_flags p AND freelistPageFlag = 0 then None
      else if unat (p_count p) = 0xFFFF then
        do {
          c \<leftarrow> read_ids (p_data p) 1;
          (if hd c \<ge> 2 ^ 63 then None else Some (1, hd c))
        }
      else Some (0, unat (p_count p)))"

definition fl_read :: "map_range_order \<Rightarrow> freelist \<Rightarrow> page \<Rightarrow> freelist option" where
  "fl_read rng f p =
     do {
       (idx, count) \<leftarrow> page_ids_count p;
       (if count = 0 then Some (f\<lparr>fl_ids := []\<rparr>)
        else
          do {
            ids \<leftarrow> read_ids (drop (8 * idx) (p_data p)) count;
            Some (readIDs rng f (sort ids))
          })
     }"

definition fl_write :: "map_range_order \<Rightarrow> freelist \<Rightarrow> page \<Rightarrow> page option" where
  "fl_write rng f p =
     (let p = p\<lparr>p_flags := p_flags p OR freelistPageFlag\<rparr>; l = fl_count rng f in
      if l = 0 then Some (p\<lparr>p_count := 0\<rparr>)
      else if l < 0xFFFF then
        do {
          dst \<leftarrow> read_ids (p_data p) l;
          ids \<leftarrow> copyall rng f dst;
          data \<leftarrow> write_ids (p_data p) ids;
          Some (p\<lparr>p_count := of_nat l, p_data := data\<rparr>)
        }
      else
        do {
          dst \<leftarrow> read_ids (p_data p) (l + 1);
          ids \<leftarrow> copyall rng f (tl dst);
          data \<leftarrow> write_ids (p_data p) (l # ids);
          Some (p\<lparr>p_count := 0xFFFF, p_data := data\<rparr>)
        })"

text \<open>The bitmap format stores a serialised 64-bit bitmap. The bitmap library is a parameter: \<open>ToBytes\<close> of
  a set of page ids and \<open>ReadFrom\<close> followed by \<open>ToArray\<close>, which is \<open>None\<close> on an error.\<close>

definition convertBitmap :: "map_range_order \<Rightarrow> freelist \<Rightarrow> pgid set \<times> nat" where
  "convertBitmap rng f =
     (set (pending_ids rng f) \<union>
        (if fl_type f = BdbFreelistMapType
         then (\<Union>start \<in> dom (fl_forwardMap f). pg_add start ` {0..<the (fl_forwardMap f start)}) else set (fl_ids f)),
      pending_count rng f + (if fl_type f = BdbFreelistMapType then hashmapFreeCount rng f else length (fl_ids f)))"

definition copyallBitmap :: "(pgid set \<Rightarrow> bytes) \<Rightarrow> bytes \<Rightarrow> nat \<Rightarrow> pgid set \<Rightarrow> nat \<Rightarrow> bytes option" where
  "copyallBitmap ToBytes data pos rb rbLen =
     do {
       data \<leftarrow> go_put data pos (le_enc 8 (of_nat rbLen :: u64));
       c \<leftarrow> go_slice data (pos + bitmapLenSize) (pos + bitmapLenSize + rbLen);
       go_put data (pos + bitmapLenSize) (take rbLen (ToBytes rb))
     }"

definition writeBitmap :: "(pgid set \<Rightarrow> bytes) \<Rightarrow> page \<Rightarrow> pgid set \<Rightarrow> nat \<Rightarrow> nat \<Rightarrow> page option" where
  "writeBitmap ToBytes p rb rbLen l =
     (let p = p\<lparr>p_flags := p_flags p OR freelistPageFlag\<rparr> in
      if l = 0 then Some (p\<lparr>p_count := 0\<rparr>)
      else if l < 0xFFFF then
        map_option (\<lambda>d. p\<lparr>p_count := of_nat l, p_data := d\<rparr>) (copyallBitmap ToBytes (p_data p) 0 rb rbLen)
      else
        do {
          data \<leftarrow> go_put (p_data p) 0 (le_enc 8 (of_nat l :: u64));
          map_option (\<lambda>d. p\<lparr>p_count := 0xFFFF, p_data := d\<rparr>) (copyallBitmap ToBytes data freelistLargeSize rb rbLen)
        })"

definition readFromBitmap :: "(bytes \<Rightarrow> pgid list option) \<Rightarrow> map_range_order \<Rightarrow> freelist \<Rightarrow> page \<Rightarrow> freelist option" where
  "readFromBitmap ReadFrom rng f p =
     do {
       (idx, count) \<leftarrow> page_ids_count p;
       (if count = 0 then Some (f\<lparr>fl_ids := []\<rparr>)
        else
          do {
            lenBuf \<leftarrow> go_slice (p_data p) (8 * idx) (8 * idx + bitmapLenSize);
            let bitmapLen = unat (le_dec lenBuf :: u64);
            bitmapData \<leftarrow> go_slice (p_data p) (8 * idx + bitmapLenSize) (8 * idx + bitmapLenSize + bitmapLen);
            ids \<leftarrow> ReadFrom bitmapData;
            (if length ids \<noteq> count then None else Some (readIDs rng f ids))
          })
     }"

text \<open>A new page of \<open>n\<close> pages, from the freelist or at the end of the file: \<open>mpgid\<close> is \<^verbatim>\<open>meta.pgid\<close> of the write transaction. Its
  buffer is zero (a pooled one is cleared before it goes back to the pool). The growth of the mapped file is not modelled.\<close>

definition db_allocate :: "map_range_order \<Rightarrow> nat \<Rightarrow> freelist \<Rightarrow> pgid \<Rightarrow> txid \<Rightarrow> nat \<Rightarrow> (freelist \<times> page \<times> bool \<times> pgid) option" where
  "db_allocate rng pageSize f mpgid txid n =
     do {
       (f, pid) \<leftarrow> fl_allocate rng f txid n;
       let p = \<lparr>p_id = pid, p_flags = 0, p_count = 0, p_overflow = of_nat (n - 1), p_data = replicate (n * pageSize - pageHeaderSize) 0\<rparr>;
       (if pid \<noteq> 0 then Some (f, p, True, mpgid) else Some (f, p\<lparr>p_id := mpgid\<rparr>, False, pg_add mpgid n))
     }"

fun bitmap_remove :: "pgid list \<Rightarrow> pgid set \<Rightarrow> int \<Rightarrow> pgid set \<times> int" where
  "bitmap_remove [] rb freeCount = (rb, freeCount)"
| "bitmap_remove (pid # pids) rb freeCount =
     (if pid \<in> rb then bitmap_remove pids (rb - {pid}) (freeCount - 1) else bitmap_remove pids rb freeCount)"

text \<open>\<^verbatim>\<open>commitFreelist\<close>: \<^verbatim>\<open>rb.GetSerializedSizeInBytes()\<close> is the length of the serialised bitmap. The file growth at the end is not modelled.\<close>

definition commitFreelist ::
  "(pgid set \<Rightarrow> bytes) \<Rightarrow> map_range_order \<Rightarrow> nat \<Rightarrow> freelist \<Rightarrow> pgid \<Rightarrow> txid \<Rightarrow> (freelist \<times> page \<times> pgid) option" where
  "commitFreelist ToBytes rng pageSize f mpgid txid =
     (let (rb, freeCount) = convertBitmap rng f;
          rbLen = length (ToBytes rb);
          cnt = (rbLen + freelistBitmapHeaderSize) div pageSize + 2
      in do {
           (f, p, isFreePage, mpgid) \<leftarrow> db_allocate rng pageSize f mpgid txid cnt;
           let (rb, freeCount) =
             (if isFreePage then bitmap_remove [p_id p..<pg_add (p_id p) cnt] rb (int freeCount) else (rb, int freeCount));
           let rbLen = (if isFreePage then length (ToBytes rb) else rbLen);
           p \<leftarrow> writeBitmap ToBytes p rb rbLen (nat freeCount);
           Some (f, p, mpgid)
         })"

definition noSyncReload :: "map_range_order \<Rightarrow> freelist \<Rightarrow> pgid list \<Rightarrow> freelist" where
  "noSyncReload rng f pgids = readIDs rng f (filter (\<lambda>pid. pid \<notin> set (pending_ids rng f)) pgids)"

definition fl_reload ::
  "(bytes \<Rightarrow> pgid list option) \<Rightarrow> map_range_order \<Rightarrow> freelist \<Rightarrow> page \<Rightarrow> bool \<Rightarrow> freelist option" where
  "fl_reload ReadFrom rng f p isBitmap =
     map_option (\<lambda>f. noSyncReload rng f (getFreePageIDs rng f))
       (if isBitmap then readFromBitmap ReadFrom rng f p else fl_read rng f p)"

section \<open>Merging sorted lists\<close>

lemma sort_append_le:
  assumes "sorted xs" and "\<forall>x \<in> set xs. \<forall>y \<in> set ys. x \<le> (y :: nat)"
  shows "sort (xs @ ys) = xs @ sort ys"
  by (rule properties_for_sort) (use assms in \<open>auto simp: sorted_append\<close>)

lemma sort_commute: "sort (xs @ ys) = sort (ys @ (xs :: nat list))"
  by (rule properties_for_sort) auto

lemma merge_loop_sorted:
  assumes "sorted lead" and "sorted follow" and "follow \<noteq> []" and "lead \<noteq> [] \<Longrightarrow> hd lead \<le> hd follow"
  shows "merge_loop merged lead follow = Some (merged @ sort (lead @ follow))"
  using assms
proof (induction merged lead follow rule: merge_loop.induct)
  case (1 merged lead follow)
  show ?case
  proof (cases "lead = []")
    case True
    with "1.prems" show ?thesis by (subst merge_loop.simps) (simp add: sorted_sort_id)
  next
    case False
    let ?p = "\<lambda>i. map_option (\<lambda>f. lead ! i > f) (go_index follow 0)" and ?q = "\<lambda>i. lead ! i > hd follow"
    have pq: "?p h = Some (?q h)" for h using "1.prems"(3) by (simp add: go_index_def hd_conv_nth)
    have up: "?q h \<Longrightarrow> ?q k" if "h \<le> k" "k < length lead" for h k
      using sorted_nth_mono [OF "1.prems"(1) that] by simp
    obtain n where n: "sort_Search (length lead) ?p = Some n" "n \<le> length lead" "\<And>k. k < n \<Longrightarrow> \<not> ?q k"
        "\<And>k. n \<le> k \<Longrightarrow> k < length lead \<Longrightarrow> ?q k"
      by (rule sort_Search_least [of "length lead" ?p ?q, OF pq]) (use up in auto)
    have hdmin: "hd follow \<le> y" if "y \<in> set follow" for y
      using "1.prems"(2,3) that by (cases follow) auto
    have low: "\<forall>x \<in> set (take n lead). \<forall>y \<in> set follow. x \<le> y"
    proof (intro ballI)
      fix x y assume "x \<in> set (take n lead)" "y \<in> set follow"
      then obtain k where "k < n" "x = lead ! k" using n(2) by (auto simp: in_set_conv_nth)
      then show "x \<le> y" using n(3) [of k] hdmin [OF \<open>y \<in> set follow\<close>] by simp
    qed
    have srt: "sorted (take n lead)" "sorted (drop n lead)" using "1.prems"(1) by (simp_all add: sorted_wrt_take sorted_wrt_drop)
    have "sorted (take n lead @ drop n lead)" using "1.prems"(1) by simp
    then have "\<forall>x \<in> set (take n lead). \<forall>y \<in> set (drop n lead). x \<le> y" unfolding sorted_append by blast
    with low have low2: "\<forall>x \<in> set (take n lead). \<forall>y \<in> set (drop n lead @ follow). x \<le> y" by (simp only: set_append ball_Un) blast
    have split: "sort (lead @ follow) = take n lead @ sort (drop n lead @ follow)"
      using sort_append_le [OF srt(1) low2] by (simp only: append.assoc [symmetric] append_take_drop_id)
    show ?thesis
    proof (cases "n \<ge> length lead")
      case True
      then show ?thesis
        using False n(1) split "1.prems"(2) by (subst merge_loop.simps) (simp add: sorted_sort_id)
    next
      case less: False
      have hd: "hd follow \<le> hd (drop n lead)" using n(4) [of n] less by (simp add: hd_drop_conv_nth less_imp_le)
      have "merge_loop merged lead follow = merge_loop (merged @ take n lead) follow (drop n lead)"
        using False less n(1) by (subst merge_loop.simps) simp
      also have "\<dots> = Some ((merged @ take n lead) @ sort (follow @ drop n lead))"
        by (rule "1.IH" [OF False n(1) less "1.prems"(2) srt(2)]) (use less hd in auto)
      finally show ?thesis unfolding split sort_commute [of follow] by simp
    qed
  qed
qed

lemma mergepgids_sorted:
  assumes "sorted a" and "sorted b" and "length a + length b \<le> length dst"
  shows "mergepgids dst a b = Some (sort (a @ b) @ drop (length a + length b) dst)"
proof -
  have "merge_loop [] b a = Some (sort (a @ b))" if "a \<noteq> []" "b \<noteq> []" "hd b < hd a"
    using merge_loop_sorted [OF assms(2,1), of "[]"] that sort_commute [of a b] by simp
  moreover have "merge_loop [] a b = Some (sort (a @ b))" if "a \<noteq> []" "b \<noteq> []" "\<not> hd b < hd a"
    using merge_loop_sorted [OF assms(1,2), of "[]"] that by simp
  ultimately show ?thesis
    using assms(3) sorted_sort_id [OF assms(1)] sorted_sort_id [OF assms(2)] by (simp add: mergepgids_def not_less [symmetric])
qed

lemma pgids_merge_sorted:
  assumes "sorted a" and "sorted b"
  shows "pgids_merge a b = Some (sort (a @ b))"
  using mergepgids_sorted [OF assms, of "replicate (length a + length b) 0"] assms
  by (simp add: pgids_merge_def sorted_sort_id)

section \<open>The contract of an allocator\<close>

text \<open>Page ids in use: 0 and 1 are the meta pages, and no file has \<open>2^64 - 1\<close> pages.\<close>

definition pg_ok :: "pgid \<Rightarrow> bool" where
  "pg_ok x \<longleftrightarrow> 2 \<le> x \<and> x < 2 ^ 64 - 2"

text \<open>\<open>fset f\<close> is the set of the free pages. An allocation takes a run of free pages, and it fails only when
  there is none; freed pages are added to the set.\<close>

locale page_allocator =
  fixes alloc :: "freelist \<Rightarrow> txid \<Rightarrow> nat \<Rightarrow> (freelist \<times> pgid) option"
    and mrg :: "freelist \<Rightarrow> pgid list \<Rightarrow> (freelist \<times> pgid list) option"
    and ids :: "freelist \<Rightarrow> pgid list" and cnt :: "freelist \<Rightarrow> nat"
    and fset :: "freelist \<Rightarrow> pgid set" and inv :: "freelist \<Rightarrow> bool"
  assumes fset_ok: "inv f \<Longrightarrow> x \<in> fset f \<Longrightarrow> pg_ok x"
    and alloc_none: "inv f \<Longrightarrow> 0 < n \<Longrightarrow> n < 2 ^ 63 \<Longrightarrow> \<not> (\<exists>q. {q..<q + n} \<subseteq> fset f) \<Longrightarrow> alloc f t n = Some (f, 0)"
    and alloc_some: "inv f \<Longrightarrow> 0 < n \<Longrightarrow> n < 2 ^ 63 \<Longrightarrow> {q..<q + n} \<subseteq> fset f \<Longrightarrow>
      \<exists>f' p. alloc f t n = Some (f', p) \<and> {p..<p + n} \<subseteq> fset f \<and> inv f' \<and> fset f' = fset f - {p..<p + n}
        \<and> fl_cache f' = fl_cache f - {p..<p + n} \<and> fl_allocs f' = (fl_allocs f)(p \<mapsto> t)
        \<and> fl_pending f' = fl_pending f \<and> fl_type f' = fl_type f"
    and mrg_ok: "inv f \<Longrightarrow> distinct xs \<Longrightarrow> set xs \<inter> fset f = {} \<Longrightarrow> \<forall>x \<in> set xs. pg_ok x \<Longrightarrow>
      \<exists>f' m. mrg f xs = Some (f', m) \<and> mset m = mset xs \<and> inv f' \<and> fset f' = fset f \<union> set xs
        \<and> fl_cache f' = fl_cache f \<and> fl_allocs f' = fl_allocs f \<and> fl_pending f' = fl_pending f \<and> fl_type f' = fl_type f"
    and ids_fset: "inv f \<Longrightarrow> sorted_wrt (<) (ids f) \<and> set (ids f) = fset f"
    and cnt_fset: "inv f \<Longrightarrow> cnt f = card (fset f)"
begin

lemma finite_fset: "inv f \<Longrightarrow> finite (fset f)"
  by (metis List.finite_set ids_fset)

lemma alloc_total: "inv f \<Longrightarrow> 0 < n \<Longrightarrow> n < 2 ^ 63 \<Longrightarrow> \<exists>f' p. alloc f t n = Some (f', p) \<and> inv f'"
  using alloc_none [of f n t] alloc_some [of f n _ t] by metis

lemma alloc_cnt:
  assumes "inv f" and "0 < n" and "n < 2 ^ 63" and "alloc f t n = Some (f', p)" and "p \<noteq> 0"
  shows "cnt f = cnt f' + n"
proof -
  have "\<exists>q. {q..<q + n} \<subseteq> fset f" using alloc_none [OF assms(1-3)] assms(4,5) by fastforce
  then have p: "{p..<p + n} \<subseteq> fset f" "inv f'" "fset f' = fset f - {p..<p + n}"
    using alloc_some [OF assms(1-3), of _ t] assms(4) by auto
  then have "card (fset f') = card (fset f) - n" "n \<le> card (fset f)"
    using finite_fset [OF assms(1)] card_mono [OF _ p(1)] by (simp_all add: card_Diff_subset)
  then show ?thesis using cnt_fset [OF assms(1)] cnt_fset [OF p(2)] by simp
qed

text \<open>Whatever is allocated in between, an allocated run is not handed out again until it is freed.\<close>

lemma alloc_disjoint:
  assumes "inv f" and "0 < n" and "n < 2 ^ 63" and "0 < m" and "m < 2 ^ 63" and "alloc f t n = Some (f', p)" and "p \<noteq> 0"
    and "alloc f' t' m = Some (f'', q)" and "q \<noteq> 0"
  shows "{p..<p + n} \<inter> {q..<q + m} = {}"
proof -
  have "\<exists>q. {q..<q + n} \<subseteq> fset f" using alloc_none [OF assms(1-3)] assms(6,7) by fastforce
  then have p: "inv f'" "fset f' = fset f - {p..<p + n}" using alloc_some [OF assms(1-3), of _ t] assms(6) by auto
  have "\<exists>q. {q..<q + m} \<subseteq> fset f'" using alloc_none [OF p(1) assms(4,5)] assms(8,9) by fastforce
  then have "{q..<q + m} \<subseteq> fset f'" using alloc_some [OF p(1) assms(4,5), of _ t'] assms(8) by auto
  with p(2) show ?thesis by blast
qed

end

section \<open>The array allocator keeps the contract\<close>

lemma pg_add_small [simp]: "a + b < 2 ^ 64 \<Longrightarrow> pg_add a b = a + b"
  by (simp add: pg_add_def)

lemma pg_sub_small [simp]: "b \<le> a \<Longrightarrow> a < 2 ^ 64 \<Longrightarrow> pg_sub a b = a - b"
proof -
  assume "b \<le> a" "a < 2 ^ 64"
  then have "a + 2 ^ 64 - b mod 2 ^ 64 = (a - b) + 2 ^ 64" by simp
  then have "pg_sub a b = ((a - b) + 2 ^ 64) mod 2 ^ 64" unfolding pg_sub_def by simp
  with \<open>a < 2 ^ 64\<close> show ?thesis by simp
qed

definition array_inv :: "freelist \<Rightarrow> bool" where
  "array_inv f \<longleftrightarrow> sorted_wrt (<) (fl_ids f) \<and> (\<forall>x \<in> set (fl_ids f). pg_ok x)"

text \<open>While the array is scanned: the ids seen so far end in a run that starts at \<open>initial\<close> and is shorter than the
  one searched, and they contain no run of the length searched.\<close>

definition scan_inv :: "nat \<Rightarrow> pgid list \<Rightarrow> pgid \<Rightarrow> pgid \<Rightarrow> bool" where
  "scan_inv n pre initial previd \<longleftrightarrow>
     (\<forall>q. \<not> {q..<q + n} \<subseteq> set pre) \<and>
     (if pre = [] then previd = 0
      else previd = List.last pre \<and> initial \<le> previd \<and> Suc (previd - initial) < n \<and> initial - 1 \<notin> set pre \<and> 2 \<le> initial
        \<and> (\<exists>pre'. pre = pre' @ [initial..<Suc previd]))"

lemma run_extends:
  assumes no: "\<forall>q. \<not> {q..<q + n} \<subseteq> S" and n: "0 < n" and big: "\<forall>y \<in> S. y < (x :: nat)"
    and init: "initial \<le> x" "initial - 1 \<notin> S" "0 < initial" and short: "Suc (x - initial) < n"
  shows "\<forall>q. \<not> {q..<q + n} \<subseteq> insert x S"
proof (intro allI notI)
  fix q assume run: "{q..<q + n} \<subseteq> insert x S"
  have "x \<in> {q..<q + n}" using run no by blast
  moreover have "\<not> x < q + n - 1"
  proof
    assume "x < q + n - 1"
    then have "Suc x \<in> {q..<q + n}" using \<open>x \<in> {q..<q + n}\<close> by auto
    with run big show False by fastforce
  qed
  ultimately have "x = q + n - 1" by auto
  then have "initial - 1 \<in> {q..<q + n}" "initial - 1 \<noteq> x" using short init by auto
  with run init(2) show False by blast
qed

lemma array_scan_ok:
  assumes "0 < n" and "n < 2 ^ 64" and "sorted_wrt (<) (pre @ rest)" and "\<forall>x \<in> set (pre @ rest). pg_ok x"
    and "scan_inv n pre initial previd"
  shows "\<exists>r. array_scan n (length pre) initial previd rest = Some r \<and>
    (case r of
       None \<Rightarrow> \<forall>q. \<not> {q..<q + n} \<subseteq> set (pre @ rest)
     | Some (i, p) \<Rightarrow> \<exists>xs ys. pre @ rest = xs @ [p..<p + n] @ ys \<and> length xs + n = Suc i)"
  using assms(3-)
proof (induction rest arbitrary: pre initial previd)
  case Nil
  then show ?case by (simp add: scan_inv_def)
next
  case (Cons x rest)
  have ok: "pg_ok x" and big: "\<forall>y \<in> set pre. y < x" using Cons.prems(1,2) by (auto simp: sorted_wrt_append)
  have x: "2 \<le> x" "x < 2 ^ 64" using ok by (simp_all add: pg_ok_def)
  define ini where "ini = (if previd = 0 \<or> pg_sub x previd \<noteq> 1 then x else initial)"
  have prev: "previd = List.last pre" "previd \<in> set pre" "previd < x" "2 \<le> previd" if "pre \<noteq> []"
    using that Cons.prems(2,3) big by (auto simp: scan_inv_def pg_ok_def)
  have sub: "pg_sub x previd = x - previd" if "pre \<noteq> []" using prev [OF that] x by simp
  have ini: "ini \<le> x" "2 \<le> ini" "ini - 1 \<notin> set pre" "\<exists>pre'. pre @ [x] = pre' @ [ini..<Suc x]" "Suc (x - ini) \<le> n"
  proof -
    consider (new) "ini = x" "pre = [] \<or> x - 1 \<notin> set pre" | (old) "pre \<noteq> []" "ini = initial" "x = Suc previd"
    proof (cases "pre = []")
      case True
      with Cons.prems(3) that(1) show ?thesis by (simp add: ini_def scan_inv_def)
    next
      case False
      show ?thesis
      proof (cases "x = Suc previd")
        case True
        with that(2) False sub prev x show ?thesis by (simp add: ini_def)
      next
        case ne: False
        have "x - 1 \<notin> set pre"
        proof
          assume "x - 1 \<in> set pre"
          moreover have "\<forall>y \<in> set pre. y \<le> List.last pre"
            using Cons.prems(1) False by (metis append_butlast_last_id in_set_conv_decomp less_imp_le
                order_refl set_ConsD sorted_wrt_append Un_iff set_append list.set_intros(1) empty_iff list.set(1))
          ultimately show False using prev [OF False] ne by fastforce
        qed
        moreover have "x - previd \<noteq> 1" using ne prev(3) [OF False] by linarith
        ultimately show ?thesis using that(1) sub [OF False] by (simp add: ini_def)
      qed
    qed
    then have "ini \<le> x \<and> 2 \<le> ini \<and> ini - 1 \<notin> set pre \<and> (\<exists>pre'. pre @ [x] = pre' @ [ini..<Suc x]) \<and> Suc (x - ini) \<le> n"
    proof cases
      case new
      have "x - 1 \<notin> set pre" using new by auto
      moreover have "pre @ [x] = pre @ [x..<Suc x]" by simp
      ultimately show ?thesis using new(1) x assms(1) by (metis Suc_leI diff_self_eq_0 le_refl)
    next
      case old
      have "initial \<le> previd \<and> Suc (previd - initial) < n \<and> initial - 1 \<notin> set pre \<and> 2 \<le> initial
          \<and> (\<exists>pre'. pre = pre' @ [initial..<Suc previd])"
        using Cons.prems(3) old(1) unfolding scan_inv_def if_not_P [OF old(1)] by blast
      then obtain pre' where p: "pre = pre' @ [initial..<Suc previd]" "initial \<le> previd" "Suc (previd - initial) < n"
          "initial - 1 \<notin> set pre" "2 \<le> initial" by blast
      have "[initial..<Suc x] = [initial..<Suc previd] @ [x]" using p(2) old(3) by simp
      then have "pre @ [x] = pre' @ [initial..<Suc x]" using p(1) by simp
      then show ?thesis using p old by (auto simp: Suc_diff_le)
    qed
    then show "ini \<le> x" "2 \<le> ini" "ini - 1 \<notin> set pre" "\<exists>pre'. pre @ [x] = pre' @ [ini..<Suc x]" "Suc (x - ini) \<le> n" by blast+
  qed
  have len: "pg_add (pg_sub x ini) 1 = Suc (x - ini)" using ini(1,5) x assms(2) by simp
  have step: "array_scan n (length pre) initial previd (x # rest)
      = (if Suc (x - ini) = n then Some (Some (length pre, ini)) else array_scan n (Suc (length pre)) ini x rest)"
    unfolding array_scan.simps(2) Let_def ini_def [symmetric] len using x by simp
  show ?case
  proof (cases "Suc (x - ini) = n")
    case True
    obtain pre' where pre': "pre @ [x] = pre' @ [ini..<Suc x]" using ini(4) by blast
    have n: "Suc x = ini + n" using True ini(1) by simp
    have "pre @ x # rest = pre' @ [ini..<ini + n] @ rest" using pre' n by (metis append.assoc append_Cons append_Nil)
    moreover have "length pre' + n = Suc (length pre)" using arg_cong [OF pre', of length] n ini(1) by simp
    moreover have "array_scan n (length pre) initial previd (x # rest) = Some (Some (length pre, ini))" unfolding step using True by simp
    ultimately show ?thesis by (intro exI [of _ "Some (length pre, ini)"]) (simp only: option.case prod.case, blast)
  next
    case False
    have no: "\<forall>q. \<not> {q..<q + n} \<subseteq> insert x (set pre)"
      by (rule run_extends [OF _ assms(1) big ini(1,3)]) (use Cons.prems(3) ini(2,5) False in \<open>auto simp: scan_inv_def\<close>)
    have "ini - 1 \<noteq> x" using ini(1,2) by simp
    then have "scan_inv n (pre @ [x]) ini x" using no ini False by (simp add: scan_inv_def)
    moreover have "array_scan n (length pre) initial previd (x # rest) = array_scan n (length (pre @ [x])) ini x rest"
      unfolding step using False by simp
    ultimately show ?thesis using Cons.IH [of "pre @ [x]" ini x] Cons.prems(1,2) by (simp only: append.assoc append.simps)
  qed
qed

lemma pg_add_image: "p + n < 2 ^ 64 \<Longrightarrow> pg_add p ` {0..<n} = {p..<p + n}"
proof -
  assume "p + n < 2 ^ 64"
  then have "pg_add p ` {0..<n} = (+) p ` {0..<n}" by (intro image_cong) auto
  also have "\<dots> = {p..<p + n}" by (simp add: add.commute)
  finally show ?thesis .
qed

lemma run_ok:
  assumes "\<forall>x \<in> S. pg_ok x" and "{q..<q + n} \<subseteq> S" and "0 < (n :: nat)"
  shows "2 \<le> q" and "q + n < 2 ^ 64"
proof -
  have "pg_ok q" "pg_ok (q + n - 1)" using assms(1,3) subsetD [OF assms(2), of q] subsetD [OF assms(2), of "q + n - 1"] by auto
  then show "2 \<le> q" "q + n < 2 ^ 64" by (auto simp: pg_ok_def)
qed

lemma sorted_sort_union:
  assumes "sorted_wrt (<) (xs :: nat list)" and "distinct ys" and "set ys \<inter> set xs = {}"
  shows "sorted_wrt (<) (sort (xs @ sort ys))" and "set (sort (xs @ sort ys)) = set xs \<union> set ys"
proof -
  have "distinct (xs @ sort ys)" using assms strict_sorted_iff [of xs] by auto
  then show "sorted_wrt (<) (sort (xs @ sort ys))" by (simp add: strict_sorted_iff)
qed simp

lemma array_scan_start:
  assumes "array_inv f" and "0 < n" and "n < 2 ^ 63"
  shows "array_scan n 0 0 0 (fl_ids f) = Some None \<and> (\<forall>q. \<not> {q..<q + n} \<subseteq> set (fl_ids f))
    \<or> (\<exists>i p xs ys. array_scan n 0 0 0 (fl_ids f) = Some (Some (i, p)) \<and> fl_ids f = xs @ [p..<p + n] @ ys \<and> length xs + n = Suc i)"
proof -
  have "scan_inv n [] 0 0" using assms(2) by (simp add: scan_inv_def)
  then obtain r where r: "array_scan n 0 0 0 (fl_ids f) = Some r"
    "case r of None \<Rightarrow> \<forall>q. \<not> {q..<q + n} \<subseteq> set (fl_ids f)
     | Some (i, p) \<Rightarrow> \<exists>xs ys. fl_ids f = xs @ [p..<p + n] @ ys \<and> length xs + n = Suc i"
    using array_scan_ok [of n "[]" "fl_ids f" 0 0, unfolded append.simps list.size] assms by (auto simp: array_inv_def)
  then show ?thesis by (cases r) (auto split: prod.splits)
qed

lemma arrayAllocate_none:
  assumes inv: "array_inv f" and n: "0 < n" "n < 2 ^ 63" and no: "\<not> (\<exists>q. {q..<q + n} \<subseteq> set (fl_ids f))"
  shows "arrayAllocate f t n = Some (f, 0)"
proof -
  have "{p..<p + n} \<subseteq> set (fl_ids f)" if "fl_ids f = xs @ [p..<p + n] @ ys" for p xs ys using that by auto
  then have "array_scan n 0 0 0 (fl_ids f) = Some None" using array_scan_start [OF assms(1-3)] no by blast
  then show ?thesis by (simp add: arrayAllocate_def)
qed

lemma arrayAllocate_some:
  assumes inv: "array_inv f" and n: "0 < n" "n < 2 ^ 63" and run: "{q..<q + n} \<subseteq> set (fl_ids f)"
  shows "\<exists>f' p. arrayAllocate f t n = Some (f', p) \<and> {p..<p + n} \<subseteq> set (fl_ids f) \<and> array_inv f'
    \<and> set (fl_ids f') = set (fl_ids f) - {p..<p + n}
    \<and> fl_cache f' = fl_cache f - {p..<p + n} \<and> fl_allocs f' = (fl_allocs f)(p \<mapsto> t)
    \<and> fl_pending f' = fl_pending f \<and> fl_type f' = fl_type f"
proof -
  obtain i p xs ys where r: "array_scan n 0 0 0 (fl_ids f) = Some (Some (i, p))" "fl_ids f = xs @ [p..<p + n] @ ys" "length xs + n = Suc i"
    using array_scan_start [OF assms(1-3)] run by blast
  have cut: "take (i + 1 - n) (fl_ids f) @ drop (i + 1) (fl_ids f) = xs @ ys" "i + 1 = n \<Longrightarrow> xs = []"
    using r(2,3) by simp_all
  have sub: "{p..<p + n} \<subseteq> set (fl_ids f)" using r(2) by auto
  have ok: "\<forall>x \<in> set (fl_ids f). pg_ok x" and srt: "sorted_wrt (<) (fl_ids f)" using inv by (simp_all add: array_inv_def)
  note bnd = run_ok [OF ok sub n(1)]
  have sxy: "sorted_wrt (<) (xs @ ys)" "set (xs @ ys) = set (fl_ids f) - {p..<p + n}"
    using srt unfolding r(2) by (auto simp: sorted_wrt_append)
  let ?f = "f\<lparr>fl_ids := xs @ ys, fl_cache := fl_cache f - {p..<p + n}, fl_allocs := (fl_allocs f)(p \<mapsto> t)\<rparr>"
  have "arrayAllocate f t n = Some (?f, p)"
    using r(1,3) cut n(1) r(2) pg_add_image [OF bnd(2)] by (auto simp: arrayAllocate_def cache_delete_def Let_def)
  moreover have "array_inv ?f" using sxy ok by (auto simp: array_inv_def)
  ultimately show ?thesis using sub sxy(2) by auto
qed

lemma arrayMergeSpans_ok:
  assumes inv: "array_inv f" and xs: "distinct xs" "set xs \<inter> set (fl_ids f) = {}" "\<forall>x \<in> set xs. pg_ok x"
  shows "arrayMergeSpans f xs = Some (f\<lparr>fl_ids := sort (fl_ids f @ sort xs)\<rparr>, sort xs)"
    and "array_inv (f\<lparr>fl_ids := sort (fl_ids f @ sort xs)\<rparr>)"
proof -
  have "sorted (fl_ids f)" using inv by (simp add: array_inv_def strict_sorted_iff)
  then show "arrayMergeSpans f xs = Some (f\<lparr>fl_ids := sort (fl_ids f @ sort xs)\<rparr>, sort xs)"
    using pgids_merge_sorted [of "fl_ids f" "sort xs"] by (simp add: arrayMergeSpans_def)
  show "array_inv (f\<lparr>fl_ids := sort (fl_ids f @ sort xs)\<rparr>)"
    using sorted_sort_union [of "fl_ids f" xs] inv xs by (auto simp: array_inv_def)
qed

interpretation arr: page_allocator arrayAllocate arrayMergeSpans arrayGetFreePageIDs arrayFreeCount "\<lambda>f. set (fl_ids f)" array_inv
proof
  show "pg_ok x" if "array_inv f" "x \<in> set (fl_ids f)" for f x using that by (simp add: array_inv_def)
  show "\<exists>f' m. arrayMergeSpans f xs = Some (f', m) \<and> mset m = mset xs \<and> array_inv f' \<and> set (fl_ids f') = set (fl_ids f) \<union> set xs
        \<and> fl_cache f' = fl_cache f \<and> fl_allocs f' = fl_allocs f \<and> fl_pending f' = fl_pending f \<and> fl_type f' = fl_type f"
    if "array_inv f" "distinct xs" "set xs \<inter> set (fl_ids f) = {}" "\<forall>x \<in> set xs. pg_ok x" for f xs
    using arrayMergeSpans_ok [OF that] by simp
  show "sorted_wrt (<) (arrayGetFreePageIDs f) \<and> set (arrayGetFreePageIDs f) = set (fl_ids f)" if "array_inv f" for f
    using that by (simp add: arrayGetFreePageIDs_def array_inv_def)
  show "arrayFreeCount f = card (set (fl_ids f))" if "array_inv f" for f
    using that by (simp add: arrayFreeCount_def array_inv_def strict_sorted_iff distinct_card)
qed (use arrayAllocate_none arrayAllocate_some in blast)+

section \<open>The span allocator keeps the contract\<close>

text \<open>The pages of the spans, and the invariant of the three maps: the spans are separated, which makes
  them maximal, and the backward map and the size classes are determined by the forward map.\<close>

definition hset :: "freelist \<Rightarrow> pgid set" where
  "hset f = {x. \<exists>s k. fl_forwardMap f s = Some k \<and> s \<le> x \<and> x < s + k}"

definition span_inv :: "freelist \<Rightarrow> bool" where
  "span_inv f \<longleftrightarrow> finite (dom (fl_forwardMap f))
     \<and> (\<forall>s k. fl_forwardMap f s = Some k \<longrightarrow> 0 < k \<and> 2 \<le> s \<and> s + k \<le> 2 ^ 64 - 2)
     \<and> (\<forall>s k s' k'. fl_forwardMap f s = Some k \<and> fl_forwardMap f s' = Some k' \<and> s < s' \<longrightarrow> s + k < s')
     \<and> (\<forall>e k. fl_backwardMap f e = Some k \<longleftrightarrow> (\<exists>s. fl_forwardMap f s = Some k \<and> e + 1 = s + k))
     \<and> (\<forall>k. fl_freemaps f k = (if \<exists>s. fl_forwardMap f s = Some k then Some {s. fl_forwardMap f s = Some k} else None))"

lemma hsetI: "fl_forwardMap f s = Some k \<Longrightarrow> s \<le> x \<Longrightarrow> x < s + k \<Longrightarrow> x \<in> hset f"
  by (auto simp: hset_def)

lemma span_invD:
  assumes "span_inv f"
  shows "finite (dom (fl_forwardMap f))" and "fl_forwardMap f s = Some k \<Longrightarrow> 0 < k \<and> 2 \<le> s \<and> s + k \<le> 2 ^ 64 - 2"
    and "fl_forwardMap f s = Some k \<Longrightarrow> fl_forwardMap f s' = Some k' \<Longrightarrow> s < s' \<Longrightarrow> s + k < s'"
    and "fl_backwardMap f e = Some k \<longleftrightarrow> (\<exists>s. fl_forwardMap f s = Some k \<and> e + 1 = s + k)"
    and "fl_freemaps f k = (if \<exists>s. fl_forwardMap f s = Some k then Some {s. fl_forwardMap f s = Some k} else None)"
  using assms by (simp_all add: span_inv_def)

lemma span_apart:
  assumes inv: "span_inv f" and sp: "fl_forwardMap f s = Some k" "fl_forwardMap f s' = Some k'" "s \<noteq> s'"
  shows "s + k < s' \<or> s' + k' < s"
  using span_invD(3) [OF inv sp(1,2)] span_invD(3) [OF inv sp(2,1)] sp(3) by linarith

lemma span_gap:
  assumes inv: "span_inv f" and sp: "fl_forwardMap f s = Some k"
  shows "s - 1 \<notin> hset f" and "s + k \<notin> hset f"
proof -
  have k: "0 < k" "2 \<le> s" using span_invD(2) [OF inv sp] by simp_all
  show "s - 1 \<notin> hset f"
  proof
    assume "s - 1 \<in> hset f"
    then obtain s' k' where h: "fl_forwardMap f s' = Some k'" "s' \<le> s - 1" "s - 1 < s' + k'" by (auto simp: hset_def)
    with span_invD(3) [OF inv h(1) sp] k show False by linarith
  qed
  show "s + k \<notin> hset f"
  proof
    assume "s + k \<in> hset f"
    then obtain s' k' where h: "fl_forwardMap f s' = Some k'" "s' \<le> s + k" "s + k < s' + k'" by (auto simp: hset_def)
    show False
    proof (cases "s' = s")
      case True
      with h sp show False by simp
    next
      case False
      with span_apart [OF inv h(1) sp] h k show False by linarith
    qed
  qed
qed

lemma delSpan_ok:
  assumes inv: "span_inv f" and sp: "fl_forwardMap f s = Some k"
  shows "span_inv (delSpan f s k)" and "hset (delSpan f s k) = hset f - {s..<s + k}"
    and "fl_forwardMap (delSpan f s k) = (fl_forwardMap f)(s := None)"
proof -
  let ?F = "fl_forwardMap f" and ?f = "delSpan f s k"
  have k: "0 < k" "2 \<le> s" "s + k \<le> 2 ^ 64 - 2" using span_invD(2) [OF inv sp] by simp_all
  have e: "pg_add s (pg_sub k 1) = s + k - 1" using k by simp
  have fw: "fl_forwardMap ?f = ?F(s := None)" by (simp add: delSpan_def Let_def)
  have bw: "fl_backwardMap ?f = (fl_backwardMap f)(s + k - 1 := None)" using e by (simp add: delSpan_def Let_def)
  show "fl_forwardMap ?f = ?F(s := None)" by (rule fw)
  show "hset ?f = hset f - {s..<s + k}"
  proof (intro set_eqI iffI)
    fix x assume "x \<in> hset ?f"
    then obtain s' k' where h: "?F s' = Some k'" "s' \<noteq> s" "s' \<le> x" "x < s' + k'" by (auto simp: hset_def fw split: if_splits)
    with span_apart [OF inv h(1) sp h(2)] show "x \<in> hset f - {s..<s + k}" by (auto simp: hset_def)
  next
    fix x assume "x \<in> hset f - {s..<s + k}"
    then obtain s' k' where "?F s' = Some k'" "s' \<le> x" "x < s' + k'" "\<not> (s \<le> x \<and> x < s + k)" by (auto simp: hset_def)
    then have "fl_forwardMap ?f s' = Some k'" "s' \<le> x" "x < s' + k'" using sp by (auto simp: fw)
    then show "x \<in> hset ?f" by (rule hsetI)
  qed
  have b: "fl_backwardMap ?f e' = Some k' \<longleftrightarrow> (\<exists>s'. fl_forwardMap ?f s' = Some k' \<and> e' + 1 = s' + k')" for e' k'
  proof (cases "e' = s + k - 1")
    case True
    have "\<not> (s' \<noteq> s \<and> ?F s' = Some k' \<and> e' + 1 = s' + k')" for s'
    proof
      assume h: "s' \<noteq> s \<and> ?F s' = Some k' \<and> e' + 1 = s' + k'"
      then have "0 < k'" "s' + k' = s + k" using span_invD(2) [OF inv] True k by auto
      with h span_apart [OF inv _ sp, of s' k'] k show False by linarith
    qed
    then show ?thesis by (auto simp: bw fw True split: if_splits)
  next
    case False
    have "\<not> e' + 1 = s + k" using False k by simp
    then have "((?F(s := None)) s' = Some k' \<and> e' + 1 = s' + k') = (?F s' = Some k' \<and> e' + 1 = s' + k')" for s'
      using sp by (cases "s' = s") auto
    then show ?thesis using span_invD(4) [OF inv, of e' k'] False unfolding fw bw by simp
  qed
  have m: "fl_freemaps ?f k' = (if \<exists>s'. fl_forwardMap ?f s' = Some k' then Some {s'. fl_forwardMap ?f s' = Some k'} else None)" for k'
  proof (cases "k' = k")
    case True
    have "fl_freemaps f k = Some {s'. ?F s' = Some k}" using span_invD(5) [OF inv, of k] sp by auto
    moreover have "{s'. ?F s' = Some k} - {s} = {s'. (?F(s := None)) s' = Some k}" by (auto split: if_splits)
    ultimately have "fl_freemaps ?f k = (if {s'. (?F(s := None)) s' = Some k} = {} then None else Some {s'. (?F(s := None)) s' = Some k})"
      by (simp add: delSpan_def Let_def)
    then show ?thesis unfolding True fw by (auto split: if_splits)
  next
    case False
    have "((?F(s := None)) s' = Some k') = (?F s' = Some k')" for s' using False sp by (cases "s' = s") auto
    then show ?thesis using span_invD(5) [OF inv, of k'] False unfolding fw by (simp add: delSpan_def Let_def)
  qed
  show "span_inv ?f"
    unfolding span_inv_def
  proof (intro conjI allI)
    show "finite (dom (fl_forwardMap ?f))" using span_invD(1) [OF inv] by (simp add: fw)
    show "fl_forwardMap ?f s' = Some k' \<longrightarrow> 0 < k' \<and> 2 \<le> s' \<and> s' + k' \<le> 2 ^ 64 - 2" for s' k'
      using span_invD(2) [OF inv] by (simp add: fw)
    show "fl_forwardMap ?f a = Some x \<and> fl_forwardMap ?f b = Some y \<and> a < b \<longrightarrow> a + x < b" for a x b y
      using span_invD(3) [OF inv, of a x b y] by (auto simp: fw split: if_splits)
  qed (use b m in blast)+
qed

lemma addSpan_ok:
  assumes inv: "span_inv f" and k: "0 < k" "2 \<le> s" "s + k \<le> 2 ^ 64 - 2" and gap: "{s - 1..s + k} \<inter> hset f = {}"
  shows "span_inv (addSpan f s k)" and "hset (addSpan f s k) = hset f \<union> {s..<s + k}"
proof -
  let ?F = "fl_forwardMap f" and ?f = "addSpan f s k"
  have e: "pg_add (pg_sub s 1) k = s + k - 1" using k by simp
  have fw: "fl_forwardMap ?f = ?F(s \<mapsto> k)" by (simp add: addSpan_def)
  have bw: "fl_backwardMap ?f = (fl_backwardMap f)(s + k - 1 \<mapsto> k)" using e by (simp add: addSpan_def)
  have apart: "s' + k' < s \<or> s + k < s'" if h: "?F s' = Some k'" for s' k'
  proof (rule ccontr)
    assume n: "\<not> (s' + k' < s \<or> s + k < s')"
    have k': "0 < k'" using span_invD(2) [OF inv h] by simp
    define x where "x = max (s - 1) s'"
    have "x \<in> hset f" using h by (rule hsetI) (use n k' k in \<open>auto simp: x_def\<close>)
    moreover have "x \<in> {s - 1..s + k}" using n k by (auto simp: x_def)
    ultimately show False using gap by blast
  qed
  have s: "?F s = None" using apart [of s] k by (cases "?F s") auto
  show "hset ?f = hset f \<union> {s..<s + k}"
  proof (intro set_eqI iffI)
    fix x assume "x \<in> hset ?f"
    then show "x \<in> hset f \<union> {s..<s + k}" by (auto simp: hset_def fw split: if_splits)
  next
    fix x assume "x \<in> hset f \<union> {s..<s + k}"
    then show "x \<in> hset ?f"
    proof
      assume "x \<in> hset f"
      then obtain s' k' where "?F s' = Some k'" "s' \<le> x" "x < s' + k'" by (auto simp: hset_def)
      moreover from this s have "fl_forwardMap ?f s' = Some k'" by (auto simp: fw)
      ultimately show ?thesis by (auto intro: hsetI)
    qed (auto simp: hset_def fw)
  qed
  have b: "fl_backwardMap ?f e' = Some k' \<longleftrightarrow> (\<exists>s'. fl_forwardMap ?f s' = Some k' \<and> e' + 1 = s' + k')" for e' k'
  proof (cases "e' = s + k - 1")
    case True
    have "\<not> (?F s' = Some k' \<and> e' + 1 = s' + k')" for s' using apart [of s' k'] span_invD(2) [OF inv, of s' k'] True k by auto
    then show ?thesis using True k s by (auto simp: bw fw)
  next
    case False
    have "\<not> e' + 1 = s + k" using False k by simp
    then have "((?F(s \<mapsto> k)) s' = Some k' \<and> e' + 1 = s' + k') = (?F s' = Some k' \<and> e' + 1 = s' + k')" for s'
      using s by (cases "s' = s") auto
    then show ?thesis using span_invD(4) [OF inv, of e' k'] False unfolding fw bw by simp
  qed
  have m: "fl_freemaps ?f k' = (if \<exists>s'. fl_forwardMap ?f s' = Some k' then Some {s'. fl_forwardMap ?f s' = Some k'} else None)" for k'
  proof (cases "k' = k")
    case True
    have "insert s (case fl_freemaps f k of None \<Rightarrow> {} | Some bm \<Rightarrow> bm) = {s'. (?F(s \<mapsto> k)) s' = Some k}"
      using span_invD(5) [OF inv, of k] by (auto split: if_splits)
    then have "fl_freemaps ?f k = Some {s'. (?F(s \<mapsto> k)) s' = Some k}" by (simp add: addSpan_def)
    moreover have "\<exists>s'. (?F(s \<mapsto> k)) s' = Some k" by (rule exI [of _ s]) simp
    ultimately show ?thesis unfolding True fw by simp
  next
    case False
    have "((?F(s \<mapsto> k)) s' = Some k') = (?F s' = Some k')" for s' using False s by (cases "s' = s") auto
    then show ?thesis using span_invD(5) [OF inv, of k'] False unfolding fw by (simp add: addSpan_def)
  qed
  show "span_inv ?f"
    unfolding span_inv_def
  proof (intro conjI allI)
    show "finite (dom (fl_forwardMap ?f))" using span_invD(1) [OF inv] by (simp add: fw)
    show "fl_forwardMap ?f s' = Some k' \<longrightarrow> 0 < k' \<and> 2 \<le> s' \<and> s' + k' \<le> 2 ^ 64 - 2" for s' k'
      using span_invD(2) [OF inv, of s' k'] k by (simp add: fw)
    show "fl_forwardMap ?f a = Some x \<and> fl_forwardMap ?f b = Some y \<and> a < b \<longrightarrow> a + x < b" for a x b y
      using span_invD(3) [OF inv, of a x b y] apart [of a x] apart [of b y] k by (auto simp: fw split: if_splits)
  qed (use b m in blast)+
qed

lemma span_frame [simp]:
  "fl_cache (addSpan f s k) = fl_cache f" "fl_allocs (addSpan f s k) = fl_allocs f" "fl_pending (addSpan f s k) = fl_pending f"
  "fl_type (addSpan f s k) = fl_type f" "fl_ids (addSpan f s k) = fl_ids f"
  "fl_cache (delSpan f s k) = fl_cache f" "fl_allocs (delSpan f s k) = fl_allocs f" "fl_pending (delSpan f s k) = fl_pending f"
  "fl_type (delSpan f s k) = fl_type f" "fl_ids (delSpan f s k) = fl_ids f"
  by (simp_all add: addSpan_def delSpan_def Let_def)

text \<open>A page next to a span is at its end or its start, so the two maps find it.\<close>

lemma no_prev:
  assumes inv: "span_inv f" and p: "pid \<notin> hset f" "2 \<le> pid" and no: "fl_backwardMap f (pid - 1) = None"
  shows "pid - 1 \<notin> hset f"
proof
  assume "pid - 1 \<in> hset f"
  then obtain s k where h: "fl_forwardMap f s = Some k" "s \<le> pid - 1" "pid - 1 < s + k" by (auto simp: hset_def)
  have "s \<le> pid" using h(2) by simp
  then have "\<not> pid < s + k" using p(1) hsetI [OF h(1), of pid] by blast
  then have "pid - 1 + 1 = s + k" using h(3) p(2) by linarith
  with h(1) span_invD(4) [OF inv, of "pid - 1" k] no show False by auto
qed

lemma no_next:
  assumes inv: "span_inv f" and p: "pid \<notin> hset f" and no: "fl_forwardMap f (pid + 1) = None"
  shows "pid + 1 \<notin> hset f"
proof
  assume "pid + 1 \<in> hset f"
  then obtain s k where h: "fl_forwardMap f s = Some k" "s \<le> pid + 1" "pid + 1 < s + k" by (auto simp: hset_def)
  have "s \<noteq> pid + 1" using h(1) no by auto
  then have "pid \<in> hset f" using hsetI [OF h(1), of pid] h by linarith
  with p show False ..
qed

lemma mergeWithExistingSpan_ok:
  assumes inv: "span_inv f" and p: "pid \<notin> hset f" "pg_ok pid"
  shows "span_inv (mergeWithExistingSpan f pid)" and "hset (mergeWithExistingSpan f pid) = insert pid (hset f)"
proof -
  have pid: "2 \<le> pid" "pid < 2 ^ 64 - 2" using p(2) by (simp_all add: pg_ok_def)
  have [simp]: "pg_sub pid (Suc 0) = pid - 1" "pg_add pid (Suc 0) = pid + 1" "pg_add (pid - Suc 0) (Suc 0) = pid" using pid by simp_all
  define a where "a = (case fl_backwardMap f (pid - 1) of None \<Rightarrow> 0 | Some k \<Rightarrow> k)"
  define f1 where "f1 = (if a = 0 then f else delSpan f (pid - a) a)"
  have A: "span_inv f1 \<and> hset f1 = hset f - {pid - a..<pid} \<and> {pid - a..<pid} \<subseteq> hset f \<and> a \<le> pid \<and> 2 \<le> pid - a
      \<and> pid - a - 1 \<notin> hset f \<and> fl_forwardMap f1 (pid + 1) = fl_forwardMap f (pid + 1)"
  proof (cases "fl_backwardMap f (pid - 1)")
    case None
    then show ?thesis using inv pid no_prev [OF inv p(1) pid(1) None] by (simp add: a_def f1_def)
  next
    case (Some k)
    then obtain s where s: "fl_forwardMap f s = Some k" "pid = s + k"
      using span_invD(4) [OF inv, of "pid - 1" k] pid by auto
    have "0 < k" "2 \<le> s" using span_invD(2) [OF inv s(1)] by simp_all
    moreover have "{s..<s + k} \<subseteq> hset f" using hsetI [OF s(1)] by auto
    ultimately show ?thesis
      using Some s(2) delSpan_ok [OF inv s(1)] span_gap(1) [OF inv s(1)] by (simp add: a_def f1_def)
  qed
  define b where "b = (case fl_forwardMap f (pid + 1) of None \<Rightarrow> 0 | Some k \<Rightarrow> k)"
  define f2 where "f2 = (if b = 0 then f1 else delSpan f1 (pid + 1) b)"
  have B: "span_inv f2 \<and> hset f2 = hset f1 - {pid + 1..<pid + 1 + b} \<and> {pid + 1..<pid + 1 + b} \<subseteq> hset f \<and> pid + 1 + b \<le> 2 ^ 64 - 2
      \<and> pid + 1 + b \<notin> hset f"
  proof (cases "fl_forwardMap f (pid + 1)")
    case None
    then show ?thesis using A pid no_next [OF inv p(1) None] by (simp add: b_def f2_def)
  next
    case (Some k)
    have f1: "fl_forwardMap f1 (pid + 1) = Some k" using A Some by simp
    have "0 < k" "pid + 1 + k \<le> 2 ^ 64 - 2" using span_invD(2) [OF inv Some] by simp_all
    moreover have "{pid + 1..<pid + 1 + k} \<subseteq> hset f" using hsetI [OF Some] by auto
    ultimately show ?thesis
      using Some delSpan_ok [OF _ f1] A span_gap(2) [OF inv Some] by (simp add: b_def f2_def)
  qed
  have ka: "fl_backwardMap f (pid - 1) = Some k \<Longrightarrow> 0 < k" for k
    using span_invD(2,4) [OF inv] by blast
  have kb: "fl_forwardMap f (pid + 1) = Some k \<Longrightarrow> 0 < k" for k using span_invD(2) [OF inv] by blast
  have sub: "pg_sub pid a = pid - a" "pg_add 1 a = 1 + a" "pg_add (1 + a) b = 1 + a + b" "pg_sub (pg_add (pid - 1) 1) a = pid - a"
    using A B pid by (simp_all add: le_diff_conv2)
  have e: "mergeWithExistingSpan f pid = addSpan f2 (pid - a) (1 + a + b)"
    using ka kb sub unfolding mergeWithExistingSpan_def f2_def f1_def
    by (cases "fl_backwardMap f (pid - 1)"; cases "fl_forwardMap f (pid + 1)") (simp_all add: a_def b_def Let_def)
  have h2: "hset f2 = hset f - {pid - a..<pid} - {pid + 1..<pid + 1 + b}" using A B by simp
  have gap: "{pid - a - 1..pid - a + (1 + a + b)} \<inter> hset f2 = {}"
  proof -
    have "x \<in> {pid - a - 1} \<union> {pid - a..<pid} \<union> {pid} \<union> {pid + 1..<pid + 1 + b} \<union> {pid + 1 + b}"
      if "x \<in> {pid - a - 1..pid - a + (1 + a + b)}" for x
      using that A by auto
    then show ?thesis unfolding h2 using A B p(1) by fastforce
  qed
  have k: "0 < 1 + a + b" "2 \<le> pid - a" "pid - a + (1 + a + b) \<le> 2 ^ 64 - 2" using A B by auto
  show "span_inv (mergeWithExistingSpan f pid)" unfolding e using addSpan_ok(1) [OF _ k gap] B by blast
  have "hset (addSpan f2 (pid - a) (1 + a + b)) = hset f2 \<union> {pid - a..<pid - a + (1 + a + b)}"
    using addSpan_ok(2) [OF _ k gap] B by blast
  also have "{pid - a..<pid - a + (1 + a + b)} = {pid - a..<pid} \<union> {pid} \<union> {pid + 1..<pid + 1 + b}" using A by auto
  finally show "hset (mergeWithExistingSpan f pid) = insert pid (hset f)" unfolding e h2 using A B by blast
qed

lemma merge_frame [simp]:
  "fl_cache (mergeWithExistingSpan f p) = fl_cache f" "fl_allocs (mergeWithExistingSpan f p) = fl_allocs f"
  "fl_pending (mergeWithExistingSpan f p) = fl_pending f" "fl_type (mergeWithExistingSpan f p) = fl_type f"
  by (simp_all add: mergeWithExistingSpan_def Let_def split: option.split)

lemma hashmapMergeSpans_ok:
  assumes "span_inv f" and "distinct xs" and "set xs \<inter> hset f = {}" and "\<forall>x \<in> set xs. pg_ok x"
  shows "\<exists>f'. hashmapMergeSpans f xs = Some (f', xs) \<and> span_inv f' \<and> hset f' = hset f \<union> set xs
        \<and> fl_cache f' = fl_cache f \<and> fl_allocs f' = fl_allocs f \<and> fl_pending f' = fl_pending f \<and> fl_type f' = fl_type f"
  unfolding hashmapMergeSpans_def using assms
proof (induction xs arbitrary: f)
  case (Cons x xs)
  then have "x \<notin> hset f" "pg_ok x" by auto
  note m = mergeWithExistingSpan_ok [OF Cons.prems(1) this]
  have "set xs \<inter> hset (mergeWithExistingSpan f x) = {}" using Cons.prems(2,3) m(2) by auto
  with Cons.IH [OF m(1)] Cons.prems(2,4) m(2) show ?case by auto
qed simp

lemma span_inv_frame:
  assumes "fl_forwardMap g = fl_forwardMap f" and "fl_backwardMap g = fl_backwardMap f" and "fl_freemaps g = fl_freemaps f"
  shows "span_inv g = span_inv f" and "hset g = hset f"
  using assms by (simp_all add: span_inv_def hset_def)

text \<open>Go's iteration order: every key once.\<close>

locale map_range =
  fixes rng :: map_range_order
  assumes set_rng [simp]: "finite S \<Longrightarrow> set (rng S) = S" and distinct_rng [simp]: "finite S \<Longrightarrow> distinct (rng S)"

lemma run_in_span:
  assumes inv: "span_inv f" and run: "{q..<q + n} \<subseteq> hset f" "0 < n"
  shows "\<exists>s k. fl_forwardMap f s = Some k \<and> s \<le> q \<and> q + n \<le> s + k"
proof -
  have "q \<in> hset f" using run by auto
  then obtain s k where h: "fl_forwardMap f s = Some k" "s \<le> q" "q < s + k" by (auto simp: hset_def)
  have "q + n \<le> s + k"
  proof (rule ccontr)
    assume "\<not> q + n \<le> s + k"
    then have "s + k \<in> {q..<q + n}" using h(3) by auto
    with run(1) span_gap(2) [OF inv h(1)] show False by blast
  qed
  with h show ?thesis by blast
qed

lemma finite_sizes:
  assumes "span_inv f"
  shows "finite (dom (fl_freemaps f))" and "finite {s. fl_forwardMap f s = Some k}"
proof -
  have fin: "finite (dom (fl_forwardMap f))" by (rule span_invD(1) [OF assms])
  have "dom (fl_freemaps f) \<subseteq> ran (fl_forwardMap f)"
    using span_invD(5) [OF assms] by (auto simp: ran_def split: if_splits)
  with fin show "finite (dom (fl_freemaps f))" by (meson finite_ran finite_subset)
  have "{s. fl_forwardMap f s = Some k} \<subseteq> dom (fl_forwardMap f)" by auto
  with fin show "finite {s. fl_forwardMap f s = Some k}" by (meson finite_subset)
qed

lemma cache_delete_frame [simp]:
  "fl_forwardMap (cache_delete f p n) = fl_forwardMap f" "fl_backwardMap (cache_delete f p n) = fl_backwardMap f"
  "fl_freemaps (cache_delete f p n) = fl_freemaps f" "fl_allocs (cache_delete f p n) = fl_allocs f"
  "fl_pending (cache_delete f p n) = fl_pending f" "fl_type (cache_delete f p n) = fl_type f"
  by (simp_all add: cache_delete_def)

lemma disjoint_concat_distinct:
  "distinct ss \<Longrightarrow> \<forall>s \<in> set ss. distinct (g s) \<Longrightarrow> \<forall>s \<in> set ss. \<forall>t \<in> set ss. s \<noteq> t \<longrightarrow> set (g s) \<inter> set (g t) = {} \<Longrightarrow>
     distinct (concat (map g ss))"
  by (induction ss) auto

context map_range
begin

lemma exact_span_set: "span_inv f \<Longrightarrow> set (exact_span rng f n) = {s. fl_forwardMap f s = Some n}"
  using span_invD(5) [of f n] finite_sizes(2) [of f n] by (auto simp: exact_span_def)

lemma large_spans_set: "span_inv f \<Longrightarrow> set (large_spans rng f n) = {(k, s). fl_forwardMap f s = Some k \<and> n \<le> k}"
proof -
  assume inv: "span_inv f"
  have dom: "k \<in> dom (fl_freemaps f) \<longleftrightarrow> (\<exists>s. fl_forwardMap f s = Some k)" for k
    using span_invD(5) [OF inv, of k] by (auto split: if_splits)
  have bm: "set (rng (the (fl_freemaps f k))) = {s. fl_forwardMap f s = Some k}" if "k \<in> dom (fl_freemaps f)" for k
    using span_invD(5) [OF inv, of k] finite_sizes(2) [OF inv, of k] that by (auto split: if_splits)
  have "set (large_spans rng f n) = (\<Union>k \<in> dom (fl_freemaps f). if k < n then {} else Pair k ` set (rng (the (fl_freemaps f k))))"
    using finite_sizes(1) [OF inv] by (auto simp: large_spans_def split: if_splits)
  also have "\<dots> = (\<Union>k \<in> dom (fl_freemaps f). if k < n then {} else Pair k ` {s. fl_forwardMap f s = Some k})"
    using bm by (intro SUP_cong) auto
  also have "\<dots> = {(k, s). fl_forwardMap f s = Some k \<and> n \<le> k}"
    using dom by (fastforce simp: not_less split: if_splits)
  finally show ?thesis .
qed

lemma hashmapAllocate_none:
  assumes inv: "span_inv f" and n: "0 < n" and no: "\<not> (\<exists>q. {q..<q + n} \<subseteq> hset f)"
  shows "hashmapAllocate rng f t n = Some (f, 0)"
proof -
  have "k < n" if "fl_forwardMap f s = Some k" for s k
  proof (rule ccontr)
    assume "\<not> k < n"
    then have "{s..<s + n} \<subseteq> hset f" using hsetI [OF that] by auto
    with no show False by blast
  qed
  then have small: "fl_forwardMap f s = Some k \<Longrightarrow> k < n" for s k by blast
  have "set (exact_span rng f n) = {}" unfolding exact_span_set [OF inv] using small [of _ n] by auto
  moreover have "set (large_spans rng f n) = {}" unfolding large_spans_set [OF inv] using small by fastforce
  ultimately show ?thesis using n by (simp add: hashmapAllocate_def)
qed

lemma hashmapAllocate_some:
  assumes inv: "span_inv f" and n: "0 < n" and run: "{q..<q + n} \<subseteq> hset f"
  shows "\<exists>f' p. hashmapAllocate rng f t n = Some (f', p) \<and> {p..<p + n} \<subseteq> hset f \<and> span_inv f' \<and> hset f' = hset f - {p..<p + n}
    \<and> fl_cache f' = fl_cache f - {p..<p + n} \<and> fl_allocs f' = (fl_allocs f)(p \<mapsto> t)
    \<and> fl_pending f' = fl_pending f \<and> fl_type f' = fl_type f"
proof (cases "exact_span rng f n")
  case (Cons p ps)
  then have sp: "fl_forwardMap f p = Some n" using exact_span_set [OF inv, of n] by auto
  have b: "p + n < 2 ^ 64" using span_invD(2) [OF inv sp] by simp
  let ?f = "cache_delete ((delSpan f p n)\<lparr>fl_allocs := (fl_allocs (delSpan f p n))(p \<mapsto> t)\<rparr>) p n"
  have e: "hashmapAllocate rng f t n = Some (?f, p)" using Cons n by (simp add: hashmapAllocate_def Let_def)
  have "span_inv ?f" "hset ?f = hset f - {p..<p + n}"
    using delSpan_ok(1,2) [OF inv sp] span_inv_frame [of ?f "delSpan f p n"] by simp_all
  moreover have "{p..<p + n} \<subseteq> hset f" using hsetI [OF sp] by auto
  moreover have "fl_cache ?f = fl_cache f - {p..<p + n}" using pg_add_image [OF b] by (simp add: cache_delete_def)
  ultimately show ?thesis using e by auto
next
  case Nil
  then have none: "\<not> (\<exists>s. fl_forwardMap f s = Some n)" using exact_span_set [OF inv, of n] by auto
  obtain s0 k0 where "fl_forwardMap f s0 = Some k0" "n \<le> k0" using run_in_span [OF inv run n] by fastforce
  then have "large_spans rng f n \<noteq> []" using large_spans_set [OF inv, of n] by auto
  then obtain k p ps where l: "large_spans rng f n = (k, p) # ps" by (cases "large_spans rng f n") auto
  then have sp: "fl_forwardMap f p = Some k" "n \<le> k" using large_spans_set [OF inv, of n] by auto
  then have less: "n < k" using none by (cases "n = k") auto
  have b: "0 < k" "2 \<le> p" "p + k \<le> 2 ^ 64 - 2" using span_invD(2) [OF inv sp(1)] by simp_all
  note del = delSpan_ok [OF inv sp(1)]
  let ?d = "(delSpan f p k)\<lparr>fl_allocs := (fl_allocs (delSpan f p k))(p \<mapsto> t)\<rparr>"
  have d: "span_inv ?d" "hset ?d = hset f - {p..<p + k}" using del(1,2) span_inv_frame [of ?d "delSpan f p k"] by simp_all
  have gap: "{p + n - 1..p + n + (k - n)} \<inter> hset ?d = {}"
    using span_gap(2) [OF inv sp(1)] less n unfolding d(2) by auto
  have "p + n + (k - n) \<le> 2 ^ 64 - 2" using less b by simp
  note add = addSpan_ok [OF d(1) _ _ this gap]
  let ?f = "cache_delete (addSpan ?d (p + n) (k - n)) p n"
  have e: "hashmapAllocate rng f t n = Some (?f, p)" using Nil l n less b by (simp add: hashmapAllocate_def Let_def)
  have fr: "span_inv ?f = span_inv (addSpan ?d (p + n) (k - n))" "hset ?f = hset (addSpan ?d (p + n) (k - n))"
    using span_inv_frame [of ?f "addSpan ?d (p + n) (k - n)"] by simp_all
  have "{p..<p + k} \<subseteq> hset f" using hsetI [OF sp(1)] by auto
  moreover have "{p..<p + k} = {p..<p + n} \<union> {p + n..<p + n + (k - n)}" "{p..<p + n} \<inter> {p + n..<p + n + (k - n)} = {}"
    using less by auto
  ultimately have "span_inv ?f" "hset ?f = hset f - {p..<p + n}" "{p..<p + n} \<subseteq> hset f"
    using add less b fr d(2) by auto
  moreover have "fl_cache ?f = fl_cache f - {p..<p + n}" using pg_add_image [of p n] less b by (simp add: cache_delete_def)
  ultimately show ?thesis using e by auto
qed

lemma span_pages:
  assumes inv: "span_inv f"
  defines "xs \<equiv> concat (map (\<lambda>s. map (pg_add s) [0..<the (fl_forwardMap f s)]) (rng (dom (fl_forwardMap f))))"
  shows "distinct xs" and "set xs = hset f" and "length xs = hashmapFreeCount rng f"
proof -
  let ?D = "dom (fl_forwardMap f)" and ?g = "\<lambda>s. map (pg_add s) [0..<the (fl_forwardMap f s)]"
  have fin: "finite ?D" by (rule span_invD(1) [OF inv])
  have g: "?g s = [s..<s + the (fl_forwardMap f s)]" if "s \<in> ?D" for s
  proof -
    have "s + the (fl_forwardMap f s) \<le> 2 ^ 64 - 2" using that span_invD(2) [OF inv] by auto
    then have "?g s = map (\<lambda>i. i + s) [0..<the (fl_forwardMap f s)]" by (intro map_cong) (auto simp: add.commute)
    then show ?thesis by (simp add: map_add_upt add.commute)
  qed
  have xs: "xs = concat (map (\<lambda>s. [s..<s + the (fl_forwardMap f s)]) (rng ?D))"
    unfolding xs_def by (rule arg_cong [of _ _ concat], rule map_cong) (use g fin in auto)
  show "distinct xs" unfolding xs
  proof (rule disjoint_concat_distinct)
    show "\<forall>s \<in> set (rng ?D). \<forall>t \<in> set (rng ?D). s \<noteq> t \<longrightarrow>
        set [s..<s + the (fl_forwardMap f s)] \<inter> set [t..<t + the (fl_forwardMap f t)] = {}"
      using fin span_apart [OF inv] by fastforce
  qed (use fin in auto)
  have "set xs = (\<Union>s \<in> ?D. {s..<s + the (fl_forwardMap f s)})" unfolding xs using fin by simp
  also have "\<dots> = hset f" by (force simp: hset_def dom_def)
  finally show "set xs = hset f" .
  show "length xs = hashmapFreeCount rng f"
    unfolding xs using fin by (simp add: hashmapFreeCount_def length_concat comp_def cong: map_cong)
qed

lemma hashmapGetFreePageIDs_ok:
  assumes "span_inv f"
  shows "sorted_wrt (<) (hashmapGetFreePageIDs rng f) \<and> set (hashmapGetFreePageIDs rng f) = hset f"
proof -
  note p = span_pages [OF assms]
  show ?thesis
  proof (cases "hashmapFreeCount rng f = 0")
    case True
    then have "hset f = {}" using p(2,3) by (metis length_0_conv set_empty)
    with True show ?thesis by (simp add: hashmapGetFreePageIDs_def)
  next
    case False
    with p(1,2) show ?thesis unfolding hashmapGetFreePageIDs_def by (simp only: if_False strict_sorted_iff distinct_sort sorted_sort set_sort)
  qed
qed

lemma hset_ok: "span_inv f \<Longrightarrow> x \<in> hset f \<Longrightarrow> pg_ok x"
  using span_invD(2) [of f] by (fastforce simp: hset_def pg_ok_def)

end

sublocale map_range \<subseteq> hm: page_allocator "hashmapAllocate rng" hashmapMergeSpans "hashmapGetFreePageIDs rng" "hashmapFreeCount rng" hset span_inv
proof
  show "hashmapFreeCount rng f = card (hset f)" if "span_inv f" for f
    using span_pages [OF that] by (metis distinct_card)
  show "\<exists>f' m. hashmapMergeSpans f xs = Some (f', m) \<and> mset m = mset xs \<and> span_inv f' \<and> hset f' = hset f \<union> set xs
        \<and> fl_cache f' = fl_cache f \<and> fl_allocs f' = fl_allocs f \<and> fl_pending f' = fl_pending f \<and> fl_type f' = fl_type f"
    if "span_inv f" "distinct xs" "set xs \<inter> hset f = {}" "\<forall>x \<in> set xs. pg_ok x" for f xs
    using hashmapMergeSpans_ok [OF that] by blast
  show "hashmapAllocate rng f t n = Some (f, 0)" if "span_inv f" "0 < n" "n < 2 ^ 63" "\<not> (\<exists>q. {q..<q + n} \<subseteq> hset f)" for f n t
    by (rule hashmapAllocate_none [OF that(1,2,4)])
  show "\<exists>f' p. hashmapAllocate rng f t n = Some (f', p) \<and> {p..<p + n} \<subseteq> hset f \<and> span_inv f' \<and> hset f' = hset f - {p..<p + n}
        \<and> fl_cache f' = fl_cache f - {p..<p + n} \<and> fl_allocs f' = (fl_allocs f)(p \<mapsto> t)
        \<and> fl_pending f' = fl_pending f \<and> fl_type f' = fl_type f"
    if "span_inv f" "0 < n" "n < 2 ^ 63" "{q..<q + n} \<subseteq> hset f" for f n q t
    by (rule hashmapAllocate_some [OF that(1,2,4)])
qed (rule hset_ok hashmapGetFreePageIDs_ok; assumption)+

interpretation ascending: map_range sorted_list_of_set
  by unfold_locales simp_all

section \<open>The transactional operations\<close>

definition fl_free_set :: "freelist \<Rightarrow> pgid set" where
  "fl_free_set f = (if fl_type f = BdbFreelistMapType then hset f else set (fl_ids f))"

definition fl_alloc_inv :: "freelist \<Rightarrow> bool" where
  "fl_alloc_inv f = (if fl_type f = BdbFreelistMapType then span_inv f else array_inv f)"

sublocale map_range \<subseteq> fl: page_allocator "fl_allocate rng" mergeSpans "getFreePageIDs rng" "free_count rng" fl_free_set fl_alloc_inv
proof
  fix f :: freelist and n t q :: nat and xs :: "nat list" and x
  note defs = fl_allocate_def mergeSpans_def getFreePageIDs_def free_count_def fl_free_set_def fl_alloc_inv_def
  assume inv: "fl_alloc_inv f"
  show "x \<in> fl_free_set f \<Longrightarrow> pg_ok x"
    using inv hm.fset_ok [of f x] arr.fset_ok [of f x] by (auto simp: defs split: if_splits)
  show "sorted_wrt (<) (getFreePageIDs rng f) \<and> set (getFreePageIDs rng f) = fl_free_set f"
    using inv hm.ids_fset [of f] arr.ids_fset [of f] by (simp add: defs split: if_splits)
  show "free_count rng f = card (fl_free_set f)"
    using inv hm.cnt_fset [of f] arr.cnt_fset [of f] by (simp add: defs split: if_splits)
  show "fl_allocate rng f t n = Some (f, 0)" if "0 < n" "n < 2 ^ 63" "\<not> (\<exists>q. {q..<q + n} \<subseteq> fl_free_set f)"
    using inv that hm.alloc_none [of f n t] arr.alloc_none [of f n t] by (simp add: defs split: if_splits)
  show "\<exists>f' p. fl_allocate rng f t n = Some (f', p) \<and> {p..<p + n} \<subseteq> fl_free_set f \<and> fl_alloc_inv f'
      \<and> fl_free_set f' = fl_free_set f - {p..<p + n} \<and> fl_cache f' = fl_cache f - {p..<p + n}
      \<and> fl_allocs f' = (fl_allocs f)(p \<mapsto> t) \<and> fl_pending f' = fl_pending f \<and> fl_type f' = fl_type f"
    if "0 < n" "n < 2 ^ 63" "{q..<q + n} \<subseteq> fl_free_set f"
  proof (cases "fl_type f = BdbFreelistMapType")
    case True
    with inv that hm.alloc_some [of f n q t] show ?thesis by (fastforce simp: defs)
  next
    case False
    with inv that arr.alloc_some [of f n q t] show ?thesis by (fastforce simp: defs)
  qed
  show "\<exists>f' m. mergeSpans f xs = Some (f', m) \<and> mset m = mset xs \<and> fl_alloc_inv f' \<and> fl_free_set f' = fl_free_set f \<union> set xs
      \<and> fl_cache f' = fl_cache f \<and> fl_allocs f' = fl_allocs f \<and> fl_pending f' = fl_pending f \<and> fl_type f' = fl_type f"
    if "distinct xs" "set xs \<inter> fl_free_set f = {}" "\<forall>x \<in> set xs. pg_ok x"
  proof (cases "fl_type f = BdbFreelistMapType")
    case True
    with inv that hm.mrg_ok [of f xs] show ?thesis by (fastforce simp: defs)
  next
    case False
    with inv that arr.mrg_ok [of f xs] show ?thesis by (fastforce simp: defs)
  qed
qed

text \<open>The pages that wait for their transaction to be released.\<close>

definition pend_set :: "freelist \<Rightarrow> pgid set" where
  "pend_set f = {x. \<exists>t txp. fl_pending f t = Some txp \<and> x \<in> set (tp_ids txp)}"

definition pend_inv :: "freelist \<Rightarrow> bool" where
  "pend_inv f \<longleftrightarrow> finite (dom (fl_pending f))
     \<and> (\<forall>t txp. fl_pending f t = Some txp \<longrightarrow>
          length (tp_alloctx txp) = length (tp_ids txp) \<and> distinct (tp_ids txp) \<and> (\<forall>x \<in> set (tp_ids txp). pg_ok x))
     \<and> (\<forall>t txp t' txp'. fl_pending f t = Some txp \<and> fl_pending f t' = Some txp' \<and> t \<noteq> t' \<longrightarrow> set (tp_ids txp) \<inter> set (tp_ids txp') = {})"

text \<open>The invariant: free and pending pages are disjoint, and the cache holds the pending pages and otherwise only free ones.
  The cache is complete when it holds all of them, which is what the check in \<^verbatim>\<open>free\<close> relies on.\<close>

definition fl_inv :: "freelist \<Rightarrow> bool" where
  "fl_inv f \<longleftrightarrow> fl_alloc_inv f \<and> pend_inv f \<and> fl_free_set f \<inter> pend_set f = {}
     \<and> pend_set f \<subseteq> fl_cache f \<and> fl_cache f \<subseteq> fl_free_set f \<union> pend_set f"

definition cache_complete :: "freelist \<Rightarrow> bool" where
  "cache_complete f \<longleftrightarrow> fl_cache f = fl_free_set f \<union> pend_set f"

lemma fl_frame [simp]:
  "fl_free_set (f\<lparr>fl_pending := p\<rparr>) = fl_free_set f" "fl_alloc_inv (f\<lparr>fl_pending := p\<rparr>) = fl_alloc_inv f"
  "fl_free_set (f\<lparr>fl_cache := c\<rparr>) = fl_free_set f" "fl_alloc_inv (f\<lparr>fl_cache := c\<rparr>) = fl_alloc_inv f"
  "fl_free_set (f\<lparr>fl_allocs := a\<rparr>) = fl_free_set f" "fl_alloc_inv (f\<lparr>fl_allocs := a\<rparr>) = fl_alloc_inv f"
  "pend_set (f\<lparr>fl_cache := c\<rparr>) = pend_set f" "pend_set (f\<lparr>fl_allocs := a\<rparr>) = pend_set f"
  "pend_inv (f\<lparr>fl_cache := c\<rparr>) = pend_inv f" "pend_inv (f\<lparr>fl_allocs := a\<rparr>) = pend_inv f"
  by (simp_all add: fl_free_set_def fl_alloc_inv_def hset_def span_inv_def array_inv_def pend_set_def pend_inv_def)

lemma pend_frame: "fl_pending g = fl_pending f \<Longrightarrow> pend_set g = pend_set f \<and> pend_inv g = pend_inv f"
  by (simp add: pend_set_def pend_inv_def)

lemma free_pages_eq:
  "distinct ids \<Longrightarrow> free_pages f txp a ids =
     (if set ids \<inter> fl_cache f = {}
      then Some (f\<lparr>fl_cache := fl_cache f \<union> set ids\<rparr>,
                 txp\<lparr>tp_ids := tp_ids txp @ ids, tp_alloctx := tp_alloctx txp @ replicate (length ids) a\<rparr>)
      else None)"
proof (induction ids arbitrary: f txp)
  case (Cons x ids)
  have "(set (x # ids) \<inter> fl_cache f = {}) = (x \<notin> fl_cache f \<and> set ids \<inter> insert x (fl_cache f) = {})" using Cons.prems by auto
  then show ?case using Cons by (simp add: insert_commute Un_commute)
qed simp

definition page_run :: "page \<Rightarrow> pgid set" where
  "page_run p = {p_id p..<p_id p + unat (p_overflow p) + 1}"

lemma pend_inv_add:
  assumes inv: "pend_inv f" and len: "length as = length ids" and d: "distinct ids" and ok: "\<forall>x \<in> set ids. pg_ok x"
    and new: "set ids \<inter> pend_set f = {}"
    and txp: "txp = (case fl_pending f t of None \<Rightarrow> \<lparr>tp_ids = [], tp_alloctx = [], tp_lastReleaseBegin = 0\<rparr> | Some txp \<Rightarrow> txp)"
  defines "g \<equiv> f\<lparr>fl_pending := (fl_pending f)(t \<mapsto> txp\<lparr>tp_ids := tp_ids txp @ ids, tp_alloctx := tp_alloctx txp @ as\<rparr>)\<rparr>"
  shows "pend_inv g" and "pend_set g = pend_set f \<union> set ids"
proof -
  have P: "length (tp_alloctx x) = length (tp_ids x)" "distinct (tp_ids x)" "\<forall>y \<in> set (tp_ids x). pg_ok y" "set (tp_ids x) \<subseteq> pend_set f"
    if "fl_pending f s = Some x" for s x
    using inv that by (auto simp: pend_inv_def pend_set_def)
  have D: "set (tp_ids x) \<inter> set (tp_ids y) = {}" if "fl_pending f s = Some x" "fl_pending f s' = Some y" "s \<noteq> s'" for s s' x y
    using inv that by (simp add: pend_inv_def)
  have T: "length (tp_alloctx txp) = length (tp_ids txp)" "distinct (tp_ids txp)" "\<forall>y \<in> set (tp_ids txp). pg_ok y" "set (tp_ids txp) \<subseteq> pend_set f"
    using P txp by (auto split: option.splits)
  have TD: "set (tp_ids txp) \<inter> set (tp_ids y) = {}" if "fl_pending f s = Some y" "s \<noteq> t" for s y
    using txp D [OF _ that(1), of t] that(2) by (auto split: option.splits)
  have g: "fl_pending g s = (if s = t then Some (txp\<lparr>tp_ids := tp_ids txp @ ids, tp_alloctx := tp_alloctx txp @ as\<rparr>) else fl_pending f s)" for s
    by (simp add: g_def)
  have "finite (dom (fl_pending g))" using inv by (simp add: g_def pend_inv_def)
  moreover have "length (tp_alloctx x) = length (tp_ids x) \<and> distinct (tp_ids x) \<and> (\<forall>y \<in> set (tp_ids x). pg_ok y)"
    if "fl_pending g s = Some x" for s x
  proof (cases "s = t")
    case True
    then have x: "x = txp\<lparr>tp_ids := tp_ids txp @ ids, tp_alloctx := tp_alloctx txp @ as\<rparr>" using that by (simp add: g)
    show ?thesis unfolding x using T len d ok new by auto
  next
    case False
    with that P [of s x] show ?thesis by (simp add: g)
  qed
  moreover have "set (tp_ids x) \<inter> set (tp_ids y) = {}" if "fl_pending g s = Some x" "fl_pending g s' = Some y" "s \<noteq> s'" for s s' x y
  proof -
    have N: "set (tp_ids z) \<inter> (set (tp_ids txp) \<union> set ids) = {}" if "fl_pending f s = Some z" "s \<noteq> t" for s z
      using TD [OF that] P(4) [OF that(1)] new by blast
    show ?thesis using that D [of s x s' y] N [of s x] N [of s' y] unfolding g by (cases "s = t"; cases "s' = t") auto
  qed
  ultimately show "pend_inv g" unfolding pend_inv_def by blast
  have "x \<in> pend_set g \<longleftrightarrow> x \<in> set (tp_ids txp) \<union> set ids \<or> (\<exists>s y. s \<noteq> t \<and> fl_pending f s = Some y \<and> x \<in> set (tp_ids y))" for x
    unfolding pend_set_def by (auto simp: g split: if_splits)
  moreover have "x \<in> pend_set f \<longleftrightarrow> x \<in> set (tp_ids txp) \<or> (\<exists>s y. s \<noteq> t \<and> fl_pending f s = Some y \<and> x \<in> set (tp_ids y))" for x
  proof (cases "fl_pending f t")
    case None
    then have "fl_pending f s = Some y \<Longrightarrow> s \<noteq> t" for s y by auto
    with None show ?thesis unfolding pend_set_def using txp by (simp, blast)
  next
    case (Some y)
    then have "txp = y" using txp by simp
    with Some show ?thesis unfolding pend_set_def by (simp, metis option.inject)
  qed
  ultimately show "pend_set g = pend_set f \<union> set ids" by blast
qed

lemma run_ids_eq:
  "p_id p + unat (p_overflow p) < 2 ^ 64 - 1 \<Longrightarrow> run_ids p = Some [p_id p..<p_id p + unat (p_overflow p) + 1]"
  by (simp add: run_ids_def pg_add_def Let_def)

lemma run_ids_cases:
  "p_id p + unat (p_overflow p) < 2 ^ 64 \<Longrightarrow> run_ids p = None \<or> run_ids p = Some [p_id p..<p_id p + unat (p_overflow p) + 1]"
  by (auto simp: run_ids_def pg_add_def Let_def)

lemma fl_free_ok:
  assumes inv: "fl_inv f" and p: "2 \<le> p_id p" "p_id p + unat (p_overflow p) < 2 ^ 64 - 2"
    and new: "page_run p \<inter> (fl_free_set f \<union> fl_cache f) = {}"
  shows "\<exists>f'. fl_free f t p = Some f' \<and> fl_inv f' \<and> fl_free_set f' = fl_free_set f \<and> pend_set f' = pend_set f \<union> page_run p
    \<and> fl_cache f' = fl_cache f \<union> page_run p"
proof -
  let ?ids = "[p_id p..<p_id p + unat (p_overflow p) + 1]"
  define txp where "txp = (case fl_pending f t of None \<Rightarrow> \<lparr>tp_ids = [], tp_alloctx = [], tp_lastReleaseBegin = 0\<rparr> | Some txp \<Rightarrow> txp)"
  define g where "g = (case fl_allocs f (p_id p) of Some t \<Rightarrow> f\<lparr>fl_allocs := (fl_allocs f)(p_id p := None)\<rparr> | None \<Rightarrow> f)"
  obtain a where e: "fl_free f t p = map_option (\<lambda>(f, txp). f\<lparr>fl_pending := (fl_pending f)(t \<mapsto> txp)\<rparr>) (free_pages g txp a ?ids)"
    using p run_ids_eq [of p] by (cases "fl_allocs f (p_id p)") (auto simp: fl_free_def Let_def txp_def g_def)
  have G: "fl_cache g = fl_cache f" "fl_free_set g = fl_free_set f" "fl_alloc_inv g = fl_alloc_inv f" "fl_pending g = fl_pending f"
    by (simp_all add: g_def split: option.split)
  have run: "set ?ids = page_run p" by (auto simp: page_run_def)
  let ?g = "g\<lparr>fl_pending := (fl_pending g)(t \<mapsto> txp\<lparr>tp_ids := tp_ids txp @ ?ids, tp_alloctx := tp_alloctx txp @ replicate (length ?ids) a\<rparr>)\<rparr>"
  let ?h = "g\<lparr>fl_cache := fl_cache f \<union> page_run p, fl_pending := fl_pending ?g\<rparr>"
  have "set ?ids \<inter> fl_cache g = {}" using new unfolding run G by blast
  then have free: "fl_free f t p = Some ?h" unfolding e using free_pages_eq [of ?ids g txp a] unfolding run G by (simp add: G)
  have "\<forall>x \<in> set ?ids. pg_ok x" using p by (auto simp: pg_ok_def)
  moreover have "set ?ids \<inter> pend_set g = {}" using inv new run pend_frame [OF G(4)] by (auto simp: fl_inv_def)
  moreover have "pend_inv g" using inv pend_frame [OF G(4)] by (simp add: fl_inv_def)
  ultimately have add: "pend_inv ?g" "pend_set ?g = pend_set f \<union> page_run p"
    using pend_inv_add [of g "replicate (length ?ids) a" ?ids txp t] txp_def run pend_frame [OF G(4)] unfolding G(4) by auto
  have h: "pend_inv ?h" "pend_set ?h = pend_set f \<union> page_run p" using add pend_frame [of ?h ?g] by simp_all
  have "fl_inv ?h" unfolding fl_inv_def h(2) using inv h(1) new G by (auto simp: fl_inv_def)
  with free h(2) G show ?thesis by simp
qed

text \<open>The check for a page that is already free: it finds every page of the cache.\<close>

lemma fl_free_panics:
  assumes "p_id p \<le> 1 \<or> page_run p \<inter> fl_cache f \<noteq> {} \<and> p_id p + unat (p_overflow p) < 2 ^ 64"
  shows "fl_free f t p = None"
proof (cases "p_id p \<le> 1")
  case False
  have "set [p_id p..<p_id p + unat (p_overflow p) + 1] = page_run p" by (auto simp: page_run_def)
  then have "free_pages g txp a [p_id p..<p_id p + unat (p_overflow p) + 1] = None" if "fl_cache g = fl_cache f" for g txp a
    using free_pages_eq [of "[p_id p..<p_id p + unat (p_overflow p) + 1]" g txp a] assms False that by simp
  then show ?thesis
    using run_ids_cases [of p] assms False by (cases "fl_allocs f (p_id p)") (auto simp: fl_free_def Let_def simp del: upt_Suc upt.simps)
qed (simp add: fl_free_def)

subsection \<open>Releasing\<close>

text \<open>A pending page with the transaction that allocated it; a transaction's pages are \<open>tp_pairs\<close>, and
  \<open>pend_pairs\<close> also tells the transaction that freed it.\<close>

definition tp_pairs :: "txPending \<Rightarrow> (pgid \<times> txid) list" where
  "tp_pairs txp = zip (tp_ids txp) (tp_alloctx txp)"

definition pend_pairs :: "freelist \<Rightarrow> (txid \<times> pgid \<times> txid) set" where
  "pend_pairs f = {(t, x, a). \<exists>txp. fl_pending f t = Some txp \<and> (x, a) \<in> set (tp_pairs txp)}"

lemma swap_remove_mset:
  assumes "i < length ps"
  shows "mset (butlast (ps[i := List.last ps])) + {#ps ! i#} = mset ps"
proof -
  have ne: "ps \<noteq> []" "ps[i := List.last ps] \<noteq> []" using assms by auto
  have l: "List.last (ps[i := List.last ps]) = List.last ps"
    using ne(1) by (cases "i = length ps - 1") (simp_all add: last_conv_nth)
  have "mset (butlast (ps[i := List.last ps])) + {#List.last ps#} = mset (ps[i := List.last ps])"
    using append_butlast_last_id [OF ne(2)] l by (metis mset_append mset.simps(1,2) add_mset_add_single)
  also have "\<dots> = mset ps - {#ps ! i#} + {#List.last ps#}" using assms by (simp add: mset_update)
  finally show ?thesis using assms by (simp add: nth_mem)
qed

lemma swap_remove_zip:
  assumes "length ys = length xs" and "i < length xs"
  shows "zip (butlast (xs[i := List.last xs])) (butlast (ys[i := List.last ys])) = butlast ((zip xs ys)[i := List.last (zip xs ys)])"
proof -
  have "List.last (zip xs ys) = (List.last xs, List.last ys)" using assms by (intro last_zip) auto
  then show ?thesis using assms by (simp add: butlast_conv_take zip_update flip: take_zip)
qed

lemma range_loop_ok:
  assumes "length (tp_alloctx txp) = length (tp_ids txp)" and "i \<le> length (tp_ids txp)"
    and "\<forall>j < i. tp_alloctx txp ! j < b \<or> e < tp_alloctx txp ! j"
  shows "\<exists>txp' rel. range_loop b e i txp m = Some (txp', m @ map fst rel)
    \<and> length (tp_alloctx txp') = length (tp_ids txp') \<and> tp_lastReleaseBegin txp' = tp_lastReleaseBegin txp
    \<and> mset (tp_pairs txp') + mset rel = mset (tp_pairs txp)
    \<and> (\<forall>p \<in> set rel. b \<le> snd p \<and> snd p \<le> e) \<and> (\<forall>p \<in> set (tp_pairs txp'). snd p < b \<or> e < snd p)"
  using assms
proof (induction b e i txp m rule: range_loop.induct)
  case (1 b e i txp m)
  let ?a = "tp_alloctx txp ! i"
  show ?case
  proof (cases "i < length (tp_ids txp)")
    case False
    then have i: "i = length (tp_ids txp)" using "1.prems"(2) by simp
    have "snd p < b \<or> e < snd p" if "p \<in> set (tp_pairs txp)" for p
      using that "1.prems"(1,3) i by (auto simp: tp_pairs_def in_set_zip)
    moreover have "range_loop b e i txp m = Some (txp, m @ map fst [])" using False by (subst range_loop.simps) simp
    ultimately show ?thesis using "1.prems"(1) by (intro exI [of _ txp] exI [of _ "[]"]) simp
  next
    case True
    have atx: "go_index (tp_alloctx txp) i = Some ?a" using True "1.prems"(1) by (simp add: go_index_def)
    show ?thesis
    proof (cases "?a < b \<or> e < ?a")
      case out: True
      have "\<forall>j < i + 1. tp_alloctx txp ! j < b \<or> e < tp_alloctx txp ! j" using out "1.prems"(3) by (auto simp: less_Suc_eq)
      from "1.IH"(1) [OF True atx out "1.prems"(1) _ this] True have IH: "\<exists>txp' rel. range_loop b e (i + 1) txp m = Some (txp', m @ map fst rel)
          \<and> length (tp_alloctx txp') = length (tp_ids txp') \<and> tp_lastReleaseBegin txp' = tp_lastReleaseBegin txp
          \<and> mset (tp_pairs txp') + mset rel = mset (tp_pairs txp)
          \<and> (\<forall>p \<in> set rel. b \<le> snd p \<and> snd p \<le> e) \<and> (\<forall>p \<in> set (tp_pairs txp'). snd p < b \<or> e < snd p)" by simp
      have "range_loop b e i txp m = range_loop b e (i + 1) txp m" using True atx out by (subst range_loop.simps) simp
      with IH show ?thesis by simp
    next
      case False
      let ?t = "txp\<lparr>tp_ids := butlast ((tp_ids txp)[i := List.last (tp_ids txp)]),
          tp_alloctx := butlast ((tp_alloctx txp)[i := List.last (tp_alloctx txp)])\<rparr>"
      have len: "length (tp_alloctx ?t) = length (tp_ids ?t)" "i \<le> length (tp_ids ?t)" using "1.prems"(1) True by auto
      have keep: "\<forall>j < i. tp_alloctx ?t ! j < b \<or> e < tp_alloctx ?t ! j" using "1.prems"(1,3) True by (simp add: nth_butlast)
      obtain txp' rel where IH: "range_loop b e i ?t (m @ [tp_ids txp ! i]) = Some (txp', (m @ [tp_ids txp ! i]) @ map fst rel)"
          "length (tp_alloctx txp') = length (tp_ids txp')" "tp_lastReleaseBegin txp' = tp_lastReleaseBegin ?t"
          "mset (tp_pairs txp') + mset rel = mset (tp_pairs ?t)"
          "\<forall>p \<in> set rel. b \<le> snd p \<and> snd p \<le> e" "\<forall>p \<in> set (tp_pairs txp'). snd p < b \<or> e < snd p"
        using "1.IH"(2) [OF True atx False len keep] by blast
      have pair: "tp_pairs txp ! i = (tp_ids txp ! i, ?a)" "i < length (tp_pairs txp)" using True "1.prems"(1) by (simp_all add: tp_pairs_def)
      have "tp_pairs ?t = butlast ((tp_pairs txp)[i := List.last (tp_pairs txp)])"
        using swap_remove_zip [OF "1.prems"(1) True] by (simp add: tp_pairs_def)
      then have "mset (tp_pairs ?t) + {#(tp_ids txp ! i, ?a)#} = mset (tp_pairs txp)"
        using swap_remove_mset [OF pair(2)] pair(1) by simp
      then have "mset (tp_pairs txp') + mset ((tp_ids txp ! i, ?a) # rel) = mset (tp_pairs txp)" using IH(4) by (simp add: add.commute)
      moreover have "range_loop b e i txp m = Some (txp', m @ map fst ((tp_ids txp ! i, ?a) # rel))"
        using True atx False IH(1) by (subst range_loop.simps) simp
      moreover have "\<forall>p \<in> set ((tp_ids txp ! i, ?a) # rel). b \<le> snd p \<and> snd p \<le> e" using IH(5) False by auto
      ultimately show ?thesis using IH(2,3,6) by (intro exI conjI) (assumption | simp)+
    qed
  qed
qed

text \<open>What \<^verbatim>\<open>releaseRange\<close> does to one transaction: \<open>q\<close> is its new entry and \<open>r\<close> what it gives up.\<close>

definition range_tx :: "txid \<Rightarrow> txid \<Rightarrow> txid \<Rightarrow> txPending \<Rightarrow> txPending option \<Rightarrow> (pgid \<times> txid) list \<Rightarrow> bool" where
  "range_tx b e t txp q r \<longleftrightarrow>
     (if t < b \<or> e < t \<or> tp_lastReleaseBegin txp = b then q = Some txp \<and> r = []
      else \<exists>txp'. length (tp_alloctx txp') = length (tp_ids txp') \<and> mset (tp_pairs txp') + mset r = mset (tp_pairs txp)
        \<and> (\<forall>p \<in> set r. b \<le> snd p \<and> snd p \<le> e) \<and> (\<forall>p \<in> set (tp_pairs txp'). snd p < b \<or> e < snd p)
        \<and> tp_lastReleaseBegin txp' = b \<and> q = (if tp_ids txp' = [] then None else Some txp'))"

lemma range_txs_ok:
  assumes "\<forall>t txp. fl_pending f t = Some txp \<longrightarrow> length (tp_alloctx txp) = length (tp_ids txp)"
    and "distinct tids" and "set tids \<subseteq> dom (fl_pending f)"
  shows "\<exists>P r. range_txs b e tids f m = Some (f\<lparr>fl_pending := P\<rparr>, m @ concat (map (\<lambda>t. map fst (r t)) tids))
    \<and> (\<forall>t. t \<notin> set tids \<longrightarrow> P t = fl_pending f t)
    \<and> (\<forall>t \<in> set tids. range_tx b e t (the (fl_pending f t)) (P t) (r t))"
  using assms
proof (induction tids arbitrary: f m)
  case Nil
  show ?case by (intro exI [of _ "fl_pending f"]) simp
next
  case (Cons t tids)
  obtain txp where txp: "fl_pending f t = Some txp" using Cons.prems(3) by auto
  show ?case
  proof (cases "t < b \<or> e < t \<or> tp_lastReleaseBegin txp = b")
    case True
    then have e: "range_txs b e (t # tids) f m = range_txs b e tids f m" using txp by simp
    have pre: "distinct tids" "set tids \<subseteq> dom (fl_pending f)" using Cons.prems(2,3) by auto
    obtain P r where IH: "range_txs b e tids f m = Some (f\<lparr>fl_pending := P\<rparr>, m @ concat (map (\<lambda>t. map fst (r t)) tids))"
        "\<forall>t. t \<notin> set tids \<longrightarrow> P t = fl_pending f t" "\<forall>t \<in> set tids. range_tx b e t (the (fl_pending f t)) (P t) (r t)"
      using Cons.IH [OF Cons.prems(1) pre, of m] by blast
    let ?r = "r(t := [])"
    have nt: "t \<notin> set tids" using Cons.prems(2) by simp
    have me: "map (\<lambda>s. map fst (?r s)) tids = map (\<lambda>s. map fst (r s)) tids" using nt by (intro map_cong) auto
    have A: "range_txs b e (t # tids) f m = Some (f\<lparr>fl_pending := P\<rparr>, m @ concat (map (\<lambda>s. map fst (?r s)) (t # tids)))"
      unfolding e IH(1) by (simp only: list.map concat.simps me fun_upd_same) simp
    have "range_tx b e t txp (P t) []" using True IH(2) nt txp by (simp add: range_tx_def)
    then have "\<forall>s \<in> set (t # tids). range_tx b e s (the (fl_pending f s)) (P s) (?r s)" using IH(3) nt txp by simp
    with A IH(2) show ?thesis by (intro exI [of _ P] exI [of _ ?r]) (simp only: list.set, blast)
  next
    case False
    have len: "length (tp_alloctx txp) = length (tp_ids txp)" using Cons.prems(1) txp by blast
    obtain txp' rel where l: "range_loop b e 0 txp m = Some (txp', m @ map fst rel)" "length (tp_alloctx txp') = length (tp_ids txp')"
        "mset (tp_pairs txp') + mset rel = mset (tp_pairs txp)"
        "\<forall>p \<in> set rel. b \<le> snd p \<and> snd p \<le> e" "\<forall>p \<in> set (tp_pairs txp'). snd p < b \<or> e < snd p"
      using range_loop_ok [OF len, of 0 b e m] by auto
    let ?x = "txp'\<lparr>tp_lastReleaseBegin := b\<rparr>"
    let ?q = "if tp_ids txp' = [] then None else Some ?x"
    let ?f = "f\<lparr>fl_pending := (fl_pending f)(t := ?q)\<rparr>"
    have e: "range_txs b e (t # tids) f m = range_txs b e tids ?f (m @ map fst rel)" using False txp l(1) by simp
    have nt: "t \<notin> set tids" using Cons.prems(2) by simp
    have pre: "\<forall>s x. fl_pending ?f s = Some x \<longrightarrow> length (tp_alloctx x) = length (tp_ids x)" "distinct tids" "set tids \<subseteq> dom (fl_pending ?f)"
      using Cons.prems l(2) nt by auto
    obtain P r where IH: "range_txs b e tids ?f (m @ map fst rel) = Some (?f\<lparr>fl_pending := P\<rparr>, (m @ map fst rel) @ concat (map (\<lambda>t. map fst (r t)) tids))"
        "\<forall>s. s \<notin> set tids \<longrightarrow> P s = fl_pending ?f s" "\<forall>s \<in> set tids. range_tx b e s (the (fl_pending ?f s)) (P s) (r s)"
      using Cons.IH [OF pre, of "m @ map fst rel"] by blast
    let ?r = "r(t := rel)"
    have me: "map (\<lambda>s. map fst (?r s)) tids = map (\<lambda>s. map fst (r s)) tids" using nt by (intro map_cong) auto
    have A: "range_txs b e (t # tids) f m = Some (f\<lparr>fl_pending := P\<rparr>, m @ concat (map (\<lambda>s. map fst (?r s)) (t # tids)))"
      unfolding e IH(1) by (simp only: list.map concat.simps me fun_upd_same) simp
    have B: "\<forall>s. s \<notin> set (t # tids) \<longrightarrow> P s = fl_pending f s" using IH(2) by auto
    have x: "tp_pairs ?x = tp_pairs txp'" by (simp add: tp_pairs_def)
    have "P t = (if tp_ids ?x = [] then None else Some ?x)" using IH(2) nt by simp
    then have "\<exists>txp'. length (tp_alloctx txp') = length (tp_ids txp') \<and> mset (tp_pairs txp') + mset rel = mset (tp_pairs txp)
        \<and> (\<forall>p \<in> set rel. b \<le> snd p \<and> snd p \<le> e) \<and> (\<forall>p \<in> set (tp_pairs txp'). snd p < b \<or> e < snd p)
        \<and> tp_lastReleaseBegin txp' = b \<and> P t = (if tp_ids txp' = [] then None else Some txp')"
      using l(2-5) by (intro exI [of _ ?x] conjI) (simp_all add: x)
    then have t: "range_tx b e t txp (P t) rel" unfolding range_tx_def if_not_P [OF False] .
    have "range_tx b e s (the (fl_pending f s)) (P s) (?r s)" if "s \<in> set (t # tids)" for s
    proof (cases "s = t")
      case True
      with t txp show ?thesis by simp
    next
      case False
      with that IH(3) show ?thesis by auto
    qed
    with A B show ?thesis by (intro exI [of _ P] exI [of _ ?r]) blast
  qed
qed

lemma map_fst_pairs: "length (tp_alloctx txp) = length (tp_ids txp) \<Longrightarrow> map fst (tp_pairs txp) = tp_ids txp"
  by (simp add: tp_pairs_def)

lemma pairs_ids:
  assumes "mset (tp_pairs txp') + mset r = mset (tp_pairs txp)" and "length (tp_alloctx txp') = length (tp_ids txp')"
    and "length (tp_alloctx txp) = length (tp_ids txp)"
  shows "mset (tp_ids txp') + mset (map fst r) = mset (tp_ids txp)"
  using arg_cong [OF assms(1), of "image_mset fst"] map_fst_pairs [OF assms(2)] map_fst_pairs [OF assms(3)]
  by (metis image_mset_union mset_map)

text \<open>A step that takes the pages \<open>m\<close> out of the pending transactions and gives them to the allocator.\<close>

lemma removed_inv:
  assumes inv: "pend_inv f"
    and sub: "\<forall>t x. P t = Some x \<longrightarrow> (\<exists>txp r. fl_pending f t = Some txp \<and> length (tp_alloctx x) = length (tp_ids x)
        \<and> mset (tp_pairs x) + mset r = mset (tp_pairs txp))"
  shows "pend_inv (f\<lparr>fl_pending := P\<rparr>)" and "pend_set (f\<lparr>fl_pending := P\<rparr>) \<subseteq> pend_set f"
    and "pend_pairs (f\<lparr>fl_pending := P\<rparr>) \<subseteq> pend_pairs f"
proof -
  have old: "\<exists>txp. fl_pending f t = Some txp \<and> length (tp_alloctx x) = length (tp_ids x) \<and> distinct (tp_ids x)
      \<and> set (tp_ids x) \<subseteq> set (tp_ids txp) \<and> set (tp_pairs x) \<subseteq> set (tp_pairs txp)" if Pt: "P t = Some x" for t x
  proof -
    obtain txp r where t: "fl_pending f t = Some txp" "length (tp_alloctx x) = length (tp_ids x)"
        "mset (tp_pairs x) + mset r = mset (tp_pairs txp)" using sub Pt by blast
    have l: "length (tp_alloctx txp) = length (tp_ids txp)" "distinct (tp_ids txp)" using inv t(1) by (auto simp: pend_inv_def)
    have ids: "mset (tp_ids x) + mset (map fst r) = mset (tp_ids txp)" by (rule pairs_ids [OF t(3,2) l(1)])
    have "distinct (tp_ids x @ map fst r)" using l(2) ids by (metis mset_append mset_eq_imp_distinct_iff)
    moreover have "set (tp_ids x) \<subseteq> set (tp_ids txp)" using arg_cong [OF ids, of set_mset] by auto
    moreover have "set (tp_pairs x) \<subseteq> set (tp_pairs txp)" using arg_cong [OF t(3), of set_mset] by auto
    ultimately show ?thesis using t by auto
  qed
  have "dom P \<subseteq> dom (fl_pending f)" using old by blast
  then have "finite (dom P)" using inv finite_subset by (auto simp: pend_inv_def)
  moreover have "length (tp_alloctx x) = length (tp_ids x) \<and> distinct (tp_ids x) \<and> (\<forall>y \<in> set (tp_ids x). pg_ok y)" if "P t = Some x" for t x
    using old [OF that] inv unfolding pend_inv_def by blast
  moreover have "set (tp_ids x) \<inter> set (tp_ids y) = {}" if P: "P t = Some x" "P t' = Some y" "t \<noteq> t'" for t t' x y
  proof -
    obtain x' y' where o: "fl_pending f t = Some x'" "set (tp_ids x) \<subseteq> set (tp_ids x')" "fl_pending f t' = Some y'" "set (tp_ids y) \<subseteq> set (tp_ids y')"
      using old [OF P(1)] old [OF P(2)] by blast
    have "set (tp_ids x') \<inter> set (tp_ids y') = {}" using inv o(1,3) P(3) unfolding pend_inv_def by blast
    with o(2,4) show ?thesis by blast
  qed
  ultimately show "pend_inv (f\<lparr>fl_pending := P\<rparr>)" unfolding pend_inv_def by (simp, blast)
  show "pend_set (f\<lparr>fl_pending := P\<rparr>) \<subseteq> pend_set f" "pend_pairs (f\<lparr>fl_pending := P\<rparr>) \<subseteq> pend_pairs f"
    using old by (fastforce simp: pend_set_def pend_pairs_def)+
qed

text \<open>A change of the pending transactions in which each one gives up the pages \<open>r t\<close>.\<close>

definition gives_up :: "freelist \<Rightarrow> (txid \<rightharpoonup> txPending) \<Rightarrow> (txid \<Rightarrow> (pgid \<times> txid) list) \<Rightarrow> bool" where
  "gives_up f P r \<longleftrightarrow>
     (\<forall>t. case fl_pending f t of
        None \<Rightarrow> P t = None \<and> r t = []
      | Some txp \<Rightarrow> \<exists>x. length (tp_alloctx x) = length (tp_ids x) \<and> mset (tp_pairs x) + mset (r t) = mset (tp_pairs txp)
          \<and> (P t = Some x \<or> P t = None \<and> tp_ids x = []))"

lemma gives_upD:
  assumes "gives_up f P r"
  shows "fl_pending f t = None \<Longrightarrow> P t = None \<and> r t = []"
    and "fl_pending f t = Some txp \<Longrightarrow> \<exists>x. length (tp_alloctx x) = length (tp_ids x) \<and> mset (tp_pairs x) + mset (r t) = mset (tp_pairs txp)
          \<and> (P t = Some x \<or> P t = None \<and> tp_ids x = [])"
  using spec [OF assms [unfolded gives_up_def], of t] by simp_all

lemma gives_up_tx:
  assumes inv: "pend_inv f" and g: "gives_up f P r" and t: "fl_pending f t = Some txp"
  shows "distinct (map fst (r t))" and "fst ` set (r t) \<subseteq> set (tp_ids txp)" and "set (r t) \<subseteq> set (tp_pairs txp)"
    and "set (tp_ids txp) - fst ` set (r t) = (case P t of None \<Rightarrow> {} | Some x \<Rightarrow> set (tp_ids x))"
    and "set (tp_pairs txp) - set (r t) = (case P t of None \<Rightarrow> {} | Some x \<Rightarrow> set (tp_pairs x))"
proof -
  obtain x where x: "length (tp_alloctx x) = length (tp_ids x)" "mset (tp_pairs x) + mset (r t) = mset (tp_pairs txp)"
      "P t = Some x \<or> P t = None \<and> tp_ids x = []"
    using gives_upD(2) [OF g t] by blast
  have l: "length (tp_alloctx txp) = length (tp_ids txp)" "distinct (tp_ids txp)" using inv t by (auto simp: pend_inv_def)
  have ids: "mset (tp_ids x @ map fst (r t)) = mset (tp_ids txp)" using pairs_ids [OF x(2,1) l(1)] by simp
  then have d: "distinct (tp_ids x @ map fst (r t))" using l(2) by (metis mset_eq_imp_distinct_iff)
  have s: "set (tp_ids txp) = set (tp_ids x) \<union> fst ` set (r t)" using arg_cong [OF ids, of set_mset] by simp
  have sp: "set (tp_pairs txp) = set (tp_pairs x) \<union> set (r t)" using arg_cong [OF x(2), of set_mset] by simp
  have dp: "set (tp_pairs x) \<inter> set (r t) = {}"
  proof (rule ccontr)
    assume "set (tp_pairs x) \<inter> set (r t) \<noteq> {}"
    then obtain p where "p \<in> set (tp_pairs x)" "p \<in> set (r t)" by blast
    then have "fst p \<in> set (tp_ids x)" "fst p \<in> fst ` set (r t)" using arg_cong [OF map_fst_pairs [OF x(1)], of set] by auto
    with d show False by auto
  qed
  have nil: "tp_ids x = [] \<Longrightarrow> tp_pairs x = []" by (simp add: tp_pairs_def)
  show "distinct (map fst (r t))" "fst ` set (r t) \<subseteq> set (tp_ids txp)" "set (r t) \<subseteq> set (tp_pairs txp)" using d s sp by auto
  show "set (tp_ids txp) - fst ` set (r t) = (case P t of None \<Rightarrow> {} | Some x \<Rightarrow> set (tp_ids x))" 
  proof -
    have "set (tp_ids x) \<inter> fst ` set (r t) = {}" using d by simp
    then have "set (tp_ids txp) - fst ` set (r t) = set (tp_ids x)" unfolding s by blast
    then show ?thesis using x(3) by auto
  qed
  show "set (tp_pairs txp) - set (r t) = (case P t of None \<Rightarrow> {} | Some x \<Rightarrow> set (tp_pairs x))" using sp dp x(3) nil by auto
qed

lemma gives_up_ok:
  assumes inv: "pend_inv f" and g: "gives_up f P r"
  shows "pend_inv (f\<lparr>fl_pending := P\<rparr>)" and "pend_set (f\<lparr>fl_pending := P\<rparr>) \<subseteq> pend_set f"
    and "pend_pairs (f\<lparr>fl_pending := P\<rparr>) = pend_pairs f - {(t, p). p \<in> set (r t)}"
    and "(\<Union>t \<in> dom (fl_pending f). fst ` set (r t)) = pend_set f - pend_set (f\<lparr>fl_pending := P\<rparr>)"
    and "distinct tids \<Longrightarrow> set tids \<subseteq> dom (fl_pending f) \<Longrightarrow> distinct (concat (map (\<lambda>t. map fst (r t)) tids))"
    and "\<forall>x \<in> pend_set f. pg_ok x"
proof -
  have none: "P t = None \<and> r t = []" if "fl_pending f t = None" for t by (rule gives_upD(1) [OF g that])
  have "\<exists>txp r. fl_pending f t = Some txp \<and> length (tp_alloctx x) = length (tp_ids x) \<and> mset (tp_pairs x) + mset r = mset (tp_pairs txp)"
    if "P t = Some x" for t x
  proof (cases "fl_pending f t")
    case None
    with none that show ?thesis by auto
  next
    case (Some txp)
    from gives_upD(2) [OF g this] that obtain y where "P t = Some y" "length (tp_alloctx y) = length (tp_ids y)"
        "mset (tp_pairs y) + mset (r t) = mset (tp_pairs txp)" by auto
    with that Some show ?thesis by auto
  qed
  then show "pend_inv (f\<lparr>fl_pending := P\<rparr>)" "pend_set (f\<lparr>fl_pending := P\<rparr>) \<subseteq> pend_set f"
    using removed_inv [OF inv, of P] by blast+
  have disj: "fst ` set (r t) \<inter> set (tp_ids y) = {}" if "fl_pending f t = Some x" "fl_pending f t' = Some y" "t \<noteq> t'" for t t' x y
  proof -
    have "set (tp_ids x) \<inter> set (tp_ids y) = {}" using inv that unfolding pend_inv_def by blast
    with gives_up_tx(2) [OF inv g that(1)] show ?thesis by blast
  qed
  show "pend_pairs (f\<lparr>fl_pending := P\<rparr>) = pend_pairs f - {(t, p). p \<in> set (r t)}"
  proof (intro set_eqI)
    fix q :: "txid \<times> pgid \<times> txid"
    obtain t x a where q: "q = (t, x, a)" by (cases q) auto
    show "q \<in> pend_pairs (f\<lparr>fl_pending := P\<rparr>) \<longleftrightarrow> q \<in> pend_pairs f - {(t, p). p \<in> set (r t)}"
    proof (cases "fl_pending f t")
      case None
      with none [of t] show ?thesis by (auto simp: q pend_pairs_def)
    next
      case (Some txp)
      from gives_up_tx(5) [OF inv g this] show ?thesis
        by (auto simp: q pend_pairs_def Some split: option.splits)
    qed
  qed
  show "(\<Union>t \<in> dom (fl_pending f). fst ` set (r t)) = pend_set f - pend_set (f\<lparr>fl_pending := P\<rparr>)"
  proof (intro set_eqI iffI)
    fix x assume "x \<in> (\<Union>t \<in> dom (fl_pending f). fst ` set (r t))"
    then obtain t txp where t: "fl_pending f t = Some txp" "x \<in> fst ` set (r t)" by auto
    have "x \<in> pend_set f" using t gives_up_tx(2) [OF inv g t(1)] by (auto simp: pend_set_def)
    moreover have "x \<notin> set (tp_ids y)" if "P t' = Some y" for t' y
    proof (cases "t' = t")
      case True
      with that gives_up_tx(4) [OF inv g t(1)] t(2) show ?thesis by auto
    next
      case False
      have "fl_pending f t' \<noteq> None" using that none [of t'] by auto
      then obtain y' where y': "fl_pending f t' = Some y'" by blast
      have "set (tp_ids y) \<subseteq> set (tp_ids y')" using gives_up_tx(4) [OF inv g y'] that by auto
      with disj [OF t(1) y'] False t(2) show ?thesis by blast
    qed
    ultimately show "x \<in> pend_set f - pend_set (f\<lparr>fl_pending := P\<rparr>)" by (auto simp: pend_set_def)
  next
    fix x assume x: "x \<in> pend_set f - pend_set (f\<lparr>fl_pending := P\<rparr>)"
    then obtain t txp where t: "fl_pending f t = Some txp" "x \<in> set (tp_ids txp)" by (auto simp: pend_set_def)
    have "x \<notin> (case P t of None \<Rightarrow> {} | Some y \<Rightarrow> set (tp_ids y))" using x by (auto simp: pend_set_def split: option.split)
    then have "x \<in> fst ` set (r t)" using gives_up_tx(4) [OF inv g t(1)] t(2) by blast
    with t(1) show "x \<in> (\<Union>t \<in> dom (fl_pending f). fst ` set (r t))" by blast
  qed
  show "distinct (concat (map (\<lambda>t. map fst (r t)) tids))" if d: "distinct tids" "set tids \<subseteq> dom (fl_pending f)"
  proof (rule disjoint_concat_distinct [OF d(1)])
    show "\<forall>s \<in> set tids. distinct (map fst (r s))" using gives_up_tx(1) [OF inv g] d(2) by blast
    show "\<forall>s \<in> set tids. \<forall>t \<in> set tids. s \<noteq> t \<longrightarrow> set (map fst (r s)) \<inter> set (map fst (r t)) = {}"
    proof (intro ballI impI)
      fix s t assume "s \<in> set tids" "t \<in> set tids" "s \<noteq> t"
      then obtain x y where "fl_pending f s = Some x" "fl_pending f t = Some y" using d(2) by blast
      with disj [of s x t y] gives_up_tx(2) [OF inv g, of t y] \<open>s \<noteq> t\<close> show "set (map fst (r s)) \<inter> set (map fst (r t)) = {}" by auto
    qed
  qed
  show "\<forall>x \<in> pend_set f. pg_ok x" using inv by (auto simp: pend_inv_def pend_set_def)
qed

lemma pend_pairs_frame: "fl_pending g = fl_pending f \<Longrightarrow> pend_pairs g = pend_pairs f"
  by (simp add: pend_pairs_def)

lemma cache_complete_released:
  "cache_complete f \<Longrightarrow> fl_cache g = fl_cache f \<Longrightarrow> fl_free_set g = fl_free_set f \<union> M \<Longrightarrow> pend_set g = pend_set f - M \<Longrightarrow> M \<subseteq> pend_set f \<Longrightarrow>
     cache_complete g"
  by (auto simp: cache_complete_def)

text \<open>The outcome of a release: the pages \<open>M\<close> move from the pending transactions to the allocator.\<close>

definition released :: "freelist \<Rightarrow> freelist \<Rightarrow> pgid set \<Rightarrow> bool" where
  "released f f' M \<longleftrightarrow> fl_inv f' \<and> M \<subseteq> pend_set f \<and> pend_set f' = pend_set f - M \<and> fl_free_set f' = fl_free_set f \<union> M
     \<and> pend_pairs f' \<subseteq> pend_pairs f \<and> M = {x. \<exists>t a. (t, x, a) \<in> pend_pairs f - pend_pairs f'} \<and> fl_cache f' = fl_cache f"

context map_range
begin

lemma merge_released:
  assumes inv: "fl_inv f" and g: "gives_up f P r" and tids: "distinct tids" "set tids \<subseteq> dom (fl_pending f)"
    and rest: "\<forall>t. t \<notin> set tids \<longrightarrow> r t = []"
  shows "\<exists>f' m. mergeSpans (f\<lparr>fl_pending := P\<rparr>) (concat (map (\<lambda>t. map fst (r t)) tids)) = Some (f', m)
    \<and> released f f' (set m) \<and> fl_pending f' = P \<and> pend_pairs f' = pend_pairs f - {(t, p). p \<in> set (r t)}"
proof -
  let ?g = "f\<lparr>fl_pending := P\<rparr>" and ?m = "concat (map (\<lambda>t. map fst (r t)) tids)"
  have pi: "pend_inv f" and ai: "fl_alloc_inv f" using inv by (simp_all add: fl_inv_def)
  note G = gives_up_ok [OF pi g]
  have m: "set ?m = (\<Union>t \<in> dom (fl_pending f). fst ` set (r t))"
  proof -
    have "(\<Union>t \<in> dom (fl_pending f). fst ` set (r t)) = (\<Union>t \<in> set tids. fst ` set (r t))" using tids(2) rest by fastforce
    then show ?thesis by simp
  qed
  have M: "set ?m = pend_set f - pend_set ?g" unfolding m by (rule G(4))
  have "set ?m \<inter> fl_free_set ?g = {}" "\<forall>x \<in> set ?m. pg_ok x" using M inv G(6) by (auto simp: fl_inv_def)
  then obtain f' m' where f': "mergeSpans ?g ?m = Some (f', m')" "mset m' = mset ?m" "fl_alloc_inv f'" "fl_free_set f' = fl_free_set f \<union> set ?m"
      "fl_cache f' = fl_cache f" "fl_pending f' = P"
    using fl.mrg_ok [of ?g ?m] ai G(5) [OF tids] by auto
  have sm: "set m' = set ?m" using f'(2) by (metis set_mset_mset)
  have P: "pend_set f' = pend_set ?g" "pend_inv f'" using pend_frame [of f' ?g] f'(6) G(1) by simp_all
  have pp: "pend_pairs f' = pend_pairs f - {(t, p). p \<in> set (r t)}" using pend_pairs_frame [of f' ?g] f'(6) G(3) by simp
  have img: "set ?m = {x. \<exists>t a. (t, x, a) \<in> pend_pairs f - pend_pairs f'}"
  proof (intro set_eqI iffI)
    fix x assume "x \<in> set ?m"
    then obtain t p where "p \<in> set (r t)" "t \<in> dom (fl_pending f)" "x = fst p" unfolding m by blast
    then obtain a where t: "(x, a) \<in> set (r t)" "t \<in> dom (fl_pending f)" by (metis prod.collapse)
    then obtain txp where txp: "fl_pending f t = Some txp" by auto
    have "(t, x, a) \<in> pend_pairs f" using gives_up_tx(3) [OF pi g txp] t(1) txp by (auto simp: pend_pairs_def)
    with t(1) show "x \<in> {x. \<exists>t a. (t, x, a) \<in> pend_pairs f - pend_pairs f'}" unfolding pp by blast
  next
    fix x assume "x \<in> {x. \<exists>t a. (t, x, a) \<in> pend_pairs f - pend_pairs f'}"
    then obtain t a where t: "(t, x, a) \<in> pend_pairs f" "(x, a) \<in> set (r t)" unfolding pp by blast
    then have "t \<in> dom (fl_pending f)" by (auto simp: pend_pairs_def)
    moreover have "x \<in> fst ` set (r t)" using imageI [OF t(2), of fst] by simp
    ultimately show "x \<in> set ?m" unfolding m by blast
  qed
  have "fl_inv f'" unfolding fl_inv_def P(1) using inv f' P(2) M G(2) by (auto simp: fl_inv_def)
  then have "released f f' (set m')"
    unfolding released_def sm P(1)
  proof (intro conjI)
    show "set ?m = {x. \<exists>t a. (t, x, a) \<in> pend_pairs f - pend_pairs f'}" by (rule img)
    show "fl_free_set f' = fl_free_set f \<union> set ?m" "fl_cache f' = fl_cache f" by (fact f'(4) f'(5))+
    show "set ?m \<subseteq> pend_set f" "pend_set ?g = pend_set f - set ?m" using M G(2) by blast+
    show "pend_pairs f' \<subseteq> pend_pairs f" unfolding pp by blast
  qed
  with f'(1,6) pp show ?thesis by blast
qed

lemma fl_release_ok:
  assumes inv: "fl_inv f"
  shows "\<exists>f' m. fl_release rng f txid = Some (f', m) \<and> released f f' (set m) \<and> pend_pairs f' = {(t, p) \<in> pend_pairs f. txid < t}"
proof -
  let ?D = "dom (fl_pending f)"
  have fin: "finite ?D" and pi: "pend_inv f" using inv by (simp_all add: fl_inv_def pend_inv_def)
  define tids where "tids = filter (\<lambda>t. t \<le> txid) (rng ?D)"
  define P where "P = fl_pending f |` (- set tids)"
  define r where "r t = (if t \<in> set tids then tp_pairs (the (fl_pending f t)) else [])" for t
  have st: "set tids = {t \<in> ?D. t \<le> txid}" "distinct tids" using fin by (auto simp: tids_def)
  have "gives_up f P r"
    unfolding gives_up_def
  proof (rule allI)
    fix t
    show "case fl_pending f t of None \<Rightarrow> P t = None \<and> r t = []
      | Some txp \<Rightarrow> \<exists>x. length (tp_alloctx x) = length (tp_ids x) \<and> mset (tp_pairs x) + mset (r t) = mset (tp_pairs txp)
          \<and> (P t = Some x \<or> P t = None \<and> tp_ids x = [])"
    proof (cases "fl_pending f t")
      case None
      then show ?thesis using st(1) by (auto simp: P_def r_def restrict_map_def)
    next
      case (Some txp)
      have "length (tp_alloctx txp) = length (tp_ids txp)" using pi Some by (auto simp: pend_inv_def)
      then show ?thesis
        using Some by (cases "t \<in> set tids")
          (auto simp: P_def r_def tp_pairs_def intro: exI [of _ "\<lparr>tp_ids = [], tp_alloctx = [], tp_lastReleaseBegin = 0\<rparr>"] exI [of _ txp])
    qed
  qed
  note mr = merge_released [OF inv this st(2)]
  have len: "length (tp_alloctx txp) = length (tp_ids txp)" if "fl_pending f t = Some txp" for t txp using pi that by (auto simp: pend_inv_def)
  have "concat (map (\<lambda>t. map fst (r t)) tids) = concat (map (\<lambda>t. tp_ids (the (fl_pending f t))) tids)"
  proof (rule arg_cong [of _ _ concat], rule map_cong)
    fix t assume "t \<in> set tids"
    then show "map fst (r t) = tp_ids (the (fl_pending f t))" using st(1) len map_fst_pairs by (auto simp: r_def)
  qed simp
  then have "fl_release rng f txid = mergeSpans (f\<lparr>fl_pending := P\<rparr>) (concat (map (\<lambda>t. map fst (r t)) tids))"
    by (simp add: fl_release_def Let_def P_def flip: tids_def)
  moreover have "pend_pairs f - {(t, p). p \<in> set (r t)} = {(t, p) \<in> pend_pairs f. txid < t}"
    using st(1) by (auto simp: r_def pend_pairs_def split: if_splits)
  moreover have "\<forall>t. t \<notin> set tids \<longrightarrow> r t = []" by (simp add: r_def)
  moreover have "set tids \<subseteq> ?D" unfolding st(1) by blast
  ultimately show ?thesis using mr by (simp, blast)
qed

lemma releaseRange_ok:
  assumes inv: "fl_inv f"
  shows "\<exists>f' m. releaseRange rng f b e = Some (f', m) \<and> released f f' (set m)
    \<and> (\<forall>(t, x, a) \<in> pend_pairs f - pend_pairs f'. b \<le> t \<and> t \<le> e \<and> b \<le> a \<and> a \<le> e)
    \<and> (\<forall>(t, x, a) \<in> pend_pairs f'. b \<le> t \<and> t \<le> e \<and> b \<le> a \<and> a \<le> e \<longrightarrow> (\<exists>txp. fl_pending f t = Some txp \<and> tp_lastReleaseBegin txp = b))"
proof (cases "b > e")
  case True
  then have "releaseRange rng f b e = Some (f, [])" by (simp add: releaseRange_def)
  moreover have "released f f {}" using inv by (auto simp: released_def)
  ultimately show ?thesis using True by auto
next
  case False
  let ?D = "dom (fl_pending f)"
  have fin: "finite ?D" and pi: "pend_inv f" using inv by (simp_all add: fl_inv_def pend_inv_def)
  have len: "\<forall>t txp. fl_pending f t = Some txp \<longrightarrow> length (tp_alloctx txp) = length (tp_ids txp)" using pi by (auto simp: pend_inv_def)
  obtain P r0 where R: "range_txs b e (rng ?D) f [] = Some (f\<lparr>fl_pending := P\<rparr>, concat (map (\<lambda>t. map fst (r0 t)) (rng ?D)))"
      "\<forall>t. t \<notin> ?D \<longrightarrow> P t = fl_pending f t" "\<forall>t \<in> ?D. range_tx b e t (the (fl_pending f t)) (P t) (r0 t)"
    using range_txs_ok [OF len, of "rng ?D" b e "[]"] fin by auto
  define r where "r t = (if t \<in> ?D then r0 t else [])" for t
  have same: "concat (map (\<lambda>t. map fst (r0 t)) (rng ?D)) = concat (map (\<lambda>t. map fst (r t)) (rng ?D))"
    by (rule arg_cong [of _ _ concat], rule map_cong) (use fin in \<open>auto simp: r_def\<close>)
  have tx: "range_tx b e t txp (P t) (r t)" if "fl_pending f t = Some txp" for t txp
  proof -
    have "t \<in> ?D" using that by blast
    then have "range_tx b e t (the (fl_pending f t)) (P t) (r0 t)" using R(3) by blast
    with \<open>t \<in> ?D\<close> that show ?thesis by (simp add: r_def)
  qed
  have "gives_up f P r"
    unfolding gives_up_def
  proof (rule allI)
    fix t
    show "case fl_pending f t of None \<Rightarrow> P t = None \<and> r t = []
      | Some txp \<Rightarrow> \<exists>x. length (tp_alloctx x) = length (tp_ids x) \<and> mset (tp_pairs x) + mset (r t) = mset (tp_pairs txp)
          \<and> (P t = Some x \<or> P t = None \<and> tp_ids x = [])"
    proof (cases "fl_pending f t")
      case None
      then show ?thesis using R(2) by (auto simp: r_def)
    next
      case (Some txp)
      have "\<exists>x. length (tp_alloctx x) = length (tp_ids x) \<and> mset (tp_pairs x) + mset (r t) = mset (tp_pairs txp)
          \<and> (P t = Some x \<or> P t = None \<and> tp_ids x = [])"
      proof (cases "t < b \<or> e < t \<or> tp_lastReleaseBegin txp = b")
        case True
        then have "P t = Some txp" "r t = []" using tx [OF Some] by (simp_all add: range_tx_def)
        with len Some show ?thesis by (intro exI [of _ txp]) simp
      next
        case False
        from tx [OF Some, unfolded range_tx_def if_not_P [OF False]] show ?thesis by (elim exE) (intro exI conjI; auto)
      qed
      with Some show ?thesis by simp
    qed
  qed
  from merge_released [OF inv this, of "rng ?D"] fin obtain f' m where
    f': "mergeSpans (f\<lparr>fl_pending := P\<rparr>) (concat (map (\<lambda>t. map fst (r t)) (rng ?D))) = Some (f', m)"
      "released f f' (set m)" "fl_pending f' = P" "pend_pairs f' = pend_pairs f - {(t, p). p \<in> set (r t)}"
    by (auto simp: r_def)
  have e: "releaseRange rng f b e = Some (f', m)" using False R(1) f'(1) same by (simp add: releaseRange_def)
  have "b \<le> t \<and> t \<le> e \<and> b \<le> a \<and> a \<le> e" if "(t, x, a) \<in> pend_pairs f - pend_pairs f'" for t x a
  proof -
    have ra: "(x, a) \<in> set (r t)" and "t \<in> ?D" using that unfolding f'(4) by (auto simp: pend_pairs_def)
    then obtain txp where "fl_pending f t = Some txp" by auto
    from tx [OF this] ra show ?thesis unfolding range_tx_def by (auto split: if_splits)
  qed
  moreover have "\<exists>txp. fl_pending f t = Some txp \<and> tp_lastReleaseBegin txp = b"
    if pr: "(t, x, a) \<in> pend_pairs f'" "b \<le> t" "t \<le> e" "b \<le> a" "a \<le> e" for t x a
  proof -
    obtain y where y: "P t = Some y" "(x, a) \<in> set (tp_pairs y)" using pr(1) f'(3) by (auto simp: pend_pairs_def)
    have "fl_pending f t \<noteq> None" using R(2) y(1) by (metis domIff option.distinct(1))
    then obtain txp where txp: "fl_pending f t = Some txp" by blast
    have "tp_lastReleaseBegin txp = b" using tx [OF txp] y pr(2-5) unfolding range_tx_def by (auto split: if_splits)
    with txp show ?thesis by blast
  qed
  ultimately show ?thesis using e f'(2) by blast
qed

end

lemma released_trans:
  assumes "released f g M" and "released g h N"
  shows "released f h (M \<union> N)"
proof -
  have f: "M \<subseteq> pend_set f" "pend_set g = pend_set f - M" "fl_free_set g = fl_free_set f \<union> M" "pend_pairs g \<subseteq> pend_pairs f"
      "M = {x. \<exists>t a. (t, x, a) \<in> pend_pairs f - pend_pairs g}" "fl_cache g = fl_cache f"
    using assms(1) unfolding released_def by - (elim conjE, assumption)+
  have g: "fl_inv h" "N \<subseteq> pend_set g" "pend_set h = pend_set g - N" "fl_free_set h = fl_free_set g \<union> N" "pend_pairs h \<subseteq> pend_pairs g"
      "N = {x. \<exists>t a. (t, x, a) \<in> pend_pairs g - pend_pairs h}" "fl_cache h = fl_cache g"
    using assms(2) unfolding released_def by - (elim conjE, assumption)+
  have "M \<union> N = {x. \<exists>t a. (t, x, a) \<in> pend_pairs f - pend_pairs h}" unfolding f(5) g(6) using f(4) g(5) by blast
  moreover have "M \<union> N \<subseteq> pend_set f" "pend_set h = pend_set f - (M \<union> N)" using f(1,2) g(2,3) by blast+
  moreover have "fl_free_set h = fl_free_set f \<union> (M \<union> N)" "fl_cache h = fl_cache f" "pend_pairs h \<subseteq> pend_pairs f"
    using f(3,4,6) g(4,5,7) by auto
  ultimately show ?thesis unfolding released_def using g(1) by blast
qed

lemma released_refl: "fl_inv f \<Longrightarrow> released f f {}"
  by (auto simp: released_def)

section \<open>Releasing under open readers\<close>

text \<open>\<^verbatim>\<open>DB.freePages\<close>: what no open reader can see is released. The result is the list of page ids that is
  handed on; \<open>m2\<close> is overwritten in every round of the loop over the readers, as in the source.\<close>

fun free_between :: "map_range_order \<Rightarrow> freelist \<Rightarrow> txid \<Rightarrow> txid list \<Rightarrow> pgid list \<Rightarrow> (freelist \<times> txid \<times> pgid list) option" where
  "free_between rng f minid [] m2 = Some (f, minid, m2)"
| "free_between rng f minid (t # ts) m2 =
     do {
       (f, m2) \<leftarrow> releaseRange rng f minid (pg_sub t 1);
       free_between rng f (pg_add t 1) ts m2
     }"

definition freePages :: "map_range_order \<Rightarrow> freelist \<Rightarrow> txid list \<Rightarrow> (freelist \<times> pgid list) option" where
  "freePages rng f txs =
     (let txs = sort txs; minid = (case txs of [] \<Rightarrow> 2 ^ 64 - 1 | t # _ \<Rightarrow> t) in
      do {
        (f, m1) \<leftarrow> (if minid > 0 then fl_release rng f (pg_sub minid 1) else Some (f, []));
        (f, minid, m2) \<leftarrow> free_between rng f minid txs [];
        (f, m3) \<leftarrow> releaseRange rng f minid (2 ^ 64 - 1);
        Some (f, rev (remdups (rev (m1 @ m2 @ m3))))
      })"

text \<open>A reader at transaction \<open>r\<close> sees the pages that were allocated at \<open>r\<close> or before and freed after it.\<close>

definition visible :: "txid \<Rightarrow> txid \<times> pgid \<times> txid \<Rightarrow> bool" where
  "visible r = (\<lambda>(t, x, a). a \<le> r \<and> r < t)"

context map_range
begin

lemma free_between_ok:
  assumes "fl_inv f" and "sorted ts" and "\<forall>r \<in> set ts. 0 < r \<and> r < 2 ^ 64 - 1 \<and> b \<le> r + 1"
  shows "\<exists>f' b' m' M. free_between rng f b ts m = Some (f', b', m') \<and> released f f' M
    \<and> (\<forall>q \<in> pend_pairs f - pend_pairs f'. \<forall>r. r < b \<or> r \<in> set ts \<longrightarrow> \<not> visible r q)
    \<and> b \<le> b' \<and> (\<forall>r \<in> set ts. r < b')"
  using assms
proof (induction ts arbitrary: f b m)
  case Nil
  then show ?case using released_refl by (auto intro!: exI [of _ "{}"])
next
  case (Cons t ts)
  have t: "0 < t" "t < 2 ^ 64 - 1" "b \<le> t + 1" and ts: "\<forall>r \<in> set ts. t \<le> r" using Cons.prems(2,3) by auto
  have arith: "pg_sub t 1 = t - 1" "pg_add t 1 = t + 1" using t by simp_all
  obtain g m1 where g: "releaseRange rng f b (t - 1) = Some (g, m1)" "released f g (set m1)"
      "\<forall>(u, x, a) \<in> pend_pairs f - pend_pairs g. b \<le> u \<and> u \<le> t - 1 \<and> b \<le> a \<and> a \<le> t - 1"
    using releaseRange_ok [OF Cons.prems(1), of b "t - 1"] by blast
  have inv: "fl_inv g" "pend_pairs g \<subseteq> pend_pairs f" using g(2) by (simp_all add: released_def)
  have "sorted ts" "\<forall>r \<in> set ts. 0 < r \<and> r < 2 ^ 64 - 1 \<and> t + 1 \<le> r + 1" using Cons.prems(2,3) ts by auto
  from Cons.IH [OF inv(1) this, of m1]
  obtain f' b' m' M where IH: "free_between rng g (t + 1) ts m1 = Some (f', b', m')" "released g f' M"
      "\<forall>q \<in> pend_pairs g - pend_pairs f'. \<forall>r. r < t + 1 \<or> r \<in> set ts \<longrightarrow> \<not> visible r q"
      "t + 1 \<le> b'" "\<forall>r \<in> set ts. r < b'" by blast
  have e: "free_between rng f b (t # ts) m = Some (f', b', m')" using g(1) IH(1) by (simp add: arith [unfolded One_nat_def])
  have vis: "\<not> visible r q" if q: "q \<in> pend_pairs f - pend_pairs f'" and r: "r < b \<or> r \<in> set (t # ts)" for q r
  proof (cases "q \<in> pend_pairs g")
    case True
    with q have "q \<in> pend_pairs g - pend_pairs f'" by blast
    moreover have "r < t + 1 \<or> r \<in> set ts" using r t(3) by auto
    ultimately show ?thesis using IH(3) by blast
  next
    case False
    obtain u x a where q3: "q = (u, x, a)" by (cases q) auto
    have "q \<in> pend_pairs f - pend_pairs g" using False q by blast
    from bspec [OF g(3) this] have "b \<le> u" "u \<le> t - 1" "b \<le> a" "a \<le> t - 1" unfolding q3 by simp_all
    moreover have "r < b \<or> t \<le> r" using r ts by auto
    ultimately show ?thesis using t(1) unfolding q3 visible_def by auto
  qed
  have fin: "b \<le> b'" "\<forall>r \<in> set (t # ts). r < b'" using IH(4,5) t(3) by auto
  have "released f f' (set m1 \<union> M)" by (rule released_trans [OF g(2) IH(2)])
  with e vis fin show ?case by blast
qed

lemma freePages_ok:
  assumes "fl_inv f" and "\<forall>r \<in> set txs. 0 < r \<and> r < 2 ^ 64 - 1"
  shows "\<exists>f' m M. freePages rng f txs = Some (f', m) \<and> released f f' M \<and> (\<forall>q \<in> pend_pairs f - pend_pairs f'. \<forall>r \<in> set txs. \<not> visible r q)
    \<and> (\<forall>(t, p) \<in> pend_pairs f'. t < 2 ^ 64 - 1 \<longrightarrow> (\<exists>r \<in> set txs. r \<le> t))"
proof -
  define b where "b = (case sort txs of [] \<Rightarrow> 2 ^ 64 - 1 | t # _ \<Rightarrow> t)"
  have low: "\<forall>r \<in> set txs. b \<le> r"
  proof (cases "sort txs")
    case Nil
    then have "set txs = {}" by (metis set_empty set_sort)
    then show ?thesis by simp
  next
    case (Cons t ts)
    then have "set txs = set (t # ts)" by (metis set_sort)
    moreover have "\<forall>r \<in> set ts. t \<le> r" using sorted_sort [of txs] Cons by simp
    ultimately show ?thesis using Cons by (auto simp: b_def)
  qed
  have mem: "sort txs = [] \<or> b \<in> set txs" by (metis b_def list.case(2) list.exhaust list.set_intros(1) set_sort)
  then have b: "0 < b" "b < 2 ^ 64" using assms(2) by (auto simp: b_def)
  obtain g1 m1 where g1: "fl_release rng f (b - 1) = Some (g1, m1)" "released f g1 (set m1)" "pend_pairs g1 = {(t, p) \<in> pend_pairs f. b - 1 < t}"
    using fl_release_ok [OF assms(1), of "b - 1"] by blast
  have i1: "fl_inv g1" using g1(2) by (simp add: released_def)
  have "sorted (sort txs)" "\<forall>r \<in> set (sort txs). 0 < r \<and> r < 2 ^ 64 - 1 \<and> b \<le> r + 1" using assms(2) low by auto
  from free_between_ok [OF i1 this, of "[]"] obtain g2 b2 m2 M2 where
    g2: "free_between rng g1 b (sort txs) [] = Some (g2, b2, m2)" "released g1 g2 M2"
      "\<forall>q \<in> pend_pairs g1 - pend_pairs g2. \<forall>r \<in> set txs. \<not> visible r q" "\<forall>r \<in> set txs. r < b2" by (metis set_sort)
  have i2: "fl_inv g2" using g2(2) by (simp add: released_def)
  obtain g3 m3 where g3: "releaseRange rng g2 b2 (2 ^ 64 - 1) = Some (g3, m3)" "released g2 g3 (set m3)"
      "\<forall>(t, x, a) \<in> pend_pairs g2 - pend_pairs g3. b2 \<le> t \<and> t \<le> 2 ^ 64 - 1 \<and> b2 \<le> a \<and> a \<le> 2 ^ 64 - 1"
    using releaseRange_ok [OF i2, of b2 "2 ^ 64 - 1"] by blast
  have "freePages rng f txs = Some (g3, rev (remdups (rev (m1 @ m2 @ m3))))"
    using b g1(1) g2(1) g3(1) unfolding freePages_def Let_def b_def [symmetric] by simp
  moreover have "released f g3 (set m1 \<union> M2 \<union> set m3)" by (rule released_trans [OF released_trans [OF g1(2) g2(2)] g3(2)])
  moreover have "\<exists>r \<in> set txs. r \<le> t" if q: "(t, p) \<in> pend_pairs g3" and t: "t < 2 ^ 64 - 1" for t p
  proof -
    have "(t, p) \<in> pend_pairs g1" using q g2(2) g3(2) by (auto simp: released_def)
    then have "b \<le> t" using g1(3) b(1) by auto
    then have "sort txs \<noteq> []" using t by (auto simp: b_def)
    with mem \<open>b \<le> t\<close> show ?thesis by blast
  qed
  moreover have "\<not> visible r q" if q: "q \<in> pend_pairs f - pend_pairs g3" and r: "r \<in> set txs" for q r
  proof -
    obtain t x a where q3: "q = (t, x, a)" by (cases q) auto
    consider "q \<notin> pend_pairs g1" | "q \<in> pend_pairs g1 - pend_pairs g2" | "q \<in> pend_pairs g2 - pend_pairs g3" using q by blast
    then show ?thesis
    proof cases
      case 1
      then have "t \<le> b - 1" using q g1(3) q3 by auto
      then show ?thesis using low r b(1) unfolding q3 visible_def by fastforce
    next
      case 2
      with g2(3) r show ?thesis by blast
    next
      case 3
      from bspec [OF g3(3) this] have "b2 \<le> a" unfolding q3 by simp
      then show ?thesis using g2(4) r unfolding q3 visible_def by fastforce
    qed
  qed
  ultimately show ?thesis by blast
qed

end

subsection \<open>Rolling back\<close>

lemma rollback_pages_eq:
  "\<exists>A. rollback_pages f t ps m =
     (f\<lparr>fl_cache := fl_cache f - fst ` set ps, fl_allocs := A\<rparr>, m @ map fst (filter (\<lambda>p. snd p \<noteq> 0 \<and> snd p = t) ps))"
proof (induction ps arbitrary: f m)
  case Nil
  show ?case by (rule exI [of _ "fl_allocs f"]) simp
next
  case (Cons p ps)
  obtain x a where p: "p = (x, a)" by (cases p)
  let ?f = "f\<lparr>fl_cache := fl_cache f - {x}\<rparr>"
  have "fl_cache f - fst ` set (p # ps) = fl_cache f - {x} - fst ` set ps" by (auto simp: p)
  then show ?case
    using Cons.IH [of ?f m] Cons.IH [of "?f\<lparr>fl_allocs := (fl_allocs f)(x \<mapsto> a)\<rparr>" m] Cons.IH [of ?f "m @ [x]"]
    by (auto simp: p Let_def)
qed

text \<open>The pages that a transaction freed and had also allocated itself.\<close>

definition own_pages :: "txid \<Rightarrow> txPending \<Rightarrow> pgid list" where
  "own_pages t txp = map fst (filter (\<lambda>p. snd p \<noteq> 0 \<and> snd p = t) (tp_pairs txp))"

lemma own_pages_sub:
  "length (tp_alloctx txp) = length (tp_ids txp) \<Longrightarrow> set (own_pages t txp) \<subseteq> set (tp_ids txp)"
  "length (tp_alloctx txp) = length (tp_ids txp) \<Longrightarrow> distinct (tp_ids txp) \<Longrightarrow> distinct (own_pages t txp)"
proof -
  assume l: "length (tp_alloctx txp) = length (tp_ids txp)"
  show "set (own_pages t txp) \<subseteq> set (tp_ids txp)" using arg_cong [OF map_fst_pairs [OF l], of set] by (auto simp: own_pages_def)
  show "distinct (own_pages t txp)" if "distinct (tp_ids txp)"
    using that map_fst_pairs [OF l] by (metis distinct_map_filter own_pages_def)
qed

context map_range
begin

lemma fl_rollback_ok:
  assumes inv: "fl_inv f" and t: "fl_pending f t = Some txp"
  shows "\<exists>f'. fl_rollback f t = Some f' \<and> fl_inv f' \<and> fl_pending f' = (fl_pending f)(t := None)
    \<and> fl_free_set f' = fl_free_set f \<union> set (own_pages t txp) \<and> pend_set f' = pend_set f - set (tp_ids txp)
    \<and> fl_cache f' = fl_cache f - set (tp_ids txp) \<and> fl_type f' = fl_type f"
proof -
  have pi: "pend_inv f" and ai: "fl_alloc_inv f" using inv by (simp_all add: fl_inv_def)
  have l: "length (tp_alloctx txp) = length (tp_ids txp)" "distinct (tp_ids txp)" "\<forall>x \<in> set (tp_ids txp). pg_ok x" "set (tp_ids txp) \<subseteq> pend_set f"
    using pi t by (auto simp: pend_inv_def pend_set_def)
  have fs: "fst ` set (tp_pairs txp) = set (tp_ids txp)" using arg_cong [OF map_fst_pairs [OF l(1)], of set] by simp
  obtain A where A: "rollback_pages f t (tp_pairs txp) [] =
      (f\<lparr>fl_cache := fl_cache f - set (tp_ids txp), fl_allocs := A\<rparr>, own_pages t txp)"
    using rollback_pages_eq [of f t "tp_pairs txp" "[]"] by (auto simp: fs own_pages_def)
  let ?P = "(fl_pending f)(t := None)"
  let ?g = "f\<lparr>fl_cache := fl_cache f - set (tp_ids txp), fl_allocs := A, fl_pending := ?P\<rparr>"
  have e: "fl_rollback f t = map_option fst (mergeSpans ?g (own_pages t txp))"
    using t l(1) A by (simp add: fl_rollback_def tp_pairs_def Let_def)
  have gp: "pend_inv ?g" "pend_set ?g = pend_set f - set (tp_ids txp)"
  proof -
    define r where "r s = (if s = t then tp_pairs txp else [])" for s
    have "gives_up f ?P r" unfolding gives_up_def
    proof (rule allI)
      fix s
      show "case fl_pending f s of None \<Rightarrow> ?P s = None \<and> r s = []
        | Some x' \<Rightarrow> \<exists>x. length (tp_alloctx x) = length (tp_ids x) \<and> mset (tp_pairs x) + mset (r s) = mset (tp_pairs x')
            \<and> (?P s = Some x \<or> ?P s = None \<and> tp_ids x = [])"
      proof (cases "s = t")
        case True
        with t show ?thesis
          by (auto simp: r_def tp_pairs_def intro: exI [of _ "\<lparr>tp_ids = [], tp_alloctx = [], tp_lastReleaseBegin = 0\<rparr>"])
      next
        case False
        then show ?thesis using pi t by (auto simp: r_def pend_inv_def split: option.split)
      qed
    qed
    note G = gives_up_ok [OF pi this]
    have fr: "pend_inv ?g = pend_inv (f\<lparr>fl_pending := ?P\<rparr>)" "pend_set ?g = pend_set (f\<lparr>fl_pending := ?P\<rparr>)"
      using pend_frame [of ?g "f\<lparr>fl_pending := ?P\<rparr>"] by simp_all
    show "pend_inv ?g" unfolding fr by (rule G(1))
    have "(\<Union>s \<in> dom (fl_pending f). fst ` set (r s)) = set (tp_ids txp)" using t fs by (auto simp: r_def split: if_splits)
    then have "set (tp_ids txp) = pend_set f - pend_set (f\<lparr>fl_pending := ?P\<rparr>)" using G(4) by simp
    then show "pend_set ?g = pend_set f - set (tp_ids txp)" unfolding fr by (simp only: double_diff [OF G(2) order_refl])
  qed
  have "set (own_pages t txp) \<inter> fl_free_set ?g = {}" using own_pages_sub(1) [OF l(1)] l(4) inv by (auto simp: fl_inv_def)
  moreover have "\<forall>x \<in> set (own_pages t txp). pg_ok x" using own_pages_sub(1) [OF l(1)] l(3) by blast
  ultimately obtain f' m where f': "mergeSpans ?g (own_pages t txp) = Some (f', m)" "fl_alloc_inv f'"
      "fl_free_set f' = fl_free_set f \<union> set (own_pages t txp)" "fl_cache f' = fl_cache f - set (tp_ids txp)" "fl_pending f' = ?P" "fl_type f' = fl_type f"
    using fl.mrg_ok [of ?g "own_pages t txp"] ai own_pages_sub(2) [OF l(1,2)] by auto
  have P: "pend_set f' = pend_set f - set (tp_ids txp)" "pend_inv f'" using pend_frame [of f' ?g] f'(5) gp by simp_all
  have "fl_inv f'" unfolding fl_inv_def P(1) f'(3,4) using f'(2) P(2) inv own_pages_sub(1) [OF l(1), of t] by (auto simp: fl_inv_def)
  with e f' P(1) show ?thesis by simp
qed

lemma pending_ids_ok:
  assumes "pend_inv f"
  shows "set (pending_ids rng f) = pend_set f" and "distinct (pending_ids rng f)" and "length (pending_ids rng f) = pending_count rng f"
proof -
  have fin: "finite (dom (fl_pending f))" using assms by (simp add: pend_inv_def)
  show "set (pending_ids rng f) = pend_set f" using fin by (force simp: pending_ids_def pend_set_def)
  have D: "set (tp_ids x) \<inter> set (tp_ids y) = {}" if "fl_pending f t = Some x" "fl_pending f t' = Some y" "t \<noteq> t'" for t t' x y
    using assms that unfolding pend_inv_def by blast
  show "distinct (pending_ids rng f)" unfolding pending_ids_def
  proof (rule disjoint_concat_distinct)
    show "\<forall>t \<in> set (rng (dom (fl_pending f))). distinct (tp_ids (the (fl_pending f t)))"
      using fin assms by (auto simp: pend_inv_def)
    show "\<forall>s \<in> set (rng (dom (fl_pending f))). \<forall>t \<in> set (rng (dom (fl_pending f))). s \<noteq> t \<longrightarrow>
        set (tp_ids (the (fl_pending f s))) \<inter> set (tp_ids (the (fl_pending f t))) = {}"
    proof (intro ballI impI)
      fix s t assume "s \<in> set (rng (dom (fl_pending f)))" "t \<in> set (rng (dom (fl_pending f)))" "s \<noteq> t"
      moreover from this obtain x y where "fl_pending f s = Some x" "fl_pending f t = Some y" using fin by auto
      ultimately show "set (tp_ids (the (fl_pending f s))) \<inter> set (tp_ids (the (fl_pending f t))) = {}" using D [of s x t y] by simp
    qed
  qed (use fin in simp)
  show "length (pending_ids rng f) = pending_count rng f" by (simp add: pending_ids_def pending_count_def length_concat comp_def)
qed

end

subsection \<open>Reading page ids\<close>

lemma init_spans_ok:
  assumes "span_inv f" and "start \<le> prev" and "siz = prev - start + 1" and "sorted_wrt (<) (prev # rest)" and "2 \<le> start"
    and "\<forall>x \<in> set (prev # rest). pg_ok x" and "\<forall>x \<in> hset f. x + 1 < start"
  shows "span_inv (init_spans f start siz prev rest) \<and> hset (init_spans f start siz prev rest) = hset f \<union> {start..prev} \<union> set rest"
  using assms
proof (induction rest arbitrary: f start siz prev)
  case Nil
  have p: "prev < 2 ^ 64 - 2" using Nil.prems(6) by (simp add: pg_ok_def)
  have k: "0 < siz" "2 \<le> start" "start + siz \<le> 2 ^ 64 - 2" using Nil.prems(2,3,5) p by auto
  have gap: "{start - 1..start + siz} \<inter> hset f = {}" using Nil.prems(7) by fastforce
  have e: "init_spans f start siz prev [] = addSpan f start siz" using k by simp
  have r: "{start..<start + siz} = {start..prev}" using Nil.prems(2,3) by auto
  show ?case unfolding e using addSpan_ok [OF Nil.prems(1) k gap] r by simp
next
  case (Cons x rest)
  have p: "prev < 2 ^ 64 - 2" "prev < x" "pg_ok x" using Cons.prems(4,6) by (auto simp: pg_ok_def)
  have add: "pg_add prev 1 = prev + 1" using p(1) by simp
  have srt: "sorted_wrt (<) (x # rest)" "\<forall>y \<in> set (x # rest). pg_ok y" using Cons.prems(4,6) by auto
  show ?case
  proof (cases "x = prev + 1")
    case True
    have s: "pg_add siz 1 = siz + 1" using Cons.prems(2,3) p(1) by simp
    have e: "init_spans f start siz prev (x # rest) = init_spans f start (siz + 1) x rest" using True add s by simp
    have c: "start \<le> x" "siz + 1 = x - start + 1" using True Cons.prems(2,3) by auto
    have r: "{start..prev} \<union> set (x # rest) = {start..x} \<union> set rest" using True Cons.prems(2) by auto
    show ?thesis
      unfolding e Un_assoc r using Cons.IH [OF Cons.prems(1) c srt(1) Cons.prems(5) srt(2) Cons.prems(7)] by (simp add: Un_assoc)
  next
    case False
    have k: "0 < siz" "2 \<le> start" "start + siz \<le> 2 ^ 64 - 2" using Cons.prems(2,3,5) p by auto
    have gap: "{start - 1..start + siz} \<inter> hset f = {}" using Cons.prems(7) by fastforce
    note a = addSpan_ok [OF Cons.prems(1) k gap]
    have r: "{start..<start + siz} = {start..prev}" using Cons.prems(2,3) by auto
    have e: "init_spans f start siz prev (x # rest) = init_spans (addSpan f start siz) x 1 x rest" using False add by simp
    have "2 \<le> x" using p(3) by (simp add: pg_ok_def)
    moreover have "\<forall>y \<in> hset (addSpan f start siz). y + 1 < x" unfolding a(2) r using Cons.prems(2,7) p(2) False by auto
    ultimately show ?thesis
      unfolding e using Cons.IH [OF a(1) order_refl _ srt(1) _ srt(2), of 1] a(2) r by auto
  qed
qed

lemma init_spans_frame [simp]:
  "fl_type (init_spans f start siz prev rest) = fl_type f" "fl_pending (init_spans f start siz prev rest) = fl_pending f"
  by (induction f start siz prev rest rule: init_spans.induct) auto

lemma fl_init_ok:
  assumes "sorted_wrt (<) ids" and "\<forall>x \<in> set ids. pg_ok x" and "ids \<noteq> []"
  shows "span_inv (fl_init f ids)" and "hset (fl_init f ids) = set ids"
    and "fl_type (fl_init f ids) = fl_type f" and "fl_pending (fl_init f ids) = fl_pending f"
proof -
  obtain x xs where ids: "ids = x # xs" using assms(3) by (cases ids) auto
  let ?f = "f\<lparr>fl_freemaps := Map.empty, fl_forwardMap := Map.empty, fl_backwardMap := Map.empty\<rparr>"
  have srt: "sorted ids" using assms(1) by (simp add: strict_sorted_iff)
  have e: "fl_init f ids = init_spans ?f x 1 x xs" using srt by (simp add: fl_init_def ids)
  have "span_inv ?f" "hset ?f = {}" by (simp_all add: span_inv_def hset_def)
  moreover have "2 \<le> x" using assms(2) by (simp add: ids pg_ok_def)
  ultimately have "span_inv (init_spans ?f x 1 x xs) \<and> hset (init_spans ?f x 1 x xs) = hset ?f \<union> {x..x} \<union> set xs"
    using init_spans_ok [of ?f x x 1 xs] assms(1,2) by (simp add: ids)
  then show "span_inv (fl_init f ids)" "hset (fl_init f ids) = set ids"
    using \<open>hset ?f = {}\<close> unfolding e by (auto simp: ids)
  show "fl_type (fl_init f ids) = fl_type f" "fl_pending (fl_init f ids) = fl_pending f" unfolding e by simp_all
qed

context map_range
begin

lemma readIDs_ok:
  assumes pi: "pend_inv f" and ids: "sorted_wrt (<) ids" "\<forall>x \<in> set ids. pg_ok x" "ids \<noteq> [] \<or> fl_type f \<noteq> BdbFreelistMapType"
  shows "fl_alloc_inv (readIDs rng f ids)" and "fl_free_set (readIDs rng f ids) = set ids"
    and "fl_cache (readIDs rng f ids) = set ids \<union> pend_set f" and "fl_pending (readIDs rng f ids) = fl_pending f"
    and "fl_type (readIDs rng f ids) = fl_type f"
proof -
  let ?g = "if fl_type f = BdbFreelistMapType then fl_init f ids else f\<lparr>fl_ids := ids\<rparr>"
  have e: "readIDs rng f ids = reindex rng ?g" by (simp add: readIDs_def hashmapReadIDs_def arrayReadIDs_def)
  have g: "fl_alloc_inv ?g" "fl_free_set ?g = set ids" "fl_pending ?g = fl_pending f" "fl_type ?g = fl_type f"
    using fl_init_ok [OF ids(1,2), of f] ids
    by (cases "fl_type f = BdbFreelistMapType"; simp add: fl_alloc_inv_def fl_free_set_def array_inv_def)+
  have p: "set (pending_ids rng ?g) = pend_set f" using pending_ids_ok(1) [of ?g] pend_frame [OF g(3)] pi by simp
  have "set (getFreePageIDs rng ?g) = set ids" using fl.ids_fset [OF g(1)] g(2) by simp
  then have r: "reindex rng ?g = ?g\<lparr>fl_cache := set ids \<union> pend_set f\<rparr>" using p by (simp only: reindex_def)
  show "fl_alloc_inv (readIDs rng f ids)" "fl_free_set (readIDs rng f ids) = set ids"
    "fl_cache (readIDs rng f ids) = set ids \<union> pend_set f" "fl_pending (readIDs rng f ids) = fl_pending f"
    "fl_type (readIDs rng f ids) = fl_type f"
    unfolding e r fl_frame using g by simp_all
qed

lemma noSyncReload_ok:
  assumes pi: "pend_inv f" and ids: "sorted_wrt (<) ids" "\<forall>x \<in> set ids. pg_ok x" "\<not> set ids \<subseteq> pend_set f \<or> fl_type f \<noteq> BdbFreelistMapType"
  shows "fl_inv (noSyncReload rng f ids)" and "cache_complete (noSyncReload rng f ids)"
    and "fl_free_set (noSyncReload rng f ids) = set ids - pend_set f" and "fl_pending (noSyncReload rng f ids) = fl_pending f"
proof -
  let ?ids = "filter (\<lambda>pid. pid \<notin> set (pending_ids rng f)) ids"
  have s: "set ?ids = set ids - pend_set f" using pending_ids_ok(1) [OF pi] by auto
  have "sorted_wrt (<) ?ids" "\<forall>x \<in> set ?ids. pg_ok x" "?ids \<noteq> [] \<or> fl_type f \<noteq> BdbFreelistMapType"
    using ids s by (auto simp: sorted_wrt_filter filter_empty_conv)
  note r = readIDs_ok [OF pi this, folded noSyncReload_def]
  have p: "pend_set (noSyncReload rng f ids) = pend_set f" "pend_inv (noSyncReload rng f ids)" using pend_frame [OF r(4)] pi by simp_all
  show "fl_free_set (noSyncReload rng f ids) = set ids - pend_set f" "fl_pending (noSyncReload rng f ids) = fl_pending f" using r(2,4) s by simp_all
  show "fl_inv (noSyncReload rng f ids)" "cache_complete (noSyncReload rng f ids)"
    unfolding fl_inv_def cache_complete_def p(1) r(2,3) using r(1) p(2) s by auto
qed

end

subsection \<open>Freelist pages\<close>

definition ids_bytes :: "pgid list \<Rightarrow> bytes" where
  "ids_bytes ids = concat (map (\<lambda>pid. le_enc 8 (of_nat pid :: u64)) ids)"

lemma length_ids_bytes [simp]: "length (ids_bytes ids) = 8 * length ids"
  by (induction ids) (simp_all add: ids_bytes_def)

lemma ids_bytes_drop: "drop (8 * i) (ids_bytes ids) = ids_bytes (drop i ids)"
proof (induction ids arbitrary: i)
  case (Cons x ids)
  then show ?case by (cases i) (simp_all add: ids_bytes_def)
qed (simp add: ids_bytes_def)

lemma read_ids_bytes:
  assumes "\<forall>x \<in> set ids. x < 2 ^ 64"
  shows "read_ids (ids_bytes ids @ rest) (length ids) = Some ids"
proof -
  have "unat (le_dec (take 8 (drop (8 * i) (ids_bytes ids @ rest))) :: u64) = ids ! i" if "i < length ids" for i
  proof -
    have "take 8 (drop (8 * i) (ids_bytes ids @ rest)) = take 8 (ids_bytes (drop i ids))"
      using that by (simp add: ids_bytes_drop)
    also have "drop i ids = ids ! i # drop (Suc i) ids" using that by (simp add: Cons_nth_drop_Suc)
    also have "take 8 (ids_bytes \<dots>) = le_enc 8 (of_nat (ids ! i) :: u64)" by (simp add: ids_bytes_def)
    finally have "le_dec (take 8 (drop (8 * i) (ids_bytes ids @ rest))) = (of_nat (ids ! i) :: u64)" by (simp add: le_dec_enc)
    then show ?thesis using assms that by (simp add: unat_of_nat)
  qed
  then have "map (\<lambda>i. unat (le_dec (take 8 (drop (8 * i) (ids_bytes ids @ rest))) :: u64)) [0..<length ids] = ids"
    by (intro nth_equalityI) simp_all
  then show ?thesis by (simp add: read_ids_def)
qed

lemma write_ids_eq: "8 * length ids \<le> length data \<Longrightarrow> write_ids data ids = Some (ids_bytes ids @ drop (8 * length ids) data)"
  using length_ids_bytes [of ids] by (simp add: write_ids_def go_put_def ids_bytes_def)

context map_range
begin

lemma copyall_ok:
  assumes inv: "fl_inv f" and len: "length dst = fl_count rng f"
  shows "\<exists>ids. copyall rng f dst = Some ids \<and> sorted_wrt (<) ids \<and> set ids = fl_free_set f \<union> pend_set f \<and> length ids = fl_count rng f"
proof -
  have ai: "fl_alloc_inv f" and pi: "pend_inv f" and dj: "fl_free_set f \<inter> pend_set f = {}" using inv by (simp_all add: fl_inv_def)
  note p = pending_ids_ok [OF pi] and i = fl.ids_fset [OF ai]
  let ?a = "getFreePageIDs rng f" and ?b = "sort (pending_ids rng f)"
  have sa: "sorted ?a" "distinct ?a" using i by (simp_all add: strict_sorted_iff)
  have cnt: "length ?a + length ?b = fl_count rng f"
    using i fl.cnt_fset [OF ai] p(3) distinct_card [OF sa(2)] by (simp add: fl_count_def)
  have "copyall rng f dst = Some (sort (?a @ ?b))"
    using mergepgids_sorted [OF sa(1), of ?b dst] len cnt by (simp add: copyall_def)
  moreover have "distinct (?a @ ?b)" using sa(2) p(1,2) i dj by auto
  then have "sorted_wrt (<) (sort (?a @ ?b))" by (simp add: strict_sorted_iff)
  moreover have "set (sort (?a @ ?b)) = fl_free_set f \<union> pend_set f" using i p(1) by simp
  ultimately show ?thesis using cnt by simp
qed

end

end
