(* ===== verification/Freelist_Safe.thy ===== *)
theory Freelist_Safe
  imports Freelist
begin

text \<open>
  What the freelist promises: its reachable states, the pages it is written to and read from, and the theorems over the
  operations of \<^verbatim>\<open>bitree/bdb/freelist.go\<close> that \<open>Freelist\<close> models.
\<close>

section \<open>Loading page ids\<close>

text \<open>Page ids as a freelist page or the scan of a database file gives them: strictly ascending and inside the file.\<close>

definition good_ids :: "pgid list \<Rightarrow> bool" where
  "good_ids ids \<longleftrightarrow> sorted_wrt (<) ids \<and> (\<forall>x \<in> set ids. pg_ok x)"

text \<open>The ids on a freelist page, in the bitmap format when \<open>bm\<close> and as a list of ids otherwise.\<close>

definition page_ids :: "(bytes \<Rightarrow> pgid list option) \<Rightarrow> bool \<Rightarrow> page \<Rightarrow> pgid list option" where
  "page_ids ReadFrom bm p =
     do {
       (idx, cnt) \<leftarrow> page_ids_count p;
       (if cnt = 0 then Some []
        else if bm then
          do {
            lenBuf \<leftarrow> go_slice (p_data p) (8 * idx) (8 * idx + bitmapLenSize);
            bitmapData \<leftarrow> go_slice (p_data p) (8 * idx + bitmapLenSize) (8 * idx + bitmapLenSize + unat (le_dec lenBuf :: u64));
            ids \<leftarrow> ReadFrom bitmapData;
            (if length ids \<noteq> cnt then None else Some ids)
          }
        else map_option sort (read_ids (drop (8 * idx) (p_data p)) cnt))
     }"

abbreviation load_page :: "(bytes \<Rightarrow> pgid list option) \<Rightarrow> map_range_order \<Rightarrow> freelist \<Rightarrow> page \<Rightarrow> bool \<Rightarrow> freelist option" where
  "load_page ReadFrom rng f p bm \<equiv> (if bm then readFromBitmap ReadFrom rng f p else fl_read rng f p)"

lemma sort_read_ids: "read_ids d n = Some ids \<Longrightarrow> 0 < n \<Longrightarrow> sort ids \<noteq> []"
  by (auto simp: read_ids_def split: if_splits dest!: arg_cong [of _ _ length])

lemma load_page_eq:
  "load_page ReadFrom rng f p bm =
     map_option (\<lambda>ids. if ids = [] then f\<lparr>fl_ids := []\<rparr> else readIDs rng f ids) (page_ids ReadFrom bm p)"
  using sort_read_ids
  by (auto simp: page_ids_def readFromBitmap_def fl_read_def Let_def split: Option.bind_splits option.split)

lemma newFreelist_inv: "fl_inv (newFreelist ty)"
  by (simp add: newFreelist_def fl_inv_def fl_alloc_inv_def span_inv_def array_inv_def pend_inv_def fl_free_set_def pend_set_def hset_def)

lemma newFreelist_sets [simp]:
  "fl_free_set (newFreelist ty) = {}" "pend_set (newFreelist ty) = {}" "fl_cache (newFreelist ty) = {}" "fl_type (newFreelist ty) = ty"
  by (simp_all add: newFreelist_def fl_free_set_def hset_def pend_set_def)

lemma newFreelist_cache: "(newFreelist ty)\<lparr>fl_cache := {}\<rparr> = newFreelist ty"
  by (simp add: newFreelist_def)

lemma released_inv: "released f f' M \<Longrightarrow> fl_inv f'"
  by (simp add: released_def)

lemma released_complete: "released f f' M \<Longrightarrow> cache_complete f \<Longrightarrow> cache_complete f'"
  unfolding released_def by (elim conjE, rule cache_complete_released)

context map_range
begin

lemma readIDs_nil_map:
  assumes "fl_type f = BdbFreelistMapType" and "fl_alloc_inv f" and "pend_inv f"
  shows "readIDs rng f [] = f\<lparr>fl_cache := fl_free_set f \<union> pend_set f\<rparr>"
  using assms fl.ids_fset [of f] pending_ids_ok(1) [of f]
  by (simp add: readIDs_def hashmapReadIDs_def fl_init_def reindex_def)

lemma readIDs_new:
  assumes "good_ids ids"
  shows "fl_inv (readIDs rng (newFreelist ty) ids) \<and> cache_complete (readIDs rng (newFreelist ty) ids)
    \<and> fl_free_set (readIDs rng (newFreelist ty) ids) = set ids \<and> pend_set (readIDs rng (newFreelist ty) ids) = {}"
proof (cases "ids = [] \<and> ty = BdbFreelistMapType")
  case True
  have "fl_alloc_inv (newFreelist ty)" "pend_inv (newFreelist ty)" using newFreelist_inv [of ty] by (simp_all add: fl_inv_def)
  then have "readIDs rng (newFreelist ty) [] = newFreelist ty" using readIDs_nil_map [of "newFreelist ty"] True newFreelist_cache [of ty] by simp
  then show ?thesis using True newFreelist_inv [of ty] by (simp add: cache_complete_def)
next
  case False
  have pi: "pend_inv (newFreelist ty)" using newFreelist_inv [of ty] by (simp add: fl_inv_def)
  have ids: "sorted_wrt (<) ids" "\<forall>x \<in> set ids. pg_ok x" "ids \<noteq> [] \<or> fl_type (newFreelist ty) \<noteq> BdbFreelistMapType"
    using False assms by (auto simp: good_ids_def)
  note R = readIDs_ok [OF pi ids]
  have "pend_set (readIDs rng (newFreelist ty) ids) = {}" "pend_inv (readIDs rng (newFreelist ty) ids)" using pend_frame [OF R(4)] pi by simp_all
  then show ?thesis using R(1-3) by (simp add: fl_inv_def cache_complete_def)
qed

lemma load_page_new:
  assumes "page_ids ReadFrom bm p = Some ids" and "good_ids ids"
  shows "\<exists>f. load_page ReadFrom rng (newFreelist ty) p bm = Some f \<and> fl_inv f \<and> cache_complete f \<and> fl_free_set f = set ids \<and> pend_set f = {}"
proof (cases "ids = []")
  case True
  have e: "(newFreelist ty)\<lparr>fl_ids := []\<rparr> = newFreelist ty" by (simp add: newFreelist_def)
  show ?thesis unfolding load_page_eq using assms(1) True e newFreelist_inv [of ty] by (simp add: cache_complete_def)
next
  case False
  then show ?thesis unfolding load_page_eq using assms(1) readIDs_new [OF assms(2), of ty] by simp
qed

text \<open>\<^verbatim>\<open>noSyncReload\<close> and \<^verbatim>\<open>reload\<close> on every list of ids: when nothing is left after the pending ids are taken out, \<^verbatim>\<open>init\<close> of the map
  kind returns at once and keeps the spans it had.\<close>

lemma noSyncReload_exact:
  assumes inv: "fl_inv f" and ids: "good_ids ids"
  shows "fl_inv (noSyncReload rng f ids) \<and> cache_complete (noSyncReload rng f ids) \<and> fl_pending (noSyncReload rng f ids) = fl_pending f
    \<and> fl_free_set (noSyncReload rng f ids) =
        (if fl_type f = BdbFreelistMapType \<and> set ids \<subseteq> pend_set f then fl_free_set f else set ids - pend_set f)"
proof (cases "fl_type f = BdbFreelistMapType \<and> set ids \<subseteq> pend_set f")
  case True
  have i: "fl_alloc_inv f" "pend_inv f" using inv by (simp_all add: fl_inv_def)
  have "filter (\<lambda>pid. pid \<notin> set (pending_ids rng f)) ids = []" using pending_ids_ok(1) [OF i(2)] True by (auto simp: filter_empty_conv)
  then have "noSyncReload rng f ids = f\<lparr>fl_cache := fl_free_set f \<union> pend_set f\<rparr>"
    using readIDs_nil_map [OF _ i] True by (simp add: noSyncReload_def)
  then show ?thesis using inv True by (simp add: fl_inv_def cache_complete_def)
next
  case False
  then have c: "\<not> set ids \<subseteq> pend_set f \<or> fl_type f \<noteq> BdbFreelistMapType" by blast
  have "pend_inv f" "sorted_wrt (<) ids" "\<forall>x \<in> set ids. pg_ok x" using inv ids by (simp_all add: fl_inv_def good_ids_def)
  note N = noSyncReload_ok [OF this c]
  show ?thesis unfolding if_not_P [OF False] using N by simp
qed

lemma getFree_good: "fl_alloc_inv f \<Longrightarrow> good_ids (getFreePageIDs rng f) \<and> set (getFreePageIDs rng f) = fl_free_set f"
  using fl.ids_fset [of f] fl.fset_ok [of f] by (simp add: good_ids_def)

lemma fl_reload_exact:
  assumes inv: "fl_inv f" and p: "page_ids ReadFrom bm p = Some ids" and ids: "good_ids ids"
  shows "\<exists>h. fl_reload ReadFrom rng f p bm = Some h \<and> cache_complete h \<and> fl_pending h = fl_pending f
    \<and> fl_free_set h =
        (if fl_type f = BdbFreelistMapType \<and> set ids \<subseteq> pend_set f then if ids = [] then fl_free_set f else set ids else set ids - pend_set f)
    \<and> (fl_inv h \<longleftrightarrow> \<not> (fl_type f = BdbFreelistMapType \<and> ids \<noteq> [] \<and> set ids \<subseteq> pend_set f))"
proof -
  have i: "fl_alloc_inv f" "pend_inv f" "fl_free_set f \<inter> pend_set f = {}" using inv by (simp_all add: fl_inv_def)
  have e: "fl_reload ReadFrom rng f p bm = map_option (\<lambda>f. noSyncReload rng f (getFreePageIDs rng f)) (load_page ReadFrom rng f p bm)"
    by (simp add: fl_reload_def)
  let ?g = "f\<lparr>fl_ids := []\<rparr>"
  have g: "fl_pending ?g = fl_pending f" "fl_type ?g = fl_type f" by simp_all
  have gp: "pend_set ?g = pend_set f" "pend_inv ?g" using pend_frame [OF g(1)] i(2) by simp_all
  consider (map) "ids = []" "fl_type f = BdbFreelistMapType" | (arr) "ids = []" "fl_type f \<noteq> BdbFreelistMapType"
    | (bad) "ids \<noteq> []" "fl_type f = BdbFreelistMapType" "set ids \<subseteq> pend_set f"
    | (ok) "ids \<noteq> []" "\<not> set ids \<subseteq> pend_set f \<or> fl_type f \<noteq> BdbFreelistMapType" by blast
  then show ?thesis
  proof cases
    case map
    have s: "fl_free_set ?g = fl_free_set f" "fl_alloc_inv ?g = fl_alloc_inv f"
      using map(2) by (simp_all add: fl_free_set_def fl_alloc_inv_def hset_def span_inv_def)
    have "fl_inv ?g" using inv gp s by (simp add: fl_inv_def)
    moreover have gi: "good_ids (getFreePageIDs rng ?g)" "set (getFreePageIDs rng ?g) = fl_free_set f" using getFree_good [of ?g] s i(1) by simp_all
    moreover have "(if set (getFreePageIDs rng ?g) \<subseteq> pend_set ?g then fl_free_set ?g else set (getFreePageIDs rng ?g) - pend_set ?g) = fl_free_set f"
      unfolding gi(2) s(1) gp(1) using i(3) by auto
    ultimately show ?thesis
      unfolding e load_page_eq using noSyncReload_exact [of ?g "getFreePageIDs rng ?g"] map p by simp
  next
    case arr
    have "getFreePageIDs rng ?g = []" using arr(2) by (simp add: getFreePageIDs_def arrayGetFreePageIDs_def)
    then show ?thesis unfolding e load_page_eq using noSyncReload_ok [of ?g "[]"] arr p gp by simp
  next
    case bad
    have w: "sorted_wrt (<) ids" "\<forall>x \<in> set ids. pg_ok x" "ids \<noteq> [] \<or> fl_type f \<noteq> BdbFreelistMapType" using ids bad by (auto simp: good_ids_def)
    note R = readIDs_ok [OF i(2) w]
    let ?r = "readIDs rng f ids"
    have rp: "pend_set ?r = pend_set f" "pend_inv ?r" using pend_frame [OF R(4)] i(2) by simp_all
    have gi: "set (getFreePageIDs rng ?r) = set ids" using getFree_good [OF R(1)] R(2) by simp
    have "filter (\<lambda>pid. pid \<notin> set (pending_ids rng ?r)) (getFreePageIDs rng ?r) = []"
      using pending_ids_ok(1) [OF rp(2)] rp(1) gi bad(3) by (auto simp: filter_empty_conv)
    then have h: "noSyncReload rng ?r (getFreePageIDs rng ?r) = ?r\<lparr>fl_cache := set ids \<union> pend_set f\<rparr>"
      using readIDs_nil_map [OF _ R(1) rp(2)] R(2,5) rp(1) bad(2) by (simp add: noSyncReload_def)
    have "set ids \<inter> pend_set f = set ids" using bad(3) by blast
    then have "\<not> fl_inv (?r\<lparr>fl_cache := set ids \<union> pend_set f\<rparr>)" using R(2) rp(1) bad(1) by (simp add: fl_inv_def)
    then show ?thesis unfolding e load_page_eq using h p bad R(2,4) rp(1) by (simp add: cache_complete_def)
  next
    case ok
    have w: "sorted_wrt (<) ids" "\<forall>x \<in> set ids. pg_ok x" "ids \<noteq> [] \<or> fl_type f \<noteq> BdbFreelistMapType" using ids ok by (auto simp: good_ids_def)
    note R = readIDs_ok [OF i(2) w]
    let ?r = "readIDs rng f ids"
    have rp: "pend_set ?r = pend_set f" "pend_inv ?r" using pend_frame [OF R(4)] i(2) by simp_all
    have gi: "good_ids (getFreePageIDs rng ?r)" "set (getFreePageIDs rng ?r) = set ids" using getFree_good [OF R(1)] R(2) by simp_all
    have c: "\<not> (fl_type f = BdbFreelistMapType \<and> set ids \<subseteq> pend_set f)" using ok(2) by blast
    have "\<not> set (getFreePageIDs rng ?r) \<subseteq> pend_set ?r \<or> fl_type ?r \<noteq> BdbFreelistMapType" unfolding gi(2) rp(1) R(5) by (rule ok(2))
    note N = noSyncReload_ok [OF rp(2) gi(1)[unfolded good_ids_def, THEN conjunct1] gi(1)[unfolded good_ids_def, THEN conjunct2] this]
    show ?thesis unfolding e load_page_eq if_not_P [OF c] using N p ok(1) c R(4) gi(2) rp(1) by simp
  qed
qed

end

section \<open>Reachable states\<close>

text \<open>The operations of a database on its freelist, in any order. A database is opened from a scan of its pages (\<open>scan\<close>) or from the freelist
  page (\<open>load\<close>). A transaction allocates pages only while it commits, so a user's \<^verbatim>\<open>Tx.Rollback\<close>, which comes before the commit, finds no
  pages of its own among the freed ones. A failing commit rolls back and then reloads, from a scan or from the freelist page; the case of a
  freelist of the map kind whose page holds pending ids only is left out, because there \<^verbatim>\<open>reload\<close> makes the pending pages free.\<close>

inductive fl_reach :: "(bytes \<Rightarrow> pgid list option) \<Rightarrow> map_range_order \<Rightarrow> freelist_type \<Rightarrow> freelist \<Rightarrow> bool" for ReadFrom rng ty where
  scan: "good_ids ids \<Longrightarrow> fl_reach ReadFrom rng ty (readIDs rng (newFreelist ty) ids)"
| load: "page_ids ReadFrom bm p = Some ids \<Longrightarrow> good_ids ids \<Longrightarrow> load_page ReadFrom rng (newFreelist ty) p bm = Some f \<Longrightarrow>
    fl_reach ReadFrom rng ty f"
| allocate: "fl_reach ReadFrom rng ty f \<Longrightarrow> 0 < n \<Longrightarrow> n < 2 ^ 63 \<Longrightarrow> fl_allocate rng f t n = Some (f', pid) \<Longrightarrow> fl_reach ReadFrom rng ty f'"
| free: "fl_reach ReadFrom rng ty f \<Longrightarrow> p_id p + unat (p_overflow p) < 2 ^ 64 - 2 \<Longrightarrow> fl_free f t p = Some f' \<Longrightarrow> fl_reach ReadFrom rng ty f'"
| release: "fl_reach ReadFrom rng ty f \<Longrightarrow> fl_release rng f t = Some (f', m) \<Longrightarrow> fl_reach ReadFrom rng ty f'"
| releaseRange: "fl_reach ReadFrom rng ty f \<Longrightarrow> releaseRange rng f b e = Some (f', m) \<Longrightarrow> fl_reach ReadFrom rng ty f'"
| Rollback: "fl_reach ReadFrom rng ty f \<Longrightarrow> (\<And>txp. fl_pending f t = Some txp \<Longrightarrow> own_pages t txp = []) \<Longrightarrow> fl_rollback f t = Some f' \<Longrightarrow>
    fl_reach ReadFrom rng ty f'"
| rollback_scan: "fl_reach ReadFrom rng ty f \<Longrightarrow> fl_rollback f t = Some g \<Longrightarrow> good_ids ids \<Longrightarrow> fl_reach ReadFrom rng ty (noSyncReload rng g ids)"
| rollback_load: "fl_reach ReadFrom rng ty f \<Longrightarrow> fl_rollback f t = Some g \<Longrightarrow> page_ids ReadFrom bm p = Some ids \<Longrightarrow> good_ids ids \<Longrightarrow>
    \<not> (fl_type g = BdbFreelistMapType \<and> ids \<noteq> [] \<and> set ids \<subseteq> pend_set g) \<Longrightarrow> fl_reload ReadFrom rng g p bm = Some h \<Longrightarrow>
    fl_reach ReadFrom rng ty h"

context map_range
begin

lemma fl_allocate_inv:
  assumes "fl_inv f" and "0 < n" and "n < 2 ^ 63" and "fl_allocate rng f t n = Some (f', pid)"
  shows "fl_inv f' \<and> (cache_complete f \<longrightarrow> cache_complete f')"
proof (cases "\<exists>q. {q..<q + n} \<subseteq> fl_free_set f")
  case True
  then have F: "{pid..<pid + n} \<subseteq> fl_free_set f" "fl_alloc_inv f'" "fl_free_set f' = fl_free_set f - {pid..<pid + n}"
      "fl_cache f' = fl_cache f - {pid..<pid + n}" "fl_pending f' = fl_pending f"
    using fl.alloc_some [of f n _ t] assms by (auto simp: fl_inv_def)
  have "pend_set f' = pend_set f" "pend_inv f' = pend_inv f" using pend_frame [OF F(5)] by simp_all
  then show ?thesis using F assms(1) unfolding fl_inv_def cache_complete_def by auto
next
  case False
  then show ?thesis using fl.alloc_none [of f n t] assms by (simp add: fl_inv_def)
qed

lemma fl_free_inv:
  assumes "fl_inv f" and "cache_complete f" and "p_id p + unat (p_overflow p) < 2 ^ 64 - 2" and "fl_free f t p = Some f'"
  shows "fl_inv f' \<and> cache_complete f'"
proof -
  have "2 \<le> p_id p" "page_run p \<inter> fl_cache f = {}" using fl_free_panics [of p f t] assms(3,4) by (cases "p_id p \<le> 1"; auto)+
  moreover from this have "page_run p \<inter> (fl_free_set f \<union> fl_cache f) = {}" using assms(2) by (auto simp: cache_complete_def)
  ultimately show ?thesis using fl_free_ok [OF assms(1), of p t] assms by (auto simp: cache_complete_def)
qed

lemma fl_rollback_inv: "fl_inv f \<Longrightarrow> fl_rollback f t = Some f' \<Longrightarrow> fl_inv f'"
  using fl_rollback_ok [of f t] by (cases "fl_pending f t") (auto simp: fl_rollback_def)

lemma fl_rollback_complete:
  assumes "fl_inv f" and "cache_complete f" and "\<And>txp. fl_pending f t = Some txp \<Longrightarrow> own_pages t txp = []" and "fl_rollback f t = Some f'"
  shows "cache_complete f'"
proof (cases "fl_pending f t")
  case None
  then show ?thesis using assms(2,4) by (simp add: fl_rollback_def)
next
  case (Some txp)
  have "set (tp_ids txp) \<subseteq> pend_set f" using Some by (auto simp: pend_set_def)
  then show ?thesis using fl_rollback_ok [OF assms(1) Some] assms(1,2,4) assms(3) [OF Some] by (auto simp: cache_complete_def fl_inv_def)
qed

lemma fl_reach_inv: "fl_reach ReadFrom rng ty f \<Longrightarrow> fl_inv f \<and> cache_complete f"
proof (induction rule: fl_reach.induct)
  case (load bm p ids f)
  then show ?case using load_page_new [of ReadFrom bm p ids ty] by (auto split: if_splits)
next
  case (release f t f' m)
  then show ?case using fl_release_ok [of f t] released_inv released_complete by fastforce
next
  case (releaseRange f b e f' m)
  then show ?case using releaseRange_ok [of f b e] released_inv released_complete by fastforce
next
  case (Rollback f t f')
  then show ?case using fl_rollback_inv fl_rollback_complete by blast
next
  case (rollback_scan f t g ids)
  then show ?case using noSyncReload_exact [of g ids] fl_rollback_inv by blast
next
  case (rollback_load f t g bm p ids h)
  then show ?case using fl_reload_exact [of g ReadFrom bm p ids] fl_rollback_inv by auto
qed (use readIDs_new fl_allocate_inv fl_free_inv in blast)+

end

section \<open>Freelist pages\<close>

lemma flags_or: "(w OR freelistPageFlag) AND freelistPageFlag \<noteq> 0"
proof
  assume "(w OR freelistPageFlag) AND freelistPageFlag = 0"
  then have "bit ((w OR freelistPageFlag) AND freelistPageFlag) 4 = bit (0 :: u16) 4" by simp
  then show False by (simp add: bit_simps)
qed

context map_range
begin

lemma read_ids_total: "8 * n \<le> length data \<Longrightarrow> \<exists>ids. read_ids data n = Some ids \<and> length ids = n"
  by (simp add: read_ids_def)

lemma pg_ok_lt: "pg_ok x \<Longrightarrow> x < 2 ^ 64"
  by (simp add: pg_ok_def)

lemma pend_set_ok: "pend_inv f \<Longrightarrow> x \<in> pend_set f \<Longrightarrow> pg_ok x"
  by (auto simp: pend_inv_def pend_set_def)

text \<open>The page that \<^verbatim>\<open>write\<close> produces, in its two formats.\<close>

lemma fl_write_ok:
  assumes inv: "fl_inv f" and cnt: "fl_count rng f < 2 ^ 63" and room: "8 * (fl_count rng f + 1) \<le> length (p_data p)"
  shows "\<exists>p' ids rest. fl_write rng f p = Some p' \<and> sorted_wrt (<) ids \<and> set ids = fl_free_set f \<union> pend_set f \<and> length ids = fl_count rng f
    \<and> p_flags p' = p_flags p OR freelistPageFlag
    \<and> (if length ids < 0xFFFF then unat (p_count p') = length ids \<and> (ids \<noteq> [] \<longrightarrow> p_data p' = ids_bytes ids @ rest)
       else p_count p' = 0xFFFF \<and> p_data p' = ids_bytes (length ids # ids) @ rest)"
proof -
  let ?l = "fl_count rng f"
  obtain ids where ids: "\<And>dst. length dst = ?l \<Longrightarrow> copyall rng f dst = Some ids" "sorted_wrt (<) ids"
      "set ids = fl_free_set f \<union> pend_set f" "length ids = ?l"
  proof -
    obtain ids where i: "copyall rng f (replicate ?l 0) = Some ids" "sorted_wrt (<) ids" "set ids = fl_free_set f \<union> pend_set f" "length ids = ?l"
      using copyall_ok [OF inv, of "replicate ?l 0"] by auto
    have "copyall rng f dst = Some ids" if l: "length dst = ?l" for dst
    proof -
      obtain ids' where i': "copyall rng f dst = Some ids'" "sorted_wrt (<) ids'" "set ids' = fl_free_set f \<union> pend_set f" using copyall_ok [OF inv l] by blast
      have "ids' = ids" using i(2,3) i'(2,3) by (metis sorted_list_of_set.idem_if_sorted_distinct strict_sorted_iff)
      with i' show ?thesis by simp
    qed
    with i that show thesis by blast
  qed
  consider "?l = 0" | "0 < ?l" "?l < 0xFFFF" | "0xFFFF \<le> ?l" by linarith
  then show ?thesis
  proof cases
    case 1
    then show ?thesis using ids(2-4) by (auto simp: fl_write_def Let_def)
  next
    case 2
    obtain dst where d: "read_ids (p_data p) ?l = Some dst" "length dst = ?l" using read_ids_total [of ?l "p_data p"] room by auto
    have w: "write_ids (p_data p) ids = Some (ids_bytes ids @ drop (8 * ?l) (p_data p))" using write_ids_eq [of ids "p_data p"] ids(4) room by simp
    have "unat (of_nat ?l :: u16) = ?l" using 2 by (simp add: unat_of_nat)
    then show ?thesis using 2 d w ids by (auto simp: fl_write_def Let_def)
  next
    case 3
    obtain dst where d: "read_ids (p_data p) (?l + 1) = Some dst" "length dst = ?l + 1" using read_ids_total [of "?l + 1" "p_data p"] room by auto
    have w: "write_ids (p_data p) (?l # ids) = Some (ids_bytes (?l # ids) @ drop (8 * (?l + 1)) (p_data p))"
      using write_ids_eq [of "?l # ids" "p_data p"] ids(4) room by simp
    show ?thesis using 3 d w ids by (auto simp: fl_write_def Let_def)
  qed
qed

lemma page_ids_list:
  assumes fl: "p_flags p AND freelistPageFlag \<noteq> 0" and ids: "sorted_wrt (<) ids" "\<forall>x \<in> set ids. pg_ok x" "length ids < 2 ^ 63"
    and data: "if length ids < 0xFFFF then unat (p_count p) = length ids \<and> (ids \<noteq> [] \<longrightarrow> p_data p = ids_bytes ids @ rest)
       else p_count p = 0xFFFF \<and> p_data p = ids_bytes (length ids # ids) @ rest"
  shows "page_ids ReadFrom False p = Some ids"
proof -
  have lt: "\<forall>x \<in> set ids. x < 2 ^ 64" using ids(2) pg_ok_lt by blast
  have srt: "sort ids = ids" using ids(1) by (simp add: strict_sorted_iff sorted_sort_id)
  consider "ids = []" | "ids \<noteq> []" "length ids < 0xFFFF" | "0xFFFF \<le> length ids" by linarith
  then show ?thesis
  proof cases
    case 1
    then show ?thesis using data fl by (simp add: page_ids_def page_ids_count_def)
  next
    case 2
    then have c: "page_ids_count p = Some (0, length ids)" "p_data p = ids_bytes ids @ rest" using data fl by (simp_all add: page_ids_count_def)
    then show ?thesis using read_ids_bytes [OF lt, of rest] srt 2 by (simp add: page_ids_def)
  next
    case 3
    then have d: "p_count p = 0xFFFF" "p_data p = ids_bytes [length ids] @ ids_bytes ids @ rest" using data by (simp_all add: ids_bytes_def)
    have "read_ids (p_data p) 1 = Some [length ids]" using read_ids_bytes [of "[length ids]" "ids_bytes ids @ rest"] ids(3) d(2) by simp
    then have c: "page_ids_count p = Some (1, length ids)" using fl d(1) ids(3) by (simp add: page_ids_count_def)
    have "drop 8 (p_data p) = ids_bytes ids @ rest" using length_ids_bytes [of "[length ids]"] d(2) by simp
    then show ?thesis using c read_ids_bytes [OF lt, of rest] srt 3 by (auto simp: page_ids_def)
  qed
qed

end

text \<open>What a reload leaves: the free pages \<open>F\<close>, the pending pages of before, and a cache that knows both.\<close>

definition reloaded :: "freelist \<Rightarrow> freelist \<Rightarrow> pgid set \<Rightarrow> bool" where
  "reloaded g h F \<longleftrightarrow> fl_pending h = fl_pending g \<and> fl_free_set h = F \<and> (\<forall>x. freed h x \<longleftrightarrow> x \<in> F \<union> pend_set g)
     \<and> (\<forall>u p. page_run p \<inter> (F \<union> pend_set g) \<noteq> {} \<and> p_id p + unat (p_overflow p) < 2 ^ 64 \<longrightarrow> fl_free h u p = None)"

lemma reloadedI: "cache_complete h \<Longrightarrow> fl_pending h = fl_pending g \<Longrightarrow> fl_free_set h = F \<Longrightarrow> reloaded g h F"
  using fl_free_panics [of _ h] pend_frame [of h g] by (simp add: reloaded_def cache_complete_def freed_def)

subsection \<open>Bitmap pages\<close>

lemma copyallBitmap_ok:
  assumes "pos + 8 + length (ToBytes rb) \<le> length data"
  shows "\<exists>d. copyallBitmap ToBytes data pos rb (length (ToBytes rb)) = Some d
    \<and> go_slice d pos (pos + 8) = Some (le_enc 8 (of_nat (length (ToBytes rb)) :: u64))
    \<and> go_slice d (pos + 8) (pos + 8 + length (ToBytes rb)) = Some (ToBytes rb) \<and> (\<forall>i j. j \<le> pos \<longrightarrow> go_slice d i j = go_slice data i j)"
proof -
  let ?n = "length (ToBytes rb)"
  obtain a where a: "go_put data pos (le_enc 8 (of_nat ?n :: u64)) = Some a" using go_put_total [of pos "le_enc 8 (of_nat ?n :: u64)" data] assms by auto
  have la: "length a = length data" by (rule go_put_length [OF a])
  obtain d where d: "go_put a (pos + 8) (ToBytes rb) = Some d" using go_put_total [of "pos + 8" "ToBytes rb" a] assms la by auto
  have "go_slice d pos (pos + 8) = go_slice a pos (pos + 8)" by (rule go_put_slice_other [OF d]) simp
  then have 1: "go_slice d pos (pos + 8) = Some (le_enc 8 (of_nat ?n :: u64))" using go_put_slice_same [OF a] by simp
  have 2: "go_slice d (pos + 8) (pos + 8 + ?n) = Some (ToBytes rb)" by (rule go_put_slice_same [OF d]) simp
  have 3: "go_slice d i j = go_slice data i j" if "j \<le> pos" for i j
    using go_put_slice_other [OF a, of j i] go_put_slice_other [OF d, of j i] that by simp
  have "go_slice a (pos + 8) (pos + 8 + ?n) \<noteq> None" using assms la by (simp add: go_slice_def)
  then show ?thesis using a d 1 2 3 by (auto simp: copyallBitmap_def)
qed

lemma read_ids_one: "go_slice data 0 8 = Some (le_enc 8 (of_nat n :: u64)) \<Longrightarrow> n < 2 ^ 64 \<Longrightarrow> read_ids data 1 = Some [n]"
  by (simp add: go_slice_def read_ids_def le_dec_enc unat_of_nat split: if_splits)

text \<open>A bitmap page reads as the ids of its bitmap, in the short and in the long format.\<close>

lemma writeBitmap_ok:
  assumes ids: "ReadFrom (ToBytes rb) = Some ids" "length ids < 2 ^ 63" and len: "length (ToBytes rb) < 2 ^ 63"
    and room: "16 + length (ToBytes rb) \<le> length (p_data p)"
  shows "\<exists>p'. writeBitmap ToBytes p rb (length (ToBytes rb)) (length ids) = Some p' \<and> page_ids ReadFrom True p' = Some ids \<and> p_id p' = p_id p"
proof -
  let ?p = "p\<lparr>p_flags := p_flags p OR freelistPageFlag\<rparr>" and ?l = "length ids" and ?n = "length (ToBytes rb)"
  have fl: "(p_flags p OR freelistPageFlag) AND freelistPageFlag \<noteq> 0" by (rule flags_or)
  have dec: "unat (le_dec (le_enc 8 (of_nat ?n :: u64)) :: u64) = ?n" using len by (simp add: le_dec_enc unat_of_nat)
  consider "?l = 0" | "0 < ?l" "?l < 0xFFFF" | "0xFFFF \<le> ?l" by linarith
  then show ?thesis
  proof cases
    case 1
    then show ?thesis using fl by (simp add: writeBitmap_def Let_def page_ids_def page_ids_count_def)
  next
    case 2
    obtain d where d: "copyallBitmap ToBytes (p_data p) 0 rb ?n = Some d" "go_slice d 0 8 = Some (le_enc 8 (of_nat ?n :: u64))"
        "go_slice d 8 (8 + ?n) = Some (ToBytes rb)"
      using copyallBitmap_ok [of 0 ToBytes rb "p_data p"] room by auto
    have "unat (of_nat ?l :: u16) = ?l" using 2 by (simp add: unat_of_nat)
    then show ?thesis using 2 d fl dec ids(1) by (simp add: writeBitmap_def Let_def page_ids_def page_ids_count_def)
  next
    case 3
    obtain a where a: "go_put (p_data p) 0 (le_enc 8 (of_nat ?l :: u64)) = Some a" using go_put_total [of 0 "le_enc 8 (of_nat ?l :: u64)" "p_data p"] room by auto
    have la: "length a = length (p_data p)" by (rule go_put_length [OF a])
    obtain d where d: "copyallBitmap ToBytes a 8 rb ?n = Some d" "go_slice d 8 16 = Some (le_enc 8 (of_nat ?n :: u64))"
        "go_slice d 16 (16 + ?n) = Some (ToBytes rb)" "go_slice d 0 8 = go_slice a 0 8"
      using copyallBitmap_ok [of 8 ToBytes rb a] room la by auto
    have "read_ids d 1 = Some [?l]" using read_ids_one [of d ?l] d(4) go_put_slice_same [OF a] ids(2) by simp
    then show ?thesis using 3 a d fl dec ids by (simp add: writeBitmap_def Let_def page_ids_def page_ids_count_def)
  qed
qed

lemma bitmap_remove_eq:
  "distinct xs \<Longrightarrow> finite rb \<Longrightarrow> bitmap_remove xs rb n = (rb - set xs, n - int (card (rb \<inter> set xs)))"
proof (induction xs arbitrary: rb n)
  case (Cons x xs)
  show ?case
  proof (cases "x \<in> rb")
    case True
    have "rb \<inter> set (x # xs) = insert x ((rb - {x}) \<inter> set xs)" using True Cons.prems(1) by auto
    then have "card (rb \<inter> set (x # xs)) = Suc (card ((rb - {x}) \<inter> set xs))" using Cons.prems by simp
    moreover have "rb - {x} - set xs = rb - set (x # xs)" by auto
    ultimately show ?thesis using Cons True by simp
  qed (use Cons in auto)
qed simp

context map_range
begin

lemma convertBitmap_eq:
  assumes inv: "fl_inv f"
  shows "convertBitmap rng f = (fl_free_set f \<union> pend_set f, fl_count rng f)"
proof -
  have i: "fl_alloc_inv f" "pend_inv f" using inv by (simp_all add: fl_inv_def)
  have "(\<Union>start \<in> dom (fl_forwardMap f). pg_add start ` {0..<the (fl_forwardMap f start)}) = hset f" if "fl_type f = BdbFreelistMapType"
  proof -
    have "span_inv f" using i(1) that by (simp add: fl_alloc_inv_def)
    then have "s + n \<le> 2 ^ 64 - 2" if "fl_forwardMap f s = Some n" for s n using that unfolding span_inv_def by blast
    then have "s + n < 2 ^ 64" if "fl_forwardMap f s = Some n" for s n using that by fastforce
    then have "pg_add s ` {0..<n} = {s..<s + n}" if "fl_forwardMap f s = Some n" for s n using pg_add_image that by blast
    then have "(\<Union>start \<in> dom (fl_forwardMap f). pg_add start ` {0..<the (fl_forwardMap f start)})
        = (\<Union>start \<in> dom (fl_forwardMap f). {start..<start + the (fl_forwardMap f start)})" by (intro SUP_cong refl) (metis domD option.sel)
    then show ?thesis by (force simp: hset_def)
  qed
  then show ?thesis using pending_ids_ok(1) [OF i(2)]
    by (auto simp: convertBitmap_def fl_free_set_def fl_count_def free_count_def arrayFreeCount_def)
qed

lemma count_eq: "fl_inv f \<Longrightarrow> fl_count rng f = card (fl_free_set f \<union> pend_set f) \<and> finite (fl_free_set f \<union> pend_set f)"
proof -
  assume inv: "fl_inv f"
  have i: "fl_alloc_inv f" "pend_inv f" "fl_free_set f \<inter> pend_set f = {}" using inv by (simp_all add: fl_inv_def)
  note C = fl.ids_fset [OF i(1)] and p = pending_ids_ok [OF i(2)]
  have fin: "finite (fl_free_set f)" "finite (pend_set f)" using C p(1) by (metis List.finite_set)+
  then have "card (fl_free_set f \<union> pend_set f) = card (fl_free_set f) + card (pend_set f)" using i(3) by (rule card_Un_disjoint)
  also have "card (pend_set f) = pending_count rng f" using p distinct_card by metis
  finally show ?thesis using fl.cnt_fset [OF i(1)] fin by (simp add: fl_count_def)
qed

lemma pages_ok: "fl_inv f \<Longrightarrow> x \<in> fl_free_set f \<union> pend_set f \<Longrightarrow> pg_ok x"
  using fl.fset_ok [of f x] pend_set_ok [of f x] by (auto simp: fl_inv_def)

text \<open>What a commit writes: the free and the pending pages that are left after the pages for the freelist itself were allocated.\<close>

lemma commitFreelist_ok:
  assumes inv: "fl_inv f" and cnt: "fl_count rng f < 2 ^ 63" and ps: "16 \<le> pageSize"
    and codec: "\<forall>S. finite S \<and> S \<subseteq> {..<2 ^ 64} \<longrightarrow> ReadFrom (ToBytes S) = Some (sorted_list_of_set S)"
    and size: "\<forall>S T. finite T \<and> S \<subseteq> T \<and> T \<subseteq> {..<2 ^ 64} \<longrightarrow> length (ToBytes S) \<le> length (ToBytes T)"
    and len: "length (ToBytes (fl_free_set f \<union> pend_set f)) < 2 ^ 62"
  shows "\<exists>f' p' m'. commitFreelist ToBytes rng pageSize f mpgid t = Some (f', p', m') \<and> fl_inv f' \<and> fl_pending f' = fl_pending f
    \<and> page_ids ReadFrom True p' = Some (sorted_list_of_set (fl_free_set f' \<union> pend_set f'))
    \<and> (let n = (length (ToBytes (fl_free_set f \<union> pend_set f)) + 16) div pageSize + 2; run = {p_id p'..<p_id p' + n} in
        if \<exists>q. {q..<q + n} \<subseteq> fl_free_set f then m' = mpgid \<and> run \<subseteq> fl_free_set f \<and> fl_free_set f' = fl_free_set f - run
        else p_id p' = mpgid \<and> m' = pg_add mpgid n \<and> f' = f)"
proof -
  let ?S = "fl_free_set f \<union> pend_set f"
  let ?k = "length (ToBytes ?S)"
  define n where "n = (?k + 16) div pageSize + 2"
  note N = count_eq [OF inv]
  have sub: "?S \<subseteq> {..<2 ^ 64}" using pages_ok [OF inv] pg_ok_lt by blast
  have mono: "length (ToBytes S) \<le> ?k" if "S \<subseteq> ?S" for S using size N sub that by blast
  have "(?k + 16) div pageSize \<le> ?k + 16" by (rule div_le_dividend)
  then have "n \<le> ?k + 18" unfolding n_def by linarith
  moreover have "?k + 18 < 2 ^ 63" using len by simp
  ultimately have n: "0 < n" "n < 2 ^ 63" by (simp_all add: n_def)
  have room: "16 + length (ToBytes S) \<le> n * pageSize - 16" if "S \<subseteq> ?S" for S
  proof -
    have "?k + 16 < ((?k + 16) div pageSize + 1) * pageSize" using ps dividend_less_div_times [of pageSize "?k + 16"] by (simp add: add.commute)
    then have "?k + 16 + pageSize < n * pageSize" by (simp add: n_def)
    then show ?thesis using mono [OF that] ps by simp
  qed
  have c: "convertBitmap rng f = (?S, fl_count rng f)" by (rule convertBitmap_eq [OF inv])
  have unf: "commitFreelist ToBytes rng pageSize f mpgid t =
    do {
      (g, p, isFreePage, mpgid) \<leftarrow> db_allocate rng pageSize f mpgid t n;
      (case (if isFreePage then bitmap_remove [p_id p..<pg_add (p_id p) n] ?S (int (fl_count rng f)) else (?S, int (fl_count rng f))) of
         (rb, freeCount) \<Rightarrow>
           do {
             p \<leftarrow> writeBitmap ToBytes p rb (if isFreePage then length (ToBytes rb) else ?k) (nat freeCount);
             Some (g, p, mpgid)
           })
    }"
    by (simp only: commitFreelist_def c n_def Let_def prod.case)
  have step: "\<exists>p'. writeBitmap ToBytes p S (length (ToBytes S)) (card S) = Some p' \<and> page_ids ReadFrom True p' = Some (sorted_list_of_set S) \<and> p_id p' = p_id p"
    if "S \<subseteq> ?S" "length (p_data p) = n * pageSize - 16" for S p
  proof -
    have fin: "finite S" using N that(1) finite_subset by blast
    have "ReadFrom (ToBytes S) = Some (sorted_list_of_set S)" using codec fin that(1) sub by blast
    moreover have "card S < 2 ^ 63" using card_mono [OF conjunct2 [OF N] that(1)] N cnt by linarith
    moreover have "length (ToBytes S) < 2 ^ 63" using mono [OF that(1)] len by simp
    ultimately show ?thesis using writeBitmap_ok [of ReadFrom ToBytes S _ p] room [OF that(1)] that(2) by simp
  qed
  have ai: "fl_alloc_inv f" and dj: "fl_free_set f \<inter> pend_set f = {}" using inv by (simp_all add: fl_inv_def)
  let ?pg = "\<lambda>i. \<lparr>p_id = i, p_flags = 0, p_count = 0, p_overflow = of_nat (n - 1), p_data = replicate (n * pageSize - pageHeaderSize) 0\<rparr>"
  show ?thesis
  proof (cases "\<exists>q. {q..<q + n} \<subseteq> fl_free_set f")
    case True
    obtain f' i where F: "fl_allocate rng f t n = Some (f', i)" "{i..<i + n} \<subseteq> fl_free_set f" "fl_free_set f' = fl_free_set f - {i..<i + n}"
        "fl_pending f' = fl_pending f"
      using fl.alloc_some [OF ai n, of _ t] True by blast
    have I: "fl_inv f'" using fl_allocate_inv [OF inv n F(1)] by blast
    have S': "?S - {i..<i + n} = fl_free_set f' \<union> pend_set f'" using F(2,3) dj pend_frame [OF F(4)] by auto
    have i: "i \<noteq> 0" "i + n < 2 ^ 64"
      using F(2) n(1) pages_ok [OF inv, of i] pages_ok [OF inv, of "i + n - 1"] by (auto simp: pg_ok_def subset_iff)
    have "?S \<inter> {i..<i + n} = {i..<i + n}" using F(2) by blast
    then have r: "bitmap_remove [i..<pg_add i n] ?S (int (fl_count rng f)) = (fl_free_set f' \<union> pend_set f', int (fl_count rng f) - int n)"
      using bitmap_remove_eq [of "[i..<i + n]" ?S "int (fl_count rng f)"] N i(2) S' by simp
    have "card (fl_free_set f' \<union> pend_set f') = fl_count rng f - n"
      unfolding S' [symmetric] using F(2) N by (subst card_Diff_subset) (auto intro: le_supI1)
    then have l: "nat (int (fl_count rng f) - int n) = card (fl_free_set f' \<union> pend_set f')" by (simp add: nat_minus_as_int)
    obtain p' where p': "writeBitmap ToBytes (?pg i) (fl_free_set f' \<union> pend_set f') (length (ToBytes (fl_free_set f' \<union> pend_set f')))
        (card (fl_free_set f' \<union> pend_set f')) = Some p'"
        "page_ids ReadFrom True p' = Some (sorted_list_of_set (fl_free_set f' \<union> pend_set f'))" "p_id p' = i"
      using step [of "fl_free_set f' \<union> pend_set f'" "?pg i"] S' by auto
    have "commitFreelist ToBytes rng pageSize f mpgid t = Some (f', p', mpgid)"
      unfolding unf using F(1) i(1) r l p'(1) by (simp add: db_allocate_def)
    then show ?thesis unfolding n_def [symmetric] using I F p'(2,3) True by (simp add: Let_def)
  next
    case False
    have F: "fl_allocate rng f t n = Some (f, 0)" by (rule fl.alloc_none [OF ai n False])
    obtain p' where p': "writeBitmap ToBytes (?pg mpgid) ?S ?k (card ?S) = Some p'"
        "page_ids ReadFrom True p' = Some (sorted_list_of_set ?S)" "p_id p' = mpgid"
      using step [of ?S "?pg mpgid"] by auto
    have "commitFreelist ToBytes rng pageSize f mpgid t = Some (f, p', pg_add mpgid n)"
      unfolding unf using F p'(1) N by (simp add: db_allocate_def)
    then show ?thesis unfolding n_def [symmetric] using inv p'(2,3) False by (simp add: Let_def)
  qed
qed

end

context map_range
begin

lemmas alloc_some = fl.alloc_some and alloc_none = fl.alloc_none and alloc_cnt = fl.alloc_cnt and fset_ok = fl.fset_ok
  and ids_fset = fl.ids_fset and cnt_fset = fl.cnt_fset

end

section \<open>Properties\<close>

text \<open>C20: for both kinds of freelist, an allocation of \<open>n\<close> pages finds a run of \<open>n\<close> free pages whenever there is one: the run was
  free, it is taken out of the free pages and out of the cache, it is recorded for the transaction, and the number of free pages
  drops by \<open>n\<close>. When there is no such run the allocation returns 0 and changes nothing.\<close>

theorem fl_allocate_spec:
  assumes "map_range rng" and "fl_inv f" and "0 < n" and "n < 2 ^ 63"
  shows "if \<exists>q. {q..<q + n} \<subseteq> fl_free_set f
     then \<exists>f' p. fl_allocate rng f t n = Some (f', p) \<and> 2 \<le> p \<and> {p..<p + n} \<subseteq> fl_free_set f
       \<and> fl_free_set f' = fl_free_set f - {p..<p + n} \<and> fl_cache f' = fl_cache f - {p..<p + n}
       \<and> fl_allocs f' = (fl_allocs f)(p \<mapsto> t) \<and> fl_pending f' = fl_pending f
       \<and> free_count rng f = free_count rng f' + n \<and> fl_inv f'
     else fl_allocate rng f t n = Some (f, 0)"
proof (cases "\<exists>q. {q..<q + n} \<subseteq> fl_free_set f")
  case True
  have ai: "fl_alloc_inv f" using assms(2) by (simp add: fl_inv_def)
  obtain f' p where F: "fl_allocate rng f t n = Some (f', p)" "{p..<p + n} \<subseteq> fl_free_set f" "fl_free_set f' = fl_free_set f - {p..<p + n}"
      "fl_cache f' = fl_cache f - {p..<p + n}" "fl_allocs f' = (fl_allocs f)(p \<mapsto> t)" "fl_pending f' = fl_pending f"
    using map_range.alloc_some [OF assms(1) ai assms(3,4), of _ t] True by blast
  have "p \<in> fl_free_set f" using F(2) assms(3) by auto
  then have "2 \<le> p" using map_range.fset_ok [OF assms(1) ai] by (simp add: pg_ok_def)
  moreover have "free_count rng f = free_count rng f' + n" using map_range.alloc_cnt [OF assms(1) ai assms(3,4) F(1)] \<open>2 \<le> p\<close> by simp
  moreover have "fl_inv f'" using map_range.fl_allocate_inv [OF assms F(1)] by blast
  ultimately show ?thesis using True F by auto
next
  case False
  then show ?thesis using map_range.alloc_none [OF assms(1) _ assms(3,4)] assms(2) by (simp add: fl_inv_def)
qed

text \<open>A freelist with the free run 7, 8 and two pending pages: 5, freed by transaction 3, and 6, freed by transaction 10 and
  allocated by transaction 4.\<close>

definition sample_freelist :: "freelist_type \<Rightarrow> freelist" where
  "sample_freelist ty =
     \<lparr>fl_type = ty, fl_ids = [7, 8], fl_allocs = Map.empty,
      fl_pending = [3 \<mapsto> \<lparr>tp_ids = [5], tp_alloctx = [1], tp_lastReleaseBegin = 0\<rparr>,
                    10 \<mapsto> \<lparr>tp_ids = [6], tp_alloctx = [4], tp_lastReleaseBegin = 0\<rparr>],
      fl_cache = {5, 6, 7, 8}, fl_freemaps = [2 \<mapsto> {7}], fl_forwardMap = [7 \<mapsto> 2], fl_backwardMap = [8 \<mapsto> 2]\<rparr>"

lemma sample_sets:
  "fl_free_set (sample_freelist ty) = {7, 8}" "pend_set (sample_freelist ty) = {5, 6}"
  by (auto simp: sample_freelist_def fl_free_set_def hset_def pend_set_def split: if_splits intro: exI [of _ 3] exI [of _ 10])

lemma sample_inv: "fl_inv (sample_freelist ty)"
proof -
  have "span_inv (sample_freelist ty)" by (auto simp: span_inv_def sample_freelist_def fun_eq_iff)
  moreover have "array_inv (sample_freelist ty)" by (simp add: array_inv_def sample_freelist_def pg_ok_def)
  moreover have "pend_inv (sample_freelist ty)" by (auto simp: pend_inv_def sample_freelist_def pg_ok_def)
  moreover have "fl_cache (sample_freelist ty) = {5, 6, 7, 8}" by (simp add: sample_freelist_def)
  ultimately show ?thesis unfolding fl_inv_def fl_alloc_inv_def sample_sets by auto
qed

lemma sample_type: "fl_type (sample_freelist ty) = ty"
  by (simp add: sample_freelist_def)

lemma sample_pairs: "pend_pairs (sample_freelist ty) = {(3, 5, 1), (10, 6, 4)}"
  by (auto simp: pend_pairs_def sample_freelist_def tp_pairs_def split: if_splits)

theorem fl_allocate_spec_witness:
  "\<exists>f' p. fl_allocate sorted_list_of_set (sample_freelist BdbFreelistMapType) 11 2 = Some (f', p) \<and> p = 7 \<and> fl_free_set f' = {}"
proof -
  let ?f = "sample_freelist BdbFreelistMapType"
  have "{7..<7 + 2} \<subseteq> fl_free_set ?f" unfolding sample_sets by auto
  then have q: "\<exists>q. {q..<q + 2} \<subseteq> fl_free_set ?f" by blast
  obtain f' p where F: "fl_allocate sorted_list_of_set ?f 11 2 = Some (f', p)" "{p..<p + 2} \<subseteq> fl_free_set ?f"
      "fl_free_set f' = fl_free_set ?f - {p..<p + 2}"
    using fl_allocate_spec [OF ascending.map_range_axioms sample_inv [of BdbFreelistMapType], of 2 11, unfolded if_P [OF q]] by auto
  have "p \<in> {7, 8}" "p + 1 \<in> {7, 8}" using F(2) [unfolded sample_sets, THEN subsetD, of p] F(2) [unfolded sample_sets, THEN subsetD, of "p + 1"] by auto
  then have "p = 7" by auto
  with F(1,3) show ?thesis by (auto simp: sample_sets)
qed

text \<open>C21: in every state that a database can bring its freelist to, by opening it from a scan or from a freelist page, by allocations, frees and
  releases, by rollbacks before the commit and by failing commits with their reload, no page is both free and pending, the cache that
  \<^verbatim>\<open>freed\<close> asks holds exactly the free and the pending pages, the list of free pages is strictly ascending, the count is the number of free and
  pending pages, the meta pages 0 and 1 are neither free nor pending, and \<^verbatim>\<open>free\<close> panics on every run of pages that meets a free or a
  pending page. One step is left out, the reload of a freelist of the map kind from a page whose ids are all pending, which breaks this (C25); a rollback
  before the commit is one of a transaction that has freed no page of its own, and page ids stay below the largest 64-bit numbers.\<close>

theorem fl_reach_safe:
  assumes "map_range rng" and "fl_reach ReadFrom rng ty f"
  shows "fl_free_set f \<inter> pend_set f = {} \<and> {x. freed f x} = fl_free_set f \<union> pend_set f
    \<and> sorted_wrt (<) (getFreePageIDs rng f) \<and> set (getFreePageIDs rng f) = fl_free_set f
    \<and> fl_count rng f = card (fl_free_set f \<union> pend_set f) \<and> (\<forall>x \<in> fl_free_set f \<union> pend_set f. 2 \<le> x)
    \<and> (\<forall>t p. page_run p \<inter> (fl_free_set f \<union> pend_set f) \<noteq> {} \<and> p_id p + unat (p_overflow p) < 2 ^ 64 \<longrightarrow> fl_free f t p = None)"
proof -
  have inv: "fl_inv f" and c: "fl_cache f = fl_free_set f \<union> pend_set f"
    using map_range.fl_reach_inv [OF assms] by (simp_all add: cache_complete_def)
  have "fl_alloc_inv f" "fl_free_set f \<inter> pend_set f = {}" using inv by (simp_all add: fl_inv_def)
  moreover have "\<forall>t p. page_run p \<inter> (fl_free_set f \<union> pend_set f) \<noteq> {} \<and> p_id p + unat (p_overflow p) < 2 ^ 64 \<longrightarrow> fl_free f t p = None"
    using fl_free_panics [of _ f] c by simp
  moreover have "\<forall>x \<in> fl_free_set f \<union> pend_set f. 2 \<le> x" using map_range.pages_ok [OF assms(1) inv] by (auto simp: pg_ok_def)
  moreover have "{x. freed f x} = fl_free_set f \<union> pend_set f" using c by (simp add: freed_def del: Un_iff)
  ultimately show ?thesis using map_range.ids_fset [OF assms(1), of f] map_range.count_eq [OF assms(1) inv] by blast
qed

text \<open>A freelist is opened with the free pages 7 and 8, two pages are freed, and freeing page 8 then panics.\<close>

theorem fl_reach_safe_witness:
  "\<exists>f. fl_free (readIDs sorted_list_of_set (newFreelist BdbFreelistMapType) [7, 8]) 3
          \<lparr>p_id = 5, p_flags = 0, p_count = 0, p_overflow = 1, p_data = []\<rparr> = Some f
     \<and> {x. freed f x} = {5, 6, 7, 8} \<and> fl_count sorted_list_of_set f = 4
     \<and> fl_free f 4 \<lparr>p_id = 8, p_flags = 0, p_count = 0, p_overflow = 0, p_data = []\<rparr> = None"
proof -
  let ?n = "readIDs sorted_list_of_set (newFreelist BdbFreelistMapType) [7, 8]"
  let ?p = "\<lparr>p_id = 5, p_flags = 0, p_count = 0, p_overflow = 1, p_data = []\<rparr>"
  have g: "good_ids [7, 8]" by (simp add: good_ids_def pg_ok_def)
  have n: "fl_inv ?n" "fl_cache ?n = {7, 8}" "fl_free_set ?n = {7, 8}" "pend_set ?n = {}"
    using ascending.readIDs_new [OF g, of BdbFreelistMapType] by (simp_all add: cache_complete_def)
  have run: "page_run ?p = {5, 6}" by (auto simp: page_run_def)
  obtain f where f: "fl_free ?n 3 ?p = Some f" "pend_set f = {5, 6}" "fl_free_set f = {7, 8}"
    using fl_free_ok [OF n(1), of ?p 3] unfolding n(2-4) run by auto
  have "fl_reach (\<lambda>_. None) sorted_list_of_set BdbFreelistMapType f" by (rule fl_reach.free [OF fl_reach.scan [OF g] _ f(1)]) simp
  note S = fl_reach_safe [OF ascending.map_range_axioms this, unfolded f]
  have c: "{7, 8} \<union> {5, 6} = {5, 6, 7, 8 :: nat}" by auto
  have "page_run \<lparr>p_id = 8, p_flags = 0, p_count = 0, p_overflow = 0, p_data = []\<rparr> \<inter> {5, 6, 7, 8} \<noteq> {}" by (simp add: page_run_def)
  then show ?thesis using f(1) S unfolding c by (intro exI [of _ f]) simp
qed

text \<open>C22: \<^verbatim>\<open>freePages\<close> makes a pending page free only when no open read transaction can see it, that is when every open
  reader started before the page was allocated or at or after the transaction that freed it. It keeps the invariant, and what it leaves pending
  was freed by a transaction that is not older than some open reader: with no open reader everything is released.\<close>

theorem freePages_safe:
  assumes "map_range rng" and "fl_inv f" and "\<forall>r \<in> set txs. 0 < r \<and> r < 2 ^ 64 - 1"
  shows "\<exists>f' m. freePages rng f txs = Some (f', m) \<and> fl_inv f'
    \<and> fl_free_set f \<subseteq> fl_free_set f' \<and> fl_free_set f' \<union> pend_set f' = fl_free_set f \<union> pend_set f
    \<and> (\<forall>x \<in> fl_free_set f' - fl_free_set f. \<exists>t a. (t, x, a) \<in> pend_pairs f \<and> (\<forall>r \<in> set txs. r < a \<or> t \<le> r))
    \<and> (\<forall>(t, x, a) \<in> pend_pairs f'. t < 2 ^ 64 - 1 \<longrightarrow> (\<exists>r \<in> set txs. r \<le> t))"
proof -
  obtain f' m M where F: "freePages rng f txs = Some (f', m)" "released f f' M" "\<forall>q \<in> pend_pairs f - pend_pairs f'. \<forall>r \<in> set txs. \<not> visible r q"
      "\<forall>(t, p) \<in> pend_pairs f'. t < 2 ^ 64 - 1 \<longrightarrow> (\<exists>r \<in> set txs. r \<le> t)"
    using map_range.freePages_ok [OF assms] by blast
  have R: "fl_inv f'" "fl_free_set f' = fl_free_set f \<union> M" "pend_set f' = pend_set f - M" "M \<subseteq> pend_set f"
      "M = {x. \<exists>t a. (t, x, a) \<in> pend_pairs f - pend_pairs f'}"
    using F(2) unfolding released_def by - (elim conjE, assumption)+
  have vis: "\<exists>t a. (t, x, a) \<in> pend_pairs f \<and> (\<forall>r \<in> set txs. r < a \<or> t \<le> r)" if "x \<in> fl_free_set f' - fl_free_set f" for x
  proof -
    have "x \<in> M" using that R(2) by blast
    then obtain t a where "(t, x, a) \<in> pend_pairs f - pend_pairs f'" using R(5) by auto
    with bspec [OF F(3) this] show ?thesis by (fastforce simp: visible_def not_le not_less)
  qed
  have "fl_free_set f' \<union> pend_set f' = fl_free_set f \<union> pend_set f" using R(2-4) by auto
  moreover have "fl_free_set f \<subseteq> fl_free_set f'" using R(2) by blast
  moreover have "\<forall>(t, x, a) \<in> pend_pairs f'. t < 2 ^ 64 - 1 \<longrightarrow> (\<exists>r \<in> set txs. r \<le> t)" using F(4) by auto
  ultimately show ?thesis using F(1) R(1) vis by blast
qed

theorem freePages_safe_witness:
  "\<exists>f' m. freePages sorted_list_of_set (sample_freelist BdbFreelistArrayType) [5] = Some (f', m) \<and> 6 \<notin> fl_free_set f'"
proof -
  let ?f = "sample_freelist BdbFreelistArrayType"
  obtain f' m where F: "freePages sorted_list_of_set ?f [5] = Some (f', m)" "fl_inv f'" "fl_free_set f' \<union> pend_set f' = fl_free_set ?f \<union> pend_set ?f"
      "\<forall>x \<in> fl_free_set f' - fl_free_set ?f. \<exists>t a. (t, x, a) \<in> pend_pairs ?f \<and> (\<forall>r \<in> set [5]. r < a \<or> t \<le> r)"
      "\<forall>(t, x, a) \<in> pend_pairs f'. t < 2 ^ 64 - 1 \<longrightarrow> (\<exists>r \<in> set [5]. r \<le> t)"
    using freePages_safe [OF ascending.map_range_axioms sample_inv [of BdbFreelistArrayType], of "[5]"] by auto
  have "6 \<notin> fl_free_set f'" using bspec [OF F(4), of 6] by (auto simp: sample_pairs sample_sets)
  with F(1) show ?thesis by blast
qed


text \<open>C23: \<^verbatim>\<open>mergepgids\<close>, which merges by binary searches for runs of the leading list, writes the sorted concatenation of
  two sorted lists to the front of \<open>dst\<close> and leaves the rest of \<open>dst\<close> alone; \<^verbatim>\<open>merge\<close> returns the sorted concatenation. A \<open>dst\<close>
  that is too short is a panic.\<close>

theorem mergepgids_sorts:
  assumes "sorted a" and "sorted b"
  shows "mergepgids dst a b = (if length dst < length a + length b then None else Some (sort (a @ b) @ drop (length a + length b) dst))
    \<and> pgids_merge a b = Some (sort (a @ b))"
  using mergepgids_sorted [OF assms, of dst] pgids_merge_sorted [OF assms] by (simp add: mergepgids_def)

theorem mergepgids_sorts_witness:
  "mergepgids [0, 0, 0, 0, 0, 9] [2, 5, 6] [3, 4] = Some [2, 3, 4, 5, 6, 9] \<and> pgids_merge [2, 5, 6] [3, 4] = Some [2, 3, 4, 5, 6]"
  using mergepgids_sorts [of "[2, 5, 6]" "[3, 4]" "[0, 0, 0, 0, 0, 9]"] by simp


text \<open>A library that stores a set as its ascending ids.\<close>

lemma sample_codec:
  "\<forall>S. finite S \<and> S \<subseteq> {..<2 ^ 64} \<longrightarrow> read_ids (ids_bytes (sorted_list_of_set S)) (length (ids_bytes (sorted_list_of_set S)) div 8) = Some (sorted_list_of_set S)"
  "\<forall>S T. finite T \<and> S \<subseteq> T \<and> T \<subseteq> {..<2 ^ 64} \<longrightarrow> length (ids_bytes (sorted_list_of_set S)) \<le> length (ids_bytes (sorted_list_of_set (T :: nat set)))"
  using read_ids_bytes [of "sorted_list_of_set _" "[]"] by (auto simp: card_mono subset_iff)


text \<open>C25: rolling back a transaction drops the pages that it had freed and keeps the pending pages of all others; the pages that it had itself
  allocated become free without being known as freed, so that freeing them again would go unnoticed. The reload that follows, from a scan or from a freelist
  page with the ids \<open>ids\<close>, makes those ids free that are not pending, and leaves a cache that knows exactly the free and the pending pages, so that \<^verbatim>\<open>free\<close>
  panics on every run that meets one of them. The exception is a freelist of the map kind when no id is left: then \<^verbatim>\<open>init\<close> keeps the spans it finds.
  After \<^verbatim>\<open>noSyncReload\<close>, and after \<^verbatim>\<open>reload\<close> of an empty page, these are the free pages before the reload; after \<^verbatim>\<open>reload\<close> of a page whose ids are
  all pending they are the ids of that page, which are then free and pending at once, and this is the only case in which the invariant is lost.\<close>

theorem rollback_reload:
  assumes "map_range rng" and "fl_inv f" and "fl_pending f t = Some txp" and "good_ids ids"
  shows "\<exists>g. fl_rollback f t = Some g \<and> fl_pending g = (fl_pending f)(t := None) \<and> pend_set g = pend_set f - set (tp_ids txp)
    \<and> fl_free_set g = fl_free_set f \<union> set (own_pages t txp) \<and> (\<forall>x \<in> set (own_pages t txp). \<not> freed g x)
    \<and> fl_inv (noSyncReload rng g ids)
    \<and> reloaded g (noSyncReload rng g ids)
        (if fl_type f = BdbFreelistMapType \<and> set ids \<subseteq> pend_set g then fl_free_set g else set ids - pend_set g)
    \<and> (\<forall>ReadFrom bm p. page_ids ReadFrom bm p = Some ids \<longrightarrow> (\<exists>h. fl_reload ReadFrom rng g p bm = Some h
        \<and> (fl_inv h \<longleftrightarrow> \<not> (fl_type f = BdbFreelistMapType \<and> ids \<noteq> [] \<and> set ids \<subseteq> pend_set g))
        \<and> reloaded g h (if fl_type f = BdbFreelistMapType \<and> set ids \<subseteq> pend_set g then if ids = [] then fl_free_set g else set ids
                        else set ids - pend_set g)))"
proof -
  obtain g where G: "fl_rollback f t = Some g" "fl_inv g" "fl_pending g = (fl_pending f)(t := None)"
      "fl_free_set g = fl_free_set f \<union> set (own_pages t txp)" "pend_set g = pend_set f - set (tp_ids txp)" "fl_cache g = fl_cache f - set (tp_ids txp)"
      "fl_type g = fl_type f"
    using map_range.fl_rollback_ok [OF assms(1-3)] by blast
  have "length (tp_alloctx txp) = length (tp_ids txp)" using assms(2,3) by (simp add: fl_inv_def pend_inv_def)
  then have own: "\<forall>x \<in> set (own_pages t txp). \<not> freed g x" using own_pages_sub(1) [of txp t] G(6) by (auto simp: freed_def)
  note N = map_range.noSyncReload_exact [OF assms(1) G(2) assms(4), unfolded G(7)]
  have R: "\<exists>h. fl_reload ReadFrom rng g p bm = Some h
        \<and> (fl_inv h \<longleftrightarrow> \<not> (fl_type f = BdbFreelistMapType \<and> ids \<noteq> [] \<and> set ids \<subseteq> pend_set g))
        \<and> reloaded g h (if fl_type f = BdbFreelistMapType \<and> set ids \<subseteq> pend_set g then if ids = [] then fl_free_set g else set ids
                        else set ids - pend_set g)" if "page_ids ReadFrom bm p = Some ids" for ReadFrom bm p
    using map_range.fl_reload_exact [OF assms(1) G(2) that assms(4), unfolded G(7)] reloadedI by blast
  show ?thesis using G(1,3-5) own N R reloadedI by blast
qed

text \<open>Transaction 10 of the sample rolls back; the freelist page holds the id 5, which transaction 3 still has pending, or the ids 6, 7 and 8.\<close>

theorem rollback_reload_witness:
  "\<exists>g h. fl_rollback (sample_freelist BdbFreelistMapType) 10 = Some g \<and> pend_set g = {5}
    \<and> fl_free_set (noSyncReload sorted_list_of_set g [6, 7, 8]) = {6, 7, 8}
    \<and> fl_reload (\<lambda>_. None) sorted_list_of_set g
        \<lparr>p_id = 2, p_flags = freelistPageFlag, p_count = 1, p_overflow = 0, p_data = [5, 0, 0, 0, 0, 0, 0, 0]\<rparr> False = Some h
    \<and> fl_free_set h = {5} \<and> pend_set h = {5}"
proof -
  let ?f = "sample_freelist BdbFreelistMapType"
  let ?p = "\<lparr>p_id = 2, p_flags = freelistPageFlag, p_count = 1, p_overflow = 0, p_data = [5, 0, 0, 0, 0, 0, 0, 0]\<rparr>"
  have t: "fl_pending ?f 10 = Some \<lparr>tp_ids = [6], tp_alloctx = [4], tp_lastReleaseBegin = 0\<rparr>" by (simp add: sample_freelist_def)
  have p: "page_ids (\<lambda>_. None) False ?p = Some [5]" by (simp add: page_ids_def page_ids_count_def read_ids_def)
  have d: "{5, 6} - {6} = {5 :: nat}" "{6, 7, 8} - {5} = {6, 7, 8 :: nat}" by auto
  have i: "good_ids [6, 7, 8]" "good_ids [5]" by (simp_all add: good_ids_def pg_ok_def)
  note R = rollback_reload [OF ascending.map_range_axioms sample_inv [of BdbFreelistMapType] t, unfolded sample_sets txPending.simps]
  from R [OF i(1)] obtain g where g: "fl_rollback ?f 10 = Some g" "pend_set g = {5, 6} - set [6]"
      "reloaded g (noSyncReload sorted_list_of_set g [6, 7, 8])
        (if fl_type ?f = BdbFreelistMapType \<and> set [6, 7, 8] \<subseteq> pend_set g then fl_free_set g else set [6, 7, 8] - pend_set g)"
    by (elim exE conjE) (rule that)
  have P: "pend_set g = {5}" using g(2) d(1) by simp
  from R [OF i(2)] obtain g' where g': "fl_rollback ?f 10 = Some g'"
      "\<forall>ReadFrom bm p. page_ids ReadFrom bm p = Some [5] \<longrightarrow> (\<exists>h. fl_reload ReadFrom sorted_list_of_set g' p bm = Some h
        \<and> (fl_inv h \<longleftrightarrow> \<not> (fl_type ?f = BdbFreelistMapType \<and> [5 :: nat] \<noteq> [] \<and> set [5] \<subseteq> pend_set g'))
        \<and> reloaded g' h (if fl_type ?f = BdbFreelistMapType \<and> set [5] \<subseteq> pend_set g' then if [5 :: nat] = [] then fl_free_set g' else set [5]
                        else set [5] - pend_set g'))"
    by (elim exE conjE) (rule that)
  have "g' = g" using g(1) g'(1) by simp
  then obtain h where "fl_reload (\<lambda>_. None) sorted_list_of_set g ?p False = Some h" "reloaded g h {5}"
    using g'(2) [rule_format, OF p] P by (auto simp: sample_type)
  moreover from this have "pend_set h = {5}" using pend_frame [of h g] P by (simp add: reloaded_def)
  ultimately show ?thesis using g(1,3) P by (intro exI [of _ g] exI [of _ h]) (simp add: reloaded_def)
qed

text \<open>C26: a freelist page without ids empties a freelist of the array kind; one of the map kind keeps its old spans, because
  \<^verbatim>\<open>read\<close> resets only \<^verbatim>\<open>ids\<close>, and \<^verbatim>\<open>init\<close> returns at once on an empty list.\<close>

theorem empty_page_keeps_spans:
  assumes "p_flags p AND freelistPageFlag \<noteq> 0" and "p_count p = 0"
  shows "\<exists>f'. fl_read rng f p = Some f' \<and> fl_free_set f' = (if fl_type f = BdbFreelistMapType then fl_free_set f else {})
    \<and> fl_free_set (readIDs rng f []) = (if fl_type f = BdbFreelistMapType then fl_free_set f else {})"
  using assms
  by (simp add: fl_read_def page_ids_count_def fl_free_set_def hset_def readIDs_def hashmapReadIDs_def arrayReadIDs_def reindex_def fl_init_def)

theorem empty_page_keeps_spans_witness:
  "\<exists>f'. fl_read sorted_list_of_set (sample_freelist BdbFreelistMapType)
      \<lparr>p_id = 2, p_flags = freelistPageFlag, p_count = 0, p_overflow = 0, p_data = []\<rparr> = Some f' \<and> fl_free_set f' = {7, 8}"
  using empty_page_keeps_spans [of "\<lparr>p_id = 2, p_flags = freelistPageFlag, p_count = 0, p_overflow = 0, p_data = []\<rparr>" sorted_list_of_set
      "sample_freelist BdbFreelistMapType"]
    sample_sets(1) [of BdbFreelistMapType]
  by (auto simp: sample_type)

end
