(* ===== verification/Merging_Iter.thy ===== *)
theory Merging_Iter
  imports Iterators
begin

text \<open>
  Merging several sorted iterators by a heap (\<^verbatim>\<open>merging_iter.go\<close>; \<^verbatim>\<open>internal/iterator/merging_iter.go\<close> is
  the same code for the tree). The iterators merged are values of any type; the methods of the interface \<^verbatim>\<open>InternalIterator\<close> that
  they implement are the fields of \<open>iter_ops\<close>. An operation returns \<open>None\<close> when it panics or does not return.
\<close>

type_synonym iter_entry = "InternalKey \<times> bytes"
type_synonym 's iter_result = "('s \<times> iter_entry option) option"

datatype iter_error =
  ErrReversePrefix | ErrInvalidKind InternalKeyKind | ErrLevel nat | ErrPrefixBound | ErrNotAtPrev | ErrPausedExhausted

record 's iter_ops =
  op_SeekGE :: "'s \<Rightarrow> bytes \<Rightarrow> 's iter_result"
  op_SeekPrefixGE :: "'s \<Rightarrow> bytes \<Rightarrow> bytes \<Rightarrow> bool \<Rightarrow> 's iter_result"
  op_SeekLT :: "'s \<Rightarrow> bytes \<Rightarrow> 's iter_result"
  op_First :: "'s \<Rightarrow> 's iter_result"
  op_Last :: "'s \<Rightarrow> 's iter_result"
  op_Next :: "'s \<Rightarrow> 's iter_result"
  op_Prev :: "'s \<Rightarrow> 's iter_result"
  op_Error :: "'s \<Rightarrow> iter_error option"
  op_SetBounds :: "'s \<Rightarrow> bytes option \<Rightarrow> bytes option \<Rightarrow> 's"
  op_Close :: "'s \<Rightarrow> iter_error option"

definition FirstError :: "'e option \<Rightarrow> 'e option \<Rightarrow> 'e option" where
  "FirstError err0 err1 = (if err0 \<noteq> None then err0 else err1)"

section \<open>The heap\<close>

record mergingIterItem =
  hi_index :: nat
  hi_key :: InternalKey
  hi_value :: bytes

record mergingIterHeap =
  h_reverse :: bool
  h_items :: "mergingIterItem list"

definition heap_less :: "(bytes \<Rightarrow> bytes \<Rightarrow> int) \<Rightarrow> bool \<Rightarrow> mergingIterItem \<Rightarrow> mergingIterItem \<Rightarrow> bool" where
  "heap_less cmp reverse a b =
     (let ikey = hi_key a; jkey = hi_key b; c = cmp (UserKey ikey) (UserKey jkey) in
      if c \<noteq> 0 then (if reverse then c > 0 else c < 0)
      else if reverse then Trailer ikey < Trailer jkey else Trailer ikey > Trailer jkey)"

definition heap_swap :: "'a list \<Rightarrow> nat \<Rightarrow> nat \<Rightarrow> 'a list" where
  "heap_swap items i j = items[i := items ! j, j := items ! i]"

text \<open>\<^verbatim>\<open>down\<close> returns the items and the place where the item came to rest; the source tells whether that is below \<open>i0\<close>.\<close>

definition smaller_child :: "('a \<Rightarrow> 'a \<Rightarrow> bool) \<Rightarrow> 'a list \<Rightarrow> nat \<Rightarrow> nat \<Rightarrow> nat" where
  "smaller_child lt items i n =
     (let j1 = 2 * i + 1; j2 = j1 + 1 in if j2 < n \<and> lt (items ! j2) (items ! j1) then j2 else j1)"

function down_loop :: "('a \<Rightarrow> 'a \<Rightarrow> bool) \<Rightarrow> 'a list \<Rightarrow> nat \<Rightarrow> nat \<Rightarrow> 'a list \<times> nat" where
  "down_loop lt items i n =
     (if 2 * i + 1 \<ge> n then (items, i)
      else
        let j = smaller_child lt items i n in
        if \<not> lt (items ! j) (items ! i) then (items, i) else down_loop lt (heap_swap items i j) j n)"
  by pat_completeness auto
termination
  by (relation "measure (\<lambda>(lt, items, i, n). n - i)") (auto simp: smaller_child_def Let_def)

declare down_loop.simps [simp del]

definition heap_down :: "('a \<Rightarrow> 'a \<Rightarrow> bool) \<Rightarrow> 'a list \<Rightarrow> nat \<Rightarrow> nat \<Rightarrow> 'a list \<times> bool" where
  "heap_down lt items i0 n = (let (items, i) = down_loop lt items i0 n in (items, i > i0))"

text \<open>The parent of the root is \<open>(0 - 1) / 2 = 0\<close> in Go.\<close>

function heap_up :: "('a \<Rightarrow> 'a \<Rightarrow> bool) \<Rightarrow> 'a list \<Rightarrow> nat \<Rightarrow> 'a list" where
  "heap_up lt items j =
     (let i = (j - 1) div 2 in
      if i = j \<or> \<not> lt (items ! j) (items ! i) then items else heap_up lt (heap_swap items i j) i)"
  by pat_completeness auto
termination
  by (relation "measure (\<lambda>(lt, items, j). j)") auto

declare heap_up.simps [simp del]

definition heap_init :: "('a \<Rightarrow> 'a \<Rightarrow> bool) \<Rightarrow> 'a list \<Rightarrow> 'a list" where
  "heap_init lt items = fold (\<lambda>i items. fst (heap_down lt items i (length items))) (rev [0..<length items div 2]) items"

definition heap_fix :: "('a \<Rightarrow> 'a \<Rightarrow> bool) \<Rightarrow> 'a list \<Rightarrow> nat \<Rightarrow> 'a list" where
  "heap_fix lt items i = (let (items, moved) = heap_down lt items i (length items) in if \<not> moved then heap_up lt items i else items)"

text \<open>\<^verbatim>\<open>pop\<close>: the popped item is the one that was at the root.\<close>

definition heap_pop :: "('a \<Rightarrow> 'a \<Rightarrow> bool) \<Rightarrow> 'a list \<Rightarrow> 'a list" where
  "heap_pop lt items =
     (let n = length items - 1; items = heap_swap items 0 n; items = fst (heap_down lt items 0 n) in take n items)"

section \<open>The merging iterator\<close>

record 's mergingIterLevel =
  lv_iter :: 's
  lv_entry :: "iter_entry option"

record 's mergingIter =
  m_dir :: int
  m_levels :: "'s mergingIterLevel list"
  m_heap :: mergingIterHeap
  m_err :: "iter_error option"
  m_prefix :: "bytes option"
  m_lower :: "bytes option"
  m_upper :: "bytes option"

definition merging_init :: "bytes option \<Rightarrow> bytes option \<Rightarrow> 's list \<Rightarrow> 's mergingIter" where
  "merging_init lower upper iters =
     \<lparr>m_dir = 0, m_levels = map (\<lambda>i. \<lparr>lv_iter = i, lv_entry = None\<rparr>) iters, m_heap = \<lparr>h_reverse = False, h_items = []\<rparr>,
      m_err = None, m_prefix = None, m_lower = lower, m_upper = upper\<rparr>"

text \<open>The loop of \<^verbatim>\<open>initHeap\<close>; the last result tells whether it came to the end.\<close>

fun heap_items :: "'s iter_ops \<Rightarrow> nat \<Rightarrow> 's mergingIterLevel list \<Rightarrow> mergingIterItem list \<Rightarrow> iter_error option \<Rightarrow>
    mergingIterItem list \<times> iter_error option \<times> bool" where
  "heap_items ops i [] items err = (items, err, True)"
| "heap_items ops i (l # ls) items err =
     (case lv_entry l of
        Some (k, v) \<Rightarrow> heap_items ops (Suc i) ls (items @ [\<lparr>hi_index = i, hi_key = k, hi_value = v\<rparr>]) err
      | None \<Rightarrow>
          let err = FirstError err (op_Error ops (lv_iter l)) in
          if err \<noteq> None then (items, err, False) else heap_items ops (Suc i) ls items err)"

definition initHeap :: "'s iter_ops \<Rightarrow> (bytes \<Rightarrow> bytes \<Rightarrow> int) \<Rightarrow> 's mergingIter \<Rightarrow> 's mergingIter" where
  "initHeap ops cmp m =
     (let (items, err, ok) = heap_items ops 0 (m_levels m) [] (m_err m);
          reverse = h_reverse (m_heap m);
          items = (if ok then heap_init (heap_less cmp reverse) items else items)
      in m\<lparr>m_heap := \<lparr>h_reverse = reverse, h_items = items\<rparr>, m_err := err\<rparr>)"

definition initMinHeap :: "'s iter_ops \<Rightarrow> (bytes \<Rightarrow> bytes \<Rightarrow> int) \<Rightarrow> 's mergingIter \<Rightarrow> 's mergingIter" where
  "initMinHeap ops cmp m = initHeap ops cmp (m\<lparr>m_dir := 1, m_heap := (m_heap m)\<lparr>h_reverse := False\<rparr>\<rparr>)"

definition initMaxHeap :: "'s iter_ops \<Rightarrow> (bytes \<Rightarrow> bytes \<Rightarrow> int) \<Rightarrow> 's mergingIter \<Rightarrow> 's mergingIter" where
  "initMaxHeap ops cmp m = initHeap ops cmp (m\<lparr>m_dir := - 1, m_heap := (m_heap m)\<lparr>h_reverse := True\<rparr>\<rparr>)"

text \<open>One positioning call on every level.\<close>

fun each_level :: "('s \<Rightarrow> 's iter_result) \<Rightarrow> 's mergingIterLevel list \<Rightarrow> 's mergingIterLevel list option" where
  "each_level f [] = Some []"
| "each_level f (l # ls) =
     do {
       (s, e) \<leftarrow> f (lv_iter l);
       ls \<leftarrow> each_level f ls;
       Some (\<lparr>lv_iter = s, lv_entry = e\<rparr> # ls)
     }"

definition findNextEntry :: "'s mergingIter \<Rightarrow> iter_entry option" where
  "findNextEntry m =
     (case h_items (m_heap m) of
        item # _ \<Rightarrow> if m_err m = None then Some (hi_key item, hi_value item) else None
      | [] \<Rightarrow> None)"

definition findPrevEntry :: "'s mergingIter \<Rightarrow> iter_entry option" where
  "findPrevEntry m =
     (case h_items (m_heap m) of
        item # _ \<Rightarrow> if m_err m = None then Some (hi_key item, hi_value item) else None
      | [] \<Rightarrow> None)"

definition merging_seekGE :: "'s iter_ops \<Rightarrow> (bytes \<Rightarrow> bytes \<Rightarrow> int) \<Rightarrow> 's mergingIter \<Rightarrow> bytes \<Rightarrow> bool \<Rightarrow> 's mergingIter option" where
  "merging_seekGE ops cmp m key trySeekUsingNext =
     map_option (\<lambda>ls. initMinHeap ops cmp (m\<lparr>m_levels := ls\<rparr>))
       (each_level (\<lambda>s. case m_prefix m of
            Some prefix \<Rightarrow> op_SeekPrefixGE ops s prefix key trySeekUsingNext
          | None \<Rightarrow> op_SeekGE ops s key) (m_levels m))"

definition merging_SeekGE :: "'s iter_ops \<Rightarrow> (bytes \<Rightarrow> bytes \<Rightarrow> int) \<Rightarrow> 's mergingIter \<Rightarrow> bytes \<Rightarrow> 's mergingIter iter_result" where
  "merging_SeekGE ops cmp m key =
     map_option (\<lambda>m. (m, findNextEntry m)) (merging_seekGE ops cmp (m\<lparr>m_err := None, m_prefix := None\<rparr>) key False)"

definition merging_SeekPrefixGE ::
  "'s iter_ops \<Rightarrow> (bytes \<Rightarrow> bytes \<Rightarrow> int) \<Rightarrow> 's mergingIter \<Rightarrow> bytes \<Rightarrow> bytes \<Rightarrow> bool \<Rightarrow> 's mergingIter iter_result" where
  "merging_SeekPrefixGE ops cmp m prefix key trySeekUsingNext =
     map_option (\<lambda>m. (m, findNextEntry m)) (merging_seekGE ops cmp (m\<lparr>m_err := None, m_prefix := Some prefix\<rparr>) key trySeekUsingNext)"

definition merging_seekLT :: "'s iter_ops \<Rightarrow> (bytes \<Rightarrow> bytes \<Rightarrow> int) \<Rightarrow> 's mergingIter \<Rightarrow> bytes \<Rightarrow> 's mergingIter option" where
  "merging_seekLT ops cmp m key =
     (let m = m\<lparr>m_prefix := None\<rparr> in
      map_option (\<lambda>ls. initMaxHeap ops cmp (m\<lparr>m_levels := ls\<rparr>)) (each_level (\<lambda>s. op_SeekLT ops s key) (m_levels m)))"

definition merging_SeekLT :: "'s iter_ops \<Rightarrow> (bytes \<Rightarrow> bytes \<Rightarrow> int) \<Rightarrow> 's mergingIter \<Rightarrow> bytes \<Rightarrow> 's mergingIter iter_result" where
  "merging_SeekLT ops cmp m key =
     map_option (\<lambda>m. (m, findPrevEntry m)) (merging_seekLT ops cmp (m\<lparr>m_err := None, m_prefix := None\<rparr>) key)"

definition merging_First :: "'s iter_ops \<Rightarrow> (bytes \<Rightarrow> bytes \<Rightarrow> int) \<Rightarrow> 's mergingIter \<Rightarrow> 's mergingIter iter_result" where
  "merging_First ops cmp m =
     (let m = m\<lparr>m_err := None, m_prefix := None, m_heap := (m_heap m)\<lparr>h_items := []\<rparr>\<rparr> in
      map_option (\<lambda>ls. let m = initMinHeap ops cmp (m\<lparr>m_levels := ls\<rparr>) in (m, findNextEntry m))
        (each_level (op_First ops) (m_levels m)))"

definition merging_Last :: "'s iter_ops \<Rightarrow> (bytes \<Rightarrow> bytes \<Rightarrow> int) \<Rightarrow> 's mergingIter \<Rightarrow> 's mergingIter iter_result" where
  "merging_Last ops cmp m =
     (let m = m\<lparr>m_err := None, m_prefix := None\<rparr> in
      map_option (\<lambda>ls. let m = initMaxHeap ops cmp (m\<lparr>m_levels := ls\<rparr>) in (m, findPrevEntry m))
        (each_level (op_Last ops) (m_levels m)))"

text \<open>The loops that bring the other levels past the current key when the direction changes.\<close>

partial_function (option) skip_to :: "('s \<Rightarrow> 's iter_result) \<Rightarrow> (InternalKey \<Rightarrow> bool) \<Rightarrow> 's \<times> iter_entry option \<Rightarrow> 's iter_result" where
  "skip_to step stop r =
     (case snd r of
        None \<Rightarrow> Some r
      | Some e \<Rightarrow> if stop (fst e) then Some r else Option.bind (step (fst r)) (\<lambda>r. skip_to step stop r))"

fun switch_levels ::
  "('s \<Rightarrow> 's iter_result) \<Rightarrow> ('s \<Rightarrow> 's iter_result) \<Rightarrow> (InternalKey \<Rightarrow> bool) \<Rightarrow> nat \<Rightarrow> nat \<Rightarrow>
   's mergingIterLevel list \<Rightarrow> 's mergingIterLevel list option" where
  "switch_levels restart step stop cur i [] = Some []"
| "switch_levels restart step stop cur i (l # ls) =
     do {
       l \<leftarrow> (if i = cur then Some l
             else
               do {
                 r \<leftarrow> (if lv_entry l = None then restart (lv_iter l) else Some (lv_iter l, lv_entry l));
                 (s, e) \<leftarrow> skip_to step stop r;
                 Some \<lparr>lv_iter = s, lv_entry = e\<rparr>
               });
       ls \<leftarrow> switch_levels restart step stop cur (Suc i) ls;
       Some (l # ls)
     }"

definition move_level :: "('s \<Rightarrow> 's iter_result) \<Rightarrow> 's mergingIterLevel list \<Rightarrow> nat \<Rightarrow> 's mergingIterLevel list option" where
  "move_level step ls i = map_option (\<lambda>(s, e). ls[i := \<lparr>lv_iter = s, lv_entry = e\<rparr>]) (step (lv_iter (ls ! i)))"

definition switchToMinHeap :: "'s iter_ops \<Rightarrow> (bytes \<Rightarrow> bytes \<Rightarrow> int) \<Rightarrow> 's mergingIter \<Rightarrow> 's mergingIter option" where
  "switchToMinHeap ops cmp m =
     (case h_items (m_heap m) of
        [] \<Rightarrow> map_option fst (case m_lower m of Some lower \<Rightarrow> merging_SeekGE ops cmp m lower | None \<Rightarrow> merging_First ops cmp m)
      | item # _ \<Rightarrow>
          let key = hi_key item; cur = hi_index item;
              restart = (\<lambda>s. case m_lower m of Some lower \<Rightarrow> op_SeekGE ops s lower | None \<Rightarrow> op_First ops s)
          in do {
            ls \<leftarrow> switch_levels restart (op_Next ops) (\<lambda>k. InternalCompare cmp key k < 0) cur 0 (m_levels m);
            ls \<leftarrow> move_level (op_Next ops) ls cur;
            Some (initMinHeap ops cmp (m\<lparr>m_levels := ls\<rparr>))
          })"

definition switchToMaxHeap :: "'s iter_ops \<Rightarrow> (bytes \<Rightarrow> bytes \<Rightarrow> int) \<Rightarrow> 's mergingIter \<Rightarrow> 's mergingIter option" where
  "switchToMaxHeap ops cmp m =
     (case h_items (m_heap m) of
        [] \<Rightarrow> map_option fst (case m_upper m of Some upper \<Rightarrow> merging_SeekLT ops cmp m upper | None \<Rightarrow> merging_Last ops cmp m)
      | item # _ \<Rightarrow>
          let key = hi_key item; cur = hi_index item;
              restart = (\<lambda>s. case m_upper m of Some upper \<Rightarrow> op_SeekLT ops s upper | None \<Rightarrow> op_Last ops s)
          in do {
            ls \<leftarrow> switch_levels restart (op_Prev ops) (\<lambda>k. InternalCompare cmp key k > 0) cur 0 (m_levels m);
            ls \<leftarrow> move_level (op_Prev ops) ls cur;
            Some (initMaxHeap ops cmp (m\<lparr>m_levels := ls\<rparr>))
          })"

text \<open>Moving the level at the root of the heap; \<open>None\<close> for an empty heap, on which the source does not call it.\<close>

definition step_entry :: "'s iter_ops \<Rightarrow> (bytes \<Rightarrow> bytes \<Rightarrow> int) \<Rightarrow> ('s \<Rightarrow> 's iter_result) \<Rightarrow> 's mergingIter \<Rightarrow> 's mergingIter option" where
  "step_entry ops cmp step m =
     (case h_items (m_heap m) of
        [] \<Rightarrow> None
      | item # rest \<Rightarrow>
          let i = hi_index item; lt = heap_less cmp (h_reverse (m_heap m)) in
          do {
            (s, e) \<leftarrow> step (lv_iter (m_levels m ! i));
            let m = m\<lparr>m_levels := (m_levels m)[i := \<lparr>lv_iter = s, lv_entry = e\<rparr>]\<rparr>;
            Some (case e of
                Some (k, v) \<Rightarrow>
                  let items = item\<lparr>hi_key := k, hi_value := v\<rparr> # rest in
                  m\<lparr>m_heap := (m_heap m)\<lparr>h_items := (if length items > 1 then heap_fix lt items 0 else items)\<rparr>\<rparr>
              | None \<Rightarrow>
                  let err = op_Error ops s in
                  if err = None
                  then m\<lparr>m_err := err, m_heap := (m_heap m)\<lparr>h_items := heap_pop lt (item # rest)\<rparr>\<rparr>
                  else m\<lparr>m_err := err\<rparr>)
          })"

definition nextEntry :: "'s iter_ops \<Rightarrow> (bytes \<Rightarrow> bytes \<Rightarrow> int) \<Rightarrow> 's mergingIter \<Rightarrow> 's mergingIter option" where
  "nextEntry ops cmp m = step_entry ops cmp (op_Next ops) m"

definition prevEntry :: "'s iter_ops \<Rightarrow> (bytes \<Rightarrow> bytes \<Rightarrow> int) \<Rightarrow> 's mergingIter \<Rightarrow> 's mergingIter option" where
  "prevEntry ops cmp m = step_entry ops cmp (op_Prev ops) m"

definition merging_Next :: "'s iter_ops \<Rightarrow> (bytes \<Rightarrow> bytes \<Rightarrow> int) \<Rightarrow> 's mergingIter \<Rightarrow> 's mergingIter iter_result" where
  "merging_Next ops cmp m =
     (if m_err m \<noteq> None then Some (m, None)
      else if m_dir m \<noteq> 1 then map_option (\<lambda>m. (m, findNextEntry m)) (switchToMinHeap ops cmp m)
      else if h_items (m_heap m) = [] then Some (m, None)
      else map_option (\<lambda>m. (m, findNextEntry m)) (nextEntry ops cmp m))"

definition merging_Prev :: "'s iter_ops \<Rightarrow> (bytes \<Rightarrow> bytes \<Rightarrow> int) \<Rightarrow> 's mergingIter \<Rightarrow> 's mergingIter iter_result" where
  "merging_Prev ops cmp m =
     (if m_err m \<noteq> None then Some (m, None)
      else if m_dir m \<noteq> - 1 then
        (if m_prefix m \<noteq> None then Some (m\<lparr>m_err := Some ErrReversePrefix\<rparr>, None)
         else map_option (\<lambda>m. (m, findPrevEntry m)) (switchToMaxHeap ops cmp m))
      else if h_items (m_heap m) = [] then Some (m, None)
      else map_option (\<lambda>m. (m, findPrevEntry m)) (prevEntry ops cmp m))"

definition merging_Error :: "'s iter_ops \<Rightarrow> 's mergingIter \<Rightarrow> iter_error option" where
  "merging_Error ops m =
     (case h_items (m_heap m) of
        [] \<Rightarrow> m_err m
      | item # _ \<Rightarrow> if m_err m \<noteq> None then m_err m else op_Error ops (lv_iter (m_levels m ! hi_index item)))"

definition merging_Close :: "'s iter_ops \<Rightarrow> 's mergingIter \<Rightarrow> 's mergingIter \<times> iter_error option" where
  "merging_Close ops m =
     (let err = fold (\<lambda>l err. if op_Close ops (lv_iter l) \<noteq> None \<and> err = None then op_Close ops (lv_iter l) else err) (m_levels m) (m_err m)
      in (m\<lparr>m_err := err, m_levels := [], m_heap := (m_heap m)\<lparr>h_items := []\<rparr>\<rparr>, err))"

definition merging_SetBounds :: "'s iter_ops \<Rightarrow> 's mergingIter \<Rightarrow> bytes option \<Rightarrow> bytes option \<Rightarrow> 's mergingIter" where
  "merging_SetBounds ops m lower upper =
     m\<lparr>m_prefix := None, m_lower := lower, m_upper := upper,
       m_levels := map (\<lambda>l. l\<lparr>lv_iter := op_SetBounds ops (lv_iter l) lower upper\<rparr>) (m_levels m),
       m_heap := (m_heap m)\<lparr>h_items := []\<rparr>\<rparr>"


section \<open>The heap orders its items\<close>

definition child_of :: "nat \<Rightarrow> nat \<Rightarrow> bool" where
  "child_of p c \<longleftrightarrow> c = 2 * p + 1 \<or> c = 2 * p + 2"

definition heap_on :: "('a \<Rightarrow> 'a \<Rightarrow> bool) \<Rightarrow> 'a list \<Rightarrow> nat \<Rightarrow> nat \<Rightarrow> bool" where
  "heap_on lt items k n \<longleftrightarrow> (\<forall>p c. k \<le> p \<and> child_of p c \<and> c < n \<longrightarrow> \<not> lt (items ! c) (items ! p))"

text \<open>A heap but for the item at \<open>i\<close>, which may be too large.\<close>

definition heap_but :: "('a \<Rightarrow> 'a \<Rightarrow> bool) \<Rightarrow> 'a list \<Rightarrow> nat \<Rightarrow> nat \<Rightarrow> nat \<Rightarrow> bool" where
  "heap_but lt items k n i \<longleftrightarrow> (\<forall>p c. k \<le> p \<and> p \<noteq> i \<and> child_of p c \<and> c < n \<longrightarrow> \<not> lt (items ! c) (items ! p))
     \<and> (\<forall>p c. k \<le> p \<and> child_of p i \<and> child_of i c \<and> c < n \<longrightarrow> \<not> lt (items ! c) (items ! p))"

lemma mset_heap_swap: "i < length items \<Longrightarrow> j < length items \<Longrightarrow> mset (heap_swap items i j) = mset items"
  by (simp add: heap_swap_def mset_swap)

lemma heap_swap_simps [simp]: "length (heap_swap items i j) = length items"
  by (simp add: heap_swap_def)

lemma nth_heap_swap:
  "i < length items \<Longrightarrow> j < length items \<Longrightarrow> heap_swap items i j ! k = (if k = i then items ! j else if k = j then items ! i else items ! k)"
  by (auto simp: heap_swap_def nth_list_update)

lemma smaller_child_ok:
  assumes "2 * i + 1 < n"
  shows "child_of i (smaller_child lt items i n)" and "smaller_child lt items i n < n" and "i < smaller_child lt items i n"
  using assms by (auto simp: smaller_child_def child_of_def Let_def)

locale weak_order =
  fixes lt :: "'a \<Rightarrow> 'a \<Rightarrow> bool"
  assumes asym: "lt a b \<Longrightarrow> \<not> lt b a" and not_trans: "\<not> lt a b \<Longrightarrow> \<not> lt b c \<Longrightarrow> \<not> lt a c"
begin

lemma smaller_child_least:
  assumes "2 * i + 1 < n" and "child_of i c" and "c < n"
  shows "\<not> lt (items ! c) (items ! smaller_child lt items i n)"
  using assms asym [of "items ! (2 * i + 2)" "items ! (2 * i + 1)"] asym [of "items ! c" "items ! c"]
  by (auto simp: smaller_child_def child_of_def Let_def)

lemma heap_but_step:
  assumes b: "heap_but lt items k n i" and i: "k \<le> i" "2 * i + 1 < n" "n \<le> length items"
    and j: "j = smaller_child lt items i n" and less: "lt (items ! j) (items ! i)"
  shows "heap_but lt (heap_swap items i j) k n j"
proof -
  have J: "child_of i j" "j < n" "i < j" using smaller_child_ok [OF i(2)] by (simp_all add: j)
  have nth: "heap_swap items i j ! x = (if x = i then items ! j else if x = j then items ! i else items ! x)" for x
    using nth_heap_swap [of i items j x] i J by simp
  have least: "\<not> lt (items ! c) (items ! j)" if "child_of i c" "c < n" for c using smaller_child_least [OF i(2) that] by (simp add: j)
  have ok: "\<not> lt (items ! c) (items ! p)" if "k \<le> p" "p \<noteq> i" "child_of p c" "c < n" for p c using b that by (auto simp: heap_but_def)
  have gp: "\<not> lt (items ! c) (items ! p)" if "k \<le> p" "child_of p i" "child_of i c" "c < n" for p c using b that by (auto simp: heap_but_def)
  have "\<not> lt (heap_swap items i j ! c) (heap_swap items i j ! p)" if pc: "k \<le> p" "p \<noteq> j" "child_of p c" "c < n" for p c
  proof -
    have ne: "c \<noteq> p" "p < c" using pc(3) by (auto simp: child_of_def)
    consider "p = i" "c = j" | "p = i" "c \<noteq> j" | "p \<noteq> i" "c = i" | "p \<noteq> i" "c = j" | "p \<noteq> i" "c \<noteq> i" "c \<noteq> j" by blast
    then show ?thesis
    proof cases
      case 1
      then show ?thesis using asym [OF less] J(3) by (simp add: nth)
    next
      case 2
      then show ?thesis using least [of c] pc ne by (simp add: nth)
    next
      case 3
      then show ?thesis using gp [of p j] pc J by (simp add: nth)
    next
      case 4
      then have "p = i" using pc(3) J(1) by (auto simp: child_of_def)
      with 4 show ?thesis by simp
    next
      case 5
      then show ?thesis using ok [of p c] pc by (simp add: nth)
    qed
  qed
  moreover have "\<not> lt (heap_swap items i j ! c) (heap_swap items i j ! p)" if pc: "k \<le> p" "child_of p j" "child_of j c" "c < n" for p c
  proof -
    have "p = i" "c \<noteq> i" "c \<noteq> j" using pc J by (auto simp: child_of_def)
    then show ?thesis using ok [of j c] pc J i(1) by (simp add: nth)
  qed
  ultimately show ?thesis unfolding heap_but_def by blast
qed

lemma down_loop_heap:
  assumes "heap_but lt items k n i" and "k \<le> i" and "n \<le> length items"
  shows "heap_on lt (fst (down_loop lt items i n)) k n \<and> mset (fst (down_loop lt items i n)) = mset items
    \<and> drop n (fst (down_loop lt items i n)) = drop n items"
  using assms
proof (induction "n - i" arbitrary: items i rule: less_induct)
  case less
  let ?j = "smaller_child lt items i n"
  note b = less.prems(1) [unfolded heap_but_def]
  show ?case
  proof (cases "2 * i + 1 < n")
    case True
    note J = smaller_child_ok [OF True, of lt items]
    show ?thesis
    proof (cases "lt (items ! ?j) (items ! i)")
      case lt: True
      let ?items = "heap_swap items i ?j"
      have e: "down_loop lt items i n = down_loop lt ?items ?j n" using True lt by (subst down_loop.simps) (simp add: Let_def)
      have "heap_but lt ?items k n ?j" by (rule heap_but_step [OF less.prems(1,2) True less.prems(3) refl lt])
      moreover have "n - ?j < n - i" "k \<le> ?j" "n \<le> length ?items" using J True less.prems(2,3) by auto
      ultimately have "heap_on lt (fst (down_loop lt ?items ?j n)) k n \<and> mset (fst (down_loop lt ?items ?j n)) = mset ?items
          \<and> drop n (fst (down_loop lt ?items ?j n)) = drop n ?items" using less.hyps [of ?j ?items] by blast
      moreover have "mset ?items = mset items" using mset_heap_swap [of i items ?j] J True less.prems(3) by simp
      moreover have "drop n ?items = drop n items" using J True by (simp add: heap_swap_def)
      ultimately show ?thesis unfolding e by simp
    next
      case False
      have e: "down_loop lt items i n = (items, i)" using False by (subst down_loop.simps) (simp add: Let_def)
      have "\<not> lt (items ! c) (items ! i)" if "child_of i c" "c < n" for c
        using not_trans [OF smaller_child_least [OF True that] False] .
      then have "heap_on lt items k n" unfolding heap_on_def using b by metis
      then show ?thesis by (simp add: e)
    qed
  next
    case False
    have e: "down_loop lt items i n = (items, i)" using False by (subst down_loop.simps) simp
    have "\<not> (child_of i c \<and> c < n)" for c using False by (auto simp: child_of_def)
    then have "heap_on lt items k n" unfolding heap_on_def using b by metis
    then show ?thesis by (simp add: e)
  qed
qed

lemma heap_on_but: "heap_on lt items (Suc i) n \<Longrightarrow> heap_but lt items i n i"
  unfolding heap_on_def heap_but_def by (auto simp: child_of_def)

lemma heap_down_heap:
  assumes "heap_on lt items (Suc i) n" and "n \<le> length items"
  shows "heap_on lt (fst (heap_down lt items i n)) i n" and "mset (fst (heap_down lt items i n)) = mset items"
    and "drop n (fst (heap_down lt items i n)) = drop n items"
  using down_loop_heap [OF heap_on_but [OF assms(1)] order_refl assms(2)] by (simp_all add: heap_down_def case_prod_beta)

lemma heap_init_loop:
  "heap_on lt items m (length items) \<Longrightarrow>
   heap_on lt (fold (\<lambda>i items. fst (heap_down lt items i (length items))) (rev [0..<m]) items) 0 (length items)
   \<and> mset (fold (\<lambda>i items. fst (heap_down lt items i (length items))) (rev [0..<m]) items) = mset items"
proof (induction m arbitrary: items)
  case (Suc m)
  let ?items = "fst (heap_down lt items m (length items))"
  have D: "heap_on lt ?items m (length items)" "mset ?items = mset items" using heap_down_heap [OF Suc.prems order_refl] by simp_all
  then have "length ?items = length items" by (metis size_mset)
  with Suc.IH [of ?items] D show ?case by simp
qed simp

lemma heap_init_heap: "heap_on lt (heap_init lt items) 0 (length items)" and mset_heap_init: "mset (heap_init lt items) = mset items"
proof -
  have "heap_on lt items (length items div 2) (length items)" by (auto simp: heap_on_def child_of_def)
  from heap_init_loop [OF this] show "heap_on lt (heap_init lt items) 0 (length items)" "mset (heap_init lt items) = mset items"
    by (simp_all add: heap_init_def)
qed

lemma heap_fix_heap:
  assumes "heap_on lt items 1 (length items)"
  shows "heap_on lt (heap_fix lt items 0) 0 (length items)" and "mset (heap_fix lt items 0) = mset items"
proof -
  have up: "heap_up lt xs 0 = xs" for xs by (subst heap_up.simps) simp
  have "heap_fix lt items 0 = fst (heap_down lt items 0 (length items))" by (simp add: heap_fix_def up split: prod.split)
  then show "heap_on lt (heap_fix lt items 0) 0 (length items)" "mset (heap_fix lt items 0) = mset items"
    using heap_down_heap [of items 0 "length items"] assms by simp_all
qed

lemma heap_tail: "heap_on lt (x # items) 0 n \<Longrightarrow> heap_on lt (y # items) 1 n"
proof -
  assume h: "heap_on lt (x # items) 0 n"
  have nth: "(y # items) ! i = (x # items) ! i" if "0 < i" for i using that by (cases i) auto
  show ?thesis unfolding heap_on_def
  proof (intro allI impI, elim conjE)
    fix p c assume "1 \<le> p" "child_of p c" "c < n"
    moreover from this have "0 < p" "0 < c" by (auto simp: child_of_def)
    ultimately show "\<not> lt ((y # items) ! c) ((y # items) ! p)" using h by (auto simp only: heap_on_def nth)
  qed
qed

lemma heap_pop_heap:
  assumes "heap_on lt (x # items) 0 (Suc (length items))"
  shows "heap_on lt (heap_pop lt (x # items)) 0 (length items)" and "mset (heap_pop lt (x # items)) = mset items"
proof -
  let ?n = "length items" and ?s = "heap_swap (x # items) 0 (length items)"
  have nth: "?s ! i = (if i = 0 then (x # items) ! ?n else if i = ?n then x else (x # items) ! i)" for i
    using nth_heap_swap [of 0 "x # items" ?n i] by simp
  have "heap_on lt ?s (Suc 0) ?n" unfolding heap_on_def
  proof (intro allI impI, elim conjE)
    fix p c assume "Suc 0 \<le> p" "child_of p c" "c < ?n"
    moreover from this have "p \<noteq> 0" "p \<noteq> ?n" "c \<noteq> 0" "c \<noteq> ?n" by (auto simp: child_of_def)
    moreover have "\<not> lt ((x # items) ! c) ((x # items) ! p)" using assms [unfolded heap_on_def, rule_format, of p c] calculation by linarith
    ultimately show "\<not> lt (?s ! c) (?s ! p)" by (simp only: nth if_False not_False_eq_True)
  qed
  note D = heap_down_heap [OF this, simplified]
  let ?d = "fst (heap_down lt ?s 0 ?n)"
  have e: "heap_pop lt (x # items) = take ?n ?d" by (simp add: heap_pop_def Let_def)
  show "heap_on lt (heap_pop lt (x # items)) 0 ?n" using D(1) by (auto simp: e heap_on_def child_of_def)
  have "drop ?n ?s = [x]" using nth [of ?n] by (intro nth_equalityI) (auto simp: nth_Cons')
  then have "mset (take ?n ?d) + {#x#} = mset ?d" using D(3) by (metis append_take_drop_id mset_append mset_single_iff_right mset.simps)
  also have "\<dots> = mset (x # items)" using D(2) mset_heap_swap [of 0 "x # items" ?n] by simp
  finally show "mset (heap_pop lt (x # items)) = mset items" by (simp add: e)
qed

lemma heap_root_least: "heap_on lt items 0 n \<Longrightarrow> j < n \<Longrightarrow> \<not> lt (items ! j) (items ! 0)"
proof (induction j rule: less_induct)
  case (less j)
  show ?case
  proof (cases "j = 0")
    case True
    then show ?thesis using asym by auto
  next
    case False
    let ?p = "(j - 1) div 2"
    have "child_of ?p j" "?p < j" using False unfolding child_of_def by presburger+
    then have "\<not> lt (items ! j) (items ! ?p)" using less.prems by (auto simp: heap_on_def)
    then show ?thesis using not_trans less.IH [of ?p] less.prems \<open>?p < j\<close> by (meson less_trans)
  qed
qed

end


section \<open>Merging\<close>

text \<open>The order of the entries in the direction of iteration.\<close>

definition entry_lt :: "(bytes \<Rightarrow> bytes \<Rightarrow> int) \<Rightarrow> bool \<Rightarrow> iter_entry \<Rightarrow> iter_entry \<Rightarrow> bool" where
  "entry_lt cmp reverse a b \<longleftrightarrow>
     (if reverse then InternalCompare cmp (fst b) (fst a) < 0 else InternalCompare cmp (fst a) (fst b) < 0)"

definition item_entry :: "mergingIterItem \<Rightarrow> iter_entry" where
  "item_entry x = (hi_key x, hi_value x)"

context total_cmp
begin

lemma heap_less_entry: "heap_less cmp reverse x y \<longleftrightarrow> entry_lt cmp reverse (item_entry x) (item_entry y)"
  using cmp_refl [of "UserKey (hi_key x)" "UserKey (hi_key y)"] cmp_refl [of "UserKey (hi_key y)" "UserKey (hi_key x)"]
    cmp_sym [of "UserKey (hi_key x)" "UserKey (hi_key y)"]
  by (auto simp: heap_less_def entry_lt_def item_entry_def InternalCompare_neg Let_def)

lemma entry_lt_asym: "entry_lt cmp reverse a b \<Longrightarrow> \<not> entry_lt cmp reverse b a"
  using InternalCompare_sym [of "fst a" "fst b"] InternalCompare_sym [of "fst b" "fst a"] by (auto simp: entry_lt_def split: if_splits)

lemma entry_le_trans: "\<not> entry_lt cmp reverse a b \<Longrightarrow> \<not> entry_lt cmp reverse b c \<Longrightarrow> \<not> entry_lt cmp reverse a c"
  using InternalCompare_le_trans [of "fst a" "fst b" "fst c"] InternalCompare_le_trans [of "fst c" "fst b" "fst a"]
    InternalCompare_sym [of "fst a" "fst b"] InternalCompare_sym [of "fst b" "fst c"] InternalCompare_sym [of "fst a" "fst c"]
    InternalCompare_sym [of "fst b" "fst a"] InternalCompare_sym [of "fst c" "fst b"] InternalCompare_sym [of "fst c" "fst a"]
  unfolding entry_lt_def by (cases reverse) (simp; linarith)+

end

sublocale total_cmp \<subseteq> heap_order: weak_order "heap_less cmp reverse" for reverse
proof
  show "heap_less cmp reverse a b \<Longrightarrow> \<not> heap_less cmp reverse b a" for a b
    unfolding heap_less_entry by (rule entry_lt_asym)
  show "\<not> heap_less cmp reverse a b \<Longrightarrow> \<not> heap_less cmp reverse b c \<Longrightarrow> \<not> heap_less cmp reverse a c" for a b c
    unfolding heap_less_entry by (rule entry_le_trans)
qed

text \<open>The heads of the levels, as the heap holds them.\<close>

definition head_item :: "nat \<Rightarrow> iter_entry list \<Rightarrow> mergingIterItem list" where
  "head_item i r = (case r of [] \<Rightarrow> [] | e # _ \<Rightarrow> [\<lparr>hi_index = i, hi_key = fst e, hi_value = snd e\<rparr>])"

definition heads :: "nat \<Rightarrow> iter_entry list list \<Rightarrow> mergingIterItem list" where
  "heads i rems = concat (map2 head_item [i..<i + length rems] rems)"

lemma heads_simps [simp]: "heads i [] = []" "heads i (r # rems) = head_item i r @ heads (Suc i) rems"
  by (simp_all add: heads_def upt_conv_Cons del: upt_Suc)

lemma head_item_simps [simp]:
  "head_item i [] = []" "head_item i (e # r) = [\<lparr>hi_index = i, hi_key = fst e, hi_value = snd e\<rparr>]"
  by (simp_all add: head_item_def)

lemma heads_member:
  "x \<in> set (heads i rems) \<longleftrightarrow> (\<exists>j < length rems. rems ! j \<noteq> [] \<and> x = \<lparr>hi_index = i + j, hi_key = fst (hd (rems ! j)), hi_value = snd (hd (rems ! j))\<rparr>)"
proof (induction rems arbitrary: i)
  case (Cons r rems)
  show ?case by (cases r) (auto simp: Cons.IH Ex_less_Suc2)
qed simp

lemma heads_update:
  "j < length rems \<Longrightarrow> mset (heads i (rems[j := r])) + mset (head_item (i + j) (rems ! j)) = mset (heads i rems) + mset (head_item (i + j) r)"
proof (induction rems arbitrary: i j)
  case (Cons r' rems)
  show ?case
  proof (cases j)
    case (Suc k)
    then show ?thesis using Cons.IH [of k "Suc i"] Cons.prems by simp
  qed (simp add: ac_simps)
qed simp

text \<open>A positioning call on a level that will show the entries \<open>r\<close>: either it shows the first of them and \<open>streams s r\<close> holds of the
  level, or there are none and the level has no error.\<close>

definition starts :: "'s iter_ops \<Rightarrow> ('s \<Rightarrow> iter_entry list \<Rightarrow> bool) \<Rightarrow> ('s \<Rightarrow> 's iter_result) \<Rightarrow> 's \<Rightarrow> iter_entry list \<Rightarrow> bool" where
  "starts ops streams f s r \<longleftrightarrow> (case r of
      [] \<Rightarrow> \<exists>s'. f s = Some (s', None) \<and> op_Error ops s' = None
    | e # _ \<Rightarrow> \<exists>s'. f s = Some (s', Some e) \<and> streams s' r)"

definition level_ok :: "'s iter_ops \<Rightarrow> ('s \<Rightarrow> iter_entry list \<Rightarrow> bool) \<Rightarrow> 's mergingIterLevel \<Rightarrow> iter_entry list \<Rightarrow> bool" where
  "level_ok ops streams l r \<longleftrightarrow> (case r of
      [] \<Rightarrow> lv_entry l = None \<and> op_Error ops (lv_iter l) = None
    | e # _ \<Rightarrow> lv_entry l = Some e \<and> streams (lv_iter l) r)"

lemma each_level_ok:
  "list_all2 (\<lambda>l r. starts ops streams f (lv_iter l) r) ls rems \<Longrightarrow> \<exists>ls'. each_level f ls = Some ls' \<and> list_all2 (level_ok ops streams) ls' rems"
proof (induction ls rems rule: list_all2_induct)
  case (Cons l ls r rems)
  then obtain ls' where ls': "each_level f ls = Some ls'" "list_all2 (level_ok ops streams) ls' rems" by blast
  obtain s e where s: "f (lv_iter l) = Some (s, e)" "level_ok ops streams \<lparr>lv_iter = s, lv_entry = e\<rparr> r"
    using Cons.hyps(1) by (auto simp: starts_def level_ok_def split: list.splits)
  then show ?case using ls' by simp
qed simp

lemma heap_items_ok:
  "list_all2 (level_ok ops streams) ls rems \<Longrightarrow> heap_items ops i ls items None = (items @ heads i rems, None, True)"
proof (induction ls rems arbitrary: i items rule: list_all2_induct)
  case (Cons l ls r rems)
  then show ?case by (cases r) (auto simp: level_ok_def FirstError_def)
qed simp

text \<open>The invariant of an iteration in one direction: the levels show what \<open>rems\<close> lists, and the heap holds their first entries.\<close>

definition merging_inv ::
  "'s iter_ops \<Rightarrow> ('s \<Rightarrow> iter_entry list \<Rightarrow> bool) \<Rightarrow> (bytes \<Rightarrow> bytes \<Rightarrow> int) \<Rightarrow> bool \<Rightarrow> 's mergingIter \<Rightarrow> iter_entry list list \<Rightarrow> bool" where
  "merging_inv ops streams cmp reverse m rems \<longleftrightarrow>
     list_all2 (level_ok ops streams) (m_levels m) rems \<and> m_err m = None \<and> m_dir m = (if reverse then - 1 else 1)
     \<and> h_reverse (m_heap m) = reverse \<and> mset (h_items (m_heap m)) = mset (heads 0 rems)
     \<and> heap_on (heap_less cmp reverse) (h_items (m_heap m)) 0 (length (h_items (m_heap m)))"

lemma concat_update: "j < length rems \<Longrightarrow> mset (concat (rems[j := r])) + mset (rems ! j) = mset (concat rems) + mset r"
proof (induction rems arbitrary: j)
  case (Cons r' rems)
  show ?case
  proof (cases j)
    case (Suc k)
    then show ?thesis using Cons.IH [of k] Cons.prems by simp
  qed (simp add: ac_simps)
qed simp

text \<open>What the merging iterator relies on: a level shows its entries, one step after the other, and then ends without an error.\<close>

locale level_stream = total_cmp cmp for cmp +
  fixes ops :: "'s iter_ops" and reverse :: bool and streams :: "'s \<Rightarrow> iter_entry list \<Rightarrow> bool"
  assumes step_more: "streams s (x # y # ys) \<Longrightarrow> \<exists>s'. (if reverse then op_Prev ops else op_Next ops) s = Some (s', Some y) \<and> streams s' (y # ys)"
    and step_end: "streams s [x] \<Longrightarrow> \<exists>s'. (if reverse then op_Prev ops else op_Next ops) s = Some (s', None) \<and> op_Error ops s' = None"
begin

abbreviation "move \<equiv> (if reverse then merging_Prev ops cmp else merging_Next ops cmp)"
abbreviation "lt \<equiv> heap_less cmp reverse"
abbreviation "mok \<equiv> merging_inv ops streams cmp reverse"

lemma init_inv:
  assumes "list_all2 (level_ok ops streams) (m_levels m) rems" and "m_err m = None"
  shows "mok (if reverse then initMaxHeap ops cmp m else initMinHeap ops cmp m) rems"
proof -
  have "heap_on lt (heap_init lt (heads 0 rems)) 0 (length (heap_init lt (heads 0 rems)))"
    using heap_order.heap_init_heap heap_order.mset_heap_init by (metis size_mset)
  then show ?thesis
    using heap_items_ok [OF assms(1), of 0 "[]"] assms
    by (cases reverse) (simp_all add: merging_inv_def initMaxHeap_def initMinHeap_def initHeap_def Let_def heap_order.mset_heap_init)
qed

lemma step_inv:
  assumes inv: "mok m rems" and items: "h_items (m_heap m) = item # rest"
  shows "\<exists>m' i ys. i < length rems \<and> rems ! i = item_entry item # ys
    \<and> step_entry ops cmp (if reverse then op_Prev ops else op_Next ops) m = Some m' \<and> mok m' (rems[i := ys])"
proof -
  let ?step = "if reverse then op_Prev ops else op_Next ops"
  have I: "list_all2 (level_ok ops streams) (m_levels m) rems" "m_err m = None" "h_reverse (m_heap m) = reverse" "mset (item # rest) = mset (heads 0 rems)"
      "heap_on lt (item # rest) 0 (Suc (length rest))" "m_dir m = (if reverse then - 1 else 1)"
    using inv items by (simp_all add: merging_inv_def)
  have "item \<in> set (heads 0 rems)" using I(4) by (metis list.set_intros(1) set_mset_mset)
  then obtain i where i: "i < length rems" "rems ! i \<noteq> []" "item = \<lparr>hi_index = i, hi_key = fst (hd (rems ! i)), hi_value = snd (hd (rems ! i))\<rparr>"
    by (auto simp: heads_member)
  obtain ys where r: "rems ! i = item_entry item # ys" using i(2,3) by (cases "rems ! i") (auto simp: item_entry_def)
  have l: "level_ok ops streams (m_levels m ! i) (rems ! i)" "i < length (m_levels m)" using I(1) i(1) by (auto simp: list_all2_conv_all_nth)
  then have st: "streams (lv_iter (m_levels m ! i)) (item_entry item # ys)" by (simp add: level_ok_def r)
  have idx: "hi_index item = i" using i(3) by simp
  have hd: "head_item i (item_entry item # ys) = [item]" using idx by (cases item) (simp add: item_entry_def)
  have upd: "mset (heads 0 (rems[i := ys])) + {#item#} = mset (item # rest) + mset (head_item i ys)"
    using heads_update [OF i(1), of 0 ys, unfolded r] I(4) hd by simp
  show ?thesis
  proof (cases ys)
    case Nil
    then obtain s' where s': "?step (lv_iter (m_levels m ! i)) = Some (s', None)" "op_Error ops s' = None" using step_end st by blast
    let ?m = "m\<lparr>m_levels := (m_levels m)[i := \<lparr>lv_iter = s', lv_entry = None\<rparr>], m_err := None,
      m_heap := (m_heap m)\<lparr>h_items := heap_pop lt (item # rest)\<rparr>\<rparr>"
    have e: "step_entry ops cmp ?step m = Some ?m" using s' items I(3) idx by (simp add: step_entry_def Let_def)
    note P = heap_order.heap_pop_heap [OF I(5)]
    have "length (heap_pop lt (item # rest)) = length rest" using P(2) by (metis size_mset)
    moreover have "list_all2 (level_ok ops streams) ((m_levels m)[i := \<lparr>lv_iter = s', lv_entry = None\<rparr>]) (rems[i := ys])"
      using I(1) by (rule list_all2_update_cong) (simp add: level_ok_def Nil s'(2))
    moreover have "mset (heads 0 (rems[i := ys])) = mset rest" using upd Nil by simp
    ultimately have "mok ?m (rems[i := ys])" using I(2,3,6) P by (simp add: merging_inv_def)
    then show ?thesis using e i(1) r by blast
  next
    case (Cons y zs)
    then obtain s' where s': "?step (lv_iter (m_levels m ! i)) = Some (s', Some y)" "streams s' ys" using step_more st by blast
    let ?item = "item\<lparr>hi_key := fst y, hi_value := snd y\<rparr>"
    define its where "its = (if length (?item # rest) > 1 then heap_fix lt (?item # rest) 0 else ?item # rest)"
    let ?m = "m\<lparr>m_levels := (m_levels m)[i := \<lparr>lv_iter = s', lv_entry = Some y\<rparr>], m_heap := (m_heap m)\<lparr>h_items := its\<rparr>\<rparr>"
    have e: "step_entry ops cmp ?step m = Some ?m" using s' items I(3) idx by (simp add: step_entry_def Let_def its_def split: prod.split)
    have H: "heap_on lt (?item # rest) 1 (Suc (length rest))" by (rule heap_order.heap_tail [OF I(5)])
    have "heap_on lt its 0 (length its) \<and> mset its = mset (?item # rest)"
    proof (cases "rest = []")
      case True
      then show ?thesis by (auto simp: its_def heap_on_def child_of_def)
    next
      case False
      have F: "mset (heap_fix lt (?item # rest) 0) = mset (?item # rest)" "heap_on lt (heap_fix lt (?item # rest) 0) 0 (Suc (length rest))"
        using heap_order.heap_fix_heap [of reverse "?item # rest"] H by simp_all
      then have "length (heap_fix lt (?item # rest) 0) = Suc (length rest)" by (metis length_Cons size_mset)
      then show ?thesis using False F by (simp add: its_def)
    qed
    then have items': "heap_on lt its 0 (length its)" "mset its = mset (?item # rest)" by blast+
    have "head_item i ys = [?item]" using Cons idx by (cases item) simp
    then have "mset its = mset (heads 0 (rems[i := ys]))" using upd items'(2) by simp
    moreover have "list_all2 (level_ok ops streams) ((m_levels m)[i := \<lparr>lv_iter = s', lv_entry = Some y\<rparr>]) (rems[i := ys])"
      using I(1) by (rule list_all2_update_cong) (use s'(2) Cons in \<open>simp add: level_ok_def\<close>)
    ultimately have "mok ?m (rems[i := ys])" using I(2,3,6) items'(1) by (simp add: merging_inv_def)
    then show ?thesis using e i(1) r by blast
  qed
qed

abbreviation "find_entry \<equiv> (if reverse then findPrevEntry else findNextEntry)"
abbreviation "le \<equiv> (\<lambda>a b. \<not> entry_lt cmp reverse b a)"

lemma find_ok: "mok m rems \<Longrightarrow> find_entry m = (case h_items (m_heap m) of [] \<Rightarrow> None | item # _ \<Rightarrow> Some (item_entry item))"
  by (auto simp: merging_inv_def findPrevEntry_def findNextEntry_def item_entry_def split: list.split)

lemma move_ok:
  assumes "mok m rems" and "h_items (m_heap m) = item # rest"
  shows "\<exists>m' i ys. i < length rems \<and> rems ! i = item_entry item # ys \<and> move m = Some (m', find_entry m') \<and> mok m' (rems[i := ys])"
proof -
  obtain m' i ys where S: "i < length rems" "rems ! i = item_entry item # ys"
      "step_entry ops cmp (if reverse then op_Prev ops else op_Next ops) m = Some m'" "mok m' (rems[i := ys])"
    using step_inv [OF assms] by blast
  have "m_err m = None" "m_dir m = (if reverse then - 1 else 1)" using assms(1) by (simp_all add: merging_inv_def)
  then have "move m = Some (m', find_entry m')"
    using S(3) assms(2) by (cases reverse) (simp_all add: merging_Next_def merging_Prev_def nextEntry_def prevEntry_def)
  with S show ?thesis by blast
qed

lemma head_least:
  assumes inv: "mok m rems" and items: "h_items (m_heap m) = item # rest" and srt: "\<forall>r \<in> set rems. sorted_wrt le r"
    and y: "y \<in> set (concat rems)"
  shows "le (item_entry item) y"
proof -
  obtain j where j: "j < length rems" "y \<in> set (rems ! j)" using y by (metis UN_E in_set_conv_nth set_concat)
  obtain e ys where r: "rems ! j = e # ys" using j(2) by (cases "rems ! j") auto
  let ?h = "\<lparr>hi_index = j, hi_key = fst e, hi_value = snd e\<rparr>"
  have "?h \<in> set (heads 0 rems)" using j(1) r by (auto simp: heads_member)
  then have "?h \<in> set (item # rest)" using inv items by (metis merging_inv_def set_mset_mset)
  then obtain k where k: "k < Suc (length rest)" "(item # rest) ! k = ?h" by (metis in_set_conv_nth length_Cons)
  have "heap_on lt (item # rest) 0 (Suc (length rest))" using inv items by (simp add: merging_inv_def)
  then have "\<not> lt ?h item" using heap_order.heap_root_least [of reverse "item # rest"] k by fastforce
  then have 1: "le (item_entry item) e" by (simp add: heap_less_entry item_entry_def)
  have "sorted_wrt le (e # ys)" using srt j(1) r by (metis nth_mem)
  then have "y = e \<or> le e y" using j(2) r by auto
  then show ?thesis using 1 entry_le_trans by blast
qed

text \<open>Stepping through a merging iterator shows the entries of all levels in order.\<close>

lemma drain:
  assumes "mok m rems" and "\<forall>r \<in> set rems. sorted_wrt le r" and "length (concat rems) < n"
  shows "\<exists>L. iterate move n (m, find_entry m) = Some L \<and> mset L = mset (concat rems) \<and> sorted_wrt le L"
  using assms
proof (induction n arbitrary: m rems)
  case (Suc n)
  show ?case
  proof (cases "h_items (m_heap m)")
    case Nil
    then have "mset (heads 0 rems) = {#}" using Suc.prems(1) by (simp add: merging_inv_def)
    then have "\<forall>j < length rems. rems ! j = []" using heads_member [of _ 0 rems] by auto
    then have "concat rems = []" by (auto simp: in_set_conv_nth)
    moreover have "find_entry m = None" using find_ok [OF Suc.prems(1)] Nil by simp
    ultimately show ?thesis by simp
  next
    case (Cons item rest)
    let ?x = "item_entry item"
    obtain m' i ys where M: "i < length rems" "rems ! i = ?x # ys" "move m = Some (m', find_entry m')" "mok m' (rems[i := ys])"
      using move_ok [OF Suc.prems(1) Cons] by blast
    have ms: "mset (concat rems) = add_mset ?x (mset (concat (rems[i := ys])))" using concat_update [OF M(1), of ys] M(2) by simp
    have "sorted_wrt le (?x # ys)" using Suc.prems(2) M(1,2) by (metis nth_mem)
    then have "\<forall>r \<in> set (rems[i := ys]). sorted_wrt le r" using Suc.prems(2) set_update_subset_insert [of rems i ys] by auto
    moreover have "length (concat (rems[i := ys])) < n" using arg_cong [OF ms, of size] Suc.prems(3) by simp
    ultimately obtain L where L: "iterate move n (m', find_entry m') = Some L" "mset L = mset (concat (rems[i := ys]))" "sorted_wrt le L"
      using Suc.IH [OF M(4)] by blast
    have "find_entry m = Some ?x" using find_ok [OF Suc.prems(1)] Cons by simp
    then have "iterate move (Suc n) (m, find_entry m) = Some (?x # L)" using M(3) L(1) by simp
    moreover have "le ?x y" if "y \<in> set L" for y
    proof -
      have "y \<in> set (concat rems)" using that ms L(2) by (metis insertCI set_mset_add_mset_insert set_mset_mset)
      then show ?thesis by (rule head_least [OF Suc.prems(1) Cons Suc.prems(2)])
    qed
    ultimately show ?thesis using ms L(2,3) by (intro exI [of _ "?x # L"]) simp
  qed
qed simp

end

end
