(* ===== verification/Level_Merge.thy ===== *)
theory Level_Merge
  imports Merging_Iter Array_Table
begin

text \<open>
  The merging iterator over levels that keep the contract of \<^verbatim>\<open>InternalIterator\<close>: its results in both directions, from every
  positioning call, and the array table iterators (\<^verbatim>\<open>array_table_iterator.go\<close>) as such levels.
\<close>

section \<open>The contract of a level\<close>

text \<open>\<open>streams s L\<close>: the level \<open>s\<close> shows the first entry of \<open>L\<close> and has the others before it. A step shows the next one of them; after the last
  the level ends without an error.\<close>

definition level_contract :: "'s iter_ops \<Rightarrow> bool \<Rightarrow> ('s \<Rightarrow> iter_entry list \<Rightarrow> bool) \<Rightarrow> bool" where
  "level_contract ops reverse streams \<longleftrightarrow>
     (\<forall>s x y ys. streams s (x # y # ys) \<longrightarrow>
        (\<exists>s'. (if reverse then op_Prev ops else op_Next ops) s = Some (s', Some y) \<and> streams s' (y # ys)))
     \<and> (\<forall>s x. streams s [x] \<longrightarrow> (\<exists>s'. (if reverse then op_Prev ops else op_Next ops) s = Some (s', None) \<and> op_Error ops s' = None))"

lemma level_contract_stream: "level_contract ops reverse streams \<Longrightarrow> level_stream bytes_Compare ops reverse streams"
  unfolding level_contract_def by unfold_locales blast+

definition positions :: "'s iter_ops \<Rightarrow> bool \<Rightarrow> bytes option \<Rightarrow> 's \<Rightarrow> 's iter_result" where
  "positions ops reverse target s = (case target of
      None \<Rightarrow> (if reverse then op_Last ops s else op_First ops s)
    | Some key \<Rightarrow> (if reverse then op_SeekLT ops s key else op_SeekGE ops s key))"

definition merging_positions :: "'s iter_ops \<Rightarrow> bool \<Rightarrow> bytes option \<Rightarrow> 's mergingIter \<Rightarrow> 's mergingIter iter_result" where
  "merging_positions ops reverse target m = (case target of
      None \<Rightarrow> (if reverse then merging_Last ops bytes_Compare m else merging_First ops bytes_Compare m)
    | Some key \<Rightarrow> (if reverse then merging_SeekLT ops bytes_Compare m key else merging_SeekGE ops bytes_Compare m key))"

definition entry_le :: "bool \<Rightarrow> iter_entry \<Rightarrow> iter_entry \<Rightarrow> bool" where
  "entry_le reverse a b \<longleftrightarrow> \<not> entry_lt bytes_Compare reverse b a"

lemma merging_positions_eq:
  fixes m :: "'s mergingIter"
  assumes "each_level (positions ops reverse target) (m_levels m) = Some ls"
  shows "\<exists>m'. m_levels m' = ls \<and> m_err m' = None \<and> merging_positions ops reverse target m =
    (let m' = (if reverse then initMaxHeap ops bytes_Compare m' else initMinHeap ops bytes_Compare m')
     in Some (m', if reverse then findPrevEntry m' else findNextEntry m'))"
proof -
  have f: "(\<lambda>s. op_SeekGE ops s key) = positions ops False (Some key)" "(\<lambda>s. op_SeekLT ops s key) = positions ops True (Some key)"
      "op_First ops = positions ops False None" "op_Last ops = positions ops True None" for key
    by (simp_all add: fun_eq_iff positions_def)
  let ?m = "m\<lparr>m_err := None, m_prefix := None, m_levels := ls\<rparr>"
  show ?thesis
  proof (cases "target = None \<and> \<not> reverse")
    case True
    then show ?thesis
      using assms by (intro exI [of _ "m\<lparr>m_err := None, m_prefix := None, m_heap := (m_heap m)\<lparr>h_items := []\<rparr>, m_levels := ls\<rparr>"]) (simp add: merging_positions_def merging_First_def Let_def f)
  next
    case False
    then show ?thesis
      using assms by (intro exI [of _ ?m], cases target; cases reverse)
        (simp_all add: merging_positions_def merging_Last_def merging_SeekGE_def merging_SeekLT_def merging_seekGE_def merging_seekLT_def Let_def f)
  qed
qed

lemma merging_shows:
  assumes "level_contract ops reverse streams" and "list_all2 (starts ops streams (positions ops reverse target)) (map lv_iter (m_levels m)) rems"
    and "\<forall>r \<in> set rems. sorted_wrt (entry_le reverse) r" and "length (concat rems) < n"
  shows "\<exists>r L. merging_positions ops reverse target m = Some r
    \<and> iterate (if reverse then merging_Prev ops bytes_Compare else merging_Next ops bytes_Compare) n r = Some L
    \<and> mset L = mset (concat rems) \<and> sorted_wrt (entry_le reverse) L"
proof -
  have ls: "level_stream bytes_Compare ops reverse streams" by (rule level_contract_stream [OF assms(1)])
  obtain l where l: "each_level (positions ops reverse target) (m_levels m) = Some l" "list_all2 (level_ok ops streams) l rems"
    using each_level_ok [of ops streams "positions ops reverse target" "m_levels m" rems] assms(2) by (auto simp: list_all2_map1)
  obtain m' where m': "m_levels m' = l" "m_err m' = None" "merging_positions ops reverse target m =
    (let m' = (if reverse then initMaxHeap ops bytes_Compare m' else initMinHeap ops bytes_Compare m')
     in Some (m', if reverse then findPrevEntry m' else findNextEntry m'))"
    using merging_positions_eq [OF l(1)] by blast
  let ?m = "if reverse then initMaxHeap ops bytes_Compare m' else initMinHeap ops bytes_Compare m'"
  have "merging_inv ops streams bytes_Compare reverse ?m rems"
    using level_stream.init_inv [OF ls, of m' rems] l(2) m'(1,2) by simp
  from level_stream.drain [OF ls this _ assms(4)] assms(3) obtain L
    where "iterate (if reverse then merging_Prev ops bytes_Compare else merging_Next ops bytes_Compare) n
        (?m, (if reverse then findPrevEntry else findNextEntry) ?m) = Some L"
      "mset L = mset (concat rems)" "sorted_wrt (entry_le reverse) L"
    by (auto simp: entry_le_def [abs_def])
  then show ?thesis using m'(3) by (cases reverse) (auto simp: Let_def)
qed

section \<open>Array tables as levels\<close>

definition ai_ops :: "arrayTableIterator iter_ops" where
  "ai_ops =
     \<lparr>op_SeekGE = ai_SeekGE, op_SeekPrefixGE = (\<lambda>i prefix key trySeekUsingNext. ai_SeekGE i key), op_SeekLT = ai_SeekLT,
      op_First = ai_First, op_Last = ai_Last, op_Next = ai_Next, op_Prev = ai_Prev, op_Error = (\<lambda>i. None),
      op_SetBounds = ai_SetBounds, op_Close = (\<lambda>i. None)\<rparr>"

definition ai_unbounded :: "arrayTableIterator \<Rightarrow> bool" where
  "ai_unbounded it \<longleftrightarrow> at_shows (ai_at it) (at_view (ai_at it)) \<and> ai_lower it = None \<and> ai_upper it = None"

definition ai_streams :: "bool \<Rightarrow> arrayTableIterator \<Rightarrow> iter_entry list \<Rightarrow> bool" where
  "ai_streams reverse it L \<longleftrightarrow> ai_unbounded it \<and>
     (\<exists>i < length (ai_entries it). ai_intIndexPos it = int i \<and> L = (if reverse then rev (take (Suc i) (ai_entries it)) else drop i (ai_entries it)))"

lemma ai_entries_pos [simp]: "ai_entries (it\<lparr>ai_intIndexPos := p\<rparr>) = ai_entries it"
  by (simp add: ai_entries_def)

lemma ai_unbounded_pos [simp]: "ai_unbounded (it\<lparr>ai_intIndexPos := p\<rparr>) = ai_unbounded it"
  by (simp add: ai_unbounded_def)

definition ai_shown :: "arrayTableIterator \<Rightarrow> int \<Rightarrow> iter_entry option" where
  "ai_shown it p = (if 0 \<le> p \<and> p < int (length (ai_entries it)) then Some (ai_entries it ! nat p) else None)"

lemma ai_show_at:
  assumes "ai_unbounded it"
  shows "ai_upto (it\<lparr>ai_intIndexPos := p\<rparr>) = Some (it\<lparr>ai_intIndexPos := p\<rparr>, ai_shown it p)"
    and "ai_downto (it\<lparr>ai_intIndexPos := p\<rparr>) = Some (it\<lparr>ai_intIndexPos := p\<rparr>, ai_shown it p)"
  using ai_findItem_shows [of "it\<lparr>ai_intIndexPos := p\<rparr>" "at_view (ai_at it)"] assms
  by (auto simp: ai_upto_def ai_downto_def ai_unbounded_def ai_entries_def ai_shown_def)

lemma ai_streams_at:
  "ai_unbounded it \<Longrightarrow> i < length (ai_entries it) \<Longrightarrow>
   ai_streams reverse (it\<lparr>ai_intIndexPos := int i\<rparr>) (if reverse then rev (take (Suc i) (ai_entries it)) else drop i (ai_entries it))"
  by (auto simp: ai_streams_def)

lemma ai_level_contract: "level_contract ai_ops reverse (ai_streams reverse)"
  unfolding level_contract_def
proof (intro conjI allI impI)
  fix it x y ys
  assume "ai_streams reverse it (x # y # ys)"
  then obtain i where i: "ai_unbounded it" "i < length (ai_entries it)" "ai_intIndexPos it = int i"
      "x # y # ys = (if reverse then rev (take (Suc i) (ai_entries it)) else drop i (ai_entries it))"
    by (auto simp: ai_streams_def)
  show "\<exists>s'. (if reverse then op_Prev ai_ops else op_Next ai_ops) it = Some (s', Some y) \<and> ai_streams reverse s' (y # ys)"
  proof (cases reverse)
    case True
    then have r: "x # y # ys = ai_entries it ! i # rev (take i (ai_entries it))" using i(2,4) by (simp add: take_Suc_conv_app_nth)
    then obtain j where j: "i = Suc j" by (cases i) auto
    then have "y # ys = ai_entries it ! j # rev (take j (ai_entries it))" using r i(2) by (simp add: take_Suc_conv_app_nth)
    then show ?thesis
      using ai_show_at(2) [OF i(1), of "int j"] ai_streams_at [OF i(1), of j True] True i(2,3) j
      by (auto simp: ai_ops_def ai_Prev_def ai_shown_def take_Suc_conv_app_nth)
  next
    case False
    then have r: "y # ys = drop (Suc i) (ai_entries it)" using i(2,4) by (metis Cons_nth_drop_Suc list.inject)
    then have j: "Suc i < length (ai_entries it)" by (metis drop_all leI list.distinct(1))
    then have "y = ai_entries it ! Suc i" using r by (metis Cons_nth_drop_Suc list.inject)
    moreover have "nat (int i + 1) = Suc i" "int i + 1 = int (Suc i)" by simp_all
    ultimately show ?thesis
      using ai_show_at(1) [OF i(1), of "int (Suc i)"] ai_streams_at [OF i(1) j, of False] False i(3) j r
      by (auto simp: ai_ops_def ai_Next_def ai_shown_def add.commute)
  qed
next
  fix it x
  assume "ai_streams reverse it [x]"
  then obtain i where i: "ai_unbounded it" "i < length (ai_entries it)" "ai_intIndexPos it = int i"
      "[x] = (if reverse then rev (take (Suc i) (ai_entries it)) else drop i (ai_entries it))"
    by (auto simp: ai_streams_def)
  show "\<exists>s'. (if reverse then op_Prev ai_ops else op_Next ai_ops) it = Some (s', None) \<and> op_Error ai_ops s' = None"
  proof (cases reverse)
    case True
    then have "i = 0" using i(2) arg_cong [OF i(4), of length] by simp
    then show ?thesis using True ai_show_at(2) [OF i(1), of "- 1"] i(3) by (simp add: ai_ops_def ai_Prev_def ai_shown_def)
  next
    case False
    then have "Suc i = length (ai_entries it)" using i(2) arg_cong [OF i(4), of length] by simp
    then show ?thesis using False ai_show_at(1) [OF i(1), of "int i + 1"] i(3) by (simp add: ai_ops_def ai_Next_def ai_shown_def)
  qed
qed

interpretation ai_levels: level_stream bytes_Compare ai_ops reverse "ai_streams reverse" for reverse
  by (rule level_contract_stream [OF ai_level_contract])

text \<open>The positioning calls of an array table iterator.\<close>

lemma starts_at:
  assumes "ai_unbounded it" and "f it = Some (it\<lparr>ai_intIndexPos := p\<rparr>, ai_shown it p)"
  shows "starts ai_ops (ai_streams reverse) f it
    (if 0 \<le> p \<and> p < int (length (ai_entries it))
     then (if reverse then rev (take (Suc (nat p)) (ai_entries it)) else drop (nat p) (ai_entries it)) else [])"
proof (cases "0 \<le> p \<and> p < int (length (ai_entries it))")
  case True
  then have p: "nat p < length (ai_entries it)" by linarith
  then have "rev (take (Suc (nat p)) (ai_entries it)) = ai_entries it ! nat p # rev (take (nat p) (ai_entries it))"
    "drop (nat p) (ai_entries it) = ai_entries it ! nat p # drop (Suc (nat p)) (ai_entries it)"
    by (simp_all add: take_Suc_conv_app_nth Cons_nth_drop_Suc)
  then show ?thesis using True assms(2) ai_streams_at [OF assms(1) p, of reverse] by (cases reverse) (simp_all add: starts_def ai_shown_def)
next
  case False
  then have "f it = Some (it\<lparr>ai_intIndexPos := p\<rparr>, None)" using assms(2) by (simp add: ai_shown_def)
  then show ?thesis unfolding if_not_P [OF False] by (simp add: starts_def ai_ops_def)
qed

lemma ai_SeekLT_at:
  assumes "ai_unbounded it" and "findKeyIndexPos (ai_at it) key = Some j" and "j \<le> length (ai_entries it)"
    and "\<And>i. i < j \<Longrightarrow> UserKey (fst (ai_entries it ! i)) < key"
  shows "ai_SeekLT it key = Some (it\<lparr>ai_intIndexPos := int j - 1\<rparr>, ai_shown it (int j - 1))"
proof -
  have len: "length (at_view (ai_at it)) = length (ai_entries it)" "at_num (ai_at it) = length (ai_entries it)"
    using assms(1) by (simp_all add: ai_entries_def ai_unbounded_def at_shows_def)
  have f: "ai_findItem (it\<lparr>ai_intIndexPos := int j\<rparr>) = Some (ai_shown it (int j))"
    using ai_findItem_shows [of "it\<lparr>ai_intIndexPos := int j\<rparr>" "at_view (ai_at it)"] assms(1)
    by (auto simp: ai_unbounded_def ai_shown_def ai_entries_def)
  show ?thesis
  proof (cases "j < length (ai_entries it)")
    case True
    then have "ai_shown it (int j) \<noteq> None" by (simp add: ai_shown_def)
    then show ?thesis using ai_show_at(2) [OF assms(1), of "int j - 1"] assms(2) f by (auto simp: ai_SeekLT_def ai_Prev_def)
  next
    case False
    then have j: "j = length (ai_entries it)" using assms(3) by simp
    then have "ai_shown it (int j) = None" by (simp add: ai_shown_def)
    moreover have "UserKey k < key" if "ai_shown it (int j - 1) = Some (k, v)" for k v
      proof -
      have "nat (int j - 1) = j - 1" "j - 1 < j" using that by (auto simp: ai_shown_def split: if_splits)
      then show ?thesis using that assms(4) [of "j - 1"] by (auto simp: ai_shown_def split: if_splits)
    qed
    moreover have "ai_lower it = None" using assms(1) by (simp add: ai_unbounded_def)
    ultimately show ?thesis
      using ai_show_at(2) [OF assms(1), of "int j - 1"] assms(2) f j len
      by (auto simp: ai_SeekLT_def ai_Last_def bytes_Compare_iff split: option.splits)
  qed
qed

lemma ai_starts:
  assumes "ai_unbounded it" and "sorted_wrt (<) (map fst (at_view (ai_at it)))"
  shows "starts ai_ops (ai_streams reverse) (positions ai_ops reverse target) it
    (case target of
       None \<Rightarrow> (if reverse then rev (ai_entries it) else ai_entries it)
     | Some key \<Rightarrow> (if reverse then rev (takeWhile (\<lambda>e. UserKey (fst e) < key) (ai_entries it))
         else dropWhile (\<lambda>e. UserKey (fst e) < key) (ai_entries it)))"
proof -
  let ?E = "ai_entries it"
  have num: "int (at_num (ai_at it)) = int (length ?E)" using assms(1) by (simp add: ai_entries_def ai_unbounded_def at_shows_def)
  show ?thesis
  proof (cases target)
    case None
    show ?thesis
    proof (cases reverse)
      case True
      have "positions ai_ops True None it = Some (it\<lparr>ai_intIndexPos := int (length ?E) - 1\<rparr>, ai_shown it (int (length ?E) - 1))"
        using ai_show_at(2) [OF assms(1)] by (simp add: positions_def ai_ops_def ai_Last_def num)
      from starts_at [OF assms(1), of "positions ai_ops True None", OF this, of True] show ?thesis
        using None True by (cases "?E = []") (auto simp: nat_diff_distrib Suc_diff_Suc)
    next
      case False
      have "positions ai_ops False None it = Some (it\<lparr>ai_intIndexPos := 0\<rparr>, ai_shown it 0)"
        using ai_show_at(1) [OF assms(1)] by (simp add: positions_def ai_ops_def ai_First_def)
      from starts_at [OF assms(1), of "positions ai_ops False None", OF this, of False] show ?thesis
        using None False by (cases "?E = []") auto
    qed
  next
    case (Some key)
    obtain j where j: "findKeyIndexPos (ai_at it) key = Some j" "j \<le> length ?E" "\<And>i. i < j \<Longrightarrow> UserKey (fst (?E ! i)) < key"
        "\<And>i. j \<le> i \<Longrightarrow> i < length ?E \<Longrightarrow> key \<le> UserKey (fst (?E ! i))"
      using findKeyIndexPos_least [of "ai_at it" "at_view (ai_at it)" key] assms
      by (auto simp: ai_unbounded_def ai_entries_def at_shows_def)
    have d: "dropWhile (\<lambda>e. UserKey (fst e) < key) ?E = drop j ?E" by (rule dropWhile_at) (use j in \<open>auto simp: not_less\<close>)
    then have t: "takeWhile (\<lambda>e. UserKey (fst e) < key) ?E = take j ?E"
      by (metis (no_types, lifting) append_same_eq append_take_drop_id takeWhile_dropWhile_id)
    show ?thesis
    proof (cases reverse)
      case True
      have "positions ai_ops True (Some key) it = Some (it\<lparr>ai_intIndexPos := int j - 1\<rparr>, ai_shown it (int j - 1))"
        using ai_SeekLT_at [OF assms(1) j(1-3)] by (simp add: positions_def ai_ops_def)
      from starts_at [OF assms(1), of "positions ai_ops True (Some key)", OF this, of True] show ?thesis
        using Some True j(2) t by (cases j) auto
    next
      case False
      have "positions ai_ops False (Some key) it = Some (it\<lparr>ai_intIndexPos := int j\<rparr>, ai_shown it (int j))"
        using ai_show_at(1) [OF assms(1)] j(1) by (simp add: positions_def ai_ops_def ai_SeekGE_def)
      from starts_at [OF assms(1), of "positions ai_ops False (Some key)", OF this, of False] show ?thesis
        using Some False d by (auto split: if_splits)
    qed
  qed
qed

text \<open>
  C31: Merging. Whatever state a merging iterator is in, \<^verbatim>\<open>First\<close>, \<^verbatim>\<open>SeekGE\<close>, \<^verbatim>\<open>Last\<close> or \<^verbatim>\<open>SeekLT\<close> followed by
  \<^verbatim>\<open>Next\<close> (or \<^verbatim>\<open>Prev\<close>) until it is exhausted shows every entry that the same call on each level would show, each as often as the
  levels hold it and in the order of internal keys, provided the levels keep the contract of an iterator and are sorted themselves. The loop ends.
\<close>

theorem merging_iterates:
  assumes "level_contract ops reverse streams"
    and "list_all2 (starts ops streams (positions ops reverse target)) (map lv_iter (m_levels m)) rems"
    and "\<forall>r \<in> set rems. sorted_wrt (entry_le reverse) r" and "length (concat rems) < n"
  shows "\<exists>r L. merging_positions ops reverse target m = Some r
    \<and> iterate (if reverse then merging_Prev ops bytes_Compare else merging_Next ops bytes_Compare) n r = Some L
    \<and> mset L = mset (concat rems) \<and> sorted_wrt (entry_le reverse) L"
  by (rule merging_shows [OF assms])

text \<open>The entries of a table, which all carry sequence number one, are sorted by their keys.\<close>

lemma set_entry_le:
  "entry_le reverse (set_entry a) (set_entry b) \<longleftrightarrow> (if reverse then fst b \<le> fst a else fst a \<le> fst b)"
  by (auto simp: entry_le_def entry_lt_def bytes_cmp.InternalCompare_neg bytes_Compare_iff set_entry_def MakeInternalSetKey_def MakeInternalKey_def)

lemma set_entries_sorted: "sorted_wrt (<) (map fst kvs) \<Longrightarrow> sorted_wrt (entry_le False) (map set_entry kvs)"
  by (induction kvs) (auto simp: set_entry_le)

lemma build_table_shows:
  assumes "22 + length (items kvs) + 4 * length kvs < 2 ^ 32" and "\<forall>(key, val) \<in> set kvs. length key < 2 ^ 16"
  shows "\<exists>a. build_table kvs = Some (Inr a) \<and> at_shows a kvs"
  using build_table_ok [OF assms(1)] finished_shows assms(2) by blast

lemma ai_unbounded_new: "at_shows a kvs \<Longrightarrow> ai_unbounded (at_newIter a None None)" "at_shows a kvs \<Longrightarrow> ai_entries (at_newIter a None None) = map set_entry kvs"
  using at_shows_view [of a kvs] by (auto simp: ai_unbounded_def at_newIter_def ai_entries_def)

theorem merging_iterates_witness:
  "\<exists>a b r L. build_table [([1], [7]), ([3], [8])] = Some (Inr a) \<and> build_table [([2], [9])] = Some (Inr b)
    \<and> merging_positions ai_ops True (Some [3]) (merging_init None None [at_newIter a None None, at_newIter b None None]) = Some r
    \<and> iterate (merging_Prev ai_ops bytes_Compare) 3 r = Some L \<and> L = [set_entry ([2], [9]), set_entry ([1], [7])]"
proof -
  obtain a where a: "build_table [([1], [7]), ([3], [8])] = Some (Inr a)" "at_shows a [([1], [7]), ([3], [8])]"
    using build_table_shows [of "[([1], [7]), ([3], [8])]"] by (auto simp: items_def item_def)
  obtain b where b: "build_table [([2], [9])] = Some (Inr b)" "at_shows b [([2], [9])]"
    using build_table_shows [of "[([2], [9])]"] by (auto simp: items_def item_def)
  let ?m = "merging_init None None [at_newIter a None None, at_newIter b None None]"
  have "starts ai_ops (ai_streams True) (positions ai_ops True (Some [3])) (at_newIter a None None) [set_entry ([1], [7])]"
    using ai_starts [OF ai_unbounded_new(1) [OF a(2)], of True "Some [3]"] at_shows_view [OF a(2)]
    by (simp add: at_newIter_def ai_entries_def)
  moreover have "starts ai_ops (ai_streams True) (positions ai_ops True (Some [3])) (at_newIter b None None) [set_entry ([2], [9])]"
    using ai_starts [OF ai_unbounded_new(1) [OF b(2)], of True "Some [3]"] at_shows_view [OF b(2)]
    by (simp add: at_newIter_def ai_entries_def)
  ultimately have "list_all2 (starts ai_ops (ai_streams True) (positions ai_ops True (Some [3]))) (map lv_iter (m_levels ?m))
      [[set_entry ([1], [7])], [set_entry ([2], [9])]]"
    by (simp add: merging_init_def)
  from merging_iterates [OF ai_level_contract this, of 3] obtain r L where
    r: "merging_positions ai_ops True (Some [3]) ?m = Some r" "iterate (merging_Prev ai_ops bytes_Compare) 3 r = Some L"
      "mset L = {#set_entry ([1], [7]), set_entry ([2], [9])#}" "sorted_wrt (entry_le True) L"
    by auto
  have "set L = {set_entry ([1], [7]), set_entry ([2], [9])}" "length L = 2"
    using arg_cong [OF r(3), of set_mset] arg_cong [OF r(3), of size] by auto
  then have "L = [set_entry ([2], [9]), set_entry ([1], [7])]"
    using r(4) by (cases L; cases "tl L") (auto simp: doubleton_eq_iff set_entry_le)
  with a(1) b(1) r(1,2) show ?thesis by blast
qed

end
