(* ===== verification/Metadata.thy ===== *)
theory Metadata
  imports Batch
begin

text \<open>
  The small mapped files that the databases keep beside their data: \<^verbatim>\<open>internal/mmap/mmap.go\<close>, the metadata
  of the plain database (\<^verbatim>\<open>manifest.go\<close>), of the sequential database (\<^verbatim>\<open>meta.go\<close>) and of the tree
  (\<^verbatim>\<open>bitree/manifest.go\<close>). A shared mapping is the content of the file: what is written to the mapping is what a
  later opening of the file reads. A result \<open>None\<close> is a panic, \<open>Inl\<close> an error that is returned.
\<close>

section \<open>Mapped files\<close>

record MMap =
  mm_size :: nat
  mm_m :: bytes

datatype meta_error = ErrMmap | ErrInconsistent

text \<open>\<^verbatim>\<open>Open\<close> sets the size of the file to \<open>siz\<close>, or leaves it when that is 0, and maps all of it. The operating
  system refuses to map an empty file.\<close>

definition mmap_Open :: "bytes \<Rightarrow> nat \<Rightarrow> meta_error + MMap" where
  "mmap_Open content siz =
     (let siz = (if siz = 0 then length content else siz);
          content = take siz content @ replicate (siz - length content) 0
      in if siz = 0 then Inl ErrMmap else Inr \<lparr>mm_size = siz, mm_m = content\<rparr>)"

definition mm_put :: "MMap \<Rightarrow> nat \<Rightarrow> bytes \<Rightarrow> MMap option" where
  "mm_put m pos bs = map_option (\<lambda>b. m\<lparr>mm_m := b\<rparr>) (go_put (mm_m m) pos bs)"

definition ReadUInt64At :: "MMap \<Rightarrow> nat \<Rightarrow> u64 option" where
  "ReadUInt64At m pos = map_option le_dec (go_slice (mm_m m) pos (pos + 8))"

definition WriteUInt64At :: "MMap \<Rightarrow> u64 \<Rightarrow> nat \<Rightarrow> MMap option" where
  "WriteUInt64At m val pos = mm_put m pos (le_enc 8 val)"

definition ReadUInt16At :: "MMap \<Rightarrow> nat \<Rightarrow> u16 option" where
  "ReadUInt16At m pos = map_option le_dec (go_slice (mm_m m) pos (pos + 2))"

definition WriteUInt16At :: "MMap \<Rightarrow> u16 \<Rightarrow> nat \<Rightarrow> MMap option" where
  "WriteUInt16At m val pos = mm_put m pos (le_enc 2 val)"

definition ReadUInt32At :: "MMap \<Rightarrow> nat \<Rightarrow> u32 option" where
  "ReadUInt32At m pos = map_option le_dec (go_slice (mm_m m) pos (pos + 4))"

definition WriteUInt32At :: "MMap \<Rightarrow> u32 \<Rightarrow> nat \<Rightarrow> MMap option" where
  "WriteUInt32At m val pos = mm_put m pos (le_enc 4 val)"

definition ReadUInt8At :: "MMap \<Rightarrow> nat \<Rightarrow> byte option" where
  "ReadUInt8At m pos = go_index (mm_m m) pos"

definition WriteUInt8At :: "MMap \<Rightarrow> byte \<Rightarrow> nat \<Rightarrow> MMap option" where
  "WriteUInt8At m val pos = mm_put m pos [val]"

definition mm_WriteAt :: "MMap \<Rightarrow> bytes \<Rightarrow> nat \<Rightarrow> MMap option" where
  "mm_WriteAt m val pos = mm_put m pos val"

definition mm_ReadAt :: "MMap \<Rightarrow> nat \<Rightarrow> nat \<Rightarrow> bytes option" where
  "mm_ReadAt m pos siz = go_slice (mm_m m) pos (pos + siz)"

definition mm_Len :: "MMap \<Rightarrow> nat" where
  "mm_Len m = length (mm_m m)"

text \<open>\<^verbatim>\<open>binary.PutUvarint\<close>, \<^verbatim>\<open>binary.PutVarint\<close> and \<^verbatim>\<open>binary.Varint\<close>. The buffer passed has eight bytes; a longer encoding panics.\<close>

function put_uvarint64 :: "u64 \<Rightarrow> bytes" where
  "put_uvarint64 x = (if 0x80 \<le> x then (ucast x OR 0x80) # put_uvarint64 (drop_bit 7 x) else [ucast x])"
  by pat_completeness auto
termination
  by (relation "measure unat") (auto simp: word_le_nat_alt drop_bit_eq_div unat_div)

declare put_uvarint64.simps [simp del]

definition zigzag :: "u64 \<Rightarrow> u64" where
  "zigzag x = (let ux = push_bit 1 x in if x <s 0 then NOT ux else ux)"

definition unzigzag :: "u64 \<Rightarrow> u64" where
  "unzigzag ux = (let x = drop_bit 1 ux in if ux AND 1 \<noteq> 0 then NOT x else x)"

definition WriteInt64At :: "MMap \<Rightarrow> u64 \<Rightarrow> nat \<Rightarrow> MMap option" where
  "WriteInt64At m val pos =
     do {
       b \<leftarrow> go_slice (mm_m m) pos (pos + 8);
       b \<leftarrow> go_put b 0 (put_uvarint64 (zigzag val));
       mm_put m pos b
     }"

definition ReadInt64At :: "MMap \<Rightarrow> nat \<Rightarrow> u64 option" where
  "ReadInt64At m pos = map_option (\<lambda>b. unzigzag (fst (Uvarint b 0 0))) (go_slice (mm_m m) pos (pos + 8))"

section \<open>The layout of a metadata file\<close>

abbreviation (input) metaHeaderOffset :: nat where "metaHeaderOffset \<equiv> 0"
abbreviation (input) metaFieldOffset :: nat where "metaFieldOffset \<equiv> 16"
abbreviation (input) metaLen :: nat where "metaLen \<equiv> 1048"
abbreviation (input) footerOffset :: nat where "footerOffset \<equiv> 1040"
abbreviation (input) metaVersion1 :: u16 where "metaVersion1 \<equiv> 1"
abbreviation (input) fieldOffsetMinUnflushedLogNum :: nat where "fieldOffsetMinUnflushedLogNum \<equiv> 16"
abbreviation (input) fieldOffsetNextFileNum :: nat where "fieldOffsetNextFileNum \<equiv> 24"
abbreviation (input) fieldOffsetLastSeqNum :: nat where "fieldOffsetLastSeqNum \<equiv> 32"
abbreviation (input) fieldOffsetPlainDbAtFileNum :: nat where "fieldOffsetPlainDbAtFileNum \<equiv> 40"

definition metaMagic :: bytes where
  "metaMagic = [0xf7, 0xcf, 0xf4, 0x85, 0xb7, 0x41, 0xe2, 0x88]"

text \<open>\<^verbatim>\<open>create\<close>: the content of a new file.\<close>

definition metadata_create :: bytes where
  "metadata_create =
     the (do {
       buf \<leftarrow> go_put (replicate metaLen 0) metaHeaderOffset (le_enc 2 metaVersion1);
       go_put buf footerOffset metaMagic
     })"

section \<open>The metadata of the plain database\<close>

record metadata =
  md_logSeqNum :: u64
  md_visibleSeqNum :: u64
  md_version :: u16
  md_file :: MMap
  md_lastSeqNum :: u64
  md_minUnflushedLogNum :: u64
  md_nextFileNum :: u64
  md_plainDbAtFileNum :: u64

record metaSet =
  me_minUnflushedLogNum :: u64
  me_nextFileNum :: u64
  me_lastSeqNum :: u64
  me_plainDbAtFileNum :: u64

definition markFileNumUsed :: "metadata \<Rightarrow> u64 \<Rightarrow> metadata" where
  "markFileNumUsed m fileNum =
     (if md_nextFileNum m \<le> fileNum then m\<lparr>md_nextFileNum := fileNum + 1\<rparr> else m)"

definition openMetadata :: "bytes option \<Rightarrow> (meta_error + metadata) option" where
  "openMetadata file =
     (let content = (case file of None \<Rightarrow> metadata_create | Some c \<Rightarrow> c) in
      case mmap_Open content 0 of
        Inl e \<Rightarrow> Some (Inl e)
      | Inr f \<Rightarrow>
          do {
            version \<leftarrow> ReadUInt16At f metaHeaderOffset;
            minUnflushedLogNum \<leftarrow> ReadUInt64At f fieldOffsetMinUnflushedLogNum;
            nextFileNum \<leftarrow> ReadUInt64At f fieldOffsetNextFileNum;
            lastSeqNum \<leftarrow> ReadUInt64At f fieldOffsetLastSeqNum;
            plainDbAtFileNum \<leftarrow> ReadUInt64At f fieldOffsetPlainDbAtFileNum;
            let m = \<lparr>md_logSeqNum = (if lastSeqNum \<noteq> 0 then lastSeqNum + 1 else 1), md_visibleSeqNum = 0,
                     md_version = version, md_file = f, md_lastSeqNum = lastSeqNum,
                     md_minUnflushedLogNum = minUnflushedLogNum,
                     md_nextFileNum = (if nextFileNum = 0 then 1 else nextFileNum),
                     md_plainDbAtFileNum = plainDbAtFileNum\<rparr>;
            Some (Inr (markFileNumUsed m minUnflushedLogNum))
          })"

text \<open>Each field that is not 0 is set in memory and in the file.\<close>

definition write_field :: "u64 \<Rightarrow> nat \<Rightarrow> (u64 \<Rightarrow> metadata \<Rightarrow> metadata) \<Rightarrow> metadata \<Rightarrow> metadata option" where
  "write_field v pos upd m =
     (if v \<noteq> 0 then map_option (\<lambda>f. (upd v m)\<lparr>md_file := f\<rparr>) (WriteUInt64At (md_file m) v pos) else Some m)"

definition writeMetaEdit :: "metadata \<Rightarrow> metaSet \<Rightarrow> metadata option" where
  "writeMetaEdit m me =
     do {
       m \<leftarrow> write_field (me_minUnflushedLogNum me) fieldOffsetMinUnflushedLogNum (\<lambda>v m. m\<lparr>md_minUnflushedLogNum := v\<rparr>) m;
       m \<leftarrow> write_field (me_nextFileNum me) fieldOffsetNextFileNum (\<lambda>v m. m\<lparr>md_nextFileNum := v\<rparr>) m;
       m \<leftarrow> write_field (me_lastSeqNum me) fieldOffsetLastSeqNum (\<lambda>v m. m\<lparr>md_lastSeqNum := v\<rparr>) m;
       write_field (me_plainDbAtFileNum me) fieldOffsetPlainDbAtFileNum (\<lambda>v m. m\<lparr>md_plainDbAtFileNum := v\<rparr>) m
     }"

definition markLogSeqNum :: "metadata \<Rightarrow> u64 \<Rightarrow> metadata" where
  "markLogSeqNum m maxSeqNum = (if md_logSeqNum m < maxSeqNum then m\<lparr>md_logSeqNum := maxSeqNum\<rparr> else m)"

definition getLogSeqNum :: "metadata \<Rightarrow> u64" where
  "getLogSeqNum m = md_logSeqNum m"

definition getNextFileNum :: "metadata \<Rightarrow> u64 \<times> metadata" where
  "getNextFileNum m = (md_nextFileNum m, m\<lparr>md_nextFileNum := md_nextFileNum m + 1\<rparr>)"

text \<open>\<^verbatim>\<open>apply\<close> also completes the edit it is given.\<close>

definition md_apply :: "metadata \<Rightarrow> metaSet \<Rightarrow> (meta_error + metadata \<times> metaSet) option" where
  "md_apply m me =
     (if me_minUnflushedLogNum me \<noteq> 0
         \<and> (me_minUnflushedLogNum me < md_minUnflushedLogNum m \<or> md_nextFileNum m \<le> me_minUnflushedLogNum me)
      then Some (Inl ErrInconsistent)
      else
        let me = me\<lparr>me_nextFileNum := md_nextFileNum m, me_lastSeqNum := md_logSeqNum m - 1\<rparr> in
        map_option (\<lambda>m. Inr (m, me)) (writeMetaEdit m me))"

section \<open>The metadata of the sequential database\<close>

abbreviation (input) smetaVersion1 :: u16 where "smetaVersion1 \<equiv> 1"
abbreviation (input) smetaFieldSeqNumOffset :: nat where "smetaFieldSeqNumOffset \<equiv> 16"
abbreviation (input) smetaFieldNumberGap :: u64 where "smetaFieldNumberGap \<equiv> 262144"
abbreviation (input) smetaFieldNumberGapMask :: u64 where "smetaFieldNumberGapMask \<equiv> 262143"

record sequentialMeta =
  sm_version :: u16
  sm_file :: MMap
  sm_seqNum :: u64

definition sm_create :: bytes where
  "sm_create =
     the (do {
       buf \<leftarrow> go_put (replicate metaLen 0) metaHeaderOffset (le_enc 2 smetaVersion1);
       go_put buf footerOffset metaMagic
     })"

definition sm_getSeqNum :: "MMap \<Rightarrow> u64 option" where
  "sm_getSeqNum f = ReadUInt64At f smetaFieldSeqNumOffset"

definition sm_load :: "bytes \<Rightarrow> (meta_error + sequentialMeta) option" where
  "sm_load content =
     (case mmap_Open content 0 of
        Inl e \<Rightarrow> Some (Inl e)
      | Inr f \<Rightarrow>
          do {
            version \<leftarrow> ReadUInt16At f metaHeaderOffset;
            seqNum \<leftarrow> sm_getSeqNum f;
            Some (Inr \<lparr>sm_version = version, sm_file = f, sm_seqNum = seqNum + smetaFieldNumberGap\<rparr>)
          })"

definition openSequentialMeta :: "bytes option \<Rightarrow> (meta_error + sequentialMeta) option" where
  "openSequentialMeta file = sm_load (case file of None \<Rightarrow> sm_create | Some c \<Rightarrow> c)"

definition sm_writeUint64 :: "sequentialMeta \<Rightarrow> u64 \<Rightarrow> nat \<Rightarrow> sequentialMeta option" where
  "sm_writeUint64 m n pos = map_option (\<lambda>f. m\<lparr>sm_file := f\<rparr>) (WriteUInt64At (sm_file m) (n + smetaFieldNumberGap) pos)"

definition getCurrentSeqNum :: "sequentialMeta \<Rightarrow> u64" where
  "getCurrentSeqNum m = sm_seqNum m"

definition getNextSeqNum :: "sequentialMeta \<Rightarrow> (u64 \<times> sequentialMeta) option" where
  "getNextSeqNum m =
     (let newSeqNum = sm_seqNum m + 1; m = m\<lparr>sm_seqNum := newSeqNum\<rparr> in
      map_option (\<lambda>m. (newSeqNum, m))
        (if newSeqNum AND smetaFieldNumberGapMask = 0 then sm_writeUint64 m newSeqNum smetaFieldSeqNumOffset else Some m))"

section \<open>The metadata of the tree\<close>

abbreviation (input) fieldOffsetMinUnfCompactFileNum :: nat where "fieldOffsetMinUnfCompactFileNum \<equiv> 16"

record bt_metadata =
  bm_version :: u16
  bm_file :: MMap
  bm_minUnCompactFileNum :: u64
  bm_nextFileNum :: u64

definition bt_create :: bytes where
  "bt_create =
     the (do {
       buf \<leftarrow> go_put (replicate metaLen 0) metaHeaderOffset (le_enc 2 metaVersion1);
       go_put buf footerOffset metaMagic
     })"

definition bt_openMetadata :: "bytes option \<Rightarrow> (meta_error + bt_metadata) option" where
  "bt_openMetadata file =
     (let content = (case file of None \<Rightarrow> bt_create | Some c \<Rightarrow> c) in
      case mmap_Open content 0 of
        Inl e \<Rightarrow> Some (Inl e)
      | Inr f \<Rightarrow>
          do {
            version \<leftarrow> ReadUInt16At f metaHeaderOffset;
            minUnCompactFileNum \<leftarrow> ReadUInt64At f fieldOffsetMinUnfCompactFileNum;
            nextFileNum \<leftarrow> ReadUInt64At f fieldOffsetNextFileNum;
            Some (Inr \<lparr>bm_version = version, bm_file = f, bm_minUnCompactFileNum = minUnCompactFileNum,
                       bm_nextFileNum = (if nextFileNum = 0 then 1 else nextFileNum)\<rparr>)
          })"

definition bt_getNextFileNum :: "bt_metadata \<Rightarrow> (u64 \<times> bt_metadata) option" where
  "bt_getNextFileNum m =
     (let x = bm_nextFileNum m; m = m\<lparr>bm_nextFileNum := x + 1\<rparr> in
      map_option (\<lambda>f. (x, m\<lparr>bm_file := f\<rparr>)) (WriteUInt64At (bm_file m) (bm_nextFileNum m) fieldOffsetNextFileNum))"

definition getMinUnCompactFileNum :: "bt_metadata \<Rightarrow> u64" where
  "getMinUnCompactFileNum m = bm_minUnCompactFileNum m"

definition setMinUnCompactFileNum :: "bt_metadata \<Rightarrow> u64 \<Rightarrow> bt_metadata option" where
  "setMinUnCompactFileNum m fn =
     (let m = m\<lparr>bm_minUnCompactFileNum := fn\<rparr> in
      map_option (\<lambda>f. m\<lparr>bm_file := f\<rparr>) (WriteUInt64At (bm_file m) fn fieldOffsetMinUnfCompactFileNum))"

section \<open>Fields of a file\<close>

text \<open>A file of the right length, and one of its fields.\<close>

definition field :: "MMap \<Rightarrow> nat \<Rightarrow> u64" where
  "field f pos = le_dec (take 8 (drop pos (mm_m f)))"

lemma ReadUInt64At_field: "pos + 8 \<le> length (mm_m f) \<Longrightarrow> ReadUInt64At f pos = Some (field f pos)"
  by (simp add: ReadUInt64At_def go_slice_def field_def)

lemma WriteUInt64At_ok:
  assumes "pos + 8 \<le> length (mm_m f)"
  shows "\<exists>f'. WriteUInt64At f v pos = Some f' \<and> length (mm_m f') = length (mm_m f) \<and> field f' pos = v
    \<and> (\<forall>q. q + 8 \<le> pos \<or> pos + 8 \<le> q \<longrightarrow> field f' q = field f q) \<and> take pos (mm_m f') = take pos (mm_m f)"
proof -
  obtain b where b: "go_put (mm_m f) pos (le_enc 8 v) = Some b" using go_put_total [of pos "le_enc 8 v" "mm_m f"] assms by auto
  have eq: "b = take pos (mm_m f) @ le_enc 8 v @ drop (pos + 8) (mm_m f)" using b by (simp add: go_put_def split: if_splits)
  have "take 8 (drop q b) = take 8 (drop q (mm_m f))" if "q + 8 \<le> pos \<or> pos + 8 \<le> q" for q
    using go_put_slice_other [OF b, of "q + 8" q] that assms by (auto simp: go_slice_def eq split: if_splits)
  then have "field (f\<lparr>mm_m := b\<rparr>) q = field f q" if "q + 8 \<le> pos \<or> pos + 8 \<le> q" for q using that by (simp add: field_def)
  moreover have "field (f\<lparr>mm_m := b\<rparr>) pos = v" "take pos b = take pos (mm_m f)" using assms by (simp_all add: field_def eq le_dec_enc)
  moreover have "WriteUInt64At f v pos = Some (f\<lparr>mm_m := b\<rparr>)" using b by (simp add: WriteUInt64At_def mm_put_def)
  ultimately show ?thesis using go_put_length [OF b] by auto
qed


definition file_ok :: "MMap \<Rightarrow> bool" where
  "file_ok f \<longleftrightarrow> length (mm_m f) = metaLen"

text \<open>Writing one of the fields at the offsets 16, 24, 32 and 40.\<close>

lemma write_ok:
  assumes "file_ok f" and "pos \<in> {16, 24, 32, 40}"
  shows "\<exists>f'. WriteUInt64At f v pos = Some f' \<and> file_ok f' \<and> field f' pos = v
    \<and> (\<forall>q \<in> {16, 24, 32, 40}. q \<noteq> pos \<longrightarrow> field f' q = field f q)"
  using WriteUInt64At_ok [of pos f v] assms by (auto simp: file_ok_def)

lemma read_ok: "file_ok f \<Longrightarrow> pos \<in> {16, 24, 32, 40} \<Longrightarrow> ReadUInt64At f pos = Some (field f pos)"
  using ReadUInt64At_field [of pos f] by (auto simp: file_ok_def)

lemma mmap_Open_ok: "length c = metaLen \<Longrightarrow> \<exists>f. mmap_Open c 0 = Inr f \<and> mm_m f = c"
  by (simp add: mmap_Open_def)

lemma version_ok: "file_ok f \<Longrightarrow> \<exists>v. ReadUInt16At f 0 = Some v"
  by (simp add: ReadUInt16At_def go_slice_def file_ok_def)

lemma create_eq: "metadata_create = le_enc 2 (1 :: u16) @ replicate 1038 0 @ metaMagic"
  by (simp add: metadata_create_def go_put_def metaMagic_def)

lemma sm_create_eq: "sm_create = metadata_create" and bt_create_eq: "bt_create = metadata_create"
  by (simp_all only: metadata_create_def sm_create_def bt_create_def)

lemma create_ok: "length metadata_create = metaLen" and create_field: "mm_m f = metadata_create \<Longrightarrow> pos \<in> {16, 24, 32, 40} \<Longrightarrow> field f pos = 0"
proof -
  show "length metadata_create = metaLen" by (simp add: create_eq metaMagic_def)
  assume f: "mm_m f = metadata_create" and pos: "pos \<in> {16, 24, 32, 40}"
  have "take 8 (drop pos metadata_create) = replicate 8 0" using pos unfolding create_eq by (auto simp: min_def)
  then show "field f pos = 0" unfolding field_def f by (simp only: le_dec_zeros)
qed

section \<open>The plain database\<close>

text \<open>What a file of metadata is opened to.\<close>

lemma openMetadata_ok:
  assumes "length c = metaLen"
  shows "\<exists>f v. mm_m f = c \<and> file_ok f \<and> openMetadata (Some c) = Some (Inr (markFileNumUsed
     \<lparr>md_logSeqNum = (if field f 32 \<noteq> 0 then field f 32 + 1 else 1), md_visibleSeqNum = 0, md_version = v, md_file = f,
      md_lastSeqNum = field f 32, md_minUnflushedLogNum = field f 16,
      md_nextFileNum = (if field f 24 = 0 then 1 else field f 24), md_plainDbAtFileNum = field f 40\<rparr> (field f 16)))"
proof -
  obtain f where f: "mmap_Open c 0 = Inr f" "mm_m f = c" using mmap_Open_ok [OF assms] by auto
  have ok: "file_ok f" using assms f(2) by (simp add: file_ok_def)
  obtain v where "ReadUInt16At f 0 = Some v" using version_ok [OF ok] by auto
  then show ?thesis using f ok by (intro exI [of _ f] exI [of _ v]) (simp add: openMetadata_def read_ok Let_def)
qed

text \<open>The invariant: the file shows what the last edit wrote, and the oldest log in use is a number handed out before.\<close>

definition md_inv :: "metadata \<Rightarrow> bool" where
  "md_inv m \<longleftrightarrow> file_ok (md_file m) \<and> field (md_file m) 16 = md_minUnflushedLogNum m \<and> field (md_file m) 32 = md_lastSeqNum m
     \<and> field (md_file m) 40 = md_plainDbAtFileNum m \<and> field (md_file m) 24 \<le> md_nextFileNum m
     \<and> md_minUnflushedLogNum m < md_nextFileNum m \<and> md_lastSeqNum m < md_logSeqNum m"

lemma less_plus_one: "x \<noteq> - 1 \<Longrightarrow> (x :: u64) < x + 1"
proof -
  assume "x \<noteq> - 1"
  then have "1 + x \<noteq> 0" by (metis add_eq_0_iff)
  then show ?thesis using unatSuc [of x] by (simp add: word_less_nat_alt add.commute)
qed

lemma word_not_max: "(x :: u64) < y \<Longrightarrow> x \<noteq> - 1"
  by auto

lemma open_inv:
  assumes "length c = metaLen" and "\<forall>f. mm_m f = c \<longrightarrow> field f 16 \<noteq> - 1 \<and> field f 32 \<noteq> - 1"
  shows "\<exists>m. openMetadata (Some c) = Some (Inr m) \<and> md_inv m"
proof -
  obtain f v where F: "mm_m f = c" "file_ok f" "openMetadata (Some c) = Some (Inr (markFileNumUsed
     \<lparr>md_logSeqNum = (if field f 32 \<noteq> 0 then field f 32 + 1 else 1), md_visibleSeqNum = 0, md_version = v, md_file = f,
      md_lastSeqNum = field f 32, md_minUnflushedLogNum = field f 16,
      md_nextFileNum = (if field f 24 = 0 then 1 else field f 24), md_plainDbAtFileNum = field f 40\<rparr> (field f 16)))"
    using openMetadata_ok [OF assms(1)] by blast
  have lt: "field f 16 < field f 16 + 1" "field f 32 < field f 32 + 1" using assms(2) F(1) less_plus_one by blast+
  have "field f 24 \<le> field f 16 + 1" if "field f 24 \<le> field f 16" using that lt(1) by simp
  then show ?thesis using F(2,3) lt by (auto simp: md_inv_def markFileNumUsed_def not_le)
qed

lemma write_field_ok:
  assumes "file_ok (md_file m)" and "pos \<in> {16, 24, 32, 40}"
  shows "\<exists>f. write_field v pos upd m = Some ((if v \<noteq> 0 then upd v m else m)\<lparr>md_file := f\<rparr>) \<and> file_ok f
    \<and> field f pos = (if v \<noteq> 0 then v else field (md_file m) pos) \<and> (\<forall>q \<in> {16, 24, 32, 40}. q \<noteq> pos \<longrightarrow> field f q = field (md_file m) q)"
proof (cases "v = 0")
  case True
  then show ?thesis using assms by (intro exI [of _ "md_file m"]) (simp add: write_field_def)
next
  case False
  then show ?thesis using write_ok [OF assms, of v] by (auto simp: write_field_def)
qed

lemma writeMetaEdit_ok:
  assumes "file_ok (md_file m)"
  shows "\<exists>f. writeMetaEdit m me = Some (m\<lparr>md_file := f,
      md_lastSeqNum := (if me_lastSeqNum me \<noteq> 0 then me_lastSeqNum me else md_lastSeqNum m),
      md_minUnflushedLogNum := (if me_minUnflushedLogNum me \<noteq> 0 then me_minUnflushedLogNum me else md_minUnflushedLogNum m),
      md_nextFileNum := (if me_nextFileNum me \<noteq> 0 then me_nextFileNum me else md_nextFileNum m),
      md_plainDbAtFileNum := (if me_plainDbAtFileNum me \<noteq> 0 then me_plainDbAtFileNum me else md_plainDbAtFileNum m)\<rparr>) \<and> file_ok f
    \<and> field f 16 = (if me_minUnflushedLogNum me \<noteq> 0 then me_minUnflushedLogNum me else field (md_file m) 16)
    \<and> field f 24 = (if me_nextFileNum me \<noteq> 0 then me_nextFileNum me else field (md_file m) 24)
    \<and> field f 32 = (if me_lastSeqNum me \<noteq> 0 then me_lastSeqNum me else field (md_file m) 32)
    \<and> field f 40 = (if me_plainDbAtFileNum me \<noteq> 0 then me_plainDbAtFileNum me else field (md_file m) 40)"
proof -
  let ?u1 = "\<lambda>v m. m\<lparr>md_minUnflushedLogNum := v\<rparr> :: metadata" and ?u2 = "\<lambda>v m. m\<lparr>md_nextFileNum := v\<rparr> :: metadata"
    and ?u3 = "\<lambda>v m. m\<lparr>md_lastSeqNum := v\<rparr> :: metadata" and ?u4 = "\<lambda>v m. m\<lparr>md_plainDbAtFileNum := v\<rparr> :: metadata"
  let ?v1 = "me_minUnflushedLogNum me" and ?v2 = "me_nextFileNum me" and ?v3 = "me_lastSeqNum me" and ?v4 = "me_plainDbAtFileNum me"
  obtain f1 where 1: "write_field ?v1 16 ?u1 m = Some ((if ?v1 \<noteq> 0 then ?u1 ?v1 m else m)\<lparr>md_file := f1\<rparr>)" "file_ok f1"
      "field f1 16 = (if ?v1 \<noteq> 0 then ?v1 else field (md_file m) 16)" "\<forall>q \<in> {16, 24, 32, 40}. q \<noteq> 16 \<longrightarrow> field f1 q = field (md_file m) q"
    using write_field_ok [OF assms, of 16 ?v1 ?u1] by blast
  let ?m1 = "(if ?v1 \<noteq> 0 then ?u1 ?v1 m else m)\<lparr>md_file := f1\<rparr>"
  obtain f2 where 2: "write_field ?v2 24 ?u2 ?m1 = Some ((if ?v2 \<noteq> 0 then ?u2 ?v2 ?m1 else ?m1)\<lparr>md_file := f2\<rparr>)" "file_ok f2"
      "field f2 24 = (if ?v2 \<noteq> 0 then ?v2 else field f1 24)" "\<forall>q \<in> {16, 24, 32, 40}. q \<noteq> 24 \<longrightarrow> field f2 q = field f1 q"
    using write_field_ok [of ?m1 24 ?v2 ?u2] 1(2) by auto
  let ?m2 = "(if ?v2 \<noteq> 0 then ?u2 ?v2 ?m1 else ?m1)\<lparr>md_file := f2\<rparr>"
  obtain f3 where 3: "write_field ?v3 32 ?u3 ?m2 = Some ((if ?v3 \<noteq> 0 then ?u3 ?v3 ?m2 else ?m2)\<lparr>md_file := f3\<rparr>)" "file_ok f3"
      "field f3 32 = (if ?v3 \<noteq> 0 then ?v3 else field f2 32)" "\<forall>q \<in> {16, 24, 32, 40}. q \<noteq> 32 \<longrightarrow> field f3 q = field f2 q"
    using write_field_ok [of ?m2 32 ?v3 ?u3] 2(2) by auto
  let ?m3 = "(if ?v3 \<noteq> 0 then ?u3 ?v3 ?m2 else ?m2)\<lparr>md_file := f3\<rparr>"
  obtain f4 where 4: "write_field ?v4 40 ?u4 ?m3 = Some ((if ?v4 \<noteq> 0 then ?u4 ?v4 ?m3 else ?m3)\<lparr>md_file := f4\<rparr>)" "file_ok f4"
      "field f4 40 = (if ?v4 \<noteq> 0 then ?v4 else field f3 40)" "\<forall>q \<in> {16, 24, 32, 40}. q \<noteq> 40 \<longrightarrow> field f4 q = field f3 q"
    using write_field_ok [of ?m3 40 ?v4 ?u4] 3(2) by auto
  have "writeMetaEdit m me = Some ((if ?v4 \<noteq> 0 then ?u4 ?v4 ?m3 else ?m3)\<lparr>md_file := f4\<rparr>)"
    unfolding writeMetaEdit_def using 1(1) 2(1) 3(1) 4(1) by simp
  moreover have "(if ?v4 \<noteq> 0 then ?u4 ?v4 ?m3 else ?m3)\<lparr>md_file := f4\<rparr> = m\<lparr>md_file := f4,
      md_lastSeqNum := (if ?v3 \<noteq> 0 then ?v3 else md_lastSeqNum m),
      md_minUnflushedLogNum := (if ?v1 \<noteq> 0 then ?v1 else md_minUnflushedLogNum m),
      md_nextFileNum := (if ?v2 \<noteq> 0 then ?v2 else md_nextFileNum m),
      md_plainDbAtFileNum := (if ?v4 \<noteq> 0 then ?v4 else md_plainDbAtFileNum m)\<rparr>" by (cases m) simp
  moreover have "field f4 16 = field f1 16" "field f4 24 = field f2 24" "field f4 32 = field f3 32" using 2(4) 3(4) 4(4) by simp_all
  moreover have "field f1 24 = field (md_file m) 24" "field f2 32 = field (md_file m) 32" "field f3 40 = field (md_file m) 40"
    using 1(4) 2(4) 3(4) by simp_all
  ultimately show ?thesis using 1(3) 2(3) 3(3) 4(2,3) by (intro exI [of _ f4] conjI) simp_all
qed


lemma logSeq_pred: "(0 :: u64) < x \<Longrightarrow> x - 1 < x"
  using less_plus_one [of "x - 1"] by (auto simp: diff_eq_eq)

lemma md_apply_ok:
  assumes inv: "md_inv m" and ok: "me_minUnflushedLogNum me = 0
    \<or> md_minUnflushedLogNum m \<le> me_minUnflushedLogNum me \<and> me_minUnflushedLogNum me < md_nextFileNum m"
  shows "\<exists>m' me'. md_apply m me = Some (Inr (m', me')) \<and> md_inv m'
    \<and> md_minUnflushedLogNum m' = (if me_minUnflushedLogNum me \<noteq> 0 then me_minUnflushedLogNum me else md_minUnflushedLogNum m)
    \<and> md_plainDbAtFileNum m' = (if me_plainDbAtFileNum me \<noteq> 0 then me_plainDbAtFileNum me else md_plainDbAtFileNum m)
    \<and> md_nextFileNum m' = md_nextFileNum m \<and> md_logSeqNum m' = md_logSeqNum m
    \<and> field (md_file m') 24 = md_nextFileNum m \<and> (md_logSeqNum m - 1 \<noteq> 0 \<longrightarrow> md_lastSeqNum m' = md_logSeqNum m - 1)
    \<and> (md_logSeqNum m - 1 = 0 \<longrightarrow> md_lastSeqNum m' = md_lastSeqNum m)"
proof -
  let ?me = "me\<lparr>me_nextFileNum := md_nextFileNum m, me_lastSeqNum := md_logSeqNum m - 1\<rparr>"
  have I: "file_ok (md_file m)" "field (md_file m) 16 = md_minUnflushedLogNum m" "field (md_file m) 32 = md_lastSeqNum m"
      "field (md_file m) 40 = md_plainDbAtFileNum m" "md_minUnflushedLogNum m < md_nextFileNum m" "md_lastSeqNum m < md_logSeqNum m"
    using inv by (simp_all add: md_inv_def)
  have nz: "md_nextFileNum m \<noteq> 0" "0 < md_logSeqNum m" using I(5,6) by (auto simp: word_gt_0)
  obtain f where F: "writeMetaEdit m ?me = Some (m\<lparr>md_file := f,
      md_lastSeqNum := (if md_logSeqNum m - 1 \<noteq> 0 then md_logSeqNum m - 1 else md_lastSeqNum m),
      md_minUnflushedLogNum := (if me_minUnflushedLogNum me \<noteq> 0 then me_minUnflushedLogNum me else md_minUnflushedLogNum m),
      md_nextFileNum := md_nextFileNum m,
      md_plainDbAtFileNum := (if me_plainDbAtFileNum me \<noteq> 0 then me_plainDbAtFileNum me else md_plainDbAtFileNum m)\<rparr>)" "file_ok f"
      "field f 16 = (if me_minUnflushedLogNum me \<noteq> 0 then me_minUnflushedLogNum me else md_minUnflushedLogNum m)"
      "field f 24 = md_nextFileNum m" "field f 32 = (if md_logSeqNum m - 1 \<noteq> 0 then md_logSeqNum m - 1 else md_lastSeqNum m)"
      "field f 40 = (if me_plainDbAtFileNum me \<noteq> 0 then me_plainDbAtFileNum me else md_plainDbAtFileNum m)"
    using writeMetaEdit_ok [OF I(1), of ?me] nz(1) I(2-4) by (auto cong: if_cong)
  have "md_apply m me = map_option (\<lambda>m. Inr (m, ?me)) (writeMetaEdit m ?me)" using ok by (auto simp: md_apply_def not_less not_le Let_def)
  moreover have "md_logSeqNum m - 1 < md_logSeqNum m" by (rule logSeq_pred [OF nz(2)])
  ultimately show ?thesis using F I(5,6) ok by (auto simp: md_inv_def)
qed

inductive md_reach :: "metadata \<Rightarrow> bool" where
  create: "openMetadata None = Some (Inr m) \<Longrightarrow> md_reach m"
| reopen: "md_reach m \<Longrightarrow> openMetadata (Some (mm_m (md_file m))) = Some (Inr m') \<Longrightarrow> md_reach m'"
| nextFileNum: "md_reach m \<Longrightarrow> md_nextFileNum m \<noteq> - 1 \<Longrightarrow> getNextFileNum m = (x, m') \<Longrightarrow> md_reach m'"
| fileNumUsed: "md_reach m \<Longrightarrow> fn \<noteq> - 1 \<Longrightarrow> md_reach (markFileNumUsed m fn)"
| logSeqNum: "md_reach m \<Longrightarrow> md_reach (markLogSeqNum m s)"
| commit: "md_reach m \<Longrightarrow> md_logSeqNum m < s \<Longrightarrow> md_reach (m\<lparr>md_logSeqNum := s\<rparr>)"
| edit: "md_reach m \<Longrightarrow> md_apply m me = Some (Inr (m', me')) \<Longrightarrow> md_reach m'"

lemma field_content: "mm_m f = mm_m g \<Longrightarrow> field f pos = field g pos"
  by (simp add: field_def)

lemma md_inv_reopen: "md_inv m \<Longrightarrow> \<exists>m'. openMetadata (Some (mm_m (md_file m))) = Some (Inr m') \<and> md_inv m'"
proof -
  assume inv: "md_inv m"
  then have "field f 16 \<noteq> - 1 \<and> field f 32 \<noteq> - 1" if "mm_m f = mm_m (md_file m)" for f
    using field_content [OF that] word_not_max by (auto simp: md_inv_def)
  then show ?thesis using open_inv [of "mm_m (md_file m)"] inv by (simp add: md_inv_def file_ok_def)
qed

lemma md_apply_none: "md_apply m me = Some (Inr r) \<Longrightarrow> me_minUnflushedLogNum me = 0
    \<or> md_minUnflushedLogNum m \<le> me_minUnflushedLogNum me \<and> me_minUnflushedLogNum me < md_nextFileNum m"
  by (auto simp: md_apply_def not_le not_less split: if_splits)

lemma md_reach_inv: "md_reach m \<Longrightarrow> md_inv m"
proof (induction rule: md_reach.induct)
  case (create m)
  have "\<exists>m. openMetadata (Some metadata_create) = Some (Inr m) \<and> md_inv m"
    by (rule open_inv) (use create_ok create_field in \<open>auto simp: \<close>)
  then show ?case using create by (simp add: openMetadata_def)
next
  case (reopen m m')
  then show ?case using md_inv_reopen [of m] by auto
next
  case (nextFileNum m x m')
  then show ?case using less_plus_one [of "md_nextFileNum m"] by (auto simp: getNextFileNum_def md_inv_def)
next
  case (fileNumUsed m fn)
  then show ?case using less_plus_one [of fn] by (auto simp: markFileNumUsed_def md_inv_def)
next
  case (logSeqNum m s)
  then show ?case by (auto simp: markLogSeqNum_def md_inv_def)
next
  case (commit m s)
  then show ?case by (auto simp: md_inv_def)
next
  case (edit m me m' me')
  then show ?case using md_apply_ok [of m me] md_apply_none [of m me] by auto
qed


section \<open>The tree\<close>

text \<open>The file numbers that the metadata of a tree hand out, over any number of restarts.\<close>

inductive bt_trace :: "bt_metadata \<Rightarrow> u64 list \<Rightarrow> bool" where
  create: "bt_openMetadata None = Some (Inr m) \<Longrightarrow> bt_trace m []"
| reopen: "bt_trace m ns \<Longrightarrow> bt_openMetadata (Some (mm_m (bm_file m))) = Some (Inr m') \<Longrightarrow> bt_trace m' ns"
| nextFileNum: "bt_trace m ns \<Longrightarrow> bm_nextFileNum m \<noteq> - 1 \<Longrightarrow> bt_getNextFileNum m = Some (x, m') \<Longrightarrow> bt_trace m' (ns @ [x])"
| setMin: "bt_trace m ns \<Longrightarrow> setMinUnCompactFileNum m fn = Some m' \<Longrightarrow> bt_trace m' ns"

definition bt_inv :: "bt_metadata \<Rightarrow> bool" where
  "bt_inv m \<longleftrightarrow> file_ok (bm_file m) \<and> field (bm_file m) 16 = bm_minUnCompactFileNum m
     \<and> bm_nextFileNum m = (if field (bm_file m) 24 = 0 then 1 else field (bm_file m) 24)"

lemma bt_open_ok:
  assumes "length c = metaLen"
  shows "\<exists>m. bt_openMetadata (Some c) = Some (Inr m) \<and> mm_m (bm_file m) = c \<and> bt_inv m"
proof -
  obtain f where f: "mmap_Open c 0 = Inr f" "mm_m f = c" using mmap_Open_ok [OF assms] by auto
  have ok: "file_ok f" using assms f(2) by (simp add: file_ok_def)
  obtain v where "ReadUInt16At f 0 = Some v" using version_ok [OF ok] by auto
  then show ?thesis using f ok by (simp add: bt_openMetadata_def read_ok Let_def bt_inv_def)
qed

lemma bt_reopen_same:
  assumes "bt_inv m"
  shows "\<exists>m'. bt_openMetadata (Some (mm_m (bm_file m))) = Some (Inr m') \<and> bt_inv m'
    \<and> bm_nextFileNum m' = bm_nextFileNum m \<and> bm_minUnCompactFileNum m' = bm_minUnCompactFileNum m"
proof -
  have "length (mm_m (bm_file m)) = metaLen" using assms by (simp add: bt_inv_def file_ok_def)
  then obtain m' where m': "bt_openMetadata (Some (mm_m (bm_file m))) = Some (Inr m')" "mm_m (bm_file m') = mm_m (bm_file m)" "bt_inv m'"
    using bt_open_ok by blast
  then show ?thesis using assms field_content [OF m'(2)] by (simp add: bt_inv_def)
qed

lemma bt_next_ok:
  assumes "bt_inv m" and "bm_nextFileNum m \<noteq> - 1"
  shows "\<exists>m'. bt_getNextFileNum m = Some (bm_nextFileNum m, m') \<and> bt_inv m' \<and> bm_nextFileNum m < bm_nextFileNum m'"
proof -
  let ?x = "bm_nextFileNum m + 1"
  have "file_ok (bm_file m)" using assms(1) by (simp add: bt_inv_def)
  then obtain f where f: "WriteUInt64At (bm_file m) ?x 24 = Some f" "file_ok f" "field f 24 = ?x" "field f 16 = field (bm_file m) 16"
    using write_ok [of "bm_file m" 24 ?x] by auto
  have lt: "bm_nextFileNum m < ?x" by (rule less_plus_one [OF assms(2)])
  then have "?x \<noteq> 0" by auto
  then show ?thesis using f assms(1) lt by (simp add: bt_getNextFileNum_def bt_inv_def Let_def)
qed

lemma bt_set_ok:
  assumes "bt_inv m"
  shows "\<exists>m'. setMinUnCompactFileNum m fn = Some m' \<and> bt_inv m' \<and> bm_minUnCompactFileNum m' = fn \<and> bm_nextFileNum m' = bm_nextFileNum m"
proof -
  have "file_ok (bm_file m)" using assms(1) by (simp add: bt_inv_def)
  then obtain f where f: "WriteUInt64At (bm_file m) fn 16 = Some f" "file_ok f" "field f 16 = fn" "field f 24 = field (bm_file m) 24"
    using write_ok [of "bm_file m" 16 fn] by auto
  then show ?thesis using assms(1) by (simp add: setMinUnCompactFileNum_def bt_inv_def Let_def)
qed

lemma bt_trace_inv: "bt_trace m ns \<Longrightarrow> bt_inv m \<and> sorted_wrt (<) ns \<and> (\<forall>x \<in> set ns. x < bm_nextFileNum m)"
proof (induction rule: bt_trace.induct)
  case (create m)
  then show ?case using bt_open_ok [OF create_ok] by (auto simp: bt_openMetadata_def bt_create_eq)
next
  case (reopen m ns m')
  then show ?case using bt_reopen_same [of m] by auto
next
  case (nextFileNum m ns x m')
  then obtain "x = bm_nextFileNum m" "bt_inv m'" "bm_nextFileNum m < bm_nextFileNum m'" using bt_next_ok [of m] by auto
  with nextFileNum show ?case by (auto simp: sorted_wrt_append intro: less_trans)
next
  case (setMin m ns fn m')
  then show ?case using bt_set_ok [of m fn] by auto
qed

section \<open>The sequential database\<close>

fun sm_draw :: "nat \<Rightarrow> sequentialMeta \<Rightarrow> (u64 list \<times> sequentialMeta) option" where
  "sm_draw 0 m = Some ([], m)"
| "sm_draw (Suc k) m =
     do {
       (x, m) \<leftarrow> getNextSeqNum m;
       (xs, m) \<leftarrow> sm_draw k m;
       Some (x # xs, m)
     }"

lemma mask_zero: "(x :: u64) AND 262143 = 0 \<longleftrightarrow> unat x mod 262144 = 0"
proof -
  have "(262143 :: u64) = mask 18" by (simp add: mask_eq_exp_minus_1)
  then have "x AND 262143 = take_bit 18 x" by (simp add: take_bit_eq_mask)
  then have "unat (x AND 262143) = unat x mod 262144" by (simp add: take_bit_eq_mod unat_mod)
  then show ?thesis by (metis unat_eq_zero)
qed

text \<open>A session starts at \<open>s + g\<close>, where \<open>s\<close> is the stored counter and \<open>g\<close> the gap, both in multiples of the gap. After \<open>k\<close> numbers the
  stored counter is still \<open>s\<close> when \<open>k < g\<close>; otherwise it is two gaps beyond the last multiple of the gap that was handed out.\<close>

lemma seq_step:
  assumes f: "file_ok (sm_file m)" and n: "unat (sm_seqNum m) + 1 + 262144 < 2 ^ 64"
  shows "\<exists>m'. getNextSeqNum m = Some (sm_seqNum m + 1, m') \<and> file_ok (sm_file m') \<and> sm_seqNum m' = sm_seqNum m + 1
    \<and> unat (sm_seqNum m') = unat (sm_seqNum m) + 1
    \<and> unat (field (sm_file m') 16) = (if (unat (sm_seqNum m) + 1) mod 262144 = 0 then unat (sm_seqNum m) + 1 + 262144 else unat (field (sm_file m) 16))"
proof -
  let ?x = "sm_seqNum m + 1"
  have u: "unat ?x = unat (sm_seqNum m) + 1" using n by (simp add: unat_word_ariths)
  have v: "unat (?x + 262144) = unat (sm_seqNum m) + 1 + 262144" using n u by (simp add: unat_word_ariths)
  show ?thesis
  proof (cases "?x AND 262143 = 0")
    case True
    obtain f' where f': "WriteUInt64At (sm_file m) (?x + 262144) 16 = Some f'" "file_ok f'" "field f' 16 = ?x + 262144"
      using write_ok [OF f, of 16 "?x + 262144"] by auto
    then show ?thesis using True u v by (simp add: getNextSeqNum_def sm_writeUint64_def Let_def mask_zero)
  next
    case False
    then show ?thesis using f u by (simp add: getNextSeqNum_def Let_def mask_zero)
  qed
qed

lemma sm_draw_ok:
  assumes "file_ok (sm_file m)" and "unat (sm_seqNum m) + k + 262144 < 2 ^ 64"
  shows "\<exists>m'. sm_draw k m = Some (map (\<lambda>i. sm_seqNum m + of_nat (Suc i)) [0..<k], m') \<and> file_ok (sm_file m')
    \<and> unat (sm_seqNum m') = unat (sm_seqNum m) + k
    \<and> unat (field (sm_file m') 16) =
        (let q = (unat (sm_seqNum m) + k) div 262144 * 262144 in if q \<le> unat (sm_seqNum m) then unat (field (sm_file m) 16) else q + 262144)"
  using assms
proof (induction k arbitrary: m)
  case 0
  then show ?case by (simp add: Let_def)
next
  case (Suc k)
  let ?g = "262144 :: nat" and ?n = "unat (sm_seqNum m)"
  obtain m1 where m1: "getNextSeqNum m = Some (sm_seqNum m + 1, m1)" "file_ok (sm_file m1)" "sm_seqNum m1 = sm_seqNum m + 1"
      "unat (sm_seqNum m1) = ?n + 1"
      "unat (field (sm_file m1) 16) = (if (?n + 1) mod ?g = 0 then ?n + 1 + ?g else unat (field (sm_file m) 16))"
    using seq_step [OF Suc.prems(1)] Suc.prems(2) by auto
  obtain m' where m': "sm_draw k m1 = Some (map (\<lambda>i. sm_seqNum m1 + of_nat (Suc i)) [0..<k], m')" "file_ok (sm_file m')"
      "unat (sm_seqNum m') = unat (sm_seqNum m1) + k" "unat (field (sm_file m') 16) =
        (let q = (unat (sm_seqNum m1) + k) div ?g * ?g in if q \<le> unat (sm_seqNum m1) then unat (field (sm_file m1) 16) else q + ?g)"
    using Suc.IH [OF m1(2)] m1(4) Suc.prems(2) by auto
  have list: "map (\<lambda>i. sm_seqNum m + of_nat (Suc i)) [0..<Suc k] = (sm_seqNum m + 1) # map (\<lambda>i. sm_seqNum m1 + of_nat (Suc i)) [0..<k]"
    unfolding m1(3) by (simp add: map_upt_Suc ac_simps del: upt_Suc)
  let ?q = "(?n + Suc k) div ?g * ?g"
  have "unat (field (sm_file m') 16) = (if ?q \<le> ?n then unat (field (sm_file m) 16) else ?q + ?g)"
  proof (cases "?q \<le> ?n")
    case True
    have "(?n + 1) div ?g * ?g \<le> ?q" by (intro mult_le_mono1 div_le_mono) simp
    then have "(?n + 1) mod ?g \<noteq> 0" using True div_mult_mod_eq [of "?n + 1" ?g] by linarith
    then show ?thesis using m'(4) m1(4,5) True by (simp add: Let_def)
  next
    case False
    have "(?n + 1) mod ?g = 0" if "?q = ?n + 1" using that by (metis mod_mult_self2_is_0)
    then show ?thesis using m'(4) m1(4,5) False by (auto simp: Let_def le_Suc_eq)
  qed
  then show ?case using m1(1) m'(1-3) m1(4) unfolding list by (simp add: Let_def)
qed


text \<open>The files that a sequential database leaves behind, session by session.\<close>

inductive seq_file :: "bytes \<Rightarrow> bool" where
  create: "seq_file sm_create"
| session: "seq_file c \<Longrightarrow> openSequentialMeta (Some c) = Some (Inr m) \<Longrightarrow> unat (sm_seqNum m) + k + 3 * 262144 < 2 ^ 64 \<Longrightarrow>
    sm_draw k m = Some (ns, m') \<Longrightarrow> seq_file (mm_m (sm_file m'))"

definition counter :: "bytes \<Rightarrow> nat" where
  "counter c = unat (le_dec (take 8 (drop 16 c)) :: u64)"

lemma counter_field: "counter (mm_m f) = unat (field f 16)"
  by (simp add: counter_def field_def)

lemma sm_open_ok:
  assumes "length c = metaLen"
  shows "\<exists>m. openSequentialMeta (Some c) = Some (Inr m) \<and> mm_m (sm_file m) = c \<and> file_ok (sm_file m)
    \<and> sm_seqNum m = le_dec (take 8 (drop 16 c)) + 262144"
proof -
  obtain f where f: "mmap_Open c 0 = Inr f" "mm_m f = c" using mmap_Open_ok [OF assms] by auto
  have ok: "file_ok f" using assms f(2) by (simp add: file_ok_def)
  obtain v where "ReadUInt16At f 0 = Some v" using version_ok [OF ok] by auto
  then show ?thesis using f ok by (simp add: openSequentialMeta_def sm_load_def sm_getSeqNum_def read_ok field_def)
qed

definition seq_ok :: "bytes \<Rightarrow> bool" where
  "seq_ok c \<longleftrightarrow> length c = metaLen \<and> counter c mod 262144 = 0 \<and> counter c + 262144 < 2 ^ 64"

text \<open>One session: what it hands out and what it leaves in the file.\<close>

lemma session_ok:
  assumes c: "seq_ok c" and k: "counter c + k + 4 * 262144 < 2 ^ 64"
  shows "\<exists>m m' m''. openSequentialMeta (Some c) = Some (Inr m) \<and> unat (sm_seqNum m) = counter c + 262144
    \<and> sm_draw k m = Some (map (\<lambda>i. sm_seqNum m + of_nat (Suc i)) [0..<k], m') \<and> seq_ok (mm_m (sm_file m'))
    \<and> openSequentialMeta (Some (mm_m (sm_file m'))) = Some (Inr m'')
    \<and> (if k < 262144 then sm_seqNum m'' = sm_seqNum m \<and> file_ok (sm_file m'') else unat (sm_seqNum m) + k < unat (sm_seqNum m''))"
proof -
  have len: "length c = metaLen" and md: "counter c mod 262144 = 0" and lt: "counter c + 262144 < 2 ^ 64" using c by (simp_all add: seq_ok_def)
  obtain m where m: "openSequentialMeta (Some c) = Some (Inr m)" "mm_m (sm_file m) = c" "file_ok (sm_file m)"
      "sm_seqNum m = le_dec (take 8 (drop 16 c)) + 262144"
    using sm_open_ok [OF len] by blast
  have n: "unat (sm_seqNum m) = counter c + 262144" using lt unfolding m(4) counter_def by (simp add: unat_word_ariths)
  obtain m' where m': "sm_draw k m = Some (map (\<lambda>i. sm_seqNum m + of_nat (Suc i)) [0..<k], m')" "file_ok (sm_file m')"
    "unat (field (sm_file m') 16) = (let q = (unat (sm_seqNum m) + k) div 262144 * 262144 in
       if q \<le> unat (sm_seqNum m) then unat (field (sm_file m) 16) else q + 262144)"
    using sm_draw_ok [OF m(3), of k] n k by auto
  let ?c = "mm_m (sm_file m')"
  have len': "length ?c = metaLen" using m'(2) by (simp add: file_ok_def)
  obtain m'' where m'': "openSequentialMeta (Some ?c) = Some (Inr m'')" "sm_seqNum m'' = le_dec (take 8 (drop 16 ?c)) + 262144" "file_ok (sm_file m'')"
    using sm_open_ok [OF len'] by blast
  let ?q = "(counter c + 262144 + k) div 262144 * 262144"
  have q: "?q = counter c + 262144 + k div 262144 * 262144"
  proof -
    obtain d where d: "counter c = 262144 * d" using md by auto
    show ?thesis unfolding d by (simp add: div_add1_eq)
  qed
  have "?q \<le> counter c + 262144 \<longleftrightarrow> k < 262144" unfolding q by (simp add: div_eq_0_iff)
  moreover have "unat (field (sm_file m) 16) = counter c" using m(2) by (simp add: counter_field [symmetric])
  ultimately have cnt: "counter ?c = (if k < 262144 then counter c else ?q + 262144)"
    using m'(3) unfolding n counter_field Let_def by simp
  have kd: "k div 262144 * 262144 \<le> k" by simp
  have ok: "seq_ok ?c" using len' md k kd unfolding seq_ok_def cnt q by (auto simp: mod_simps)
  have n'': "unat (sm_seqNum m'') = counter ?c + 262144" using ok unfolding m''(2) counter_def seq_ok_def by (simp add: unat_word_ariths)
  have "sm_seqNum m'' = sm_seqNum m" if "k < 262144" using that n n'' cnt by (simp add: word_unat_eq_iff)
  moreover have "unat (sm_seqNum m) + k < unat (sm_seqNum m'')" if "\<not> k < 262144"
  proof -
    have "k < k div 262144 * 262144 + 262144" using div_mult_mod_eq [of k 262144] mod_less_divisor [of 262144 k] by linarith
    then show ?thesis using that unfolding n n'' cnt q by simp
  qed
  ultimately show ?thesis using m(1) n m'(1) ok m''(1,3) by auto
qed

lemma seq_file_ok: "seq_file c \<Longrightarrow> seq_ok c"
proof (induction rule: seq_file.induct)
  case create
  have "field \<lparr>mm_size = 0, mm_m = metadata_create\<rparr> 16 = 0" by (rule create_field) simp_all
  then show ?case by (simp add: seq_ok_def sm_create_eq create_ok counter_def field_def)
next
  case (session c m k ns m')
  have len: "length c = metaLen" "counter c + 262144 < 2 ^ 64" using session by (simp_all add: seq_ok_def)
  then have "unat (sm_seqNum m) = counter c + 262144" using sm_open_ok [OF len(1)] session by (auto simp: counter_def unat_word_ariths)
  then show ?case using session_ok [of c k] session by auto
qed


section \<open>Signed numbers\<close>

text \<open>The encoding has at most \<open>n\<close> bytes exactly for numbers below \<open>2^(7n)\<close>.\<close>

lemma length_uvarint64: "0 < n \<Longrightarrow> length (put_uvarint64 x) \<le> n \<longleftrightarrow> unat x < 2 ^ (7 * n)"
proof (induction x arbitrary: n rule: put_uvarint64.induct)
  case (1 x)
  obtain n' where n: "n = Suc n'" using "1.prems" by (cases n) auto
  show ?case
  proof (cases "0x80 \<le> x")
    case True
    have d: "unat (drop_bit 7 x) = unat x div 128" by (simp add: drop_bit_eq_div unat_div)
    have len: "length (put_uvarint64 x) = Suc (length (put_uvarint64 (drop_bit 7 x)))" using True by (subst put_uvarint64.simps) simp
    show ?thesis
    proof (cases n')
      case 0
      have "length (put_uvarint64 (drop_bit 7 x)) \<noteq> 0" by (subst put_uvarint64.simps) simp
      then show ?thesis using True n 0 len by (simp add: word_le_nat_alt)
    next
      case (Suc k)
      have "unat x div 128 < 2 ^ (7 * n') \<longleftrightarrow> unat x < 2 ^ (7 * n)" using n by (simp add: div_less_iff_less_mult power_add mult.commute)
      then show ?thesis using "1.IH" [OF True, of n'] Suc n len d by simp
    qed
  next
    case False
    then have "unat x < 2 ^ 7" by (simp add: word_le_nat_alt)
    then have "unat x < 2 ^ (7 * n)" using n by (simp add: power_add) (metis less_le_trans nat_mult_1_right mult_le_mono2 one_le_numeral one_le_power power_one_right)
    then show ?thesis using False n by (subst put_uvarint64.simps) simp
  qed
qed

lemma low7: "ucast ((ucast x OR 0x80 :: byte) AND 0x7f) = (x AND mask 7 :: u64)" for x :: u64
  unfolding mask7 by (rule bit_word_eqI) (auto simp: bit_simps cont_bit)

lemma join7: "(x AND mask 7) OR push_bit 7 (drop_bit 7 x) = x" for x :: u64
proof (rule bit_word_eqI)
  fix n assume "n < LENGTH(64)"
  then show "bit ((x AND mask 7) OR push_bit 7 (drop_bit 7 x)) n = bit x n" by (cases "n < 7") (auto simp: bit_simps)
qed

lemma uvarint64_roundtrip:
  "i + length (put_uvarint64 x) \<le> 9 \<Longrightarrow> Uvarint (put_uvarint64 x @ rest) i acc = (acc OR push_bit (7 * i) x, int (i + length (put_uvarint64 x)))"
proof (induction x arbitrary: i acc rule: put_uvarint64.induct)
  case (1 x)
  show ?case
  proof (cases "0x80 \<le> x")
    case True
    have e: "put_uvarint64 x = (ucast x OR 0x80) # put_uvarint64 (drop_bit 7 x)" using True by (subst put_uvarint64.simps) simp
    have ge: "\<not> ((ucast x OR 0x80 :: byte) < 0x80)" by (metis or.commute le_word_or2 not_le)
    have "push_bit (7 * i) (x AND mask 7) OR push_bit (7 * Suc i) (drop_bit 7 x) = push_bit (7 * i) ((x AND mask 7) OR push_bit 7 (drop_bit 7 x))"
      by (simp only: push_bit_or push_bit_push_bit) (simp add: ac_simps)
    then have "push_bit (7 * i) (x AND mask 7) OR push_bit (7 * Suc i) (drop_bit 7 x) = push_bit (7 * i) x" by (simp only: join7)
    moreover have "i \<noteq> 10" using "1.prems" e by simp
    ultimately show ?thesis using "1.IH" [OF True, of "Suc i" "acc OR push_bit (7 * i) (x AND mask 7)"] "1.prems" ge
      unfolding e by (simp add: low7 or.assoc)
  next
    case False
    then have x: "x < 128" by simp
    have e: "put_uvarint64 x = [ucast x]" using False by (subst put_uvarint64.simps) simp
    have u: "unat (ucast x :: byte) = unat x"
      using x by (simp add: unsigned_ucast_eq unsigned_take_bit_eq take_bit_eq_mod word_less_nat_alt unat_mod)
    have "(ucast x :: byte) < 128" "ucast (ucast x :: byte) = x"
      using u x by (simp_all add: word_less_nat_alt word_unat_eq_iff unsigned_ucast_eq take_bit_eq_mod unat_mod)
    then show ?thesis using "1.prems" unfolding e by simp
  qed
qed

lemma unzigzag_zigzag: "unzigzag (zigzag x) = x"
proof -
  have neg: "x <s 0 \<longleftrightarrow> bit x 63" using bit_last_iff [of x] by (simp add: word_sless_alt)
  have odd: "(y AND 1 \<noteq> 0) \<longleftrightarrow> bit y 0" for y :: u64 by (simp add: and_one_eq bit_0 odd_iff_mod_2_eq_one)
  show ?thesis
  proof (cases "bit x 63")
    case True
    then have z: "zigzag x = NOT (push_bit 1 x)" by (simp add: zigzag_def neg)
    have "bit (zigzag x) 0" unfolding z by (simp only: bit_not_iff bit_push_bit_iff) simp
    moreover have "NOT (drop_bit 1 (zigzag x)) = x"
    proof (rule bit_word_eqI)
      fix n assume "n < LENGTH(64)"
      then show "bit (NOT (drop_bit 1 (zigzag x))) n = bit x n" using True unfolding z by (simp only: bit_not_iff bit_drop_bit_eq comp_apply bit_push_bit_iff) (cases "n = 63"; auto simp: bit_simps)
    qed
    ultimately show ?thesis by (simp add: unzigzag_def odd Let_def)
  next
    case False
    then have z: "zigzag x = push_bit 1 x" by (simp add: zigzag_def neg)
    have "\<not> bit (zigzag x) 0" unfolding z by (simp only: bit_push_bit_iff) simp
    moreover have "drop_bit 1 (zigzag x) = x"
    proof (rule bit_word_eqI)
      fix n assume "n < LENGTH(64)"
      then show "bit (drop_bit 1 (zigzag x)) n = bit x n" using False unfolding z by (simp only: bit_drop_bit_eq comp_apply bit_push_bit_iff) (cases "n = 63"; auto simp: bit_simps)
    qed
    ultimately show ?thesis by (simp add: unzigzag_def odd Let_def)
  qed
qed

lemma zigzag_bound: "unat (zigzag v) < 2 ^ 56 \<longleftrightarrow> - (2 ^ 55) \<le> sint v \<and> sint v < 2 ^ 55"
proof -
  let ?u = "uint v"
  have u: "0 \<le> ?u" "?u < 2 ^ 64" using uint_lt2p [of v] by simp_all
  have neg: "v <s 0 \<longleftrightarrow> bit v 63" using bit_last_iff [of v] by (simp add: word_sless_alt)
  have sv: "sint v = ?u - 2 ^ 64 * of_bool (bit v 63)"
    using u by (simp add: sint_uint signed_take_bit_eq_take_bit_minus take_bit_eq_mod bit_uint_iff mod_pos_pos_trivial)
  have b: "bit v 63 \<longleftrightarrow> 2 ^ 63 \<le> ?u"
  proof -
    have "bit v 63 \<longleftrightarrow> sint v < 0" using neg by (simp add: word_sless_alt)
    then show ?thesis using sv u sint_ge [of v] sint_lt [of v] by (cases "bit v 63") auto
  qed
  have p: "push_bit 1 v = v * 2" by (simp add: push_bit_eq_mult)
  have d: "uint (v * 2) = (?u * 2) mod 2 ^ 64" by (simp add: uint_word_ariths)
  have "unat (zigzag v) < 2 ^ 56 \<longleftrightarrow> int (unat (zigzag v)) < int (2 ^ 56)" by (simp only: of_nat_less_iff)
  also have "\<dots> \<longleftrightarrow> uint (zigzag v) < 2 ^ 56" by simp
  also have "uint (zigzag v) = (if bit v 63 then 2 ^ 65 - 1 - 2 * ?u else 2 * ?u)"
  proof (cases "bit v 63")
    case True
    have "uint (v * 2) = (?u * 2 - 2 ^ 64) mod 2 ^ 64" unfolding d by (rule minus_mod_self2 [symmetric])
    moreover have "0 \<le> ?u * 2 - 2 ^ 64" "?u * 2 - 2 ^ 64 < 2 ^ 64" using True u b by simp_all
    ultimately have m: "uint (v * 2) = ?u * 2 - 2 ^ 64" using mod_pos_pos_trivial by metis
    have "NOT (v * 2) = - 1 - v * 2" by (simp add: not_eq_complement)
    then have "uint (NOT (v * 2)) = (2 ^ 64 - 1 - uint (v * 2)) mod 2 ^ 64" by (simp add: uint_word_ariths)
    then show ?thesis using True m u b by (simp add: zigzag_def neg p)
  next
    case False
    then show ?thesis using u b d by (simp add: zigzag_def neg p)
  qed
  finally have z: "unat (zigzag v) < 2 ^ 56 \<longleftrightarrow> (if bit v 63 then 2 ^ 65 - 1 - 2 * ?u else 2 * ?u) < 2 ^ 56" .
  show ?thesis
  proof (cases "bit v 63")
    case True
    then have "sint v = ?u - 2 ^ 64" using sv by simp
    then show ?thesis using z True u b by auto
  next
    case False
    then have "sint v = ?u" using sv by simp
    moreover have "- (2 ^ 55) \<le> ?u" by (rule order_trans [OF _ u(1)]) simp
    moreover have "(2 * ?u < 2 ^ 56) = (?u < 2 ^ 55)" by simp
    ultimately show ?thesis using z False by (simp only: if_False) simp
  qed
qed

lemma mm_put_read:
  assumes "pos + length bs \<le> length (mm_m m)"
  shows "\<exists>m'. mm_put m pos bs = Some m' \<and> length (mm_m m') = length (mm_m m) \<and> go_slice (mm_m m') pos (pos + length bs) = Some bs"
proof -
  obtain b where b: "go_put (mm_m m) pos bs = Some b" using go_put_total [OF assms] by blast
  then show ?thesis using go_put_slice_same [OF b refl] go_put_length [OF b] by (simp add: mm_put_def)
qed

text \<open>New files.\<close>

lemma new_metadata:
  "\<exists>m. openMetadata None = Some (Inr m) \<and> md_nextFileNum m = 1 \<and> md_minUnflushedLogNum m = 0 \<and> md_logSeqNum m = 1"
proof -
  have "openMetadata None = openMetadata (Some metadata_create)" by (simp add: openMetadata_def)
  then show ?thesis using openMetadata_ok [OF create_ok] create_field by (auto simp: markFileNumUsed_def)
qed

lemma new_bt_metadata: "\<exists>m. bt_openMetadata None = Some (Inr m) \<and> bt_inv m \<and> bm_nextFileNum m = 1"
proof -
  have "bt_openMetadata None = bt_openMetadata (Some metadata_create)" by (simp add: bt_openMetadata_def bt_create_eq)
  then show ?thesis using bt_open_ok [OF create_ok] create_field by (auto simp: bt_inv_def)
qed

lemma bt_next_value:
  assumes "bt_inv m" and "bm_nextFileNum m \<noteq> - 1"
  shows "\<exists>m'. bt_getNextFileNum m = Some (bm_nextFileNum m, m') \<and> bt_inv m' \<and> bm_nextFileNum m' = bm_nextFileNum m + 1"
  using bt_next_ok [OF assms] by (auto simp: bt_getNextFileNum_def Let_def)

lemma new_counter: "counter sm_create = 0"
  using create_field [of "\<lparr>mm_size = 0, mm_m = metadata_create\<rparr>" 16] by (simp add: counter_def field_def sm_create_eq)

section \<open>Properties\<close>

text \<open>C27: in every reachable state, an edit whose log number is neither below the current one nor beyond the numbers handed out
  is written without a panic, and opening the file again restores it: the oldest log in use and the table number are those of the edit
  (or the old ones where the edit leaves them out), and the next file number and the next sequence number are those at the time of the edit. Every
  other edit is refused.\<close>

theorem metadata_apply_reopen:
  assumes "md_reach m"
  shows "if me_minUnflushedLogNum me = 0 \<or> md_minUnflushedLogNum m \<le> me_minUnflushedLogNum me \<and> me_minUnflushedLogNum me < md_nextFileNum m
     then \<exists>m' me' m''. md_apply m me = Some (Inr (m', me')) \<and> openMetadata (Some (mm_m (md_file m'))) = Some (Inr m'')
       \<and> md_minUnflushedLogNum m'' = (if me_minUnflushedLogNum me \<noteq> 0 then me_minUnflushedLogNum me else md_minUnflushedLogNum m)
       \<and> md_plainDbAtFileNum m'' = (if me_plainDbAtFileNum me \<noteq> 0 then me_plainDbAtFileNum me else md_plainDbAtFileNum m)
       \<and> md_nextFileNum m'' = md_nextFileNum m \<and> md_logSeqNum m'' = md_logSeqNum m
     else md_apply m me = Some (Inl ErrInconsistent)"
proof (cases "me_minUnflushedLogNum me = 0 \<or> md_minUnflushedLogNum m \<le> me_minUnflushedLogNum me \<and> me_minUnflushedLogNum me < md_nextFileNum m")
  case True
  have inv: "md_inv m" by (rule md_reach_inv [OF assms])
  obtain m' me' where A: "md_apply m me = Some (Inr (m', me'))" "md_inv m'"
    "md_minUnflushedLogNum m' = (if me_minUnflushedLogNum me \<noteq> 0 then me_minUnflushedLogNum me else md_minUnflushedLogNum m)"
    "md_plainDbAtFileNum m' = (if me_plainDbAtFileNum me \<noteq> 0 then me_plainDbAtFileNum me else md_plainDbAtFileNum m)"
    "field (md_file m') 24 = md_nextFileNum m" "md_nextFileNum m' = md_nextFileNum m"
    "md_logSeqNum m - 1 \<noteq> 0 \<longrightarrow> md_lastSeqNum m' = md_logSeqNum m - 1" "md_logSeqNum m - 1 = 0 \<longrightarrow> md_lastSeqNum m' = md_lastSeqNum m"
    using md_apply_ok [OF inv True] by blast
  have I: "file_ok (md_file m')" "field (md_file m') 16 = md_minUnflushedLogNum m'" "field (md_file m') 32 = md_lastSeqNum m'"
      "field (md_file m') 40 = md_plainDbAtFileNum m'" "md_minUnflushedLogNum m' < md_nextFileNum m'"
    using A(2) by (simp_all add: md_inv_def)
  have len: "length (mm_m (md_file m')) = metaLen" using I(1) by (simp add: file_ok_def)
  obtain f v where F: "mm_m f = mm_m (md_file m')" "openMetadata (Some (mm_m (md_file m'))) = Some (Inr (markFileNumUsed
     \<lparr>md_logSeqNum = (if field f 32 \<noteq> 0 then field f 32 + 1 else 1), md_visibleSeqNum = 0, md_version = v, md_file = f,
      md_lastSeqNum = field f 32, md_minUnflushedLogNum = field f 16,
      md_nextFileNum = (if field f 24 = 0 then 1 else field f 24), md_plainDbAtFileNum = field f 40\<rparr> (field f 16)))"
    using openMetadata_ok [OF len] by blast
  have nz: "md_nextFileNum m \<noteq> 0" using inv by (auto simp: md_inv_def)
  have ls: "(if md_lastSeqNum m' \<noteq> 0 then md_lastSeqNum m' + 1 else 1) = md_logSeqNum m"
  proof (cases "md_logSeqNum m - 1 = 0")
    case True
    then have "md_logSeqNum m = 1" by simp
    moreover have "md_lastSeqNum m < md_logSeqNum m" using inv by (simp add: md_inv_def)
    ultimately have "md_lastSeqNum m = 0" by (simp add: word_less_1)
    then show ?thesis using A(8) True \<open>md_logSeqNum m = 1\<close> by simp
  qed (use A(7) in simp)
  have "\<not> md_nextFileNum m \<le> md_minUnflushedLogNum m'" using I(5) A(6) by simp
  then show ?thesis
    using True A(1,3,4) F(2) ls nz unfolding field_content [OF F(1)] I(2-4) A(5) by (simp add: markFileNumUsed_def)
next
  case False
  then show ?thesis by (auto simp: md_apply_def not_le not_less)
qed

theorem metadata_apply_reopen_witness:
  "\<exists>m m' me' m''. md_reach m \<and> md_apply m \<lparr>me_minUnflushedLogNum = 1, me_nextFileNum = 0, me_lastSeqNum = 0, me_plainDbAtFileNum = 7\<rparr> = Some (Inr (m', me'))
    \<and> openMetadata (Some (mm_m (md_file m'))) = Some (Inr m'')
    \<and> md_minUnflushedLogNum m'' = 1 \<and> md_plainDbAtFileNum m'' = 7 \<and> md_nextFileNum m'' = 2 \<and> md_logSeqNum m'' = 1"
proof -
  obtain m where m: "openMetadata None = Some (Inr m)" "md_nextFileNum m = 1" "md_minUnflushedLogNum m = 0" "md_logSeqNum m = 1"
    using new_metadata by blast
  obtain m1 where m1: "getNextFileNum m = (1, m1)" "md_nextFileNum m1 = 2" "md_minUnflushedLogNum m1 = 0" "md_logSeqNum m1 = 1"
    using m by (simp add: getNextFileNum_def)
  have r: "md_reach m1" by (rule md_reach.nextFileNum [OF md_reach.create [OF m(1)] _ m1(1)]) (simp add: m(2))
  show ?thesis
    using metadata_apply_reopen [OF r, of "\<lparr>me_minUnflushedLogNum = 1, me_nextFileNum = 0, me_lastSeqNum = 0, me_plainDbAtFileNum = 7\<rparr>"] r m1(2-4) by auto
qed

text \<open>C28: the file numbers that the metadata of a tree hand out are strictly ascending, over any sequence of restarts in between, and the
  oldest file that is not compacted survives a restart. (A restart reads the file that the mapping has written; the counter is below its maximum.)\<close>

theorem tree_file_numbers_unique:
  assumes "bt_trace m ns"
  shows "sorted_wrt (<) ns \<and> (bm_nextFileNum m \<noteq> - 1 \<longrightarrow> (\<exists>m'. bt_getNextFileNum m = Some (bm_nextFileNum m, m')
      \<and> (\<forall>x \<in> set ns. x < bm_nextFileNum m)))
    \<and> (\<exists>m' m''. setMinUnCompactFileNum m fn = Some m' \<and> bt_openMetadata (Some (mm_m (bm_file m'))) = Some (Inr m'')
      \<and> getMinUnCompactFileNum m'' = fn \<and> bm_nextFileNum m'' = bm_nextFileNum m)"
proof -
  have inv: "bt_inv m" "sorted_wrt (<) ns" "\<forall>x \<in> set ns. x < bm_nextFileNum m" using bt_trace_inv [OF assms] by auto
  obtain m' where m': "setMinUnCompactFileNum m fn = Some m'" "bt_inv m'" "bm_minUnCompactFileNum m' = fn" "bm_nextFileNum m' = bm_nextFileNum m"
    using bt_set_ok [OF inv(1)] by blast
  obtain m'' where m'': "bt_openMetadata (Some (mm_m (bm_file m'))) = Some (Inr m'')" "bm_nextFileNum m'' = bm_nextFileNum m'"
      "bm_minUnCompactFileNum m'' = bm_minUnCompactFileNum m'"
    using bt_reopen_same [OF m'(2)] by blast
  show ?thesis using inv m' m'' bt_next_ok [OF inv(1)] by (auto simp: getMinUnCompactFileNum_def)
qed

theorem tree_file_numbers_unique_witness:
  "\<exists>m. bt_trace m [1, 2] \<and> sorted_wrt (<) [1, 2 :: u64] \<and> bm_nextFileNum m = 3 \<and> (\<exists>m'. bt_getNextFileNum m = Some (3, m'))"
proof -
  obtain m where m: "bt_openMetadata None = Some (Inr m)" "bt_inv m" "bm_nextFileNum m = 1" using new_bt_metadata by blast
  obtain m1 where m1: "bt_getNextFileNum m = Some (1, m1)" "bt_inv m1" "bm_nextFileNum m1 = 2" using bt_next_value [OF m(2)] m(3) by auto
  obtain m2 where m2: "bt_getNextFileNum m1 = Some (2, m2)" "bm_nextFileNum m2 = 3" using bt_next_value [OF m1(2)] m1(3) by auto
  have "bt_trace m1 ([] @ [1])" by (rule bt_trace.nextFileNum [OF bt_trace.create [OF m(1)] _ m1(1)]) (simp add: m(3))
  then have "bt_trace m2 (([] @ [1]) @ [2])" by (rule bt_trace.nextFileNum [OF _ _ m2(1)]) (simp add: m1(3))
  then have t: "bt_trace m2 [1, 2]" by simp
  then show ?thesis using tree_file_numbers_unique [OF t, of 0] m2(2) by auto
qed

text \<open>C29: the sequence numbers of the sequential database over a restart. A session that hands out fewer than 262144 numbers leaves the stored
  counter as it was, and the next session hands out exactly the same numbers again; after a longer session the next one starts beyond all of them.\<close>

theorem sequence_numbers_restart:
  assumes "seq_file c" and "counter c + k + 4 * 262144 < 2 ^ 64"
  shows "\<exists>m ns m' m''. openSequentialMeta (Some c) = Some (Inr m) \<and> sm_draw k m = Some (ns, m') \<and> length ns = k
    \<and> openSequentialMeta (Some (mm_m (sm_file m'))) = Some (Inr m'')
    \<and> (if k < 262144 then \<exists>m3. sm_draw k m'' = Some (ns, m3) else \<forall>x \<in> set ns. x < getCurrentSeqNum m'')"
proof -
  obtain m m' m'' where S: "openSequentialMeta (Some c) = Some (Inr m)" "unat (sm_seqNum m) = counter c + 262144"
      "sm_draw k m = Some (map (\<lambda>i. sm_seqNum m + of_nat (Suc i)) [0..<k], m')"
      "openSequentialMeta (Some (mm_m (sm_file m'))) = Some (Inr m'')"
      "if k < 262144 then sm_seqNum m'' = sm_seqNum m \<and> file_ok (sm_file m'') else unat (sm_seqNum m) + k < unat (sm_seqNum m'')"
    using session_ok [OF seq_file_ok [OF assms(1)] assms(2)] by blast
  let ?ns = "map (\<lambda>i. sm_seqNum m + of_nat (Suc i)) [0..<k]"
  have "\<exists>m3. sm_draw k m'' = Some (?ns, m3)" if "k < 262144"
    using sm_draw_ok [of m'' k] S(2,5) that assms(2) by auto
  moreover have "\<forall>x \<in> set ?ns. x < getCurrentSeqNum m''" if "\<not> k < 262144"
  proof -
    have "unat (sm_seqNum m + of_nat (Suc i)) < unat (sm_seqNum m'')" if "i < k" for i
    proof -
      have "unat (of_nat (Suc i) :: u64) = Suc i" using that assms(2) by (simp add: unat_of_nat del: of_nat_Suc)
      then have "unat (sm_seqNum m + of_nat (Suc i)) = unat (sm_seqNum m) + Suc i" using S(2) that assms(2) by (simp add: unat_word_ariths)
      then show ?thesis using S(5) \<open>\<not> k < 262144\<close> that by simp
    qed
    then show ?thesis by (auto simp: getCurrentSeqNum_def word_less_nat_alt)
  qed
  ultimately show ?thesis using S(1,3,4) by (intro exI [of _ m] exI [of _ ?ns] exI [of _ m'] exI [of _ m'']) auto
qed

theorem sequence_numbers_restart_witness:
  "\<exists>m ns m' m''. openSequentialMeta (Some sm_create) = Some (Inr m) \<and> sm_draw 3 m = Some (ns, m') \<and> length ns = 3
    \<and> openSequentialMeta (Some (mm_m (sm_file m'))) = Some (Inr m'') \<and> (\<exists>m3. sm_draw 3 m'' = Some (ns, m3))"
  using sequence_numbers_restart [OF seq_file.create, of 3] new_counter by auto

text \<open>C30: \<^verbatim>\<open>WriteInt64At\<close> encodes into the eight bytes of the field. It panics exactly when the field is outside the mapping or the encoding is longer,
  which it is for every number outside \<open>-2^55 .. 2^55 - 1\<close>; otherwise \<^verbatim>\<open>ReadInt64At\<close> returns the number that was written.\<close>

theorem int64_field:
  "(if pos + 8 \<le> length (mm_m m) \<and> unat (zigzag v) < 2 ^ 56
    then \<exists>m'. WriteInt64At m v pos = Some m' \<and> ReadInt64At m' pos = Some v
    else WriteInt64At m v pos = None)
   \<and> (unat (zigzag v) < 2 ^ 56 \<longleftrightarrow> - (2 ^ 55) \<le> sint v \<and> sint v < 2 ^ 55)"
proof (rule conjI)
  let ?e = "put_uvarint64 (zigzag v)"
  have len: "length ?e \<le> 8 \<longleftrightarrow> unat (zigzag v) < 2 ^ 56" using length_uvarint64 [of 8 "zigzag v"] by simp
  show "if pos + 8 \<le> length (mm_m m) \<and> unat (zigzag v) < 2 ^ 56
    then \<exists>m'. WriteInt64At m v pos = Some m' \<and> ReadInt64At m' pos = Some v else WriteInt64At m v pos = None"
  proof (cases "pos + 8 \<le> length (mm_m m) \<and> unat (zigzag v) < 2 ^ 56")
    case True
    obtain b where b: "go_slice (mm_m m) pos (pos + 8) = Some b" "length b = 8" using True by (auto simp: go_slice_def)
    have p: "go_put b 0 ?e = Some (?e @ drop (length ?e) b)" using b(2) True len by (simp add: go_put_def)
    have l: "length (?e @ drop (length ?e) b) = 8" using b(2) True len by simp
    obtain m' where m': "mm_put m pos (?e @ drop (length ?e) b) = Some m'" "go_slice (mm_m m') pos (pos + 8) = Some (?e @ drop (length ?e) b)"
      using mm_put_read [of pos "?e @ drop (length ?e) b" m] True unfolding l by blast
    have "Uvarint (?e @ drop (length ?e) b) 0 0 = (zigzag v, int (length ?e))" using uvarint64_roundtrip [of 0 "zigzag v"] True len by simp
    then show ?thesis using True b(1) p m' by (simp add: WriteInt64At_def ReadInt64At_def unzigzag_zigzag)
  next
    case False
    then show ?thesis using len by (auto simp: WriteInt64At_def go_slice_def go_put_def)
  qed
  show "unat (zigzag v) < 2 ^ 56 \<longleftrightarrow> - (2 ^ 55) \<le> sint v \<and> sint v < 2 ^ 55" by (rule zigzag_bound)
qed

end
