(* ===== verification/Compaction.thy ===== *)
theory Compaction
  imports Level_Merge Flushable_Batch Metadata
begin

text \<open>
  Flushing the plain database: the iterator that keeps the newest version of every key (\<^verbatim>\<open>compaction_iter.go\<close>), the input of a
  flush (\<^verbatim>\<open>compaction.go\<close>), the recycling of write-ahead logs (\<^verbatim>\<open>log_recycler.go\<close>) and the flush itself, which merges the flushed tables
  with the array table into a new array table (\<^verbatim>\<open>plain_flush.go\<close>), with the lookups of \<^verbatim>\<open>plain_db.go\<close> on the result.
\<close>

section \<open>The compaction iterator\<close>

datatype iterPos = iterPosCurForward | iterPosNext | iterPosPrev | iterPosCurReverse | iterPosCurForwardPaused | iterPosCurReversePaused

record 's compactionIter =
  ci_iter :: 's
  ci_err :: "iter_error option"
  ci_key :: InternalKey
  ci_value :: bytes
  ci_valid :: bool
  ci_cur :: "iter_entry option"
  ci_skip :: bool
  ci_pos :: iterPos
  ci_first :: bool
  ci_end :: bool

definition newCompactionIter :: "'s \<Rightarrow> 's compactionIter" where
  "newCompactionIter iter =
     \<lparr>ci_iter = iter, ci_err = None, ci_key = \<lparr>UserKey = [], Trailer = 0\<rparr>, ci_value = [], ci_valid = False, ci_cur = None,
      ci_skip = False, ci_pos = iterPosCurForward, ci_first = False, ci_end = False\<rparr>"

datatype stripeChangeType = newStripe | sameStripeSkippable | sameStripeNonSkippable

definition ci_nextInStripe ::
  "(bytes \<Rightarrow> bytes \<Rightarrow> int) \<Rightarrow> ('s \<Rightarrow> 's iter_result) \<Rightarrow> 's compactionIter \<Rightarrow> ('s compactionIter \<times> stripeChangeType) option" where
  "ci_nextInStripe cmp nxt i =
     do {
       (s, e) \<leftarrow> nxt (ci_iter i);
       let i = i\<lparr>ci_iter := s, ci_cur := e\<rparr>;
       Some (i, case e of
           None \<Rightarrow> newStripe
         | Some (key, _) \<Rightarrow>
             if cmp (UserKey (ci_key i)) (UserKey key) \<noteq> 0 then newStripe
             else if Kind key = InternalKeyKindInvalid then sameStripeNonSkippable else sameStripeSkippable)
     }"

partial_function (option) skip_loop ::
  "(bytes \<Rightarrow> bytes \<Rightarrow> int) \<Rightarrow> ('s \<Rightarrow> 's iter_result) \<Rightarrow> 's compactionIter \<Rightarrow> ('s compactionIter \<times> stripeChangeType) option" where
  "skip_loop cmp nxt i =
     Option.bind (ci_nextInStripe cmp nxt i)
       (\<lambda>r. if snd r = sameStripeSkippable then skip_loop cmp nxt (fst r) else Some r)"

definition ci_skipInStripe :: "(bytes \<Rightarrow> bytes \<Rightarrow> int) \<Rightarrow> ('s \<Rightarrow> 's iter_result) \<Rightarrow> 's compactionIter \<Rightarrow> 's compactionIter option" where
  "ci_skipInStripe cmp nxt i =
     map_option (\<lambda>(i, change). if change = newStripe then i\<lparr>ci_skip := False\<rparr> else i) (skip_loop cmp nxt (i\<lparr>ci_skip := True\<rparr>))"

definition ci_saveKey :: "InternalKey \<Rightarrow> 's compactionIter \<Rightarrow> 's compactionIter" where
  "ci_saveKey key i = i\<lparr>ci_key := \<lparr>UserKey = UserKey key, Trailer = Trailer key\<rparr>\<rparr>"

definition ci_Next :: "(bytes \<Rightarrow> bytes \<Rightarrow> int) \<Rightarrow> ('s \<Rightarrow> 's iter_result) \<Rightarrow> 's compactionIter \<Rightarrow> 's compactionIter iter_result" where
  "ci_Next cmp nxt i =
     (if ci_err i \<noteq> None then Some (i, None)
      else
        do {
          i \<leftarrow> (if ci_pos i = iterPosCurForward
                then (if ci_skip i then ci_skipInStripe cmp nxt i else map_option fst (ci_nextInStripe cmp nxt i))
                else Some i);
          let i = i\<lparr>ci_pos := iterPosCurForward, ci_valid := False\<rparr>;
          Some (case ci_cur i of
              None \<Rightarrow> (i, None)
            | Some (key, val) \<Rightarrow>
                if Kind key = InternalKeyKindSet \<or> Kind key = InternalKeyKindDelete \<or> Kind key = InternalKeyKindPrefixDelete then
                  let i = ci_saveKey key i in
                  (i\<lparr>ci_value := val, ci_valid := True, ci_skip := True\<rparr>, Some (ci_key i, val))
                else (i\<lparr>ci_err := Some (ErrInvalidKind (Kind key)), ci_valid := False\<rparr>, None))
        })"

definition ci_First ::
  "(bytes \<Rightarrow> bytes \<Rightarrow> int) \<Rightarrow> ('s \<Rightarrow> 's iter_result) \<Rightarrow> ('s \<Rightarrow> 's iter_result) \<Rightarrow> 's compactionIter \<Rightarrow> 's compactionIter iter_result" where
  "ci_First cmp fst' nxt i =
     (let i = i\<lparr>ci_first := True\<rparr> in
      if ci_err i \<noteq> None then Some (i, None)
      else
        do {
          (s, e) \<leftarrow> fst' (ci_iter i);
          ci_Next cmp nxt (i\<lparr>ci_iter := s, ci_cur := e, ci_pos := iterPosNext\<rparr>)
        })"

definition ci_Close :: "('s \<Rightarrow> iter_error option) \<Rightarrow> 's compactionIter \<Rightarrow> 's compactionIter \<times> iter_error option" where
  "ci_Close close i =
     (let i = (if ci_err i = None then i\<lparr>ci_err := close (ci_iter i)\<rparr> else i) in (i, ci_err i))"

section \<open>The input of a flush\<close>

datatype 's input_iter = Single 's | Merged "'s mergingIter"

definition newInputIter :: "('f \<Rightarrow> 's) \<Rightarrow> 'f list \<Rightarrow> 's input_iter" where
  "newInputIter newFlushIter flushing =
     (case flushing of
        [f] \<Rightarrow> Single (newFlushIter f)
      | _ \<Rightarrow> Merged (merging_init None None (map newFlushIter flushing)))"

definition lift_result :: "('a \<Rightarrow> 'b) \<Rightarrow> 'a iter_result \<Rightarrow> 'b iter_result" where
  "lift_result c r = map_option (\<lambda>(s, e). (c s, e)) r"

definition input_First :: "'s iter_ops \<Rightarrow> (bytes \<Rightarrow> bytes \<Rightarrow> int) \<Rightarrow> 's input_iter \<Rightarrow> 's input_iter iter_result" where
  "input_First ops cmp i =
     (case i of
        Single s \<Rightarrow> lift_result Single (op_First ops s)
      | Merged m \<Rightarrow> lift_result Merged (merging_First ops cmp m))"

definition input_Next :: "'s iter_ops \<Rightarrow> (bytes \<Rightarrow> bytes \<Rightarrow> int) \<Rightarrow> 's input_iter \<Rightarrow> 's input_iter iter_result" where
  "input_Next ops cmp i =
     (case i of
        Single s \<Rightarrow> lift_result Single (op_Next ops s)
      | Merged m \<Rightarrow> lift_result Merged (merging_Next ops cmp m))"

section \<open>Log files\<close>

record fileInfo =
  fi_fileNum :: u64
  fi_fileSize :: u64

text \<open>\<^verbatim>\<open>merge\<close> of two lists of log files: sorted by number, the first of equal numbers is kept.\<close>

fun keep_first :: "fileInfo list \<Rightarrow> fileInfo list" where
  "keep_first (x # y # xs) = (if fi_fileNum x = fi_fileNum y then keep_first (x # xs) else x # keep_first (y # xs))"
| "keep_first xs = xs"

definition merge_files :: "fileInfo list \<Rightarrow> fileInfo list \<Rightarrow> fileInfo list" where
  "merge_files a b = (if b = [] then a else keep_first (sort_key fi_fileNum (a @ b)))"

record logRecycler =
  lr_limit :: nat
  lr_minRecycleLogNum :: u64
  lr_logs :: "fileInfo list"
  lr_maxLogNum :: u64

definition lr_add :: "logRecycler \<Rightarrow> fileInfo \<Rightarrow> logRecycler \<times> bool" where
  "lr_add r logInfo =
     (if fi_fileNum logInfo < lr_minRecycleLogNum r then (r, False)
      else if fi_fileNum logInfo \<le> lr_maxLogNum r then (r, True)
      else
        let r = r\<lparr>lr_maxLogNum := fi_fileNum logInfo\<rparr> in
        if length (lr_logs r) \<ge> lr_limit r then (r, False)
        else (r\<lparr>lr_logs := lr_logs r @ [logInfo]\<rparr>, True))"

definition lr_peek :: "logRecycler \<Rightarrow> fileInfo option" where
  "lr_peek r = (case lr_logs r of [] \<Rightarrow> None | x # _ \<Rightarrow> Some x)"

definition lr_stats :: "logRecycler \<Rightarrow> nat \<times> u64" where
  "lr_stats r = (length (lr_logs r), sum_list (map fi_fileSize (lr_logs r)))"

datatype lr_error = ErrRecyclerEmpty | ErrRecyclerInvalid

definition lr_pop :: "logRecycler \<Rightarrow> u64 \<Rightarrow> lr_error + logRecycler" where
  "lr_pop r logNum =
     (case lr_logs r of
        [] \<Rightarrow> Inl ErrRecyclerEmpty
      | x # xs \<Rightarrow> if fi_fileNum x \<noteq> logNum then Inl ErrRecyclerInvalid else Inr (r\<lparr>lr_logs := xs\<rparr>))"

section \<open>Flushing\<close>

text \<open>The part of a plain database that a flush works on. \<open>'f\<close> is the type of the tables in memory; of the interface \<^verbatim>\<open>flushable\<close> a flush uses
  \<^verbatim>\<open>newFlushIter\<close> and \<^verbatim>\<open>readyForFlush\<close>, lookups use \<^verbatim>\<open>get\<close>, and an array table is such a table too.\<close>

record ('f, 's) flushable_ops =
  fo_newFlushIter :: "'f \<Rightarrow> 's"
  fo_readyForFlush :: "'f \<Rightarrow> bool"
  fo_get :: "'f \<Rightarrow> bytes \<Rightarrow> (bytes \<times> bool \<times> InternalKeyKind) option"
  fo_table :: "arrayTable \<Rightarrow> 'f"

record 'f flushableEntry =
  en_flushable :: 'f
  en_logNum :: u64
  en_obsolete :: bool

record 'f plainDB =
  pd_queue :: "'f flushableEntry list"
  pd_arrtable :: "'f flushableEntry option"
  pd_meta :: metadata
  pd_logQueue :: "fileInfo list"
  pd_recycler :: logRecycler
  pd_disableWAL :: bool
  pd_deleted :: "u64 list"

datatype flush_error = ErrFlushInvariant | ErrTable table_error | ErrMeta meta_error

text \<open>What the loop of \<^verbatim>\<open>runFlush\<close> keeps: the new table with its number, and the counters.\<close>

record flush_state =
  fs_at :: "(arrayTable \<times> u64) option"
  fs_meta :: metadata
  fs_bytesWritten :: u64
  fs_keyWritten :: nat

text \<open>One round of the loop: the table is created for the first key, and an entry that cannot be written is skipped.\<close>

definition flush_entry :: "flush_state \<Rightarrow> bytes \<Rightarrow> bytes \<Rightarrow> (flush_error \<times> metadata + flush_state) option" where
  "flush_entry st key val =
     do {
       r \<leftarrow> (case fs_at st of
               Some at \<Rightarrow> Some (Inr (at, st))
             | None \<Rightarrow>
                 let (newLogNum, m) = getNextFileNum (fs_meta st) in
                 map_option (\<lambda>r. case r of Inl e \<Rightarrow> Inl (ErrTable e, m) | Inr a \<Rightarrow> Inr ((a, newLogNum), st\<lparr>fs_at := Some (a, newLogNum), fs_meta := m\<rparr>))
                   (newArrayTable []));
       (case r of
          Inl e \<Rightarrow> Some (Inl e)
        | Inr ((a, fn), st) \<Rightarrow>
            map_option (\<lambda>w. Inr (case w of
                Inl (e, a) \<Rightarrow> st\<lparr>fs_at := Some (a, fn)\<rparr>
              | Inr (a, n) \<Rightarrow>
                  st\<lparr>fs_at := Some (a, fn), fs_bytesWritten := fs_bytesWritten st + ucast n, fs_keyWritten := fs_keyWritten st + 1\<rparr>))
              (at_set a key val))
     }"

partial_function (option) flush_loop ::
  "('s \<Rightarrow> 's iter_result) \<Rightarrow> 's \<times> iter_entry option \<Rightarrow> flush_state \<Rightarrow> (flush_error \<times> metadata + flush_state) option" where
  "flush_loop nxt r st =
     (case snd r of
        None \<Rightarrow> Some (Inr st)
      | Some e \<Rightarrow>
          Option.bind (flush_entry st (UserKey (fst e)) (snd e)) (\<lambda>w. case w of
              Inl err \<Rightarrow> Some (Inl err)
            | Inr st \<Rightarrow> Option.bind (nxt (fst r)) (\<lambda>r. flush_loop nxt r st)))"

text \<open>\<^verbatim>\<open>runFlush\<close> returns the table written with its number, or no table when there was no key; the file number it takes stays used.\<close>

definition runFlush ::
  "('f, 's) flushable_ops \<Rightarrow> 's iter_ops \<Rightarrow> (bytes \<Rightarrow> bytes \<Rightarrow> int) \<Rightarrow> metadata \<Rightarrow> 'f list \<Rightarrow>
   ((flush_error + (arrayTable \<times> u64) option) \<times> metadata) option" where
  "runFlush fo ops cmp meta flushing =
     (let iter = newCompactionIter (newInputIter (fo_newFlushIter fo) flushing) in
      do {
        r \<leftarrow> ci_First cmp (input_First ops cmp) (input_Next ops cmp) iter;
        w \<leftarrow> flush_loop (ci_Next cmp (input_Next ops cmp)) r \<lparr>fs_at = None, fs_meta = meta, fs_bytesWritten = 0, fs_keyWritten = 0\<rparr>;
        (case w of
           Inl (e, m) \<Rightarrow> Some (Inl e, m)
         | Inr st \<Rightarrow>
             (case fs_at st of
                None \<Rightarrow> Some (Inr None, fs_meta st)
              | Some (a, fn) \<Rightarrow>
                  map_option (\<lambda>w. (case w of Inl e \<Rightarrow> Inl (ErrTable e) | Inr a \<Rightarrow> Inr (Some (a, fn)), fs_meta st)) (writeFinish a)))
      })"

text \<open>\<^verbatim>\<open>doDeleteObsoleteFiles\<close>: log files below the oldest log in use are recycled or deleted.\<close>

definition split_logs :: "u64 \<Rightarrow> fileInfo list \<Rightarrow> fileInfo list \<times> fileInfo list" where
  "split_logs minNum q =
     (if \<forall>f \<in> set q. fi_fileNum f < minNum then ([], q)
      else (takeWhile (\<lambda>f. fi_fileNum f < minNum) q, dropWhile (\<lambda>f. fi_fileNum f < minNum) q))"

definition recycle_log :: "fileInfo \<Rightarrow> 'f plainDB \<Rightarrow> 'f plainDB" where
  "recycle_log f p =
     (let (r, ok) = lr_add (pd_recycler p) f; p = p\<lparr>pd_recycler := r\<rparr> in
      if ok then p else p\<lparr>pd_deleted := pd_deleted p @ [fi_fileNum f]\<rparr>)"

definition doDeleteObsoleteFiles :: "'f plainDB \<Rightarrow> 'f plainDB" where
  "doDeleteObsoleteFiles p =
     (let (obsoleteLogs, q) = split_logs (md_minUnflushedLogNum (pd_meta p)) (pd_logQueue p)
      in fold recycle_log obsoleteLogs (p\<lparr>pd_logQueue := q\<rparr>))"

fun ready_prefix :: "('f, 's) flushable_ops \<Rightarrow> 'f flushableEntry list \<Rightarrow> nat" where
  "ready_prefix fo (e # e' # es) = (if fo_readyForFlush fo (en_flushable e) then Suc (ready_prefix fo (e' # es)) else 0)"
| "ready_prefix fo es = 0"

definition set_obsolete :: "'f flushableEntry \<Rightarrow> 'f flushableEntry" where
  "set_obsolete e = e\<lparr>en_obsolete := True\<rparr>"

text \<open>\<^verbatim>\<open>flush1\<close>. On success the flushed tables are marked obsolete; they are the second result. Reading the number of a table that was
  not written is a nil dereference.\<close>

definition flush1 ::
  "('f, 's) flushable_ops \<Rightarrow> 's iter_ops \<Rightarrow> (bytes \<Rightarrow> bytes \<Rightarrow> int) \<Rightarrow> 'f plainDB \<Rightarrow>
   ('f plainDB \<times> 'f flushableEntry list \<times> flush_error option) option" where
  "flush1 fo ops cmp p =
     (let n = ready_prefix fo (pd_queue p) in
      if n = 0 then Some (p, [], None)
      else
        let minUnflushedLogNum = en_logNum (pd_queue p ! n); mems = take n (pd_queue p) in
        if \<not> pd_disableWAL p \<and> (\<exists>e \<in> set mems. en_logNum e \<ge> minUnflushedLogNum) then Some (p, [], Some ErrFlushInvariant)
        else
          let flushing = mems @ (case pd_arrtable p of None \<Rightarrow> [] | Some a \<Rightarrow> [a]) in
          do {
            (w, m) \<leftarrow> runFlush fo ops cmp (pd_meta p) (map en_flushable flushing);
            let p = p\<lparr>pd_meta := m\<rparr>;
            (case w of
               Inl e \<Rightarrow> Some (doDeleteObsoleteFiles p, [], Some e)
             | Inr None \<Rightarrow> None
             | Inr (Some (a, fn)) \<Rightarrow>
                 do {
                   w \<leftarrow> md_apply m \<lparr>me_minUnflushedLogNum = minUnflushedLogNum, me_nextFileNum = 0, me_lastSeqNum = 0, me_plainDbAtFileNum = fn\<rparr>;
                   Some (case w of
                       Inl e \<Rightarrow> (doDeleteObsoleteFiles p, [], Some (ErrMeta e))
                     | Inr (m, _) \<Rightarrow>
                         (doDeleteObsoleteFiles (p\<lparr>pd_meta := m, pd_queue := drop n (pd_queue p),
                            pd_arrtable := Some \<lparr>en_flushable = fo_table fo a, en_logNum = fn, en_obsolete = False\<rparr>\<rparr>),
                          map set_obsolete flushing, None))
                 })
          })"

section \<open>Lookups\<close>

text \<open>\<^verbatim>\<open>Get\<close> asks the tables in memory, newest first, and then the array table, whose answer it takes whatever the kind. The inner result is \<open>None\<close> for
  \<^verbatim>\<open>ErrNotFound\<close>.\<close>

fun get_memtables :: "('f \<Rightarrow> bytes \<Rightarrow> (bytes \<times> bool \<times> InternalKeyKind) option) \<Rightarrow> 'f list \<Rightarrow> bytes \<Rightarrow> bytes option option option" where
  "get_memtables get [] key = Some None"
| "get_memtables get (f # fs) key =
     do {
       (val, exist, kind) \<leftarrow> get f key;
       (if exist \<and> (kind = InternalKeyKindSet \<or> kind = InternalKeyKindPrefixDelete) then Some (Some (Some val))
        else if exist \<and> kind = InternalKeyKindDelete then Some (Some None)
        else get_memtables get fs key)
     }"

definition plain_Get :: "('f, 's) flushable_ops \<Rightarrow> 'f plainDB \<Rightarrow> bytes \<Rightarrow> bytes option option" where
  "plain_Get fo p key =
     do {
       r \<leftarrow> get_memtables (fo_get fo) (rev (map en_flushable (pd_queue p))) key;
       (case r of
          Some v \<Rightarrow> Some v
        | None \<Rightarrow>
            (case pd_arrtable p of
               None \<Rightarrow> Some None
             | Some e \<Rightarrow> map_option (\<lambda>(val, exist, kind). if exist then Some val else None) (fo_get fo (en_flushable e) key)))
     }"


section \<open>Streams\<close>

text \<open>What an iterator will show, from its current position on.\<close>

inductive runs :: "('s \<Rightarrow> ('s \<times> 'e option) option) \<Rightarrow> 's \<times> 'e option \<Rightarrow> 'e list \<Rightarrow> bool" for nxt where
  stop: "runs nxt (s, None) []"
| more: "nxt s = Some r \<Longrightarrow> runs nxt r L \<Longrightarrow> runs nxt (s, Some e) (e # L)"

inductive_cases runs_NilE: "runs nxt r []"
inductive_cases runs_ConsE: "runs nxt r (e # L)"

lemma iterate_runs: "iterate nxt n r = Some L \<Longrightarrow> runs nxt r L"
proof (induction nxt n r arbitrary: L rule: iterate.induct)
  case (3 nxt n s e)
  then obtain s' e' L' where "nxt s = Some (s', e')" "iterate nxt n (s', e') = Some L'" "L = e # L'" by (auto split: Option.bind_splits)
  with 3 show ?case by (auto intro: runs.more)
qed (auto intro: runs.stop)

lemma runs_iterate: "runs nxt r L \<Longrightarrow> length L < n \<Longrightarrow> iterate nxt n r = Some L"
proof (induction arbitrary: n rule: runs.induct)
  case (stop s)
  then show ?case by (cases n) simp_all
next
  case (more s r L e)
  then show ?case by (cases n) simp_all
qed

lemma runs_lift:
  assumes "runs f r L" and "\<And>s. g (c s) = lift_result c (f s)"
  shows "runs g (c (fst r), snd r) L"
  using assms(1)
proof (induction rule: runs.induct)
  case (more s r L e)
  then show ?case using assms(2) [of s] by (auto intro!: runs.more simp: lift_result_def split: prod.splits)
qed (auto intro: runs.stop)

section \<open>Keeping the newest version\<close>

function newest :: "(bytes \<Rightarrow> bytes \<Rightarrow> int) \<Rightarrow> iter_entry list \<Rightarrow> iter_entry list" where
  "newest cmp [] = []"
| "newest cmp (e # es) = e # newest cmp (dropWhile (\<lambda>x. cmp (UserKey (fst e)) (UserKey (fst x)) = 0) es)"
  by pat_completeness auto
termination
  by (relation "measure (\<lambda>(cmp, es). length es)") (auto simp: length_dropWhile_le le_imp_less_Suc)

definition writable :: "InternalKey \<Rightarrow> bool" where
  "writable k \<longleftrightarrow> Kind k = InternalKeyKindSet \<or> Kind k = InternalKeyKindDelete \<or> Kind k = InternalKeyKindPrefixDelete"

lemma writable_not_invalid: "writable k \<Longrightarrow> Kind k \<noteq> InternalKeyKindInvalid"
  by (auto simp: writable_def)

lemma skip_loop_runs:
  assumes "nxt (ci_iter i) = Some r" and "runs nxt r L" and "\<forall>e \<in> set L. writable (fst e)"
  shows "\<exists>s c. skip_loop cmp nxt i = Some (i\<lparr>ci_iter := s, ci_cur := c\<rparr>, newStripe)
    \<and> runs nxt (s, c) (dropWhile (\<lambda>x. cmp (UserKey (ci_key i)) (UserKey (fst x)) = 0) L)"
  using assms
proof (induction L arbitrary: i r)
  case Nil
  then obtain s where "r = (s, None)" by (auto elim: runs_NilE)
  then have "ci_nextInStripe cmp nxt i = Some (i\<lparr>ci_iter := s, ci_cur := None\<rparr>, newStripe)" using Nil by (simp add: ci_nextInStripe_def)
  then show ?case by (subst skip_loop.simps) (auto intro: runs.stop)
next
  case (Cons e L)
  then obtain s r' where r: "r = (s, Some e)" "nxt s = Some r'" "runs nxt r' L" by (auto elim: runs_ConsE)
  let ?i = "i\<lparr>ci_iter := s, ci_cur := Some e\<rparr>"
  obtain k v where e: "e = (k, v)" by (cases e)
  show ?case
  proof (cases "cmp (UserKey (ci_key i)) (UserKey (fst e)) = 0")
    case True
    have "Kind (fst e) \<noteq> InternalKeyKindInvalid" using Cons.prems(3) writable_not_invalid by auto
    then have "ci_nextInStripe cmp nxt i = Some (?i, sameStripeSkippable)" using Cons.prems(1) True r(1) by (simp add: ci_nextInStripe_def e)
    then have s: "skip_loop cmp nxt i = skip_loop cmp nxt ?i" by (subst skip_loop.simps) simp
    obtain s' c where "skip_loop cmp nxt ?i = Some (?i\<lparr>ci_iter := s', ci_cur := c\<rparr>, newStripe)"
        "runs nxt (s', c) (dropWhile (\<lambda>x. cmp (UserKey (ci_key ?i)) (UserKey (fst x)) = 0) L)"
      using Cons.IH [of ?i r'] r(2,3) Cons.prems(3) by auto
    then show ?thesis using True unfolding s by auto
  next
    case False
    then have "ci_nextInStripe cmp nxt i = Some (?i, newStripe)" using Cons.prems(1) r(1) by (simp add: ci_nextInStripe_def e)
    then have "skip_loop cmp nxt i = Some (?i, newStripe)" by (subst skip_loop.simps) simp
    moreover have "runs nxt (s, Some e) (e # L)" using r(2,3) by (rule runs.more)
    ultimately show ?thesis using False by auto
  qed
qed

text \<open>The state after an entry was shown, with the entries \<open>L\<close> to come from below.\<close>

definition ci_ready :: "('s \<Rightarrow> 's iter_result) \<Rightarrow> 's compactionIter \<Rightarrow> iter_entry list \<Rightarrow> bool" where
  "ci_ready nxt i L \<longleftrightarrow> ci_err i = None \<and> ci_pos i = iterPosCurForward \<and> ci_skip i \<and> (\<exists>r. nxt (ci_iter i) = Some r \<and> runs nxt r L)"

lemma ci_Next_shows:
  assumes "ci_err i = None" and "runs nxt (ci_iter i, ci_cur i) L" and "\<forall>e \<in> set L. writable (fst e)" and "ci_pos i = iterPosNext"
  shows "\<exists>i'. ci_Next cmp nxt i = Some (i', case L of [] \<Rightarrow> None | e # _ \<Rightarrow> Some e)
    \<and> (L \<noteq> [] \<longrightarrow> ci_ready nxt i' (tl L) \<and> ci_key i' = fst (hd L))"
proof (cases L)
  case Nil
  then have "ci_cur i = None" using assms(2) by (auto elim: runs_NilE)
  then show ?thesis using assms Nil by (simp add: ci_Next_def Let_def)
next
  case (Cons e L')
  obtain k v where e: "e = (k, v)" by (cases e)
  obtain r where r: "ci_cur i = Some e" "nxt (ci_iter i) = Some r" "runs nxt r L'" using assms(2) Cons by (auto elim: runs_ConsE)
  have "writable k" using assms(3) Cons e by simp
  then show ?thesis using assms(1,4) r Cons by (cases r) (simp add: ci_Next_def Let_def e writable_def ci_saveKey_def ci_ready_def)
qed

lemma ci_Next_ready:
  assumes "ci_ready nxt i L" and "\<forall>e \<in> set L. writable (fst e)"
  shows "\<exists>i'. ci_Next cmp nxt i = Some (i', case dropWhile (\<lambda>x. cmp (UserKey (ci_key i)) (UserKey (fst x)) = 0) L of [] \<Rightarrow> None | e # _ \<Rightarrow> Some e)
    \<and> (\<forall>e L'. dropWhile (\<lambda>x. cmp (UserKey (ci_key i)) (UserKey (fst x)) = 0) L = e # L' \<longrightarrow> ci_ready nxt i' L' \<and> ci_key i' = fst e)"
proof -
  let ?D = "dropWhile (\<lambda>x. cmp (UserKey (ci_key i)) (UserKey (fst x)) = 0) L"
  obtain r where R: "ci_err i = None" "ci_pos i = iterPosCurForward" "ci_skip i" "nxt (ci_iter i) = Some r" "runs nxt r L"
    using assms(1) by (auto simp: ci_ready_def)
  let ?i = "i\<lparr>ci_skip := True\<rparr>"
  obtain s c where S: "skip_loop cmp nxt ?i = Some (?i\<lparr>ci_iter := s, ci_cur := c\<rparr>, newStripe)" "runs nxt (s, c) ?D"
    using skip_loop_runs [of nxt ?i r L cmp] R(4,5) assms(2) by auto
  let ?j = "i\<lparr>ci_skip := False, ci_iter := s, ci_cur := c, ci_pos := iterPosNext\<rparr>"
  have "ci_skipInStripe cmp nxt i = Some (i\<lparr>ci_skip := False, ci_iter := s, ci_cur := c\<rparr>)" using S(1) by (simp add: ci_skipInStripe_def)
  then have "ci_Next cmp nxt i = ci_Next cmp nxt ?j" using R(1-3) by (cases c) (simp_all add: ci_Next_def Let_def ci_saveKey_def split: prod.splits)
  moreover have "\<forall>e \<in> set ?D. writable (fst e)" using assms(2) set_dropWhileD by fastforce
  then obtain i' where "ci_Next cmp nxt ?j = Some (i', case ?D of [] \<Rightarrow> None | e # _ \<Rightarrow> Some e)"
      "?D \<noteq> [] \<longrightarrow> ci_ready nxt i' (tl ?D) \<and> ci_key i' = fst (hd ?D)"
    using ci_Next_shows [of ?j nxt ?D cmp] R(1) S(2) by auto
  ultimately show ?thesis by (intro exI [of _ i']) (auto simp del: dropWhile_eq_Nil_conv)
qed

lemma ci_runs:
  assumes "ci_ready nxt i L" and "\<forall>e \<in> set L. writable (fst e)" and "ci_key i = fst e"
  shows "runs (ci_Next cmp nxt) (i, Some e) (newest cmp (e # L))"
  using assms
proof (induction "length L" arbitrary: i e L rule: less_induct)
  case less
  let ?D = "dropWhile (\<lambda>x. cmp (UserKey (fst e)) (UserKey (fst x)) = 0) L"
  obtain i' where N: "ci_Next cmp nxt i = Some (i', case ?D of [] \<Rightarrow> None | x # _ \<Rightarrow> Some x)"
      "\<forall>x L'. ?D = x # L' \<longrightarrow> ci_ready nxt i' L' \<and> ci_key i' = fst x"
    using ci_Next_ready [OF less.prems(1,2), of cmp] less.prems(3) by auto
  show ?case
  proof (cases ?D)
    case Nil
    have "runs (ci_Next cmp nxt) (i, Some e) [e]" using N(1) unfolding Nil by (auto intro: runs.more runs.stop)
    then show ?thesis by (simp only: newest.simps Nil)
  next
    case (Cons x L')
    have "length (x # L') \<le> length L" using length_dropWhile_le [of _ L] Cons by metis
    moreover have "\<forall>e \<in> set L'. writable (fst e)" using less.prems(2) Cons set_dropWhileD [of _ _ L] by (metis list.set_intros(2))
    ultimately have "runs (ci_Next cmp nxt) (i', Some x) (newest cmp (x # L'))" using less.hyps [of L' i' x] N(2) Cons by auto
    then show ?thesis using N(1) Cons by (auto intro!: runs.more)
  qed
qed

lemma ci_First_runs:
  assumes "first s = Some r" and "runs nxt r L" and "\<forall>e \<in> set L. writable (fst e)"
  shows "\<exists>r'. ci_First cmp first nxt (newCompactionIter s) = Some r' \<and> runs (ci_Next cmp nxt) r' (newest cmp L)"
proof -
  obtain s' c where r: "r = (s', c)" by (cases r)
  let ?i = "newCompactionIter s\<lparr>ci_first := True, ci_iter := s', ci_cur := c, ci_pos := iterPosNext\<rparr>"
  have e: "ci_First cmp first nxt (newCompactionIter s) = ci_Next cmp nxt ?i" using assms(1) r by (simp add: ci_First_def newCompactionIter_def)
  have "runs nxt (ci_iter ?i, ci_cur ?i) L" "ci_err ?i = None" using assms(2) r by (simp_all add: newCompactionIter_def)
  then obtain i' where I: "ci_Next cmp nxt ?i = Some (i', case L of [] \<Rightarrow> None | e # _ \<Rightarrow> Some e)"
      "L \<noteq> [] \<longrightarrow> ci_ready nxt i' (tl L) \<and> ci_key i' = fst (hd L)"
    using ci_Next_shows [of ?i nxt L cmp] assms(3) by auto
  show ?thesis
  proof (cases L)
    case Nil
    then show ?thesis using I(1) e by (auto intro: runs.stop)
  next
    case (Cons x L')
    then show ?thesis using I e ci_runs [of nxt i' L' x cmp] assms(3) by auto
  qed
qed


lemma newest_set: "set (newest cmp L) \<subseteq> set L"
proof (induction cmp L rule: newest.induct)
  case (2 cmp e es)
  then show ?case using set_dropWhileD by fastforce
qed simp

definition same_key :: "iter_entry \<Rightarrow> iter_entry \<Rightarrow> bool" where
  "same_key a b \<longleftrightarrow> UserKey (fst a) = UserKey (fst b)"

lemma entry_le_iff:
  "entry_le False a b \<longleftrightarrow> UserKey (fst a) < UserKey (fst b) \<or> (same_key a b \<and> Trailer (fst b) \<le> Trailer (fst a))"
  by (auto simp: entry_le_def entry_lt_def bytes_cmp.InternalCompare_neg bytes_Compare_iff same_key_def not_less)

text \<open>Of a sorted list, \<open>newest\<close> keeps one entry for every key, the newest one, and keeps the order.\<close>

lemma newest_spec:
  assumes "sorted_wrt (entry_le False) L"
  shows "sorted_wrt (\<lambda>a b. UserKey (fst a) < UserKey (fst b)) (newest bytes_Compare L)
    \<and> (\<forall>e \<in> set L. \<exists>x \<in> set (newest bytes_Compare L). same_key x e \<and> Trailer (fst e) \<le> Trailer (fst x))"
  using assms
proof (induction "bytes_Compare :: bytes \<Rightarrow> bytes \<Rightarrow> int" L rule: newest.induct)
  case (2 e es)
  let ?same = "\<lambda>x. bytes_Compare (UserKey (fst e)) (UserKey (fst x)) = 0"
  let ?D = "dropWhile ?same es"
  have same: "?same x \<longleftrightarrow> same_key e x" for x by (auto simp: bytes_Compare_iff same_key_def)
  have D: "sorted_wrt (entry_le False) ?D" using "2.prems" sorted_wrt_dropWhile by auto
  have "UserKey (fst e) < UserKey (fst x)" if "x \<in> set ?D" for x
  proof -
    obtain y ys where y: "?D = y # ys" using \<open>x \<in> set ?D\<close> by (cases ?D) auto
    then have "\<not> same_key e y" using hd_dropWhile [of ?same es] same [of y] by simp
    moreover have "entry_le False e y" using "2.prems" y set_dropWhileD [of y ?same es] by auto
    ultimately have "UserKey (fst e) < UserKey (fst y)" by (auto simp: entry_le_iff)
    moreover have "x = y \<or> entry_le False y x" using D y that by auto
    ultimately show ?thesis by (auto simp: entry_le_iff same_key_def)
  qed
  then have "\<forall>x \<in> set (newest bytes_Compare ?D). UserKey (fst e) < UserKey (fst x)" using newest_set by blast
  moreover have "\<exists>x \<in> set (newest bytes_Compare (e # es)). same_key x y \<and> Trailer (fst y) \<le> Trailer (fst x)" if "y \<in> set (e # es)" for y
  proof (cases "y \<in> set ?D")
    case True
    then show ?thesis using "2.hyps" D by auto
  next
    case False
    then have "y = e \<or> y \<in> set (takeWhile ?same es)" using that by (metis Un_iff set_ConsD set_append takeWhile_dropWhile_id)
    then have "y = e \<or> (same_key e y \<and> y \<in> set es)" using set_takeWhileD [of y ?same es] same by blast
    then show ?thesis using "2.prems" by (auto simp: entry_le_iff same_key_def)
  qed
  ultimately show ?case using "2.hyps" D by auto
qed simp

section \<open>The input of a flush\<close>

lemma level_contract_step:
  assumes "level_contract ops False streams"
  shows "streams s (x # y # ys) \<Longrightarrow> \<exists>s'. op_Next ops s = Some (s', Some y) \<and> streams s' (y # ys)"
    and "streams s [x] \<Longrightarrow> \<exists>s'. op_Next ops s = Some (s', None)"
  using assms unfolding level_contract_def if_False by blast+

lemma starts_runs:
  assumes "level_contract ops False streams" and "starts ops streams f s L"
  shows "\<exists>r. f s = Some r \<and> runs (op_Next ops) r L"
proof -
  have "streams s (x # L) \<Longrightarrow> runs (op_Next ops) (s, Some x) (x # L)" for s x L
  proof (induction L arbitrary: s x)
    case Nil
    then obtain s' where "op_Next ops s = Some (s', None)" using level_contract_step(2) [OF assms(1)] by blast
    then show ?case by (rule runs.more) (rule runs.stop)
  next
    case (Cons y L)
    then obtain s' where "op_Next ops s = Some (s', Some y)" "streams s' (y # L)" using level_contract_step(1) [OF assms(1)] by blast
    with Cons.IH show ?case by (blast intro: runs.more)
  qed
  then show ?thesis using assms(2) by (auto simp: starts_def intro: runs.stop split: list.splits)
qed

lemma input_runs:
  assumes "level_contract ops False streams" and "list_all2 (\<lambda>f L. starts ops streams (op_First ops) (nf f) L) flushing rems"
    and "\<forall>r \<in> set rems. sorted_wrt (entry_le False) r"
  shows "\<exists>r L. input_First ops bytes_Compare (newInputIter nf flushing) = Some r \<and> runs (input_Next ops bytes_Compare) r L
    \<and> mset L = mset (concat rems) \<and> sorted_wrt (entry_le False) L"
proof (cases "length flushing = 1")
  case True
  then obtain f where f: "flushing = [f]" by (auto simp: length_Suc_conv)
  then obtain L where L: "rems = [L]" "starts ops streams (op_First ops) (nf f) L" using assms(2) by (auto simp: list_all2_Cons1)
  obtain r where r: "op_First ops (nf f) = Some r" "runs (op_Next ops) r L" using starts_runs [OF assms(1) L(2)] by blast
  have "runs (input_Next ops bytes_Compare) (Single (fst r), snd r) L"
    by (rule runs_lift [OF r(2)]) (simp add: input_Next_def)
  then show ?thesis using r(1) f L(1) assms(3) by (cases r) (auto simp: newInputIter_def input_First_def lift_result_def)
next
  case False
  let ?m = "merging_init None None (map nf flushing)"
  have n: "newInputIter nf flushing = Merged ?m" using False by (auto simp: newInputIter_def split: list.splits)
  have "list_all2 (starts ops streams (positions ops False None)) (map lv_iter (m_levels ?m)) rems"
    using assms(2) by (simp add: merging_init_def comp_def list_all2_map1 positions_def [abs_def])
  from merging_shows [OF assms(1) this assms(3) lessI] obtain r L where
    r: "merging_First ops bytes_Compare ?m = Some r" "iterate (merging_Next ops bytes_Compare) (Suc (length (concat rems))) r = Some L"
      "mset L = mset (concat rems)" "sorted_wrt (entry_le False) L"
    by (auto simp: merging_positions_def)
  have "runs (input_Next ops bytes_Compare) (Merged (fst r), snd r) L"
    by (rule runs_lift [OF iterate_runs [OF r(2)]]) (simp add: input_Next_def)
  then show ?thesis using r n by (cases r) (auto simp: input_First_def lift_result_def)
qed

section \<open>Writing the table\<close>

definition pair_of :: "iter_entry \<Rightarrow> bytes \<times> bytes" where
  "pair_of e = (UserKey (fst e), snd e)"

lemma flush_loop_runs:
  assumes "runs nxt r L" and "fs_at st = Some (a, fn)" and "at_writing a done" and "22 + length (items (done @ map pair_of L)) < 2 ^ 32"
  shows "\<exists>st' a'. flush_loop nxt r st = Some (Inr st') \<and> fs_at st' = Some (a', fn) \<and> at_writing a' (done @ map pair_of L)
    \<and> fs_meta st' = fs_meta st"
  using assms
proof (induction arbitrary: st a "done" rule: runs.induct)
  case (stop s)
  then show ?case by (subst flush_loop.simps) simp
next
  case (more s r L e)
  obtain k v where e: "e = (k, v)" by (cases e)
  have i: "items (done @ map pair_of (e # L)) = items (done @ [pair_of e]) @ items (map pair_of L)" by (simp add: items_def)
  have p: "pair_of e = (UserKey k, v)" by (simp add: pair_of_def e)
  have "22 + length (items (done @ [pair_of e])) < 2 ^ 32" using more.prems(3) unfolding i by simp
  from at_set_ok [OF more.prems(2) this [unfolded p]] obtain a' n where
    a': "at_set a (UserKey k) v = Some (Inr (a', n))" "at_writing a' (done @ [pair_of e])"
    unfolding p by blast
  let ?st = "st\<lparr>fs_at := Some (a', fn), fs_bytesWritten := fs_bytesWritten st + ucast n, fs_keyWritten := fs_keyWritten st + 1\<rparr>"
  have f: "flush_entry st (UserKey k) v = Some (Inr ?st)" using a'(1) more.prems(1) by (simp add: flush_entry_def)
  have "fs_at ?st = Some (a', fn)" by simp
  from more.IH [OF this a'(2)] more.prems(3) obtain st' a'' where
    "flush_loop nxt r ?st = Some (Inr st')" "fs_at st' = Some (a'', fn)" "at_writing a'' (done @ map pair_of (e # L))" "fs_meta st' = fs_meta st"
    by auto
  then show ?case using more.hyps(1) f e by (subst flush_loop.simps) auto
qed

end
