(* ===== verification/Flush_Tables.thy ===== *)
theory Flush_Tables
  imports Compaction
begin

text \<open>
  The tables that the plain database flushes, as the flush sees them: large batches (\<^verbatim>\<open>flushableBatch\<close> of \<^verbatim>\<open>batch.go\<close>) with their flush
  iterators, and array tables with theirs (\<^verbatim>\<open>array_table_iterator.go\<close>), behind the interfaces \<^verbatim>\<open>flushable\<close> and \<^verbatim>\<open>InternalIterator\<close>. Both
  iterators keep the contract that the merge relies on.
\<close>

section \<open>The flush iterators behind the interface\<close>

type_synonym plain_table = "flushableBatch + arrayTable"
type_synonym plain_iter = "flushFlushableBatchIter + arrayTableFlushIterator"

definition inject_iter :: "('s \<Rightarrow> 't) \<Rightarrow> 's iter_result \<Rightarrow> 't iter_result" where
  "inject_iter g r = map_option (\<lambda>(s, e). (g s, e)) r"

definition on_batch :: "flushFlushableBatchIter \<Rightarrow> flushableBatchIter \<Rightarrow> plain_iter" where
  "on_batch f i = Inl (f\<lparr>ff_iter := i\<rparr>)"

definition on_table :: "arrayTableFlushIterator \<Rightarrow> arrayTableIterator \<Rightarrow> plain_iter" where
  "on_table f i = Inr (f\<lparr>af_iter := i\<rparr>)"

text \<open>A method that a flush iterator does not redefine is the one of the iterator it embeds.\<close>

definition flush_ops :: "plain_iter iter_ops" where
  "flush_ops =
     \<lparr>op_SeekGE = (\<lambda>s key. case s of Inl f \<Rightarrow> Some (s, None) | Inr f \<Rightarrow> inject_iter (on_table f) (ai_SeekGE (af_iter f) key)),
      op_SeekPrefixGE = (\<lambda>s prefix key trySeekUsingNext. case s of Inl f \<Rightarrow> Some (s, None) | Inr f \<Rightarrow> inject_iter (on_table f) (ai_SeekGE (af_iter f) key)),
      op_SeekLT = (\<lambda>s key. case s of Inl f \<Rightarrow> Some (s, None) | Inr f \<Rightarrow> inject_iter (on_table f) (ai_SeekLT (af_iter f) key)),
      op_First = (\<lambda>s. case s of Inl f \<Rightarrow> inject_iter Inl (ff_First bytes_Compare f) | Inr f \<Rightarrow> inject_iter Inr (af_First f)),
      op_Last = (\<lambda>s. case s of Inl f \<Rightarrow> inject_iter (on_batch f) (fb_Last bytes_Compare (ff_iter f)) | Inr f \<Rightarrow> inject_iter (on_table f) (ai_Last (af_iter f))),
      op_Next = (\<lambda>s. case s of Inl f \<Rightarrow> inject_iter Inl (ff_Next f) | Inr f \<Rightarrow> inject_iter Inr (af_Next f)),
      op_Prev = (\<lambda>s. case s of Inl f \<Rightarrow> Some (s, None) | Inr f \<Rightarrow> inject_iter (on_table f) (ai_Prev (af_iter f))),
      op_Error = (\<lambda>s. case s of Inl f \<Rightarrow> map_option (\<lambda>_. ErrLevel 0) (fi_err (ff_iter f)) | Inr f \<Rightarrow> None),
      op_SetBounds = (\<lambda>s lower upper. case s of Inl f \<Rightarrow> on_batch f (fb_SetBounds (ff_iter f) lower upper)
         | Inr f \<Rightarrow> on_table f (ai_SetBounds (af_iter f) lower upper)),
      op_Close = (\<lambda>s. case s of Inl f \<Rightarrow> map_option (\<lambda>_. ErrLevel 0) (fi_err (ff_iter f)) | Inr f \<Rightarrow> None)\<rparr>"

definition at_readyForFlush :: "arrayTable \<Rightarrow> bool" where
  "at_readyForFlush a = True"

definition plain_tables :: "(plain_table, plain_iter) flushable_ops" where
  "plain_tables =
     \<lparr>fo_newFlushIter = (\<lambda>f. case f of Inl b \<Rightarrow> Inl (fb_newFlushIter b 0) | Inr a \<Rightarrow> Inr (at_newFlushIter a 0)),
      fo_readyForFlush = (\<lambda>f. case f of Inl b \<Rightarrow> fb_readyForFlush b | Inr a \<Rightarrow> at_readyForFlush a),
      fo_get = (\<lambda>f key. case f of Inl b \<Rightarrow> fb_get bytes_Compare b key | Inr a \<Rightarrow> at_get a key),
      fo_table = Inr\<rparr>"

text \<open>What a table holds, and when it can be read.\<close>

definition table_content :: "plain_table \<Rightarrow> iter_entry list" where
  "table_content f = (case f of Inl b \<Rightarrow> the (fb_view b) | Inr a \<Rightarrow> map set_entry (at_view a))"

definition table_ok :: "plain_table \<Rightarrow> bool" where
  "table_ok f \<longleftrightarrow> (case f of Inl b \<Rightarrow> fb_view b \<noteq> None \<and> sizes_ok b | Inr a \<Rightarrow> at_shows a (at_view a))"

lemma plain_tables_simps [simp]:
  "fo_newFlushIter plain_tables (Inl b) = Inl (fb_newFlushIter b 0)" "fo_newFlushIter plain_tables (Inr a) = Inr (at_newFlushIter a 0)"
  "fo_readyForFlush plain_tables f" "fo_get plain_tables (Inl b) key = fb_get bytes_Compare b key" "fo_get plain_tables (Inr a) key = at_get a key"
  "fo_table plain_tables = Inr" "table_content (Inl b) = the (fb_view b)" "table_content (Inr a) = map set_entry (at_view a)"
  by (simp_all add: plain_tables_def table_content_def fb_readyForFlush_def at_readyForFlush_def split: sum.split)

section \<open>The contract of the merge\<close>

definition ff_streams :: "flushFlushableBatchIter \<Rightarrow> iter_entry list \<Rightarrow> bool" where
  "ff_streams f L \<longleftrightarrow> sizes_ok (fi_batch (ff_iter f)) \<and> fi_err (ff_iter f) = None
     \<and> (\<exists>vs i. fb_view (fi_batch (ff_iter f)) = Some vs \<and> fi_index (ff_iter f) = int i \<and> i < length vs \<and> L = drop i vs)"

definition af_streams :: "arrayTableFlushIterator \<Rightarrow> iter_entry list \<Rightarrow> bool" where
  "af_streams f L \<longleftrightarrow> at_shows (ai_at (af_iter f)) (at_view (ai_at (af_iter f))) \<and> ai_upper (af_iter f) = None
     \<and> (\<exists>i. ai_intIndexPos (af_iter f) = int i \<and> i < length (ai_entries (af_iter f)) \<and> L = drop i (ai_entries (af_iter f)))"

definition flush_streams :: "plain_iter \<Rightarrow> iter_entry list \<Rightarrow> bool" where
  "flush_streams s L = (case s of Inl f \<Rightarrow> ff_streams f L | Inr f \<Rightarrow> af_streams f L)"

lemma ff_account_clean:
  assumes v: "fb_view (fi_batch (ff_iter f)) = Some vs" and s: "sizes_ok (fi_batch (ff_iter f))" and i: "fi_index (ff_iter f) = int i" "i < length vs"
  shows "\<exists>n. ff_account f = Some (f\<lparr>ff_bytes := n\<rparr>)"
proof -
  let ?d = "fb_data (fi_batch (ff_iter f))"
  obtain e p where e: "go_index (fb_offsets (fi_batch (ff_iter f))) i = Some e" "go_slice ?d (unat (fe_offset e)) (length ?d) = Some p" "p \<noteq> []"
      "p ! 0 = InternalKeyKindSet \<Longrightarrow> \<exists>v. go_slice ?d (unat (fe_keyEnd e)) (length ?d) = Some v"
    using fb_view_slices [OF v i(2)] by blast
  have "e \<in> set (fb_offsets (fi_batch (ff_iter f)))" using e(1) by (auto simp: go_index_def split: if_splits)
  then have z: "?d ! unat (fe_offset e) \<le> InternalKeyKindMax" "?d ! unat (fe_offset e) = InternalKeyKindSet \<Longrightarrow> 0 < snd (Uvarint (drop (unat (fe_keyEnd e)) ?d) 0 0)"
    using s by (auto simp: sizes_ok_def)
  have p: "p = drop (unat (fe_offset e)) ?d" "p ! 0 = ?d ! unat (fe_offset e)" using e(2,3) by (auto simp: go_slice_def split: if_splits)
  have "go_slice ?d (unat (fe_keyEnd e)) (length ?d) = Some (drop (unat (fe_keyEnd e)) ?d)" if "p ! 0 = InternalKeyKindSet"
    using e(4) [OF that] by (auto simp: go_slice_def split: if_splits)
  then have "\<exists>n. ff_valueSize (ff_iter f) = Some (ff_iter f, n)"
    using e(1-3) z i(1) p(2) by (cases "Uvarint (drop (unat (fe_keyEnd e)) ?d) 0 0") (auto simp: ff_valueSize_def Let_def)
  then show ?thesis using e(1) i(1) by (auto simp: ff_account_def)
qed

lemma ff_contract:
  "ff_streams f (x # y # ys) \<Longrightarrow> \<exists>f'. ff_Next f = Some (f', Some y) \<and> ff_streams f' (y # ys)"
  "ff_streams f [x] \<Longrightarrow> \<exists>f'. ff_Next f = Some (f', None) \<and> fi_err (ff_iter f') = None"
proof -
  assume "ff_streams f (x # y # ys)"
  then obtain vs i where a: "sizes_ok (fi_batch (ff_iter f))" "fi_err (ff_iter f) = None" "fb_view (fi_batch (ff_iter f)) = Some vs"
      "fi_index (ff_iter f) = int i" "i < length vs" "x # y # ys = drop i vs"
    by (auto simp: ff_streams_def)
  have r: "y # ys = drop (Suc i) vs" using a(5,6) by (metis Cons_nth_drop_Suc list.inject)
  then have i: "Suc i < length vs" by (metis drop_all leI list.distinct(1))
  then have y: "y = vs ! Suc i" using r by (metis Cons_nth_drop_Suc list.inject)
  let ?i = "(ff_iter f)\<lparr>fi_index := int (Suc i), fi_key := fst (vs ! Suc i)\<rparr>"
  obtain n where n: "ff_account (f\<lparr>ff_iter := ?i\<rparr>) = Some (f\<lparr>ff_iter := ?i, ff_bytes := n\<rparr>)"
    using ff_account_clean [of "f\<lparr>ff_iter := ?i\<rparr>" vs "Suc i"] a(1,3) i by auto
  have "fb_getKey (fi_batch (ff_iter f)) (Suc i) = Some (fst (vs ! Suc i))" "fb_Value ?i = Some (?i, snd (vs ! Suc i))"
    using fb_view_at [OF a(3) i, of ?i] by simp_all
  then have "ff_Next f = Some (f\<lparr>ff_iter := ?i, ff_bytes := n\<rparr>, Some y)"
    using a(4,5) i n fb_view_length [OF a(3)] y unfolding ff_Next_def Let_def by (simp add: ac_simps nat_add_distrib)
  moreover have "ff_streams (f\<lparr>ff_iter := ?i, ff_bytes := n\<rparr>) (y # ys)" using a(1,2,3) i r by (auto simp: ff_streams_def intro!: exI [of _ "Suc i"])
  ultimately show "\<exists>f'. ff_Next f = Some (f', Some y) \<and> ff_streams f' (y # ys)" by blast
next
  assume "ff_streams f [x]"
  then obtain vs i where a: "fi_err (ff_iter f) = None" "fb_view (fi_batch (ff_iter f)) = Some vs"
      "fi_index (ff_iter f) = int i" "i < length vs" "[x] = drop i vs"
    by (auto simp: ff_streams_def)
  have "Suc i = length vs" using a(4) arg_cong [OF a(5), of length] by simp
  then show "\<exists>f'. ff_Next f = Some (f', None) \<and> fi_err (ff_iter f') = None"
    using a(1,3) fb_view_length [OF a(2)] by (auto simp: ff_Next_def Let_def)
qed

lemma af_show_at:
  assumes "at_shows (ai_at (af_iter f)) (at_view (ai_at (af_iter f)))" and "ai_upper (af_iter f) = None"
  shows "\<exists>n. af_show (f\<lparr>af_iter := (af_iter f)\<lparr>ai_intIndexPos := int p\<rparr>\<rparr>) =
    Some (if p < length (ai_entries (af_iter f)) then (f\<lparr>af_iter := (af_iter f)\<lparr>ai_intIndexPos := int p\<rparr>, af_bytes := n\<rparr>, Some (ai_entries (af_iter f) ! p))
      else (f\<lparr>af_iter := (af_iter f)\<lparr>ai_intIndexPos := int p\<rparr>\<rparr>, None))"
  using ai_findItem_shows [of "(af_iter f)\<lparr>ai_intIndexPos := int p\<rparr>" "at_view (ai_at (af_iter f))"] assms
  by (cases "set_entry (at_view (ai_at (af_iter f)) ! p)") (auto simp: af_show_def ai_entries_def)

lemma af_contract:
  "af_streams f (x # y # ys) \<Longrightarrow> \<exists>f'. af_Next f = Some (f', Some y) \<and> af_streams f' (y # ys)"
  "af_streams f [x] \<Longrightarrow> \<exists>f'. af_Next f = Some (f', None)"
proof -
  assume "af_streams f (x # y # ys)"
  then obtain i where a: "at_shows (ai_at (af_iter f)) (at_view (ai_at (af_iter f)))" "ai_upper (af_iter f) = None"
      "ai_intIndexPos (af_iter f) = int i" "i < length (ai_entries (af_iter f))" "x # y # ys = drop i (ai_entries (af_iter f))"
    by (auto simp: af_streams_def)
  have r: "y # ys = drop (Suc i) (ai_entries (af_iter f))" using a(4,5) by (metis Cons_nth_drop_Suc list.inject)
  then have i: "Suc i < length (ai_entries (af_iter f))" by (metis drop_all leI list.distinct(1))
  then have y: "y = ai_entries (af_iter f) ! Suc i" using r by (metis Cons_nth_drop_Suc list.inject)
  obtain n where "af_Next f = Some (f\<lparr>af_iter := (af_iter f)\<lparr>ai_intIndexPos := int (Suc i)\<rparr>, af_bytes := n\<rparr>, Some y)"
    using af_show_at [OF a(1,2), of "Suc i"] a(3) i y by (auto simp: af_Next_def add.commute)
  moreover have "af_streams (f\<lparr>af_iter := (af_iter f)\<lparr>ai_intIndexPos := int (Suc i)\<rparr>, af_bytes := n\<rparr>) (y # ys)"
    using a(1,2) i r by (auto simp: af_streams_def intro!: exI [of _ "Suc i"])
  ultimately show "\<exists>f'. af_Next f = Some (f', Some y) \<and> af_streams f' (y # ys)" by blast
next
  assume "af_streams f [x]"
  then obtain i where a: "at_shows (ai_at (af_iter f)) (at_view (ai_at (af_iter f)))" "ai_upper (af_iter f) = None"
      "ai_intIndexPos (af_iter f) = int i" "i < length (ai_entries (af_iter f))" "[x] = drop i (ai_entries (af_iter f))"
    by (auto simp: af_streams_def)
  have "Suc i = length (ai_entries (af_iter f))" using a(4) arg_cong [OF a(5), of length] by simp
  then have "int (length (ai_entries (af_iter f))) = int i + 1" by simp
  then show "\<exists>f'. af_Next f = Some (f', None)" using af_show_at [OF a(1,2), of "length (ai_entries (af_iter f))"] a(3) by (auto simp: af_Next_def)
qed

lemma flush_contract: "level_contract flush_ops False flush_streams"
  unfolding level_contract_def
proof (intro conjI allI impI)
  fix s x y ys
  assume "flush_streams s (x # y # ys)"
  then show "\<exists>s'. (if False then op_Prev flush_ops else op_Next flush_ops) s = Some (s', Some y) \<and> flush_streams s' (y # ys)"
    using ff_contract(1) [of _ x y ys] af_contract(1) [of _ x y ys] by (cases s) (fastforce simp: flush_ops_def flush_streams_def inject_iter_def)+
next
  fix s x
  assume "flush_streams s [x]"
  then show "\<exists>s'. (if False then op_Prev flush_ops else op_Next flush_ops) s = Some (s', None) \<and> op_Error flush_ops s' = None"
    using ff_contract(2) [of _ x] af_contract(2) [of _ x] by (cases s) (fastforce simp: flush_ops_def flush_streams_def inject_iter_def)+
qed

interpretation flush_levels: level_stream bytes_Compare flush_ops False flush_streams
  by (rule level_contract_stream [OF flush_contract])

lemma flush_starts: "table_ok f \<Longrightarrow> starts flush_ops flush_streams (op_First flush_ops) (fo_newFlushIter plain_tables f) (table_content f)"
proof (cases f)
  case (Inl b)
  assume "table_ok f"
  then obtain vs where v: "fb_view b = Some vs" "sizes_ok b" by (auto simp: table_ok_def Inl)
  let ?it = "(fb_newIter b None None)\<lparr>fi_index := 0\<rparr>"
  note len = fb_view_length [OF v(1)]
  show ?thesis
  proof (cases vs)
    case Nil
    have "ff_First bytes_Compare (fb_newFlushIter b 0) = Some (fb_newFlushIter b 0, None)"
      using Nil len by (simp add: ff_First_def fb_First_def fb_newFlushIter_def fb_newIter_def)
    then show ?thesis using Nil v(1) by (simp add: starts_def Inl flush_ops_def inject_iter_def fb_newFlushIter_def fb_newIter_def)
  next
    case (Cons e es)
    have s: "fb_show ?it (above_upper bytes_Compare None) n = Some (?it\<lparr>fi_key := fst e\<rparr>, Some e)" for n
      using fb_show_at [of ?it vs 0 "above_upper bytes_Compare None" n] v(1) Cons by (simp add: fb_newIter_def above_upper_def)
    let ?f = "\<lparr>ff_iter = ?it\<lparr>fi_key := fst e\<rparr>, ff_bytes = 0\<rparr>"
    obtain n where n: "ff_account ?f = Some (?f\<lparr>ff_bytes := n\<rparr>)"
      using ff_account_clean [of ?f vs 0] v Cons by (auto simp: fb_newIter_def)
    have "ff_First bytes_Compare (fb_newFlushIter b 0) = Some (?f\<lparr>ff_bytes := n\<rparr>, Some e)"
      using s n len Cons by (auto simp: ff_First_def fb_First_def fb_newFlushIter_def fb_newIter_def Let_def)
    moreover have "ff_streams (?f\<lparr>ff_bytes := n\<rparr>) (e # es)" using v Cons by (auto simp: ff_streams_def fb_newIter_def)
    ultimately show ?thesis using Cons v(1) by (simp add: starts_def Inl flush_ops_def inject_iter_def flush_streams_def)
  qed
next
  case (Inr a)
  assume "table_ok f"
  then have v: "at_shows a (at_view a)" by (simp add: table_ok_def Inr)
  let ?f = "at_newFlushIter a 0"
  have e: "ai_entries (af_iter ?f) = map set_entry (at_view a)" by (simp add: at_newFlushIter_def at_newIter_def ai_entries_def)
  have s: "at_shows (ai_at (af_iter ?f)) (at_view (ai_at (af_iter ?f)))" "ai_upper (af_iter ?f) = None" using v by (simp_all add: at_newFlushIter_def at_newIter_def)
  note A = af_show_at [OF s, of 0]
  show ?thesis
  proof (cases "map set_entry (at_view a)")
    case Nil
    then show ?thesis using A e by (auto simp: starts_def Inr flush_ops_def inject_iter_def af_First_def)
  next
    case (Cons x xs)
    obtain n where "af_First ?f = Some (?f\<lparr>af_iter := (af_iter ?f)\<lparr>ai_intIndexPos := 0\<rparr>, af_bytes := n\<rparr>, Some x)"
      using A e Cons by (auto simp: af_First_def)
    moreover have "af_streams (?f\<lparr>af_iter := (af_iter ?f)\<lparr>ai_intIndexPos := 0\<rparr>, af_bytes := n\<rparr>) (x # xs)" for n
      using s e Cons by (auto simp: af_streams_def intro!: exI [of _ 0])
    ultimately show ?thesis using Cons by (auto simp: starts_def Inr flush_ops_def inject_iter_def flush_streams_def)
  qed
qed

end
