(* ===== verification/Plain_Flush.thy ===== *)
theory Plain_Flush
  imports Flush_Tables
begin

text \<open>
  What a flush of the plain database achieves (\<^verbatim>\<open>compaction_iter.go\<close>, \<^verbatim>\<open>plain_flush.go\<close>, \<^verbatim>\<open>log_recycler.go\<close>): the newest version of every key is
  written and found again, log files are released only when they are not needed, and the cases in which the code goes wrong.
\<close>

section \<open>The size of the table\<close>

lemma length_items: "length (items kvs) = sum_list (map (length \<circ> item) kvs)"
  by (induction kvs) (simp_all add: items_def)

lemma length_items_mset: "mset xs = mset ys \<Longrightarrow> length (items (map f xs)) = length (items (map f ys))"
  unfolding length_items by (metis mset_map sum_mset_sum_list)

lemma newest_size: "length (items (map pair_of (newest cmp L))) \<le> length (items (map pair_of L)) \<and> length (newest cmp L) \<le> length L"
proof (induction cmp L rule: newest.induct)
  case (2 cmp e es)
  let ?p = "\<lambda>x. cmp (UserKey (fst e)) (UserKey (fst x)) = 0"
  have "es = takeWhile ?p es @ dropWhile ?p es" by simp
  then have "length (items (map pair_of es)) = length (items (map pair_of (takeWhile ?p es))) + length (items (map pair_of (dropWhile ?p es)))"
    by (metis concat_append items_def length_append map_append)
  then show ?case using 2 length_dropWhile_le [of ?p es] by (auto simp: items_def)
qed (simp add: items_def)

lemma flush_loop_new:
  assumes "runs nxt r (e # L)" and "fs_at st = None" and "22 + length (items (map pair_of (e # L))) < 2 ^ 32"
  shows "\<exists>st' a'. flush_loop nxt r st = Some (Inr st') \<and> fs_at st' = Some (a', md_nextFileNum (fs_meta st)) \<and> at_writing a' (map pair_of (e # L))
    \<and> fs_meta st' = snd (getNextFileNum (fs_meta st))"
proof -
  obtain a where a: "newArrayTable [] = Some (Inr a)" "at_writing a []" using newArrayTable_ok by blast
  obtain fn m where fn: "getNextFileNum (fs_meta st) = (fn, m)" "fn = md_nextFileNum (fs_meta st)" by (simp add: getNextFileNum_def)
  let ?st = "st\<lparr>fs_at := Some (a, fn), fs_meta := m\<rparr>"
  have "flush_entry st k v = flush_entry ?st k v" for k v
    using assms(2) a(1) fn(1) by (simp add: flush_entry_def)
  then have "flush_loop nxt r st = flush_loop nxt r ?st"
    using assms(1) by (subst (1 2) flush_loop.simps) (auto elim!: runs_ConsE)
  then show ?thesis using flush_loop_runs [OF assms(1), of ?st a fn "[]"] a(2) assms(3) fn by auto
qed

text \<open>\<open>flush_input\<close>: the tables to flush, with what each holds. Their iterators keep the contract, the entries of each are sorted and of a kind
  that can be written, no internal key occurs twice, and all of them fit into one table.\<close>

definition flush_input :: "'s iter_ops \<Rightarrow> ('s \<Rightarrow> iter_entry list \<Rightarrow> bool) \<Rightarrow> ('f \<Rightarrow> 's) \<Rightarrow> ('f \<Rightarrow> iter_entry list) \<Rightarrow> 'f list \<Rightarrow> bool" where
  "flush_input ops streams newFlushIter content flushing \<longleftrightarrow>
     level_contract ops False streams
     \<and> (\<forall>f \<in> set flushing. starts ops streams (op_First ops) (newFlushIter f) (content f)
          \<and> sorted_wrt (entry_le False) (content f) \<and> (\<forall>e \<in> set (content f). writable (fst e) \<and> length (UserKey (fst e)) < 2 ^ 16))
     \<and> distinct (map fst (concat (map content flushing)))
     \<and> 22 + length (items (map pair_of (concat (map content flushing)))) + 4 * length (concat (map content flushing)) < 2 ^ 32"

definition newest_version :: "iter_entry set \<Rightarrow> iter_entry \<Rightarrow> bool" where
  "newest_version E e \<longleftrightarrow> e \<in> E \<and> (\<forall>e' \<in> E. same_key e' e \<longrightarrow> Trailer (fst e') \<le> Trailer (fst e))"

lemma newest_versions:
  assumes "sorted_wrt (entry_le False) L" and "inj_on fst (set L)"
  shows "set (newest bytes_Compare L) = {e. newest_version (set L) e}"
proof -
  let ?N = "newest bytes_Compare L"
  have N: "sorted_wrt (\<lambda>a b. UserKey (fst a) < UserKey (fst b)) ?N"
      "\<forall>e \<in> set L. \<exists>x \<in> set ?N. same_key x e \<and> Trailer (fst e) \<le> Trailer (fst x)" "set ?N \<subseteq> set L"
    using newest_spec [OF assms(1)] newest_set by auto
  have one: "x = y" if xy: "x \<in> set ?N" "y \<in> set ?N" "same_key x y" for x y
  proof -
    obtain i j where ij: "i < length ?N" "j < length ?N" "x = ?N ! i" "y = ?N ! j" using xy(1,2) by (metis in_set_conv_nth)
    have lt: "a < b \<Longrightarrow> b < length ?N \<Longrightarrow> UserKey (fst (?N ! a)) < UserKey (fst (?N ! b))" for a b
      using N(1) by (simp add: sorted_wrt_iff_nth_less)
    have "\<not> i < j" "\<not> j < i" using lt [of i j] lt [of j i] ij xy(3) by (auto simp: same_key_def)
    then show ?thesis using ij by (simp add: linorder_neq_iff)
  qed
  have "newest_version (set L) x" if x: "x \<in> set ?N" for x
    unfolding newest_version_def
  proof (intro conjI ballI impI)
    fix e assume e: "e \<in> set L" "same_key e x"
    then obtain y where y: "y \<in> set ?N" "same_key y e" "Trailer (fst e) \<le> Trailer (fst y)" using N(2) by blast
    then have "y = x" using one [OF y(1) x] e(2) by (simp add: same_key_def)
    then show "Trailer (fst e) \<le> Trailer (fst x)" using y(3) by simp
  qed (use x N(3) in blast)
  moreover have "e \<in> set ?N" if e: "newest_version (set L) e" for e
  proof -
    have "e \<in> set L" using e by (simp add: newest_version_def)
    then obtain x where x: "x \<in> set ?N" "same_key x e" "Trailer (fst e) \<le> Trailer (fst x)" using N(2) by blast
    then have "Trailer (fst x) \<le> Trailer (fst e)" using e N(3) by (auto simp: newest_version_def)
    then have "fst x = fst e" using x(2,3) by (simp add: same_key_def)
    then have "x = e" using assms(2) x(1) \<open>e \<in> set L\<close> N(3) by (auto simp: inj_on_def)
    then show ?thesis using x(1) by simp
  qed
  ultimately show ?thesis by blast
qed

lemma runFlush_ok:
  assumes "flush_input ops streams (fo_newFlushIter fo) content flushing"
  defines "E \<equiv> set (concat (map content flushing))"
  shows "\<exists>N. sorted_wrt (\<lambda>a b. UserKey (fst a) < UserKey (fst b)) N \<and> set N = {e. newest_version E e}
    \<and> (if E = {} then runFlush fo ops bytes_Compare meta flushing = Some (Inr None, meta)
       else \<exists>a. runFlush fo ops bytes_Compare meta flushing = Some (Inr (Some (a, md_nextFileNum meta)), snd (getNextFileNum meta))
         \<and> at_shows a (map pair_of N))"
proof -
  note F = assms(1) [unfolded flush_input_def]
  let ?C = "concat (map content flushing)"
  have "list_all2 (\<lambda>f L. starts ops streams (op_First ops) (fo_newFlushIter fo f) L) flushing (map content flushing)"
    using F by (simp add: list_all2_map2 list_all2_same)
  moreover have "\<forall>r \<in> set (map content flushing). sorted_wrt (entry_le False) r" using F by simp
  ultimately obtain r L where L: "input_First ops bytes_Compare (newInputIter (fo_newFlushIter fo) flushing) = Some r"
      "runs (input_Next ops bytes_Compare) r L" "mset L = mset ?C" "sorted_wrt (entry_le False) L"
    using input_runs F by blast
  have set: "set L = E" using L(3) unfolding E_def by (metis set_mset_mset)
  have "\<forall>e \<in> set L. writable (fst e)" using F set by (auto simp: E_def)
  from ci_First_runs [of "input_First ops bytes_Compare", OF L(1,2) this] obtain r' where
    r': "ci_First bytes_Compare (input_First ops bytes_Compare) (input_Next ops bytes_Compare) (newCompactionIter (newInputIter (fo_newFlushIter fo) flushing)) = Some r'"
      "runs (ci_Next bytes_Compare (input_Next ops bytes_Compare)) r' (newest bytes_Compare L)"
    by blast
  let ?N = "newest bytes_Compare L"
  have "distinct (map fst L)" using F L(3) by (metis distinct_count_atmost_1 mset_map mset_eq_imp_distinct_iff)
  then have N: "sorted_wrt (\<lambda>a b. UserKey (fst a) < UserKey (fst b)) ?N" "set ?N = {e. newest_version E e}"
    using newest_spec [OF L(4)] newest_versions [OF L(4)] set by (auto simp: distinct_map)
  have sz: "22 + length (items (map pair_of ?N)) + 4 * length (map pair_of ?N) < 2 ^ 32"
    using F newest_size [of bytes_Compare L] length_items_mset [OF L(3), of pair_of] mset_eq_length [OF L(3)] by auto
  let ?st = "\<lparr>fs_at = None, fs_meta = meta, fs_bytesWritten = 0, fs_keyWritten = 0\<rparr>"
  show ?thesis
  proof (cases ?N)
    case Nil
    then have e: "E = {}" using set by (cases L) auto
    have "flush_loop (ci_Next bytes_Compare (input_Next ops bytes_Compare)) r' ?st = Some (Inr ?st)"
      using r'(2) Nil by (subst flush_loop.simps) (auto elim: runs_NilE)
    then have "runFlush fo ops bytes_Compare meta flushing = Some (Inr None, meta)" using r'(1) by (simp add: runFlush_def Let_def)
    then show ?thesis using N e by auto
  next
    case (Cons x N')
    then have e: "E \<noteq> {}" using set by (cases L) auto
    have "22 + length (items (map pair_of (x # N'))) < 2 ^ 32" using sz Cons by simp
    from flush_loop_new [OF r'(2) [unfolded Cons] _ this, of ?st] obtain st' a where
      st': "flush_loop (ci_Next bytes_Compare (input_Next ops bytes_Compare)) r' ?st = Some (Inr st')" "fs_at st' = Some (a, md_nextFileNum meta)"
        "at_writing a (map pair_of ?N)" "fs_meta st' = snd (getNextFileNum meta)"
      using Cons by auto
    obtain a' where a': "writeFinish a = Some (Inr a')" "at_finished a' (map pair_of ?N)" using writeFinish_ok [OF st'(3) sz] by blast
    have "\<forall>(key, val) \<in> set (map pair_of ?N). length key < 2 ^ 16"
      using F newest_set [of bytes_Compare L] set by (fastforce simp: pair_of_def E_def)
    then have "at_shows a' (map pair_of ?N)" by (rule finished_shows [OF a'(2)])
    moreover have "runFlush fo ops bytes_Compare meta flushing = Some (Inr (Some (a', md_nextFileNum meta)), snd (getNextFileNum meta))"
      using r'(1) st' a'(1) by (simp add: runFlush_def Let_def)
    ultimately show ?thesis using N e by auto
  qed
qed

section \<open>Reading across a flush\<close>

text \<open>What the tables in memory promise to lookups, with what each holds: the newest version of the key in the table.\<close>

definition table_version :: "iter_entry list \<Rightarrow> bytes \<Rightarrow> iter_entry option" where
  "table_version L key = List.find (\<lambda>e. UserKey (fst e) = key) L"

definition memtable_get :: "('f \<Rightarrow> bytes \<Rightarrow> (bytes \<times> bool \<times> InternalKeyKind) option) \<Rightarrow> ('f \<Rightarrow> iter_entry list) \<Rightarrow> 'f \<Rightarrow> bytes \<Rightarrow> bool" where
  "memtable_get get content f key \<longleftrightarrow> get f key = Some (case table_version (content f) key of
      None \<Rightarrow> ([], False, InternalKeyKindInvalid)
    | Some e \<Rightarrow> (snd e, True, Kind (fst e)))"

definition newer :: "iter_entry list \<Rightarrow> iter_entry list \<Rightarrow> bool" where
  "newer L L' \<longleftrightarrow> (\<forall>e \<in> set L. \<forall>e' \<in> set L'. same_key e e' \<longrightarrow> Trailer (fst e') < Trailer (fst e))"

fun first_version :: "iter_entry list list \<Rightarrow> bytes \<Rightarrow> iter_entry option" where
  "first_version [] key = None"
| "first_version (L # Ls) key = (case table_version L key of None \<Rightarrow> first_version Ls key | Some e \<Rightarrow> Some e)"

lemma table_version_None: "table_version L key = None \<longleftrightarrow> (\<forall>e \<in> set L. UserKey (fst e) \<noteq> key)"
  by (auto simp: table_version_def find_None_iff)

lemma table_version_newest:
  assumes "sorted_wrt (entry_le False) L" and "table_version L key = Some e"
  shows "UserKey (fst e) = key \<and> newest_version (set L) e"
proof -
  obtain i where i: "i < length L" "UserKey (fst (L ! i)) = key" "e = L ! i" "\<forall>j < i. UserKey (fst (L ! j)) \<noteq> key"
    using assms(2) by (auto simp: table_version_def find_Some_iff)
  have "Trailer (fst (L ! j)) \<le> Trailer (fst e)" if "j < length L" "same_key (L ! j) e" for j
  proof (cases "j = i")
    case False
    then have "i < j" using i that(2) by (auto simp: same_key_def linorder_neq_iff)
    then have "entry_le False (L ! i) (L ! j)" using assms(1) that(1) by (auto simp: sorted_wrt_iff_nth_less)
    then show ?thesis using i that(2) by (auto simp: entry_le_iff same_key_def)
  qed (use i in simp)
  then have "\<forall>e' \<in> set L. same_key e' e \<longrightarrow> Trailer (fst e') \<le> Trailer (fst e)" by (metis in_set_conv_nth)
  then show ?thesis using i by (simp add: newest_version_def)
qed

lemma first_version_newest:
  assumes "\<forall>L \<in> set Ls. sorted_wrt (entry_le False) L" and "sorted_wrt newer Ls"
  shows "(case first_version Ls key of
      None \<Rightarrow> \<forall>e \<in> set (concat Ls). UserKey (fst e) \<noteq> key
    | Some e \<Rightarrow> UserKey (fst e) = key \<and> newest_version (set (concat Ls)) e)"
  using assms
proof (induction Ls)
  case (Cons L Ls)
  show ?case
  proof (cases "table_version L key")
    case None
    then have "\<forall>e \<in> set L. UserKey (fst e) \<noteq> key" by (simp add: table_version_None)
    moreover have "newest_version (set (concat (L # Ls))) e" if "UserKey (fst e) = key" "newest_version (set (concat Ls)) e" for e
      using that calculation unfolding newest_version_def same_key_def by fastforce
    ultimately show ?thesis using Cons None by (auto split: option.splits)
  next
    case (Some e)
    then have e: "UserKey (fst e) = key" "newest_version (set L) e" using table_version_newest [of L key e] Cons.prems(1) by simp_all
    have "\<forall>e' \<in> set (concat Ls). same_key e' e \<longrightarrow> Trailer (fst e') < Trailer (fst e)"
      using Cons.prems(2) e(2) by (fastforce simp: newer_def newest_version_def same_key_def)
    then have "newest_version (set (concat (L # Ls))) e" using e(2) unfolding newest_version_def by fastforce
    then show ?thesis using Some e(1) by simp
  qed
qed simp

lemma get_memtables_append:
  "get_memtables get (fs @ gs) key = Option.bind (get_memtables get fs key) (\<lambda>r. case r of None \<Rightarrow> get_memtables get gs key | Some v \<Rightarrow> Some (Some v))"
  by (induction fs) (auto split: Option.bind_split)

text \<open>What a lookup answers when it finds the entry \<open>e\<close> in a table in memory.\<close>

definition answer :: "iter_entry \<Rightarrow> bytes option" where
  "answer e = (if Kind (fst e) = InternalKeyKindDelete then None else Some (snd e))"

lemma get_memtables_version:
  assumes "\<forall>f \<in> set fs. memtable_get get content f key" and "\<forall>f \<in> set fs. \<forall>e \<in> set (content f). writable (fst e)"
  shows "get_memtables get fs key = Some (map_option answer (first_version (map content fs) key))"
  using assms
proof (induction fs)
  case (Cons f fs)
  show ?case
  proof (cases "table_version (content f) key")
    case (Some e)
    then have "e \<in> set (content f)" by (auto simp: table_version_def find_Some_iff)
    then show ?thesis using Cons.prems Some by (auto simp: memtable_get_def writable_def answer_def)
  qed (use Cons in \<open>auto simp: memtable_get_def\<close>)
qed simp

text \<open>The tables a flush takes: the ready ones at the front of the queue and the array table.\<close>

definition flushed_mems :: "('f, 's) flushable_ops \<Rightarrow> 'f plainDB \<Rightarrow> 'f list" where
  "flushed_mems fo p = map en_flushable (take (ready_prefix fo (pd_queue p)) (pd_queue p))"

definition kept_mems :: "('f, 's) flushable_ops \<Rightarrow> 'f plainDB \<Rightarrow> 'f list" where
  "kept_mems fo p = map en_flushable (drop (ready_prefix fo (pd_queue p)) (pd_queue p))"

definition old_table :: "'f plainDB \<Rightarrow> 'f list" where
  "old_table p = (case pd_arrtable p of None \<Rightarrow> [] | Some e \<Rightarrow> [en_flushable e])"

text \<open>The state of the queue and of the metadata that a flush expects: the logs of the flushed tables are older than those of the tables kept, and
  the number of the oldest log kept was handed out.\<close>

definition logs_ok :: "('f, 's) flushable_ops \<Rightarrow> 'f plainDB \<Rightarrow> bool" where
  "logs_ok fo p \<longleftrightarrow>
     (let n = ready_prefix fo (pd_queue p); num = en_logNum (pd_queue p ! n) in
      0 < n \<and> md_inv (pd_meta p) \<and> md_nextFileNum (pd_meta p) \<noteq> - 1
      \<and> (\<forall>e \<in> set (take n (pd_queue p)). en_logNum e < num)
      \<and> md_minUnflushedLogNum (pd_meta p) \<le> num \<and> num < md_nextFileNum (pd_meta p))"

lemma doDelete_keeps:
  "pd_queue (doDeleteObsoleteFiles p) = pd_queue p" "pd_arrtable (doDeleteObsoleteFiles p) = pd_arrtable p"
  "pd_meta (doDeleteObsoleteFiles p) = pd_meta p"
proof -
  have "pd_queue (fold recycle_log fs p) = pd_queue p \<and> pd_arrtable (fold recycle_log fs p) = pd_arrtable p \<and> pd_meta (fold recycle_log fs p) = pd_meta p"
    for fs and p :: "'a plainDB"
    by (induction fs arbitrary: p) (auto simp: recycle_log_def Let_def split: prod.splits)
  then show "pd_queue (doDeleteObsoleteFiles p) = pd_queue p" "pd_arrtable (doDeleteObsoleteFiles p) = pd_arrtable p"
    "pd_meta (doDeleteObsoleteFiles p) = pd_meta p"
    by (auto simp: doDeleteObsoleteFiles_def Let_def split: prod.splits)
qed

lemma ready_prefix_less: "q \<noteq> [] \<Longrightarrow> ready_prefix fo q < length q"
  by (induction fo q rule: ready_prefix.induct) auto

lemma next_file_inv:
  assumes "md_inv m" and "md_nextFileNum m \<noteq> - 1"
  shows "md_inv (snd (getNextFileNum m))"
  using assms less_plus_one [OF assms(2)] by (auto simp: md_inv_def getNextFileNum_def)

lemma flush1_ok:
  assumes "logs_ok fo p" and "flush_input ops streams (fo_newFlushIter fo) content (flushed_mems fo p @ old_table p)"
  defines "E \<equiv> set (concat (map content (flushed_mems fo p @ old_table p)))"
  assumes "E \<noteq> {}"
  shows "\<exists>p' obs a N. flush1 fo ops bytes_Compare p = Some (p', obs, None) \<and> pd_queue p' = drop (ready_prefix fo (pd_queue p)) (pd_queue p)
    \<and> pd_arrtable p' = Some \<lparr>en_flushable = fo_table fo a, en_logNum = md_nextFileNum (pd_meta p), en_obsolete = False\<rparr>
    \<and> md_minUnflushedLogNum (pd_meta p') = en_logNum (pd_queue p ! ready_prefix fo (pd_queue p))
    \<and> md_plainDbAtFileNum (pd_meta p') = md_nextFileNum (pd_meta p)
    \<and> at_shows a (map pair_of N) \<and> sorted_wrt (\<lambda>a b. UserKey (fst a) < UserKey (fst b)) N \<and> set N = {e. newest_version E e}"
proof -
  let ?n = "ready_prefix fo (pd_queue p)" and ?m = "snd (getNextFileNum (pd_meta p))"
  let ?num = "en_logNum (pd_queue p ! ?n)"
  let ?me = "\<lparr>me_minUnflushedLogNum = ?num, me_nextFileNum = 0, me_lastSeqNum = 0, me_plainDbAtFileNum = md_nextFileNum (pd_meta p)\<rparr>"
  have O: "0 < ?n" "md_inv (pd_meta p)" "md_nextFileNum (pd_meta p) \<noteq> - 1" "\<forall>e \<in> set (take ?n (pd_queue p)). en_logNum e < ?num"
      "md_minUnflushedLogNum (pd_meta p) \<le> ?num" "?num < md_nextFileNum (pd_meta p)"
    using assms(1) by (simp_all add: logs_ok_def Let_def)
  have q: "pd_queue p \<noteq> []" using O(1) by (cases "pd_queue p") auto
  then have "hd (take ?n (pd_queue p)) \<in> set (take ?n (pd_queue p))" using O(1) by (intro hd_in_set) auto
  then have nz: "?num \<noteq> 0" "md_nextFileNum (pd_meta p) \<noteq> 0" using O(4,6) word_not_simps(1) by metis+
  have fl: "flushed_mems fo p @ old_table p = map en_flushable (take ?n (pd_queue p) @ (case pd_arrtable p of None \<Rightarrow> [] | Some a \<Rightarrow> [a]))"
    by (simp add: flushed_mems_def old_table_def split: option.split)
  obtain N a where R: "runFlush fo ops bytes_Compare (pd_meta p) (flushed_mems fo p @ old_table p) = Some (Inr (Some (a, md_nextFileNum (pd_meta p))), ?m)"
      "at_shows a (map pair_of N)" "sorted_wrt (\<lambda>a b. UserKey (fst a) < UserKey (fst b)) N" "set N = {e. newest_version E e}"
    using runFlush_ok [OF assms(2), of "pd_meta p"] assms(4) unfolding E_def by (simp only: if_False) blast
  have "?num < md_nextFileNum ?m" using O(6) less_plus_one [OF O(3)] by (simp add: getNextFileNum_def)
  moreover have "md_minUnflushedLogNum ?m = md_minUnflushedLogNum (pd_meta p)" by (simp add: getNextFileNum_def)
  ultimately obtain m' me' where A: "md_apply ?m ?me = Some (Inr (m', me'))"
      "md_minUnflushedLogNum m' = ?num" "md_plainDbAtFileNum m' = md_nextFileNum (pd_meta p)"
    using md_apply_ok [OF next_file_inv [OF O(2,3)], of ?me] O(5) nz by auto
  have ex: "\<not> (\<exists>e \<in> set (take ?n (pd_queue p)). ?num \<le> en_logNum e)" using O(4) by (auto simp: not_le)
  let ?f = "take ?n (pd_queue p) @ (case pd_arrtable p of None \<Rightarrow> [] | Some a \<Rightarrow> [a])"
  let ?p = "p\<lparr>pd_meta := m', pd_queue := drop ?n (pd_queue p),
    pd_arrtable := Some \<lparr>en_flushable = fo_table fo a, en_logNum = md_nextFileNum (pd_meta p), en_obsolete = False\<rparr>\<rparr>"
  have "flush1 fo ops bytes_Compare p = Some (doDeleteObsoleteFiles ?p, map set_obsolete ?f, None)"
    using O(1) R(1) [unfolded fl] A(1) ex by (simp add: flush1_def Let_def)
  moreover have "pd_queue (doDeleteObsoleteFiles ?p) = drop ?n (pd_queue p)" "md_minUnflushedLogNum (pd_meta (doDeleteObsoleteFiles ?p)) = ?num"
      "pd_arrtable (doDeleteObsoleteFiles ?p) = Some \<lparr>en_flushable = fo_table fo a, en_logNum = md_nextFileNum (pd_meta p), en_obsolete = False\<rparr>"
      "md_plainDbAtFileNum (pd_meta (doDeleteObsoleteFiles ?p)) = md_nextFileNum (pd_meta p)"
    by (simp_all add: doDelete_keeps A)
  ultimately show ?thesis using R(2-4) by blast
qed

lemma pair_lookup:
  assumes "sorted_wrt (\<lambda>a b. UserKey (fst a) < UserKey (fst b)) N" and "e \<in> set N" and "at_shows a (map pair_of N)"
  shows "at_get a (UserKey (fst e)) = Some (snd e, True, InternalKeyKindSet)"
proof -
  have srt: "sorted_wrt (<) (map fst (map pair_of N))" using assms(1) by (simp add: sorted_wrt_map pair_of_def)
  obtain i where i: "i < length N" "e = N ! i" using assms(2) by (metis in_set_conv_nth)
  obtain j where j: "findKeyIndexPos a (UserKey (fst e)) = Some j" "j \<le> length N" "\<And>k. k < j \<Longrightarrow> UserKey (fst (N ! k)) < UserKey (fst e)"
      "\<And>k. j \<le> k \<Longrightarrow> k < length N \<Longrightarrow> UserKey (fst e) \<le> UserKey (fst (N ! k))"
    using findKeyIndexPos_least [OF assms(3) srt, of "UserKey (fst e)"] by (auto simp: pair_of_def)
  have "j \<le> i" using j(3) [of i] i by (auto simp: not_le [symmetric])
  moreover have "\<not> j < i"
  proof
    assume "j < i"
    then have "UserKey (fst (N ! j)) < UserKey (fst e)" using assms(1) i by (simp add: sorted_wrt_iff_nth_less)
    then show False using j(4) [of j] \<open>j < i\<close> i(1) by auto
  qed
  ultimately have "j = i" by simp
  then show ?thesis using i assms(3) j(1) by (simp add: at_get_def at_shows_def pair_of_def)
qed

lemma reads_after_flush:
  assumes "logs_ok fo p" and "flush_input ops streams (fo_newFlushIter fo) content (flushed_mems fo p @ old_table p)"
    and "\<forall>f \<in> set (kept_mems fo p @ flushed_mems fo p). memtable_get (fo_get fo) content f key"
    and "\<forall>f \<in> set (kept_mems fo p). \<forall>e \<in> set (content f). writable (fst e)"
    and "\<forall>f \<in> set (old_table p). \<forall>e. table_version (content f) key = Some e \<longrightarrow> Kind (fst e) = InternalKeyKindSet \<and> fo_get fo f key = Some (snd e, True, InternalKeyKindSet)"
    and "\<forall>a. fo_get fo (fo_table fo a) key = at_get a key"
    and "sorted_wrt newer (map content (rev (flushed_mems fo p) @ old_table p))"
    and "first_version (map content (rev (flushed_mems fo p) @ old_table p)) key = Some e"
  shows "\<exists>p' obs. flush1 fo ops bytes_Compare p = Some (p', obs, None)
    \<and> plain_Get fo p key = Some (case first_version (map content (rev (kept_mems fo p))) key of Some k \<Rightarrow> answer k | None \<Rightarrow> answer e)
    \<and> plain_Get fo p' key = Some (case first_version (map content (rev (kept_mems fo p))) key of Some k \<Rightarrow> answer k | None \<Rightarrow> Some (snd e))"
proof -
  let ?T = "flushed_mems fo p @ old_table p" and ?R = "rev (flushed_mems fo p) @ old_table p"
  let ?E = "set (concat (map content ?T))" and ?K = "first_version (map content (rev (kept_mems fo p))) key"
  have F: "\<forall>f \<in> set ?T. sorted_wrt (entry_le False) (content f) \<and> (\<forall>e \<in> set (content f). writable (fst e))"
    using assms(2) by (simp add: flush_input_def)
  have E: "set (concat (map content ?R)) = ?E" by auto
  have "\<forall>L \<in> set (map content ?R). sorted_wrt (entry_le False) L" using F by auto
  from first_version_newest [OF this assms(7), of key] assms(8) have e: "UserKey (fst e) = key" "newest_version ?E e" unfolding E by simp_all
  have k: "get_memtables (fo_get fo) (rev (kept_mems fo p)) key = Some (map_option answer ?K)"
    using assms(3,4) by (intro get_memtables_version) auto
  have q: "rev (map en_flushable (pd_queue p)) = rev (kept_mems fo p) @ rev (flushed_mems fo p)"
    by (metis append_take_drop_id flushed_mems_def kept_mems_def map_append rev_append)
  have g: "get_memtables (fo_get fo) (rev (flushed_mems fo p)) key = Some (map_option answer (first_version (map content (rev (flushed_mems fo p))) key))"
    using assms(3) F by (intro get_memtables_version) auto
  have app: "first_version (Ls @ Ls') key = (case first_version Ls key of None \<Rightarrow> first_version Ls' key | Some e \<Rightarrow> Some e)" for Ls Ls'
    by (induction Ls) (auto split: option.splits)
  have before: "plain_Get fo p key = Some (case ?K of Some k \<Rightarrow> answer k | None \<Rightarrow> answer e)"
  proof (cases "first_version (map content (rev (flushed_mems fo p))) key")
    case None
    then have "first_version (map content (old_table p)) key = Some e" using assms(8) app by simp
    then obtain t where t: "pd_arrtable p = Some t" "table_version (content (en_flushable t)) key = Some e"
      by (auto simp: old_table_def split: option.splits)
    then have "Kind (fst e) = InternalKeyKindSet" "fo_get fo (en_flushable t) key = Some (snd e, True, InternalKeyKindSet)"
      using assms(5) by (auto simp: old_table_def)
    then show ?thesis using k g None t(1) by (auto simp: plain_Get_def q get_memtables_append answer_def split: option.split)
  next
    case (Some x)
    then have "x = e" using assms(8) app by simp
    then show ?thesis using k g Some by (auto simp: plain_Get_def q get_memtables_append split: option.split)
  qed
  have "?E \<noteq> {}" using e(2) by (auto simp: newest_version_def)
  from flush1_ok [OF assms(1,2) this] obtain p' obs a N where
    P: "flush1 fo ops bytes_Compare p = Some (p', obs, None)" "pd_queue p' = drop (ready_prefix fo (pd_queue p)) (pd_queue p)"
      "pd_arrtable p' = Some \<lparr>en_flushable = fo_table fo a, en_logNum = md_nextFileNum (pd_meta p), en_obsolete = False\<rparr>"
      "at_shows a (map pair_of N)" "sorted_wrt (\<lambda>a b. UserKey (fst a) < UserKey (fst b)) N" "set N = {e. newest_version ?E e}"
    by blast
  have "at_get a key = Some (snd e, True, InternalKeyKindSet)" using pair_lookup [OF P(5) _ P(4), of e] P(6) e by simp
  then have "plain_Get fo p' key = Some (case ?K of Some k \<Rightarrow> answer k | None \<Rightarrow> Some (snd e))"
    using k assms(6) by (auto simp: plain_Get_def P(2,3) kept_mems_def split: option.split)
  then show ?thesis using before P(1) by blast
qed

section \<open>Log files\<close>

text \<open>The states of a recycler, with the logs it has handed out.\<close>

inductive lr_trace :: "logRecycler \<Rightarrow> fileInfo list \<Rightarrow> bool" where
  new: "lr_logs r = [] \<Longrightarrow> lr_trace r []"
| add: "lr_trace r popped \<Longrightarrow> lr_trace (fst (lr_add r f)) popped"
| pop: "lr_trace r popped \<Longrightarrow> lr_peek r = Some f \<Longrightarrow> lr_pop r (fi_fileNum f) = Inr r' \<Longrightarrow> lr_trace r' (popped @ [f])"

lemma lr_trace_inv:
  "lr_trace r popped \<Longrightarrow> sorted_wrt (<) (map fi_fileNum (popped @ lr_logs r)) \<and> (\<forall>f \<in> set (popped @ lr_logs r). fi_fileNum f \<le> lr_maxLogNum r)
     \<and> length (lr_logs r) \<le> lr_limit r \<and> (\<forall>f \<in> set (popped @ lr_logs r). lr_minRecycleLogNum r \<le> fi_fileNum f)"
proof (induction rule: lr_trace.induct)
  case (add r popped f)
  show ?case
  proof (cases "lr_minRecycleLogNum r \<le> fi_fileNum f \<and> lr_maxLogNum r < fi_fileNum f")
    case True
    then have "\<forall>g \<in> set (popped @ lr_logs r). fi_fileNum g < fi_fileNum f" using add.IH by (meson le_less_trans)
    moreover from this have "\<forall>g \<in> set (popped @ lr_logs r). fi_fileNum g \<le> fi_fileNum f" by (meson less_imp_le)
    ultimately show ?thesis using add.IH True by (auto simp: lr_add_def Let_def sorted_wrt_append)
  next
    case False
    then have "fst (lr_add r f) = r" by (auto simp: lr_add_def Let_def)
    then show ?thesis using add.IH by simp
  qed
next
  case (pop r popped f r')
  then show ?case by (auto simp: lr_peek_def lr_pop_def sorted_wrt_append split: list.splits)
qed auto

lemma split_logs_ok:
  assumes "split_logs minNum q = (old, q')" and "sorted (map fi_fileNum q)"
  shows "old @ q' = q \<and> (\<forall>f \<in> set old. fi_fileNum f < minNum) \<and> (old \<noteq> [] \<longrightarrow> (\<forall>f \<in> set q'. minNum \<le> fi_fileNum f))"
proof (cases "\<forall>f \<in> set q. fi_fileNum f < minNum")
  case False
  let ?p = "\<lambda>f. fi_fileNum f < minNum"
  have q: "old = takeWhile ?p q" "q' = dropWhile ?p q" using assms(1) unfolding split_logs_def if_not_P [OF False] by simp_all
  then have e: "old @ q' = q" by simp
  have "minNum \<le> fi_fileNum f" if f: "f \<in> set q'" for f
  proof -
    obtain x xs where x: "q' = x # xs" using f by (cases q') auto
    then have "\<not> fi_fileNum x < minNum" using q(2) hd_dropWhile [of ?p q] by simp
    moreover have "fi_fileNum x \<le> fi_fileNum f" using assms(2) f unfolding e [symmetric] x by (auto simp: sorted_append)
    ultimately show ?thesis by simp
  qed
  moreover have "\<forall>f \<in> set old. fi_fileNum f < minNum" using q(1) by (meson set_takeWhileD)
  ultimately show ?thesis using e by blast
qed (use assms(1) in \<open>auto simp: split_logs_def\<close>)

section \<open>Properties\<close>

text \<open>
  C32: The compaction iterator. Over any iterator that shows finitely many entries sorted by internal key, with no internal key twice and only
  kinds that can be written, \<^verbatim>\<open>First\<close> and \<^verbatim>\<open>Next\<close> show exactly the newest version of each key, in ascending order of the keys, and
  the iteration ends.
\<close>

theorem compaction_iter_newest:
  assumes "first s = Some r" and "iterate nxt n r = Some L" and "\<forall>e \<in> set L. writable (fst e)" and "sorted_wrt (entry_le False) L" and "inj_on fst (set L)"
  shows "\<exists>r' N. ci_First bytes_Compare first nxt (newCompactionIter s) = Some r' \<and> iterate (ci_Next bytes_Compare nxt) (Suc (length L)) r' = Some N
    \<and> sorted_wrt (\<lambda>a b. UserKey (fst a) < UserKey (fst b)) N \<and> set N = {e. newest_version (set L) e}"
proof -
  obtain r' where r': "ci_First bytes_Compare first nxt (newCompactionIter s) = Some r'" "runs (ci_Next bytes_Compare nxt) r' (newest bytes_Compare L)"
    using ci_First_runs [of first, OF assms(1) iterate_runs [OF assms(2)] assms(3)] by blast
  have "length (newest bytes_Compare L) < Suc (length L)" using newest_size [of bytes_Compare L] by simp
  from runs_iterate [OF r'(2) this] show ?thesis using r'(1) newest_spec [OF assms(4)] newest_versions [OF assms(4,5)] by blast
qed

definition list_next :: "iter_entry list \<Rightarrow> iter_entry list iter_result" where
  "list_next L = Some (tl L, case tl L of [] \<Rightarrow> None | e # _ \<Rightarrow> Some e)"

theorem compaction_iter_newest_witness:
  "\<exists>r' N. ci_First bytes_Compare (\<lambda>L. Some (L, Some (hd L))) list_next
      (newCompactionIter [(\<lparr>UserKey = [1], Trailer = 512\<rparr>, []), (\<lparr>UserKey = [1], Trailer = 257\<rparr>, [7]), (\<lparr>UserKey = [2], Trailer = 257\<rparr>, [8])]) = Some r'
    \<and> iterate (ci_Next bytes_Compare list_next) 4 r' = Some N
    \<and> set N = {(\<lparr>UserKey = [1], Trailer = 512\<rparr>, []), (\<lparr>UserKey = [2], Trailer = 257\<rparr>, [8])}"
proof -
  let ?L = "[(\<lparr>UserKey = [1], Trailer = 512\<rparr>, []), (\<lparr>UserKey = [1], Trailer = 257\<rparr>, [7]), (\<lparr>UserKey = [2], Trailer = 257\<rparr>, [8])] :: iter_entry list"
  have "{e. newest_version (set ?L) e} = {(\<lparr>UserKey = [1], Trailer = 512\<rparr>, []), (\<lparr>UserKey = [2], Trailer = 257\<rparr>, [8])}"
    by (auto simp: newest_version_def same_key_def)
  moreover have "iterate list_next 4 (?L, Some (hd ?L)) = Some ?L" by (simp add: numeral_eq_Suc list_next_def)
  moreover have "\<forall>e \<in> set ?L. writable (fst e)" by (simp add: writable_def Kind_def)
  moreover have "sorted_wrt (entry_le False) ?L" by (simp add: entry_le_iff same_key_def)
  moreover have "inj_on fst (set ?L)" by simp
  ultimately show ?thesis
    using compaction_iter_newest [of "\<lambda>L. Some (L, Some (hd L))" ?L "(?L, Some (hd ?L))" list_next 4 ?L] by (auto simp: numeral_eq_Suc)
qed

text \<open>
  C33: A flush writes the newest version of every key of the tables it is given, in ascending order of the keys, into a new array table under the
  next file number, and reading the table shows them; with no entries at all it returns no table and takes no number. It always returns.
\<close>

theorem runFlush_writes_newest:
  assumes "flush_input ops streams (fo_newFlushIter fo) content flushing"
  shows "\<exists>N. sorted_wrt (\<lambda>a b. UserKey (fst a) < UserKey (fst b)) N \<and> set N = {e. newest_version (set (concat (map content flushing))) e}
    \<and> (if set (concat (map content flushing)) = {} then runFlush fo ops bytes_Compare meta flushing = Some (Inr None, meta)
       else \<exists>a. runFlush fo ops bytes_Compare meta flushing = Some (Inr (Some (a, md_nextFileNum meta)), snd (getNextFileNum meta))
         \<and> at_shows a (map pair_of N))"
  by (rule runFlush_ok [OF assms])

section \<open>Large batches and array tables as input\<close>

lemma plain_input:
  assumes "\<forall>f \<in> set fs. table_ok f \<and> sorted_wrt (entry_le False) (table_content f)
      \<and> (\<forall>e \<in> set (table_content f). writable (fst e) \<and> length (UserKey (fst e)) < 2 ^ 16)"
    and "distinct (map fst (concat (map table_content fs)))"
    and "22 + length (items (map pair_of (concat (map table_content fs)))) + 4 * length (concat (map table_content fs)) < 2 ^ 32"
  shows "flush_input flush_ops flush_streams (fo_newFlushIter plain_tables) table_content fs"
  using assms flush_contract flush_starts by (simp add: flush_input_def)

text \<open>A large batch that holds the operations \<open>xs\<close>.\<close>

definition batch_table :: "plain_table \<Rightarrow> u64 \<Rightarrow> batch_op list \<Rightarrow> bool" where
  "batch_table f seq xs \<longleftrightarrow> table_ok f \<and> key_sorted bytes_Compare (table_content f) \<and> mset (table_content f) = mset (batch_keys seq (map op_entry xs))"

lemma batch_table_ok:
  assumes "batch_wf b" and "b_data b \<noteq> []" and "drop batchHeaderLen (b_data b) = ops_bytes xs"
    and "length (b_data b) < 2 ^ 32" and "batch_SeqNum b = Some (b, seq)" and "unat seq + length xs \<le> 2 ^ 56"
  shows "\<exists>fb. newFlushableBatch bytes_Compare b = Some fb \<and> batch_table (Inl fb) seq xs"
  using bytes_cmp.newFlushableBatch_ops [OF assms] by (auto simp: batch_table_def table_ok_def)

lemma key_less_le: "InternalCompare bytes_Compare (fst x) (fst y) < 0 \<Longrightarrow> entry_le False x y"
  using bytes_cmp.InternalCompare_sym [of "fst y" "fst x"] by (simp add: entry_le_def entry_lt_def)

lemma batch_table_content:
  assumes "batch_table f seq xs"
  shows "table_ok f" and "sorted_wrt (entry_le False) (table_content f)" and "distinct (map fst (table_content f))"
    and "set (table_content f) = set (batch_keys seq (map op_entry xs))" and "length (table_content f) = length xs"
    and "length (items (map pair_of (table_content f))) = length (items (map pair_of (batch_keys seq (map op_entry xs))))"
proof -
  have m: "mset (table_content f) = mset (batch_keys seq (map op_entry xs))" and k: "key_sorted bytes_Compare (table_content f)"
    using assms by (simp_all add: batch_table_def)
  show "table_ok f" using assms by (simp add: batch_table_def)
  show "sorted_wrt (entry_le False) (table_content f)"
    by (rule sorted_wrt_mono_rel [OF _ k]) (rule key_less_le)
  have "key_sorted bytes_Compare L \<Longrightarrow> distinct (map fst L)" for L :: "iter_entry list"
  proof (induction L)
    case (Cons a L)
    then have "fst a \<noteq> fst b" if "b \<in> set L" for b using that bytes_cmp.InternalCompare_zero [of "fst a" "fst a"] by auto
    then show ?case using Cons by auto
  qed simp
  then show "distinct (map fst (table_content f))" using k by blast
  show "set (table_content f) = set (batch_keys seq (map op_entry xs))" using m by (metis set_mset_mset)
  show "length (table_content f) = length xs" using arg_cong [OF m, of size] by (simp add: batch_keys_def)
  show "length (items (map pair_of (table_content f))) = length (items (map pair_of (batch_keys seq (map op_entry xs))))"
    by (rule length_items_mset [OF m])
qed

text \<open>A lookup in a large batch sees the first version of the key only when that is a Set.\<close>

lemma find_dropWhile:
  assumes "sorted_wrt (entry_le False) vs"
  shows "table_version vs key = (case dropWhile (\<lambda>e. UserKey (fst e) < key) vs of [] \<Rightarrow> None | e # _ \<Rightarrow> if UserKey (fst e) = key then Some e else None)"
  using assms
proof (induction vs)
  case (Cons v vs)
  have "table_version vs key = None" if "key < UserKey (fst v)"
    using Cons.prems that by (auto simp: table_version_None entry_le_iff same_key_def)
  moreover consider "UserKey (fst v) < key" | "UserKey (fst v) = key" | "key < UserKey (fst v)" by (rule linorder_cases)
  ultimately show ?case using Cons by cases (auto simp: table_version_def)
qed (simp add: table_version_def)

lemma fb_get_version:
  assumes "fb_view fb = Some vs" and "key_sorted bytes_Compare vs" and "\<forall>x \<in> set vs. Valid (fst x)" and "sorted_wrt (entry_le False) vs"
  shows "fb_get bytes_Compare fb key = Some (case table_version vs key of
      None \<Rightarrow> ([], False, InternalKeyKindInvalid)
    | Some e \<Rightarrow> if Kind (fst e) = InternalKeyKindSet then (snd e, True, InternalKeyKindSet) else ([], False, InternalKeyKindInvalid))"
proof -
  let ?it = "fb_newIter fb None None" and ?D = "dropWhile (\<lambda>e. UserKey (fst e) < key) vs"
  have v: "fb_view (fi_batch ?it) = Some vs" "fi_upper ?it = None" using assms(1) by (simp_all add: fb_newIter_def)
  have lt: "(\<lambda>e :: iter_entry. bytes_Compare (UserKey (fst e)) key < 0) = (\<lambda>e. UserKey (fst e) < key)" by (auto simp: fun_eq_iff bytes_Compare_iff)
  have tw: "takeWhile (\<lambda>e. \<not> above_upper bytes_Compare None (UserKey (fst e))) L = L" for L :: "iter_entry list"
    by (rule takeWhile_eq_all_conv [THEN iffD2]) (simp add: above_upper_def)
  obtain it r where r: "fb_SeekGE bytes_Compare ?it key = Some (it, r)" "iterate (fb_Next bytes_Compare) (length vs + 1) (it, r) = Some ?D"
    using bytes_cmp.fb_SeekGE_iterate [OF v(1) assms(2,3), of key] v(2) tw lt by auto
  have "r = (case D of [] \<Rightarrow> None | e # _ \<Rightarrow> Some e)" if "iterate (fb_Next bytes_Compare) (length vs + 1) (it, r) = Some D" for D
    using that by (cases r; cases D) (auto split: Option.bind_splits)
  note R = this [OF r(2)] and V = find_dropWhile [OF assms(4), of key]
  show ?thesis
  proof (cases ?D)
    case Nil
    then have "r = None" "table_version vs key = None" unfolding R V by (simp_all only: list.case)
    then show ?thesis using r(1) by (simp add: fb_get_def)
  next
    case (Cons e es)
    then have "r = Some e" "table_version vs key = (if UserKey (fst e) = key then Some e else None)" unfolding R V by (simp_all only: list.case)
    then show ?thesis using r(1) by (cases e) (auto simp: fb_get_def bytes_Compare_iff)
  qed
qed

lemma batch_memtable_get:
  assumes "batch_table (Inl fb) seq xs"
  shows "memtable_get (fo_get plain_tables) table_content (Inl fb) key \<longleftrightarrow>
    (\<forall>e. table_version (table_content (Inl fb)) key = Some e \<longrightarrow> Kind (fst e) = InternalKeyKindSet)"
proof -
  obtain vs where vs: "fb_view fb = Some vs" "table_content (Inl fb) = vs" using assms by (auto simp: batch_table_def table_ok_def)
  have "\<forall>r \<in> set (map op_entry xs). entry_valid r" by auto
  then have "\<forall>x \<in> set vs. Valid (fst x)" using batch_keys_Valid batch_table_content(4) [OF assms] vs(2) by blast
  moreover have "key_sorted bytes_Compare vs" using assms vs(2) by (simp add: batch_table_def)
  moreover have "sorted_wrt (entry_le False) vs" using batch_table_content(2) [OF assms] vs(2) by simp
  ultimately show ?thesis
    using fb_get_version [OF vs(1), of key] vs(2) by (auto simp: memtable_get_def split: option.split)
qed

text \<open>A batch as a log record holds it, with its first sequence number, and an array table.\<close>

definition sample_log :: "u64 \<Rightarrow> batch_op list \<Rightarrow> Batch" where
  "sample_log seq xs = freshBatch\<lparr>b_data := le_enc 8 seq @ le_enc 4 (of_nat (length xs) :: u32) @ ops_bytes xs, b_cap := 1024, b_count := of_nat (length xs)\<rparr>"

abbreviation sample_ops :: "batch_op list" where
  "sample_ops \<equiv> [OpSet [1] [7], OpDelete [1], OpSet [2] [8]]"

abbreviation sample_pairs :: "(bytes \<times> bytes) list" where
  "sample_pairs \<equiv> [([2], [5]), ([3], [6])]"

lemma sample_log_table:
  assumes "length (ops_bytes xs) \<le> 1000" and "unat seq + length xs \<le> 2 ^ 56"
  shows "\<exists>fb. newFlushableBatch bytes_Compare (sample_log seq xs) = Some fb \<and> batch_table (Inl fb) seq xs"
proof -
  have "le_enc 8 seq \<noteq> []" by (auto dest: arg_cong [of _ _ length])
  then show ?thesis
    using assms(1) by (intro batch_table_ok [OF _ _ _ _ _ assms(2)]) (auto simp: sample_log_def batch_wf_def batch_SeqNum_def go_slice_def le_dec_enc)
qed

lemma sample_batch:
  "\<exists>fb. newFlushableBatch bytes_Compare (sample_log 2 sample_ops) = Some fb \<and> batch_table (Inl fb) 2 sample_ops"
  by (rule sample_log_table) (simp_all add: ops_bytes_def entry_bytes_def kv_record_def key_record_def put_uvarint32.simps)

lemma sample_keys:
  "batch_keys 2 (map op_entry sample_ops) =
     [(\<lparr>UserKey = [1], Trailer = 513\<rparr>, [7]), (\<lparr>UserKey = [1], Trailer = 768\<rparr>, []), (\<lparr>UserKey = [2], Trailer = 1025\<rparr>, [8])]"
  by (simp add: batch_keys_def record_key_def MakeInternalKey_def upt_rec numeral_2_eq_2)

lemma sample_table: "\<exists>t. build_table sample_pairs = Some (Inr t) \<and> at_shows t sample_pairs"
  by (rule build_table_shows) (simp_all add: items_def item_def)

lemma sample_set: "set_entry ([2], [5]) = (\<lparr>UserKey = [2], Trailer = 257\<rparr>, [5])" "set_entry ([3], [6]) = (\<lparr>UserKey = [3], Trailer = 257\<rparr>, [6])"
  by (simp_all add: set_entry_def MakeInternalSetKey_def MakeInternalKey_def)

lemma sample_content:
  assumes "at_shows t sample_pairs"
  shows "table_ok (Inr t)" and "table_content (Inr t) = [(\<lparr>UserKey = [2], Trailer = 257\<rparr>, [5]), (\<lparr>UserKey = [3], Trailer = 257\<rparr>, [6])]" and "sorted_wrt (entry_le False) (table_content (Inr t))"
  using assms at_shows_view [OF assms] by (simp_all add: table_ok_def sample_set entry_le_iff)

lemma sample_input:
  assumes "batch_table (Inl fb) 2 sample_ops" and "at_shows t sample_pairs"
  shows "flush_input flush_ops flush_streams (fo_newFlushIter plain_tables) table_content [Inl fb, Inr t]"
proof (rule plain_input)
  note B = batch_table_content [OF assms(1), unfolded sample_keys] and T = sample_content [OF assms(2)]
  show "\<forall>f \<in> set [Inl fb, Inr t]. table_ok f \<and> sorted_wrt (entry_le False) (table_content f)
      \<and> (\<forall>e \<in> set (table_content f). writable (fst e) \<and> length (UserKey (fst e)) < 2 ^ 16)"
    using B(1,2,4) T by (simp add: writable_def Kind_def)
  show "distinct (map fst (concat (map table_content [Inl fb, Inr t])))"
    using B(3,4) T(2) by auto
  have "items (xs @ ys) = items xs @ items ys" for xs ys by (simp add: items_def)
  then show "22 + length (items (map pair_of (concat (map table_content [Inl fb, Inr t])))) + 4 * length (concat (map table_content [Inl fb, Inr t])) < 2 ^ 32"
    using B(5,6) T(2) by (simp add: items_def item_def pair_of_def)
qed

lemma sorted_keys_unique:
  assumes "sorted_wrt (\<lambda>a b. UserKey (fst a) < UserKey (fst b)) xs" and "sorted_wrt (\<lambda>a b. UserKey (fst a) < UserKey (fst b)) ys" and "set xs = set ys"
  shows "xs = (ys :: iter_entry list)"
  using assms
proof (induction xs arbitrary: ys)
  case (Cons x xs)
  then obtain y ys' where y: "ys = y # ys'" by (cases ys) auto
  have "x = y" using Cons.prems unfolding y by (metis (no_types, lifting) less_asym list.set_intros(1) set_ConsD sorted_wrt.simps(2))
  moreover have "x \<notin> set xs" "y \<notin> set ys'" using Cons.prems(1,2) unfolding y by auto
  ultimately have "set xs = set ys'" using Cons.prems(3) unfolding y by auto
  then show ?case using Cons \<open>x = y\<close> unfolding y by auto
qed simp

lemma sample_newest:
  assumes "batch_table (Inl fb) 2 sample_ops" and "at_shows t sample_pairs"
  shows "{e. newest_version (set (concat (map table_content [Inl fb, Inr t]))) e} =
    {(\<lparr>UserKey = [1], Trailer = 768\<rparr>, []), (\<lparr>UserKey = [2], Trailer = 1025\<rparr>, [8]), (\<lparr>UserKey = [3], Trailer = 257\<rparr>, [6])}"
proof -
  have E: "set (concat (map table_content [Inl fb, Inr t])) = {(\<lparr>UserKey = [1], Trailer = 513\<rparr>, [7]), (\<lparr>UserKey = [1], Trailer = 768\<rparr>, []),
      (\<lparr>UserKey = [2], Trailer = 1025\<rparr>, [8]), (\<lparr>UserKey = [2], Trailer = 257\<rparr>, [5]), (\<lparr>UserKey = [3], Trailer = 257\<rparr>, [6])}"
    using batch_table_content(4) [OF assms(1), unfolded sample_keys] sample_content(2) [OF assms(2)] by auto
  have ins: "{e. e \<in> insert a A \<and> P e} = (if P a then insert a {e. e \<in> A \<and> P e} else {e. e \<in> A \<and> P e})" for a A and P :: "iter_entry \<Rightarrow> bool" by auto
  show ?thesis unfolding E newest_version_def ins by (simp add: same_key_def)
qed

theorem runFlush_writes_newest_witness:
  "\<forall>meta. \<exists>fb t a. newFlushableBatch bytes_Compare (sample_log 2 sample_ops) = Some fb \<and> build_table sample_pairs = Some (Inr t)
    \<and> runFlush plain_tables flush_ops bytes_Compare meta [Inl fb, Inr t] = Some (Inr (Some (a, md_nextFileNum meta)), snd (getNextFileNum meta))
    \<and> at_shows a [([1], []), ([2], [8]), ([3], [6])]"
proof
  fix meta
  obtain fb where fb: "newFlushableBatch bytes_Compare (sample_log 2 sample_ops) = Some fb" "batch_table (Inl fb) 2 sample_ops" using sample_batch by blast
  obtain t where t: "build_table sample_pairs = Some (Inr t)" "at_shows t sample_pairs" using sample_table by blast
  have ne: "set (concat (map table_content [Inl fb, Inr t])) \<noteq> {}" using sample_content(2) [OF t(2)] by simp
  obtain N a where N: "sorted_wrt (\<lambda>a b. UserKey (fst a) < UserKey (fst b)) N"
      "set N = {(\<lparr>UserKey = [1], Trailer = 768\<rparr>, []), (\<lparr>UserKey = [2], Trailer = 1025\<rparr>, [8]), (\<lparr>UserKey = [3], Trailer = 257\<rparr>, [6])}"
      "runFlush plain_tables flush_ops bytes_Compare meta [Inl fb, Inr t] = Some (Inr (Some (a, md_nextFileNum meta)), snd (getNextFileNum meta))"
      "at_shows a (map pair_of N)"
    using runFlush_writes_newest [OF sample_input [OF fb(2) t(2)], of meta] unfolding if_not_P [OF ne] sample_newest [OF fb(2) t(2)] by blast
  have "N = [(\<lparr>UserKey = [1], Trailer = 768\<rparr>, []), (\<lparr>UserKey = [2], Trailer = 1025\<rparr>, [8]), (\<lparr>UserKey = [3], Trailer = 257\<rparr>, [6])]"
    by (rule sorted_keys_unique [OF N(1)]) (simp_all add: N(2))
  then show "\<exists>fb t a. newFlushableBatch bytes_Compare (sample_log 2 sample_ops) = Some fb \<and> build_table sample_pairs = Some (Inr t)
      \<and> runFlush plain_tables flush_ops bytes_Compare meta [Inl fb, Inr t] = Some (Inr (Some (a, md_nextFileNum meta)), snd (getNextFileNum meta))
      \<and> at_shows a [([1], []), ([2], [8]), ([3], [6])]"
    using fb(1) t(1) N(3,4) by (auto simp: pair_of_def)
qed

text \<open>
  C34: Reading across a flush, for a key that the tables to be flushed hold. Let \<open>e\<close> be the version of the key that they hold in front (newer tables
  first, then the array table). The flush succeeds. When a table kept in memory holds the key, the newest such version answers the lookup before and after the
  flush. Otherwise the lookup before the flush answers with the value of \<open>e\<close>, or not found when \<open>e\<close> is a deletion, and the lookup after it answers with the
  value of \<open>e\<close> in either case: a key that is set keeps its value, and a deleted key comes back with the value of its tombstone. This is for tables in memory
  whose \<^verbatim>\<open>get\<close> finds the first version of the key that they hold, with its kind. Large batches do so for a key that they do not delete
  (lemma \<open>batch_memtable_get\<close>); for a key that they delete they answer that they do not have it, and such a batch is outside this statement.
\<close>

theorem flush1_reads:
  assumes "logs_ok fo p" and "flush_input ops streams (fo_newFlushIter fo) content (flushed_mems fo p @ old_table p)"
    and "\<forall>f \<in> set (kept_mems fo p @ flushed_mems fo p). memtable_get (fo_get fo) content f key"
    and "\<forall>f \<in> set (kept_mems fo p). \<forall>e \<in> set (content f). writable (fst e)"
    and "\<forall>f \<in> set (old_table p). \<forall>e. table_version (content f) key = Some e \<longrightarrow> Kind (fst e) = InternalKeyKindSet \<and> fo_get fo f key = Some (snd e, True, InternalKeyKindSet)"
    and "\<forall>a. fo_get fo (fo_table fo a) key = at_get a key"
    and "sorted_wrt newer (map content (rev (flushed_mems fo p) @ old_table p))"
    and "first_version (map content (rev (flushed_mems fo p) @ old_table p)) key = Some e"
  shows "\<exists>p' obs. flush1 fo ops bytes_Compare p = Some (p', obs, None)
    \<and> plain_Get fo p key = Some (case first_version (map content (rev (kept_mems fo p))) key of Some k \<Rightarrow> answer k | None \<Rightarrow> answer e)
    \<and> plain_Get fo p' key = Some (case first_version (map content (rev (kept_mems fo p))) key of Some k \<Rightarrow> answer k | None \<Rightarrow> Some (snd e))"
  by (rule reads_after_flush [OF assms])

text \<open>Two tables in the queue, an array table, and no logs.\<close>

definition two_tables :: "plain_table \<Rightarrow> plain_table \<Rightarrow> plain_table option \<Rightarrow> metadata \<Rightarrow> plain_table plainDB" where
  "two_tables f g t m =
     \<lparr>pd_queue = [\<lparr>en_flushable = f, en_logNum = 1, en_obsolete = False\<rparr>, \<lparr>en_flushable = g, en_logNum = 2, en_obsolete = False\<rparr>],
      pd_arrtable = map_option (\<lambda>t. \<lparr>en_flushable = t, en_logNum = 1, en_obsolete = False\<rparr>) t, pd_meta = m, pd_logQueue = [],
      pd_recycler = \<lparr>lr_limit = 0, lr_minRecycleLogNum = 0, lr_logs = [], lr_maxLogNum = 0\<rparr>, pd_disableWAL = False, pd_deleted = []\<rparr>"

lemma two_tables_mems:
  "flushed_mems plain_tables (two_tables f g t m) = [f]" "kept_mems plain_tables (two_tables f g t m) = [g]"
  "old_table (two_tables f g t m) = (case t of None \<Rightarrow> [] | Some t \<Rightarrow> [t])"
  by (simp_all add: flushed_mems_def kept_mems_def old_table_def two_tables_def split: option.split)

lemma two_tables_ready: "\<exists>m. \<forall>f g t. logs_ok plain_tables (two_tables f g t m)"
proof -
  obtain m where m: "openMetadata None = Some (Inr m)" "md_nextFileNum m = 1" "md_minUnflushedLogNum m = 0" using new_metadata by blast
  let ?m1 = "snd (getNextFileNum m)" and ?m2 = "snd (getNextFileNum (snd (getNextFileNum m)))"
  have "md_inv m" by (rule md_reach_inv [OF md_reach.create [OF m(1)]])
  then have "md_inv ?m1" by (rule next_file_inv) (simp add: m(2))
  then have "md_inv ?m2" by (rule next_file_inv) (simp add: getNextFileNum_def m(2))
  then have "\<forall>f g t. logs_ok plain_tables (two_tables f g t ?m2)" using m(2,3) by (simp add: logs_ok_def two_tables_def getNextFileNum_def)
  then show ?thesis by blast
qed

lemma sample_version:
  assumes "batch_table (Inl fb) 2 sample_ops"
  shows "table_version (table_content (Inl fb)) [2] = Some (\<lparr>UserKey = [2], Trailer = 1025\<rparr>, [8])"
proof -
  note S = batch_table_content(4) [OF assms, unfolded sample_keys]
  have "(\<lparr>UserKey = [2], Trailer = 1025\<rparr>, [8]) \<in> set (table_content (Inl fb))" unfolding S by simp
  then have "table_version (table_content (Inl fb)) [2] \<noteq> None" unfolding table_version_None by fastforce
  then obtain e where e: "table_version (table_content (Inl fb)) [2] = Some e" by blast
  then have "e \<in> set (table_content (Inl fb))" "UserKey (fst e) = [2]" unfolding table_version_def find_Some_iff by auto
  then have "e = (\<lparr>UserKey = [2], Trailer = 1025\<rparr>, [8])" unfolding S by auto
  with e show ?thesis by simp
qed

text \<open>The batch overwrites key 2 of the array table; the second batch, which stays in the queue, sets another key. Their flush keeps the value.\<close>

theorem flush1_reads_witness:
  "\<exists>fb gb t m p' obs. newFlushableBatch bytes_Compare (sample_log 2 sample_ops) = Some fb \<and> newFlushableBatch bytes_Compare (sample_log 5 [OpSet [9] [1]]) = Some gb
    \<and> build_table sample_pairs = Some (Inr t)
    \<and> flush1 plain_tables flush_ops bytes_Compare (two_tables (Inl fb) (Inl gb) (Some (Inr t)) m) = Some (p', obs, None)
    \<and> plain_Get plain_tables (two_tables (Inl fb) (Inl gb) (Some (Inr t)) m) [2] = Some (Some [8]) \<and> plain_Get plain_tables p' [2] = Some (Some [8])"
proof -
  obtain fb where fb: "newFlushableBatch bytes_Compare (sample_log 2 sample_ops) = Some fb" "batch_table (Inl fb) 2 sample_ops" using sample_batch by blast
  have l: "length (ops_bytes [OpSet [9] [1]]) \<le> 1000" by (simp add: ops_bytes_def entry_bytes_def kv_record_def put_uvarint32.simps)
  obtain gb where gb: "newFlushableBatch bytes_Compare (sample_log 5 [OpSet [9] [1]]) = Some gb" "batch_table (Inl gb) 5 [OpSet [9] [1]]"
    using sample_log_table [OF l, of 5] by auto
  obtain t where t: "build_table sample_pairs = Some (Inr t)" "at_shows t sample_pairs" using sample_table by blast
  obtain m where m: "logs_ok plain_tables (two_tables (Inl fb) (Inl gb) (Some (Inr t)) m)" using two_tables_ready by blast
  let ?p = "two_tables (Inl fb) (Inl gb) (Some (Inr t)) m" and ?e = "(\<lparr>UserKey = [2], Trailer = 1025\<rparr>, [8]) :: iter_entry"
  note F = two_tables_mems [of "Inl fb" "Inl gb" "Some (Inr t)" m] and V = sample_version [OF fb(2)] and T = sample_content [OF t(2)]
  have G: "set (table_content (Inl gb)) = {(\<lparr>UserKey = [9], Trailer = 1281\<rparr>, [1])}"
    using batch_table_content(4) [OF gb(2)] by (simp add: batch_keys_def record_key_def MakeInternalKey_def)
  then have gv: "table_version (table_content (Inl gb)) [2] = None" by (auto simp: table_version_None)
  have k: "\<forall>f \<in> set (kept_mems plain_tables ?p @ flushed_mems plain_tables ?p). memtable_get (fo_get plain_tables) table_content f [2]"
    using batch_memtable_get [OF fb(2), of "[2]"] batch_memtable_get [OF gb(2), of "[2]"] V gv by (simp add: F Kind_def)
  have w: "\<forall>f \<in> set (kept_mems plain_tables ?p). \<forall>e \<in> set (table_content f). writable (fst e)" using G by (simp add: F writable_def Kind_def)
  have tg: "at_get t [2] = Some ([5], True, InternalKeyKindSet)"
    using pair_lookup [of "[(\<lparr>UserKey = [2], Trailer = 257\<rparr>, [5]), (\<lparr>UserKey = [3], Trailer = 257\<rparr>, [6])]" "(\<lparr>UserKey = [2], Trailer = 257\<rparr>, [5])" t] t(2)
    by (simp add: pair_of_def)
  have o: "\<forall>f \<in> set (old_table ?p). \<forall>e. table_version (table_content f) [2] = Some e \<longrightarrow>
      Kind (fst e) = InternalKeyKindSet \<and> fo_get plain_tables f [2] = Some (snd e, True, InternalKeyKindSet)"
    using T(2) tg by (simp add: F table_version_def Kind_def)
  have n: "sorted_wrt newer (map table_content (rev (flushed_mems plain_tables ?p) @ old_table ?p))"
    using batch_table_content(4) [OF fb(2), unfolded sample_keys] T(2) by (simp add: F newer_def same_key_def)
  have i: "flush_input flush_ops flush_streams (fo_newFlushIter plain_tables) table_content (flushed_mems plain_tables ?p @ old_table ?p)"
    using sample_input [OF fb(2) t(2)] by (simp add: F)
  have f: "first_version (map table_content (rev (flushed_mems plain_tables ?p) @ old_table ?p)) [2] = Some ?e" using V by (simp add: F)
  have c: "first_version (map table_content (rev (kept_mems plain_tables ?p))) [2] = None" using gv by (simp add: F)
  have a: "\<forall>a. fo_get plain_tables (fo_table plain_tables a) [2] = at_get a [2]" by simp
  from flush1_reads [OF m i k w o a n f, unfolded c] obtain p' obs where
    "flush1 plain_tables flush_ops bytes_Compare ?p = Some (p', obs, None)" "plain_Get plain_tables ?p [2] = Some (answer ?e)"
    "plain_Get plain_tables p' [2] = Some (Some [8])"
    by auto
  moreover have "answer ?e = Some [8]" by (simp add: answer_def Kind_def)
  ultimately show ?thesis using fb(1) gb(1) t(1) by metis
qed

text \<open>
  C35: A flush of tables that hold no entry panics: no array table is written, and the number of the missing table is read. (The caller recovers from the panic
  and starts the next flush of the same tables.)
\<close>

theorem flush1_nothing_panics:
  assumes "0 < ready_prefix fo (pd_queue p)"
    and "pd_disableWAL p \<or> (\<forall>e \<in> set (take (ready_prefix fo (pd_queue p)) (pd_queue p)). en_logNum e < en_logNum (pd_queue p ! ready_prefix fo (pd_queue p)))"
    and "flush_input ops streams (fo_newFlushIter fo) content (flushed_mems fo p @ old_table p)"
    and "\<forall>f \<in> set (flushed_mems fo p @ old_table p). content f = []"
  shows "flush1 fo ops bytes_Compare p = None"
proof -
  let ?n = "ready_prefix fo (pd_queue p)" and ?f = "flushed_mems fo p @ old_table p"
  have fl: "?f = map en_flushable (take ?n (pd_queue p) @ (case pd_arrtable p of None \<Rightarrow> [] | Some a \<Rightarrow> [a]))"
    by (simp add: flushed_mems_def old_table_def split: option.split)
  have "set (concat (map content ?f)) = {}" using assms(4) by simp
  then have "runFlush fo ops bytes_Compare (pd_meta p) ?f = Some (Inr None, pd_meta p)"
    using runFlush_ok [OF assms(3), of "pd_meta p"] by auto
  moreover have "\<not> (\<not> pd_disableWAL p \<and> (\<exists>e \<in> set (take ?n (pd_queue p)). en_logNum (pd_queue p ! ?n) \<le> en_logNum e))"
    using assms(2) by (auto simp: not_le)
  ultimately show ?thesis using assms(1) unfolding fl by (auto simp: flush1_def Let_def)
qed

theorem flush1_nothing_panics_witness:
  "\<exists>fb. newFlushableBatch bytes_Compare (sample_log 2 []) = Some fb
    \<and> (\<forall>m. flush1 plain_tables flush_ops bytes_Compare (two_tables (Inl fb) (Inl fb) None m) = None)"
proof -
  obtain fb where fb: "newFlushableBatch bytes_Compare (sample_log 2 []) = Some fb" "batch_table (Inl fb) 2 []"
    using sample_log_table [of "[]" 2] by (auto simp: ops_bytes_def)
  have e: "table_content (Inl fb) = []" using batch_table_content(5) [OF fb(2)] by simp
  have "flush1 plain_tables flush_ops bytes_Compare (two_tables (Inl fb) (Inl fb) None m) = None" for m
  proof (rule flush1_nothing_panics [where streams = flush_streams and content = table_content])
    let ?p = "two_tables (Inl fb) (Inl fb) None m"
    note F = two_tables_mems [of "Inl fb" "Inl fb" None m]
    show "flush_input flush_ops flush_streams (fo_newFlushIter plain_tables) table_content (flushed_mems plain_tables ?p @ old_table ?p)"
      unfolding F by (rule plain_input) (use e batch_table_content(1) [OF fb(2)] in \<open>simp_all add: items_def\<close>)
    show "\<forall>f \<in> set (flushed_mems plain_tables ?p @ old_table ?p). table_content f = []" using e by (simp add: F)
  qed (simp_all add: two_tables_def)
  with fb(1) show ?thesis by blast
qed

text \<open>
  C36: The recycler of log files hands out each log at most once: over any sequence of additions and removals, the numbers of the logs handed out and of the
  logs still kept are strictly ascending in this order, none is below the smallest number that may be recycled, and it never keeps more than its limit.
\<close>

theorem recycler_hands_out_once:
  assumes "lr_trace r popped"
  shows "sorted_wrt (<) (map fi_fileNum (popped @ lr_logs r)) \<and> length (lr_logs r) \<le> lr_limit r
    \<and> (\<forall>f \<in> set (popped @ lr_logs r). lr_minRecycleLogNum r \<le> fi_fileNum f \<and> fi_fileNum f \<le> lr_maxLogNum r)"
  using lr_trace_inv [OF assms] by simp

text \<open>Log 3 is offered and handed out, then log 5 is offered and kept.\<close>

theorem recycler_hands_out_once_witness:
  "let f = \<lparr>fi_fileNum = 3, fi_fileSize = 10\<rparr>; g = \<lparr>fi_fileNum = 5, fi_fileSize = 20\<rparr>;
       r0 = \<lparr>lr_limit = 1, lr_minRecycleLogNum = 2, lr_logs = [], lr_maxLogNum = 0\<rparr>;
       r1 = fst (lr_add r0 f)
   in \<exists>r2. lr_peek r1 = Some f \<and> lr_pop r1 3 = Inr r2 \<and> lr_trace (fst (lr_add r2 g)) [f] \<and> lr_logs (fst (lr_add r2 g)) = [g]
     \<and> sorted_wrt (<) (map fi_fileNum ([f] @ lr_logs (fst (lr_add r2 g)))) \<and> length (lr_logs (fst (lr_add r2 g))) \<le> lr_limit (fst (lr_add r2 g))"
proof -
  let ?f = "\<lparr>fi_fileNum = 3, fi_fileSize = 10\<rparr>" and ?g = "\<lparr>fi_fileNum = 5, fi_fileSize = 20\<rparr>"
  let ?r0 = "\<lparr>lr_limit = 1, lr_minRecycleLogNum = 2, lr_logs = [], lr_maxLogNum = 0\<rparr>"
  let ?r1 = "fst (lr_add ?r0 ?f)" and ?r2 = "?r0\<lparr>lr_maxLogNum := 3\<rparr>"
  have 1: "lr_peek ?r1 = Some ?f" "lr_pop ?r1 3 = Inr ?r2" by (simp_all add: lr_add_def lr_peek_def lr_pop_def)
  have "lr_trace ?r1 []" by (intro lr_trace.add lr_trace.new) simp
  from lr_trace.pop [OF this 1(1)] 1(2) have "lr_trace ?r2 [?f]" by simp
  then have t: "lr_trace (fst (lr_add ?r2 ?g)) [?f]" by (rule lr_trace.add)
  have "lr_logs (fst (lr_add ?r2 ?g)) = [?g]" by (simp add: lr_add_def)
  then show ?thesis unfolding Let_def using 1 t recycler_hands_out_once [OF t] by blast
qed

text \<open>Releasing logs: each goes to the recycler or is deleted, unless the recycler has had its number before.\<close>

lemma recycle_log_step:
  "(fi_fileNum f \<in> set (pd_deleted (recycle_log f p)) \<or> f \<in> set (lr_logs (pd_recycler (recycle_log f p))) \<or> fi_fileNum f \<le> lr_maxLogNum (pd_recycler p))
    \<and> set (pd_deleted (recycle_log f p)) \<subseteq> insert (fi_fileNum f) (set (pd_deleted p)) \<and> set (pd_deleted p) \<subseteq> set (pd_deleted (recycle_log f p))
    \<and> set (lr_logs (pd_recycler (recycle_log f p))) \<subseteq> insert f (set (lr_logs (pd_recycler p)))
    \<and> set (lr_logs (pd_recycler p)) \<subseteq> set (lr_logs (pd_recycler (recycle_log f p)))
    \<and> pd_logQueue (recycle_log f p) = pd_logQueue p \<and> lr_maxLogNum (pd_recycler (recycle_log f p)) \<in> {lr_maxLogNum (pd_recycler p), fi_fileNum f}"
  by (auto simp: recycle_log_def lr_add_def Let_def)

lemma recycle_logs_ok:
  assumes "sorted_wrt (<) (map fi_fileNum fs)"
  shows "(\<forall>f \<in> set fs. fi_fileNum f \<in> set (pd_deleted (fold recycle_log fs p)) \<or> f \<in> set (lr_logs (pd_recycler (fold recycle_log fs p)))
        \<or> fi_fileNum f \<le> lr_maxLogNum (pd_recycler p))
    \<and> set (pd_deleted (fold recycle_log fs p)) \<subseteq> set (pd_deleted p) \<union> fi_fileNum ` set fs \<and> set (pd_deleted p) \<subseteq> set (pd_deleted (fold recycle_log fs p))
    \<and> set (lr_logs (pd_recycler (fold recycle_log fs p))) \<subseteq> set (lr_logs (pd_recycler p)) \<union> set fs
    \<and> set (lr_logs (pd_recycler p)) \<subseteq> set (lr_logs (pd_recycler (fold recycle_log fs p)))
    \<and> pd_logQueue (fold recycle_log fs p) = pd_logQueue p"
  using assms
proof (induction fs arbitrary: p)
  case (Cons f fs)
  let ?p = "recycle_log f p" and ?q = "fold recycle_log fs (recycle_log f p)"
  note S = recycle_log_step [of f p]
  have I: "\<forall>g \<in> set fs. fi_fileNum g \<in> set (pd_deleted ?q) \<or> g \<in> set (lr_logs (pd_recycler ?q)) \<or> fi_fileNum g \<le> lr_maxLogNum (pd_recycler ?p)"
      "set (pd_deleted ?q) \<subseteq> set (pd_deleted ?p) \<union> fi_fileNum ` set fs" "set (pd_deleted ?p) \<subseteq> set (pd_deleted ?q)"
      "set (lr_logs (pd_recycler ?q)) \<subseteq> set (lr_logs (pd_recycler ?p)) \<union> set fs" "set (lr_logs (pd_recycler ?p)) \<subseteq> set (lr_logs (pd_recycler ?q))"
      "pd_logQueue ?q = pd_logQueue ?p"
    using Cons.IH [of ?p] Cons.prems by auto
  have "\<forall>g \<in> set fs. fi_fileNum g \<le> lr_maxLogNum (pd_recycler ?p) \<longrightarrow> fi_fileNum g \<le> lr_maxLogNum (pd_recycler p)"
    using S Cons.prems by auto
  then have "\<forall>g \<in> set (f # fs). fi_fileNum g \<in> set (pd_deleted ?q) \<or> g \<in> set (lr_logs (pd_recycler ?q)) \<or> fi_fileNum g \<le> lr_maxLogNum (pd_recycler p)"
    using I(1,3,5) S by auto
  moreover have "set (pd_deleted ?q) \<subseteq> set (pd_deleted p) \<union> fi_fileNum ` set (f # fs)" using I(2) S by auto
  moreover have "set (lr_logs (pd_recycler ?q)) \<subseteq> set (lr_logs (pd_recycler p)) \<union> set (f # fs)" using I(4) S by auto
  moreover have "set (pd_deleted p) \<subseteq> set (pd_deleted ?q)" "set (lr_logs (pd_recycler p)) \<subseteq> set (lr_logs (pd_recycler ?q))" "pd_logQueue ?q = pd_logQueue p"
    using I(3,5,6) S by auto
  ultimately show ?case by simp
qed simp

text \<open>
  C37: Releasing logs. With the log queue in order, a prefix of logs below the oldest log in use leaves the queue, and as soon as one leaves all logs kept are
  still needed; every log that leaves it is given to the recycler or deleted, unless the recycler was offered a log with its number or a higher one before; and
  no other log is deleted or given to the recycler.
\<close>

theorem log_release:
  assumes "sorted_wrt (<) (map fi_fileNum (pd_logQueue p))"
  shows "let p' = doDeleteObsoleteFiles p in \<exists>old. pd_logQueue p = old @ pd_logQueue p'
    \<and> (\<forall>f \<in> set old. fi_fileNum f < md_minUnflushedLogNum (pd_meta p)
        \<and> (fi_fileNum f \<in> set (pd_deleted p') \<or> f \<in> set (lr_logs (pd_recycler p')) \<or> fi_fileNum f \<le> lr_maxLogNum (pd_recycler p)))
    \<and> (old \<noteq> [] \<longrightarrow> (\<forall>f \<in> set (pd_logQueue p'). md_minUnflushedLogNum (pd_meta p) \<le> fi_fileNum f))
    \<and> set (pd_deleted p') \<subseteq> set (pd_deleted p) \<union> fi_fileNum ` set old
    \<and> set (lr_logs (pd_recycler p')) \<subseteq> set (lr_logs (pd_recycler p)) \<union> set old"
proof -
  obtain old q where s: "split_logs (md_minUnflushedLogNum (pd_meta p)) (pd_logQueue p) = (old, q)" by fastforce
  have "sorted (map fi_fileNum (pd_logQueue p))" using assms by (simp add: strict_sorted_imp_sorted)
  from split_logs_ok [OF s this] have o: "pd_logQueue p = old @ q" "\<forall>f \<in> set old. fi_fileNum f < md_minUnflushedLogNum (pd_meta p)"
      "old \<noteq> [] \<longrightarrow> (\<forall>f \<in> set q. md_minUnflushedLogNum (pd_meta p) \<le> fi_fileNum f)"
    by auto
  then have "sorted_wrt (<) (map fi_fileNum old)" using assms by (simp add: sorted_wrt_append)
  note R = recycle_logs_ok [OF this, of "p\<lparr>pd_logQueue := q\<rparr>"]
  have d: "doDeleteObsoleteFiles p = fold recycle_log old (p\<lparr>pd_logQueue := q\<rparr>)" by (simp add: doDeleteObsoleteFiles_def s)
  show ?thesis unfolding d Let_def using o R by (intro exI [of _ old]) simp
qed

theorem log_release_witness:
  "\<forall>fb. let m = \<lparr>md_logSeqNum = 0, md_visibleSeqNum = 0, md_version = 0, md_file = \<lparr>mm_size = 0, mm_m = []\<rparr>, md_lastSeqNum = 0,
         md_minUnflushedLogNum = 4, md_nextFileNum = 9, md_plainDbAtFileNum = 0\<rparr>;
       p' = doDeleteObsoleteFiles (two_tables (Inl fb) (Inl fb) None m\<lparr>pd_logQueue := [\<lparr>fi_fileNum = 3, fi_fileSize = 10\<rparr>, \<lparr>fi_fileNum = 4, fi_fileSize = 20\<rparr>]\<rparr>)
   in pd_logQueue p' = [\<lparr>fi_fileNum = 4, fi_fileSize = 20\<rparr>] \<and> set (pd_deleted p') \<subseteq> {3}" (is "\<forall>fb. ?P fb")
proof
  fix fb
  let ?m = "\<lparr>md_logSeqNum = 0, md_visibleSeqNum = 0, md_version = 0, md_file = \<lparr>mm_size = 0, mm_m = []\<rparr>, md_lastSeqNum = 0,
    md_minUnflushedLogNum = 4, md_nextFileNum = 9, md_plainDbAtFileNum = 0\<rparr>"
  let ?p = "two_tables (Inl fb) (Inl fb) None ?m\<lparr>pd_logQueue := [\<lparr>fi_fileNum = 3, fi_fileSize = 10\<rparr>, \<lparr>fi_fileNum = 4, fi_fileSize = 20\<rparr>]\<rparr>"
  have "sorted_wrt (<) (map fi_fileNum (pd_logQueue ?p))" by simp
  moreover have q: "pd_logQueue (doDeleteObsoleteFiles ?p) = [\<lparr>fi_fileNum = 4, fi_fileSize = 20\<rparr>]"
    by (simp add: doDeleteObsoleteFiles_def split_logs_def recycle_log_def lr_add_def two_tables_def)
  ultimately show "?P fb" using log_release [of ?p] by (auto simp: Let_def two_tables_def Cons_eq_append_conv)
qed

end
