(* ===== verification/User_Iter.thy ===== *)
theory User_Iter
  imports Compaction
begin

text \<open>
  The iterator of the public interface (\<^verbatim>\<open>iterator.go\<close>): it shows, over an internal iterator of versioned keys, the newest version of every key that is
  not deleted, in both directions and with changes of direction. An operation returns \<open>None\<close> when it panics or does not return.
  \<^verbatim>\<open>Equal\<close> of the comparer is equality of the bytes, which its documentation asks for; a \<^verbatim>\<open>Split\<close> beyond the end of a key panics. The
  build has no invariant checks, so \<^verbatim>\<open>disableSeekOpt\<close> is never asked.
\<close>

section \<open>State\<close>

datatype IteratorStatsKind = InterfaceCall | InternalIterCall

record IteratorStats =
  ForwardSeekCount :: "IteratorStatsKind \<Rightarrow> nat"
  ReverseSeekCount :: "IteratorStatsKind \<Rightarrow> nat"
  ForwardStepCount :: "IteratorStatsKind \<Rightarrow> nat"
  ReverseStepCount :: "IteratorStatsKind \<Rightarrow> nat"

datatype lastPositioningOpKind = unknownLastPositionOp | seekPrefixGELastPositioningOp | seekGELastPositioningOp | seekLTLastPositioningOp

datatype IterValidityState = IterExhausted | IterValid

text \<open>\<open>it_cur\<close> is \<^verbatim>\<open>iterKey\<close> with \<^verbatim>\<open>iterValue\<close>.\<close>

record 's Iterator =
  it_lower :: "bytes option"
  it_upper :: "bytes option"
  it_iter :: 's
  it_err :: "iter_error option"
  it_key :: bytes
  it_value :: bytes
  it_cur :: "iter_entry option"
  it_seekKey :: bytes
  it_stats :: IteratorStats
  it_validity :: IterValidityState
  it_pos :: iterPos
  it_hasPrefix :: bool
  it_lastOp :: lastPositioningOpKind

definition newIterator :: "'s \<Rightarrow> bytes option \<Rightarrow> bytes option \<Rightarrow> 's Iterator" where
  "newIterator s lower upper =
     \<lparr>it_lower = lower, it_upper = upper, it_iter = s, it_err = None, it_key = [], it_value = [], it_cur = None, it_seekKey = [],
      it_stats = \<lparr>ForwardSeekCount = (\<lambda>k. 0), ReverseSeekCount = (\<lambda>k. 0), ForwardStepCount = (\<lambda>k. 0), ReverseStepCount = (\<lambda>k. 0)\<rparr>,
      it_validity = IterExhausted, it_pos = iterPosCurForward, it_hasPrefix = False, it_lastOp = unknownLastPositionOp\<rparr>"

definition forward_seeks :: "IteratorStatsKind \<Rightarrow> 's Iterator \<Rightarrow> 's Iterator" where
  "forward_seeks k i = i\<lparr>it_stats := (it_stats i)\<lparr>ForwardSeekCount := (ForwardSeekCount (it_stats i))(k := ForwardSeekCount (it_stats i) k + 1)\<rparr>\<rparr>"

definition reverse_seeks :: "IteratorStatsKind \<Rightarrow> 's Iterator \<Rightarrow> 's Iterator" where
  "reverse_seeks k i = i\<lparr>it_stats := (it_stats i)\<lparr>ReverseSeekCount := (ReverseSeekCount (it_stats i))(k := ReverseSeekCount (it_stats i) k + 1)\<rparr>\<rparr>"

definition forward_steps :: "IteratorStatsKind \<Rightarrow> 's Iterator \<Rightarrow> 's Iterator" where
  "forward_steps k i = i\<lparr>it_stats := (it_stats i)\<lparr>ForwardStepCount := (ForwardStepCount (it_stats i))(k := ForwardStepCount (it_stats i) k + 1)\<rparr>\<rparr>"

definition reverse_steps :: "IteratorStatsKind \<Rightarrow> 's Iterator \<Rightarrow> 's Iterator" where
  "reverse_steps k i = i\<lparr>it_stats := (it_stats i)\<lparr>ReverseStepCount := (ReverseStepCount (it_stats i))(k := ReverseStepCount (it_stats i) k + 1)\<rparr>\<rparr>"

section \<open>Moving\<close>

text \<open>A call of the internal iterator, and the count that follows it.\<close>

definition call_iter :: "('s Iterator \<Rightarrow> 's Iterator) \<Rightarrow> 's iter_result \<Rightarrow> 's Iterator \<Rightarrow> 's Iterator option" where
  "call_iter tally r i = map_option (\<lambda>(s, e). tally (i\<lparr>it_iter := s, it_cur := e\<rparr>)) r"

partial_function (option) next_loop :: "'s iter_ops \<Rightarrow> bool \<Rightarrow> 's Iterator \<Rightarrow> 's Iterator option" where
  "next_loop ops finished i =
     Option.bind (call_iter (forward_steps InternalIterCall) (op_Next ops (it_iter i)) i) (\<lambda>i.
       case it_cur i of
         None \<Rightarrow> Some i
       | Some e \<Rightarrow> if finished then Some i
           else if it_key i \<noteq> UserKey (fst e) then Some i
           else next_loop ops (SeqNum (fst e) = 0) i)"

definition nextUserKey :: "'s iter_ops \<Rightarrow> 's Iterator \<Rightarrow> 's Iterator option" where
  "nextUserKey ops i =
     (case it_cur i of
        None \<Rightarrow> Some i
      | Some e \<Rightarrow> next_loop ops (SeqNum (fst e) = 0) (if it_validity i \<noteq> IterValid then i\<lparr>it_key := UserKey (fst e)\<rparr> else i))"

text \<open>Of the keys with other kinds, which only a broken table could show, the code logs a line and skips them.\<close>

partial_function (option) next_entries :: "'s iter_ops \<Rightarrow> (bytes \<Rightarrow> nat) \<Rightarrow> 's Iterator \<Rightarrow> 's Iterator option" where
  "next_entries ops split i =
     (case it_cur i of
        None \<Rightarrow> Some i
      | Some e \<Rightarrow>
          let key = UserKey (fst e) in
          if it_hasPrefix i \<and> length key < split key then None
          else if it_hasPrefix i \<and> it_seekKey i \<noteq> take (split key) key then Some i
          else if Kind (fst e) = InternalKeyKindSet then Some (i\<lparr>it_key := key, it_value := snd e, it_validity := IterValid\<rparr>)
          else Option.bind (nextUserKey ops i) (\<lambda>i. next_entries ops split i))"

definition it_findNextEntry :: "'s iter_ops \<Rightarrow> (bytes \<Rightarrow> nat) \<Rightarrow> 's Iterator \<Rightarrow> 's Iterator option" where
  "it_findNextEntry ops split i = next_entries ops split (i\<lparr>it_validity := IterExhausted, it_pos := iterPosCurForward\<rparr>)"

text \<open>The end of \<^verbatim>\<open>findPrevEntry\<close> with a valid entry: the internal iterator is one step before it.\<close>

definition at_prev :: "'s Iterator \<Rightarrow> 's Iterator" where
  "at_prev i = (let i = i\<lparr>it_pos := iterPosPrev\<rparr> in if it_err i \<noteq> None then i\<lparr>it_validity := IterExhausted\<rparr> else i)"

partial_function (option) prev_entries :: "'s iter_ops \<Rightarrow> 's Iterator \<Rightarrow> 's Iterator option" where
  "prev_entries ops i =
     (case it_cur i of
        None \<Rightarrow> Some (if it_validity i = IterValid then at_prev i else i)
      | Some e \<Rightarrow>
          if it_validity i = IterValid \<and> UserKey (fst e) \<noteq> it_key i then Some (at_prev i)
          else if Kind (fst e) = InternalKeyKindDelete \<or> Kind (fst e) = InternalKeyKindPrefixDelete then
            Option.bind (call_iter (reverse_steps InternalIterCall) (op_Prev ops (it_iter i)) (i\<lparr>it_value := [], it_validity := IterExhausted\<rparr>))
              (\<lambda>i. prev_entries ops i)
          else if Kind (fst e) = InternalKeyKindSet then
            Option.bind (call_iter (reverse_steps InternalIterCall) (op_Prev ops (it_iter i))
                (i\<lparr>it_key := UserKey (fst e), it_value := snd e, it_validity := IterValid\<rparr>))
              (\<lambda>i. prev_entries ops i)
          else Some (i\<lparr>it_err := Some (ErrInvalidKind (Kind (fst e))), it_validity := IterExhausted\<rparr>))"

definition it_findPrevEntry :: "'s iter_ops \<Rightarrow> 's Iterator \<Rightarrow> 's Iterator option" where
  "it_findPrevEntry ops i = prev_entries ops (i\<lparr>it_validity := IterExhausted, it_pos := iterPosCurReverse\<rparr>)"

partial_function (option) prev_loop :: "'s iter_ops \<Rightarrow> 's Iterator \<Rightarrow> 's Iterator option" where
  "prev_loop ops i =
     Option.bind (call_iter (reverse_steps InternalIterCall) (op_Prev ops (it_iter i)) i) (\<lambda>i.
       case it_cur i of
         None \<Rightarrow> Some i
       | Some e \<Rightarrow> if it_key i \<noteq> UserKey (fst e) then Some i else prev_loop ops i)"

definition prevUserKey :: "'s iter_ops \<Rightarrow> 's Iterator \<Rightarrow> 's Iterator option" where
  "prevUserKey ops i =
     (case it_cur i of
        None \<Rightarrow> Some i
      | Some e \<Rightarrow> prev_loop ops (if it_validity i \<noteq> IterValid then i\<lparr>it_key := UserKey (fst e)\<rparr> else i))"

definition it_Error :: "'s iter_ops \<Rightarrow> 's Iterator \<Rightarrow> iter_error option" where
  "it_Error ops i = FirstError (it_err i) (op_Error ops (it_iter i))"

section \<open>Positioning\<close>

definition clamp_low_high :: "(bytes \<Rightarrow> bytes \<Rightarrow> int) \<Rightarrow> 's Iterator \<Rightarrow> bytes \<Rightarrow> bytes" where
  "clamp_low_high cmp i key =
     (if it_lower i \<noteq> None \<and> cmp key (the (it_lower i)) < 0 then the (it_lower i)
      else if it_upper i \<noteq> None \<and> cmp key (the (it_upper i)) > 0 then the (it_upper i)
      else key)"

definition clamp_high_low :: "(bytes \<Rightarrow> bytes \<Rightarrow> int) \<Rightarrow> 's Iterator \<Rightarrow> bytes \<Rightarrow> bytes" where
  "clamp_high_low cmp i key =
     (if it_upper i \<noteq> None \<and> cmp key (the (it_upper i)) > 0 then the (it_upper i)
      else if it_lower i \<noteq> None \<and> cmp key (the (it_lower i)) < 0 then the (it_lower i)
      else key)"

text \<open>The two tests of \<^verbatim>\<open>SeekGEWithLimit\<close> and \<^verbatim>\<open>SeekLTWithLimit\<close> after a seek of the same kind: nothing to do, or no call of the
  internal iterator needed. The second is for the paused positions, which dereference the internal key.\<close>

definition it_SeekGE :: "'s iter_ops \<Rightarrow> (bytes \<Rightarrow> bytes \<Rightarrow> int) \<Rightarrow> (bytes \<Rightarrow> nat) \<Rightarrow> 's Iterator \<Rightarrow> bytes \<Rightarrow> 's Iterator option" where
  "it_SeekGE ops cmp split i key =
     (let lastOp = it_lastOp i;
          i = forward_seeks InterfaceCall (i\<lparr>it_lastOp := unknownLastPositionOp, it_err := None, it_hasPrefix := False\<rparr>);
          key = clamp_low_high cmp i key;
          again = (lastOp = seekGELastPositioningOp \<and> cmp (it_seekKey i) key \<le> 0)
      in if again \<and> (it_validity i = IterExhausted \<or> it_validity i = IterValid \<and> cmp key (it_key i) \<le> 0)
         then Some (i\<lparr>it_lastOp := seekGELastPositioningOp\<rparr>)
         else do {
           stay \<leftarrow> (if again \<and> it_pos i = iterPosCurForwardPaused then map_option (\<lambda>e. cmp key (UserKey (fst e)) \<le> 0) (it_cur i) else Some False);
           i \<leftarrow> (if stay then Some i else call_iter (forward_seeks InternalIterCall) (op_SeekGE ops (it_iter i) key) i);
           i \<leftarrow> it_findNextEntry ops split i;
           Some (if it_Error ops i = None then i\<lparr>it_seekKey := key, it_lastOp := seekGELastPositioningOp\<rparr> else i)
         })"

definition it_SeekPrefixGE :: "'s iter_ops \<Rightarrow> (bytes \<Rightarrow> bytes \<Rightarrow> int) \<Rightarrow> (bytes \<Rightarrow> nat) \<Rightarrow> 's Iterator \<Rightarrow> bytes \<Rightarrow> 's Iterator option" where
  "it_SeekPrefixGE ops cmp split i key =
     (let lastOp = it_lastOp i;
          i = forward_seeks InterfaceCall (i\<lparr>it_lastOp := unknownLastPositionOp, it_err := None\<rparr>)
      in if length key < split key then None
         else
           let keyPrefix = take (split key) key;
               trySeekUsingNext = (lastOp = seekPrefixGELastPositioningOp \<and> cmp (it_seekKey i) keyPrefix < 0);
               i = i\<lparr>it_seekKey := keyPrefix, it_hasPrefix := True\<rparr>;
               bound = (if it_lower i \<noteq> None \<and> cmp key (the (it_lower i)) < 0 then it_lower i
                        else if it_upper i \<noteq> None \<and> cmp key (the (it_upper i)) > 0 then it_upper i
                        else None)
           in if bound \<noteq> None \<and> length (the bound) < split (the bound) then None
              else if bound \<noteq> None \<and> keyPrefix \<noteq> take (split (the bound)) (the bound) then Some (i\<lparr>it_err := Some ErrPrefixBound\<rparr>)
              else
                let key = (case bound of None \<Rightarrow> key | Some b \<Rightarrow> b) in
                do {
                  i \<leftarrow> call_iter (forward_seeks InternalIterCall) (op_SeekPrefixGE ops (it_iter i) keyPrefix key trySeekUsingNext) i;
                  i \<leftarrow> it_findNextEntry ops split i;
                  Some (if it_Error ops i = None then i\<lparr>it_lastOp := seekPrefixGELastPositioningOp\<rparr> else i)
                })"

definition it_SeekLT :: "'s iter_ops \<Rightarrow> (bytes \<Rightarrow> bytes \<Rightarrow> int) \<Rightarrow> 's Iterator \<Rightarrow> bytes \<Rightarrow> 's Iterator option" where
  "it_SeekLT ops cmp i key =
     (let lastOp = it_lastOp i;
          i = reverse_seeks InterfaceCall (i\<lparr>it_lastOp := unknownLastPositionOp, it_err := None, it_hasPrefix := False\<rparr>);
          key = clamp_high_low cmp i key;
          again = (lastOp = seekLTLastPositioningOp \<and> cmp key (it_seekKey i) \<le> 0)
      in if again \<and> (it_validity i = IterExhausted \<or> it_validity i = IterValid \<and> cmp (it_key i) key < 0)
         then Some (i\<lparr>it_lastOp := seekLTLastPositioningOp\<rparr>)
         else do {
           stay \<leftarrow> (if again \<and> it_pos i = iterPosCurReversePaused then map_option (\<lambda>e. cmp (UserKey (fst e)) key < 0) (it_cur i) else Some False);
           i \<leftarrow> (if stay then Some i else call_iter (reverse_seeks InternalIterCall) (op_SeekLT ops (it_iter i) key) i);
           i \<leftarrow> it_findPrevEntry ops i;
           Some (if it_Error ops i = None then i\<lparr>it_seekKey := key, it_lastOp := seekLTLastPositioningOp\<rparr> else i)
         })"

text \<open>Going to the first or last key within the bounds.\<close>

definition to_first :: "'s iter_ops \<Rightarrow> 's Iterator \<Rightarrow> 's Iterator option" where
  "to_first ops i = call_iter (forward_seeks InternalIterCall)
     (case it_lower i of Some lower \<Rightarrow> op_SeekGE ops (it_iter i) lower | None \<Rightarrow> op_First ops (it_iter i)) i"

definition to_last :: "'s iter_ops \<Rightarrow> 's Iterator \<Rightarrow> 's Iterator option" where
  "to_last ops i = call_iter (reverse_seeks InternalIterCall)
     (case it_upper i of Some upper \<Rightarrow> op_SeekLT ops (it_iter i) upper | None \<Rightarrow> op_Last ops (it_iter i)) i"

definition it_First :: "'s iter_ops \<Rightarrow> (bytes \<Rightarrow> nat) \<Rightarrow> 's Iterator \<Rightarrow> 's Iterator option" where
  "it_First ops split i =
     do {
       i \<leftarrow> to_first ops (forward_seeks InterfaceCall (i\<lparr>it_err := None, it_hasPrefix := False, it_lastOp := unknownLastPositionOp\<rparr>));
       it_findNextEntry ops split i
     }"

definition it_Last :: "'s iter_ops \<Rightarrow> 's Iterator \<Rightarrow> 's Iterator option" where
  "it_Last ops i =
     do {
       i \<leftarrow> to_last ops (reverse_seeks InterfaceCall (i\<lparr>it_err := None, it_hasPrefix := False, it_lastOp := unknownLastPositionOp\<rparr>));
       it_findPrevEntry ops i
     }"

definition it_Next :: "'s iter_ops \<Rightarrow> (bytes \<Rightarrow> nat) \<Rightarrow> 's Iterator \<Rightarrow> 's Iterator option" where
  "it_Next ops split i =
     (let i = forward_steps InterfaceCall i in
      if it_err i \<noteq> None then Some i
      else
        let i = i\<lparr>it_lastOp := unknownLastPositionOp\<rparr> in
        case it_pos i of
          iterPosCurForward \<Rightarrow> Option.bind (nextUserKey ops i) (it_findNextEntry ops split)
        | iterPosCurForwardPaused \<Rightarrow> it_findNextEntry ops split i
        | iterPosCurReverse \<Rightarrow>
            if it_cur i \<noteq> None then Some (i\<lparr>it_err := Some ErrNotAtPrev, it_validity := IterExhausted\<rparr>)
            else Option.bind (to_first ops i) (it_findNextEntry ops split)
        | iterPosCurReversePaused \<Rightarrow>
            if it_cur i = None then Some (i\<lparr>it_err := Some ErrPausedExhausted, it_validity := IterExhausted\<rparr>)
            else Option.bind (nextUserKey ops i) (it_findNextEntry ops split)
        | iterPosPrev \<Rightarrow>
            let i = i\<lparr>it_validity := IterExhausted\<rparr> in
            do {
              i \<leftarrow> (if it_cur i = None then to_first ops i else nextUserKey ops i);
              i \<leftarrow> nextUserKey ops i;
              it_findNextEntry ops split i
            }
        | iterPosNext \<Rightarrow> it_findNextEntry ops split i)"

definition it_Prev :: "'s iter_ops \<Rightarrow> 's Iterator \<Rightarrow> 's Iterator option" where
  "it_Prev ops i =
     (let i = reverse_steps InterfaceCall i in
      if it_err i \<noteq> None then Some i
      else
        let i = i\<lparr>it_lastOp := unknownLastPositionOp\<rparr> in
        if it_hasPrefix i then Some (i\<lparr>it_err := Some ErrReversePrefix, it_validity := IterExhausted\<rparr>)
        else do {
          i \<leftarrow> (if it_pos i = iterPosCurReverse then prevUserKey ops i else Some i);
          i \<leftarrow> (if it_pos i = iterPosCurForward \<or> it_pos i = iterPosNext \<or> it_pos i = iterPosCurForwardPaused then
                  let stepAgain = (it_pos i = iterPosNext); i = i\<lparr>it_validity := IterExhausted\<rparr> in
                  do {
                    i \<leftarrow> (if it_cur i = None then to_last ops i else prevUserKey ops i);
                    if stepAgain then prevUserKey ops i else Some i
                  }
                else Some i);
          it_findPrevEntry ops i
        })"

definition it_Valid :: "'s Iterator \<Rightarrow> bool" where
  "it_Valid i \<longleftrightarrow> it_validity i = IterValid"

definition it_SetBounds :: "'s iter_ops \<Rightarrow> 's Iterator \<Rightarrow> bytes option \<Rightarrow> bytes option \<Rightarrow> 's Iterator" where
  "it_SetBounds ops i lower upper =
     i\<lparr>it_lastOp := unknownLastPositionOp, it_hasPrefix := False, it_cur := None,
       it_pos := (if it_pos i \<in> {iterPosCurForward, iterPosNext, iterPosCurForwardPaused} then iterPosCurForward else iterPosCurReverse),
       it_validity := IterExhausted, it_lower := lower, it_upper := upper, it_iter := op_SetBounds ops (it_iter i) lower upper\<rparr>"

definition it_Close :: "'s iter_ops \<Rightarrow> 's Iterator \<Rightarrow> iter_error option" where
  "it_Close ops i = FirstError (it_err i) (op_Close ops (it_iter i))"

end
