(* ===== verification/Iter_Cursor.thy ===== *)
theory Iter_Cursor
  imports User_Iter
begin

text \<open>
  A cursor over an ordered map, the specification of the iterator, the contract of an internal iterator that can be moved in both directions, and
  the proof that \<^verbatim>\<open>First\<close>, \<^verbatim>\<open>Last\<close>, \<^verbatim>\<open>Next\<close> and \<^verbatim>\<open>Prev\<close> keep the iterator at the position of the cursor.
\<close>

section \<open>What the iterator shows\<close>

text \<open>The visible pairs: the newest version of every key, unless it is a deletion.\<close>

definition view :: "iter_entry list \<Rightarrow> (bytes \<times> bytes) list" where
  "view L = map pair_of (filter (\<lambda>e. Kind (fst e) = InternalKeyKindSet) (newest bytes_Compare L))"

definition ukey :: "iter_entry \<Rightarrow> bytes" where
  "ukey e = UserKey (fst e)"

lemma newest_append:
  assumes "\<forall>a \<in> set A. \<forall>b \<in> set B. ukey a < ukey b"
  shows "newest bytes_Compare (A @ B) = newest bytes_Compare A @ newest bytes_Compare B"
  using assms
proof (induction "bytes_Compare :: bytes \<Rightarrow> bytes \<Rightarrow> int" A rule: newest.induct)
  case (2 e es)
  let ?same = "\<lambda>x. bytes_Compare (UserKey (fst e)) (UserKey (fst x)) = 0"
  have B: "\<forall>b \<in> set B. \<not> ?same b" using "2.prems" by (auto simp: bytes_Compare_iff ukey_def)
  have "dropWhile ?same (es @ B) = dropWhile ?same es @ B"
  proof (cases "\<forall>x \<in> set es. ?same x")
    case True
    then show ?thesis using B by (simp add: dropWhile_append dropWhile_eq_self_iff)
  next
    case False
    then show ?thesis by (auto simp: dropWhile_append)
  qed
  moreover have "\<forall>a \<in> set (dropWhile ?same es). \<forall>b \<in> set B. ukey a < ukey b" using "2.prems" set_dropWhileD by fastforce
  ultimately show ?case using "2.hyps" by simp
qed simp

lemma view_append: "\<forall>a \<in> set A. \<forall>b \<in> set B. ukey a < ukey b \<Longrightarrow> view (A @ B) = view A @ view B"
  by (simp add: view_def newest_append)

lemma view_keys: "x \<in> set (view L) \<Longrightarrow> \<exists>e \<in> set L. fst x = ukey e"
  using newest_set [of bytes_Compare L] by (force simp: view_def pair_of_def ukey_def)

text \<open>A group of versions of one key shows the first of them.\<close>

lemma view_group:
  assumes "\<forall>x \<in> set es. ukey x = ukey e"
  shows "view (e # es) = (if Kind (fst e) = InternalKeyKindSet then [pair_of e] else [])"
proof -
  have "dropWhile (\<lambda>x. bytes_Compare (UserKey (fst e)) (UserKey (fst x)) = 0) es = []"
    using assms by (simp add: bytes_Compare_iff ukey_def)
  then show ?thesis by (simp only: view_def newest.simps) simp
qed

lemma while_split:
  assumes "\<forall>x \<in> set A. P x" and "\<forall>x \<in> set B. \<not> P x"
  shows "dropWhile P (A @ B) = B" "takeWhile P (A @ B) = A"
  using assms by (induction A) (cases B; auto)+

section \<open>A cursor over an ordered map\<close>

datatype cursor = Before | After | At "bytes \<times> bytes"

definition head_cur :: "(bytes \<times> bytes) list \<Rightarrow> cursor" where
  "head_cur V = (case V of [] \<Rightarrow> After | x # _ \<Rightarrow> At x)"

definition last_cur :: "(bytes \<times> bytes) list \<Rightarrow> cursor" where
  "last_cur V = (case rev V of [] \<Rightarrow> Before | x # _ \<Rightarrow> At x)"

datatype iter_call = CFirst | CLast | CNext | CPrev | CSeekGE bytes | CSeekLT bytes

fun cursor_call :: "(bytes \<times> bytes) list \<Rightarrow> iter_call \<Rightarrow> cursor \<Rightarrow> cursor" where
  "cursor_call V CFirst c = head_cur V"
| "cursor_call V CLast c = last_cur V"
| "cursor_call V (CSeekGE key) c = head_cur (dropWhile (\<lambda>x. fst x < key) V)"
| "cursor_call V (CSeekLT key) c = last_cur (takeWhile (\<lambda>x. fst x < key) V)"
| "cursor_call V CNext c = (case c of Before \<Rightarrow> head_cur V | After \<Rightarrow> After | At x \<Rightarrow> head_cur (dropWhile (\<lambda>y. fst y \<le> fst x) V))"
| "cursor_call V CPrev c = (case c of Before \<Rightarrow> Before | After \<Rightarrow> last_cur V | At x \<Rightarrow> last_cur (takeWhile (\<lambda>y. fst y < fst x) V))"

definition iterator_call :: "'s iter_ops \<Rightarrow> (bytes \<Rightarrow> nat) \<Rightarrow> iter_call \<Rightarrow> 's Iterator \<Rightarrow> 's Iterator option" where
  "iterator_call ops split c i = (case c of
      CFirst \<Rightarrow> it_First ops split i
    | CLast \<Rightarrow> it_Last ops i
    | CNext \<Rightarrow> it_Next ops split i
    | CPrev \<Rightarrow> it_Prev ops i
    | CSeekGE key \<Rightarrow> it_SeekGE ops bytes_Compare split i key
    | CSeekLT key \<Rightarrow> it_SeekLT ops bytes_Compare i key)"

section \<open>Internal iterators\<close>

text \<open>Moving the internal iterator changes its state, the entry it shows and the counts.\<close>

definition moved :: "'s Iterator \<Rightarrow> 's \<Rightarrow> iter_entry option \<Rightarrow> IteratorStats \<Rightarrow> 's Iterator" where
  "moved i s e st = i\<lparr>it_iter := s, it_cur := e, it_stats := st\<rparr>"

lemma moved_simps [simp]:
  "it_lower (moved i s e st) = it_lower i" "it_upper (moved i s e st) = it_upper i" "it_iter (moved i s e st) = s" "it_err (moved i s e st) = it_err i"
  "it_key (moved i s e st) = it_key i" "it_value (moved i s e st) = it_value i" "it_cur (moved i s e st) = e" "it_seekKey (moved i s e st) = it_seekKey i"
  "it_validity (moved i s e st) = it_validity i" "it_pos (moved i s e st) = it_pos i" "it_hasPrefix (moved i s e st) = it_hasPrefix i"
  "it_lastOp (moved i s e st) = it_lastOp i" "moved (moved i s e st) s' e' st' = moved i s' e' st'"
  by (simp_all add: moved_def)

lemma call_iter_moved:
  "r = Some (s, e) \<Longrightarrow> \<exists>st. call_iter (forward_steps k) r i = Some (moved i s e st)" "r = Some (s, e) \<Longrightarrow> \<exists>st. call_iter (reverse_steps k) r i = Some (moved i s e st)"
  "r = Some (s, e) \<Longrightarrow> \<exists>st. call_iter (forward_seeks k) r i = Some (moved i s e st)" "r = Some (s, e) \<Longrightarrow> \<exists>st. call_iter (reverse_seeks k) r i = Some (moved i s e st)"
  by (auto simp: call_iter_def forward_steps_def reverse_steps_def forward_seeks_def reverse_seeks_def moved_def)

text \<open>The contract of an internal iterator over the entries \<open>E\<close>: \<open>cur s k\<close> says that it shows entry number \<open>k\<close>, and \<open>alive s\<close> that it may be positioned
  anew. Between the entries there are the places \<open>0\<close> to \<open>length E\<close>: moving forward to a place shows the entry behind it, moving
  backward the entry in front of it. Only an iterator that shows an entry is moved.\<close>

definition fwd_entry :: "iter_entry list \<Rightarrow> nat \<Rightarrow> iter_entry option" where
  "fwd_entry E k = (if k < length E then Some (E ! k) else None)"

definition bwd_entry :: "iter_entry list \<Rightarrow> nat \<Rightarrow> iter_entry option" where
  "bwd_entry E k = (if 0 < k \<and> k \<le> length E then Some (E ! (k - 1)) else None)"

definition fwd_lands :: "('s \<Rightarrow> nat \<Rightarrow> bool) \<Rightarrow> ('s \<Rightarrow> bool) \<Rightarrow> iter_entry list \<Rightarrow> 's \<Rightarrow> nat \<Rightarrow> bool" where
  "fwd_lands cur alive E s k \<longleftrightarrow> (if k < length E then cur s k else alive s)"

definition bwd_lands :: "('s \<Rightarrow> nat \<Rightarrow> bool) \<Rightarrow> ('s \<Rightarrow> bool) \<Rightarrow> iter_entry list \<Rightarrow> 's \<Rightarrow> nat \<Rightarrow> bool" where
  "bwd_lands cur alive E s k \<longleftrightarrow> (if 0 < k \<and> k \<le> length E then cur s (k - 1) else alive s)"

definition place_of :: "iter_entry list \<Rightarrow> bytes \<Rightarrow> nat" where
  "place_of E key = length (takeWhile (\<lambda>e. ukey e < key) E)"

locale entry_cursor =
  fixes ops :: "'s iter_ops" and E :: "iter_entry list" and cur :: "'s \<Rightarrow> nat \<Rightarrow> bool" and alive :: "'s \<Rightarrow> bool"
  assumes op_first: "alive s \<Longrightarrow> \<exists>s'. op_First ops s = Some (s', fwd_entry E 0) \<and> fwd_lands cur alive E s' 0"
    and op_last: "alive s \<Longrightarrow> \<exists>s'. op_Last ops s = Some (s', bwd_entry E (length E)) \<and> bwd_lands cur alive E s' (length E)"
    and op_seekGE: "alive s \<Longrightarrow> \<exists>s'. op_SeekGE ops s key = Some (s', fwd_entry E (place_of E key)) \<and> fwd_lands cur alive E s' (place_of E key)"
    and op_seekLT: "alive s \<Longrightarrow> \<exists>s'. op_SeekLT ops s key = Some (s', bwd_entry E (place_of E key)) \<and> bwd_lands cur alive E s' (place_of E key)"
    and op_next: "cur s k \<Longrightarrow> k < length E \<Longrightarrow> \<exists>s'. op_Next ops s = Some (s', fwd_entry E (Suc k)) \<and> fwd_lands cur alive E s' (Suc k)"
    and op_prev: "cur s k \<Longrightarrow> k < length E \<Longrightarrow> \<exists>s'. op_Prev ops s = Some (s', bwd_entry E k) \<and> bwd_lands cur alive E s' k"
    and cur_alive: "cur s k \<Longrightarrow> alive s"
    and no_error: "alive s \<Longrightarrow> op_Error ops s = None"
    and sorted: "sorted_wrt (entry_le False) E"
    and kinds: "e \<in> set E \<Longrightarrow> writable (fst e)"
    and seq_zero: "i < j \<Longrightarrow> j < length E \<Longrightarrow> ukey (E ! i) = ukey (E ! j) \<Longrightarrow> SeqNum (fst (E ! i)) \<noteq> 0"
begin

lemma lands_alive: "fwd_lands cur alive E s k \<Longrightarrow> alive s" "bwd_lands cur alive E s k \<Longrightarrow> alive s"
  by (auto simp: fwd_lands_def bwd_lands_def cur_alive split: if_splits)

lemma ukey_mono: "i \<le> j \<Longrightarrow> j < length E \<Longrightarrow> ukey (E ! i) \<le> ukey (E ! j)"
  using sorted_wrt_nth_less [OF sorted, of i j] by (cases "i = j") (auto simp: entry_le_iff ukey_def same_key_def)

text \<open>A boundary is a place between the versions of different keys.\<close>

definition boundary :: "nat \<Rightarrow> bool" where
  "boundary k \<longleftrightarrow> k \<le> length E \<and> (0 < k \<and> k < length E \<longrightarrow> ukey (E ! (k - 1)) < ukey (E ! k))"

lemma boundary_less: "boundary k \<Longrightarrow> i < k \<Longrightarrow> k \<le> j \<Longrightarrow> j < length E \<Longrightarrow> ukey (E ! i) < ukey (E ! j)"
proof -
  assume k: "boundary k" "i < k" "k \<le> j" "j < length E"
  have "ukey (E ! i) \<le> ukey (E ! (k - 1))" using k by (intro ukey_mono) auto
  also have "\<dots> < ukey (E ! k)" using k by (auto simp: boundary_def)
  also have "\<dots> \<le> ukey (E ! j)" using k by (intro ukey_mono) auto
  finally show ?thesis .
qed

lemma boundary_split: "boundary k \<Longrightarrow> a \<in> set (take k E) \<Longrightarrow> b \<in> set (drop k E) \<Longrightarrow> ukey a < ukey b"
proof -
  assume k: "boundary k" and a: "a \<in> set (take k E)" and b: "b \<in> set (drop k E)"
  obtain i where i: "i < k" "i < length E" "a = E ! i" using a by (auto simp: in_set_conv_nth)
  obtain j where "j < length (drop k E)" "b = drop k E ! j" using b by (metis in_set_conv_nth)
  then have j: "k + j < length E" "b = E ! (k + j)" by auto
  show ?thesis using boundary_less [OF k i(1), of "k + j"] i j by simp
qed

lemma view_split: "boundary k \<Longrightarrow> view E = view (take k E) @ view (drop k E)"
  using view_append [of "take k E" "drop k E"] boundary_split by simp

lemma place_boundary: "boundary (place_of E key)" "i < place_of E key \<Longrightarrow> ukey (E ! i) < key"
    "place_of E key \<le> j \<Longrightarrow> j < length E \<Longrightarrow> key \<le> ukey (E ! j)"
proof -
  let ?k = "place_of E key"
  have le: "?k \<le> length E" unfolding place_of_def by (rule length_takeWhile_le)
  show lt: "i < ?k \<Longrightarrow> ukey (E ! i) < key" for i
    unfolding place_of_def using nth_mem [of i "takeWhile (\<lambda>e. ukey e < key) E"] takeWhile_nth [of i "\<lambda>e. ukey e < key" E]
    by (metis set_takeWhileD)
  have ge: "?k < length E \<Longrightarrow> key \<le> ukey (E ! ?k)" unfolding place_of_def using nth_length_takeWhile [of "\<lambda>e. ukey e < key" E] by (simp add: not_less)
  show "?k \<le> j \<Longrightarrow> j < length E \<Longrightarrow> key \<le> ukey (E ! j)" using ge ukey_mono [of ?k j] by (meson le_less_trans order_trans)
  show "boundary ?k" unfolding boundary_def using le lt [of "?k - 1"] ge by (auto intro: less_le_trans)
qed

text \<open>Moving forward over the versions of one key.\<close>

lemma boundary_Suc: "Suc k < length E \<Longrightarrow> ukey (E ! k) \<noteq> ukey (E ! Suc k) \<Longrightarrow> boundary (Suc k)"
  using ukey_mono [of k "Suc k"] by (auto simp: boundary_def)

lemma next_loop_ok:
  assumes "cur (it_iter i) k" and "k < length E" and "it_key i = ukey (E ! k)"
  shows "\<exists>s st k'. next_loop ops (SeqNum (fst (E ! k)) = 0) i = Some (moved i s (fwd_entry E k') st) \<and> fwd_lands cur alive E s k'
    \<and> k < k' \<and> boundary k' \<and> (\<forall>j. k < j \<and> j < k' \<longrightarrow> ukey (E ! j) = ukey (E ! k))"
  using assms
proof (induction "length E - k" arbitrary: i k rule: less_induct)
  case less
  obtain s where s: "op_Next ops (it_iter i) = Some (s, fwd_entry E (Suc k))" "fwd_lands cur alive E s (Suc k)" using op_next [OF less.prems(1,2)] by blast
  obtain st where c: "call_iter (forward_steps InternalIterCall) (op_Next ops (it_iter i)) i = Some (moved i s (fwd_entry E (Suc k)) st)"
    using call_iter_moved(1) [OF s(1)] by blast
  show ?case
  proof (cases "Suc k < length E \<and> ukey (E ! Suc k) = ukey (E ! k)")
    case True
    then have f: "fwd_entry E (Suc k) = Some (E ! Suc k)" "cur s (Suc k)" "SeqNum (fst (E ! k)) \<noteq> 0"
      using s(2) seq_zero [of k "Suc k"] by (simp_all add: fwd_entry_def fwd_lands_def)
    then have n: "next_loop ops (SeqNum (fst (E ! k)) = 0) i = next_loop ops (SeqNum (fst (E ! Suc k)) = 0) (moved i s (Some (E ! Suc k)) st)"
      using c less.prems(3) True by (subst next_loop.simps) (simp add: ukey_def)
    have "\<exists>s' st' k'. next_loop ops (SeqNum (fst (E ! Suc k)) = 0) (moved i s (Some (E ! Suc k)) st) = Some (moved i s' (fwd_entry E k') st')
        \<and> fwd_lands cur alive E s' k' \<and> Suc k < k' \<and> boundary k' \<and> (\<forall>j. Suc k < j \<and> j < k' \<longrightarrow> ukey (E ! j) = ukey (E ! Suc k))"
      using less.hyps [of "Suc k" "moved i s (Some (E ! Suc k)) st"] f(2) True less.prems by (simp add: diff_less_mono2)
    then obtain s' st' k' where K: "next_loop ops (SeqNum (fst (E ! Suc k)) = 0) (moved i s (Some (E ! Suc k)) st) = Some (moved i s' (fwd_entry E k') st')"
        "fwd_lands cur alive E s' k'" "Suc k < k'" "boundary k'" "\<forall>j. Suc k < j \<and> j < k' \<longrightarrow> ukey (E ! j) = ukey (E ! Suc k)"
      by blast
    have "\<forall>j. k < j \<and> j < k' \<longrightarrow> ukey (E ! j) = ukey (E ! k)" using K(5) True by (metis Suc_lessI)
    then show ?thesis using K n by (intro exI [of _ s'] exI [of _ st'] exI [of _ k']) simp
  next
    case False
    have b: "boundary (Suc k)"
    proof (cases "Suc k < length E")
      case True
      then show ?thesis using False boundary_Suc by metis
    qed (use less.prems(2) in \<open>auto simp: boundary_def\<close>)
    have "next_loop ops (SeqNum (fst (E ! k)) = 0) i = Some (moved i s (fwd_entry E (Suc k)) st)"
      using c False less.prems(3) by (subst next_loop.simps) (auto simp: fwd_entry_def ukey_def)
    then show ?thesis using s(2) b by (intro exI [of _ s] exI [of _ st] exI [of _ "Suc k"]) auto
  qed
qed

lemma nextUserKey_ok:
  assumes "it_cur i = fwd_entry E k" and "k < length E" and "cur (it_iter i) k" and "it_validity i = IterValid \<Longrightarrow> it_key i = ukey (E ! k)"
  shows "\<exists>s st k'. nextUserKey ops i = Some (moved (i\<lparr>it_key := ukey (E ! k)\<rparr>) s (fwd_entry E k') st) \<and> fwd_lands cur alive E s k'
    \<and> k < k' \<and> boundary k' \<and> (\<forall>j. k < j \<and> j < k' \<longrightarrow> ukey (E ! j) = ukey (E ! k))"
proof -
  let ?i = "i\<lparr>it_key := ukey (E ! k)\<rparr>"
  have "it_validity i = IterValid \<Longrightarrow> ?i = i" using assms(4) by (metis Iterator.surjective Iterator.update_convs(5))
  then have "nextUserKey ops i = next_loop ops (SeqNum (fst (E ! k)) = 0) ?i"
    using assms(1,2) by (cases "it_validity i = IterValid") (simp_all add: nextUserKey_def fwd_entry_def ukey_def)
  then show ?thesis using next_loop_ok [of ?i k] assms(2,3) by simp
qed

text \<open>Where the versions of a key end.\<close>

lemma next_group_end:
  assumes "m < length E"
  shows "\<exists>k > m. boundary k \<and> (\<forall>j. m < j \<and> j < k \<longrightarrow> ukey (E ! j) = ukey (E ! m))"
  using assms
proof (induction "length E - m" arbitrary: m rule: less_induct)
  case less
  show ?case
  proof (cases "Suc m < length E \<and> ukey (E ! Suc m) = ukey (E ! m)")
    case True
    then obtain k where k: "k > Suc m" "boundary k" "\<forall>j. Suc m < j \<and> j < k \<longrightarrow> ukey (E ! j) = ukey (E ! Suc m)"
      using less.hyps [of "Suc m"] less.prems by (meson diff_less_mono2 lessI)
    then have "\<forall>j. m < j \<and> j < k \<longrightarrow> ukey (E ! j) = ukey (E ! m)" using True by (metis Suc_lessI)
    then show ?thesis using k by (intro exI [of _ k]) simp
  next
    case False
    have "boundary (Suc m)"
    proof (cases "Suc m < length E")
      case True
      then show ?thesis using False boundary_Suc by metis
    qed (use less.prems in \<open>auto simp: boundary_def\<close>)
    then show ?thesis by (intro exI [of _ "Suc m"]) auto
  qed
qed

lemma group_view:
  assumes "boundary k" and "k < length E" and "k < k'" and "boundary k'" and "\<forall>j. k < j \<and> j < k' \<longrightarrow> ukey (E ! j) = ukey (E ! k)"
  shows "view (drop k E) = (if Kind (fst (E ! k)) = InternalKeyKindSet then [pair_of (E ! k)] else []) @ view (drop k' E)"
    and "view (take k' E) = view (take k E) @ (if Kind (fst (E ! k)) = InternalKeyKindSet then [pair_of (E ! k)] else [])"
proof -
  have k': "k' \<le> length E" using assms(4) by (simp add: boundary_def)
  let ?G = "take (k' - Suc k) (drop (Suc k) E)"
  have d: "drop k E = (E ! k # ?G) @ drop k' E"
    using assms(2,3) k' Cons_nth_drop_Suc [OF assms(2)] append_take_drop_id [of "k' - Suc k" "drop (Suc k) E"] by (simp add: Suc_leI)
  have t: "take k' E = take k E @ (E ! k # ?G)"
  proof -
    have "take k' E = take (k + (k' - k)) E" using assms(3) by simp
    also have "\<dots> = take k E @ take (k' - k) (drop k E)" by (rule take_add)
    also have "take (k' - k) (drop k E) = E ! k # ?G" using Cons_nth_drop_Suc [OF assms(2), symmetric] assms(3) by (simp add: Suc_diff_Suc take_Cons')
    finally show ?thesis .
  qed
  have "ukey x = ukey (E ! k)" if x: "x \<in> set ?G" for x
  proof -
    obtain j where "j < length ?G" "x = ?G ! j" using x by (metis in_set_conv_nth)
    then have "j < k' - Suc k" "x = E ! (Suc k + j)" by auto
    then show ?thesis using assms(5) by simp
  qed
  then have g: "view (E ! k # ?G) = (if Kind (fst (E ! k)) = InternalKeyKindSet then [pair_of (E ! k)] else [])" by (intro view_group) blast
  have "\<forall>a \<in> set (E ! k # ?G). \<forall>b \<in> set (drop k' E). ukey a < ukey b"
    using boundary_split [OF assms(4)] t by auto
  then show "view (drop k E) = (if Kind (fst (E ! k)) = InternalKeyKindSet then [pair_of (E ! k)] else []) @ view (drop k' E)"
    unfolding d g [symmetric] by (rule view_append)
  have "\<forall>a \<in> set (take k E). \<forall>b \<in> set (E ! k # ?G). ukey a < ukey b"
    using boundary_split [OF assms(1)] d by auto
  then show "view (take k' E) = view (take k E) @ (if Kind (fst (E ! k)) = InternalKeyKindSet then [pair_of (E ! k)] else [])"
    unfolding t g [symmetric] by (rule view_append)
qed

text \<open>The states of the iterator for each position of the cursor.\<close>

definition rests :: "iterPos \<Rightarrow> 's Iterator \<Rightarrow> bool" where
  "rests pos i \<longleftrightarrow> it_pos i = pos \<and> it_validity i = IterExhausted \<and> it_cur i = None \<and> alive (it_iter i)"

definition stands :: "'s Iterator \<Rightarrow> bytes \<times> bytes \<Rightarrow> bool" where
  "stands i x \<longleftrightarrow> it_validity i = IterValid \<and> it_key i = fst x \<and> it_value i = snd x
     \<and> (\<exists>m < length E. boundary m \<and> Kind (fst (E ! m)) = InternalKeyKindSet \<and> x = pair_of (E ! m)
         \<and> (it_pos i = iterPosCurForward \<and> it_cur i = fwd_entry E m \<and> cur (it_iter i) m
            \<or> it_pos i = iterPosPrev \<and> it_cur i = bwd_entry E m \<and> bwd_lands cur alive E (it_iter i) m))"

definition placed :: "'s Iterator \<Rightarrow> cursor \<Rightarrow> bool" where
  "placed i c \<longleftrightarrow> (case c of Before \<Rightarrow> rests iterPosCurReverse i | After \<Rightarrow> rests iterPosCurForward i | At x \<Rightarrow> stands i x)"

text \<open>What searching for an entry leaves unchanged.\<close>

definition same_frame :: "'s Iterator \<Rightarrow> 's Iterator \<Rightarrow> bool" where
  "same_frame i i' \<longleftrightarrow> it_lower i' = it_lower i \<and> it_upper i' = it_upper i \<and> it_err i' = it_err i \<and> it_seekKey i' = it_seekKey i
     \<and> it_hasPrefix i' = it_hasPrefix i \<and> it_lastOp i' = it_lastOp i"

lemma next_entries_ok:
  assumes "it_cur i = fwd_entry E k" and "fwd_lands cur alive E (it_iter i) k" and "boundary k" and "\<not> it_hasPrefix i"
    and "it_validity i = IterExhausted" and "it_pos i = iterPosCurForward"
  shows "\<exists>i'. next_entries ops split i = Some i' \<and> placed i' (head_cur (view (drop k E))) \<and> same_frame i i'"
  using assms
proof (induction "length E - k" arbitrary: i k rule: less_induct)
  case less
  show ?case
  proof (cases "k < length E")
    case False
    then have "it_cur i = None" "alive (it_iter i)" "view (drop k E) = []" using less.prems by (simp_all add: fwd_entry_def fwd_lands_def view_def)
    then show ?thesis using less.prems by (subst next_entries.simps) (simp add: placed_def rests_def head_cur_def same_frame_def)
  next
    case True
    then have c: "it_cur i = Some (E ! k)" "cur (it_iter i) k" using less.prems by (simp_all add: fwd_entry_def fwd_lands_def)
    obtain s st k' where K: "nextUserKey ops i = Some (moved (i\<lparr>it_key := ukey (E ! k)\<rparr>) s (fwd_entry E k') st)" "fwd_lands cur alive E s k'"
        "k < k'" "boundary k'" "\<forall>j. k < j \<and> j < k' \<longrightarrow> ukey (E ! j) = ukey (E ! k)"
      using nextUserKey_ok [OF less.prems(1) True c(2)] less.prems(5) by auto
    note v = group_view(1) [OF less.prems(3) True K(3-5)]
    show ?thesis
    proof (cases "Kind (fst (E ! k)) = InternalKeyKindSet")
      case S: True
      then have "next_entries ops split i = Some (i\<lparr>it_key := ukey (E ! k), it_value := snd (E ! k), it_validity := IterValid\<rparr>)"
        using c less.prems(4) by (subst next_entries.simps) (simp add: ukey_def)
      moreover have "stands (i\<lparr>it_key := ukey (E ! k), it_value := snd (E ! k), it_validity := IterValid\<rparr>) (pair_of (E ! k))"
        unfolding stands_def using S True c less.prems(1,3,6) by (auto simp: pair_of_def ukey_def)
      ultimately show ?thesis using v S by (simp add: placed_def head_cur_def same_frame_def)
    next
      case D: False
      let ?i = "moved (i\<lparr>it_key := ukey (E ! k)\<rparr>) s (fwd_entry E k') st"
      have n: "next_entries ops split i = next_entries ops split ?i"
        using c K(1) D less.prems(4) by (subst next_entries.simps) simp
      have "length E - k' < length E - k" using True K(3) by (simp add: diff_less_mono2)
      from less.hyps [OF this, of ?i] K(2,4) less.prems obtain i'
        where i': "next_entries ops split ?i = Some i'" "placed i' (head_cur (view (drop k' E)))" "same_frame ?i i'"
        by auto
      then show ?thesis using n v D by (auto simp: same_frame_def)
    qed
  qed
qed

text \<open>Moving backward over the versions of one key.\<close>

lemma group_start:
  assumes "boundary k" and "0 < k"
  shows "\<exists>a < k. boundary a \<and> (\<forall>j. a < j \<and> j < k \<longrightarrow> ukey (E ! j) = ukey (E ! a))"
proof -
  let ?P = "\<lambda>a. a < k \<and> ukey (E ! a) = ukey (E ! (k - 1))"
  define a where "a = (LEAST a. ?P a)"
  have k: "k \<le> length E" using assms(1) by (simp add: boundary_def)
  have "?P (k - 1)" using assms(2) by simp
  then have a: "?P a" "\<And>b. ?P b \<Longrightarrow> a \<le> b" unfolding a_def by (metis (mono_tags, lifting) LeastI, metis (mono_tags, lifting) Least_le)
  have "ukey (E ! j) = ukey (E ! a)" if "a < j" "j < k" for j
    using ukey_mono [of a j] ukey_mono [of j "k - 1"] that a(1) k by fastforce
  moreover have "boundary a"
  proof (cases "a = 0")
    case False
    have "\<not> ?P (a - 1)" using a(2) [of "a - 1"] False by fastforce
    then have "ukey (E ! (a - 1)) \<noteq> ukey (E ! a)" using a(1) by auto
    moreover have "ukey (E ! (a - 1)) \<le> ukey (E ! a)" using a(1) k by (intro ukey_mono) auto
    ultimately have "ukey (E ! (a - 1)) < ukey (E ! a)" by simp
    then show ?thesis using a(1) k by (simp add: boundary_def)
  qed (simp add: boundary_def)
  ultimately show ?thesis using a(1) by blast
qed

lemma prev_group:
  assumes "a < j" and "j \<le> length E" and "\<forall>l. a \<le> l \<and> l < j \<longrightarrow> ukey (E ! l) = ukey (E ! a)"
    and "it_cur i = bwd_entry E j" and "bwd_lands cur alive E (it_iter i) j" and "it_validity i = IterValid \<Longrightarrow> it_key i = ukey (E ! a)"
  shows "\<exists>i'. prev_entries ops i = prev_entries ops i' \<and> it_cur i' = bwd_entry E a \<and> bwd_lands cur alive E (it_iter i') a \<and> same_frame i i'
    \<and> it_pos i' = it_pos i \<and> it_validity i' = (if Kind (fst (E ! a)) = InternalKeyKindSet then IterValid else IterExhausted)
    \<and> (it_validity i' = IterValid \<longrightarrow> it_key i' = ukey (E ! a) \<and> it_value i' = snd (E ! a))"
  using assms
proof (induction j arbitrary: i)
  case (Suc j)
  let ?e = "E ! j"
  have j: "j < length E" "it_cur i = Some ?e" "cur (it_iter i) j" using Suc.prems(2,4,5) by (simp_all add: bwd_entry_def bwd_lands_def)
  have key: "ukey ?e = ukey (E ! a)" using Suc.prems(1,3) by (metis less_Suc_eq_le lessI)
  obtain s where s: "op_Prev ops (it_iter i) = Some (s, bwd_entry E j)" "bwd_lands cur alive E s j" using op_prev [OF j(3,1)] by blast
  have w: "writable (fst ?e)" using kinds j(1) by simp
  have guard: "(it_validity i = IterValid \<and> UserKey (fst ?e) \<noteq> it_key i) = False" using Suc.prems(6) key by (auto simp: ukey_def)
  obtain b st where b: "prev_entries ops i = prev_entries ops (moved b s (bwd_entry E j) st)" "same_frame i b" "it_pos b = it_pos i"
      "it_validity b = (if Kind (fst ?e) = InternalKeyKindSet then IterValid else IterExhausted)" "it_validity b = IterValid \<Longrightarrow> it_key b = ukey (E ! a) \<and> it_value b = snd ?e"
  proof (cases "Kind (fst ?e) = InternalKeyKindSet")
    case True
    let ?b = "i\<lparr>it_key := ukey ?e, it_value := snd ?e, it_validity := IterValid\<rparr>"
    obtain st where st: "call_iter (reverse_steps InternalIterCall) (op_Prev ops (it_iter i)) ?b = Some (moved ?b s (bwd_entry E j) st)"
      using call_iter_moved(2) [OF s(1)] by blast
    have "prev_entries ops i = prev_entries ops (moved ?b s (bwd_entry E j) st)"
      using j(2) st True by (subst prev_entries.simps) (simp add: guard ukey_def)
    then show ?thesis using True key by (intro that [of ?b st]) (simp_all add: same_frame_def)
  next
    case False
    let ?b = "i\<lparr>it_value := [], it_validity := IterExhausted\<rparr>"
    obtain st where st: "call_iter (reverse_steps InternalIterCall) (op_Prev ops (it_iter i)) ?b = Some (moved ?b s (bwd_entry E j) st)"
      using call_iter_moved(2) [OF s(1)] by blast
    have "Kind (fst ?e) = InternalKeyKindDelete \<or> Kind (fst ?e) = InternalKeyKindPrefixDelete" using w False by (simp add: writable_def)
    then have "prev_entries ops i = prev_entries ops (moved ?b s (bwd_entry E j) st)"
      using j(2) st False by (subst prev_entries.simps) (simp add: guard)
    then show ?thesis using False by (intro that [of ?b st]) (simp_all add: same_frame_def)
  qed
  let ?i = "moved b s (bwd_entry E j) st"
  show ?case
  proof (cases "j = a")
    case True
    have "same_frame i ?i" "it_pos ?i = it_pos i" using b(2,3) by (simp_all add: same_frame_def)
    then show ?thesis using b(1,4,5) s(2) unfolding True by (intro exI [of _ "moved b s (bwd_entry E a) st"]) simp
  next
    case False
    then have 1: "a < j" "j \<le> length E" "\<forall>l. a \<le> l \<and> l < j \<longrightarrow> ukey (E ! l) = ukey (E ! a)" using False Suc.prems(1-3) by (simp, simp, metis less_SucI)
    have 2: "it_cur ?i = bwd_entry E j" "bwd_lands cur alive E (it_iter ?i) j" "it_validity ?i = IterValid \<Longrightarrow> it_key ?i = ukey (E ! a)"
      using s(2) b(5) by simp_all
    obtain i' where I: "prev_entries ops ?i = prev_entries ops i'" "it_cur i' = bwd_entry E a" "bwd_lands cur alive E (it_iter i') a" "same_frame ?i i'"
      "it_pos i' = it_pos ?i" "it_validity i' = (if Kind (fst (E ! a)) = InternalKeyKindSet then IterValid else IterExhausted)"
      "it_validity i' = IterValid \<longrightarrow> it_key i' = ukey (E ! a) \<and> it_value i' = snd (E ! a)"
      using Suc.IH [OF 1 2] by blast
    have "prev_entries ops i = prev_entries ops i'" "same_frame i i'" "it_pos i' = it_pos i"
      using b(1-3) I(1,4,5) by (simp_all add: same_frame_def)
    then show ?thesis using I(2,3,6,7) by blast
  qed
qed simp

lemma prev_entries_ok:
  assumes "it_cur i = bwd_entry E k" and "bwd_lands cur alive E (it_iter i) k" and "boundary k" and "it_err i = None"
    and "it_validity i = IterExhausted" and "it_pos i = iterPosCurReverse"
  shows "\<exists>i'. prev_entries ops i = Some i' \<and> placed i' (last_cur (view (take k E))) \<and> same_frame i i'"
  using assms
proof (induction k arbitrary: i rule: less_induct)
  case (less k)
  show ?case
  proof (cases "k = 0")
    case True
    then have "it_cur i = None" "alive (it_iter i)" "view (take k E) = []" using less.prems by (simp_all add: bwd_entry_def bwd_lands_def view_def)
    then show ?thesis using less.prems by (subst prev_entries.simps) (simp add: placed_def rests_def last_cur_def same_frame_def)
  next
    case False
    then obtain a where a: "a < k" "boundary a" "\<forall>j. a < j \<and> j < k \<longrightarrow> ukey (E ! j) = ukey (E ! a)" using group_start [OF less.prems(3)] by blast
    have k: "k \<le> length E" using less.prems(3) by (simp add: boundary_def)
    have "\<forall>l. a \<le> l \<and> l < k \<longrightarrow> ukey (E ! l) = ukey (E ! a)" using a(3) by (metis le_neq_implies_less)
    from prev_group [OF a(1) k this less.prems(1,2)] less.prems(5) obtain i' where
      I: "prev_entries ops i = prev_entries ops i'" "it_cur i' = bwd_entry E a" "bwd_lands cur alive E (it_iter i') a" "same_frame i i'"
        "it_pos i' = it_pos i" "it_validity i' = (if Kind (fst (E ! a)) = InternalKeyKindSet then IterValid else IterExhausted)"
        "it_validity i' = IterValid \<longrightarrow> it_key i' = ukey (E ! a) \<and> it_value i' = snd (E ! a)"
      by auto
    have al: "a < length E" using a(1) k by simp
    note v = group_view(2) [OF a(2) al a(1) less.prems(3) a(3)]
    have err: "it_err i' = None" using I(4) less.prems(4) by (simp add: same_frame_def)
    show ?thesis
    proof (cases "Kind (fst (E ! a)) = InternalKeyKindSet")
      case True
      have b: "0 < a \<Longrightarrow> ukey (E ! (a - 1)) < ukey (E ! a)" using a(2) al by (simp add: boundary_def)
      have "prev_entries ops i' = Some (i'\<lparr>it_pos := iterPosPrev\<rparr>)"
        using I(2,6,7) True err b by (subst prev_entries.simps) (auto simp: at_prev_def bwd_entry_def ukey_def Let_def)
      moreover have "stands (i'\<lparr>it_pos := iterPosPrev\<rparr>) (pair_of (E ! a))"
        unfolding stands_def using True I(2,3,6,7) a(2) al by (auto simp: pair_of_def ukey_def)
      ultimately show ?thesis using I(1,4) v True by (simp add: placed_def last_cur_def same_frame_def)
    next
      case D: False
      from less.IH [OF a(1) I(2,3) a(2) err] I(5,6) D less.prems(6) obtain i''
        where "prev_entries ops i' = Some i''" "placed i'' (last_cur (view (take a E)))" "same_frame i' i''" by auto
      then show ?thesis using I(1,4) v D by (auto simp: same_frame_def)
    qed
  qed
qed

lemma find_next:
  assumes "it_cur i = fwd_entry E k" and "fwd_lands cur alive E (it_iter i) k" and "boundary k" and "\<not> it_hasPrefix i"
  shows "\<exists>i'. it_findNextEntry ops split i = Some i' \<and> placed i' (head_cur (view (drop k E))) \<and> same_frame i i'"
  using next_entries_ok [of "i\<lparr>it_validity := IterExhausted, it_pos := iterPosCurForward\<rparr>" k split] assms
  by (simp add: it_findNextEntry_def same_frame_def)

lemma find_prev:
  assumes "it_cur i = bwd_entry E k" and "bwd_lands cur alive E (it_iter i) k" and "boundary k" and "it_err i = None"
  shows "\<exists>i'. it_findPrevEntry ops i = Some i' \<and> placed i' (last_cur (view (take k E))) \<and> same_frame i i'"
  using prev_entries_ok [of "i\<lparr>it_validity := IterExhausted, it_pos := iterPosCurReverse\<rparr>" k] assms
  by (simp add: it_findPrevEntry_def same_frame_def)

lemma boundary_ends: "boundary 0" "boundary (length E)"
  by (simp_all add: boundary_def)

text \<open>The places of the cursor in the view.\<close>

lemma view_place:
  "view (drop (place_of E key) E) = dropWhile (\<lambda>x. fst x < key) (view E)" "view (take (place_of E key) E) = takeWhile (\<lambda>x. fst x < key) (view E)"
proof -
  let ?k = "place_of E key"
  have "\<forall>x \<in> set (view (take ?k E)). fst x < key"
  proof
    fix x assume "x \<in> set (view (take ?k E))"
    then obtain e where "e \<in> set (take ?k E)" "fst x = ukey e" using view_keys by blast
    then show "fst x < key" using place_boundary(2) [of _ key] by (auto simp: in_set_conv_nth)
  qed
  moreover have "\<forall>x \<in> set (view (drop ?k E)). \<not> fst x < key"
  proof
    fix x assume "x \<in> set (view (drop ?k E))"
    then obtain e where "e \<in> set (drop ?k E)" "fst x = ukey e" using view_keys by blast
    moreover from this obtain j where "j < length (drop ?k E)" "e = drop ?k E ! j" by (metis in_set_conv_nth)
    ultimately show "\<not> fst x < key" using place_boundary(3) [of key "?k + j"] by (auto simp: not_less)
  qed
  ultimately show "view (drop ?k E) = dropWhile (\<lambda>x. fst x < key) (view E)" "view (take ?k E) = takeWhile (\<lambda>x. fst x < key) (view E)"
    using view_split [OF place_boundary(1), of key] while_split [of "view (take ?k E)" "\<lambda>x. fst x < key" "view (drop ?k E)"] by simp_all
qed

lemma view_around:
  assumes "boundary m" and "m < length E" and "Kind (fst (E ! m)) = InternalKeyKindSet" and "m < k" and "boundary k"
    and "\<forall>j. m < j \<and> j < k \<longrightarrow> ukey (E ! j) = ukey (E ! m)"
  shows "dropWhile (\<lambda>y. fst y \<le> ukey (E ! m)) (view E) = view (drop k E)" "takeWhile (\<lambda>y. fst y < ukey (E ! m)) (view E) = view (take m E)"
proof -
  have v: "view E = view (take m E) @ pair_of (E ! m) # view (drop k E)"
    using view_split [OF assms(1)] group_view(1) [OF assms(1,2,4-6)] assms(3) by simp
  have "\<forall>x \<in> set (view (take m E)). fst x < ukey (E ! m)"
  proof
    fix x assume "x \<in> set (view (take m E))"
    then obtain e where "e \<in> set (take m E)" "fst x = ukey e" using view_keys by blast
    then show "fst x < ukey (E ! m)" using boundary_split [OF assms(1), of e "E ! m"] assms(2) Cons_nth_drop_Suc [OF assms(2)] by (metis list.set_intros(1))
  qed
  moreover have "\<forall>x \<in> set (view (drop k E)). ukey (E ! m) < fst x"
  proof
    fix x assume "x \<in> set (view (drop k E))"
    then obtain e where "e \<in> set (drop k E)" "fst x = ukey e" using view_keys by blast
    moreover have "E ! m \<in> set (take k E)" using assms(2,4) by (metis in_set_conv_nth length_take min_less_iff_conj nth_take)
    ultimately show "ukey (E ! m) < fst x" using boundary_split [OF assms(5)] by simp
  qed
  moreover have "fst (pair_of (E ! m)) = ukey (E ! m)" by (simp add: pair_of_def ukey_def)
  ultimately have
    "dropWhile (\<lambda>y. fst y \<le> ukey (E ! m)) ((view (take m E) @ [pair_of (E ! m)]) @ view (drop k E)) = view (drop k E)"
    "takeWhile (\<lambda>y. fst y < ukey (E ! m)) (view (take m E) @ (pair_of (E ! m) # view (drop k E))) = view (take m E)"
    by (intro while_split; auto simp: not_le not_less intro: less_imp_le)+
  then show "dropWhile (\<lambda>y. fst y \<le> ukey (E ! m)) (view E) = view (drop k E)" "takeWhile (\<lambda>y. fst y < ukey (E ! m)) (view E) = view (take m E)"
    unfolding v by simp_all
qed

text \<open>The bounds enclose the entries.\<close>

definition in_bounds :: "'s Iterator \<Rightarrow> bool" where
  "in_bounds i \<longleftrightarrow> (\<forall>l. it_lower i = Some l \<longrightarrow> (\<forall>e \<in> set E. l \<le> ukey e)) \<and> (\<forall>u. it_upper i = Some u \<longrightarrow> (\<forall>e \<in> set E. ukey e < u))"

lemma to_first_ok:
  assumes "in_bounds i" and "alive (it_iter i)"
  shows "\<exists>s st. to_first ops i = Some (moved i s (fwd_entry E 0) st) \<and> fwd_lands cur alive E s 0"
proof (cases "it_lower i")
  case None
  obtain s where "op_First ops (it_iter i) = Some (s, fwd_entry E 0)" "fwd_lands cur alive E s 0" using op_first [OF assms(2)] by blast
  then show ?thesis using None call_iter_moved(3) [of "op_First ops (it_iter i)"] by (fastforce simp: to_first_def)
next
  case (Some l)
  have p: "place_of E l = 0" using assms(1) Some unfolding place_of_def in_bounds_def by (auto simp: takeWhile_eq_Nil_iff not_less dest: hd_in_set)
  obtain s where "op_SeekGE ops (it_iter i) l = Some (s, fwd_entry E 0)" "fwd_lands cur alive E s 0" using op_seekGE [OF assms(2), of l] p by auto
  then show ?thesis using Some call_iter_moved(3) [of "op_SeekGE ops (it_iter i) l"] by (fastforce simp: to_first_def)
qed

lemma to_last_ok:
  assumes "in_bounds i" and "alive (it_iter i)"
  shows "\<exists>s st. to_last ops i = Some (moved i s (bwd_entry E (length E)) st) \<and> bwd_lands cur alive E s (length E)"
proof (cases "it_upper i")
  case None
  obtain s where "op_Last ops (it_iter i) = Some (s, bwd_entry E (length E))" "bwd_lands cur alive E s (length E)" using op_last [OF assms(2)] by blast
  then show ?thesis using None call_iter_moved(4) [of "op_Last ops (it_iter i)"] by (fastforce simp: to_last_def)
next
  case (Some u)
  have "takeWhile (\<lambda>e. ukey e < u) E = E" using assms(1) Some by (simp add: in_bounds_def takeWhile_eq_all_conv)
  then have p: "place_of E u = length E" unfolding place_of_def by (rule arg_cong)
  obtain s where "op_SeekLT ops (it_iter i) u = Some (s, bwd_entry E (length E))" "bwd_lands cur alive E s (length E)" using op_seekLT [OF assms(2), of u] p by auto
  then show ?thesis using Some call_iter_moved(4) [of "op_SeekLT ops (it_iter i) u"] by (fastforce simp: to_last_def)
qed

lemma placed_alive: "placed i c \<Longrightarrow> alive (it_iter i)"
  by (auto simp: placed_def rests_def stands_def cur_alive lands_alive split: cursor.splits)

text \<open>The iterator at a position of the cursor; after a seek it remembers the key.\<close>

definition good :: "'s Iterator \<Rightarrow> cursor \<Rightarrow> bool" where
  "good i c \<longleftrightarrow> it_err i = None \<and> \<not> it_hasPrefix i \<and> in_bounds i \<and> placed i c
     \<and> (it_lastOp i = seekGELastPositioningOp \<longrightarrow> c = head_cur (dropWhile (\<lambda>x. fst x < it_seekKey i) (view E)))
     \<and> (it_lastOp i = seekLTLastPositioningOp \<longrightarrow> c = last_cur (takeWhile (\<lambda>x. fst x < it_seekKey i) (view E)))"

text \<open>A prepared iterator: ready to search, with nothing remembered.\<close>

definition ready :: "'s Iterator \<Rightarrow> bool" where
  "ready i \<longleftrightarrow> it_err i = None \<and> \<not> it_hasPrefix i \<and> in_bounds i \<and> it_lastOp i = unknownLastPositionOp"

lemma ready_moved [simp]: "ready (moved i s e st) = ready i" "ready (i\<lparr>it_key := key\<rparr>) = ready i" "ready (i\<lparr>it_validity := v\<rparr>) = ready i"
  "in_bounds (moved i s e st) = in_bounds i"
  by (auto simp: ready_def in_bounds_def)

lemma goes_next:
  assumes "ready i" and "it_cur i = fwd_entry E k" and "fwd_lands cur alive E (it_iter i) k" and "boundary k"
  shows "\<exists>i'. it_findNextEntry ops split i = Some i' \<and> good i' (head_cur (view (drop k E)))"
  using find_next [OF assms(2-4), of split] assms(1) by (auto simp: ready_def good_def same_frame_def in_bounds_def)

lemma goes_prev:
  assumes "ready i" and "it_cur i = bwd_entry E k" and "bwd_lands cur alive E (it_iter i) k" and "boundary k"
  shows "\<exists>i'. it_findPrevEntry ops i = Some i' \<and> good i' (last_cur (view (take k E)))"
  using find_prev [OF assms(2-4)] assms(1) by (auto simp: ready_def good_def same_frame_def in_bounds_def)

lemma next_group:
  assumes "it_cur i = fwd_entry E m" and "cur (it_iter i) m" and "m < length E" and "boundary m" and "ready i"
    and "it_validity i = IterValid \<Longrightarrow> it_key i = ukey (E ! m)" and "Kind (fst (E ! m)) = InternalKeyKindSet"
  shows "\<exists>i'. Option.bind (nextUserKey ops i) (it_findNextEntry ops split) = Some i' \<and> good i' (head_cur (dropWhile (\<lambda>y. fst y \<le> ukey (E ! m)) (view E)))"
proof -
  obtain s st k where K: "nextUserKey ops i = Some (moved (i\<lparr>it_key := ukey (E ! m)\<rparr>) s (fwd_entry E k) st)" "fwd_lands cur alive E s k"
      "m < k" "boundary k" "\<forall>j. m < j \<and> j < k \<longrightarrow> ukey (E ! j) = ukey (E ! m)"
    using nextUserKey_ok [OF assms(1,3,2,6)] by blast
  show ?thesis
    using goes_next [of "moved (i\<lparr>it_key := ukey (E ! m)\<rparr>) s (fwd_entry E k) st" k split] K assms(5) view_around(1) [OF assms(4,3,7) K(3-5)] by simp
qed

text \<open>From a place after a backward search, the first step forward comes to the key shown.\<close>

lemma next_to_shown:
  assumes "it_cur i = bwd_entry E m" and "bwd_lands cur alive E (it_iter i) m" and "m < length E" and "boundary m" and "ready i" and "it_validity i = IterExhausted"
  shows "\<exists>i'. (if it_cur i = None then to_first ops i else nextUserKey ops i) = Some i' \<and> it_cur i' = fwd_entry E m \<and> cur (it_iter i') m
    \<and> ready i' \<and> it_validity i' = IterExhausted"
proof (cases "m = 0")
  case True
  have "alive (it_iter i)" "in_bounds i" using assms(2,5) lands_alive by (auto simp: ready_def)
  then obtain s st where "to_first ops i = Some (moved i s (fwd_entry E 0) st)" "fwd_lands cur alive E s 0" using to_first_ok by blast
  then show ?thesis using True assms by (simp add: bwd_entry_def fwd_lands_def)
next
  case False
  then have m: "m - 1 < length E" "it_cur i = fwd_entry E (m - 1)" "cur (it_iter i) (m - 1)" "it_cur i \<noteq> None"
    using assms(1-3) by (simp_all add: bwd_entry_def bwd_lands_def fwd_entry_def)
  obtain s st k where K: "nextUserKey ops i = Some (moved (i\<lparr>it_key := ukey (E ! (m - 1))\<rparr>) s (fwd_entry E k) st)" "fwd_lands cur alive E s k"
      "m - 1 < k" "\<forall>j. m - 1 < j \<and> j < k \<longrightarrow> ukey (E ! j) = ukey (E ! (m - 1))"
    using nextUserKey_ok [OF m(2,1,3)] assms(6) by auto
  have "ukey (E ! (m - 1)) < ukey (E ! m)" using assms(3,4) False by (simp add: boundary_def)
  then have "\<not> m < k" using K(4) False by (metis diff_less less_irrefl less_one not_gr_zero)
  then have "k = m" using K(3) by linarith
  then show ?thesis unfolding if_not_P [OF m(4)] using K(1,2) assms(3,5,6) by (simp add: fwd_lands_def)
qed

lemma prev_step:
  assumes "it_cur i = fwd_entry E m" and "cur (it_iter i) m" and "m < length E" and "boundary m" and "it_validity i = IterExhausted"
  shows "\<exists>s st. prevUserKey ops i = Some (moved (i\<lparr>it_key := ukey (E ! m)\<rparr>) s (bwd_entry E m) st) \<and> bwd_lands cur alive E s m"
proof -
  let ?i = "i\<lparr>it_key := ukey (E ! m)\<rparr>"
  obtain s where s: "op_Prev ops (it_iter i) = Some (s, bwd_entry E m)" "bwd_lands cur alive E s m" using op_prev [OF assms(2,3)] by blast
  obtain st where c: "call_iter (reverse_steps InternalIterCall) (op_Prev ops (it_iter i)) ?i = Some (moved ?i s (bwd_entry E m) st)"
    using call_iter_moved(2) [OF s(1)] by blast
  have "0 < m \<Longrightarrow> ukey (E ! (m - 1)) < ukey (E ! m)" using assms(3,4) by (simp add: boundary_def)
  then have "prev_loop ops ?i = Some (moved ?i s (bwd_entry E m) st)" using c by (subst prev_loop.simps) (auto simp: bwd_entry_def ukey_def)
  moreover have "prevUserKey ops i = prev_loop ops ?i" using assms(1,3,5) by (simp add: prevUserKey_def fwd_entry_def ukey_def)
  ultimately show ?thesis using s(2) by auto
qed

lemmas count_defs = forward_seeks_def reverse_seeks_def forward_steps_def reverse_steps_def

lemma good_alive: "good i c \<Longrightarrow> alive (it_iter i)"
  by (auto simp: good_def placed_alive)

lemma call_First:
  assumes "good i c"
  shows "\<exists>i'. it_First ops split i = Some i' \<and> good i' (head_cur (view E))"
proof -
  let ?j = "forward_seeks InterfaceCall (i\<lparr>it_err := None, it_hasPrefix := False, it_lastOp := unknownLastPositionOp\<rparr>)"
  have r: "ready ?j" "alive (it_iter ?j)" using assms good_alive [OF assms] by (simp_all add: good_def ready_def in_bounds_def count_defs)
  then obtain s st where t: "to_first ops ?j = Some (moved ?j s (fwd_entry E 0) st)" "fwd_lands cur alive E s 0"
    using to_first_ok [of ?j] by (auto simp: ready_def)
  then show ?thesis using goes_next [of "moved ?j s (fwd_entry E 0) st" 0 split] r(1) boundary_ends by (simp add: it_First_def)
qed

lemma call_Last:
  assumes "good i c"
  shows "\<exists>i'. it_Last ops i = Some i' \<and> good i' (last_cur (view E))"
proof -
  let ?j = "reverse_seeks InterfaceCall (i\<lparr>it_err := None, it_hasPrefix := False, it_lastOp := unknownLastPositionOp\<rparr>)"
  have r: "ready ?j" "alive (it_iter ?j)" using assms good_alive [OF assms] by (simp_all add: good_def ready_def in_bounds_def count_defs)
  then obtain s st where t: "to_last ops ?j = Some (moved ?j s (bwd_entry E (length E)) st)" "bwd_lands cur alive E s (length E)"
    using to_last_ok [of ?j] by (auto simp: ready_def)
  then show ?thesis using goes_prev [of "moved ?j s (bwd_entry E (length E)) st" "length E"] r(1) boundary_ends by (simp add: it_Last_def)
qed

lemma call_Next:
  assumes "good i c"
  shows "\<exists>i'. it_Next ops split i = Some i' \<and> good i' (cursor_call (view E) CNext c)"
proof -
  let ?j = "(forward_steps InterfaceCall i)\<lparr>it_lastOp := unknownLastPositionOp\<rparr>"
  have r: "ready ?j" and p: "placed ?j c" and al: "alive (it_iter ?j)" and e: "it_err (forward_steps InterfaceCall i) = None"
    using assms good_alive [OF assms] by (auto simp: good_def ready_def in_bounds_def placed_def rests_def stands_def count_defs split: cursor.splits)
  have N: "it_Next ops split i = (case it_pos ?j of
        iterPosCurForward \<Rightarrow> Option.bind (nextUserKey ops ?j) (it_findNextEntry ops split)
      | iterPosCurReverse \<Rightarrow> if it_cur ?j \<noteq> None then Some (?j\<lparr>it_err := Some ErrNotAtPrev, it_validity := IterExhausted\<rparr>)
          else Option.bind (to_first ops ?j) (it_findNextEntry ops split)
      | iterPosPrev \<Rightarrow> let i = ?j\<lparr>it_validity := IterExhausted\<rparr> in
          Option.bind (if it_cur i = None then to_first ops i else nextUserKey ops i) (\<lambda>i. Option.bind (nextUserKey ops i) (it_findNextEntry ops split))
      | _ \<Rightarrow> it_Next ops split i)"
    using e by (auto simp: it_Next_def Let_def split: iterPos.splits)
  show ?thesis
  proof (cases c)
    case Before
    then have q: "it_pos ?j = iterPosCurReverse" "it_cur ?j = None" using p by (simp_all add: placed_def rests_def)
    obtain s st where t: "to_first ops ?j = Some (moved ?j s (fwd_entry E 0) st)" "fwd_lands cur alive E s 0"
      using to_first_ok [of ?j] r al by (auto simp: ready_def)
    then show ?thesis using N q goes_next [of "moved ?j s (fwd_entry E 0) st" 0 split] r boundary_ends Before by simp
  next
    case After
    then have q: "it_pos ?j = iterPosCurForward" "it_cur ?j = None" using p by (simp_all add: placed_def rests_def)
    have "nextUserKey ops ?j = Some ?j" using q(2) by (simp add: nextUserKey_def)
    moreover have "view (drop (length E) E) = []" by (simp add: view_def)
    ultimately show ?thesis
      using N q goes_next [of ?j "length E" split] r al boundary_ends After by (simp add: fwd_entry_def fwd_lands_def head_cur_def)
  next
    case (At x)
    then obtain m where m: "m < length E" "boundary m" "Kind (fst (E ! m)) = InternalKeyKindSet" "x = pair_of (E ! m)"
        "it_pos ?j = iterPosCurForward \<and> it_cur ?j = fwd_entry E m \<and> cur (it_iter ?j) m
         \<or> it_pos ?j = iterPosPrev \<and> it_cur ?j = bwd_entry E m \<and> bwd_lands cur alive E (it_iter ?j) m"
        "it_key ?j = fst x"
      using p by (auto simp: placed_def stands_def)
    have x: "fst x = ukey (E ! m)" using m(4) by (simp add: pair_of_def ukey_def)
    show ?thesis
      using m(5)
    proof
      assume q: "it_pos ?j = iterPosCurForward \<and> it_cur ?j = fwd_entry E m \<and> cur (it_iter ?j) m"
      then show ?thesis using next_group [of ?j m split] m(1-3,6) r x N At by simp
    next
      assume q: "it_pos ?j = iterPosPrev \<and> it_cur ?j = bwd_entry E m \<and> bwd_lands cur alive E (it_iter ?j) m"
      let ?k = "?j\<lparr>it_validity := IterExhausted\<rparr>"
      obtain i' where i': "(if it_cur ?k = None then to_first ops ?k else nextUserKey ops ?k) = Some i'" "it_cur i' = fwd_entry E m" "cur (it_iter i') m"
          "ready i'" "it_validity i' = IterExhausted"
        using next_to_shown [of ?k m] q m(1,2) r by auto
      have "it_Next ops split i = Option.bind (nextUserKey ops i') (it_findNextEntry ops split)" using N q i'(1) by (simp add: Let_def)
      then show ?thesis using next_group [OF i'(2,3) m(1,2) i'(4)] i'(5) m(3) x At by simp
    qed
  qed
qed

lemma call_Prev:
  assumes "good i c"
  shows "\<exists>i'. it_Prev ops i = Some i' \<and> good i' (cursor_call (view E) CPrev c)"
proof -
  let ?j = "(reverse_steps InterfaceCall i)\<lparr>it_lastOp := unknownLastPositionOp\<rparr>" and ?k = "(reverse_steps InterfaceCall i)\<lparr>it_lastOp := unknownLastPositionOp, it_validity := IterExhausted\<rparr>"
  have r: "ready ?j" "ready ?k" and p: "placed ?j c" and al: "alive (it_iter ?j)" and e: "it_err (reverse_steps InterfaceCall i) = None" "\<not> it_hasPrefix ?j"
    using assms good_alive [OF assms] by (auto simp: good_def ready_def in_bounds_def placed_def rests_def stands_def count_defs split: cursor.splits)
  show ?thesis
  proof (cases c)
    case Before
    then have q: "it_pos ?j = iterPosCurReverse" "it_cur ?j = None" using p by (simp_all add: placed_def rests_def)
    have "prevUserKey ops ?j = Some ?j" using q(2) by (simp add: prevUserKey_def)
    then have "it_Prev ops i = it_findPrevEntry ops ?j" using q e by (simp add: it_Prev_def Let_def)
    moreover have "view (take 0 E) = []" by (simp add: view_def)
    ultimately show ?thesis using goes_prev [of ?j 0] q(2) r al boundary_ends Before by (simp add: bwd_entry_def bwd_lands_def last_cur_def)
  next
    case After
    then have q: "it_pos ?j = iterPosCurForward" "it_cur ?j = None" using p by (simp_all add: placed_def rests_def)
    obtain s st where t: "to_last ops ?k = Some (moved ?k s (bwd_entry E (length E)) st)" "bwd_lands cur alive E s (length E)"
      using to_last_ok [of ?k] r(2) al by (auto simp: ready_def)
    then have "it_Prev ops i = it_findPrevEntry ops (moved ?k s (bwd_entry E (length E)) st)" using q e by (simp add: it_Prev_def Let_def)
    then show ?thesis using goes_prev [of "moved ?k s (bwd_entry E (length E)) st" "length E"] t(2) r(2) boundary_ends After by simp
  next
    case (At x)
    then obtain m where m: "m < length E" "boundary m" "Kind (fst (E ! m)) = InternalKeyKindSet" "x = pair_of (E ! m)"
        "it_pos ?j = iterPosCurForward \<and> it_cur ?j = fwd_entry E m \<and> cur (it_iter ?j) m
         \<or> it_pos ?j = iterPosPrev \<and> it_cur ?j = bwd_entry E m \<and> bwd_lands cur alive E (it_iter ?j) m"
      using p by (auto simp: placed_def stands_def)
    have x: "fst x = ukey (E ! m)" using m(4) by (simp add: pair_of_def ukey_def)
    obtain k where "m < k" "boundary k" "\<forall>j. m < j \<and> j < k \<longrightarrow> ukey (E ! j) = ukey (E ! m)"
      using next_group_end [OF m(1)] by blast
    then have v: "view (take m E) = takeWhile (\<lambda>y. fst y < fst x) (view E)" using view_around(2) [OF m(2,1,3)] x by simp
    show ?thesis
      using m(5)
    proof
      assume q: "it_pos ?j = iterPosCurForward \<and> it_cur ?j = fwd_entry E m \<and> cur (it_iter ?j) m"
      obtain s st where t: "prevUserKey ops ?k = Some (moved (?k\<lparr>it_key := ukey (E ! m)\<rparr>) s (bwd_entry E m) st)" "bwd_lands cur alive E s m"
        using prev_step [of ?k m] q m(1,2) by auto
      have "it_Prev ops i = it_findPrevEntry ops (moved (?k\<lparr>it_key := ukey (E ! m)\<rparr>) s (bwd_entry E m) st)"
        using q e t(1) m(1) by (simp add: it_Prev_def Let_def fwd_entry_def)
      then show ?thesis using goes_prev [of "moved (?k\<lparr>it_key := ukey (E ! m)\<rparr>) s (bwd_entry E m) st" m] t(2) r(2) m(2) v At by simp
    next
      assume q: "it_pos ?j = iterPosPrev \<and> it_cur ?j = bwd_entry E m \<and> bwd_lands cur alive E (it_iter ?j) m"
      then have "it_Prev ops i = it_findPrevEntry ops ?j" using e by (simp add: it_Prev_def Let_def)
      then show ?thesis using goes_prev [of ?j m] q r(1) m(2) v At by simp
    qed
  qed
qed

end

end
