(* ===== verification/Iter_Refine.thy ===== *)
theory Iter_Refine
  imports Iter_Cursor
begin

text \<open>
  The seeking calls of the iterator, its refinement of a cursor over an ordered map, and the flushable batches (\<^verbatim>\<open>batch.go\<close>) as internal
  iterators that keep the contract.
\<close>

fun cursor_pair :: "cursor \<Rightarrow> (bytes \<times> bytes) option" where
  "cursor_pair (At x) = Some x"
| "cursor_pair c = None"

text \<open>What a caller sees of the iterator.\<close>

definition shown :: "'s Iterator \<Rightarrow> (bytes \<times> bytes) option" where
  "shown i = (if it_Valid i then Some (it_key i, it_value i) else None)"

primrec iterator_calls :: "'s iter_ops \<Rightarrow> (bytes \<Rightarrow> nat) \<Rightarrow> iter_call list \<Rightarrow> 's Iterator \<Rightarrow> 's Iterator option" where
  "iterator_calls ops split [] i = Some i"
| "iterator_calls ops split (call # calls) i = Option.bind (iterator_call ops split call i) (iterator_calls ops split calls)"

definition within :: "bytes option \<Rightarrow> bytes option \<Rightarrow> bytes \<Rightarrow> bool" where
  "within lower upper k \<longleftrightarrow> (case lower of None \<Rightarrow> True | Some l \<Rightarrow> l \<le> k) \<and> (case upper of None \<Rightarrow> True | Some u \<Rightarrow> k < u)"

lemma bytes_Compare_signs:
  "bytes_Compare a b < 0 \<longleftrightarrow> a < b" "bytes_Compare a b \<le> 0 \<longleftrightarrow> a \<le> b" "0 < bytes_Compare a b \<longleftrightarrow> b < a"
  by (auto simp: bytes_Compare_iff)

text \<open>Clamping a key to bounds that enclose \<open>k\<close> does not change its order with \<open>k\<close>.\<close>

lemma clamp_less:
  assumes "\<And>l. it_lower i = Some l \<Longrightarrow> l \<le> k" and "\<And>u. it_upper i = Some u \<Longrightarrow> k < u"
  shows "k < clamp_low_high bytes_Compare i key \<longleftrightarrow> k < key" "k < clamp_high_low bytes_Compare i key \<longleftrightarrow> k < key"
proof -
  have l: "k < l \<longleftrightarrow> k < key" if "it_lower i = Some l" "key < l" for l using assms(1) [OF that(1)] that(2) by auto
  have u: "k < u \<longleftrightarrow> k < key" if "it_upper i = Some u" "u < key" for u using assms(2) [OF that(1)] that(2) by auto
  show "k < clamp_low_high bytes_Compare i key \<longleftrightarrow> k < key" "k < clamp_high_low bytes_Compare i key \<longleftrightarrow> k < key"
    using l u by (auto simp: clamp_low_high_def clamp_high_low_def bytes_Compare_signs)
qed

lemma takeWhile_again:
  assumes "sorted_wrt (<) (map fst V)" and "key \<le> (old :: bytes)"
    and "takeWhile (\<lambda>x. fst x < old) V \<noteq> [] \<Longrightarrow> fst (last (takeWhile (\<lambda>x. fst x < old) V)) < key"
  shows "takeWhile (\<lambda>x. fst x < key) V = takeWhile (\<lambda>x. fst x < old) V"
  using assms(1,3)
proof (induction V)
  case (Cons x V)
  let ?T = "takeWhile (\<lambda>x. fst x < old) V"
  show ?case
  proof (cases "fst x < old")
    case True
    have T: "?T \<noteq> [] \<Longrightarrow> fst x < fst (last ?T)" using Cons.prems(1) by (auto dest!: last_in_set set_takeWhileD)
    have "?T \<noteq> [] \<Longrightarrow> fst (last ?T) < key" using Cons.prems(2) True by simp
    moreover from this have "fst x < key" using Cons.prems(2) True T by (cases "?T = []") auto
    ultimately show ?thesis using Cons.IH Cons.prems(1) True by simp
  next
    case False
    then have "\<not> fst x < key" using assms(2) by auto
    then show ?thesis using False by simp
  qed
qed simp

lemma last_cur_last: "V \<noteq> [] \<Longrightarrow> last_cur V = At (last V)"
  by (cases V rule: rev_cases) (auto simp: last_cur_def)

context entry_cursor
begin

text \<open>Seeking.\<close>

lemma view_sorted: "sorted_wrt (<) (map fst (view E))"
proof -
  have "sorted_wrt (\<lambda>a b. UserKey (fst a) < UserKey (fst b)) (newest bytes_Compare E)" using newest_spec [OF sorted] by blast
  then have "sorted_wrt (\<lambda>a b. UserKey (fst a) < UserKey (fst b)) (filter (\<lambda>e. Kind (fst e) = InternalKeyKindSet) (newest bytes_Compare E))"
    by (rule sorted_wrt_filter)
  then show ?thesis by (simp add: view_def sorted_wrt_map pair_of_def comp_def)
qed

lemma clamp_view:
  assumes "in_bounds i"
  shows "dropWhile (\<lambda>x. fst x < clamp_low_high bytes_Compare i key) (view E) = dropWhile (\<lambda>x. fst x < key) (view E)"
    and "takeWhile (\<lambda>x. fst x < clamp_high_low bytes_Compare i key) (view E) = takeWhile (\<lambda>x. fst x < key) (view E)"
proof -
  have "l \<le> fst x" if "x \<in> set (view E)" "it_lower i = Some l" for x l using view_keys [OF that(1)] that(2) assms by (auto simp: in_bounds_def)
  moreover have "fst x < u" if "x \<in> set (view E)" "it_upper i = Some u" for x u using view_keys [OF that(1)] that(2) assms by (auto simp: in_bounds_def)
  ultimately have c: "(fst x < clamp_low_high bytes_Compare i key) = (fst x < key)" "(fst x < clamp_high_low bytes_Compare i key) = (fst x < key)"
    if "x \<in> set (view E)" for x
    using clamp_less [of i "fst x" key] that by blast+
  show "dropWhile (\<lambda>x. fst x < clamp_low_high bytes_Compare i key) (view E) = dropWhile (\<lambda>x. fst x < key) (view E)"
    by (rule dropWhile_cong [OF refl]) (rule c(1))
  show "takeWhile (\<lambda>x. fst x < clamp_high_low bytes_Compare i key) (view E) = takeWhile (\<lambda>x. fst x < key) (view E)"
    by (rule takeWhile_cong [OF refl]) (rule c(2))
qed

lemma seek_again_ge:
  assumes "placed i (head_cur (dropWhile (\<lambda>x. fst x < old) (view E)))" and "old \<le> key"
    and "it_validity i = IterExhausted \<or> it_validity i = IterValid \<and> key \<le> it_key i"
  shows "head_cur (dropWhile (\<lambda>x. fst x < key) (view E)) = head_cur (dropWhile (\<lambda>x. fst x < old) (view E))"
proof (cases "dropWhile (\<lambda>x. fst x < old) (view E)")
  case Nil
  then have "\<forall>x \<in> set (view E). fst x < key" using assms(2) by (auto simp: dropWhile_eq_Nil_conv intro: less_le_trans)
  then have "dropWhile (\<lambda>x. fst x < key) (view E) = []" by (simp add: dropWhile_eq_Nil_conv)
  then show ?thesis using Nil by (simp only:)
next
  case (Cons x rest)
  have v: "view E = takeWhile (\<lambda>x. fst x < old) (view E) @ x # rest" using takeWhile_dropWhile_id [of "\<lambda>x. fst x < old" "view E"] Cons by simp
  have "stands i x" using assms(1) Cons by (simp add: placed_def head_cur_def)
  then have "key \<le> fst x" using assms(3) by (simp add: stands_def)
  moreover have "\<forall>y \<in> set (takeWhile (\<lambda>x. fst x < old) (view E)). fst y < key" using assms(2) by (auto dest!: set_takeWhileD intro: less_le_trans)
  ultimately have "dropWhile (\<lambda>x. fst x < key) (takeWhile (\<lambda>x. fst x < old) (view E) @ x # rest) = x # rest"
    using dropWhile_append2 [of "takeWhile (\<lambda>x. fst x < old) (view E)" "\<lambda>x. fst x < key" "x # rest"] by (simp add: not_less)
  then have "dropWhile (\<lambda>x. fst x < key) (view E) = x # rest" by (subst v)
  then show ?thesis using Cons by (simp only:)
qed

lemma seek_again_lt:
  assumes "placed i (last_cur (takeWhile (\<lambda>x. fst x < old) (view E)))" and "key \<le> old"
    and "it_validity i = IterExhausted \<or> it_validity i = IterValid \<and> it_key i < key"
  shows "last_cur (takeWhile (\<lambda>x. fst x < key) (view E)) = last_cur (takeWhile (\<lambda>x. fst x < old) (view E))"
proof -
  define T where "T = takeWhile (\<lambda>x. fst x < old) (view E)"
  have "fst (last T) < key" if "T \<noteq> []"
  proof -
    have "stands i (last T)" using assms(1) last_cur_last [OF that] by (simp add: placed_def T_def)
    then show ?thesis using assms(3) by (simp add: stands_def)
  qed
  then have "takeWhile (\<lambda>x. fst x < key) (view E) = takeWhile (\<lambda>x. fst x < old) (view E)"
    unfolding T_def by (rule takeWhile_again [OF view_sorted assms(2)])
  then show ?thesis by (rule arg_cong)
qed

lemma call_SeekGE:
  assumes "good i c"
  shows "\<exists>i'. it_SeekGE ops bytes_Compare split i key = Some i' \<and> good i' (head_cur (dropWhile (\<lambda>x. fst x < key) (view E)))"
proof -
  let ?j = "forward_seeks InterfaceCall (i\<lparr>it_lastOp := unknownLastPositionOp, it_err := None, it_hasPrefix := False\<rparr>)"
  let ?key = "clamp_low_high bytes_Compare ?j key"
  let ?again = "it_lastOp i = seekGELastPositioningOp \<and> bytes_Compare (it_seekKey ?j) ?key \<le> 0"
  let ?V = "view E"
  have r: "ready ?j" and p: "placed ?j c" and al: "alive (it_iter ?j)" and np: "it_pos ?j \<noteq> iterPosCurForwardPaused"
    and last: "it_lastOp i = seekGELastPositioningOp \<Longrightarrow> c = head_cur (dropWhile (\<lambda>x. fst x < it_seekKey ?j) ?V)"
    using assms good_alive [OF assms] by (auto simp: good_def ready_def in_bounds_def placed_def rests_def stands_def count_defs split: cursor.splits)
  have cl: "dropWhile (\<lambda>x. fst x < ?key) ?V = dropWhile (\<lambda>x. fst x < key) ?V" by (rule clamp_view(1)) (use r in \<open>simp only: ready_def\<close>)
  show ?thesis
  proof (cases "?again \<and> (it_validity ?j = IterExhausted \<or> it_validity ?j = IterValid \<and> bytes_Compare ?key (it_key ?j) \<le> 0)")
    case True
    then have "it_SeekGE ops bytes_Compare split i key = Some (?j\<lparr>it_lastOp := seekGELastPositioningOp\<rparr>)" by (simp add: it_SeekGE_def Let_def)
    moreover have h: "head_cur (dropWhile (\<lambda>x. fst x < ?key) ?V) = c"
      using seek_again_ge [of ?j "it_seekKey ?j" ?key] p last True by (auto simp: bytes_Compare_signs)
    moreover have "good (?j\<lparr>it_lastOp := seekGELastPositioningOp\<rparr>) c"
      using r p last True by (auto simp: good_def ready_def in_bounds_def placed_def rests_def stands_def split: cursor.splits)
    ultimately show ?thesis using cl by auto
  next
    case False
    obtain s where s: "op_SeekGE ops (it_iter ?j) ?key = Some (s, fwd_entry E (place_of E ?key))" "fwd_lands cur alive E s (place_of E ?key)"
      using op_seekGE [OF al] by blast
    obtain st where st: "call_iter (forward_seeks InternalIterCall) (op_SeekGE ops (it_iter ?j) ?key) ?j = Some (moved ?j s (fwd_entry E (place_of E ?key)) st)"
      using call_iter_moved(3) [OF s(1)] by blast
    obtain i' where i': "it_findNextEntry ops split (moved ?j s (fwd_entry E (place_of E ?key)) st) = Some i'" "good i' (head_cur (view (drop (place_of E ?key) E)))"
      using goes_next [of "moved ?j s (fwd_entry E (place_of E ?key)) st" "place_of E ?key" split] r s(2) place_boundary(1) by auto
    have g: "good i' (head_cur (dropWhile (\<lambda>x. fst x < ?key) ?V))" using i'(2) view_place(1) by simp
    have "it_Error ops i' = None" using no_error [OF good_alive [OF g]] g by (simp add: it_Error_def FirstError_def good_def)
    then have "it_SeekGE ops bytes_Compare split i key = Some (i'\<lparr>it_seekKey := ?key, it_lastOp := seekGELastPositioningOp\<rparr>)"
      unfolding it_SeekGE_def Let_def if_not_P [OF False] using st i'(1) np by simp
    moreover have "good (i'\<lparr>it_seekKey := ?key, it_lastOp := seekGELastPositioningOp\<rparr>) (head_cur (dropWhile (\<lambda>x. fst x < ?key) ?V))"
      using g by (auto simp: good_def in_bounds_def placed_def rests_def stands_def split: cursor.splits)
    ultimately show ?thesis using cl by auto
  qed
qed

lemma call_SeekLT:
  assumes "good i c"
  shows "\<exists>i'. it_SeekLT ops bytes_Compare i key = Some i' \<and> good i' (last_cur (takeWhile (\<lambda>x. fst x < key) (view E)))"
proof -
  let ?j = "reverse_seeks InterfaceCall (i\<lparr>it_lastOp := unknownLastPositionOp, it_err := None, it_hasPrefix := False\<rparr>)"
  let ?key = "clamp_high_low bytes_Compare ?j key"
  let ?again = "it_lastOp i = seekLTLastPositioningOp \<and> bytes_Compare ?key (it_seekKey ?j) \<le> 0"
  let ?V = "view E"
  have r: "ready ?j" and p: "placed ?j c" and al: "alive (it_iter ?j)" and np: "it_pos ?j \<noteq> iterPosCurReversePaused"
    and last: "it_lastOp i = seekLTLastPositioningOp \<Longrightarrow> c = last_cur (takeWhile (\<lambda>x. fst x < it_seekKey ?j) ?V)"
    using assms good_alive [OF assms] by (auto simp: good_def ready_def in_bounds_def placed_def rests_def stands_def count_defs split: cursor.splits)
  have cl: "takeWhile (\<lambda>x. fst x < ?key) ?V = takeWhile (\<lambda>x. fst x < key) ?V" by (rule clamp_view(2)) (use r in \<open>simp only: ready_def\<close>)
  show ?thesis
  proof (cases "?again \<and> (it_validity ?j = IterExhausted \<or> it_validity ?j = IterValid \<and> bytes_Compare (it_key ?j) ?key < 0)")
    case True
    then have "it_SeekLT ops bytes_Compare i key = Some (?j\<lparr>it_lastOp := seekLTLastPositioningOp\<rparr>)" by (simp add: it_SeekLT_def Let_def)
    moreover have h: "last_cur (takeWhile (\<lambda>x. fst x < ?key) ?V) = c"
      using seek_again_lt [of ?j "it_seekKey ?j" ?key] p last True by (auto simp: bytes_Compare_signs)
    moreover have "good (?j\<lparr>it_lastOp := seekLTLastPositioningOp\<rparr>) c"
      using r p last True by (auto simp: good_def ready_def in_bounds_def placed_def rests_def stands_def split: cursor.splits)
    ultimately show ?thesis using cl by auto
  next
    case False
    obtain s where s: "op_SeekLT ops (it_iter ?j) ?key = Some (s, bwd_entry E (place_of E ?key))" "bwd_lands cur alive E s (place_of E ?key)"
      using op_seekLT [OF al] by blast
    obtain st where st: "call_iter (reverse_seeks InternalIterCall) (op_SeekLT ops (it_iter ?j) ?key) ?j = Some (moved ?j s (bwd_entry E (place_of E ?key)) st)"
      using call_iter_moved(4) [OF s(1)] by blast
    obtain i' where i': "it_findPrevEntry ops (moved ?j s (bwd_entry E (place_of E ?key)) st) = Some i'" "good i' (last_cur (view (take (place_of E ?key) E)))"
      using goes_prev [of "moved ?j s (bwd_entry E (place_of E ?key)) st" "place_of E ?key"] r s(2) place_boundary(1) by auto
    have g: "good i' (last_cur (takeWhile (\<lambda>x. fst x < ?key) ?V))" using i'(2) view_place(2) by simp
    have "it_Error ops i' = None" using no_error [OF good_alive [OF g]] g by (simp add: it_Error_def FirstError_def good_def)
    then have "it_SeekLT ops bytes_Compare i key = Some (i'\<lparr>it_seekKey := ?key, it_lastOp := seekLTLastPositioningOp\<rparr>)"
      unfolding it_SeekLT_def Let_def if_not_P [OF False] using st i'(1) np by simp
    moreover have "good (i'\<lparr>it_seekKey := ?key, it_lastOp := seekLTLastPositioningOp\<rparr>) (last_cur (takeWhile (\<lambda>x. fst x < ?key) ?V))"
      using g by (auto simp: good_def in_bounds_def placed_def rests_def stands_def split: cursor.splits)
    ultimately show ?thesis using cl by auto
  qed
qed

lemma call_good:
  assumes "good i c"
  shows "\<exists>i'. iterator_call ops split call i = Some i' \<and> good i' (cursor_call (view E) call c)"
  using call_First [OF assms] call_Last [OF assms] call_Next [OF assms] call_Prev [OF assms] call_SeekGE [OF assms] call_SeekLT [OF assms]
  by (cases call) (simp_all add: iterator_call_def)

lemma calls_good:
  "good i c \<Longrightarrow> \<exists>i'. iterator_calls ops split calls i = Some i' \<and> good i' (fold (cursor_call (view E)) calls c)"
proof (induction calls arbitrary: i c)
  case (Cons call calls)
  obtain i' where "iterator_call ops split call i = Some i'" "good i' (cursor_call (view E) call c)" using call_good [OF Cons.prems] by blast
  then show ?case using Cons.IH by simp
qed simp

lemma new_good:
  assumes "alive s" and "\<forall>e \<in> set E. within lower upper (ukey e)"
  shows "good (newIterator s lower upper) After"
  using assms by (auto simp: good_def in_bounds_def placed_def rests_def newIterator_def within_def split: option.splits)

lemma good_shows:
  assumes "good i c"
  shows "it_Error ops i = None \<and> shown i = cursor_pair c"
  using assms no_error [OF good_alive [OF assms]]
  by (auto simp: good_def placed_def rests_def stands_def it_Error_def FirstError_def shown_def it_Valid_def split: cursor.splits)

lemma refines:
  assumes "alive s" and "\<forall>e \<in> set E. within lower upper (ukey e)"
  shows "\<exists>i. iterator_calls ops split calls (newIterator s lower upper) = Some i \<and> it_Error ops i = None
    \<and> shown i = cursor_pair (fold (cursor_call (view E)) calls After)"
  using calls_good [OF new_good [OF assms]] good_shows by blast

end

section \<open>Flushable batches\<close>

text \<open>A flushable batch iterator (\<^verbatim>\<open>flushableBatchIter\<close>) as an internal iterator; its only error is written \<open>ErrLevel 0\<close>.\<close>

definition fb_ops :: "(bytes \<Rightarrow> bytes \<Rightarrow> int) \<Rightarrow> flushableBatchIter iter_ops" where
  "fb_ops cmp =
     \<lparr>op_SeekGE = fb_SeekGE cmp, op_SeekPrefixGE = (\<lambda>i prefix key trySeekUsingNext. fb_SeekGE cmp i key), op_SeekLT = fb_SeekLT cmp,
      op_First = fb_First cmp, op_Last = fb_Last cmp, op_Next = fb_Next cmp, op_Prev = fb_Prev cmp,
      op_Error = (\<lambda>i. map_option (\<lambda>_. ErrLevel 0) (fi_err i)), op_SetBounds = fb_SetBounds, op_Close = (\<lambda>i. map_option (\<lambda>_. ErrLevel 0) (fi_err i))\<rparr>"

text \<open>The batches that \<^verbatim>\<open>newFlushableBatch\<close> makes of Sets and Deletes, at sequence numbers other than zero.\<close>

definition fb_sound :: "flushableBatch \<Rightarrow> bool" where
  "fb_sound b \<longleftrightarrow> (case fb_view b of None \<Rightarrow> False
     | Some vs \<Rightarrow> key_sorted bytes_Compare vs \<and> (\<forall>x \<in> set vs. writable (fst x) \<and> SeqNum (fst x) \<noteq> 0))"

definition fb_contents :: "flushableBatch \<Rightarrow> iter_entry list" where
  "fb_contents b = (if fb_sound b then the (fb_view b) else [])"

definition fb_open :: "flushableBatch \<Rightarrow> flushableBatchIter \<Rightarrow> bool" where
  "fb_open b it \<longleftrightarrow> fi_batch it = b \<and> fb_sound b \<and> fi_err it = None \<and> fi_lower it = None \<and> fi_upper it = None"

lemma writable_Valid: "writable k \<Longrightarrow> Valid k"
  by (auto simp: writable_def Valid_def)

lemma fb_open_view:
  assumes "fb_open b it"
  shows "fb_view b = Some (fb_contents b)" "key_sorted bytes_Compare (fb_contents b)" "\<forall>x \<in> set (fb_contents b). Valid (fst x)"
  using assms writable_Valid by (auto simp: fb_open_def fb_contents_def fb_sound_def split: option.splits)

text \<open>Every operation shows the entry at the new index.\<close>

lemma fb_shows:
  assumes "fb_open b it" and "k < length (fb_contents b)" and "outside = (\<lambda>x. False)"
  shows "\<exists>it'. fb_show (it\<lparr>fi_index := int k\<rparr>) outside stop = Some (it', Some (fb_contents b ! k)) \<and> fb_open b it' \<and> fi_index it' = int k"
  using fb_show_at [of "it\<lparr>fi_index := int k\<rparr>" "fb_contents b" k outside stop] assms fb_open_view [OF assms(1)] by (simp add: fb_open_def)

lemma fb_contents_sorted: "sorted_wrt (entry_le False) (fb_contents b)"
proof -
  have "entry_le False x y" if "InternalCompare bytes_Compare (fst x) (fst y) < 0" for x y
    using bytes_cmp.entry_lt_asym [of False x y] that by (simp add: entry_le_def entry_lt_def)
  then show ?thesis unfolding fb_contents_def fb_sound_def by (auto split: option.splits elim: sorted_wrt_mono_rel [rotated])
qed

lemma fb_search_place:
  assumes "fb_open b it"
  shows "fb_search bytes_Compare b key = Some (place_of (fb_contents b) key)"
proof -
  obtain j where j: "fb_search bytes_Compare b key = Some j" "j \<le> length (fb_contents b)"
      "\<And>i. i < j \<Longrightarrow> bytes_Compare (UserKey (fst (fb_contents b ! i))) key < 0"
      "\<And>i. j \<le> i \<Longrightarrow> i < length (fb_contents b) \<Longrightarrow> bytes_Compare key (UserKey (fst (fb_contents b ! i))) \<le> 0"
    using bytes_cmp.fb_search_least [OF fb_open_view [OF assms], of key] by blast
  have "takeWhile (\<lambda>e. ukey e < key) (fb_contents b) = take j (fb_contents b)"
    using j(3,4) by (intro takeWhile_eq_take_P_nth) (auto simp: bytes_Compare_signs ukey_def not_less)
  then show ?thesis using j(1,2) by (simp add: place_of_def)
qed

lemma no_bounds [simp]: "above_upper cmp None = (\<lambda>x. False)" "below_lower cmp None = (\<lambda>x. False)"
  by (simp_all add: fun_eq_iff above_upper_def below_lower_def)

lemma fb_len: "fb_open b it \<Longrightarrow> length (fb_offsets b) = length (fb_contents b)"
  using fb_view_length fb_open_view by blast

lemma fb_open_simps [simp]: "fb_open b (it\<lparr>fi_index := k\<rparr>) = fb_open b it" "fb_open b it \<Longrightarrow> it\<lparr>fi_err := None\<rparr> = it"
  by (simp_all add: fb_open_def)

lemma place_le: "place_of E key \<le> length E"
  unfolding place_of_def by (rule length_takeWhile_le)

text \<open>The operations of an open iterator by the place they go to.\<close>

lemma fb_goes_fwd:
  assumes "fb_open b it" and "k \<le> length (fb_contents b)"
  shows "\<exists>it'. (if int k = fb_n it then Some (it\<lparr>fi_index := int k\<rparr>, None) else fb_show (it\<lparr>fi_index := int k\<rparr>) (above_upper bytes_Compare (fi_upper it)) (fb_n it))
          = Some (it', fwd_entry (fb_contents b) k) \<and> fwd_lands (\<lambda>it k. fb_open b it \<and> fi_index it = int k) (fb_open b) (fb_contents b) it' k"
proof -
  have o: "fi_batch it = b" "fi_upper it = None" using assms by (simp_all add: fb_open_def)
  show ?thesis
  proof (cases "k = length (fb_contents b)")
    case False
    then have "k < length (fb_contents b)" using assms(2) by simp
    then show ?thesis
      using fb_shows [OF assms(1), of k "above_upper bytes_Compare (fi_upper it)" "fb_n it"] o fb_len [OF assms(1)] by (simp add: fwd_entry_def fwd_lands_def)
  qed (use assms(1) o fb_len [OF assms(1)] in \<open>simp add: fwd_entry_def fwd_lands_def\<close>)
qed

lemma fb_goes_bwd:
  assumes "fb_open b it" and "k \<le> length (fb_contents b)"
  shows "\<exists>it'. (if k = 0 then Some (it\<lparr>fi_index := -1\<rparr>, None) else fb_show (it\<lparr>fi_index := int (k - 1)\<rparr>) (below_lower bytes_Compare (fi_lower it)) (-1))
          = Some (it', bwd_entry (fb_contents b) k) \<and> bwd_lands (\<lambda>it k. fb_open b it \<and> fi_index it = int k) (fb_open b) (fb_contents b) it' k"
proof (cases "k = 0")
  case False
  have "fi_lower it = None" using assms by (simp add: fb_open_def)
  then show ?thesis
    using fb_shows [OF assms(1), of "k - 1" "below_lower bytes_Compare (fi_lower it)" "-1"] assms(2) False by (auto simp: bwd_entry_def bwd_lands_def)
qed (use assms(1) in \<open>simp add: bwd_entry_def bwd_lands_def\<close>)

interpretation fb_cursor: entry_cursor "fb_ops bytes_Compare" "fb_contents b" "\<lambda>it k. fb_open b it \<and> fi_index it = int k" "fb_open b" for b
proof unfold_locales
  let ?E = "fb_contents b" and ?cur = "\<lambda>it k. fb_open b it \<and> fi_index it = int k"
  fix it k key
  {
    assume o: "fb_open b it"
    note len = fb_len [OF o] and n = fb_open_simps(2) [OF o]
    have b: "fi_batch it = b" using o by (simp add: fb_open_def)
    show "\<exists>s'. op_First (fb_ops bytes_Compare) it = Some (s', fwd_entry ?E 0) \<and> fwd_lands ?cur (fb_open b) ?E s' 0"
      using fb_goes_fwd [OF o, of 0] o b len n by (auto simp: fb_ops_def fb_First_def Let_def fwd_entry_def fwd_lands_def split: if_splits)
    show "\<exists>s'. op_Last (fb_ops bytes_Compare) it = Some (s', bwd_entry ?E (length ?E)) \<and> bwd_lands ?cur (fb_open b) ?E s' (length ?E)"
      using fb_goes_bwd [OF o, of "length ?E"] o b len n by (auto simp: fb_ops_def fb_Last_def Let_def bwd_entry_def bwd_lands_def of_nat_diff Suc_leI split: if_splits)
    show "\<exists>s'. op_SeekGE (fb_ops bytes_Compare) it key = Some (s', fwd_entry ?E (place_of ?E key)) \<and> fwd_lands ?cur (fb_open b) ?E s' (place_of ?E key)"
      using fb_goes_fwd [OF o place_le [of ?E key]] fb_search_place [OF o, of key] o b len n place_le [of ?E key]
      by (cases "place_of ?E key = length ?E") (simp_all add: fb_ops_def fb_SeekGE_def Let_def)
    show "\<exists>s'. op_SeekLT (fb_ops bytes_Compare) it key = Some (s', bwd_entry ?E (place_of ?E key)) \<and> bwd_lands ?cur (fb_open b) ?E s' (place_of ?E key)"
      using fb_goes_bwd [OF o place_le [of ?E key]] fb_search_place [OF o, of key] o b len n
      by (cases "place_of ?E key") (simp_all add: fb_ops_def fb_SeekLT_def Let_def)
    show "op_Error (fb_ops bytes_Compare) it = None" using o by (simp add: fb_ops_def fb_open_def)
  }
  {
    assume c: "fb_open b it \<and> fi_index it = int k"
    then show "fb_open b it" by simp
    assume k: "k < length ?E"
    have o: "fb_open b it" and b: "fi_batch it = b" using c by (simp_all add: fb_open_def)
    show "\<exists>s'. op_Next (fb_ops bytes_Compare) it = Some (s', fwd_entry ?E (Suc k)) \<and> fwd_lands ?cur (fb_open b) ?E s' (Suc k)"
      using fb_goes_fwd [OF o Suc_leI [OF k]] c k b fb_len [OF o] by (cases "Suc k = length ?E") (simp_all add: fb_ops_def fb_Next_def Let_def add.commute fwd_lands_def)
    show "\<exists>s'. op_Prev (fb_ops bytes_Compare) it = Some (s', bwd_entry ?E k) \<and> bwd_lands ?cur (fb_open b) ?E s' k"
      using fb_goes_bwd [OF o less_imp_le [OF k]] c by (cases k) (simp_all add: fb_ops_def fb_Prev_def Let_def)
  }
next
  show "sorted_wrt (entry_le False) (fb_contents b)" by (rule fb_contents_sorted)
next
  fix e assume "e \<in> set (fb_contents b)"
  then show "writable (fst e)" by (auto simp: fb_contents_def fb_sound_def split: if_splits option.splits)
next
  fix i j assume ij: "i < j" "j < length (fb_contents b)"
  have "\<forall>x \<in> set (fb_contents b). SeqNum (fst x) \<noteq> 0" by (auto simp: fb_contents_def fb_sound_def split: option.splits)
  then show "SeqNum (fst (fb_contents b ! i)) \<noteq> 0" using ij by simp
qed

text \<open>
  C38: The iterator of the public interface over any internal iterator that keeps the contract \<open>entry_cursor\<close>: the entries are sorted, several versions
  of a key and deletions among them, and the bounds enclose them. After every sequence of \<^verbatim>\<open>First\<close>, \<^verbatim>\<open>Last\<close>, \<^verbatim>\<open>Next\<close>,
  \<^verbatim>\<open>Prev\<close>, \<^verbatim>\<open>SeekGE\<close> and \<^verbatim>\<open>SeekLT\<close>, with changes of direction at any point, the calls have returned, there is no error, and
  \<^verbatim>\<open>Valid\<close>, \<^verbatim>\<open>Key\<close> and \<^verbatim>\<open>Value\<close> are those of a cursor over the ordered map of the newest versions that are not deleted.
\<close>

theorem iterator_refines_cursor:
  assumes "entry_cursor ops E cur alive" and "alive s" and "\<forall>e \<in> set E. within lower upper (UserKey (fst e))"
  shows "\<exists>i. iterator_calls ops split calls (newIterator s lower upper) = Some i \<and> it_Error ops i = None
    \<and> shown i = cursor_pair (fold (cursor_call (view E)) calls After)"
  using entry_cursor.refines [OF assms(1,2)] assms(3) by (simp add: ukey_def)

definition versionedBatch :: Batch where
  "versionedBatch = freshBatch\<lparr>b_data := [1, 0, 0, 0, 0, 0, 0, 0, 4, 0, 0, 0] @ ops_bytes [OpSet [7] [8], OpDelete [7], OpSet [3] [1], OpSet [5] [2]],
     b_cap := 1024, b_count := 4\<rparr>"

lemma versionedBatch_view:
  "Option.bind (newFlushableBatch bytes_Compare versionedBatch) fb_view = Some
     [(MakeInternalKey [3] 3 1, [1]), (MakeInternalKey [5] 4 1, [2]), (MakeInternalKey [7] 2 0, []), (MakeInternalKey [7] 1 1, [8])]"
  by code_simp

theorem iterator_refines_cursor_witness:
  "\<exists>fb i. newFlushableBatch bytes_Compare versionedBatch = Some fb
    \<and> iterator_calls (fb_ops bytes_Compare) (\<lambda>key. 0) [CLast, CPrev, CNext] (newIterator (fb_newIter fb None None) None (Some [8])) = Some i
    \<and> shown i = Some ([5], [2])"
proof -
  let ?vs = "[(MakeInternalKey [3] 3 1, [1]), (MakeInternalKey [5] 4 1, [2]), (MakeInternalKey [7] 2 0, []), (MakeInternalKey [7] 1 1, [8])] :: iter_entry list"
  obtain fb where fb: "newFlushableBatch bytes_Compare versionedBatch = Some fb" "fb_view fb = Some ?vs"
    using versionedBatch_view by (cases "newFlushableBatch bytes_Compare versionedBatch") auto
  have "key_sorted bytes_Compare ?vs" "\<forall>x \<in> set ?vs. writable (fst x) \<and> SeqNum (fst x) \<noteq> 0" by code_simp+
  then have o: "fb_open fb (fb_newIter fb None None)" and c: "fb_contents fb = ?vs"
    using fb(2) by (simp_all add: fb_open_def fb_sound_def fb_contents_def fb_newIter_def)
  have "\<forall>e \<in> set ?vs. within None (Some [8]) (UserKey (fst e))" by code_simp
  then obtain i where "iterator_calls (fb_ops bytes_Compare) (\<lambda>key. 0) [CLast, CPrev, CNext] (newIterator (fb_newIter fb None None) None (Some [8])) = Some i"
      "shown i = cursor_pair (fold (cursor_call (view ?vs)) [CLast, CPrev, CNext] After)"
    using iterator_refines_cursor [OF fb_cursor.entry_cursor_axioms o, of None "Some [8]" "\<lambda>key. 0" "[CLast, CPrev, CNext]"] c by auto
  moreover have "cursor_pair (fold (cursor_call (view ?vs)) [CLast, CPrev, CNext] After) = Some ([5], [2])" by code_simp
  ultimately show ?thesis using fb(1) by auto
qed

end
