(* ===== verification/Tree_Node.thy ===== *)
theory Tree_Node
  imports Freelist Complex_Main
begin

text \<open>
  The nodes of the B+ tree store (\<^verbatim>\<open>bitree/bdb/node.go\<close>) and the pages they are written to (\<^verbatim>\<open>page.go\<close>): sizes, insertion and
  deletion in a node, splitting, and the layout of leaf and branch pages. Nodes live in a heap and point to each other by address; the data of a
  page is the memory behind its header, and an access outside of it, like a failed \<^verbatim>\<open>_assert\<close>, is \<open>None\<close>.
\<close>

section \<open>Nodes\<close>

abbreviation (input) branchPageFlag :: u16 where "branchPageFlag \<equiv> 0x01"
abbreviation (input) leafPageFlag :: u16 where "leafPageFlag \<equiv> 0x02"
abbreviation (input) minKeysPerPage :: nat where "minKeysPerPage \<equiv> 2"
abbreviation (input) branchPageElementSize :: nat where "branchPageElementSize \<equiv> 16"
abbreviation (input) leafPageElementSize :: nat where "leafPageElementSize \<equiv> 16"
abbreviation (input) bucketLeafFlag :: u32 where "bucketLeafFlag \<equiv> 0x01"

record inode =
  i_flags :: u32
  i_pgid :: pgid
  i_key :: bytes
  i_value :: bytes

type_synonym addr = nat

record node =
  nd_isLeaf :: bool
  nd_unbalanced :: bool
  nd_spilled :: bool
  nd_key :: "bytes option"
  nd_pgid :: pgid
  nd_parent :: "addr option"
  nd_children :: "addr list"
  nd_inodes :: "inode list"

definition blankNode :: node where
  "blankNode = \<lparr>nd_isLeaf = False, nd_unbalanced = False, nd_spilled = False, nd_key = None, nd_pgid = 0, nd_parent = None, nd_children = [], nd_inodes = []\<rparr>"

text \<open>The nodes of a bucket; \<open>nh_next\<close> is the next unused address.\<close>

record node_heap =
  nh_node :: "addr \<Rightarrow> node"
  nh_next :: addr

definition nh_update :: "addr \<Rightarrow> (node \<Rightarrow> node) \<Rightarrow> node_heap \<Rightarrow> node_heap" where
  "nh_update a f h = h\<lparr>nh_node := (nh_node h)(a := f (nh_node h a))\<rparr>"

definition nh_new :: "node \<Rightarrow> node_heap \<Rightarrow> node_heap \<times> addr" where
  "nh_new n h = (h\<lparr>nh_node := (nh_node h)(nh_next h := n), nh_next := Suc (nh_next h)\<rparr>, nh_next h)"

definition minKeys :: "node \<Rightarrow> nat" where
  "minKeys n = (if nd_isLeaf n then 1 else 2)"

definition pageElementSize :: "node \<Rightarrow> nat" where
  "pageElementSize n = (if nd_isLeaf n then leafPageElementSize else branchPageElementSize)"

definition inode_size :: "nat \<Rightarrow> inode \<Rightarrow> nat" where
  "inode_size elsz item = elsz + length (i_key item) + length (i_value item)"

definition node_size :: "node \<Rightarrow> nat" where
  "node_size n = pageHeaderSize + sum_list (map (inode_size (pageElementSize n)) (nd_inodes n))"

fun size_less :: "nat \<Rightarrow> nat \<Rightarrow> nat \<Rightarrow> inode list \<Rightarrow> bool" where
  "size_less elsz v sz [] = True"
| "size_less elsz v sz (item # items) =
     (let sz = sz + inode_size elsz item in if sz \<ge> v then False else size_less elsz v sz items)"

definition sizeLessThan :: "node \<Rightarrow> nat \<Rightarrow> bool" where
  "sizeLessThan n v = size_less (pageElementSize n) v pageHeaderSize (nd_inodes n)"

section \<open>Searching, inserting and deleting\<close>

definition search_inodes :: "inode list \<Rightarrow> bytes \<Rightarrow> nat option" where
  "search_inodes items key = sort_Search (length items) (\<lambda>i. map_option (\<lambda>item. bytes_Compare (i_key item) key \<noteq> -1) (go_index items i))"

definition childIndex :: "node \<Rightarrow> node \<Rightarrow> nat option" where
  "childIndex n child = search_inodes (nd_inodes n) (case nd_key child of None \<Rightarrow> [] | Some key \<Rightarrow> key)"

text \<open>\<open>high\<close> is \<^verbatim>\<open>tx.meta.pgid\<close>.\<close>

definition node_put :: "pgid \<Rightarrow> node \<Rightarrow> bytes \<Rightarrow> bytes \<Rightarrow> bytes \<Rightarrow> pgid \<Rightarrow> u32 \<Rightarrow> node option" where
  "node_put high n oldKey newKey value pid flags =
     (if pid \<ge> high then None
      else if oldKey = [] then None
      else if newKey = [] then None
      else
        do {
          index \<leftarrow> search_inodes (nd_inodes n) oldKey;
          let exact = (index < length (nd_inodes n) \<and> i_key (nd_inodes n ! index) = oldKey);
          let items = (if exact then nd_inodes n
                       else take index (nd_inodes n) @ \<lparr>i_flags = 0, i_pgid = 0, i_key = [], i_value = []\<rparr> # drop index (nd_inodes n));
          Some (n\<lparr>nd_inodes := items[index := \<lparr>i_flags = flags, i_pgid = pid, i_key = newKey, i_value = value\<rparr>]\<rparr>)
        })"

definition node_del :: "node \<Rightarrow> bytes \<Rightarrow> node option" where
  "node_del n key =
     do {
       index \<leftarrow> search_inodes (nd_inodes n) key;
       Some (if index \<ge> length (nd_inodes n) \<or> i_key (nd_inodes n ! index) \<noteq> key then n
             else n\<lparr>nd_inodes := take index (nd_inodes n) @ drop (Suc index) (nd_inodes n), nd_unbalanced := True\<rparr>)
     }"

section \<open>Pages\<close>

record branchPageElement =
  be_pos :: u32
  be_ksize :: u32
  be_pgid :: pgid

record leafPageElement =
  le_flags :: u32
  le_pos :: u32
  le_ksize :: u32
  le_vsize :: u32

definition branchPageElement_at :: "page \<Rightarrow> nat \<Rightarrow> branchPageElement option" where
  "branchPageElement_at p i =
     map_option (\<lambda>b. \<lparr>be_pos = le_dec (take 4 b), be_ksize = le_dec (take 4 (drop 4 b)), be_pgid = unat (le_dec (drop 8 b) :: u64)\<rparr>)
       (go_slice (p_data p) (branchPageElementSize * i) (branchPageElementSize * i + 16))"

definition leafPageElement_at :: "page \<Rightarrow> nat \<Rightarrow> leafPageElement option" where
  "leafPageElement_at p i =
     map_option (\<lambda>b. \<lparr>le_flags = le_dec (take 4 b), le_pos = le_dec (take 4 (drop 4 b)), le_ksize = le_dec (take 4 (drop 8 b)), le_vsize = le_dec (drop 12 b)\<rparr>)
       (go_slice (p_data p) (leafPageElementSize * i) (leafPageElementSize * i + 16))"

text \<open>Keys and values are addressed relative to the element itself.\<close>

definition branch_key :: "page \<Rightarrow> nat \<Rightarrow> branchPageElement \<Rightarrow> bytes option" where
  "branch_key p i e = (let a = branchPageElementSize * i + unat (be_pos e) in go_slice (p_data p) a (a + unat (be_ksize e)))"

definition leaf_key :: "page \<Rightarrow> nat \<Rightarrow> leafPageElement \<Rightarrow> bytes option" where
  "leaf_key p i e = (let a = leafPageElementSize * i + unat (le_pos e) in go_slice (p_data p) a (a + unat (le_ksize e)))"

definition leaf_value :: "page \<Rightarrow> nat \<Rightarrow> leafPageElement \<Rightarrow> bytes option" where
  "leaf_value p i e = (let a = leafPageElementSize * i + unat (le_pos e) + unat (le_ksize e) in go_slice (p_data p) a (a + unat (le_vsize e)))"

definition read_inode :: "page \<Rightarrow> bool \<Rightarrow> nat \<Rightarrow> inode option" where
  "read_inode p isLeaf i =
     (if isLeaf then
        do {
          elem \<leftarrow> leafPageElement_at p i;
          key \<leftarrow> leaf_key p i elem;
          value \<leftarrow> leaf_value p i elem;
          (if key = [] then None else Some \<lparr>i_flags = le_flags elem, i_pgid = 0, i_key = key, i_value = value\<rparr>)
        }
      else
        do {
          elem \<leftarrow> branchPageElement_at p i;
          key \<leftarrow> branch_key p i elem;
          (if key = [] then None else Some \<lparr>i_flags = 0, i_pgid = be_pgid elem, i_key = key, i_value = []\<rparr>)
        })"

definition node_read :: "node \<Rightarrow> page \<Rightarrow> node option" where
  "node_read n p =
     (let isLeaf = (p_flags p AND leafPageFlag \<noteq> 0) in
      do {
        items \<leftarrow> those (map (read_inode p isLeaf) [0..<unat (p_count p)]);
        Some (n\<lparr>nd_pgid := p_id p, nd_isLeaf := isLeaf, nd_inodes := items,
               nd_key := (if items \<noteq> [] then Some (i_key (hd items)) else None)\<rparr>)
      })"

text \<open>The loop of \<^verbatim>\<open>write\<close>: \<open>off\<close> is the offset of the next key behind the header of the page.\<close>

definition elem_bytes :: "bool \<Rightarrow> nat \<Rightarrow> inode \<Rightarrow> bytes" where
  "elem_bytes isLeaf pos item =
     (if isLeaf then le_enc 4 (i_flags item) @ le_enc 4 (of_nat pos :: u32) @ le_enc 4 (of_nat (length (i_key item)) :: u32) @ le_enc 4 (of_nat (length (i_value item)) :: u32)
      else le_enc 4 (of_nat pos :: u32) @ le_enc 4 (of_nat (length (i_key item)) :: u32) @ le_enc 8 (of_nat (i_pgid item) :: u64))"

fun write_items :: "bool \<Rightarrow> pgid \<Rightarrow> nat \<Rightarrow> nat \<Rightarrow> inode list \<Rightarrow> bytes \<Rightarrow> bytes option" where
  "write_items isLeaf pid i off [] d = Some d"
| "write_items isLeaf pid i off (item # items) d =
     (if i_key item = [] then None
      else
        do {
          let sz = length (i_key item) + length (i_value item);
          b \<leftarrow> go_slice d off (off + sz);
          d \<leftarrow> go_put d (16 * i) (elem_bytes isLeaf (off - 16 * i) item);
          (if \<not> isLeaf \<and> i_pgid item = pid then None
           else do { d \<leftarrow> go_put d off (i_key item @ i_value item); write_items isLeaf pid (Suc i) (off + sz) items d })
        })"

definition node_write :: "node \<Rightarrow> page \<Rightarrow> page option" where
  "node_write n p =
     (let p = p\<lparr>p_flags := p_flags p OR (if nd_isLeaf n then leafPageFlag else branchPageFlag)\<rparr> in
      if length (nd_inodes n) \<ge> 0xFFFF then None
      else
        let p = p\<lparr>p_count := of_nat (length (nd_inodes n))\<rparr> in
        if p_count p = 0 then Some p
        else map_option (\<lambda>d. p\<lparr>p_data := d\<rparr>)
               (write_items (nd_isLeaf n) (p_id p) 0 (pageElementSize n * length (nd_inodes n)) (nd_inodes n) (p_data p)))"

section \<open>Splitting\<close>

fun split_loop :: "nat \<Rightarrow> nat \<Rightarrow> nat \<Rightarrow> nat \<Rightarrow> nat \<Rightarrow> inode list \<Rightarrow> nat \<times> nat" where
  "split_loop elsz threshold i index sz [] = (index, sz)"
| "split_loop elsz threshold i index sz (item # items) =
     (let elsize = inode_size elsz item in
      if i \<ge> minKeysPerPage \<and> sz + elsize > threshold then (i, sz)
      else split_loop elsz threshold (Suc i) i (sz + elsize) items)"

definition splitIndex :: "node \<Rightarrow> nat \<Rightarrow> nat \<times> nat" where
  "splitIndex n threshold =
     split_loop (pageElementSize n) threshold 0 0 pageHeaderSize (take (length (nd_inodes n) - minKeysPerPage) (nd_inodes n))"

text \<open>The fill percent is a floating point number in the code; here it is the rational number itself, and the product is not rounded.\<close>

definition fill_threshold :: "nat \<Rightarrow> rat \<Rightarrow> nat" where
  "fill_threshold pageSize fillPercent =
     (let fillPercent = (if fillPercent < 1 / 10 then 1 / 10 else if fillPercent > 1 then 1 else fillPercent)
      in nat \<lfloor>of_nat pageSize * fillPercent\<rfloor>)"

definition splitTwo :: "nat \<Rightarrow> rat \<Rightarrow> node_heap \<Rightarrow> addr \<Rightarrow> node_heap \<times> addr option" where
  "splitTwo pageSize fillPercent h a =
     (let n = nh_node h a in
      if length (nd_inodes n) \<le> minKeysPerPage * 2 \<or> sizeLessThan n pageSize then (h, None)
      else
        let index = fst (splitIndex n (fill_threshold pageSize fillPercent));
            (h, parent) = (case nd_parent n of
                Some p \<Rightarrow> (h, p)
              | None \<Rightarrow> let (h, p) = nh_new (blankNode\<lparr>nd_children := [a]\<rparr>) h in (nh_update a (\<lambda>n. n\<lparr>nd_parent := Some p\<rparr>) h, p));
            (h, next) = nh_new (blankNode\<lparr>nd_isLeaf := nd_isLeaf n, nd_parent := Some parent, nd_inodes := drop index (nd_inodes n)\<rparr>) h;
            h = nh_update parent (\<lambda>p. p\<lparr>nd_children := nd_children p @ [next]\<rparr>) h;
            h = nh_update a (\<lambda>n. n\<lparr>nd_inodes := take index (nd_inodes n)\<rparr>) h
        in (h, Some next))"

lemma split_loop_spec:
  assumes "i \<le> 2 \<or> sz \<le> threshold" and "items \<noteq> []" and "r = fst (split_loop elsz threshold i index sz items)"
  shows "i \<le> r \<and> r < i + length items \<and> (2 \<le> r \<or> Suc r = i + length items)
    \<and> (r \<le> 2 \<or> sz + sum_list (map (inode_size elsz) (take (r - i) items)) \<le> threshold)"
  using assms
proof (induction elsz threshold i index sz items rule: split_loop.induct)
  case (2 elsz threshold i index sz item items)
  let ?e = "inode_size elsz item"
  show ?case
  proof (cases "i \<ge> 2 \<and> sz + ?e > threshold")
    case True
    then show ?thesis using "2.prems"(1,3) by (auto simp: Let_def)
  next
    case False
    then have r: "r = fst (split_loop elsz threshold (Suc i) i (sz + ?e) items)" using "2.prems"(3) by (auto simp: Let_def)
    show ?thesis
    proof (cases "items = []")
      case True
      then show ?thesis using r False "2.prems"(1) by auto
    next
      case ne: False
      have "Suc i \<le> 2 \<or> sz + ?e \<le> threshold" using False by auto
      from "2.IH" [OF refl False this ne r] have IH: "Suc i \<le> r" "r < Suc i + length items" "2 \<le> r \<or> Suc r = Suc i + length items"
          "r \<le> 2 \<or> sz + ?e + sum_list (map (inode_size elsz) (take (r - Suc i) items)) \<le> threshold"
        by auto
      then have "r - i = Suc (r - Suc i)" by linarith
      then have "take (r - i) (item # items) = item # take (r - Suc i) items" by simp
      then show ?thesis using IH by auto
    qed
  qed
qed simp

lemma splitIndex_spec:
  assumes "4 < length (nd_inodes n)" and "r = fst (splitIndex n threshold)"
  shows "2 \<le> r" "r + 3 \<le> length (nd_inodes n)" "r = 2 \<or> node_size (n\<lparr>nd_inodes := take r (nd_inodes n)\<rparr>) \<le> threshold"
proof -
  let ?L = "take (length (nd_inodes n) - 2) (nd_inodes n)"
  have l: "length ?L = length (nd_inodes n) - 2" "?L \<noteq> []" using assms(1) by auto
  have r: "r = fst (split_loop (pageElementSize n) threshold 0 0 16 ?L)" using assms(2) by (simp add: splitIndex_def)
  from split_loop_spec [OF _ l(2) r] have *: "r < length ?L \<and> (2 \<le> r \<or> Suc r = length ?L)
      \<and> (r \<le> 2 \<or> 16 + sum_list (map (inode_size (pageElementSize n)) (take r ?L)) \<le> threshold)"
    by (simp del: take_take)
  then show "2 \<le> r" "r + 3 \<le> length (nd_inodes n)" using assms(1) l(1) by linarith+
  have "r \<le> length (nd_inodes n) - 2" using * l(1) by linarith
  then have "take r ?L = take r (nd_inodes n)" by (simp add: min_absorb1)
  then show "r = 2 \<or> node_size (n\<lparr>nd_inodes := take r (nd_inodes n)\<rparr>) \<le> threshold"
    using * \<open>2 \<le> r\<close> by (auto simp: node_size_def pageElementSize_def)
qed

text \<open>What \<^verbatim>\<open>splitTwo\<close> does to the two nodes it returns.\<close>

lemma splitTwo_Some:
  assumes "splitTwo pageSize fill h a = (h', Some b)" and "a < nh_next h" and "\<forall>p. nd_parent (nh_node h a) = Some p \<longrightarrow> p \<noteq> a \<and> p < nh_next h"
  shows "4 < length (nd_inodes (nh_node h a))" "\<not> sizeLessThan (nh_node h a) pageSize"
    "nd_inodes (nh_node h' a) = take (fst (splitIndex (nh_node h a) (fill_threshold pageSize fill))) (nd_inodes (nh_node h a))"
    "nd_inodes (nh_node h' b) = drop (fst (splitIndex (nh_node h a) (fill_threshold pageSize fill))) (nd_inodes (nh_node h a))"
    "nd_isLeaf (nh_node h' a) = nd_isLeaf (nh_node h a)" "nd_isLeaf (nh_node h' b) = nd_isLeaf (nh_node h a)"
    "b < nh_next h'" "a < b" "nh_next h \<le> b" "\<exists>p. nd_parent (nh_node h' b) = Some p \<and> p \<noteq> b \<and> p < nh_next h' \<and> p \<noteq> a"
    "\<forall>x < nh_next h. nd_inodes (nh_node h' x) = nd_inodes (nh_node h x) \<or> x = a"
    "\<forall>x < nh_next h. nd_isLeaf (nh_node h' x) = nd_isLeaf (nh_node h x)"
  using assms
  by (auto simp: splitTwo_def Let_def nh_new_def nh_update_def blankNode_def split: if_splits option.splits prod.splits)

lemma splitTwo_shrinks:
  assumes "splitTwo pageSize fill h a = (h', Some b)"
  shows "length (nd_inodes (nh_node h' b)) < length (nd_inodes (nh_node h a))"
proof -
  let ?n = "nh_node h a"
  let ?r = "fst (splitIndex ?n (fill_threshold pageSize fill))"
  have "4 < length (nd_inodes ?n)" using assms by (auto simp: splitTwo_def Let_def split: if_splits)
  then have r: "2 \<le> ?r" "?r + 3 \<le> length (nd_inodes ?n)" using splitIndex_spec by blast+
  have "length (nd_inodes (nh_node h' b)) \<le> length (nd_inodes ?n) - ?r"
    using assms by (auto simp: splitTwo_def Let_def nh_new_def nh_update_def split: if_splits option.splits prod.splits)
  then show ?thesis using r by linarith
qed

function node_split :: "nat \<Rightarrow> rat \<Rightarrow> node_heap \<Rightarrow> addr \<Rightarrow> node_heap \<times> addr list" where
  "node_split pageSize fill h a =
     (case splitTwo pageSize fill h a of
        (h', None) \<Rightarrow> (h', [a])
      | (h', Some b) \<Rightarrow> (let (h'', bs) = node_split pageSize fill h' b in (h'', a # bs)))"
  by pat_completeness auto
termination
  by (relation "measure (\<lambda>(pageSize, fill, h, a). length (nd_inodes (nh_node h a)))") (auto simp: splitTwo_shrinks)

declare node_split.simps [simp del]

lemma node_split_unfold:
  "splitTwo pageSize fill h a = (h', None) \<Longrightarrow> node_split pageSize fill h a = (h', [a])"
  "splitTwo pageSize fill h a = (h', Some b) \<Longrightarrow> node_split pageSize fill h' b = (h'', bs) \<Longrightarrow> node_split pageSize fill h a = (h'', a # bs)"
  by (subst node_split.simps, simp)+

lemma size_less_iff: "size_less elsz v sz items \<longleftrightarrow> items = [] \<or> sz + sum_list (map (inode_size elsz) items) < v"
proof (induction items arbitrary: sz)
  case (Cons item items)
  show ?case
    by (cases "items = []") (auto simp: Let_def Cons.IH add.assoc)
qed simp

lemma sizeLessThan_iff: "sizeLessThan n v \<longleftrightarrow> nd_inodes n = [] \<or> node_size n < v"
  by (simp add: sizeLessThan_def node_size_def size_less_iff)

lemma fill_threshold_le: "fill_threshold pageSize fill \<le> pageSize"
proof -
  let ?f = "if fill < 1 / 10 then 1 / 10 else if fill > 1 then 1 else fill :: rat"
  have "of_nat pageSize * ?f \<le> of_nat pageSize" by (rule mult_left_le) auto
  then have "\<lfloor>of_nat pageSize * ?f\<rfloor> \<le> int pageSize" by (simp add: floor_le_iff less_add_one le_less_trans)
  then show ?thesis by (simp add: fill_threshold_def Let_def)
qed

definition page_fits :: "nat \<Rightarrow> node \<Rightarrow> bool" where
  "page_fits pageSize n \<longleftrightarrow> length (nd_inodes n) \<le> 4 \<or> node_size n \<le> pageSize"

definition heap_ok :: "node_heap \<Rightarrow> addr \<Rightarrow> bool" where
  "heap_ok h a \<longleftrightarrow> a < nh_next h \<and> (\<forall>p. nd_parent (nh_node h a) = Some p \<longrightarrow> p \<noteq> a \<and> p < nh_next h)"

lemma node_split_spec:
  assumes "heap_ok h a" and "node_split pageSize fill h a = (h', as)"
  shows "concat (map (\<lambda>x. nd_inodes (nh_node h' x)) as) = nd_inodes (nh_node h a)
    \<and> (\<forall>x \<in> set as. nd_isLeaf (nh_node h' x) = nd_isLeaf (nh_node h a) \<and> page_fits pageSize (nh_node h' x)
          \<and> (2 \<le> length (nd_inodes (nh_node h a)) \<longrightarrow> 2 \<le> length (nd_inodes (nh_node h' x))))
    \<and> (\<forall>x \<in> set as. x = a \<or> nh_next h \<le> x) \<and> nh_next h \<le> nh_next h' \<and> (\<forall>x < nh_next h. x \<noteq> a \<longrightarrow> nd_inodes (nh_node h' x) = nd_inodes (nh_node h x)
          \<and> nd_isLeaf (nh_node h' x) = nd_isLeaf (nh_node h x))"
  using assms
proof (induction pageSize fill h a arbitrary: h' as rule: node_split.induct)
  case (1 pageSize fill h a)
  let ?n = "nh_node h a"
  show ?case
  proof (cases "splitTwo pageSize fill h a")
    case (Pair h1 r)
    show ?thesis
    proof (cases r)
      case None
      then have e: "h' = h1" "as = [a]" using "1.prems"(2) Pair node_split_unfold(1) by simp_all
      have "length (nd_inodes ?n) \<le> 4 \<or> sizeLessThan ?n pageSize" "h1 = h"
        using Pair None by (auto simp: splitTwo_def Let_def split: if_splits prod.splits)
      then show ?thesis using e by (auto simp: page_fits_def sizeLessThan_iff)
    next
      case (Some b)
      let ?t = "fill_threshold pageSize fill"
      let ?r = "fst (splitIndex ?n ?t)"
      note two = splitTwo_Some [of pageSize fill h a h1 b]
      have P: "splitTwo pageSize fill h a = (h1, Some b)" "a < nh_next h" "\<forall>p. nd_parent ?n = Some p \<longrightarrow> p \<noteq> a \<and> p < nh_next h"
        using Pair Some "1.prems"(1) by (simp_all add: heap_ok_def)
      note two = splitTwo_Some [OF P]
      note idx = splitIndex_spec [OF two(1) refl, of ?t]
      obtain h2 bs where rec: "node_split pageSize fill h1 b = (h2, bs)" by force
      then have e: "h' = h2" "as = a # bs" using "1.prems"(2) node_split_unfold(2) [OF P(1)] by simp_all
      have ok: "heap_ok h1 b" using two(7,10) by (auto simp: heap_ok_def)
      note IH = "1.IH" [OF P(1) [symmetric] refl ok rec]
      have next_le: "nh_next h \<le> nh_next h1" using two(7,9) by linarith
      have a1: "nd_inodes (nh_node h2 a) = take ?r (nd_inodes ?n)" "nd_isLeaf (nh_node h2 a) = nd_isLeaf ?n"
        using IH two(3,5,8) P(2) next_le by auto
      have size: "node_size (nh_node h2 a) = node_size (?n\<lparr>nd_inodes := take ?r (nd_inodes ?n)\<rparr>)"
        by (simp add: node_size_def pageElementSize_def a1)
      have fits: "page_fits pageSize (nh_node h2 a)"
        using idx fill_threshold_le [of pageSize fill] a1(1) size by (auto simp: page_fits_def)
      have len: "2 \<le> length (nd_inodes (nh_node h2 a))" "2 \<le> length (nd_inodes (nh_node h1 b))" using a1(1) two(4) idx by auto
      have con: "concat (map (\<lambda>x. nd_inodes (nh_node h2 x)) as) = nd_inodes ?n" using IH two(4) a1(1) e by simp
      have parts: "\<forall>x \<in> set as. nd_isLeaf (nh_node h2 x) = nd_isLeaf ?n \<and> page_fits pageSize (nh_node h2 x)
          \<and> (2 \<le> length (nd_inodes ?n) \<longrightarrow> 2 \<le> length (nd_inodes (nh_node h2 x)))"
        using IH two(6) a1(2) fits len e by auto
      have old: "\<forall>x \<in> set as. x = a \<or> nh_next h \<le> x" using IH two(9) e next_le by auto
      have frame: "\<forall>x < nh_next h. x \<noteq> a \<longrightarrow> nd_inodes (nh_node h2 x) = nd_inodes (nh_node h x) \<and> nd_isLeaf (nh_node h2 x) = nd_isLeaf (nh_node h x)"
        using IH two(9,11,12) next_le by (metis leD less_le_trans)
      show ?thesis using con parts old frame IH next_le e by auto
    qed
  qed
qed

section \<open>Writing and reading a page\<close>

definition inode_ok :: "bool \<Rightarrow> pgid \<Rightarrow> inode \<Rightarrow> bool" where
  "inode_ok isLeaf pid item \<longleftrightarrow> i_key item \<noteq> []
     \<and> (if isLeaf then i_pgid item = 0 else i_flags item = 0 \<and> i_value item = [] \<and> i_pgid item \<noteq> pid \<and> i_pgid item < 2 ^ 64)"

definition kv_bytes :: "inode \<Rightarrow> bytes" where
  "kv_bytes item = i_key item @ i_value item"

fun elems :: "bool \<Rightarrow> nat \<Rightarrow> nat \<Rightarrow> inode list \<Rightarrow> bytes" where
  "elems isLeaf i off [] = []"
| "elems isLeaf i off (item # items) = elem_bytes isLeaf (off - 16 * i) item @ elems isLeaf (Suc i) (off + length (kv_bytes item)) items"

lemma length_elem_bytes [simp]: "length (elem_bytes isLeaf pos item) = 16"
  by (simp add: elem_bytes_def)

lemma length_elems [simp]: "length (elems isLeaf i off items) = 16 * length items"
  by (induction items arbitrary: i off) auto

lemma elems_append:
  "elems isLeaf i off (xs @ ys) = elems isLeaf i off xs @ elems isLeaf (i + length xs) (off + length (concat (map kv_bytes xs))) ys"
  by (induction xs arbitrary: i off) (simp_all add: add.assoc)

lemma go_put_mid: "i = length X \<Longrightarrow> length Y' = length Y \<Longrightarrow> go_put (X @ Y @ Z) i Y' = Some (X @ Y' @ Z)"
  by (simp add: go_put_def)

lemma write_items_layout:
  assumes "\<forall>item \<in> set items. inode_ok isLeaf pid item" and "length A = 16 * i" and "length B = 16 * length items"
    and "length A + length B + length C = off" and "length D = length (concat (map kv_bytes items))"
  shows "write_items isLeaf pid i off items (A @ B @ C @ D @ F) = Some (A @ elems isLeaf i off items @ C @ concat (map kv_bytes items) @ F)"
  using assms
proof (induction items arbitrary: i off A B C D)
  case (Cons item items)
  let ?sz = "length (i_key item) + length (i_value item)"
  let ?e = "elem_bytes isLeaf (off - 16 * i) item"
  have ok: "i_key item \<noteq> []" "\<not> (\<not> isLeaf \<and> i_pgid item = pid)" using Cons.prems(1) by (auto simp: inode_ok_def split: if_splits)
  obtain B1 B2 where B: "B = B1 @ B2" "length B1 = 16" "length B2 = 16 * length items"
    using Cons.prems(3) that [of "take 16 B" "drop 16 B"] by simp
  have sz: "?sz = length (kv_bytes item)" by (simp add: kv_bytes_def)
  obtain D1 D2 where D: "D = D1 @ D2" "length D1 = ?sz" "length D2 = length (concat (map kv_bytes items))"
    using Cons.prems(5) sz that [of "take ?sz D" "drop ?sz D"] by simp
  have s: "go_slice (A @ B @ C @ D @ F) off (off + ?sz) = Some D1"
    using Cons.prems(4) D(2) go_slice_append [of off "A @ B @ C" "off + ?sz" D1 "D2 @ F"] by (simp add: D(1))
  have p1: "go_put (A @ B @ C @ D @ F) (16 * i) ?e = Some (A @ ?e @ B2 @ C @ D @ F)"
    using go_put_mid [of "16 * i" A ?e B1 "B2 @ C @ D @ F"] Cons.prems(2) B by simp
  have len: "off = length (A @ ?e @ B2 @ C)" using Cons.prems(4) B by simp
  have p2: "go_put (A @ ?e @ B2 @ C @ D @ F) off (i_key item @ i_value item) = Some ((A @ ?e) @ B2 @ (C @ kv_bytes item) @ D2 @ F)"
    using go_put_mid [of off "A @ ?e @ B2 @ C" "i_key item @ i_value item" D1 "D2 @ F"] len D by (simp add: kv_bytes_def)
  have "write_items isLeaf pid i off (item # items) (A @ B @ C @ D @ F)
      = write_items isLeaf pid (Suc i) (off + ?sz) items ((A @ ?e) @ B2 @ (C @ kv_bytes item) @ D2 @ F)"
    using ok s p1 p2 by auto
  also have "\<dots> = Some ((A @ ?e) @ elems isLeaf (Suc i) (off + ?sz) items @ (C @ kv_bytes item) @ concat (map kv_bytes items) @ F)"
    by (rule Cons.IH) (use Cons.prems B D sz in auto)
  finally show ?case using sz by simp
qed simp

text \<open>The element number \<open>j\<close> of such a page leads to its key and value.\<close>

lemma read_inode_layout:
  assumes d: "p_data p = elems isLeaf 0 (16 * length items) items @ concat (map kv_bytes items) @ F"
    and "j < length items" and "inode_ok isLeaf pid (items ! j)" and "16 * length items + length (concat (map kv_bytes items)) < 2 ^ 32"
  shows "read_inode p isLeaf j = Some (items ! j)"
proof -
  let ?x = "items ! j" and ?xs = "take j items" and ?ys = "drop (Suc j) items"
  have split: "items = ?xs @ ?x # ?ys" using assms(2) by (simp add: id_take_nth_drop)
  let ?K = "length (concat (map kv_bytes ?xs))"
  let ?off = "16 * length items + ?K"
  let ?E1 = "elems isLeaf 0 (16 * length items) ?xs" and ?E2 = "elems isLeaf (Suc j) (?off + length (kv_bytes ?x)) ?ys"
  let ?e = "elem_bytes isLeaf (?off - 16 * j) ?x"
  have lxs: "length ?xs = j" using assms(2) by simp
  have E: "elems isLeaf 0 (16 * length items) items = ?E1 @ ?e @ ?E2"
    using elems_append [of isLeaf 0 "16 * length items" ?xs "?x # ?ys"] split lxs by simp
  have K: "concat (map kv_bytes items) = concat (map kv_bytes ?xs) @ kv_bytes ?x @ concat (map kv_bytes ?ys)"
    by (subst split) simp
  have lE: "length ?E1 = 16 * j" "length (elems isLeaf 0 (16 * length items) items) = 16 * length items" using lxs by simp_all
  have el: "go_slice (p_data p) (16 * j) (16 * j + 16) = Some ?e"
    unfolding d E using go_slice_append [of "16 * j" ?E1 "16 * j + 16" ?e "?E2 @ concat (map kv_bytes items) @ F"] lE(1) by simp
  have tot: "16 * length items + ?K + length (kv_bytes ?x) < 2 ^ 32" using assms(4) unfolding K by simp
  have pos: "unat (of_nat (?off - 16 * j) :: u32) = ?off - 16 * j" using tot by (intro unat32) linarith
  have kl: "unat (of_nat (length (i_key ?x)) :: u32) = length (i_key ?x)" "unat (of_nat (length (i_value ?x)) :: u32) = length (i_value ?x)"
    using tot by (intro unat32; simp add: kv_bytes_def)+
  have off: "16 * j + (?off - 16 * j) = ?off" using assms(2) by linarith
  let ?P = "elems isLeaf 0 (16 * length items) items @ concat (map kv_bytes ?xs)"
  have lP: "length ?P = ?off" using lE(2) by simp
  have dk: "p_data p = ?P @ i_key ?x @ i_value ?x @ concat (map kv_bytes ?ys) @ F" unfolding d by (subst K) (simp add: kv_bytes_def)
  have key: "go_slice (p_data p) ?off (?off + length (i_key ?x)) = Some (i_key ?x)"
    unfolding dk by (rule go_slice_append) (simp_all only: lP)
  have val: "go_slice (p_data p) (?off + length (i_key ?x)) (?off + length (i_key ?x) + length (i_value ?x)) = Some (i_value ?x)"
    using go_slice_append [of "?off + length (i_key ?x)" "?P @ i_key ?x" "?off + length (i_key ?x) + length (i_value ?x)" "i_value ?x" "concat (map kv_bytes ?ys) @ F"]
    unfolding dk using lP by simp
  show ?thesis
  proof (cases isLeaf)
    case True
    have "leafPageElement_at p j = Some \<lparr>le_flags = i_flags ?x, le_pos = of_nat (?off - 16 * j), le_ksize = of_nat (length (i_key ?x)), le_vsize = of_nat (length (i_value ?x))\<rparr>"
      unfolding leafPageElement_at_def el using True by (simp add: elem_bytes_def endian_simps)
    then show ?thesis
      using True assms(3) key val unfolding read_inode_def
      by (simp add: leaf_key_def leaf_value_def pos kl off Let_def inode_ok_def)
  next
    case False
    have "branchPageElement_at p j = Some \<lparr>be_pos = of_nat (?off - 16 * j), be_ksize = of_nat (length (i_key ?x)), be_pgid = unat (of_nat (i_pgid ?x) :: u64)\<rparr>"
      unfolding branchPageElement_at_def el using False by (simp add: elem_bytes_def endian_simps)
    moreover have "unat (of_nat (i_pgid ?x) :: u64) = i_pgid ?x" using False assms(3) by (simp add: inode_ok_def unat_of_nat)
    ultimately show ?thesis
      using False assms(3) key unfolding read_inode_def by (simp add: branch_key_def pos kl off Let_def inode_ok_def)
  qed
qed

lemma those_map_Some: "(\<And>x. x \<in> set xs \<Longrightarrow> f x = Some (g x)) \<Longrightarrow> those (map f xs) = Some (map g xs)"
  by (induction xs) auto

lemma node_size_layout: "node_size n = 16 + 16 * length (nd_inodes n) + length (concat (map kv_bytes (nd_inodes n)))"
proof -
  have "sum_list (map (inode_size 16) items) = 16 * length items + length (concat (map kv_bytes items))" for items
    by (induction items) (simp_all add: inode_size_def kv_bytes_def)
  then show ?thesis by (simp add: node_size_def pageElementSize_def)
qed

lemma node_write_read:
  assumes "\<forall>item \<in> set (nd_inodes n). inode_ok (nd_isLeaf n) (p_id p) item" and "length (nd_inodes n) < 0xFFFF"
    and "node_size n \<le> 16 + length (p_data p)" and "node_size n < 2 ^ 32" and "p_flags p = 0"
  shows "\<exists>p'. node_write n p = Some p' \<and> p_id p' = p_id p \<and> p_overflow p' = p_overflow p \<and> length (p_data p') = length (p_data p)
    \<and> node_read m p' = Some (m\<lparr>nd_pgid := p_id p, nd_isLeaf := nd_isLeaf n, nd_inodes := nd_inodes n,
         nd_key := (if nd_inodes n \<noteq> [] then Some (i_key (hd (nd_inodes n))) else None)\<rparr>)"
proof -
  let ?items = "nd_inodes n" and ?fl = "if nd_isLeaf n then leafPageFlag else branchPageFlag"
  let ?q = "p\<lparr>p_flags := p_flags p OR ?fl, p_count := of_nat (length ?items)\<rparr>"
  have cnt: "unat (of_nat (length ?items) :: u16) = length ?items" using assms(2) by (simp add: unat_of_nat)
  have leaf: "(p_flags p OR ?fl) AND leafPageFlag \<noteq> 0 \<longleftrightarrow> nd_isLeaf n" using assms(5) by simp
  show ?thesis
  proof (cases "?items = []")
    case True
    then show ?thesis using assms(2) leaf by (simp add: node_write_def node_read_def Let_def)
  next
    case False
    let ?n = "length ?items" and ?K = "length (concat (map kv_bytes ?items))"
    have c0: "(of_nat ?n :: u16) \<noteq> 0" using False cnt by (metis length_0_conv unat_eq_zero)
    let ?B = "take (16 * ?n) (p_data p)" and ?D = "take ?K (drop (16 * ?n) (p_data p))" and ?F = "drop ?K (drop (16 * ?n) (p_data p))"
    have l: "16 * ?n + ?K \<le> length (p_data p)" using assms(3) by (simp add: node_size_layout)
    have d: "p_data p = [] @ ?B @ [] @ ?D @ ?F" by (simp only: append_Nil append_take_drop_id)
    let ?d = "elems (nd_isLeaf n) 0 (16 * ?n) ?items @ concat (map kv_bytes ?items) @ ?F"
    have "write_items (nd_isLeaf n) (p_id p) 0 (16 * ?n) ?items ([] @ ?B @ [] @ ?D @ ?F) = Some ([] @ elems (nd_isLeaf n) 0 (16 * ?n) ?items @ [] @ concat (map kv_bytes ?items) @ ?F)"
      by (rule write_items_layout) (use assms(1) l in auto)
    then have w: "write_items (nd_isLeaf n) (p_id p) 0 (16 * ?n) ?items (p_data p) = Some ?d" by (subst d) simp
    let ?p = "?q\<lparr>p_data := ?d\<rparr>"
    have W: "node_write n p = Some ?p" using w c0 assms(2) by (simp add: node_write_def Let_def pageElementSize_def)
    have "read_inode ?p (nd_isLeaf n) j = Some (?items ! j)" if "j < ?n" for j
      by (rule read_inode_layout [of _ _ _ ?F _ "p_id p"]) (use that assms(1,4) in \<open>auto simp: node_size_layout\<close>)
    then have "those (map (read_inode ?p (nd_isLeaf n)) [0..<?n]) = Some (map ((!) ?items) [0..<?n])" by (intro those_map_Some) simp
    then have r: "those (map (read_inode ?p (nd_isLeaf n)) [0..<?n]) = Some ?items" by (simp add: map_nth)
    have "node_read m ?p = Some (m\<lparr>nd_pgid := p_id p, nd_isLeaf := nd_isLeaf n, nd_inodes := ?items, nd_key := (if ?items \<noteq> [] then Some (i_key (hd ?items)) else None)\<rparr>)"
      unfolding node_read_def Let_def using r cnt leaf by simp
    moreover have "length ?d = length (p_data p)" using l by simp
    ultimately show ?thesis using W by (intro exI [of _ ?p]) simp
  qed
qed

lemma node_size_part:
  assumes "concat (map (\<lambda>x. nd_inodes (nh_node h x)) as) = nd_inodes n" and "x \<in> set as"
  shows "node_size (nh_node h x) \<le> node_size n" "length (nd_inodes (nh_node h x)) \<le> length (nd_inodes n)" "set (nd_inodes (nh_node h x)) \<subseteq> set (nd_inodes n)"
proof -
  obtain bs cs where as: "as = bs @ x # cs" using assms(2) by (meson split_list)
  define B where "B = concat (map (\<lambda>x. nd_inodes (nh_node h x)) bs)"
  define C where "C = concat (map (\<lambda>x. nd_inodes (nh_node h x)) cs)"
  have n: "nd_inodes n = B @ nd_inodes (nh_node h x) @ C" unfolding assms(1) [symmetric] as B_def C_def by simp
  show "node_size (nh_node h x) \<le> node_size n" "length (nd_inodes (nh_node h x)) \<le> length (nd_inodes n)" "set (nd_inodes (nh_node h x)) \<subseteq> set (nd_inodes n)"
    by (auto simp: node_size_layout n)
qed

lemma node_split_ne:
  assumes "node_split pageSize fill h a = (h', as)"
  shows "as \<noteq> []"
proof (cases "splitTwo pageSize fill h a")
  case (Pair h1 r)
  then show ?thesis
    using assms node_split_unfold [of pageSize fill h a h1] by (cases r; cases "node_split pageSize fill h1 (the r)") auto
qed

text \<open>
  C39: Spilling a node. Splitting an oversized node always ends; the nodes it is split into hold its entries in order, each keeps the kind of the
  node and at least two entries, and each has at most four entries or fits into one page. Whatever page a part is then written to, as long as the page
  was cleared and allocated for its size and is none of the part's own children, the write succeeds, and reading the page returns the same entries
  with the same flags, children, keys and values.
\<close>

theorem split_write_read:
  assumes "heap_ok h a" and "node_split pageSize fill h a = (h', as)" and "\<forall>item \<in> set (nd_inodes (nh_node h a)). \<forall>pid \<in> P. inode_ok (nd_isLeaf (nh_node h a)) pid item"
    and "length (nd_inodes (nh_node h a)) < 0xFFFF" and "node_size (nh_node h a) < 2 ^ 32"
  shows "concat (map (\<lambda>x. nd_inodes (nh_node h' x)) as) = nd_inodes (nh_node h a)
    \<and> (\<forall>x \<in> set as. (length (nd_inodes (nh_node h' x)) \<le> 4 \<or> node_size (nh_node h' x) \<le> pageSize)
        \<and> (2 \<le> length (nd_inodes (nh_node h a)) \<longrightarrow> 2 \<le> length (nd_inodes (nh_node h' x)))
        \<and> (\<forall>p. p_id p \<in> P \<and> p_flags p = 0 \<and> node_size (nh_node h' x) \<le> pageHeaderSize + length (p_data p) \<longrightarrow>
            (\<exists>p' n. node_write (nh_node h' x) p = Some p' \<and> node_read blankNode p' = Some n
              \<and> nd_pgid n = p_id p \<and> nd_isLeaf n = nd_isLeaf (nh_node h a) \<and> nd_inodes n = nd_inodes (nh_node h' x))))"
proof -
  note S = node_split_spec [OF assms(1,2)]
  have con: "concat (map (\<lambda>x. nd_inodes (nh_node h' x)) as) = nd_inodes (nh_node h a)" using S by blast
  have "\<exists>p' n. node_write (nh_node h' x) p = Some p' \<and> node_read blankNode p' = Some n
              \<and> nd_pgid n = p_id p \<and> nd_isLeaf n = nd_isLeaf (nh_node h a) \<and> nd_inodes n = nd_inodes (nh_node h' x)"
    if x: "x \<in> set as" and p: "p_id p \<in> P" "p_flags p = 0" "node_size (nh_node h' x) \<le> pageHeaderSize + length (p_data p)" for x p
  proof -
    note part = node_size_part [OF con x]
    have leaf: "nd_isLeaf (nh_node h' x) = nd_isLeaf (nh_node h a)" using S x by blast
    have "\<forall>item \<in> set (nd_inodes (nh_node h' x)). inode_ok (nd_isLeaf (nh_node h' x)) (p_id p) item"
      using assms(3) part(3) p(1) unfolding leaf by blast
    then show ?thesis using node_write_read [of "nh_node h' x" p blankNode] part assms(4,5) p(2,3) leaf by auto
  qed
  then show ?thesis using S unfolding page_fits_def by blast
qed

definition wideLeaf :: node where
  "wideLeaf = blankNode\<lparr>nd_isLeaf := True, nd_inodes := map (\<lambda>k. \<lparr>i_flags = 0, i_pgid = 0, i_key = [k], i_value = [k, k]\<rparr>) [1, 2, 3, 4, 5, 6, 7]\<rparr>"

definition wideHeap :: node_heap where
  "wideHeap = \<lparr>nh_node = (\<lambda>a. if a = 0 then wideLeaf else blankNode), nh_next = 1\<rparr>"

theorem split_write_read_witness:
  "\<exists>h' as p' n. node_split 64 1 wideHeap 0 = (h', as) \<and> concat (map (\<lambda>x. nd_inodes (nh_node h' x)) as) = nd_inodes wideLeaf
    \<and> node_write (nh_node h' (hd as)) \<lparr>p_id = 9, p_flags = 0, p_count = 0, p_overflow = 0, p_data = replicate 149 0\<rparr> = Some p'
    \<and> node_read blankNode p' = Some n \<and> nd_inodes n = nd_inodes (nh_node h' (hd as))"
proof -
  let ?p = "\<lparr>p_id = 9, p_flags = 0, p_count = 0, p_overflow = 0, p_data = replicate 149 0\<rparr> :: page"
  obtain h' as where s: "node_split 64 1 wideHeap 0 = (h', as)" by force
  have ne: "as \<noteq> []" by (rule node_split_ne [OF s])
  have n: "nh_node wideHeap 0 = wideLeaf" "heap_ok wideHeap 0" by (simp_all add: wideHeap_def heap_ok_def wideLeaf_def blankNode_def)
  have k: "\<forall>item \<in> set (nd_inodes wideLeaf). \<forall>pid \<in> {9}. inode_ok (nd_isLeaf wideLeaf) pid item" "length (nd_inodes wideLeaf) < 0xFFFF"
      "node_size wideLeaf < 2 ^ 32" "node_size wideLeaf \<le> 165"
    by (simp_all add: wideLeaf_def blankNode_def node_size_def inode_size_def pageElementSize_def inode_ok_def)
  note T = split_write_read [OF n(2) s, unfolded n(1), OF k(1-3)]
  have "node_size (nh_node h' (hd as)) \<le> node_size wideLeaf" using T ne by (intro node_size_part(1)) auto
  then have sz: "node_size (nh_node h' (hd as)) \<le> pageHeaderSize + length (p_data ?p)" using k(4) by simp
  have hd: "hd as \<in> set as" using ne by simp
  have "p_id ?p \<in> {9} \<and> p_flags ?p = 0 \<and> node_size (nh_node h' (hd as)) \<le> pageHeaderSize + length (p_data ?p)" using sz by simp
  with T hd obtain p' n where "node_write (nh_node h' (hd as)) ?p = Some p'" "node_read blankNode p' = Some n" "nd_inodes n = nd_inodes (nh_node h' (hd as))"
    by blast
  then show ?thesis using T s by blast
qed

end
