(* ===== verification/Tree_Cursor.thy ===== *)
theory Tree_Cursor
  imports Tree_Node Iterators
begin

text \<open>
  Buckets and cursors of the B+ tree store (\<^verbatim>\<open>bitree/bdb/bucket.go\<close>, \<^verbatim>\<open>cursor.go\<close>, and the page table of \<^verbatim>\<open>tx.go\<close>):
  a bucket is a tree whose parts are pages of the file or nodes in memory. A cursor keeps the path from the root to its position.
\<close>

section \<open>Buckets\<close>

text \<open>A bucket with what its operations use of the transaction: \<open>bk_pages\<close> are the pages the transaction has allocated, \<open>bk_file\<close> those of the
  mapped file (\<open>None\<close> beyond its end), \<open>bk_high\<close> is the high water mark \<^verbatim>\<open>tx.meta.pgid\<close>, and \<open>bk_db\<close> says that the transaction is open. The
  map \<^verbatim>\<open>nodes\<close> is nil exactly when the transaction is not writable.\<close>

record Bucket =
  bk_root :: pgid
  bk_sequence :: u64
  bk_page :: "page option"
  bk_rootNode :: "addr option"
  bk_nodes :: "pgid \<rightharpoonup> addr"
  bk_heap :: node_heap
  bk_db :: bool
  bk_writable :: bool
  bk_pages :: "pgid \<rightharpoonup> page"
  bk_file :: "pgid \<Rightarrow> page option"
  bk_high :: pgid

definition tx_page :: "Bucket \<Rightarrow> pgid \<Rightarrow> page option" where
  "tx_page b pid = (case bk_pages b pid of Some p \<Rightarrow> Some p | None \<Rightarrow> bk_file b pid)"

datatype page_node = Page page | Node addr

definition pageNode :: "Bucket \<Rightarrow> pgid \<Rightarrow> page_node option" where
  "pageNode b pid =
     (if bk_root b = 0 then
        (if pid \<noteq> 0 then None
         else case bk_rootNode b of Some n \<Rightarrow> Some (Node n) | None \<Rightarrow> map_option Page (bk_page b))
      else
        case (if bk_writable b then bk_nodes b pid else None) of
          Some n \<Rightarrow> Some (Node n)
        | None \<Rightarrow> map_option Page (tx_page b pid))"

section \<open>Cursors\<close>

record elemRef =
  er_ref :: page_node
  er_index :: int

definition er_isLeaf :: "Bucket \<Rightarrow> elemRef \<Rightarrow> bool" where
  "er_isLeaf b r = (case er_ref r of Node n \<Rightarrow> nd_isLeaf (nh_node (bk_heap b) n) | Page p \<Rightarrow> p_flags p AND leafPageFlag \<noteq> 0)"

definition er_count :: "Bucket \<Rightarrow> elemRef \<Rightarrow> int" where
  "er_count b r = (case er_ref r of Node n \<Rightarrow> int (length (nd_inodes (nh_node (bk_heap b) n))) | Page p \<Rightarrow> uint (p_count p))"

text \<open>Indexing a slice with a negative number panics; an index into a page is taken as \<^verbatim>\<open>uint16\<close>.\<close>

definition int_index :: "'a list \<Rightarrow> int \<Rightarrow> 'a option" where
  "int_index xs i = (if i < 0 then None else go_index xs (nat i))"

definition er_pgid :: "Bucket \<Rightarrow> elemRef \<Rightarrow> pgid option" where
  "er_pgid b r =
     (case er_ref r of
        Node n \<Rightarrow> map_option i_pgid (int_index (nd_inodes (nh_node (bk_heap b) n)) (er_index r))
      | Page p \<Rightarrow> map_option be_pgid (branchPageElement_at p (nat (er_index r mod 2 ^ 16))))"

type_synonym entry = "bytes \<times> bytes \<times> u32"

text \<open>The stack of a cursor, with the last element first. The results are \<open>None\<close> for a nil key.\<close>

type_synonym stack = "elemRef list"

definition cur_keyValue :: "Bucket \<Rightarrow> stack \<Rightarrow> entry option option" where
  "cur_keyValue b st =
     (case st of
        [] \<Rightarrow> None
      | r # _ \<Rightarrow>
          if er_count b r = 0 \<or> er_index r \<ge> er_count b r then Some None
          else case er_ref r of
            Node n \<Rightarrow> map_option (\<lambda>i. Some (i_key i, i_value i, i_flags i)) (int_index (nd_inodes (nh_node (bk_heap b) n)) (er_index r))
          | Page p \<Rightarrow>
              (let i = nat (er_index r mod 2 ^ 16) in
               do {
                 elem \<leftarrow> leafPageElement_at p i;
                 key \<leftarrow> leaf_key p i elem;
                 val \<leftarrow> leaf_value p i elem;
                 Some (Some (key, val, le_flags elem))
               }))"

partial_function (option) cur_first :: "Bucket \<Rightarrow> stack \<Rightarrow> stack option" where
  "cur_first b st =
     (case st of
        [] \<Rightarrow> None
      | r # _ \<Rightarrow>
          if er_isLeaf b r then Some st
          else do {
            pid \<leftarrow> er_pgid b r;
            pn \<leftarrow> pageNode b pid;
            cur_first b (\<lparr>er_ref = pn, er_index = 0\<rparr> # st)
          })"

partial_function (option) cur_last :: "Bucket \<Rightarrow> stack \<Rightarrow> stack option" where
  "cur_last b st =
     (case st of
        [] \<Rightarrow> None
      | r # _ \<Rightarrow>
          if er_isLeaf b r then Some st
          else do {
            pid \<leftarrow> er_pgid b r;
            pn \<leftarrow> pageNode b pid;
            let nextRef = \<lparr>er_ref = pn, er_index = 0\<rparr>;
            cur_last b (nextRef\<lparr>er_index := er_count b nextRef - 1\<rparr> # st)
          })"

text \<open>The inner loop of \<^verbatim>\<open>next\<close>: up to the first element that is not at its end.\<close>

fun cur_bump :: "Bucket \<Rightarrow> stack \<Rightarrow> stack option" where
  "cur_bump b [] = None"
| "cur_bump b (r # st) = (if er_index r < er_count b r - 1 then Some (r\<lparr>er_index := er_index r + 1\<rparr> # st) else cur_bump b st)"

partial_function (option) cur_next :: "Bucket \<Rightarrow> stack \<Rightarrow> (stack \<times> entry option) option" where
  "cur_next b st =
     (case cur_bump b st of
        None \<Rightarrow> Some (st, None)
      | Some st \<Rightarrow>
          do {
            st \<leftarrow> cur_first b st;
            (if er_count b (hd st) = 0 then cur_next b st
             else do { e \<leftarrow> cur_keyValue b st; Some (st, e) })
          })"

text \<open>The binary search of \<^verbatim>\<open>searchNode\<close> and \<^verbatim>\<open>searchPage\<close> also records whether it came across the key.\<close>

function probe_loop :: "(nat \<Rightarrow> int option) \<Rightarrow> nat \<Rightarrow> nat \<Rightarrow> bool \<Rightarrow> (nat \<times> bool) option" where
  "probe_loop f i j exact =
     (if i < j then
        (let h = (i + j) div 2 in
         case f h of
           None \<Rightarrow> None
         | Some ret \<Rightarrow>
             let exact = (exact \<or> ret = 0) in
             if ret \<noteq> -1 then probe_loop f i h exact else probe_loop f (Suc h) j exact)
      else Some (i, exact))"
  by pat_completeness auto
termination
  by (relation "measure (\<lambda>(f, i, j, exact). j - i)") auto

declare probe_loop.simps [simp del]

definition er_branch_key :: "Bucket \<Rightarrow> elemRef \<Rightarrow> nat \<Rightarrow> bytes option" where
  "er_branch_key b r i =
     (case er_ref r of
        Node n \<Rightarrow> map_option i_key (go_index (nd_inodes (nh_node (bk_heap b) n)) i)
      | Page p \<Rightarrow> do { e \<leftarrow> branchPageElement_at p i; branch_key p i e })"

definition er_leaf_key :: "Bucket \<Rightarrow> elemRef \<Rightarrow> nat \<Rightarrow> bytes option" where
  "er_leaf_key b r i =
     (case er_ref r of
        Node n \<Rightarrow> map_option i_key (go_index (nd_inodes (nh_node (bk_heap b) n)) i)
      | Page p \<Rightarrow> do { e \<leftarrow> leafPageElement_at p i; leaf_key p i e })"

definition cur_nsearch :: "Bucket \<Rightarrow> bytes \<Rightarrow> elemRef \<Rightarrow> elemRef option" where
  "cur_nsearch b key r =
     do {
       index \<leftarrow> sort_Search (nat (er_count b r)) (\<lambda>i. map_option (\<lambda>k. bytes_Compare k key \<noteq> -1) (er_leaf_key b r i));
       Some (r\<lparr>er_index := int index\<rparr>)
     }"

text \<open>\<^verbatim>\<open>searchNode\<close> and \<^verbatim>\<open>searchPage\<close>.\<close>

definition cur_search_branch :: "Bucket \<Rightarrow> bytes \<Rightarrow> elemRef \<Rightarrow> elemRef option" where
  "cur_search_branch b key r =
     do {
       (index, exact) \<leftarrow> probe_loop (\<lambda>i. map_option (\<lambda>k. bytes_Compare k key) (er_branch_key b r i)) 0 (nat (er_count b r)) False;
       Some (r\<lparr>er_index := int (if \<not> exact \<and> index > 0 then index - 1 else index)\<rparr>)
     }"

partial_function (option) cur_search :: "Bucket \<Rightarrow> bytes \<Rightarrow> pgid \<Rightarrow> stack \<Rightarrow> stack option" where
  "cur_search b key pid st =
     do {
       pn \<leftarrow> pageNode b pid;
       (if (case pn of Page p \<Rightarrow> p_flags p AND (branchPageFlag OR leafPageFlag) = 0 | Node n \<Rightarrow> False) then None
        else
          let e = \<lparr>er_ref = pn, er_index = 0\<rparr> in
          if er_isLeaf b e then map_option (\<lambda>e. e # st) (cur_nsearch b key e)
          else do {
            e \<leftarrow> cur_search_branch b key e;
            child \<leftarrow> (if er_index e < er_count b e then er_pgid b e else None);
            cur_search b key child (e # st)
          })
     }"

definition cur_seek :: "Bucket \<Rightarrow> bytes \<Rightarrow> (stack \<times> entry option) option" where
  "cur_seek b key =
     (if \<not> bk_db b then None
      else do { st \<leftarrow> cur_search b key (bk_root b) []; e \<leftarrow> cur_keyValue b st; Some (st, e) })"

text \<open>The exported operations hide the value of a nested bucket.\<close>

definition hide :: "entry option \<Rightarrow> (bytes \<times> bytes option) option" where
  "hide e = map_option (\<lambda>(key, val, flags). (key, if flags AND bucketLeafFlag \<noteq> 0 then None else Some val)) e"

definition cur_First :: "Bucket \<Rightarrow> (stack \<times> (bytes \<times> bytes option) option) option" where
  "cur_First b =
     (if \<not> bk_db b then None
      else do {
        pn \<leftarrow> pageNode b (bk_root b);
        st \<leftarrow> cur_first b [\<lparr>er_ref = pn, er_index = 0\<rparr>];
        st \<leftarrow> (if er_count b (hd st) = 0 then map_option fst (cur_next b st) else Some st);
        e \<leftarrow> cur_keyValue b st;
        Some (st, hide e)
      })"

definition cur_Last :: "Bucket \<Rightarrow> (stack \<times> (bytes \<times> bytes option) option) option" where
  "cur_Last b =
     (if \<not> bk_db b then None
      else do {
        pn \<leftarrow> pageNode b (bk_root b);
        let ref = \<lparr>er_ref = pn, er_index = 0\<rparr>;
        st \<leftarrow> cur_last b [ref\<lparr>er_index := er_count b ref - 1\<rparr>];
        e \<leftarrow> cur_keyValue b st;
        Some (st, hide e)
      })"

definition cur_Next :: "Bucket \<Rightarrow> stack \<Rightarrow> (stack \<times> (bytes \<times> bytes option) option) option" where
  "cur_Next b st = (if \<not> bk_db b then None else map_option (\<lambda>(st, e). (st, hide e)) (cur_next b st))"

fun cur_back :: "stack \<Rightarrow> stack" where
  "cur_back [] = []"
| "cur_back (r # st) = (if er_index r > 0 then r\<lparr>er_index := er_index r - 1\<rparr> # st else cur_back st)"

definition cur_Prev :: "Bucket \<Rightarrow> stack \<Rightarrow> (stack \<times> (bytes \<times> bytes option) option) option" where
  "cur_Prev b st =
     (if \<not> bk_db b then None
      else
        let st = cur_back st in
        if st = [] then Some ([], None)
        else do { st \<leftarrow> cur_last b st; e \<leftarrow> cur_keyValue b st; Some (st, hide e) })"

definition cur_Seek :: "Bucket \<Rightarrow> bytes \<Rightarrow> (stack \<times> (bytes \<times> bytes option) option) option" where
  "cur_Seek b key =
     do {
       (st, e) \<leftarrow> cur_seek b key;
       (st, e) \<leftarrow> (if er_index (hd st) \<ge> er_count b (hd st) then cur_next b st else Some (st, e));
       Some (st, hide e)
     }"

definition bucket_Get :: "Bucket \<Rightarrow> bytes \<Rightarrow> bytes option option" where
  "bucket_Get b key =
     do {
       (st, e) \<leftarrow> cur_seek b key;
       Some (case e of
           None \<Rightarrow> None
         | Some (k, v, flags) \<Rightarrow> if flags AND bucketLeafFlag \<noteq> 0 then None else if key \<noteq> k then None else Some v)
     }"

section \<open>The entries of a page or a node\<close>

definition pn_leaf :: "Bucket \<Rightarrow> page_node \<Rightarrow> bool" where
  "pn_leaf b pn = (case pn of Node n \<Rightarrow> nd_isLeaf (nh_node (bk_heap b) n) | Page p \<Rightarrow> p_flags p AND leafPageFlag \<noteq> 0)"

definition pn_inodes :: "Bucket \<Rightarrow> page_node \<Rightarrow> inode list option" where
  "pn_inodes b pn = (case pn of
      Node n \<Rightarrow> Some (nd_inodes (nh_node (bk_heap b) n))
    | Page p \<Rightarrow> those (map (read_inode p (p_flags p AND leafPageFlag \<noteq> 0)) [0..<unat (p_count p)]))"

definition pn_typed :: "page_node \<Rightarrow> bool" where
  "pn_typed pn \<longleftrightarrow> (case pn of Page p \<Rightarrow> p_flags p AND (branchPageFlag OR leafPageFlag) \<noteq> 0 | Node n \<Rightarrow> True)"

lemma those_map_iff: "those (map f xs) = Some ys \<longleftrightarrow> length ys = length xs \<and> (\<forall>i < length xs. f (xs ! i) = Some (ys ! i))"
proof (induction xs arbitrary: ys)
  case (Cons x xs)
  show ?case by (cases ys) (auto simp: Cons.IH All_less_Suc2 split: option.splits)
qed auto

lemma er_isLeaf_pn [simp]: "er_isLeaf b r = pn_leaf b (er_ref r)"
  by (simp add: er_isLeaf_def pn_leaf_def)

lemma pn_page_inodes:
  assumes "pn_inodes b (Page p) = Some its"
  shows "length its = unat (p_count p)" "i < length its \<Longrightarrow> read_inode p (pn_leaf b (Page p)) i = Some (its ! i)" "length its < 2 ^ 16"
proof -
  show l: "length its = unat (p_count p)" using assms by (simp add: pn_inodes_def those_map_iff)
  show "i < length its \<Longrightarrow> read_inode p (pn_leaf b (Page p)) i = Some (its ! i)" using assms by (simp add: pn_inodes_def those_map_iff pn_leaf_def)
  show "length its < 2 ^ 16" unfolding l using unsigned_less [of "p_count p", where 'a = nat] by simp
qed

lemma read_inode_branch:
  "read_inode p False i = Some x \<Longrightarrow> \<exists>e. branchPageElement_at p i = Some e \<and> branch_key p i e = Some (i_key x) \<and> be_pgid e = i_pgid x"
  by (auto simp: read_inode_def split: Option.bind_splits if_splits)

lemma read_inode_leaf:
  "read_inode p True i = Some x \<Longrightarrow>
   \<exists>e. leafPageElement_at p i = Some e \<and> leaf_key p i e = Some (i_key x) \<and> leaf_value p i e = Some (i_value x) \<and> le_flags e = i_flags x"
  by (auto simp: read_inode_def split: Option.bind_splits if_splits)

lemma er_count_pn: "pn_inodes b (er_ref r) = Some its \<Longrightarrow> er_count b r = int (length its)"
  using pn_page_inodes(1) [of b _ its] by (cases "er_ref r") (simp_all add: er_count_def pn_inodes_def)

lemma er_pgid_pn:
  assumes "pn_inodes b (er_ref r) = Some its" and "\<not> pn_leaf b (er_ref r)" and "er_index r = int i" and "i < length its"
  shows "er_pgid b r = Some (i_pgid (its ! i))"
proof (cases "er_ref r")
  case (Page p)
  note P = pn_page_inodes [OF assms(1) [unfolded Page]]
  have "read_inode p False i = Some (its ! i)" using P(2) [OF assms(4)] assms(2) Page by simp
  moreover have "nat (int i mod 2 ^ 16) = i" using P(3) assms(4) by (simp add: nat_mod_distrib)
  ultimately show ?thesis using Page assms(3) read_inode_branch [of p i] by (auto simp: er_pgid_def)
next
  case (Node n)
  then show ?thesis using assms by (auto simp: er_pgid_def pn_inodes_def int_index_def go_index_def)
qed

lemma er_branch_key_pn:
  assumes "pn_inodes b (er_ref r) = Some its" and "\<not> pn_leaf b (er_ref r)" and "i < length its"
  shows "er_branch_key b r i = Some (i_key (its ! i))"
proof (cases "er_ref r")
  case (Page p)
  have "read_inode p False i = Some (its ! i)" using pn_page_inodes(2) [OF assms(1) [unfolded Page] assms(3)] assms(2) Page by simp
  then show ?thesis using Page read_inode_branch [of p i] by (auto simp: er_branch_key_def)
next
  case (Node n)
  then show ?thesis using assms by (auto simp: er_branch_key_def pn_inodes_def go_index_def)
qed

lemma er_leaf_key_pn:
  assumes "pn_inodes b (er_ref r) = Some its" and "pn_leaf b (er_ref r)" and "i < length its"
  shows "er_leaf_key b r i = Some (i_key (its ! i))"
proof (cases "er_ref r")
  case (Page p)
  have "read_inode p True i = Some (its ! i)" using pn_page_inodes(2) [OF assms(1) [unfolded Page] assms(3)] assms(2) Page by simp
  then show ?thesis using Page read_inode_leaf [of p i] by (auto simp: er_leaf_key_def)
next
  case (Node n)
  then show ?thesis using assms by (auto simp: er_leaf_key_def pn_inodes_def go_index_def)
qed

definition entry_of :: "inode \<Rightarrow> entry" where
  "entry_of x = (i_key x, i_value x, i_flags x)"

lemma cur_keyValue_pn:
  assumes "pn_inodes b (er_ref r) = Some its" and "pn_leaf b (er_ref r)" and "er_index r = int i"
  shows "cur_keyValue b (r # st) = Some (if i < length its then Some (entry_of (its ! i)) else None)"
proof (cases "i < length its")
  case False
  then show ?thesis using er_count_pn [OF assms(1)] assms(3) by (simp add: cur_keyValue_def)
next
  case True
  then have c: "\<not> (er_count b r = 0 \<or> er_index r \<ge> er_count b r)" using er_count_pn [OF assms(1)] assms(3) by auto
  show ?thesis
  proof (cases "er_ref r")
    case (Page p)
    note P = pn_page_inodes [OF assms(1) [unfolded Page]]
    have "read_inode p True i = Some (its ! i)" using P(2) [OF True] assms(2) Page by simp
    moreover have "nat (int i mod 2 ^ 16) = i" using P(3) True by (simp add: nat_mod_distrib)
    ultimately show ?thesis
      using Page assms(3) c True read_inode_leaf [of p i "its ! i"] by (auto simp: cur_keyValue_def entry_of_def)
  next
    case (Node n)
    then show ?thesis using assms c True by (auto simp: cur_keyValue_def pn_inodes_def int_index_def go_index_def entry_of_def)
  qed
qed

text \<open>The searches within a node.\<close>

lemma probe_loop_spec:
  assumes "\<And>h. h < n \<Longrightarrow> f h = Some (bytes_Compare (ks ! h) key)" and "sorted_wrt (<) ks" and "length ks = n" and "i \<le> j" and "j \<le> n"
    and "\<And>h. h < i \<Longrightarrow> ks ! h < key" and "\<And>h. j \<le> h \<Longrightarrow> h < n \<Longrightarrow> key \<le> ks ! h" and "exact \<longleftrightarrow> j < n \<and> ks ! j = key"
  shows "\<exists>r. probe_loop f i j exact = Some (r, r < n \<and> ks ! r = key) \<and> r \<le> n \<and> (\<forall>h < r. ks ! h < key) \<and> (\<forall>h. r \<le> h \<and> h < n \<longrightarrow> key \<le> ks ! h)"
  using assms
proof (induction f i j exact rule: probe_loop.induct)
  case (1 f i j exact)
  show ?case
  proof (cases "i < j")
    case False
    then have "i = j" using "1.prems"(4) by simp
    then have "probe_loop f i j exact = Some (j, j < n \<and> ks ! j = key)" using "1.prems"(8) by (subst probe_loop.simps) simp
    then show ?thesis using "1.prems"(5-7) \<open>i = j\<close> by (intro exI [of _ j]) auto
  next
    case True
    define h where "h = (i + j) div 2"
    have h: "i \<le> h" "h < j" "h < n" using True "1.prems"(5) by (auto simp: h_def)
    have fh: "f h = Some (bytes_Compare (ks ! h) key)" using "1.prems"(1) h(3) by simp
    have mono: "ks ! a \<le> ks ! c" if "a \<le> c" "c < n" for a c
      using sorted_wrt_nth_less [OF "1.prems"(2), of a c] that "1.prems"(3) by (cases "a = c") auto
    show ?thesis
    proof (cases "ks ! h < key")
      case less: True
      then have step: "probe_loop f i j exact = probe_loop f (Suc h) j exact"
        using True fh by (subst probe_loop.simps) (simp add: Let_def bytes_Compare_iff flip: h_def)
      have "ks ! a < key" if "a < Suc h" for a using mono [of a h] that h(3) less by auto
      with "1.IH"(2) [OF True h_def fh] less "1.prems" h show ?thesis
        unfolding step by (simp add: bytes_Compare_iff)
    next
      case False
      then have step: "probe_loop f i j exact = probe_loop f i h (exact \<or> ks ! h = key)"
        using True fh by (subst probe_loop.simps) (auto simp: Let_def bytes_Compare_iff simp flip: h_def)
      have "key \<le> ks ! a" if "h \<le> a" "a < n" for a using mono [of h a] that False by auto
      moreover have "exact \<or> ks ! h = key \<longleftrightarrow> h < n \<and> ks ! h = key"
        using sorted_wrt_nth_less [OF "1.prems"(2), of h j] "1.prems"(3,8) h False by auto
      moreover have c: "bytes_Compare (ks ! h) key \<noteq> -1" "(bytes_Compare (ks ! h) key = 0) = (ks ! h = key)" using False by (simp_all add: bytes_Compare_iff)
      moreover note "1.IH"(1) [OF True h_def fh refl c(1), unfolded c(2)]
      ultimately show ?thesis using "1.prems"(1-3,6) h unfolding step by simp
    qed
  qed
qed

section \<open>Trees\<close>

text \<open>The keys below a branch are separated by the keys of the branch; the first of these may be larger than what is below it.\<close>

definition separated :: "inode list \<Rightarrow> inode list list \<Rightarrow> bool" where
  "separated its parts \<longleftrightarrow> (\<forall>j < length its. \<forall>x \<in> set (parts ! j).
     (0 < j \<longrightarrow> i_key (its ! j) \<le> i_key x) \<and> (Suc j < length its \<longrightarrow> i_key x < i_key (its ! Suc j)))"

text \<open>\<open>subtree b pid n items\<close>: below the page \<open>pid\<close> there is a tree with \<open>n\<close> leaves that holds \<open>items\<close>.\<close>

inductive subtree :: "Bucket \<Rightarrow> pgid \<Rightarrow> nat \<Rightarrow> inode list \<Rightarrow> bool" for b where
  leaf: "pageNode b pid = Some pn \<Longrightarrow> pn_leaf b pn \<Longrightarrow> pn_inodes b pn = Some items \<Longrightarrow> sorted_wrt (<) (map i_key items) \<Longrightarrow> subtree b pid 1 items"
| branch: "pageNode b pid = Some pn \<Longrightarrow> \<not> pn_leaf b pn \<Longrightarrow> pn_typed pn \<Longrightarrow> pn_inodes b pn = Some its \<Longrightarrow> its \<noteq> [] \<Longrightarrow>
    sorted_wrt (<) (map i_key its) \<Longrightarrow> length parts = length its \<Longrightarrow> length ns = length its \<Longrightarrow>
    (\<forall>j < length its. subtree b (i_pgid (its ! j)) (ns ! j) (parts ! j)) \<Longrightarrow> separated its parts \<Longrightarrow> subtree b pid (sum_list ns) (concat parts)"

text \<open>\<open>pending b st n L\<close>: to the right of the path \<open>st\<close> there are \<open>n\<close> leaves, which hold \<open>L\<close>.\<close>

inductive pending :: "Bucket \<Rightarrow> stack \<Rightarrow> nat \<Rightarrow> inode list \<Rightarrow> bool" for b where
  pending_Nil: "pending b [] 0 []"
| pending_Cons: "pn_inodes b (er_ref r) = Some its \<Longrightarrow> \<not> pn_leaf b (er_ref r) \<Longrightarrow> er_index r = int j \<Longrightarrow> j < length its \<Longrightarrow>
    length parts = length its \<Longrightarrow> length ns = length its \<Longrightarrow> (\<forall>k. j < k \<and> k < length its \<longrightarrow> subtree b (i_pgid (its ! k)) (ns ! k) (parts ! k)) \<Longrightarrow>
    pending b st n L \<Longrightarrow> pending b (r # st) (sum_list (drop (Suc j) ns) + n) (concat (drop (Suc j) parts) @ L)"

definition at_leaf :: "Bucket \<Rightarrow> stack \<Rightarrow> inode list \<Rightarrow> nat \<Rightarrow> nat \<Rightarrow> inode list \<Rightarrow> bool" where
  "at_leaf b st L i m R \<longleftrightarrow> (\<exists>r st'. st = r # st' \<and> pn_leaf b (er_ref r) \<and> pn_inodes b (er_ref r) = Some L \<and> sorted_wrt (<) (map i_key L)
     \<and> er_index r = int i \<and> pending b st' m R)"

lemma subtree_pos: "subtree b pid n items \<Longrightarrow> 0 < n"
proof (induction rule: subtree.induct)
  case (branch pid pn its parts ns)
  then have "0 < ns ! 0" "ns ! 0 \<in> set ns" by (auto simp: neq_Nil_conv)
  then show ?case using member_le_sum_list [of "ns ! 0" ns] by linarith
qed simp

lemma subtree_page: "subtree b pid n items \<Longrightarrow> \<exists>pn. pageNode b pid = Some pn"
  by (erule subtree.cases) auto

text \<open>Going down to the first leaf.\<close>

lemma cur_first_leaf: "pn_leaf b (er_ref r) \<Longrightarrow> cur_first b (r # st) = Some (r # st)"
  by (subst cur_first.simps) simp

lemma cur_first_step:
  "\<not> pn_leaf b (er_ref r) \<Longrightarrow> er_pgid b r = Some pid \<Longrightarrow> pageNode b pid = Some pn \<Longrightarrow> cur_first b (r # st) = cur_first b (\<lparr>er_ref = pn, er_index = 0\<rparr> # r # st)"
  by (subst cur_first.simps) simp

lemma first_spec:
  assumes "subtree b pid n items" and "pageNode b pid = Some pn" and "pending b st m R"
  shows "\<exists>st' L post. cur_first b (\<lparr>er_ref = pn, er_index = 0\<rparr> # st) = Some st' \<and> at_leaf b st' L 0 (n - 1 + m) (post @ R) \<and> items = L @ post"
  using assms
proof (induction arbitrary: pn st m R rule: subtree.induct)
  case (leaf pid pn' items)
  then show ?case by (simp add: cur_first_leaf at_leaf_def)
next
  case (branch pid pn' its parts ns)
  let ?r = "\<lparr>er_ref = pn, er_index = 0\<rparr>"
  have pn: "pn' = pn" using branch.hyps(1) branch.prems(1) by simp
  have l: "0 < length its" using branch.hyps(5) by simp
  have sub: "subtree b (i_pgid (its ! 0)) (ns ! 0) (parts ! 0)" using branch.IH l by blast
  then obtain pc where pc: "pageNode b (i_pgid (its ! 0)) = Some pc" using subtree_page by blast
  have pid: "er_pgid b ?r = Some (i_pgid (its ! 0))" using er_pgid_pn [of b ?r its 0] branch.hyps pn l by simp
  have pen: "pending b (?r # st) (sum_list (drop 1 ns) + m) (concat (drop 1 parts) @ R)"
    using pending_Cons [of b ?r its 0 parts ns st m R] branch.hyps branch.IH branch.prems(2) pn l by simp
  obtain st' L post where *: "cur_first b (\<lparr>er_ref = pc, er_index = 0\<rparr> # ?r # st) = Some st'"
      "at_leaf b st' L 0 (ns ! 0 - 1 + (sum_list (drop 1 ns) + m)) (post @ concat (drop 1 parts) @ R)" "parts ! 0 = L @ post"
    using branch.IH l pc pen by blast
  have "parts \<noteq> []" "ns \<noteq> []" using l branch.hyps(7,8) by auto
  then have p: "concat parts = parts ! 0 @ concat (drop 1 parts)" "sum_list ns = ns ! 0 + sum_list (drop 1 ns)"
    by (auto simp: neq_Nil_conv)
  have n: "ns ! 0 - 1 + (sum_list (drop 1 ns) + m) = sum_list ns - 1 + m" using p(2) subtree_pos [OF sub] by linarith
  show ?case
    using cur_first_step [OF _ pid pc, of st] * branch.hyps(2) pn p(1) unfolding n
    by (intro exI [of _ st'] exI [of _ L] exI [of _ "post @ concat (drop 1 parts)"]) simp
qed

text \<open>Moving on to the next leaf.\<close>

lemma bump_pending:
  assumes "pending b st m R"
  shows "(m = 0 \<and> R = [] \<and> cur_bump b st = None)
    \<or> (\<exists>r st' pid n items m' R'. cur_bump b st = Some (r # st') \<and> \<not> pn_leaf b (er_ref r) \<and> er_pgid b r = Some pid
         \<and> subtree b pid n items \<and> pending b (r # st') m' R' \<and> m = n + m' \<and> R = items @ R')"
  using assms
proof (induction rule: pending.induct)
  case pending_Nil
  then show ?case by simp
next
  case (pending_Cons r its j parts ns st n L)
  have c: "er_count b r = int (length its)" by (rule er_count_pn [OF pending_Cons.hyps(1)])
  show ?case
  proof (cases "Suc j < length its")
    case True
    let ?r = "r\<lparr>er_index := int (Suc j)\<rparr>"
    have b: "cur_bump b (r # st) = Some (?r # st)" using c pending_Cons.hyps(3) True by (simp add: add.commute)
    have p: "er_pgid b ?r = Some (i_pgid (its ! Suc j))" using er_pgid_pn [of b ?r its "Suc j"] pending_Cons.hyps(1,2) True by simp
    have sub: "subtree b (i_pgid (its ! Suc j)) (ns ! Suc j) (parts ! Suc j)" using pending_Cons.hyps(7) True by simp
    have pen: "pending b (?r # st) (sum_list (drop (Suc (Suc j)) ns) + n) (concat (drop (Suc (Suc j)) parts) @ L)"
      by (rule pending.pending_Cons [of b ?r its "Suc j" parts ns]) (use pending_Cons.hyps True in auto)
    have "drop (Suc j) ns = ns ! Suc j # drop (Suc (Suc j)) ns" "drop (Suc j) parts = parts ! Suc j # drop (Suc (Suc j)) parts"
      using True pending_Cons.hyps(5,6) by (simp_all add: Cons_nth_drop_Suc)
    then show ?thesis using b p sub pen pending_Cons.hyps(2) by (intro disjI2) (fastforce simp: add.assoc)
  next
    case False
    then have "cur_bump b (r # st) = cur_bump b st" using c pending_Cons.hyps(3,4) by simp
    moreover have "drop (Suc j) ns = []" "drop (Suc j) parts = []" using False pending_Cons.hyps(4-6) by simp_all
    ultimately show ?thesis using pending_Cons.IH by simp
  qed
qed

lemma cur_next_None: "cur_bump b st = None \<Longrightarrow> cur_next b st = Some (st, None)"
  by (subst cur_next.simps) simp

lemma cur_next_step:
  "cur_bump b st = Some st1 \<Longrightarrow> cur_first b st1 = Some st2 \<Longrightarrow>
   cur_next b st = (if er_count b (hd st2) = 0 then cur_next b st2 else Option.bind (cur_keyValue b st2) (\<lambda>e. Some (st2, e)))"
  by (subst cur_next.simps) simp

lemma at_leaf_count: "at_leaf b st L i m R \<Longrightarrow> er_count b (hd st) = int (length L)"
  by (auto simp: at_leaf_def er_count_pn)

lemma at_leaf_keyValue: "at_leaf b st L i m R \<Longrightarrow> cur_keyValue b st = Some (if i < length L then Some (entry_of (L ! i)) else None)"
  using cur_keyValue_pn by (auto simp: at_leaf_def)

lemma next_spec:
  assumes "at_leaf b st L i m R"
  shows "\<exists>st' L' i' m' R' e. cur_next b st = Some (st', e) \<and> at_leaf b st' L' i' m' R'
    \<and> (if drop (Suc i) L @ R = [] then e = None \<and> (st' = st \<or> L' = [])
       else e = Some (entry_of (hd (drop (Suc i) L @ R))) \<and> i' < length L' \<and> drop i' L' @ R' = drop (Suc i) L @ R)"
  using assms
proof (induction m arbitrary: st L i R rule: less_induct)
  case (less m)
  obtain r st0 where st: "st = r # st0" "pn_leaf b (er_ref r)" "pn_inodes b (er_ref r) = Some L" "er_index r = int i" "pending b st0 m R"
      "sorted_wrt (<) (map i_key L)"
    using less.prems by (auto simp: at_leaf_def)
  have c: "er_count b r = int (length L)" by (rule er_count_pn [OF st(3)])
  show ?case
  proof (cases "Suc i < length L")
    case True
    let ?r = "r\<lparr>er_index := int (Suc i)\<rparr>"
    have bump: "cur_bump b st = Some (?r # st0)" using c st(1,4) True by (simp add: add.commute)
    have first: "cur_first b (?r # st0) = Some (?r # st0)" using st(2) by (intro cur_first_leaf) simp
    have leaf: "at_leaf b (?r # st0) L (Suc i) m R" using st by (simp add: at_leaf_def)
    have "cur_next b st = Some (?r # st0, Some (entry_of (L ! Suc i)))"
      using cur_next_step [OF bump first] at_leaf_count [OF leaf] at_leaf_keyValue [OF leaf] True by auto
    moreover have "drop (Suc i) L = L ! Suc i # drop (Suc (Suc i)) L" using True by (simp add: Cons_nth_drop_Suc)
    ultimately show ?thesis
      using leaf True by (intro exI [of _ "?r # st0"] exI [of _ L] exI [of _ "Suc i"] exI [of _ m] exI [of _ R] exI [of _ "Some (entry_of (L ! Suc i))"]) simp
  next
    case False
    then have d: "drop (Suc i) L = []" by simp
    have bump: "cur_bump b st = cur_bump b st0" using c st(1,4) False by simp
    from bump_pending [OF st(5)] show ?thesis
    proof
      assume e: "m = 0 \<and> R = [] \<and> cur_bump b st0 = None"
      then have "cur_next b st = Some (st, None)" using bump cur_next_None by simp
      then show ?thesis using less.prems e d by (intro exI [of _ st] exI [of _ L] exI [of _ i] exI [of _ m] exI [of _ R] exI [of _ None]) simp
    next
      assume "\<exists>r st' pid n items m' R'. cur_bump b st0 = Some (r # st') \<and> \<not> pn_leaf b (er_ref r) \<and> er_pgid b r = Some pid
         \<and> subtree b pid n items \<and> pending b (r # st') m' R' \<and> m = n + m' \<and> R = items @ R'"
      then obtain r1 st1 pid n items m1 R1 where B: "cur_bump b st0 = Some (r1 # st1)" "\<not> pn_leaf b (er_ref r1)" "er_pgid b r1 = Some pid"
          "subtree b pid n items" "pending b (r1 # st1) m1 R1" "m = n + m1" "R = items @ R1"
        by blast
      obtain pn where pn: "pageNode b pid = Some pn" using subtree_page [OF B(4)] by blast
      obtain st2 L2 post where F: "cur_first b (\<lparr>er_ref = pn, er_index = 0\<rparr> # r1 # st1) = Some st2"
          "at_leaf b st2 L2 0 (n - 1 + m1) (post @ R1)" "items = L2 @ post"
        using first_spec [OF B(4) pn B(5)] by blast
      have step: "cur_next b st = (if er_count b (hd st2) = 0 then cur_next b st2 else Option.bind (cur_keyValue b st2) (\<lambda>e. Some (st2, e)))"
        using cur_next_step [of b st "r1 # st1" st2] cur_first_step [OF B(2,3) pn, of st1] bump B(1) F(1) by simp
      show ?thesis
      proof (cases "L2 = []")
        case True
        have lt: "n - 1 + m1 < m" using B(6) subtree_pos [OF B(4)] by linarith
        have e: "cur_next b st = cur_next b st2" using step at_leaf_count [OF F(2)] True by simp
        have r: "drop (Suc 0) L2 @ post @ R1 = drop (Suc i) L @ R" using True d B(7) F(3) by simp
        from less.IH [OF lt F(2)] obtain st' L' i' m' R' e where
            "cur_next b st2 = Some (st', e)" "at_leaf b st' L' i' m' R'"
            "if drop (Suc 0) L2 @ post @ R1 = [] then e = None \<and> (st' = st2 \<or> L' = [])
             else e = Some (entry_of (hd (drop (Suc 0) L2 @ post @ R1))) \<and> i' < length L' \<and> drop i' L' @ R' = drop (Suc 0) L2 @ post @ R1"
          by blast
        moreover have "L' = []" if "st' = st2" "at_leaf b st' L' i' m' R'" for L' i' m' R'
          using that F(2) True by (auto simp: at_leaf_def)
        ultimately show ?thesis using \<open>cur_next b st = cur_next b st2\<close> unfolding r by (metis (no_types, lifting))
      next
        case False
        then have "cur_next b st = Some (st2, Some (entry_of (L2 ! 0)))"
          using step at_leaf_count [OF F(2)] at_leaf_keyValue [OF F(2)] by simp
        moreover have "drop (Suc i) L @ R = L2 @ post @ R1" using d B(7) F(3) by simp
        moreover have "hd (L2 @ post @ R1) = L2 ! 0" using False by (cases L2) auto
        ultimately show ?thesis
          using F(2) False by (intro exI [of _ st2] exI [of _ L2] exI [of _ 0] exI [of _ "n - 1 + m1"] exI [of _ "post @ R1"] exI [of _ "Some (entry_of (L2 ! 0))"]) simp
      qed
    qed
  qed
qed

text \<open>Searching for a key.\<close>

lemma search_branch_spec:
  assumes "pn_inodes b pn = Some its" and "\<not> pn_leaf b pn" and "its \<noteq> []" and "sorted_wrt (<) (map i_key its)" and "r = \<lparr>er_ref = pn, er_index = 0\<rparr>"
  shows "\<exists>j < length its. cur_search_branch b key r = Some (r\<lparr>er_index := int j\<rparr>) \<and> (0 < j \<longrightarrow> i_key (its ! j) \<le> key)
    \<and> (Suc j < length its \<longrightarrow> key < i_key (its ! Suc j))"
proof -
  let ?ks = "map i_key its" and ?f = "\<lambda>i. map_option (\<lambda>k. bytes_Compare k key) (er_branch_key b r i)"
  have c: "nat (er_count b r) = length its" using er_count_pn [of b r its] assms(1,5) by simp
  have f: "?f h = Some (bytes_Compare (?ks ! h) key)" if "h < length its" for h
    using er_branch_key_pn [of b r its h] assms(1,2,5) that by simp
  obtain k where k: "probe_loop ?f 0 (length its) False = Some (k, k < length its \<and> ?ks ! k = key)" "k \<le> length its"
      "\<forall>h < k. ?ks ! h < key" "\<forall>h. k \<le> h \<and> h < length its \<longrightarrow> key \<le> ?ks ! h"
    using probe_loop_spec [of "length its" ?f ?ks key 0 "length its" False, OF f assms(4)] by auto
  let ?exact = "k < length its \<and> ?ks ! k = key"
  define j where "j = (if \<not> ?exact \<and> k > 0 then k - 1 else k)"
  have e: "cur_search_branch b key r = Some (r\<lparr>er_index := int j\<rparr>)"
    unfolding cur_search_branch_def c k(1) j_def by simp
  have le: "key \<le> i_key (its ! h)" if "k \<le> h" "h < length its" for h using k(4) that by auto
  have lt: "i_key (its ! h) < key" if "h < k" for h using k(2,3) that by auto
  have "j < length its" using assms(3) k(2) by (auto simp: j_def)
  moreover have "0 < j \<longrightarrow> i_key (its ! j) \<le> key"
    using lt [of "k - 1"] k(2) by (auto simp: j_def)
  moreover have "Suc j < length its \<longrightarrow> key < i_key (its ! Suc j)"
  proof
    assume s: "Suc j < length its"
    show "key < i_key (its ! Suc j)"
    proof (cases ?exact)
      case True
      then have "j = k" by (simp add: j_def)
      then show ?thesis using sorted_wrt_nth_less [OF assms(4), of k "Suc k"] True s by simp
    next
      case False
      show ?thesis
      proof (cases "k = 0")
        case True
        then have "j = 0" by (simp add: j_def)
        then have "key \<le> i_key (its ! 0)" "i_key (its ! 0) < i_key (its ! Suc 0)"
          using le [of 0] True s sorted_wrt_nth_less [OF assms(4), of 0 "Suc 0"] nth_map [of 0 its i_key] assms(3) by auto
        then show ?thesis using \<open>j = 0\<close> by simp
      next
        case pos: False
        then have j: "Suc j = k" using False by (simp add: j_def)
        then have "key \<le> i_key (its ! k)" "i_key (its ! k) \<noteq> key" using le [of k] False s by auto
        then show ?thesis using j by simp
      qed
    qed
  qed
  ultimately show ?thesis using e by blast
qed

lemma cur_search_leaf:
  assumes "pageNode b pid = Some pn" and "pn_leaf b pn" and "pn_inodes b pn = Some items" and "sorted_wrt (<) (map i_key items)"
  shows "\<exists>i \<le> length items. cur_search b key pid st = Some (\<lparr>er_ref = pn, er_index = int i\<rparr> # st)
    \<and> (\<forall>h < i. i_key (items ! h) < key) \<and> (\<forall>h. i \<le> h \<and> h < length items \<longrightarrow> key \<le> i_key (items ! h))"
proof -
  let ?r = "\<lparr>er_ref = pn, er_index = 0\<rparr>"
  let ?f = "\<lambda>i. map_option (\<lambda>k. bytes_Compare k key \<noteq> -1) (er_leaf_key b ?r i)"
  have c: "nat (er_count b ?r) = length items" using er_count_pn [of b ?r items] assms(3) by simp
  have f: "?f h = Some (key \<le> i_key (items ! h))" if "h < length items" for h
    using er_leaf_key_pn [of b ?r items h] assms(2,3) that by (auto simp: bytes_Compare_iff)
  have mono: "key \<le> i_key (items ! k)" if "h \<le> k" "k < length items" "key \<le> i_key (items ! h)" for h k
    using sorted_wrt_nth_less [OF assms(4), of h k] that by (cases "h = k") auto
  obtain i where i: "sort_Search (length items) ?f = Some i" "i \<le> length items" "\<And>k. k < i \<Longrightarrow> \<not> key \<le> i_key (items ! k)"
      "\<And>k. i \<le> k \<Longrightarrow> k < length items \<Longrightarrow> key \<le> i_key (items ! k)"
    by (rule sort_Search_least [of "length items" ?f "\<lambda>h. key \<le> i_key (items ! h)", OF f mono]) auto
  have n: "cur_nsearch b key ?r = Some (?r\<lparr>er_index := int i\<rparr>)" unfolding cur_nsearch_def c i(1) by simp
  have ty: "\<not> (case pn of Page p \<Rightarrow> p_flags p AND (branchPageFlag OR leafPageFlag) = 0 | Node n \<Rightarrow> False)"
  proof (cases pn)
    case (Page p)
    have "p_flags p AND 2 = (p_flags p AND 3) AND 2" by (simp add: and.assoc)
    then show ?thesis using Page assms(2) by (auto simp: pn_leaf_def)
  qed simp
  have "cur_search b key pid st = Some (\<lparr>er_ref = pn, er_index = int i\<rparr> # st)"
    using assms(1,2) n ty by (subst cur_search.simps) simp
  then show ?thesis using i by (intro exI [of _ i]) (auto simp: not_le)
qed

lemma separated_sides:
  assumes "separated its parts" and "sorted_wrt (<) (map i_key its)" and "length parts = length its" and "j < length its"
    and "0 < j \<longrightarrow> i_key (its ! j) \<le> key" and "Suc j < length its \<longrightarrow> key < i_key (its ! Suc j)"
  shows "x \<in> set (concat (take j parts)) \<Longrightarrow> i_key x < key" "x \<in> set (concat (drop (Suc j) parts)) \<Longrightarrow> key < i_key x"
proof -
  have mono: "i_key (its ! h) \<le> i_key (its ! k)" if "h \<le> k" "k < length its" for h k
    using sorted_wrt_nth_less [OF assms(2), of h k] that by (cases "h = k") auto
  {
    assume "x \<in> set (concat (take j parts))"
    then obtain q where q: "q \<in> set (take j parts)" "x \<in> set q" by auto
    then obtain h where h: "h < j" "x \<in> set (parts ! h)" using assms(3,4) by (auto simp: in_set_conv_nth [of q])
    then have "i_key x < i_key (its ! Suc h)" using assms(1,4) by (auto simp: separated_def)
    also have "\<dots> \<le> i_key (its ! j)" using h assms(4) by (intro mono) auto
    also have "\<dots> \<le> key" using assms(5) h by simp
    finally show "i_key x < key" .
  next
    assume "x \<in> set (concat (drop (Suc j) parts))"
    then obtain q where q: "q \<in> set (drop (Suc j) parts)" "x \<in> set q" by auto
    then obtain k where k: "Suc j + k < length its" "x \<in> set (parts ! (Suc j + k))" using assms(3,4) by (auto simp: in_set_conv_nth [of q] less_diff_conv add.commute)
    have "key < i_key (its ! Suc j)" using k assms(6) by simp
    also have "\<dots> \<le> i_key (its ! (Suc j + k))" using k by (intro mono) auto
    also have "\<dots> \<le> i_key x" using k assms(1) by (auto simp: separated_def)
    finally show "key < i_key x" .
  }
qed

lemma cur_search_step:
  assumes "pageNode b pid = Some pn" and "\<not> pn_leaf b pn" and "pn_typed pn" and "pn_inodes b pn = Some its" and "j < length its"
    and "cur_search_branch b key \<lparr>er_ref = pn, er_index = 0\<rparr> = Some \<lparr>er_ref = pn, er_index = int j\<rparr>"
  shows "cur_search b key pid st = cur_search b key (i_pgid (its ! j)) (\<lparr>er_ref = pn, er_index = int j\<rparr> # st)"
proof -
  let ?e = "\<lparr>er_ref = pn, er_index = int j\<rparr>"
  have pid: "er_pgid b ?e = Some (i_pgid (its ! j))" using er_pgid_pn [of b ?e its j] assms(2,4,5) by simp
  have count: "er_index ?e < er_count b ?e" using er_count_pn [of b ?e its] assms(4,5) by simp
  have ty: "\<not> (case pn of Page p \<Rightarrow> p_flags p AND (branchPageFlag OR leafPageFlag) = 0 | Node n \<Rightarrow> False)"
    using assms(3) by (auto simp: pn_typed_def split: page_node.splits)
  show ?thesis using assms(1,2,6) ty pid count by (subst cur_search.simps) simp
qed

lemma search_spec:
  assumes "subtree b pid n items" and "pending b st m R"
  shows "\<exists>st' L i m' pre post. cur_search b key pid st = Some st' \<and> at_leaf b st' L i m' (post @ R) \<and> i \<le> length L \<and> items = pre @ L @ post
    \<and> (\<forall>x \<in> set pre. i_key x < key) \<and> (\<forall>x \<in> set post. key < i_key x) \<and> (\<forall>h < i. i_key (L ! h) < key)
    \<and> (\<forall>h. i \<le> h \<and> h < length L \<longrightarrow> key \<le> i_key (L ! h))"
  using assms
proof (induction arbitrary: st m R rule: subtree.induct)
  case (leaf pid pn items)
  obtain i where i: "i \<le> length items" "cur_search b key pid st = Some (\<lparr>er_ref = pn, er_index = int i\<rparr> # st)"
      "\<forall>h < i. i_key (items ! h) < key" "\<forall>h. i \<le> h \<and> h < length items \<longrightarrow> key \<le> i_key (items ! h)"
    using cur_search_leaf [OF leaf.hyps, of key st] by blast
  have "at_leaf b (\<lparr>er_ref = pn, er_index = int i\<rparr> # st) items i m ([] @ R)" using leaf.hyps(2-4) leaf.prems by (simp add: at_leaf_def)
  then show ?case using i by (intro exI [of _ "\<lparr>er_ref = pn, er_index = int i\<rparr> # st"] exI [of _ items] exI [of _ i] exI [of _ m] exI [of _ "[]"]) simp
next
  case (branch pid pn its parts ns)
  let ?r = "\<lparr>er_ref = pn, er_index = 0\<rparr>"
  obtain j where j: "j < length its" "cur_search_branch b key ?r = Some (?r\<lparr>er_index := int j\<rparr>)" "0 < j \<longrightarrow> i_key (its ! j) \<le> key"
      "Suc j < length its \<longrightarrow> key < i_key (its ! Suc j)"
    using search_branch_spec [OF branch.hyps(4,2,5,6) refl, of key] by blast
  let ?e = "?r\<lparr>er_index := int j\<rparr>"
  have pid: "er_pgid b ?e = Some (i_pgid (its ! j))" using er_pgid_pn [of b ?e its j] branch.hyps(2,4) j(1) by simp
  have pen: "pending b (?e # st) (sum_list (drop (Suc j) ns) + m) (concat (drop (Suc j) parts) @ R)"
    by (rule pending_Cons [of b ?e its j parts ns]) (use branch.hyps branch.IH branch.prems j(1) in auto)
  have step: "cur_search b key pid st = cur_search b key (i_pgid (its ! j)) (?e # st)"
    using cur_search_step [OF branch.hyps(1-4) j(1), of key st] j(2) by simp
  obtain st' L i m' pre post where *: "cur_search b key (i_pgid (its ! j)) (?e # st) = Some st'"
      "at_leaf b st' L i m' (post @ concat (drop (Suc j) parts) @ R)" "i \<le> length L" "parts ! j = pre @ L @ post"
      "\<forall>x \<in> set pre. i_key x < key" "\<forall>x \<in> set post. key < i_key x" "\<forall>h < i. i_key (L ! h) < key"
      "\<forall>h. i \<le> h \<and> h < length L \<longrightarrow> key \<le> i_key (L ! h)"
    using branch.IH j(1) pen by blast
  note sides = separated_sides [OF branch.hyps(9,6,7) j(1,3,4)]
  have "concat parts = concat (take j parts) @ (parts ! j) @ concat (drop (Suc j) parts)"
    using id_take_nth_drop [of j parts] j(1) branch.hyps(7) by (metis concat.simps(2) concat_append)
  then have "concat parts = (concat (take j parts) @ pre) @ L @ (post @ concat (drop (Suc j) parts))" using *(4) by simp
  moreover have "\<forall>x \<in> set (concat (take j parts) @ pre). i_key x < key" "\<forall>x \<in> set (post @ concat (drop (Suc j) parts)). key < i_key x"
    using sides *(5,6) by auto
  ultimately show ?case
    using step * by (intro exI [of _ st'] exI [of _ L] exI [of _ i] exI [of _ m'] exI [of _ "concat (take j parts) @ pre"] exI [of _ "post @ concat (drop (Suc j) parts)"]) simp
qed

section \<open>What a cursor shows\<close>

definition shown_of :: "inode \<Rightarrow> bytes \<times> bytes option" where
  "shown_of x = (i_key x, if i_flags x AND bucketLeafFlag \<noteq> 0 then None else Some (i_value x))"

lemma hide_entry: "hide (Some (entry_of x)) = Some (shown_of x)" "hide None = None"
  by (simp_all add: hide_def entry_of_def shown_of_def)

lemma cur_Next_iterates:
  assumes "at_leaf b st L i m R" and "bk_db b" and "i < length L" and "length (drop i L @ R) \<le> n"
  shows "iterate (cur_Next b) (Suc n) (st, Some (shown_of (L ! i))) = Some (map shown_of (drop i L @ R))"
  using assms
proof (induction n arbitrary: st L i m R)
  case (Suc n)
  have d: "drop i L = L ! i # drop (Suc i) L" using Suc.prems(3) by (simp add: Cons_nth_drop_Suc)
  obtain st' L' i' m' R' e where N: "cur_next b st = Some (st', e)" "at_leaf b st' L' i' m' R'"
      "if drop (Suc i) L @ R = [] then e = None \<and> (st' = st \<or> L' = [])
       else e = Some (entry_of (hd (drop (Suc i) L @ R))) \<and> i' < length L' \<and> drop i' L' @ R' = drop (Suc i) L @ R"
    using next_spec [OF Suc.prems(1)] by blast
  show ?case
  proof (cases "drop (Suc i) L @ R = []")
    case True
    then have "cur_Next b st = Some (st', None)" using N(1,3) Suc.prems(2) by (simp add: cur_Next_def hide_entry)
    then show ?thesis using True d by simp
  next
    case False
    then have i': "e = Some (entry_of (hd (drop (Suc i) L @ R)))" "i' < length L'" "drop i' L' @ R' = drop (Suc i) L @ R" using N(3) by auto
    have "hd (drop (Suc i) L @ R) = L' ! i'" unfolding i'(3) [symmetric] using i'(2) by (simp add: hd_drop_conv_nth)
    then have "cur_Next b st = Some (st', Some (shown_of (L' ! i')))" using N(1) i'(1) Suc.prems(2) by (simp add: cur_Next_def hide_entry)
    moreover have "iterate (cur_Next b) (Suc n) (st', Some (shown_of (L' ! i'))) = Some (map shown_of (drop i' L' @ R'))"
      by (rule Suc.IH [OF N(2) Suc.prems(2) i'(2)]) (use Suc.prems(4) d i'(3) in simp)
    ultimately show ?thesis using d i'(3) by simp
  qed
qed simp

text \<open>From the position after a search or at the first leaf the remaining entries follow.\<close>

lemma iterates_from:
  assumes "at_leaf b st L i m R" and "bk_db b" and "length (drop i L @ R) \<le> n" and "i \<le> length L" and "i < length L \<Longrightarrow> e = Some (entry_of (L ! i))"
  shows "\<exists>st' e'. (if i < length L then Some (st, e) else cur_next b st) = Some (st', e')
    \<and> iterate (cur_Next b) (Suc n) (st', hide e') = Some (map shown_of (drop i L @ R)) \<and> (e' = None \<longrightarrow> cur_keyValue b st' = Some None)
    \<and> (e' \<noteq> None \<longrightarrow> cur_keyValue b st' = Some e')"
proof (cases "i < length L")
  case True
  then show ?thesis using cur_Next_iterates [OF assms(1,2) True assms(3)] assms(5) at_leaf_keyValue [OF assms(1)] by (simp add: hide_entry)
next
  case False
  then have i: "i = length L" using assms(4) by simp
  obtain st' L' i' m' R' e where N: "cur_next b st = Some (st', e)" "at_leaf b st' L' i' m' R'"
      "if drop (Suc i) L @ R = [] then e = None \<and> (st' = st \<or> L' = [])
       else e = Some (entry_of (hd (drop (Suc i) L @ R))) \<and> i' < length L' \<and> drop i' L' @ R' = drop (Suc i) L @ R"
    using next_spec [OF assms(1)] by blast
  show ?thesis
  proof (cases "R = []")
    case True
    then have e: "e = None" "st' = st \<or> L' = []" using N(3) i by auto
    have "cur_keyValue b st' = Some None" using e(2) at_leaf_keyValue [OF N(2)] at_leaf_keyValue [OF assms(1)] i by auto
    then show ?thesis using N(1) e(1) True i by (simp add: hide_entry)
  next
    case ne: False
    then have i': "e = Some (entry_of (hd R))" "i' < length L'" "drop i' L' @ R' = R" using N(3) i by auto
    have h: "hd R = L' ! i'" unfolding i'(3) [symmetric] using i'(2) by (simp add: hd_drop_conv_nth)
    have "iterate (cur_Next b) (Suc n) (st', Some (shown_of (L' ! i'))) = Some (map shown_of R)"
      using cur_Next_iterates [OF N(2) assms(2) i'(2), of n] assms(3) i i'(3) by simp
    then show ?thesis using N(1) i i' h at_leaf_keyValue [OF N(2)] by (simp add: hide_entry)
  qed
qed

lemma cur_First_spec:
  assumes "subtree b (bk_root b) n items" and "bk_db b"
  shows "\<exists>r. cur_First b = Some r \<and> iterate (cur_Next b) (Suc (length items)) r = Some (map shown_of items)"
proof -
  obtain pn where pn: "pageNode b (bk_root b) = Some pn" using subtree_page [OF assms(1)] by blast
  obtain st L post where F: "cur_first b [\<lparr>er_ref = pn, er_index = 0\<rparr>] = Some st" "at_leaf b st L 0 (n - 1 + 0) (post @ [])" "items = L @ post"
    using first_spec [OF assms(1) pn pending_Nil] by blast
  obtain st' e' where I: "(if 0 < length L then Some (st, Some (entry_of (L ! 0))) else cur_next b st) = Some (st', e')"
      "iterate (cur_Next b) (Suc (length items)) (st', hide e') = Some (map shown_of (drop 0 L @ post @ []))"
      "e' = None \<longrightarrow> cur_keyValue b st' = Some None" "e' \<noteq> None \<longrightarrow> cur_keyValue b st' = Some e'"
    using iterates_from [OF F(2) assms(2), of "length items" "Some (entry_of (L ! 0))"] F(3) by auto
  have kv: "cur_keyValue b st' = Some e'" using I(3,4) by (cases e') auto
  have "(if er_count b (hd st) = 0 then map_option fst (cur_next b st) else Some st) = Some st'"
    using I(1) at_leaf_count [OF F(2)] by (auto split: if_splits)
  then have "cur_First b = Some (st', hide e')" using assms(2) pn F(1) kv by (simp add: cur_First_def)
  then show ?thesis using I(2) F(3) by simp
qed

definition tree_lookup :: "inode list \<Rightarrow> bytes \<Rightarrow> bytes option" where
  "tree_lookup items key = (case find (\<lambda>x. i_key x = key) items of
      None \<Rightarrow> None | Some x \<Rightarrow> if i_flags x AND bucketLeafFlag \<noteq> 0 then None else Some (i_value x))"

lemma find_append_none: "\<forall>x \<in> set xs. \<not> P x \<Longrightarrow> find P (xs @ ys) = find P ys"
  by (induction xs) auto

lemma find_none: "\<forall>x \<in> set xs. \<not> P x \<Longrightarrow> find P xs = None"
  by (induction xs) auto

lemma seek_parts:
  assumes "items = pre @ L @ post" and "\<forall>x \<in> set pre. i_key x < key" and "\<forall>x \<in> set post. key < i_key x" and "i \<le> length L"
    and "\<forall>h < i. i_key (L ! h) < key" and "\<forall>h. i \<le> h \<and> h < length L \<longrightarrow> key \<le> i_key (L ! h)" and "sorted_wrt (<) (map i_key L)"
  shows "dropWhile (\<lambda>x. i_key x < key) items = drop i L @ post"
    and "find (\<lambda>x. i_key x = key) items = (if i < length L \<and> i_key (L ! i) = key then Some (L ! i) else None)"
proof -
  have t: "\<forall>x \<in> set (take i L). i_key x < key" using assms(4,5) by (auto simp: in_set_conv_nth)
  have d: "\<forall>x \<in> set (drop (Suc i) L). key < i_key x"
  proof
    fix x assume "x \<in> set (drop (Suc i) L)"
    then obtain k where "k < length (drop (Suc i) L)" "x = drop (Suc i) L ! k" by (metis in_set_conv_nth)
    then have k: "Suc i + k < length L" "x = L ! (Suc i + k)" by auto
    have "key \<le> i_key (L ! i)" "i_key (L ! i) < i_key (L ! (Suc i + k))"
      using assms(6) k(1) sorted_wrt_nth_less [OF assms(7), of i "Suc i + k"] by auto
    then show "key < i_key x" using k(2) by simp
  qed
  have split: "items = (pre @ take i L) @ drop i L @ post" using assms(1) by simp
  have before: "\<forall>x \<in> set (pre @ take i L). i_key x < key" using assms(2) t by auto
  have after: "dropWhile (\<lambda>x. i_key x < key) (drop i L @ post) = drop i L @ post"
  proof (cases "drop i L")
    case Nil
    then show ?thesis using assms(3) by (cases post) auto
  next
    case (Cons y ys)
    then have "i < length L" "y = L ! i" by (metis drop_all leI list.distinct(1), metis drop_all leI list.distinct(1) nth_via_drop)
    then have "key \<le> i_key y" using assms(6) by auto
    then show ?thesis using Cons by (simp add: not_less)
  qed
  show "dropWhile (\<lambda>x. i_key x < key) items = drop i L @ post"
    unfolding split using dropWhile_append2 [of "pre @ take i L" "\<lambda>x. i_key x < key" "drop i L @ post"] before after by simp
  have "find (\<lambda>x. i_key x = key) items = find (\<lambda>x. i_key x = key) (drop i L @ post)"
    unfolding split by (rule find_append_none) (use before in auto)
  also have "\<dots> = (if i < length L \<and> i_key (L ! i) = key then Some (L ! i) else None)"
  proof (cases "i < length L")
    case True
    have "find (\<lambda>x. i_key x = key) (drop (Suc i) L @ post) = None" by (rule find_none) (use d assms(3) in auto)
    then show ?thesis using True by (simp add: Cons_nth_drop_Suc [symmetric])
  next
    case False
    then show ?thesis using find_none [of post "\<lambda>x. i_key x = key"] assms(3) by auto
  qed
  finally show "find (\<lambda>x. i_key x = key) items = (if i < length L \<and> i_key (L ! i) = key then Some (L ! i) else None)" .
qed

lemma cur_Seek_Get_spec:
  assumes "subtree b (bk_root b) n items" and "bk_db b"
  shows "\<exists>r. cur_Seek b key = Some r \<and> iterate (cur_Next b) (Suc (length items)) r = Some (map shown_of (dropWhile (\<lambda>x. i_key x < key) items))"
    and "bucket_Get b key = Some (tree_lookup items key)"
proof -
  obtain st L i m pre post where S: "cur_search b key (bk_root b) [] = Some st" "at_leaf b st L i m (post @ [])" "i \<le> length L" "items = pre @ L @ post"
      "\<forall>x \<in> set pre. i_key x < key" "\<forall>x \<in> set post. key < i_key x" "\<forall>h < i. i_key (L ! h) < key"
      "\<forall>h. i \<le> h \<and> h < length L \<longrightarrow> key \<le> i_key (L ! h)"
    using search_spec [OF assms(1) pending_Nil, of key] by blast
  have "sorted_wrt (<) (map i_key L)" using S(2) by (auto simp: at_leaf_def)
  note parts = seek_parts [OF S(4-6,3,7,8) this]
  let ?e = "if i < length L then Some (entry_of (L ! i)) else None"
  have seek: "cur_seek b key = Some (st, ?e)" using assms(2) S(1) at_leaf_keyValue [OF S(2)] by (simp add: cur_seek_def)
  have le: "length (drop i L @ post @ []) \<le> length items" using S(4) by simp
  obtain st' e' where I: "(if i < length L then Some (st, ?e) else cur_next b st) = Some (st', e')"
      "iterate (cur_Next b) (Suc (length items)) (st', hide e') = Some (map shown_of (drop i L @ post @ []))"
    using iterates_from [OF S(2) assms(2) le S(3), of ?e] by auto
  have idx: "er_index (hd st) \<ge> er_count b (hd st) \<longleftrightarrow> \<not> i < length L" using at_leaf_count [OF S(2)] S(2) by (auto simp: at_leaf_def)
  have "cur_Seek b key = Some (st', hide e')"
    using seek I(1) idx by (cases "i < length L") (auto simp: cur_Seek_def)
  then show "\<exists>r. cur_Seek b key = Some r \<and> iterate (cur_Next b) (Suc (length items)) r = Some (map shown_of (dropWhile (\<lambda>x. i_key x < key) items))"
    using I(2) parts(1) by simp
  show "bucket_Get b key = Some (tree_lookup items key)"
    unfolding bucket_Get_def seek tree_lookup_def parts(2) by (auto simp: entry_of_def)
qed

end
