(* ===== verification/Tree_Bucket.thy ===== *)
theory Tree_Bucket
  imports Tree_Cursor
begin

text \<open>
  Writing to a bucket (\<^verbatim>\<open>bitree/bdb/bucket.go\<close> and the end of \<^verbatim>\<open>cursor.go\<close>): the nodes on the path to a key are read into memory, and the leaf is
  changed there. The trees of the readers are those of the writers, so reads and writes of a transaction fit together.
\<close>

section \<open>Operations\<close>

abbreviation (input) MaxKeySize :: nat where "MaxKeySize \<equiv> 63744"
abbreviation (input) MaxValueSize :: nat where "MaxValueSize \<equiv> 2147483646"

datatype bdb_error = ErrTxNotWritable | ErrTxClosed | ErrKeyRequired | ErrValueTooLarge | ErrIncompatibleValue

definition bucket_node :: "Bucket \<Rightarrow> pgid \<Rightarrow> addr option \<Rightarrow> (Bucket \<times> addr) option" where
  "bucket_node b pid parent =
     (if \<not> bk_writable b then None
      else case bk_nodes b pid of
        Some a \<Rightarrow> Some (b, a)
      | None \<Rightarrow>
          let (h, a) = nh_new (blankNode\<lparr>nd_parent := parent\<rparr>) (bk_heap b);
              b = (case parent of
                     None \<Rightarrow> b\<lparr>bk_heap := h, bk_rootNode := Some a\<rparr>
                   | Some q \<Rightarrow> b\<lparr>bk_heap := nh_update q (\<lambda>n. n\<lparr>nd_children := nd_children n @ [a]\<rparr>) h\<rparr>)
          in do {
               p \<leftarrow> (case bk_page b of Some p \<Rightarrow> Some p | None \<Rightarrow> tx_page b pid);
               n \<leftarrow> node_read (nh_node (bk_heap b) a) p;
               Some (b\<lparr>bk_heap := nh_update a (\<lambda>_. n) (bk_heap b), bk_nodes := (bk_nodes b)(pid \<mapsto> a)\<rparr>, a)
             })"

definition childAt :: "Bucket \<Rightarrow> addr \<Rightarrow> int \<Rightarrow> (Bucket \<times> addr) option" where
  "childAt b a index =
     (if nd_isLeaf (nh_node (bk_heap b) a) then None
      else do { i \<leftarrow> int_index (nd_inodes (nh_node (bk_heap b) a)) index; bucket_node b (i_pgid i) (Some a) })"

fun walk_down :: "Bucket \<Rightarrow> addr \<Rightarrow> stack \<Rightarrow> (Bucket \<times> addr) option" where
  "walk_down b a [] = Some (b, a)"
| "walk_down b a (r # refs) =
     (if nd_isLeaf (nh_node (bk_heap b) a) then None else do { (b, a) \<leftarrow> childAt b a (er_index r); walk_down b a refs })"

definition descend :: "Bucket \<Rightarrow> stack \<Rightarrow> (Bucket \<times> addr) option" where
  "descend b st =
     do {
       (b, n) \<leftarrow> (case er_ref (last st) of Node a \<Rightarrow> Some (b, a) | Page p \<Rightarrow> bucket_node b (p_id p) None);
       (b, n) \<leftarrow> walk_down b n (rev (tl st));
       (if nd_isLeaf (nh_node (bk_heap b) n) then Some (b, n) else None)
     }"

definition cursor_node :: "Bucket \<Rightarrow> stack \<Rightarrow> (Bucket \<times> addr) option" where
  "cursor_node b st =
     (if st = [] then None
      else case er_ref (hd st) of
        Node a \<Rightarrow> if nd_isLeaf (nh_node (bk_heap b) a) then Some (b, a) else descend b st
      | Page p \<Rightarrow> descend b st)"

definition change_node :: "Bucket \<Rightarrow> addr \<Rightarrow> node \<Rightarrow> Bucket" where
  "change_node b a n = b\<lparr>bk_heap := nh_update a (\<lambda>_. n) (bk_heap b)\<rparr>"

definition bucket_Put :: "Bucket \<Rightarrow> bytes \<Rightarrow> bytes \<Rightarrow> (bdb_error + Bucket) option" where
  "bucket_Put b key val =
     (if \<not> bk_db b then Some (Inl ErrTxClosed)
      else if \<not> bk_writable b then Some (Inl ErrTxNotWritable)
      else if key = [] then Some (Inl ErrKeyRequired)
      else if length val > MaxValueSize then Some (Inl ErrValueTooLarge)
      else
        let key = (if length key > MaxKeySize then take MaxKeySize key else key) in
        do {
          (st, e) \<leftarrow> cur_seek b key;
          (if (case e of Some (k, v, flags) \<Rightarrow> key = k \<and> flags AND bucketLeafFlag \<noteq> 0 | None \<Rightarrow> False) then Some (Inl ErrIncompatibleValue)
           else do {
             (b, a) \<leftarrow> cursor_node b st;
             n \<leftarrow> node_put (bk_high b) (nh_node (bk_heap b) a) key key val 0 0;
             Some (Inr (change_node b a n))
           })
        })"

definition bucket_Delete :: "Bucket \<Rightarrow> bytes \<Rightarrow> (bdb_error + Bucket) option" where
  "bucket_Delete b key =
     (if \<not> bk_db b then Some (Inl ErrTxClosed)
      else if \<not> bk_writable b then Some (Inl ErrTxNotWritable)
      else
        do {
          (st, e) \<leftarrow> cur_seek b key;
          let (k, flags) = (case e of Some (k, v, flags) \<Rightarrow> (k, flags) | None \<Rightarrow> ([], 0));
          (if key \<noteq> k then Some (Inr b)
           else if flags AND bucketLeafFlag \<noteq> 0 then Some (Inl ErrIncompatibleValue)
           else do {
             (b, a) \<leftarrow> cursor_node b st;
             n \<leftarrow> node_del (nh_node (bk_heap b) a) key;
             Some (Inr (change_node b a n))
           })
        })"

text \<open>\<^verbatim>\<open>Cursor.Delete\<close>; without a position the code panics.\<close>

definition cur_Delete :: "Bucket \<Rightarrow> stack \<Rightarrow> (bdb_error + Bucket) option" where
  "cur_Delete b st =
     (if \<not> bk_db b then Some (Inl ErrTxClosed)
      else if \<not> bk_writable b then Some (Inl ErrTxNotWritable)
      else
        do {
          e \<leftarrow> cur_keyValue b st;
          let (k, flags) = (case e of Some (k, v, flags) \<Rightarrow> (k, flags) | None \<Rightarrow> ([], 0));
          (if flags AND bucketLeafFlag \<noteq> 0 then Some (Inl ErrIncompatibleValue)
           else do {
             (b, a) \<leftarrow> cursor_node b st;
             n \<leftarrow> node_del (nh_node (bk_heap b) a) k;
             Some (Inr (change_node b a n))
           })
        })"

definition materialize_root :: "Bucket \<Rightarrow> Bucket option" where
  "materialize_root b = (if bk_rootNode b = None then map_option fst (bucket_node b (bk_root b) None) else Some b)"

definition bucket_SetSequence :: "Bucket \<Rightarrow> u64 \<Rightarrow> (bdb_error + Bucket) option" where
  "bucket_SetSequence b v =
     (if \<not> bk_db b then Some (Inl ErrTxClosed)
      else if \<not> bk_writable b then Some (Inl ErrTxNotWritable)
      else map_option (\<lambda>b. Inr (b\<lparr>bk_sequence := v\<rparr>)) (materialize_root b))"

definition bucket_NextSequence :: "Bucket \<Rightarrow> (bdb_error + Bucket \<times> u64) option" where
  "bucket_NextSequence b =
     (if \<not> bk_db b then Some (Inl ErrTxClosed)
      else if \<not> bk_writable b then Some (Inl ErrTxNotWritable)
      else map_option (\<lambda>b. Inr (b\<lparr>bk_sequence := bk_sequence b + 1\<rparr>, bk_sequence b + 1)) (materialize_root b))"

section \<open>Reading nodes into memory\<close>

definition bucket_ok :: "Bucket \<Rightarrow> bool" where
  "bucket_ok b \<longleftrightarrow> bk_db b \<and> bk_writable b \<and> 0 < bk_high b
     \<and> (if bk_root b = 0 then bk_rootNode b = bk_nodes b 0 else bk_page b = None)
     \<and> (\<forall>p. pageNode b (bk_root b) = Some (Page p) \<longrightarrow> p_id p = bk_root b)
     \<and> (\<forall>pid a. bk_nodes b pid = Some a \<longrightarrow> a < nh_next (bk_heap b)) \<and> (\<forall>p q a. bk_nodes b p = Some a \<and> bk_nodes b q = Some a \<longrightarrow> p = q)"

definition same_view :: "Bucket \<Rightarrow> Bucket \<Rightarrow> pgid \<Rightarrow> bool" where
  "same_view b b' q \<longleftrightarrow> (\<forall>pn. pageNode b q = Some pn \<longrightarrow>
     (\<exists>pn'. pageNode b' q = Some pn' \<and> pn_leaf b' pn' = pn_leaf b pn \<and> pn_inodes b' pn' = pn_inodes b pn \<and> (pn_typed pn \<longrightarrow> pn_typed pn')))"

lemma same_view_trans: "same_view b b' q \<Longrightarrow> same_view b' b'' q \<Longrightarrow> same_view b b'' q"
  unfolding same_view_def by (metis (no_types, lifting))

lemma same_view_refl [simp]: "same_view b b q" "All (same_view b b)"
  by (auto simp: same_view_def)

lemma same_view_at:
  "same_view b b0 q \<Longrightarrow> pageNode b q = Some pn \<Longrightarrow> pageNode b0 q = Some pn' \<Longrightarrow> pn_leaf b0 pn' = pn_leaf b pn \<and> pn_inodes b0 pn' = pn_inodes b pn"
  by (auto simp: same_view_def)

lemma pn_Node: "pn_leaf b (Node a) = nd_isLeaf (nh_node (bk_heap b) a)" "pn_inodes b (Node a) = Some (nd_inodes (nh_node (bk_heap b) a))"
  by (simp_all add: pn_leaf_def pn_inodes_def)

definition same_place :: "Bucket \<Rightarrow> Bucket \<Rightarrow> bool" where
  "same_place b b' \<longleftrightarrow> bk_root b' = bk_root b \<and> bk_high b' = bk_high b \<and> nh_next (bk_heap b) \<le> nh_next (bk_heap b')"

lemma pageNode_ok:
  assumes "bucket_ok b" and "pageNode b pid = Some pn"
  shows "(\<exists>a. pn = Node a \<and> bk_nodes b pid = Some a)
    \<or> (\<exists>p. pn = Page p \<and> bk_nodes b pid = None \<and> (case bk_page b of Some p \<Rightarrow> Some p | None \<Rightarrow> tx_page b pid) = Some p)"
  using assms by (auto simp: bucket_ok_def pageNode_def split: if_splits option.splits)

lemma pageNode_node: "bucket_ok b \<Longrightarrow> bk_nodes b pid = Some a \<Longrightarrow> bk_root b = 0 \<longrightarrow> pid = 0 \<Longrightarrow> pageNode b pid = Some (Node a)"
  by (auto simp: bucket_ok_def pageNode_def split: if_splits)

lemma tx_page_update [simp]: "tx_page (b\<lparr>bk_heap := h\<rparr>) = tx_page b" "tx_page (b\<lparr>bk_nodes := ns\<rparr>) = tx_page b" "tx_page (b\<lparr>bk_rootNode := r\<rparr>) = tx_page b"
  by (auto simp: tx_page_def fun_eq_iff split: option.splits)

lemma bucket_node_ok:
  assumes "bucket_ok b" and "pageNode b pid = Some pn" and "pn_inodes b pn = Some its" and "bk_root b = 0 \<longrightarrow> parent = None"
    and "\<forall>q. parent = Some q \<longrightarrow> q < nh_next (bk_heap b)"
  shows "\<exists>b' a. bucket_node b pid parent = Some (b', a) \<and> bucket_ok b' \<and> same_place b b' \<and> (\<forall>q. same_view b b' q) \<and> pageNode b' pid = Some (Node a)"
proof -
  from pageNode_ok [OF assms(1,2)] show ?thesis
  proof
    assume "\<exists>a. pn = Node a \<and> bk_nodes b pid = Some a"
    then obtain a where a: "pn = Node a" "bk_nodes b pid = Some a" by blast
    then have "bucket_node b pid parent = Some (b, a)" using assms(1) by (simp add: bucket_node_def bucket_ok_def)
    then show ?thesis using a assms(1,2) by (auto simp: same_place_def)
  next
    assume "\<exists>p. pn = Page p \<and> bk_nodes b pid = None \<and> (case bk_page b of Some p \<Rightarrow> Some p | None \<Rightarrow> tx_page b pid) = Some p"
    then obtain p where p: "pn = Page p" "bk_nodes b pid = None" "(case bk_page b of Some p \<Rightarrow> Some p | None \<Rightarrow> tx_page b pid) = Some p" by blast
    let ?h = "bk_heap b" and ?leaf = "p_flags p AND leafPageFlag \<noteq> 0"
    let ?a = "nh_next ?h"
    define h1 where "h1 = fst (nh_new (blankNode\<lparr>nd_parent := parent\<rparr>) ?h)"
    define b1 where "b1 = (case parent of None \<Rightarrow> b\<lparr>bk_heap := h1, bk_rootNode := Some ?a\<rparr>
        | Some q \<Rightarrow> b\<lparr>bk_heap := nh_update q (\<lambda>n. n\<lparr>nd_children := nd_children n @ [?a]\<rparr>) h1\<rparr>)"
    have new: "nh_new (blankNode\<lparr>nd_parent := parent\<rparr>) ?h = (h1, ?a)" by (simp add: h1_def nh_new_def)
    have b1: "bk_root b1 = bk_root b" "bk_page b1 = bk_page b" "bk_nodes b1 = bk_nodes b" "bk_high b1 = bk_high b" "bk_db b1 = bk_db b" "bk_writable b1 = bk_writable b"
        "tx_page b1 = tx_page b" "nh_next (bk_heap b1) = Suc ?a" "parent = None \<Longrightarrow> bk_rootNode b1 = Some ?a" "parent \<noteq> None \<Longrightarrow> bk_rootNode b1 = bk_rootNode b"
      by (auto simp: b1_def h1_def nh_new_def nh_update_def split: option.splits)
    have old: "nd_inodes (nh_node (bk_heap b1) x) = nd_inodes (nh_node ?h x)" "nd_isLeaf (nh_node (bk_heap b1) x) = nd_isLeaf (nh_node ?h x)" if "x < ?a" for x
      using that by (auto simp: b1_def h1_def nh_new_def nh_update_def split: option.splits)
    have its: "those (map (read_inode p ?leaf) [0..<unat (p_count p)]) = Some its" using assms(3) p(1) by (simp add: pn_inodes_def)
    then obtain n where n: "node_read (nh_node (bk_heap b1) ?a) p = Some n" "nd_inodes n = its" "nd_isLeaf n = ?leaf"
      by (auto simp: node_read_def Let_def)
    define b2 where "b2 = b1\<lparr>bk_heap := nh_update ?a (\<lambda>_. n) (bk_heap b1), bk_nodes := (bk_nodes b)(pid \<mapsto> ?a)\<rparr>"
    have w: "bk_writable b" using assms(1) by (simp add: bucket_ok_def)
    have pg: "(case bk_page b1 of Some p \<Rightarrow> Some p | None \<Rightarrow> tx_page b1 pid) = Some p" unfolding b1(2) b1(7) by (rule p(3))
    have "bucket_node b pid parent = Some (b2, ?a)"
      using w p(2) pg n(1) b1(3) by (simp add: bucket_node_def new b1_def [symmetric] b2_def)
    moreover have root0: "bk_root b = 0 \<Longrightarrow> pid = 0" using assms(2) by (auto simp: pageNode_def split: if_splits)
    have b2: "bk_root b2 = bk_root b" "bk_page b2 = bk_page b" "bk_high b2 = bk_high b" "bk_db b2 = bk_db b" "bk_writable b2 = bk_writable b"
        "tx_page b2 = tx_page b" "nh_next (bk_heap b2) = Suc ?a" "bk_rootNode b2 = bk_rootNode b1" "bk_nodes b2 = (bk_nodes b)(pid \<mapsto> ?a)"
      using b1(1-8) by (simp_all add: b2_def nh_update_def)
    have here: "pageNode b2 pid = Some (Node ?a)" using w b2 b1(9) root0 assms(4) by (auto simp: pageNode_def)
    have other: "pageNode b2 q = pageNode b q" if "q \<noteq> pid" for q using that b2(1,5,6,9) root0 by (auto simp: pageNode_def split: option.splits)
    have lt: "x < ?a" if "pageNode b q = Some (Node x)" for q x using pageNode_ok [OF assms(1) that] assms(1) by (auto simp: bucket_ok_def)
    have node: "nd_inodes (nh_node (bk_heap b2) x) = nd_inodes (nh_node ?h x)" "nd_isLeaf (nh_node (bk_heap b2) x) = nd_isLeaf (nh_node ?h x)" if "x < ?a" for x
      using old [OF that] that by (simp_all add: b2_def nh_update_def)
    have view: "same_view b b2 q" for q
    proof (cases "q = pid")
      case True
      then show ?thesis
        using here assms(2,3) p(1) n(2,3) by (simp add: same_view_def pn_leaf_def pn_inodes_def pn_typed_def b2_def nh_update_def)
    next
      case False
      have "pn_leaf b2 pn = pn_leaf b pn" "pn_inodes b2 pn = pn_inodes b pn" if "pageNode b q = Some pn" for pn
        using node [of "case pn of Node x \<Rightarrow> x"] lt [of q] that by (cases pn; auto simp: pn_leaf_def pn_inodes_def)+
      then show ?thesis using other [OF False] by (simp add: same_view_def)
    qed
    have "bucket_ok b2"
      unfolding bucket_ok_def
    proof (intro conjI allI impI)
      show "bk_db b2" "bk_writable b2" "0 < bk_high b2" using assms(1) b2 by (simp_all add: bucket_ok_def)
      show "if bk_root b2 = 0 then bk_rootNode b2 = bk_nodes b2 0 else bk_page b2 = None"
        using assms(1,4) b2 b1(9) root0 by (auto simp: bucket_ok_def)
      show "p_id r = bk_root b2" if "pageNode b2 (bk_root b2) = Some (Page r)" for r
        using that here other [of "bk_root b2"] assms(1) b2(1) by (cases "bk_root b2 = pid") (auto simp: bucket_ok_def)
      show "x < nh_next (bk_heap b2)" if "bk_nodes b2 q = Some x" for q x
        using that assms(1) b2 by (auto simp: bucket_ok_def less_Suc_eq split: if_splits)
      show "q = r" if "bk_nodes b2 q = Some x \<and> bk_nodes b2 r = Some x" for q r x
        using that assms(1) b2(9) by (auto simp: bucket_ok_def split: if_splits)
    qed
    ultimately show ?thesis using view here b2(1,3,7) by (auto simp: same_place_def)
  qed
qed

section \<open>Changing a leaf\<close>

definition new_item :: "bytes \<Rightarrow> bytes \<Rightarrow> inode" where
  "new_item key val = \<lparr>i_flags = 0, i_pgid = 0, i_key = key, i_value = val\<rparr>"

definition put_items :: "bytes \<Rightarrow> bytes \<Rightarrow> inode list \<Rightarrow> inode list" where
  "put_items key val L = takeWhile (\<lambda>x. i_key x < key) L @ new_item key val # dropWhile (\<lambda>x. i_key x \<le> key) L"

definition del_items :: "bytes \<Rightarrow> inode list \<Rightarrow> inode list" where
  "del_items key L = filter (\<lambda>x. i_key x \<noteq> key) L"

lemma search_inodes_at:
  assumes "sorted_wrt (<) (map i_key L)"
  obtains k where "search_inodes L key = Some k" "k \<le> length L" "\<And>h. h < k \<Longrightarrow> i_key (L ! h) < key" "\<And>h. k \<le> h \<Longrightarrow> h < length L \<Longrightarrow> key \<le> i_key (L ! h)"
    "takeWhile (\<lambda>x. i_key x < key) L = take k L"
    "dropWhile (\<lambda>x. i_key x \<le> key) L = drop (if k < length L \<and> i_key (L ! k) = key then Suc k else k) L"
proof -
  have f: "map_option (\<lambda>x. bytes_Compare (i_key x) key \<noteq> -1) (go_index L h) = Some (key \<le> i_key (L ! h))" if "h < length L" for h
    using that by (auto simp: go_index_def bytes_Compare_iff)
  have less: "i_key (L ! h) < i_key (L ! k)" if "h < k" "k < length L" for h k using sorted_wrt_nth_less [OF assms, of h k] that by simp
  have mono: "key \<le> i_key (L ! k)" if "h \<le> k" "k < length L" "key \<le> i_key (L ! h)" for h k
    using less [of h k] that by (cases "h = k") auto
  obtain k where k: "search_inodes L key = Some k" "k \<le> length L" "\<And>h. h < k \<Longrightarrow> \<not> key \<le> i_key (L ! h)"
      "\<And>h. k \<le> h \<Longrightarrow> h < length L \<Longrightarrow> key \<le> i_key (L ! h)"
    unfolding search_inodes_def by (rule sort_Search_least [of "length L" _ "\<lambda>h. key \<le> i_key (L ! h)", OF f mono]) auto
  have t: "takeWhile (\<lambda>x. i_key x < key) L = take k L"
    by (rule takeWhile_eq_take_P_nth) (use k in \<open>auto simp: not_le not_less\<close>)
  let ?k = "if k < length L \<and> i_key (L ! k) = key then Suc k else k"
  have "takeWhile (\<lambda>x. i_key x \<le> key) L = take ?k L"
  proof (rule takeWhile_eq_take_P_nth)
    fix h assume h: "h < ?k" "h < length L"
    show "i_key (L ! h) \<le> key"
    proof (cases "h < k")
      case True
      then show ?thesis using k(3) [of h] by (simp add: not_le)
    next
      case False
      then show ?thesis using h by (auto split: if_splits simp: less_Suc_eq)
    qed
  next
    assume l: "?k < length L"
    show "\<not> i_key (L ! ?k) \<le> key"
    proof (cases "i_key (L ! k) = key")
      case True
      then show ?thesis using l k(2) less [of k "Suc k"] by (auto split: if_splits)
    next
      case False
      then show ?thesis using l k(4) [of k] by (auto split: if_splits)
    qed
  qed
  moreover have "?k \<le> length L" using k(2) by auto
  ultimately have d: "dropWhile (\<lambda>x. i_key x \<le> key) L = drop ?k L"
    by (metis (no_types, lifting) append_same_eq append_take_drop_id takeWhile_dropWhile_id same_append_eq)
  show ?thesis by (rule that [OF k(1,2) _ k(4) t d]) (use k(3) in \<open>auto simp: not_le\<close>)
qed

lemma node_put_spec:
  assumes "sorted_wrt (<) (map i_key (nd_inodes n))" and "key \<noteq> []" and "0 < high"
  shows "node_put high n key key val 0 0 = Some (n\<lparr>nd_inodes := put_items key val (nd_inodes n)\<rparr>)"
proof -
  let ?L = "nd_inodes n"
  obtain k where k: "search_inodes ?L key = Some k" "k \<le> length ?L" "takeWhile (\<lambda>x. i_key x < key) ?L = take k ?L"
      "dropWhile (\<lambda>x. i_key x \<le> key) ?L = drop (if k < length ?L \<and> i_key (?L ! k) = key then Suc k else k) ?L"
    using search_inodes_at [OF assms(1), of key] by metis
  show ?thesis
  proof (cases "k < length ?L \<and> i_key (?L ! k) = key")
    case True
    then show ?thesis using assms(2,3) k by (simp add: node_put_def put_items_def new_item_def upd_conv_take_nth_drop)
  next
    case False
    have "(take k ?L @ x # drop k ?L)[k := y] = take k ?L @ y # drop k ?L" for x y using k(2) by (simp add: list_update_append min_absorb2)
    then show ?thesis using False assms(2,3) k unfolding if_not_P [OF False] by (auto simp: node_put_def put_items_def new_item_def)
  qed
qed

lemma filter_out_one:
  assumes "sorted_wrt (<) (map i_key L)" and "k < length L" and "i_key (L ! k) = key"
  shows "filter (\<lambda>x. i_key x \<noteq> key) L = take k L @ drop (Suc k) L"
proof -
  have less: "i_key (L ! h) < i_key (L ! j)" if "h < j" "j < length L" for h j using sorted_wrt_nth_less [OF assms(1), of h j] that by simp
  have "\<forall>x \<in> set (take k L). i_key x \<noteq> key" using less [of _ k] assms(2,3) by (fastforce simp: in_set_conv_nth)
  moreover have "\<forall>x \<in> set (drop (Suc k) L). i_key x \<noteq> key"
  proof
    fix x assume "x \<in> set (drop (Suc k) L)"
    then obtain j where "j < length (drop (Suc k) L)" "x = drop (Suc k) L ! j" by (metis in_set_conv_nth)
    then have "Suc k + j < length L" "x = L ! (Suc k + j)" by auto
    then show "i_key x \<noteq> key" using less [of k "Suc k + j"] assms(3) by auto
  qed
  ultimately have "filter (\<lambda>x. i_key x \<noteq> key) (take k L @ L ! k # drop (Suc k) L) = take k L @ drop (Suc k) L" using assms(3) by simp
  then show ?thesis using id_take_nth_drop [OF assms(2)] by simp
qed

lemma node_del_spec:
  assumes "sorted_wrt (<) (map i_key (nd_inodes n))"
  shows "\<exists>u. node_del n key = Some (n\<lparr>nd_inodes := del_items key (nd_inodes n), nd_unbalanced := u\<rparr>)"
proof -
  let ?L = "nd_inodes n"
  obtain k where k: "search_inodes ?L key = Some k" "k \<le> length ?L" "\<And>h. h < k \<Longrightarrow> i_key (?L ! h) < key"
      "\<And>h. k \<le> h \<Longrightarrow> h < length ?L \<Longrightarrow> key \<le> i_key (?L ! h)"
    using search_inodes_at [OF assms, of key] by metis
  show ?thesis
  proof (cases "k < length ?L \<and> i_key (?L ! k) = key")
    case True
    then show ?thesis using k(1) filter_out_one [OF assms, of k key] by (auto simp: node_del_def del_items_def)
  next
    case False
    have "i_key (?L ! h) \<noteq> key" if "h < length ?L" for h
    proof (cases "h < k")
      case True
      then show ?thesis using k(3) by auto
    next
      case hk: False
      then have "i_key (?L ! k) \<le> i_key (?L ! h)" "k < length ?L" "key \<le> i_key (?L ! k)"
        using sorted_wrt_nth_less [OF assms, of k h] that k(4) [of k] by (cases "h = k"; auto)+
      then show ?thesis using False by auto
    qed
    then have "\<forall>x \<in> set ?L. i_key x \<noteq> key" by (metis in_set_conv_nth)
    then have "del_items key ?L = ?L" unfolding del_items_def by (rule filter_True)
    then have "node_del n key = Some (n\<lparr>nd_inodes := del_items key ?L, nd_unbalanced := nd_unbalanced n\<rparr>)"
      using k(1,2) False by (auto simp: node_del_def)
    then show ?thesis by blast
  qed
qed

lemma put_items_parts:
  assumes "\<forall>x \<in> set pre. i_key x < key" and "\<forall>x \<in> set post. key < i_key x"
  shows "put_items key val (pre @ L @ post) = pre @ put_items key val L @ post" "del_items key (pre @ L @ post) = pre @ del_items key L @ post"
proof -
  have p: "takeWhile (\<lambda>x. i_key x < key) post = []" "dropWhile (\<lambda>x. i_key x \<le> key) post = post" using assms(2) by (cases post; auto)+
  have "takeWhile (\<lambda>x. i_key x < key) (L @ post) = takeWhile (\<lambda>x. i_key x < key) L" using p(1) by (induction L) auto
  moreover have "dropWhile (\<lambda>x. i_key x \<le> key) (L @ post) = dropWhile (\<lambda>x. i_key x \<le> key) L @ post" using p(2) by (induction L) auto
  moreover have "takeWhile (\<lambda>x. i_key x < key) (pre @ L @ post) = pre @ takeWhile (\<lambda>x. i_key x < key) (L @ post)"
    "dropWhile (\<lambda>x. i_key x \<le> key) (pre @ L @ post) = dropWhile (\<lambda>x. i_key x \<le> key) (L @ post)"
    using assms(1) by (simp_all add: less_imp_le)
  ultimately show "put_items key val (pre @ L @ post) = pre @ put_items key val L @ post" by (simp add: put_items_def)
  have "filter (\<lambda>x. i_key x \<noteq> key) pre = pre" "filter (\<lambda>x. i_key x \<noteq> key) post = post" using assms by (auto intro!: filter_True)
  then show "del_items key (pre @ L @ post) = pre @ del_items key L @ post" by (simp add: del_items_def)
qed

lemma put_items_sorted: "sorted_wrt (<) (map i_key L) \<Longrightarrow> sorted_wrt (<) (map i_key (put_items key val L))" "x \<in> set (put_items key val L) \<Longrightarrow> i_key x = key \<or> x \<in> set L"
proof -
  assume s: "sorted_wrt (<) (map i_key L)"
  have "\<forall>x \<in> set (takeWhile (\<lambda>x. i_key x < key) L). i_key x < key" by (auto dest: set_takeWhileD)
  moreover have d: "\<forall>x \<in> set (dropWhile (\<lambda>x. i_key x \<le> key) L). key < i_key x"
    using s by (induction L) (auto split: if_splits)
  moreover have "sorted_wrt (<) (map i_key (takeWhile (\<lambda>x. i_key x < key) L))" "sorted_wrt (<) (map i_key (dropWhile (\<lambda>x. i_key x \<le> key) L))"
    using s by (metis map_append sorted_wrt_append takeWhile_dropWhile_id)+
  ultimately show "sorted_wrt (<) (map i_key (put_items key val L))"
    by (auto simp: put_items_def new_item_def sorted_wrt_append intro: order.strict_trans)
next
  assume "x \<in> set (put_items key val L)"
  then show "i_key x = key \<or> x \<in> set L" by (auto simp: put_items_def new_item_def dest: set_takeWhileD set_dropWhileD)
qed

lemma del_items_sorted: "sorted_wrt (<) (map i_key L) \<Longrightarrow> sorted_wrt (<) (map i_key (del_items key L))"
  by (induction L) (auto simp: del_items_def)

section \<open>Trees without sharing\<close>

text \<open>\<open>dtree b pid n ids items\<close>: a tree as before, whose pages \<open>ids\<close> are distinct.\<close>

inductive dtree :: "Bucket \<Rightarrow> pgid \<Rightarrow> nat \<Rightarrow> pgid list \<Rightarrow> inode list \<Rightarrow> bool" for b where
  d_leaf: "pageNode b pid = Some pn \<Longrightarrow> pn_leaf b pn \<Longrightarrow> pn_inodes b pn = Some items \<Longrightarrow> sorted_wrt (<) (map i_key items) \<Longrightarrow> dtree b pid 1 [pid] items"
| d_branch: "pageNode b pid = Some pn \<Longrightarrow> \<not> pn_leaf b pn \<Longrightarrow> pn_typed pn \<Longrightarrow> pn_inodes b pn = Some its \<Longrightarrow> its \<noteq> [] \<Longrightarrow>
    sorted_wrt (<) (map i_key its) \<Longrightarrow> length parts = length its \<Longrightarrow> length ns = length its \<Longrightarrow> length idss = length its \<Longrightarrow>
    (\<forall>j < length its. dtree b (i_pgid (its ! j)) (ns ! j) (idss ! j) (parts ! j)) \<Longrightarrow> separated its parts \<Longrightarrow> distinct (pid # concat idss) \<Longrightarrow>
    dtree b pid (sum_list ns) (pid # concat idss) (concat parts)"

lemma dtree_subtree: "dtree b pid n ids items \<Longrightarrow> subtree b pid n items"
  by (induction rule: dtree.induct) (auto intro: subtree.leaf [simplified] subtree.branch)

lemma dtree_page: "dtree b pid n ids items \<Longrightarrow> \<exists>pn its. pageNode b pid = Some pn \<and> pn_inodes b pn = Some its \<and> pid \<in> set ids"
  by (erule dtree.cases) auto

lemma nth_concat_subset: "j < length xss \<Longrightarrow> set (xss ! j) \<subseteq> set (x # concat xss)"
  by (metis UN_upper nth_mem set_concat set_subset_Cons subset_trans)

lemma dtree_frame:
  assumes "dtree b pid n ids items" and "\<forall>q \<in> set ids. same_view b b' q"
  shows "dtree b' pid n ids items"
  using assms
proof (induction rule: dtree.induct)
  case (d_leaf pid pn items)
  then show ?case by (auto simp: same_view_def intro: dtree.d_leaf [simplified])
next
  case (d_branch pid pn its parts ns idss)
  obtain pn' where pn': "pageNode b' pid = Some pn'" "pn_leaf b' pn' = pn_leaf b pn" "pn_inodes b' pn' = pn_inodes b pn" "pn_typed pn'"
    using d_branch.prems d_branch.hyps(1,3) by (auto simp: same_view_def)
  have "dtree b' (i_pgid (its ! j)) (ns ! j) (idss ! j) (parts ! j)" if "j < length its" for j
  proof -
    have "set (idss ! j) \<subseteq> set (pid # concat idss)" by (rule nth_concat_subset) (use that d_branch.hyps(9) in simp)
    then show ?thesis using d_branch.IH that d_branch.prems by blast
  qed
  then show ?case using dtree.d_branch [of b' pid pn' its parts ns idss] pn' d_branch.hyps by auto
qed

lemma dtree_inline: "dtree b pid n ids items \<Longrightarrow> bk_root b = 0 \<Longrightarrow> ids = [pid]"
proof (induction rule: dtree.induct)
  case (d_branch pid pn its parts ns idss)
  have "0 < length its" using d_branch.hyps(5) by simp
  then obtain cn where c: "pageNode b (i_pgid (its ! 0)) = Some cn" "i_pgid (its ! 0) \<in> set (idss ! 0)"
    using d_branch.IH dtree_page by blast
  have "pid = 0" "i_pgid (its ! 0) = 0" using d_branch.hyps(1) c(1) d_branch.prems by (auto simp: pageNode_def split: if_splits)
  moreover have "i_pgid (its ! 0) \<in> set (concat idss)" using c(2) d_branch.hyps(9) \<open>0 < length its\<close> nth_mem [of 0 idss] unfolding set_concat by (metis UN_I)
  ultimately show ?case using d_branch.hyps(11) by auto
qed simp

lemma distinct_concat_other:
  assumes "distinct (concat xss)" and "j < length xss" and "k < length xss" and "j \<noteq> k" and "q \<in> set (xss ! j)"
  shows "q \<notin> set (xss ! k)"
  using assms
proof (induction xss arbitrary: j k)
  case (Cons xs xss)
  have sub: "xss ! i \<in> set xss" if "i < length xss" for i using that by simp
  show ?case
  proof (cases j; cases k)
    fix j' k' assume "j = Suc j'" "k = Suc k'"
    then show ?thesis using Cons by auto
  qed (use Cons.prems sub in \<open>auto simp: disjoint_iff\<close>)
qed simp

text \<open>The way from a page down to a leaf.\<close>

inductive route :: "Bucket \<Rightarrow> pgid \<Rightarrow> stack \<Rightarrow> pgid \<Rightarrow> stack \<Rightarrow> bool" for b where
  route_leaf: "pageNode b pid = Some pn \<Longrightarrow> pn_leaf b pn \<Longrightarrow> pn_inodes b pn = Some its \<Longrightarrow> route b pid st pid st"
| route_branch: "pageNode b pid = Some pn \<Longrightarrow> \<not> pn_leaf b pn \<Longrightarrow> pn_inodes b pn = Some its \<Longrightarrow> j < length its \<Longrightarrow>
    route b (i_pgid (its ! j)) (\<lparr>er_ref = pn, er_index = int j\<rparr> # st) q st' \<Longrightarrow> route b pid st q st'"

definition leaf_at :: "Bucket \<Rightarrow> pgid \<Rightarrow> inode list \<Rightarrow> bool" where
  "leaf_at b q L \<longleftrightarrow> (\<exists>pn. pageNode b q = Some pn \<and> pn_leaf b pn \<and> pn_inodes b pn = Some L)"

definition replaceable :: "Bucket \<Rightarrow> pgid \<Rightarrow> nat \<Rightarrow> pgid list \<Rightarrow> bytes \<Rightarrow> pgid \<Rightarrow> inode list \<Rightarrow> inode list \<Rightarrow> inode list \<Rightarrow> bool" where
  "replaceable b pid n ids key q L pre post \<longleftrightarrow> (\<forall>b' L'. (\<forall>p \<in> set ids - {q}. same_view b b' p) \<longrightarrow> leaf_at b' q L' \<longrightarrow> sorted_wrt (<) (map i_key L') \<longrightarrow>
     (\<forall>x \<in> set L'. i_key x = key \<or> x \<in> set L) \<longrightarrow> dtree b' pid n ids (pre @ L' @ post))"

lemma search_replace:
  assumes "dtree b pid n ids items"
  shows "\<exists>q L pre post i st' pn. cur_search b key pid st = Some (\<lparr>er_ref = pn, er_index = int i\<rparr> # st') \<and> route b pid st q st' \<and> q \<in> set ids
    \<and> pageNode b q = Some pn \<and> pn_leaf b pn \<and> pn_inodes b pn = Some L \<and> sorted_wrt (<) (map i_key L) \<and> i \<le> length L \<and> items = pre @ L @ post
    \<and> (\<forall>x \<in> set pre. i_key x < key) \<and> (\<forall>x \<in> set post. key < i_key x) \<and> (\<forall>h < i. i_key (L ! h) < key)
    \<and> (\<forall>h. i \<le> h \<and> h < length L \<longrightarrow> key \<le> i_key (L ! h)) \<and> replaceable b pid n ids key q L pre post"
  using assms
proof (induction arbitrary: st rule: dtree.induct)
  case (d_leaf pid pn items)
  obtain i where i: "i \<le> length items" "cur_search b key pid st = Some (\<lparr>er_ref = pn, er_index = int i\<rparr> # st)"
      "\<forall>h < i. i_key (items ! h) < key" "\<forall>h. i \<le> h \<and> h < length items \<longrightarrow> key \<le> i_key (items ! h)"
    using cur_search_leaf [OF d_leaf, of key st] by blast
  have "replaceable b pid 1 [pid] key pid items [] []"
    unfolding replaceable_def leaf_at_def by (auto intro: dtree.d_leaf [simplified])
  then show ?case
    using i d_leaf route_leaf [OF d_leaf(1-3)]
    by (intro exI [of _ pid] exI [of _ items] exI [of _ "[]"] exI [of _ "[]"] exI [of _ i] exI [of _ st] exI [of _ pn]) simp
next
  case (d_branch pid pn its parts ns idss)
  let ?r = "\<lparr>er_ref = pn, er_index = 0\<rparr>"
  obtain j where j: "j < length its" "cur_search_branch b key ?r = Some (?r\<lparr>er_index := int j\<rparr>)" "0 < j \<longrightarrow> i_key (its ! j) \<le> key"
      "Suc j < length its \<longrightarrow> key < i_key (its ! Suc j)"
    using search_branch_spec [OF d_branch.hyps(4,2,5,6) refl, of key] by blast
  let ?e = "\<lparr>er_ref = pn, er_index = int j\<rparr>"
  have step: "cur_search b key pid st = cur_search b key (i_pgid (its ! j)) (?e # st)"
    by (rule cur_search_step [OF d_branch.hyps(1-4) j(1)]) (use j(2) in simp)
  obtain q L pre post i st' pq where *: "cur_search b key (i_pgid (its ! j)) (?e # st) = Some (\<lparr>er_ref = pq, er_index = int i\<rparr> # st')"
      "route b (i_pgid (its ! j)) (?e # st) q st'" "q \<in> set (idss ! j)" "pageNode b q = Some pq" "pn_leaf b pq" "pn_inodes b pq = Some L" "sorted_wrt (<) (map i_key L)"
      "i \<le> length L" "parts ! j = pre @ L @ post" "\<forall>x \<in> set pre. i_key x < key" "\<forall>x \<in> set post. key < i_key x" "\<forall>h < i. i_key (L ! h) < key"
      "\<forall>h. i \<le> h \<and> h < length L \<longrightarrow> key \<le> i_key (L ! h)" "replaceable b (i_pgid (its ! j)) (ns ! j) (idss ! j) key q L pre post"
    using d_branch.IH j(1) by blast
  let ?pre = "concat (take j parts) @ pre" and ?post = "post @ concat (drop (Suc j) parts)"
  note sides = separated_sides [OF d_branch.hyps(10,6,7) j(1,3,4)]
  have con: "concat P = concat (take j P) @ (P ! j) @ concat (drop (Suc j) P)" if "length P = length its" for P :: "'z list list"
    using id_take_nth_drop [of j P] j(1) that by (metis concat.simps(2) concat_append)
  have items: "concat parts = ?pre @ L @ ?post" using con [OF d_branch.hyps(7)] *(9) by simp
  have keys: "\<forall>x \<in> set ?pre. i_key x < key" "\<forall>x \<in> set ?post. key < i_key x" using sides *(10,11) by auto
  have q: "q \<in> set (concat idss)" using *(3) nth_mem [of j idss] j(1) d_branch.hyps(9) unfolding set_concat by (metis UN_I)
  have rep: "replaceable b pid (sum_list ns) (pid # concat idss) key q L ?pre ?post"
    unfolding replaceable_def
  proof (intro allI impI)
    fix b' L'
    assume sv: "\<forall>p \<in> set (pid # concat idss) - {q}. same_view b b' p" and L': "leaf_at b' q L'" "sorted_wrt (<) (map i_key L')"
      "\<forall>x \<in> set L'. i_key x = key \<or> x \<in> set L"
    let ?parts = "parts[j := pre @ L' @ post]"
    have "pid \<noteq> q" using d_branch.hyps(11) q by auto
    then obtain pn' where pn': "pageNode b' pid = Some pn'" "pn_leaf b' pn' = pn_leaf b pn" "pn_inodes b' pn' = pn_inodes b pn" "pn_typed pn'"
      using sv d_branch.hyps(1,3) by (auto simp: same_view_def)
    have "dtree b' (i_pgid (its ! k)) (ns ! k) (idss ! k) (?parts ! k)" if k: "k < length its" for k
    proof (cases "k = j")
      case True
      have "set (idss ! j) \<subseteq> set (pid # concat idss)" by (rule nth_concat_subset) (use j(1) d_branch.hyps(9) in simp)
      then have "dtree b' (i_pgid (its ! j)) (ns ! j) (idss ! j) (pre @ L' @ post)"
        using *(14) sv L' unfolding replaceable_def by blast
      then show ?thesis using True j(1) d_branch.hyps(7) by simp
    next
      case False
      have "q \<notin> set (idss ! k)"
        by (rule distinct_concat_other [of idss j k]) (use d_branch.hyps(9,11) j(1) k False *(3) in auto)
      moreover have "set (idss ! k) \<subseteq> set (pid # concat idss)" by (rule nth_concat_subset) (use k d_branch.hyps(9) in simp)
      ultimately have "\<forall>p \<in> set (idss ! k). same_view b b' p" using sv by blast
      moreover have "dtree b (i_pgid (its ! k)) (ns ! k) (idss ! k) (parts ! k)" using d_branch.IH k by simp
      ultimately have "dtree b' (i_pgid (its ! k)) (ns ! k) (idss ! k) (parts ! k)" by (rule dtree_frame [rotated])
      then show ?thesis using False by simp
    qed
    moreover have "separated its ?parts"
      unfolding separated_def
    proof (intro allI impI ballI)
      fix k x assume k: "k < length its" and x: "x \<in> set (?parts ! k)"
      show "(0 < k \<longrightarrow> i_key (its ! k) \<le> i_key x) \<and> (Suc k < length its \<longrightarrow> i_key x < i_key (its ! Suc k))"
      proof (cases "k = j")
        case True
        then have "x \<in> set (pre @ L' @ post)" using x j(1) d_branch.hyps(7) by simp
        then have "i_key x = key \<or> x \<in> set (parts ! j)" using L'(3) *(9) by auto
        then show ?thesis using True j(3,4) d_branch.hyps(10) k by (auto simp: separated_def)
      next
        case False
        then show ?thesis using x k d_branch.hyps(10) by (auto simp: separated_def)
      qed
    qed
    ultimately have "dtree b' pid (sum_list ns) (pid # concat idss) (concat ?parts)"
      using dtree.d_branch [of b' pid pn' its ?parts ns idss] pn' d_branch.hyps by auto
    moreover have "concat ?parts = ?pre @ L' @ ?post" using con [of ?parts] d_branch.hyps(7) j(1) by simp
    ultimately show "dtree b' pid (sum_list ns) (pid # concat idss) (?pre @ L' @ ?post)" by simp
  qed
  have r: "route b pid st q st'" by (rule route_branch [OF d_branch.hyps(1,2,4) j(1) *(2)])
  show ?case
    using step * items keys rep r q
    by (intro exI [of _ q] exI [of _ L] exI [of _ ?pre] exI [of _ ?post] exI [of _ i] exI [of _ st'] exI [of _ pq]) simp
qed

text \<open>Walking down the route in memory: the nodes on the way are read in, the views of all pages stay.\<close>

lemma route_page: "route b pid st q st' \<Longrightarrow> \<exists>pn its. pageNode b pid = Some pn \<and> pn_inodes b pn = Some its"
  by (erule route.cases) auto

lemma walk_route:
  assumes "route b pid st q st'"
  shows "\<exists>ext. st' = ext @ st \<and> ((ext = [] \<and> q = pid) \<or> (ext \<noteq> [] \<and> pageNode b pid = Some (er_ref (last ext))))
    \<and> (\<forall>b0 a. bucket_ok b0 \<longrightarrow> bk_root b0 \<noteq> 0 \<longrightarrow> (\<forall>p. same_view b b0 p) \<longrightarrow> pageNode b0 pid = Some (Node a) \<longrightarrow>
         (\<exists>b1 a1. walk_down b0 a (rev ext) = Some (b1, a1) \<and> bucket_ok b1 \<and> same_place b0 b1 \<and> (\<forall>p. same_view b0 b1 p) \<and> pageNode b1 q = Some (Node a1)))"
  using assms
proof (induction rule: route.induct)
  case (route_leaf pid pn its st)
  then show ?case by (intro exI [of _ "[]"]) (auto simp: same_place_def)
next
  case (route_branch pid pn its j st q st')
  let ?e = "\<lparr>er_ref = pn, er_index = int j\<rparr>" and ?c = "i_pgid (its ! j)"
  obtain ext where ext: "st' = ext @ ?e # st"
    and walk: "\<And>b0 a. bucket_ok b0 \<Longrightarrow> bk_root b0 \<noteq> 0 \<Longrightarrow> (\<forall>p. same_view b b0 p) \<Longrightarrow> pageNode b0 ?c = Some (Node a) \<Longrightarrow>
      \<exists>b1 a1. walk_down b0 a (rev ext) = Some (b1, a1) \<and> bucket_ok b1 \<and> same_place b0 b1 \<and> (\<forall>p. same_view b0 b1 p) \<and> pageNode b1 q = Some (Node a1)"
    using route_branch.IH by blast
  obtain cn cits where c: "pageNode b ?c = Some cn" "pn_inodes b cn = Some cits" using route_page [OF route_branch.hyps(5)] by blast
  have "\<exists>b1 a1. walk_down b0 a (rev (ext @ [?e])) = Some (b1, a1) \<and> bucket_ok b1 \<and> same_place b0 b1 \<and> (\<forall>p. same_view b0 b1 p) \<and> pageNode b1 q = Some (Node a1)"
    if b0: "bucket_ok b0" "bk_root b0 \<noteq> 0" "\<forall>p. same_view b b0 p" "pageNode b0 pid = Some (Node a)" for b0 a
  proof -
    have n: "\<not> nd_isLeaf (nh_node (bk_heap b0) a)" "nd_inodes (nh_node (bk_heap b0) a) = its"
      using same_view_at [OF spec [OF b0(3)] route_branch.hyps(1) b0(4)] route_branch.hyps(2,3) by (simp_all add: pn_Node)
    have child: "childAt b0 a (int j) = bucket_node b0 ?c (Some a)"
      using n route_branch.hyps(4) by (simp add: childAt_def int_index_def go_index_def)
    obtain cn' where cn': "pageNode b0 ?c = Some cn'" "pn_inodes b0 cn' = Some cits"
      using spec [OF b0(3), of ?c] c unfolding same_view_def by auto
    have lt: "a < nh_next (bk_heap b0)" using pageNode_ok [OF b0(1,4)] b0(1) by (auto simp: bucket_ok_def)
    obtain b1 a1 where b1: "bucket_node b0 ?c (Some a) = Some (b1, a1)" "bucket_ok b1" "same_place b0 b1" "\<forall>p. same_view b0 b1 p" "pageNode b1 ?c = Some (Node a1)"
      using bucket_node_ok [OF b0(1) cn', of "Some a"] b0(2) lt by auto
    have sv: "\<forall>p. same_view b b1 p" using b0(3) b1(4) same_view_trans by blast
    have r1: "bk_root b1 \<noteq> 0" using b1(3) b0(2) by (simp add: same_place_def)
    obtain b2 a2 where b2: "walk_down b1 a1 (rev ext) = Some (b2, a2)" "bucket_ok b2" "same_place b1 b2" "\<forall>p. same_view b1 b2 p" "pageNode b2 q = Some (Node a2)"
      using walk [OF b1(2) r1 sv b1(5)] by blast
    have "walk_down b0 a (rev (ext @ [?e])) = Some (b2, a2)" using n(1) child b1(1) b2(1) by simp
    moreover have "same_place b0 b2" using b1(3) b2(3) by (auto simp: same_place_def)
    moreover have "\<forall>p. same_view b0 b2 p" using b1(4) b2(4) same_view_trans by blast
    ultimately show ?thesis using b2(2,5) by blast
  qed
  then show ?case using ext route_branch.hyps(1) by (intro exI [of _ "ext @ [?e]"]) simp
qed

lemma root_node_ok:
  assumes "bucket_ok b" and "pageNode b (bk_root b) = Some pn" and "pn_inodes b pn = Some its"
  shows "\<exists>b0 a0. (case pn of Node a \<Rightarrow> Some (b, a) | Page p \<Rightarrow> bucket_node b (p_id p) None) = Some (b0, a0) \<and> bucket_ok b0 \<and> same_place b b0
    \<and> (\<forall>p. same_view b b0 p) \<and> pageNode b0 (bk_root b) = Some (Node a0)"
proof (cases pn)
  case (Page p)
  then have "p_id p = bk_root b" using assms(1,2) by (simp add: bucket_ok_def)
  then show ?thesis using bucket_node_ok [OF assms, of None] Page by auto
next
  case (Node a)
  then show ?thesis using assms(1,2) by (auto simp: same_place_def)
qed

lemma descend_ok:
  assumes "bucket_ok b" and "route b (bk_root b) [] q st'" and "pageNode b q = Some pn" and "pn_leaf b pn" and "pn_inodes b pn = Some L"
    and "bk_root b = 0 \<longrightarrow> q = bk_root b"
  shows "\<exists>b1 a. descend b (\<lparr>er_ref = pn, er_index = i\<rparr> # st') = Some (b1, a) \<and> bucket_ok b1 \<and> same_place b b1 \<and> (\<forall>p. same_view b b1 p)
    \<and> pageNode b1 q = Some (Node a)"
proof -
  let ?st = "\<lparr>er_ref = pn, er_index = i\<rparr> # st'"
  have walk: "(st' = [] \<and> q = bk_root b \<or> st' \<noteq> [] \<and> pageNode b (bk_root b) = Some (er_ref (last st')))
      \<and> (\<forall>b0 a. bucket_ok b0 \<longrightarrow> bk_root b0 \<noteq> 0 \<longrightarrow> (\<forall>p. same_view b b0 p) \<longrightarrow> pageNode b0 (bk_root b) = Some (Node a) \<longrightarrow>
         (\<exists>b1 a1. walk_down b0 a (rev st') = Some (b1, a1) \<and> bucket_ok b1 \<and> same_place b0 b1 \<and> (\<forall>p. same_view b0 b1 p) \<and> pageNode b1 q = Some (Node a1)))"
    using walk_route [OF assms(2)] by auto
  have inline: "st' = []" if "bk_root b = 0"
    using assms(2) by (rule route.cases) (use that assms(3,4,6) in auto)
  obtain rn its where rn: "pageNode b (bk_root b) = Some rn" "pn_inodes b rn = Some its" using route_page [OF assms(2)] by blast
  have last: "er_ref (last ?st) = rn" using walk rn(1) assms(3) by auto
  obtain b0 a0 where b0: "(case rn of Node a \<Rightarrow> Some (b, a) | Page p \<Rightarrow> bucket_node b (p_id p) None) = Some (b0, a0)" "bucket_ok b0" "same_place b b0"
      "\<forall>p. same_view b b0 p" "pageNode b0 (bk_root b) = Some (Node a0)"
    using root_node_ok [OF assms(1) rn] by blast
  have "\<exists>b1 a. walk_down b0 a0 (rev st') = Some (b1, a) \<and> bucket_ok b1 \<and> same_place b0 b1 \<and> (\<forall>p. same_view b0 b1 p) \<and> pageNode b1 q = Some (Node a)"
  proof (cases "st' = []")
    case True
    then show ?thesis using walk b0(2,5) by (auto simp: same_place_def)
  next
    case False
    then have "bk_root b0 \<noteq> 0" using inline b0(3) by (auto simp: same_place_def)
    then show ?thesis using walk b0(2,4,5) by blast
  qed
  then obtain b1 a where b1: "walk_down b0 a0 (rev st') = Some (b1, a)" "bucket_ok b1" "same_place b0 b1" "\<forall>p. same_view b0 b1 p" "pageNode b1 q = Some (Node a)" by blast
  have sv: "\<forall>p. same_view b b1 p" using b0(4) b1(4) same_view_trans by blast
  then have "nd_isLeaf (nh_node (bk_heap b1) a)" using same_view_at [OF _ assms(3) b1(5)] assms(4) by (simp add: pn_Node)
  then have "descend b ?st = Some (b1, a)" unfolding descend_def last using b0(1) b1(1) by simp
  moreover have "same_place b b1" using b0(3) b1(3) by (auto simp: same_place_def)
  ultimately show ?thesis using b1(2,5) sv by blast
qed

lemma cursor_node_ok:
  assumes "bucket_ok b" and "route b (bk_root b) [] q st'" and "pageNode b q = Some pn" and "pn_leaf b pn" and "pn_inodes b pn = Some L"
    and "bk_root b = 0 \<longrightarrow> q = bk_root b"
  shows "\<exists>b1 a. cursor_node b (\<lparr>er_ref = pn, er_index = i\<rparr> # st') = Some (b1, a) \<and> bucket_ok b1 \<and> same_place b b1 \<and> (\<forall>p. same_view b b1 p)
    \<and> pageNode b1 q = Some (Node a)"
proof (cases pn)
  case (Page p)
  then show ?thesis using descend_ok [OF assms, of i] by (simp add: cursor_node_def)
next
  case (Node a)
  then have "cursor_node b (\<lparr>er_ref = pn, er_index = i\<rparr> # st') = Some (b, a)" using assms(4) by (simp add: cursor_node_def pn_leaf_def)
  then show ?thesis using Node assms(1,3) by (auto simp: same_place_def)
qed

lemma change_node_ok:
  assumes "bucket_ok b" and "pageNode b q = Some (Node a)" and "nd_isLeaf n"
  shows "bucket_ok (change_node b a n)" "same_place b (change_node b a n)" "p \<noteq> q \<Longrightarrow> same_view b (change_node b a n) p" "leaf_at (change_node b a n) q (nd_inodes n)"
proof -
  let ?b = "change_node b a n"
  have b: "pageNode ?b = pageNode b" by (simp add: change_node_def pageNode_def fun_eq_iff cong: if_cong option.case_cong)
  have at: "bk_nodes b q = Some a" using pageNode_ok [OF assms(1,2)] by auto
  show "bucket_ok ?b" using assms(1) b by (simp add: bucket_ok_def change_node_def nh_update_def)
  show "same_place b ?b" by (simp add: same_place_def change_node_def nh_update_def)
  show "leaf_at ?b q (nd_inodes n)" using b assms(2,3) by (simp add: leaf_at_def pn_leaf_def pn_inodes_def change_node_def nh_update_def)
  assume "p \<noteq> q"
  have "pn_leaf ?b pn = pn_leaf b pn" "pn_inodes ?b pn = pn_inodes b pn" if "pageNode b p = Some pn" for pn
  proof -
    have "pn \<noteq> Node a" using pageNode_ok [OF assms(1) that] at \<open>p \<noteq> q\<close> assms(1) by (auto simp: bucket_ok_def)
    then show "pn_leaf ?b pn = pn_leaf b pn" "pn_inodes ?b pn = pn_inodes b pn"
      by (auto simp: pn_leaf_def pn_inodes_def change_node_def nh_update_def split: page_node.splits)
  qed
  then show "same_view b ?b p" by (simp add: same_view_def b)
qed

section \<open>Puts and deletes\<close>

lemma leaf_change:
  assumes "bucket_ok b" and "dtree b (bk_root b) n ids items"
  obtains st e b1 a L pre post where "cur_seek b key = Some (st, e)" "cursor_node b st = Some (b1, a)" "bucket_ok b1"
    "nd_isLeaf (nh_node (bk_heap b1) a)" "nd_inodes (nh_node (bk_heap b1) a) = L" "sorted_wrt (<) (map i_key L)" "items = pre @ L @ post"
    "\<forall>x \<in> set pre. i_key x < key" "\<forall>x \<in> set post. key < i_key x" "e = None \<or> (\<exists>x \<in> set items. e = Some (entry_of x))"
    "\<And>x. x \<in> set items \<Longrightarrow> i_key x = key \<Longrightarrow> e = Some (entry_of x)"
    "\<And>n'. nd_isLeaf n' \<Longrightarrow> sorted_wrt (<) (map i_key (nd_inodes n')) \<Longrightarrow> (\<forall>x \<in> set (nd_inodes n'). i_key x = key \<or> x \<in> set L) \<Longrightarrow>
       bucket_ok (change_node b1 a n') \<and> dtree (change_node b1 a n') (bk_root (change_node b1 a n')) n ids (pre @ nd_inodes n' @ post)"
proof -
  obtain q L pre post i st' pn where S: "cur_search b key (bk_root b) [] = Some (\<lparr>er_ref = pn, er_index = int i\<rparr> # st')" "route b (bk_root b) [] q st'"
      "q \<in> set ids" "pageNode b q = Some pn" "pn_leaf b pn" "pn_inodes b pn = Some L" "sorted_wrt (<) (map i_key L)" "i \<le> length L" "items = pre @ L @ post"
      "\<forall>x \<in> set pre. i_key x < key" "\<forall>x \<in> set post. key < i_key x" "\<forall>h < i. i_key (L ! h) < key"
      "\<forall>h. i \<le> h \<and> h < length L \<longrightarrow> key \<le> i_key (L ! h)" "replaceable b (bk_root b) n ids key q L pre post"
    using search_replace [OF assms(2), of key "[]"] by blast
  have inl: "bk_root b = 0 \<longrightarrow> q = bk_root b" using dtree_inline [OF assms(2)] S(3) by auto
  let ?e = "if i < length L then Some (entry_of (L ! i)) else None" and ?st = "\<lparr>er_ref = pn, er_index = int i\<rparr> # st'"
  have "cur_keyValue b ?st = Some ?e" by (rule cur_keyValue_pn) (use S in simp_all)
  then have seek: "cur_seek b key = Some (?st, ?e)" using S(1) assms(1) by (simp add: cur_seek_def bucket_ok_def)
  obtain b1 a where C: "cursor_node b ?st = Some (b1, a)" "bucket_ok b1" "same_place b b1" "\<forall>p. same_view b b1 p" "pageNode b1 q = Some (Node a)"
    using cursor_node_ok [OF assms(1) S(2,4,5,6) inl, of "int i"] by blast
  have node: "nd_isLeaf (nh_node (bk_heap b1) a)" "nd_inodes (nh_node (bk_heap b1) a) = L"
    using same_view_at [OF spec [OF C(4)] S(4) C(5)] S(5,6) by (simp_all add: pn_Node)
  have found: "?e = Some (entry_of x)" if x: "x \<in> set items" "i_key x = key" for x
  proof -
    have "find (\<lambda>x. i_key x = key) items \<noteq> None" using x by (auto simp: find_None_iff)
    then have i: "i < length L" "i_key (L ! i) = key"
      using seek_parts(2) [OF S(9-11,8,12,13,7)] by (auto split: if_splits)
    have "x \<in> set L" using x S(9-11) by auto
    then obtain k where k: "k < length L" "x = L ! k" by (metis in_set_conv_nth)
    have "k = i"
      using sorted_wrt_nth_less [OF S(7), of i k] sorted_wrt_nth_less [OF S(7), of k i] k i x(2) by (cases k i rule: linorder_cases) auto
    then show ?thesis using i(1) k(2) by simp
  qed
  have change: "bucket_ok (change_node b1 a n') \<and> dtree (change_node b1 a n') (bk_root (change_node b1 a n')) n ids (pre @ nd_inodes n' @ post)"
    if n': "nd_isLeaf n'" "sorted_wrt (<) (map i_key (nd_inodes n'))" "\<forall>x \<in> set (nd_inodes n'). i_key x = key \<or> x \<in> set L" for n'
  proof -
    note ch = change_node_ok [OF C(2,5) n'(1)]
    have "\<forall>p \<in> set ids - {q}. same_view b (change_node b1 a n') p"
    proof
      fix p assume "p \<in> set ids - {q}"
      then have "same_view b1 (change_node b1 a n') p" using ch(3) by simp
      then show "same_view b (change_node b1 a n') p" by (rule same_view_trans [OF spec [OF C(4)]])
    qed
    then have "dtree (change_node b1 a n') (bk_root b) n ids (pre @ nd_inodes n' @ post)"
      using S(14) ch(4) n'(2,3) unfolding replaceable_def by blast
    moreover have "bk_root (change_node b1 a n') = bk_root b" using ch(2) C(3) by (simp add: same_place_def)
    ultimately show ?thesis using ch(1) by simp
  qed
  have "?e = None \<or> (\<exists>x \<in> set items. ?e = Some (entry_of x))" using S(9) by auto
  with change found show ?thesis using that [OF seek C(1,2) node S(7,9-11)] by blast
qed

lemma bucket_Put_ok:
  assumes "bucket_ok b" and "dtree b (bk_root b) n ids items" and "key \<noteq> []" and "length val \<le> MaxValueSize"
    and "\<forall>x \<in> set items. i_key x = take MaxKeySize key \<longrightarrow> i_flags x AND bucketLeafFlag = 0"
  shows "\<exists>b'. bucket_Put b key val = Some (Inr b') \<and> bucket_ok b' \<and> dtree b' (bk_root b') n ids (put_items (take MaxKeySize key) val items)"
proof -
  let ?k = "take MaxKeySize key"
  obtain st e b1 a L pre post where W: "cur_seek b ?k = Some (st, e)" "cursor_node b st = Some (b1, a)" "bucket_ok b1"
    "nd_isLeaf (nh_node (bk_heap b1) a)" "nd_inodes (nh_node (bk_heap b1) a) = L" "sorted_wrt (<) (map i_key L)" "items = pre @ L @ post"
    "\<forall>x \<in> set pre. i_key x < ?k" "\<forall>x \<in> set post. ?k < i_key x" "e = None \<or> (\<exists>x \<in> set items. e = Some (entry_of x))"
    and ch: "\<And>n'. nd_isLeaf n' \<Longrightarrow> sorted_wrt (<) (map i_key (nd_inodes n')) \<Longrightarrow> (\<forall>x \<in> set (nd_inodes n'). i_key x = ?k \<or> x \<in> set L) \<Longrightarrow>
       bucket_ok (change_node b1 a n') \<and> dtree (change_node b1 a n') (bk_root (change_node b1 a n')) n ids (pre @ nd_inodes n' @ post)"
    by (rule leaf_change [OF assms(1,2), of ?k]) blast
  let ?n = "(nh_node (bk_heap b1) a)\<lparr>nd_inodes := put_items ?k val L\<rparr>"
  have k: "(if length key > MaxKeySize then take MaxKeySize key else key) = ?k" "?k \<noteq> []" using assms(3) by auto
  have guard: "\<not> (case e of Some (k, v, flags) \<Rightarrow> ?k = k \<and> flags AND bucketLeafFlag \<noteq> 0 | None \<Rightarrow> False)"
    using W(10) assms(5) by (auto simp: entry_of_def)
  have put: "node_put (bk_high b1) (nh_node (bk_heap b1) a) ?k ?k val 0 0 = Some ?n"
    using node_put_spec [of "nh_node (bk_heap b1) a" ?k "bk_high b1" val] W(3,5,6) k(2) by (simp add: bucket_ok_def)
  have "bucket_Put b key val = Some (Inr (change_node b1 a ?n))"
    unfolding bucket_Put_def Let_def k(1) using assms(1,3,4) W(1,2) guard put by (simp add: bucket_ok_def del: take_eq_Nil)
  moreover have "bucket_ok (change_node b1 a ?n) \<and> dtree (change_node b1 a ?n) (bk_root (change_node b1 a ?n)) n ids (pre @ put_items ?k val L @ post)"
    using ch [of ?n] W(4) put_items_sorted(1) [OF W(6)] put_items_sorted(2) [of _ ?k val L] by simp
  ultimately show ?thesis using put_items_parts(1) [OF W(8,9), of val L] W(7) by simp
qed

lemma bucket_Delete_ok:
  assumes "bucket_ok b" and "dtree b (bk_root b) n ids items" and "\<forall>x \<in> set items. i_key x = key \<longrightarrow> i_flags x AND bucketLeafFlag = 0"
  shows "\<exists>b'. bucket_Delete b key = Some (Inr b') \<and> bucket_ok b' \<and> dtree b' (bk_root b') n ids (del_items key items)"
proof -
  obtain st e b1 a L pre post where W: "cur_seek b key = Some (st, e)" "cursor_node b st = Some (b1, a)" "bucket_ok b1"
    "nd_isLeaf (nh_node (bk_heap b1) a)" "nd_inodes (nh_node (bk_heap b1) a) = L" "sorted_wrt (<) (map i_key L)" "items = pre @ L @ post"
    "\<forall>x \<in> set pre. i_key x < key" "\<forall>x \<in> set post. key < i_key x" "e = None \<or> (\<exists>x \<in> set items. e = Some (entry_of x))"
    and found: "\<And>x. x \<in> set items \<Longrightarrow> i_key x = key \<Longrightarrow> e = Some (entry_of x)"
    and ch: "\<And>n'. nd_isLeaf n' \<Longrightarrow> sorted_wrt (<) (map i_key (nd_inodes n')) \<Longrightarrow> (\<forall>x \<in> set (nd_inodes n'). i_key x = key \<or> x \<in> set L) \<Longrightarrow>
       bucket_ok (change_node b1 a n') \<and> dtree (change_node b1 a n') (bk_root (change_node b1 a n')) n ids (pre @ nd_inodes n' @ post)"
    by (rule leaf_change [OF assms(1,2), of key]) blast
  let ?k = "case e of Some (k, v, flags) \<Rightarrow> k | None \<Rightarrow> []" and ?f = "case e of Some (k, v, flags) \<Rightarrow> flags | None \<Rightarrow> 0"
  have kf: "(case e of Some (k, v, flags) \<Rightarrow> (k, flags) | None \<Rightarrow> ([], 0)) = (?k, ?f)" by (simp split: option.splits prod.splits)
  have opn: "bk_db b" "bk_writable b" using assms(1) by (simp_all add: bucket_ok_def)
  show ?thesis
  proof (cases "key = ?k")
    case False
    then have "\<forall>x \<in> set items. i_key x \<noteq> key" using found by (fastforce simp: entry_of_def)
    then have "del_items key items = items" by (auto simp: del_items_def intro!: filter_True)
    then show ?thesis using False W(1) opn assms(1,2) by (simp add: bucket_Delete_def kf)
  next
    case True
    obtain u where del: "node_del (nh_node (bk_heap b1) a) key = Some ((nh_node (bk_heap b1) a)\<lparr>nd_inodes := del_items key L, nd_unbalanced := u\<rparr>)"
      using node_del_spec [of "nh_node (bk_heap b1) a" key] W(5,6) by auto
    let ?n = "(nh_node (bk_heap b1) a)\<lparr>nd_inodes := del_items key L, nd_unbalanced := u\<rparr>"
    have "?f AND bucketLeafFlag = 0" using W(10) True assms(3) by (auto simp: entry_of_def)
    then have "bucket_Delete b key = Some (Inr (change_node b1 a ?n))"
      using True W(1,2) opn del by (simp add: bucket_Delete_def kf)
    moreover have "bucket_ok (change_node b1 a ?n) \<and> dtree (change_node b1 a ?n) (bk_root (change_node b1 a ?n)) n ids (pre @ del_items key L @ post)"
      using ch [of ?n] W(4) del_items_sorted [OF W(6)] by (simp add: del_items_def)
    ultimately show ?thesis using put_items_parts(2) [OF W(8,9), of L] W(7) by simp
  qed
qed

section \<open>A transaction reads what it has written\<close>

lemma sorted_wrt_concat:
  assumes "\<forall>xs \<in> set xss. sorted_wrt P xs" and "\<And>i j x y. i < j \<Longrightarrow> j < length xss \<Longrightarrow> x \<in> set (xss ! i) \<Longrightarrow> y \<in> set (xss ! j) \<Longrightarrow> P x y"
  shows "sorted_wrt P (concat xss)"
  using assms
proof (induction xss)
  case (Cons xs xss)
  have "sorted_wrt P (concat xss)"
    by (rule Cons.IH) (use Cons.prems(1) in simp, rule Cons.prems(2) [of "Suc _" "Suc _"], simp_all)
  moreover have "P x y" if x: "x \<in> set xs" and y: "y \<in> set (concat xss)" for x y
  proof -
    obtain ys where "ys \<in> set xss" "y \<in> set ys" using y by auto
    then obtain j where "j < length xss" "y \<in> set (xss ! j)" by (metis in_set_conv_nth)
    then show "P x y" using Cons.prems(2) [of 0 "Suc j" x y] x by simp
  qed
  ultimately show ?case using Cons.prems(1) by (simp add: sorted_wrt_append)
qed simp

lemma dtree_sorted: "dtree b pid n ids items \<Longrightarrow> sorted_wrt (<) (map i_key items)"
proof (induction rule: dtree.induct)
  case (d_branch pid pn its parts ns idss)
  have "sorted_wrt (\<lambda>x y. i_key x < i_key y) (concat parts)"
  proof (rule sorted_wrt_concat)
    show "\<forall>xs \<in> set parts. sorted_wrt (\<lambda>x y. i_key x < i_key y) xs"
      using d_branch.IH d_branch.hyps(7) unfolding sorted_wrt_map [symmetric] by (metis in_set_conv_nth)
    fix i j x y assume ij: "i < j" "j < length parts" and x: "x \<in> set (parts ! i)" and y: "y \<in> set (parts ! j)"
    have "i_key x < i_key (its ! Suc i)" "i_key (its ! j) \<le> i_key y"
      using d_branch.hyps(7,10) ij x y by (auto simp: separated_def)
    moreover have "i_key (its ! Suc i) \<le> i_key (its ! j)"
      using sorted_wrt_nth_less [OF d_branch.hyps(6), of "Suc i" j] ij d_branch.hyps(7) by (cases "Suc i = j") auto
    ultimately show "i_key x < i_key y" by (meson less_le_trans order.strict_trans1)
  qed
  then show ?case by (simp add: sorted_wrt_map)
qed simp

lemma find_upd: "sorted_wrt (<) (map i_key L) \<Longrightarrow>
    find (\<lambda>x. i_key x = k) (put_items key val L) = (if k = key then Some (new_item key val) else find (\<lambda>x. i_key x = k) L)"
  "find (\<lambda>x. i_key x = k) (del_items key L) = (if k = key then None else find (\<lambda>x. i_key x = k) L)"
proof -
  assume "sorted_wrt (<) (map i_key L)"
  then show "find (\<lambda>x. i_key x = k) (put_items key val L) = (if k = key then Some (new_item key val) else find (\<lambda>x. i_key x = k) L)"
  proof (induction L)
    case (Cons x L)
    have gt: "\<forall>y \<in> set L. i_key x < i_key y" using Cons.prems by simp
    have "dropWhile (\<lambda>y. i_key y \<le> i_key x) L = L" using gt by (cases L) auto
    then show ?case using Cons by (auto simp: put_items_def new_item_def not_less)
  qed (simp add: put_items_def new_item_def)
next
  show "find (\<lambda>x. i_key x = k) (del_items key L) = (if k = key then None else find (\<lambda>x. i_key x = k) L)"
    by (induction L) (auto simp: del_items_def)
qed

lemma lookup_upd:
  "sorted_wrt (<) (map i_key L) \<Longrightarrow> tree_lookup (put_items key val L) = (tree_lookup L)(key \<mapsto> val)"
  "tree_lookup (del_items key L) = (tree_lookup L)(key := None)"
  by (auto simp: tree_lookup_def find_upd fun_eq_iff new_item_def)

text \<open>The keys of nested buckets, and the error that a call returns.\<close>

datatype write_op = OpPut bytes bytes | OpDelete bytes

definition nested_key :: "inode list \<Rightarrow> bytes \<Rightarrow> bool" where
  "nested_key items key \<longleftrightarrow> (\<exists>x \<in> set items. i_key x = key \<and> i_flags x AND bucketLeafFlag \<noteq> 0)"

fun op_error :: "inode list \<Rightarrow> write_op \<Rightarrow> bdb_error option" where
  "op_error items (OpPut key val) =
     (if key = [] then Some ErrKeyRequired else if length val > MaxValueSize then Some ErrValueTooLarge
      else if nested_key items key then Some ErrIncompatibleValue else None)"
| "op_error items (OpDelete key) = (if nested_key items key then Some ErrIncompatibleValue else None)"

fun op_fits :: "write_op \<Rightarrow> bool" where
  "op_fits (OpPut key val) \<longleftrightarrow> length key \<le> 32768"
| "op_fits (OpDelete key) \<longleftrightarrow> True"

fun bucket_op :: "write_op \<Rightarrow> Bucket \<Rightarrow> (bdb_error + Bucket) option" where
  "bucket_op (OpPut key val) b = bucket_Put b key val"
| "bucket_op (OpDelete key) b = bucket_Delete b key"

text \<open>A sequence of calls, each with the error it returns. A call that returns an error leaves the bucket as it was.\<close>

definition bucket_step :: "write_op \<Rightarrow> Bucket \<Rightarrow> (Bucket \<times> bdb_error option) option" where
  "bucket_step w b = map_option (\<lambda>r. case r of Inl e \<Rightarrow> (b, Some e) | Inr b \<Rightarrow> (b, None)) (bucket_op w b)"

fun run_steps :: "('w \<Rightarrow> 's \<Rightarrow> ('s \<times> 'e) option) \<Rightarrow> 'w list \<Rightarrow> 's \<Rightarrow> ('s \<times> 'e list) option" where
  "run_steps step [] s = Some (s, [])"
| "run_steps step (w # ws) s = do { (s, e) \<leftarrow> step w s; (s, es) \<leftarrow> run_steps step ws s; Some (s, e # es) }"

fun write_list :: "write_op \<Rightarrow> inode list \<Rightarrow> inode list" where
  "write_list (OpPut key val) items = put_items key val items"
| "write_list (OpDelete key) items = del_items key items"

definition item_op :: "write_op \<Rightarrow> inode list \<Rightarrow> inode list" where
  "item_op w items = (if op_error items w = None then write_list w items else items)"

fun write_map :: "write_op \<Rightarrow> (bytes \<rightharpoonup> bytes) \<Rightarrow> (bytes \<rightharpoonup> bytes)" where
  "write_map (OpPut key val) m = m(key \<mapsto> val)"
| "write_map (OpDelete key) m = m(key := None)"

definition map_op :: "(write_op \<Rightarrow> bdb_error option) \<Rightarrow> write_op \<Rightarrow> (bytes \<rightharpoonup> bytes) \<Rightarrow> (bytes \<rightharpoonup> bytes)" where
  "map_op err w m = (if err w = None then write_map w m else m)"

lemma bucket_Put_nested:
  assumes "bucket_ok b" and "dtree b (bk_root b) n ids items" and "key \<noteq> []" and "length val \<le> MaxValueSize" and "length key \<le> MaxKeySize"
    and "nested_key items key"
  shows "bucket_Put b key val = Some (Inl ErrIncompatibleValue)"
proof -
  obtain st e where W: "cur_seek b key = Some (st, e)" "\<And>x. x \<in> set items \<Longrightarrow> i_key x = key \<Longrightarrow> e = Some (entry_of x)"
    by (rule leaf_change [OF assms(1,2), of key]) blast
  obtain x where "x \<in> set items" "i_key x = key" "i_flags x AND bucketLeafFlag \<noteq> 0" using assms(6) by (auto simp: nested_key_def)
  then show ?thesis using W assms(1,3-5) by (auto simp: bucket_Put_def bucket_ok_def entry_of_def)
qed

lemma bucket_Delete_nested:
  assumes "bucket_ok b" and "dtree b (bk_root b) n ids items" and "nested_key items key"
  shows "bucket_Delete b key = Some (Inl ErrIncompatibleValue)"
proof -
  obtain st e where W: "cur_seek b key = Some (st, e)" "\<And>x. x \<in> set items \<Longrightarrow> i_key x = key \<Longrightarrow> e = Some (entry_of x)"
    by (rule leaf_change [OF assms(1,2), of key]) blast
  obtain x where "x \<in> set items" "i_key x = key" "i_flags x AND bucketLeafFlag \<noteq> 0" using assms(3) by (auto simp: nested_key_def)
  then show ?thesis using W assms(1) by (auto simp: bucket_Delete_def bucket_ok_def entry_of_def)
qed

lemma bucket_step_ok:
  assumes "bucket_ok b" and "dtree b (bk_root b) n ids items" and "op_fits w"
  shows "\<exists>b'. bucket_step w b = Some (b', op_error items w) \<and> bucket_ok b' \<and> dtree b' (bk_root b') n ids (item_op w items)"
proof (cases w)
  case (OpPut key val)
  then have "take MaxKeySize key = key" "length key \<le> MaxKeySize" using assms(3) by simp_all
  moreover have "key = [] \<Longrightarrow> bucket_Put b key val = Some (Inl ErrKeyRequired)"
      "key \<noteq> [] \<Longrightarrow> MaxValueSize < length val \<Longrightarrow> bucket_Put b key val = Some (Inl ErrValueTooLarge)"
    using assms(1) by (simp_all add: bucket_Put_def bucket_ok_def)
  ultimately have P: "case op_error items w of
      None \<Rightarrow> \<exists>b'. bucket_Put b key val = Some (Inr b') \<and> bucket_ok b' \<and> dtree b' (bk_root b') n ids (put_items key val items)
    | Some e \<Rightarrow> bucket_Put b key val = Some (Inl e)"
    using bucket_Put_ok [OF assms(1,2), of key val] bucket_Put_nested [OF assms(1,2), of key val] unfolding OpPut by (simp add: nested_key_def)
  show ?thesis
  proof (cases "op_error items w")
    case None
    then show ?thesis using P by (auto simp: OpPut bucket_step_def item_op_def simp del: op_error.simps)
  next
    case (Some e)
    then show ?thesis using P assms(1,2) by (simp add: OpPut bucket_step_def item_op_def del: op_error.simps)
  qed
next
  case (OpDelete key)
  show ?thesis
    using bucket_Delete_ok [OF assms(1,2), of key] bucket_Delete_nested [OF assms(1,2), of key] assms(1,2)
    by (cases "nested_key items key") (auto simp: OpDelete bucket_step_def item_op_def nested_key_def)
qed

text \<open>Nested buckets stay as they are: a call is refused or not whatever was written before.\<close>

lemma put_items_set:
  "sorted_wrt (<) (map i_key L) \<Longrightarrow> set (put_items key val L) = insert (new_item key val) {x \<in> set L. i_key x \<noteq> key}"
proof (induction L)
  case (Cons x L)
  show ?case
  proof (cases "i_key x < key")
    case True
    then have "put_items key val (x # L) = x # put_items key val L" by (simp add: put_items_def)
    then show ?thesis using Cons True by auto
  next
    case False
    have gt: "\<forall>y \<in> set L. key < i_key y" using Cons.prems False by (auto simp: not_less)
    then have "dropWhile (\<lambda>y. i_key y \<le> key) L = L" by (cases L) auto
    then have "put_items key val (x # L) = new_item key val # (if i_key x = key then L else x # L)" using False by (auto simp: put_items_def)
    then show ?thesis using gt by auto
  qed
qed (simp add: put_items_def)

lemma op_error_stays: "sorted_wrt (<) (map i_key items) \<Longrightarrow> op_error (item_op w items) w' = op_error items w'"
proof -
  assume s: "sorted_wrt (<) (map i_key items)"
  have "nested_key (item_op w items) k = nested_key items k" for k
    using put_items_set [OF s] by (cases w) (auto simp: item_op_def nested_key_def new_item_def del_items_def split: if_splits)
  then show ?thesis by (cases w') simp_all
qed

text \<open>A store whose steps follow an abstract value: \<open>shows_val s v\<close> relates the two, a step that is allowed has the outcome and the effect of the abstract one, and
  outcomes do not depend on the steps before.\<close>

locale write_session =
  fixes step :: "'w \<Rightarrow> 's \<Rightarrow> ('s \<times> 'e) option" and shows_val :: "'s \<Rightarrow> 'v \<Rightarrow> bool" and effect :: "'w \<Rightarrow> 'v \<Rightarrow> 'v"
    and outcome :: "'v \<Rightarrow> 'w \<Rightarrow> 'e" and allowed :: "'w \<Rightarrow> bool"
  assumes step_ok: "shows_val s v \<Longrightarrow> allowed w \<Longrightarrow> \<exists>s'. step w s = Some (s', outcome v w) \<and> shows_val s' (effect w v)"
    and same_outcome: "shows_val s v \<Longrightarrow> outcome (effect w v) w' = outcome v w'"
begin

lemma session_runs:
  "shows_val s v \<Longrightarrow> \<forall>w \<in> set ws. allowed w \<Longrightarrow> \<exists>s'. run_steps step ws s = Some (s', map (outcome v) ws) \<and> shows_val s' (fold effect ws v)"
proof (induction ws arbitrary: s v)
  case (Cons w ws)
  obtain s1 where s1: "step w s = Some (s1, outcome v w)" "shows_val s1 (effect w v)" using step_ok [OF Cons.prems(1)] Cons.prems(2) by auto
  have "outcome (effect w v) = outcome v" using same_outcome [OF Cons.prems(1)] by (simp add: fun_eq_iff)
  then show ?case using Cons.IH [OF s1(2)] Cons.prems(2) s1(1) by auto
qed simp

end

interpretation bucket_session: write_session bucket_step "\<lambda>b items. bucket_ok b \<and> dtree b (bk_root b) n ids items" item_op op_error op_fits for n ids
  by unfold_locales (use bucket_step_ok op_error_stays dtree_sorted in blast)+

lemma lookup_ops:
  "sorted_wrt (<) (map i_key items) \<Longrightarrow> tree_lookup (fold item_op ws items) = fold (map_op (op_error items)) ws (tree_lookup items)
     \<and> sorted_wrt (<) (map i_key (fold item_op ws items))"
proof (induction ws arbitrary: items)
  case (Cons w ws)
  have "sorted_wrt (<) (map i_key (item_op w items))" "tree_lookup (item_op w items) = map_op (op_error items) w (tree_lookup items)"
    using put_items_sorted(1) [OF Cons.prems] del_items_sorted [OF Cons.prems] lookup_upd Cons.prems by (cases w; simp add: item_op_def map_op_def)+
  moreover have "op_error (item_op w items) = op_error items" using op_error_stays [OF Cons.prems] by (simp add: fun_eq_iff)
  ultimately show ?case using Cons.IH [of "item_op w items"] by simp
qed simp

text \<open>
  C40: A write transaction on a bucket whose pages and nodes form a search tree behaves as a sorted map. In any sequence of puts and deletes, with put
  keys of at most 32768 bytes, a put of an empty key returns \<^verbatim>\<open>ErrKeyRequired\<close>, a put of a value beyond \<^verbatim>\<open>MaxValueSize\<close> returns \<^verbatim>\<open>ErrValueTooLarge\<close>, and a put or
  a delete of the key of a nested bucket returns \<^verbatim>\<open>ErrIncompatibleValue\<close>; these change nothing, and all other calls succeed. Afterwards \<^verbatim>\<open>Get\<close> returns of every
  key what a map updated by the successful calls has, \<^verbatim>\<open>First\<close> and \<^verbatim>\<open>Next\<close> show all the entries in order, and \<^verbatim>\<open>Seek\<close> and \<^verbatim>\<open>Next\<close> those from the key on. Pages are
  read into memory as needed, and leaves may become empty.
\<close>

theorem bucket_refines_map:
  assumes "bucket_ok b" and "dtree b (bk_root b) n ids items" and "\<forall>w \<in> set ws. op_fits w"
  shows "\<exists>b' items'. run_steps bucket_step ws b = Some (b', map (op_error items) ws) \<and> items' = fold item_op ws items
    \<and> (\<forall>key. bucket_Get b' key = Some (fold (map_op (op_error items)) ws (tree_lookup items) key))
    \<and> (\<exists>r. cur_First b' = Some r \<and> iterate (cur_Next b') (Suc (length items')) r = Some (map shown_of items'))
    \<and> (\<forall>key. \<exists>r. cur_Seek b' key = Some r
         \<and> iterate (cur_Next b') (Suc (length items')) r = Some (map shown_of (dropWhile (\<lambda>x. i_key x < key) items')))
    \<and> sorted_wrt (<) (map i_key items')"
proof -
  obtain b' where b': "run_steps bucket_step ws b = Some (b', map (op_error items) ws)" "bucket_ok b'" "dtree b' (bk_root b') n ids (fold item_op ws items)"
    using bucket_session.session_runs [OF conjI [OF assms(1,2)] assms(3)] by blast
  have t: "subtree b' (bk_root b') n (fold item_op ws items)" "bk_db b'" using dtree_subtree [OF b'(3)] b'(2) by (simp_all add: bucket_ok_def)
  show ?thesis
    using b'(1) cur_First_spec [OF t] cur_Seek_Get_spec [OF t] lookup_ops [OF dtree_sorted [OF assms(2)], of ws] by auto
qed

text \<open>A tree with the branch 3, a leaf node 4 in memory with one entry, and an empty leaf page 5 in the file.\<close>

definition sample_bucket :: Bucket where
  "sample_bucket = \<lparr>bk_root = 3, bk_sequence = 0, bk_page = None, bk_rootNode = Some 0, bk_nodes = [3 \<mapsto> 0, 4 \<mapsto> 1],
     bk_heap = \<lparr>nh_node = (\<lambda>_. blankNode)
         (0 := blankNode\<lparr>nd_pgid := 3, nd_children := [1],
            nd_inodes := [\<lparr>i_flags = 0, i_pgid = 4, i_key = [1], i_value = []\<rparr>, \<lparr>i_flags = 0, i_pgid = 5, i_key = [7], i_value = []\<rparr>]\<rparr>,
          1 := blankNode\<lparr>nd_isLeaf := True, nd_pgid := 4, nd_parent := Some 0, nd_inodes := [new_item [1] [2]]\<rparr>), nh_next = 2\<rparr>,
     bk_db = True, bk_writable = True, bk_pages = Map.empty,
     bk_file = [5 \<mapsto> \<lparr>p_id = 5, p_flags = leafPageFlag, p_count = 0, p_overflow = 0, p_data = []\<rparr>], bk_high = 6\<rparr>"

lemma sample_bucket_ok: "bucket_ok sample_bucket"
  by (auto simp: bucket_ok_def sample_bucket_def pageNode_def split: if_splits)

lemma sample_dtree: "dtree sample_bucket (bk_root sample_bucket) 2 [3, 4, 5] [new_item [1] [2]]"
proof -
  let ?b = sample_bucket and ?its = "[\<lparr>i_flags = 0, i_pgid = 4, i_key = [1], i_value = []\<rparr>, \<lparr>i_flags = 0, i_pgid = 5, i_key = [7], i_value = []\<rparr>]"
  have "dtree ?b 4 1 [4] [new_item [1] [2]]"
    by (rule d_leaf [of _ _ "Node 1"]) (simp_all add: sample_bucket_def pageNode_def pn_leaf_def pn_inodes_def)
  moreover have "dtree ?b 5 1 [5] []"
    by (rule d_leaf [of _ _ "Page \<lparr>p_id = 5, p_flags = leafPageFlag, p_count = 0, p_overflow = 0, p_data = []\<rparr>"])
      (simp_all add: sample_bucket_def pageNode_def tx_page_def pn_leaf_def pn_inodes_def)
  ultimately have "dtree ?b 3 (sum_list [1, 1]) (3 # concat [[4], [5]]) (concat [[new_item [1] [2]], []])"
    by (intro d_branch [of _ _ "Node 0" ?its])
      (auto simp: sample_bucket_def pageNode_def pn_leaf_def pn_inodes_def pn_typed_def separated_def new_item_def less_Suc_eq nth_Cons' blankNode_def)
  moreover have "bk_root ?b = 3" "sum_list [1, 1] = (2 :: nat)" by (simp_all add: sample_bucket_def)
  ultimately show ?thesis by (simp add: numeral_2_eq_2)
qed

theorem bucket_refines_map_witness:
  "\<exists>b'. run_steps bucket_step [OpPut [9] [4], OpDelete [1], OpPut [] [3], OpPut [9] [5]] sample_bucket = Some (b', [None, None, Some ErrKeyRequired, None])
    \<and> bucket_Get b' [9] = Some (Some [5]) \<and> bucket_Get b' [1] = Some None \<and> bucket_Get b' [] = Some None
    \<and> (\<exists>r. cur_First b' = Some r \<and> iterate (cur_Next b') 2 r = Some [([9], Some [5])])"
proof -
  let ?ws = "[OpPut [9] [4], OpDelete [1], OpPut [] [3], OpPut [9] [5]]" and ?i = "[new_item [1] [2]]"
  have ok: "\<forall>w \<in> set ?ws. op_fits w" by simp
  have err: "map (op_error ?i) ?ws = [None, None, Some ErrKeyRequired, None]" by (simp add: nested_key_def new_item_def)
  have items: "fold item_op ?ws ?i = [new_item [9] [5]]"
    by (simp add: item_op_def nested_key_def put_items_def del_items_def new_item_def)
  have get: "fold (map_op (op_error ?i)) ?ws (tree_lookup ?i) [9] = Some [5]" "fold (map_op (op_error ?i)) ?ws (tree_lookup ?i) [1] = None"
      "fold (map_op (op_error ?i)) ?ws (tree_lookup ?i) [] = None"
    by (simp_all add: map_op_def nested_key_def new_item_def tree_lookup_def)
  have shown: "map shown_of [new_item [9] [5]] = [([9], Some [5])]" "Suc (length [new_item [9] [5]]) = 2" by (simp_all add: shown_of_def new_item_def)
  obtain b' where "run_steps bucket_step ?ws sample_bucket = Some (b', map (op_error ?i) ?ws)"
      "\<forall>key. bucket_Get b' key = Some (fold (map_op (op_error ?i)) ?ws (tree_lookup ?i) key)"
      "\<exists>r. cur_First b' = Some r \<and> iterate (cur_Next b') (Suc (length [new_item [9] [5]])) r = Some (map shown_of [new_item [9] [5]])"
    using bucket_refines_map [OF sample_bucket_ok sample_dtree ok] unfolding items by blast
  then show ?thesis unfolding shown err using get by metis
qed

end
