(* ===== verification/Spec2Isabelle.thy ===== *)
theory Spec2Isabelle
  imports Log_Reader Flushable_Batch Array_Table Super_Table Freelist_Safe Plain_Flush Iter_Refine Tree_Bucket
begin

text \<open>
  A verification library for bitaloslog, a store of logs in Go. File names below are relative to the sources of the repository.

  \<^bold>\<open>The program.\<close> A write is collected in a \<^emph>\<open>batch\<close> (\<^verbatim>\<open>batch.go\<close>), which is appended as one record to the write-ahead log
  (\<^verbatim>\<open>internal/record\<close>) and applied to a table in memory; a batch that is too large for such a table is kept as it is, with a sorted index.
  A \<^emph>\<open>flush\<close> of the plain database (\<^verbatim>\<open>plain_flush.go\<close>) merges the tables in memory (\<^verbatim>\<open>merging_iter.go\<close>), keeps the newest version of
  every key (\<^verbatim>\<open>compaction_iter.go\<close>), writes a sorted \<^emph>\<open>array table\<close> (\<^verbatim>\<open>array_table.go\<close> over the mapped file of \<^verbatim>\<open>table.go\<close>), records
  its number in the metadata (\<^verbatim>\<open>manifest.go\<close>) and releases the old logs (\<^verbatim>\<open>log_recycler.go\<close>). Readers use lookups and the
  iterator of \<^verbatim>\<open>iterator.go\<close>. The sequential database stores its values in append-only \<^emph>\<open>super tables\<close> (\<^verbatim>\<open>bitree/super_table.go\<close>), and in a
  B+ tree of pages in a mapped file (\<^verbatim>\<open>bitree/bdb\<close>) with a list of free pages.

  \<^bold>\<open>Conventions.\<close> Bytes are 8-bit words, lengths and offsets are words of the width of the code where they are stored and natural numbers where they
  cannot overflow under the hypotheses stated; wrap-around on page ids is written out. A result \<open>None\<close> is a panic or, for a loop that is a
  \<^theory_text>\<open>partial_function\<close>, that it does not return: so \<open>f x = Some y\<close> says that the call returns. An error that the code returns is a value of a
  datatype of errors. State is passed explicitly, as a record with the fields of the struct; nodes of the B+ tree live in a heap, because they point to
  each other.

  \<^bold>\<open>The theories.\<close>
  \<^item> \<open>Prelude\<close>: slices, indices and their panics, the codecs of \<^verbatim>\<open>encoding/binary\<close>, \<^verbatim>\<open>bytes.Compare\<close>, \<^verbatim>\<open>sort.Search\<close>; the locales
    \<open>total_cmp\<close> (a comparer) and \<open>record_stream\<close> (a byte format of records). \<open>Iterators\<close>: \<^verbatim>\<open>sort.Sort\<close>, and the locale \<open>forward_iter\<close>,
    which the iterators of batches, array tables and super tables interpret.
  \<^item> \<open>Internal_Key\<close> (\<^verbatim>\<open>internal/base/internal.go\<close>): keys with sequence number and kind. Packing (C1), encoding (C2) and order (C3).
  \<^item> \<open>Batch\<close> (\<^verbatim>\<open>batch.go\<close>): what is written to a batch is read from it (C4), also after it was serialised (C5); truncated records (C6). A record is
    written byte by byte into the room that \<^verbatim>\<open>grow\<close> made, with the checks of every index and slice, and then filled by \<^verbatim>\<open>copy\<close>.
  \<^item> \<open>Log_Writer\<close>, \<open>Log_Reader\<close> (\<^verbatim>\<open>internal/record/log_writer.go\<close>, \<^verbatim>\<open>record.go\<close>, \<^verbatim>\<open>internal/crc\<close>): a closed log reads as the records
    written (C7), and any prefix of a log, which is what a crash leaves, as a prefix of them (C8).
  \<^item> \<open>Flushable_Batch\<close> (\<^verbatim>\<open>batch.go\<close>): the index of a large batch (C9), lookups (C10), iteration in both directions up to the bound ahead (C11).
  \<^item> \<open>Table\<close>, \<open>Array_Table\<close> (\<^verbatim>\<open>table.go\<close>, \<^verbatim>\<open>array_table.go\<close>, \<^verbatim>\<open>array_table_iterator.go\<close>): writing and reopening (C12), lookups (C13), iteration
    (C14), and a panic at the end of a bounded iteration (C15).
  \<^item> \<open>Super_Table\<close> (\<^verbatim>\<open>bitree/super_table.go\<close>, \<^verbatim>\<open>super_table_iterator.go\<close>): reads after flushes (C16), recovery after a crash (C17), and where it
    goes wrong: a rebuild that does not end (C18) and a torn entry that displaces the next ones (C19).
  \<^item> \<open>Freelist\<close>, \<open>Freelist_Safe\<close> (\<^verbatim>\<open>bitree/bdb/freelist.go\<close>, \<^verbatim>\<open>freelist_hmap.go\<close>, \<^verbatim>\<open>freelist_bitmap.go\<close>, \<^verbatim>\<open>page.go\<close>, \<^verbatim>\<open>db.go\<close>, \<^verbatim>\<open>tx.go\<close>): the first holds
    the operations and the lemmas on each of them, the second the theorems. Both allocators keep the contract \<open>page_allocator\<close> (C20). The reachable states,
    from opening a database over frees, releases and rollbacks to failing commits, keep free and pending pages apart with an exact cache (C21). No page of
    an open reader is released (C22), page ids are merged (C23), the freelist is read back from the list of ids and from the bitmap page that
    \<^verbatim>\<open>commitFreelist\<close> writes (C24), a rollback with its reload has an exact effect (C25), with one case that makes pending pages free, and the two
    allocators differ on an empty page (C26).
  \<^item> \<open>Metadata\<close> (\<^verbatim>\<open>manifest.go\<close>, \<^verbatim>\<open>meta.go\<close>, \<^verbatim>\<open>bitree/manifest.go\<close>, \<^verbatim>\<open>internal/mmap\<close>): edits survive reopening (C27), file numbers are unique (C28),
    sequence numbers after a restart (C29), the range of signed fields (C30).
  \<^item> \<open>Merging_Iter\<close>, \<open>Level_Merge\<close> (\<^verbatim>\<open>merging_iter.go\<close>): a heap of iterators shows the merge of its levels in both directions (C31). The levels keep the
    contract \<open>level_stream\<close>; array table iterators are such levels.
  \<^item> \<open>Compaction\<close>, \<open>Flush_Tables\<close>, \<open>Plain_Flush\<close> (\<^verbatim>\<open>compaction_iter.go\<close>, \<^verbatim>\<open>compaction.go\<close>, \<^verbatim>\<open>plain_flush.go\<close>, \<^verbatim>\<open>log_recycler.go\<close>, \<^verbatim>\<open>plain_db.go\<close>): the newest
    versions (C32), what a flush writes (C33), reads before and after it (C34), a flush of nothing (C35), the recycler (C36) and the release of logs (C37).
    \<open>Flush_Tables\<close> shows that large batches and array tables with their flush iterators are inputs as a flush expects them, and the statements are
    applied to them.
  \<^item> \<open>User_Iter\<close>, \<open>Iter_Cursor\<close>, \<open>Iter_Refine\<close> (\<^verbatim>\<open>iterator.go\<close>): the iterator refines a cursor over an ordered map (C38). The iterator below
    it keeps the contract \<open>entry_cursor\<close>, which the iterator of a large batch does.
  \<^item> \<open>Tree_Node\<close> (\<^verbatim>\<open>bitree/bdb/node.go\<close>, \<^verbatim>\<open>page.go\<close>): splitting a node and writing its parts to pages (C39).
  \<^item> \<open>Tree_Cursor\<close>, \<open>Tree_Bucket\<close> (\<^verbatim>\<open>bitree/bdb/cursor.go\<close>, \<^verbatim>\<open>bucket.go\<close>, \<^verbatim>\<open>tx.go\<close>): a write transaction on a bucket behaves as a sorted map, with its
    own writes visible to lookups and cursors and the errors of refused calls (C40). A bucket is a tree of pages and nodes, \<open>dtree\<close>; reading a page into a node does not change what the
    tree shows, and a put or a delete replaces the entries of one leaf.

  \<^bold>\<open>Bounds and fuel.\<close> \<open>iterate nxt n\<close> calls an iterator at most \<open>n\<close> times and is \<open>None\<close> when it has not ended by then; the statements use it with one more
  than the number of entries, so they include that the iteration ends. The loops that follow pages, chunks or entries without an obvious measure are
  partial functions whose results are shown to be \<open>Some\<close>. Array tables and batches hold 32-bit offsets and keys with 16-bit lengths: the
  statements about them ask for less than 4 GiB and for keys below 64 KiB. A page has fewer than 65535 entries, as the code asserts.

  \<^bold>\<open>Parameters.\<close> The bitmap library of the freelist is a parameter of the operations that use it, with the hypotheses, in C24, that it reads back
  what it serialised, as a sorted array, and that a smaller set does not need more bytes. The order in which Go visits a map is a parameter,
  with the hypothesis that it lists the keys. Comparers are parameters with the laws of a total order, except where the code itself compares bytes. The
  tables that a flush reads are a parameter with the contract \<open>flush_input\<close>, and for C34 with a \<^verbatim>\<open>get\<close> that finds the first version of a key; large
  batches and array tables keep the first, and large batches keep the second for the keys that they do not delete. The uninitialised memory of \<^verbatim>\<open>rawalloc\<close> is a field of the
  batch. The fill percent of a bucket is a rational number and not a floating point one.

  \<^bold>\<open>Not modelled.\<close> The tables in memory (\<^verbatim>\<open>mem_table.go\<close>, \<^verbatim>\<open>internal/arenaskl\<close>) are a lock-free skip list with raw pointers. Of the B+ tree, the
  commit of a transaction with \<^verbatim>\<open>spill\<close> and \<^verbatim>\<open>rebalance\<close> (\<^verbatim>\<open>commitFreelist\<close> is modelled, without the growth of the file), nested buckets, statistics, and the meta pages and the mapping of the file are left out. The
  commit pipeline, the opening and closing of databases, the scheduling of flushes, and \<^verbatim>\<open>bitree.go\<close> with its flusher are goroutines and locks around the
  parts above. File systems (\<^verbatim>\<open>internal/vfs\<close>) are input and output, and their errors do not occur in the model. \<^verbatim>\<open>record.Writer\<close> has no caller, and
  \<^verbatim>\<open>internal/iterator\<close> repeats \<^verbatim>\<open>merging_iter.go\<close>.
\<close>

end
